(* ===== verification/Prelude.thy ===== *)
theory Prelude
  imports Main "HOL-Library.Word" "HOL-Library.List_Lexorder" "HOL-Library.Char_ord"
    "HOL-Library.Monad_Syntax" "HOL-Library.Signed_Division"
begin

text \<open>
  Vocabulary shared by every component: machine integers, byte strings and their little-endian
  encodings, checked slicing (the Rust operations that panic or return \<open>None\<close> out of range),
  searching lists, strings with their UTF-8 validity and decimal numerals, checked arithmetic.
\<close>

type_synonym byte = "8 word"
type_synonym u16 = "16 word"
type_synonym u32 = "32 word"
type_synonym u64 = "64 word"
type_synonym i64 = "64 word"

named_theorems le_simps \<open>little-endian encodings and their inverses\<close>
named_theorems slice_simps \<open>checked slicing and overwriting of byte strings\<close>

subsection \<open>Little-endian integers\<close>

fun le_bytes :: "nat \<Rightarrow> nat \<Rightarrow> byte list" where
  "le_bytes 0 x = []"
| "le_bytes (Suc k) x = of_nat x # le_bytes k (x div 256)"

fun le_nat :: "byte list \<Rightarrow> nat" where
  "le_nat [] = 0"
| "le_nat (b # bs) = unat b + 256 * le_nat bs"

lemma length_le_bytes [simp]: "length (le_bytes k x) = k"
  by (induction k arbitrary: x) auto

lemma le_bytes_Nil_iff [simp]: "le_bytes k x = [] \<longleftrightarrow> k = 0"
  by (cases k) auto

lemma unat_of_nat_byte [simp]: "unat (of_nat x :: byte) = x mod 256"
  by (simp add: unat_of_nat)

lemma le_nat_le_bytes [le_simps]: "le_nat (le_bytes k x) = x mod 256 ^ k"
proof (induction k arbitrary: x)
  case (Suc k)
  have "x mod 256 ^ Suc k = 256 * (x div 256 mod 256 ^ k) + x mod 256"
    by (simp add: mod_mult2_eq)
  with Suc show ?case by simp
qed simp

lemma le_nat_bound: "le_nat bs < 256 ^ length bs"
proof (induction bs)
  case (Cons b bs)
  have "unat b < 256" using unsigned_less [of b] by simp
  moreover have "256 * Suc (le_nat bs) \<le> 256 * 256 ^ length bs"
    using Cons by (intro mult_le_mono) auto
  ultimately have "unat b + 256 * le_nat bs < 256 * 256 ^ length bs" by simp
  then show ?case by simp
qed simp

lemma le_bytes_le_nat [le_simps]: "le_bytes (length bs) (le_nat bs) = bs"
proof (induction bs)
  case (Cons b bs)
  have b: "unat b < 256" using unsigned_less [of b] by simp
  have "(unat b + 256 * le_nat bs) div 256 = le_nat bs" using b by simp
  moreover have "(of_nat (unat b + 256 * le_nat bs) :: byte) = b"
  proof -
    have "(256 :: byte) = 0" by transfer simp
    then show ?thesis by (simp only: of_nat_add of_nat_mult of_nat_numeral mult_zero_left) simp
  qed
  ultimately show ?case using Cons by (simp del: of_nat_add of_nat_mult of_nat_numeral)
qed simp

definition le16 :: "u16 \<Rightarrow> byte list" where "le16 w = le_bytes 2 (unat w)"
definition le32 :: "u32 \<Rightarrow> byte list" where "le32 w = le_bytes 4 (unat w)"
definition le64 :: "u64 \<Rightarrow> byte list" where "le64 w = le_bytes 8 (unat w)"
definition from_le16 :: "byte list \<Rightarrow> u16" where "from_le16 bs = of_nat (le_nat bs)"
definition from_le32 :: "byte list \<Rightarrow> u32" where "from_le32 bs = of_nat (le_nat bs)"
definition from_le64 :: "byte list \<Rightarrow> u64" where "from_le64 bs = of_nat (le_nat bs)"

lemma length_le [simp]:
  "length (le16 a) = 2" "length (le32 b) = 4" "length (le64 c) = 8"
  by (simp_all add: le16_def le32_def le64_def)

lemma from_le_le [simp]:
  "from_le16 (le16 a) = a" "from_le32 (le32 b) = b" "from_le64 (le64 c) = c"
proof -
  have "unat a < 256 ^ 2" "unat b < 256 ^ 4" "unat c < 256 ^ 8"
    using unsigned_less [of a] unsigned_less [of b] unsigned_less [of c] by simp_all
  then show "from_le16 (le16 a) = a" "from_le32 (le32 b) = b" "from_le64 (le64 c) = c"
    by (simp_all add: from_le16_def le16_def from_le32_def le32_def from_le64_def le64_def
        le_nat_le_bytes)
qed

lemma le_from_le:
  "length bs = 2 \<Longrightarrow> le16 (from_le16 bs) = bs"
  "length bs = 4 \<Longrightarrow> le32 (from_le32 bs) = bs"
  "length bs = 8 \<Longrightarrow> le64 (from_le64 bs) = bs"
proof -
  have u: "le_nat bs < 2 ^ n \<Longrightarrow> take_bit n (le_nat bs) = le_nat bs" for n
    by (simp add: take_bit_nat_eq_self)
  show "length bs = 2 \<Longrightarrow> le16 (from_le16 bs) = bs"
    using le_nat_bound [of bs] le_bytes_le_nat [of bs]
    by (simp add: le16_def from_le16_def unat_of_nat)
  show "length bs = 4 \<Longrightarrow> le32 (from_le32 bs) = bs"
    using le_nat_bound [of bs] le_bytes_le_nat [of bs]
    by (simp add: le32_def from_le32_def unat_of_nat)
  show "length bs = 8 \<Longrightarrow> le64 (from_le64 bs) = bs"
    using le_nat_bound [of bs] le_bytes_le_nat [of bs]
    by (simp add: le64_def from_le64_def unat_of_nat)
qed

subsection \<open>Counters\<close>

lemma unat_Suc: "(w :: u64) \<noteq> - 1 \<Longrightarrow> unat (w + 1) = unat w + 1"
  by (metis Suc_eq_plus1 add.commute eq_neg_iff_add_eq_0 unatSuc)

lemma below_not_max: "unat (a :: u64) < unat (b :: u64) \<Longrightarrow> a \<noteq> - 1"
  using word_n1_ge [of b] by (auto simp: word_le_nat_alt)

lemma less_Suc_u64: "(w :: u64) \<noteq> - 1 \<Longrightarrow> x < w + 1 \<longleftrightarrow> x \<le> w"
  by (simp add: word_less_nat_alt word_le_nat_alt unat_Suc less_Suc_eq_le)

subsection \<open>Checked slices\<close>

definition get_slice :: "'a list \<Rightarrow> nat \<Rightarrow> nat \<Rightarrow> 'a list option" where
  "get_slice bs a b = (if a \<le> b \<and> b \<le> length bs then Some (take (b - a) (drop a bs)) else None)"

definition get_at :: "'a list \<Rightarrow> nat \<Rightarrow> 'a option" where
  "get_at bs i = (if i < length bs then Some (bs ! i) else None)"

definition put_slice :: "'a list \<Rightarrow> nat \<Rightarrow> 'a list \<Rightarrow> 'a list option" where
  "put_slice bs off xs =
     (if off + length xs \<le> length bs
      then Some (take off bs @ xs @ drop (off + length xs) bs) else None)"

lemma length_put_slice: "put_slice bs off xs = Some bs' \<Longrightarrow> length bs' = length bs"
  by (auto simp: put_slice_def split: if_splits)

lemma get_slice_Some_iff [slice_simps]:
  "get_slice bs a b = Some xs \<longleftrightarrow> a \<le> b \<and> b \<le> length bs \<and> xs = take (b - a) (drop a bs)"
  by (auto simp: get_slice_def)

lemma length_get_slice: "get_slice bs a b = Some xs \<Longrightarrow> length xs = b - a"
  by (auto simp: get_slice_def split: if_splits)

text \<open>A slice that is known to hold \<open>xs\<close>, read at its start.\<close>

lemma get_slice_at:
  assumes "a \<le> length bs" and "drop a bs = xs @ r" and "b = a + length xs"
  shows "get_slice bs a b = Some xs"
proof -
  have "length bs - a = length xs + length r" using assms(2) by (metis length_append length_drop)
  with assms show ?thesis by (auto simp: get_slice_def)
qed

lemma get_at_at:
  assumes "drop a bs = x # r"
  shows "get_at bs a = Some x"
  using assms by (auto simp: get_at_def hd_drop_conv_nth[symmetric] split: if_splits)
    (metis drop_eq_Nil list.distinct(1) not_le)

lemma drop_advance: "drop a bs = xs @ r \<Longrightarrow> n = length xs \<Longrightarrow> drop (a + n) bs = r"
  by (metis add.commute append_eq_conv_conj drop_drop)

lemma drop_advance_le: "a \<le> length bs \<Longrightarrow> drop a bs = xs @ r \<Longrightarrow> n = length xs \<Longrightarrow> a + n \<le> length bs"
  by (metis add.commute le_add1 le_diff_conv2 length_append length_drop)

lemma put_slice_Some_iff [slice_simps]:
  "put_slice bs off xs = Some bs' \<longleftrightarrow>
     off + length xs \<le> length bs \<and> bs' = take off bs @ xs @ drop (off + length xs) bs"
  by (auto simp: put_slice_def)

lemma nth_overwrite:
  assumes "off + length xs \<le> length bs" and "i < length bs"
  shows "(take off bs @ xs @ drop (off + length xs) bs) ! i =
    (if off \<le> i \<and> i < off + length xs then xs ! (i - off) else bs ! i)"
  using assms by (auto simp: nth_append min_def)

text \<open>Overwriting one range leaves every disjoint range as it was.\<close>

lemma take_drop_overwrite_other:
  assumes "off + length xs \<le> length bs" and "a + n \<le> length bs"
    and "a + n \<le> off \<or> off + length xs \<le> a"
  shows "take n (drop a (take off bs @ xs @ drop (off + length xs) bs)) = take n (drop a bs)"
  using assms by (intro nth_equalityI) (auto simp: nth_overwrite)

lemma take_drop_overwrite_same:
  assumes "off + length xs \<le> length bs"
  shows "take (length xs) (drop off (take off bs @ xs @ drop (off + length xs) bs)) = xs"
  using assms by simp

subsection \<open>Searching lists\<close>

text \<open>\<open>Iterator::position\<close>: the index of the first element that satisfies the predicate.\<close>

fun position :: "('a \<Rightarrow> bool) \<Rightarrow> 'a list \<Rightarrow> nat option" where
  "position P [] = None"
| "position P (x # xs) = (if P x then Some 0 else map_option Suc (position P xs))"

lemma position_None_iff: "position P xs = None \<longleftrightarrow> (\<forall>x \<in> set xs. \<not> P x)"
  by (induction xs) auto

lemma position_Some_iff:
  "position P xs = Some i \<longleftrightarrow> i < length xs \<and> P (xs ! i) \<and> (\<forall>j < i. \<not> P (xs ! j))"
proof (induction xs arbitrary: i)
  case (Cons x xs)
  show ?case
  proof (cases i)
    case 0
    then show ?thesis by auto
  next
    case (Suc k)
    with Cons.IH [of k] show ?thesis by (auto simp: less_Suc_eq_0_disj)
  qed
qed simp

subsection \<open>Strings\<close>

text \<open>
  A Rust \<open>String\<close> is its UTF-8 encoding. A model string is a HOL \<open>string\<close> whose characters are
  the bytes of that encoding, so that literals stay readable and the order of strings is Rust's
  (lexicographic on bytes). \<open>utf8\<close> is the check of \<open>String::from_utf8\<close>; every string the program
  can hold satisfies \<open>utf8 (bytes_of s)\<close>.
\<close>

definition bytes_of :: "string \<Rightarrow> byte list" where
  "bytes_of s = map of_char s"

definition string_of :: "byte list \<Rightarrow> string" where
  "string_of bs = map (\<lambda>b. char_of (unat b)) bs"

lemma unat_of_char [simp]: "unat (of_char c :: byte) = of_char c"
proof -
  have "(of_char c :: byte) = of_nat (of_char c)"
    by (cases c) simp
  moreover have "(of_char c :: nat) < 256" by (rule nat_of_char_less_256)
  ultimately show ?thesis by simp
qed

lemma string_of_bytes_of [simp]: "string_of (bytes_of s) = s"
  by (simp add: string_of_def bytes_of_def comp_def)

lemma bytes_of_string_of [simp]: "bytes_of (string_of bs) = bs"
proof -
  have "of_char (char_of (unat b)) = b" for b :: byte
  proof -
    have "unat b < 256" using unsigned_less [of b] by simp
    then have "unat (of_char (char_of (unat b)) :: byte) = unat b" by simp
    then show ?thesis by (rule unsigned_word_eqI)
  qed
  then show ?thesis by (simp add: string_of_def bytes_of_def comp_def)
qed

lemma length_bytes_of [simp]: "length (bytes_of s) = length s" "length (string_of bs) = length bs"
  by (simp_all add: bytes_of_def string_of_def)

lemma bytes_of_inject [simp]: "bytes_of s = bytes_of t \<longleftrightarrow> s = t"
  by (metis string_of_bytes_of)

lemma of_char_less_iff: "(of_char c :: byte) < of_char d \<longleftrightarrow> c < d"
  by (simp add: word_less_nat_alt less_char_def)

lemma bytes_of_less_iff: "bytes_of s < bytes_of t \<longleftrightarrow> s < t"
proof (induction s arbitrary: t)
  case Nil
  show ?case by (cases t) (auto simp: bytes_of_def)
next
  case (Cons c s)
  show ?case
  proof (cases t)
    case Nil
    then show ?thesis by (simp add: bytes_of_def)
  next
    case (Cons d u)
    have "of_char c = (of_char d :: byte) \<longleftrightarrow> c = d"
      by (metis char_of_char unat_of_char)
    with Cons.IH [of u] Cons show ?thesis by (simp add: bytes_of_def of_char_less_iff)
  qed
qed

lemma bytes_of_le_iff: "bytes_of s \<le> bytes_of t \<longleftrightarrow> s \<le> t"
  by (simp add: le_less bytes_of_less_iff)

subsubsection \<open>UTF-8 validity\<close>

definition cont_byte :: "byte \<Rightarrow> bool" where
  "cont_byte b = (0x80 \<le> b \<and> b \<le> 0xBF)"

fun utf8 :: "byte list \<Rightarrow> bool" where
  "utf8 [] = True"
| "utf8 (b # bs) =
    (if b \<le> 0x7F then utf8 bs
     else if 0xC2 \<le> b \<and> b \<le> 0xDF then
       (case bs of c # r \<Rightarrow> cont_byte c \<and> utf8 r | _ \<Rightarrow> False)
     else if 0xE0 \<le> b \<and> b \<le> 0xEF then
       (case bs of c # d # r \<Rightarrow>
          cont_byte c \<and> (b = 0xE0 \<longrightarrow> 0xA0 \<le> c) \<and> (b = 0xED \<longrightarrow> c \<le> 0x9F)
          \<and> cont_byte d \<and> utf8 r
        | _ \<Rightarrow> False)
     else if 0xF0 \<le> b \<and> b \<le> 0xF4 then
       (case bs of c # d # e # r \<Rightarrow>
          cont_byte c \<and> (b = 0xF0 \<longrightarrow> 0x90 \<le> c) \<and> (b = 0xF4 \<longrightarrow> c \<le> 0x8F)
          \<and> cont_byte d \<and> cont_byte e \<and> utf8 r
        | _ \<Rightarrow> False)
     else False)"

text \<open>\<open>String::from_utf8\<close>.\<close>

definition from_utf8 :: "byte list \<Rightarrow> string option" where
  "from_utf8 bs = (if utf8 bs then Some (string_of bs) else None)"

lemma from_utf8_bytes_of [simp]: "utf8 (bytes_of s) \<Longrightarrow> from_utf8 (bytes_of s) = Some s"
  by (simp add: from_utf8_def)

lemma from_utf8_Some_iff: "from_utf8 bs = Some s \<longleftrightarrow> utf8 bs \<and> bs = bytes_of s"
  by (auto simp: from_utf8_def)

lemma utf8_ascii: "\<forall>b \<in> set bs. b \<le> 0x7F \<Longrightarrow> utf8 bs"
  by (induction bs) auto

text \<open>\<open>str::chars().count()\<close>: the number of bytes that start a scalar value.\<close>

definition char_count :: "string \<Rightarrow> nat" where
  "char_count s = length (filter (\<lambda>b. \<not> cont_byte b) (bytes_of s))"

lemma char_count_le: "char_count s \<le> length s"
  using length_filter_le [of "\<lambda>b. \<not> cont_byte b" "bytes_of s"] by (simp add: char_count_def)

text \<open>\<open>&s[a..b]\<close>: panics out of range or inside a character.\<close>

definition char_boundary :: "string \<Rightarrow> nat \<Rightarrow> bool" where
  "char_boundary s i = (i = length s \<or> (i < length s \<and> \<not> cont_byte (bytes_of s ! i)))"

definition str_slice :: "string \<Rightarrow> nat \<Rightarrow> nat \<Rightarrow> string option" where
  "str_slice s a b =
     (if char_boundary s a \<and> char_boundary s b then get_slice s a b else None)"

text \<open>\<open>[T]::join\<close>.\<close>

fun join_with :: "string \<Rightarrow> string list \<Rightarrow> string" where
  "join_with sep [] = []"
| "join_with sep [s] = s"
| "join_with sep (s # ss) = s @ sep @ join_with sep ss"

subsubsection \<open>ASCII case folding and decimal numerals\<close>

definition upper_char :: "char \<Rightarrow> char" where
  "upper_char c = (if CHR ''a'' \<le> c \<and> c \<le> CHR ''z'' then char_of (of_char c - (32 :: nat)) else c)"

definition to_ascii_uppercase :: "string \<Rightarrow> string" where
  "to_ascii_uppercase s = map upper_char s"

definition lower_char :: "char \<Rightarrow> char" where
  "lower_char c = (if CHR ''A'' \<le> c \<and> c \<le> CHR ''Z'' then char_of (of_char c + (32 :: nat)) else c)"

definition to_ascii_lowercase :: "string \<Rightarrow> string" where
  "to_ascii_lowercase s = map lower_char s"

definition digit_char :: "nat \<Rightarrow> char" where
  "digit_char d = char_of (48 + d)"

definition digit_value :: "char \<Rightarrow> nat option" where
  "digit_value c = (let n = of_char c :: nat in if 48 \<le> n \<and> n < 58 then Some (n - 48) else None)"

lemma digit_value_char [simp]: "d < 10 \<Longrightarrow> digit_value (digit_char d) = Some d"
  by (simp add: digit_value_def digit_char_def)

fun show_nat :: "nat \<Rightarrow> string" where
  "show_nat n = (if n < 10 then [digit_char n] else show_nat (n div 10) @ [digit_char (n mod 10)])"

declare show_nat.simps [simp del]

definition show_int :: "int \<Rightarrow> string" where
  "show_int i = (if i < 0 then CHR ''-'' # show_nat (nat (- i)) else show_nat (nat i))"

fun read_digits :: "nat \<Rightarrow> string \<Rightarrow> nat option" where
  "read_digits acc [] = Some acc"
| "read_digits acc (c # cs) =
    (case digit_value c of None \<Rightarrow> None | Some d \<Rightarrow> read_digits (10 * acc + d) cs)"

definition read_nat :: "string \<Rightarrow> nat option" where
  "read_nat s = (if s = [] then None else read_digits 0 s)"

text \<open>The grammar of \<open>str::parse\<close> for signed integers: an optional sign and one or more digits.\<close>

fun read_int :: "string \<Rightarrow> int option" where
  "read_int (c # cs) =
    (if c = CHR ''-'' then map_option (\<lambda>n. - int n) (read_nat cs)
     else if c = CHR ''+'' then map_option int (read_nat cs)
     else map_option int (read_nat (c # cs)))"
| "read_int [] = None"

lemma show_nat_not_Nil [simp]: "show_nat n \<noteq> []"
  by (subst show_nat.simps) simp

lemma read_digits_append:
  "read_digits acc (s @ t) = Option.bind (read_digits acc s) (\<lambda>a. read_digits a t)"
  by (induction s arbitrary: acc) (auto split: option.splits)

lemma read_digits_show: "read_digits 0 (show_nat n) = Some n"
proof (induction n rule: show_nat.induct)
  case (1 n)
  show ?case
  proof (cases "n < 10")
    case True
    then show ?thesis by (simp add: show_nat.simps [of n])
  next
    case False
    with 1 show ?thesis by (simp add: show_nat.simps [of n] read_digits_append)
  qed
qed

lemma show_nat_head: "\<exists>d cs. d < 10 \<and> show_nat n = digit_char d # cs"
proof (induction n rule: show_nat.induct)
  case (1 n)
  then show ?case by (cases "n < 10") (auto simp: show_nat.simps [of n])
qed

lemma digit_char_not_sign: "d < 10 \<Longrightarrow> digit_char d \<noteq> CHR ''-'' \<and> digit_char d \<noteq> CHR ''+''"
proof -
  have "digit_value (CHR ''-'') = None" "digit_value (CHR ''+'') = None"
    by (simp_all add: digit_value_def)
  then show "d < 10 \<Longrightarrow> digit_char d \<noteq> CHR ''-'' \<and> digit_char d \<noteq> CHR ''+''"
    by (metis digit_value_char option.distinct(1))
qed

lemma read_show_int: "read_int (show_int i) = Some i"
proof (cases "i < 0")
  case True
  then show ?thesis by (simp add: show_int_def read_nat_def read_digits_show)
next
  case False
  obtain d cs where d: "d < 10" and s: "show_nat (nat i) = digit_char d # cs"
    using show_nat_head by blast
  from False have "show_int i = digit_char d # cs" by (simp add: show_int_def s)
  moreover have "read_nat (digit_char d # cs) = Some (nat i)"
    using read_digits_show [of "nat i"] by (simp add: read_nat_def s)
  ultimately show ?thesis using d False by (simp add: digit_char_not_sign)
qed

subsection \<open>Checked signed arithmetic\<close>

text \<open>
  \<open>i64::checked_add\<close> and its kin: the exact integer result when it is in range. A BIGINT is a
  64-bit word that \<open>sint\<close> reads.
\<close>

definition i64_range :: "int \<Rightarrow> bool" where
  "i64_range x = (- (2 ^ 63) \<le> x \<and> x < 2 ^ 63)"

definition checked_i64 :: "int \<Rightarrow> i64 option" where
  "checked_i64 x = (if i64_range x then Some (word_of_int x) else None)"

lemma sint_range [simp]: "i64_range (sint (w :: i64))"
  using sint_lt [of w] sint_ge [of w] by (simp add: i64_range_def)

lemma sint_word_of_int: "i64_range x \<Longrightarrow> sint (word_of_int x :: i64) = x"
  by (simp add: i64_range_def sint_sbintrunc' signed_take_bit_int_eq_self)

lemma checked_i64_Some_iff: "checked_i64 x = Some w \<longleftrightarrow> i64_range x \<and> sint w = x"
  by (auto simp: checked_i64_def sint_word_of_int)

lemma checked_i64_None_iff: "checked_i64 x = None \<longleftrightarrow> \<not> i64_range x"
  by (simp add: checked_i64_def)

lemma checked_i64_sint [simp]: "checked_i64 (sint w) = Some w"
  by (simp add: checked_i64_def)

definition parse_i64 :: "string \<Rightarrow> i64 option" where
  "parse_i64 s = Option.bind (read_int s) checked_i64"

definition show_i64 :: "i64 \<Rightarrow> string" where
  "show_i64 w = show_int (sint w)"

lemma parse_show_i64 [simp]: "parse_i64 (show_i64 w) = Some w"
  by (simp add: parse_i64_def show_i64_def read_show_int)

subsection \<open>State machines\<close>

text \<open>
  A component whose operations are the steps of a relation and whose operations all keep \<open>inv\<close>; the
  runs are the reflexive transitive closure of the relation.
\<close>

locale state_machine =
  fixes init :: "'s \<Rightarrow> bool"
    and step :: "'s \<Rightarrow> 's \<Rightarrow> bool"
    and inv :: "'s \<Rightarrow> bool"
  assumes init_inv: "init s \<Longrightarrow> inv s"
    and step_inv: "step s t \<Longrightarrow> inv s \<Longrightarrow> inv t"
begin

lemma steps_inv: "step\<^sup>*\<^sup>* s t \<Longrightarrow> inv s \<Longrightarrow> inv t"
  by (induction rule: rtranclp_induct) (auto intro: step_inv)

lemma reachable_inv: "init s \<Longrightarrow> step\<^sup>*\<^sup>* s t \<Longrightarrow> inv t"
  using steps_inv init_inv by blast

end

text \<open>Runs of a step relation whose steps carry labels: what was called and what it answered.\<close>

fun steps_by :: "('s \<Rightarrow> 'l \<Rightarrow> 's \<Rightarrow> bool) \<Rightarrow> 's \<Rightarrow> 'l list \<Rightarrow> 's \<Rightarrow> bool" where
  "steps_by step s [] t = (s = t)"
| "steps_by step s (l # ls) t = (\<exists>u. step s l u \<and> steps_by step u ls t)"

text \<open>The contract between an implementation and its specification: every call has the same answers in both.\<close>

locale simulation =
  fixes impl :: "'c \<Rightarrow> 'l \<Rightarrow> 'c \<Rightarrow> bool"
    and spec :: "'a \<Rightarrow> 'l \<Rightarrow> 'a \<Rightarrow> bool"
    and rel :: "'c \<Rightarrow> 'a \<Rightarrow> bool"
  assumes simulates: "rel c a \<Longrightarrow> impl c l c' \<Longrightarrow> \<exists>a'. spec a l a' \<and> rel c' a'"
begin

lemma runs: "rel c a \<Longrightarrow> steps_by impl c ls c' \<Longrightarrow> \<exists>a'. steps_by spec a ls a' \<and> rel c' a'"
proof (induction ls arbitrary: c a)
  case (Cons l ls)
  then obtain u where u: "impl c l u" "steps_by impl u ls c'" by auto
  obtain b where "spec a l b" "rel u b" using simulates [OF Cons.prems(1) u(1)] by blast
  moreover from Cons.IH [OF this(2) u(2)] obtain a' where "steps_by spec b ls a'" "rel c' a'" by blast
  ultimately show ?case by (intro exI [of _ a']) auto
qed simp

end

end
