(* ===== verification/Errors.thy ===== *)
theory Errors
  imports Prelude
begin

text \<open>
  The error type of \<open>src/src/error.rs\<close> and the SQL data types it mentions. A variant keeps the
  payload the program computes with (names, sizes, types, parameter numbers); the free text that only
  reaches a message is dropped. The one variant with many causes, \<open>DbError::Eval\<close>, carries the
  cause as an \<open>eval_cause\<close>, one constructor per place of \<open>src/src/eval.rs\<close> and \<open>src/src/executor.rs\<close> that builds it.
\<close>

datatype data_type = TBoolean | TBigInt | TText

datatype eval_cause =
    ColumnMissing string
  | NoRowForColumn string
  | AggregateOutsideRows
  | AggregateNotRewritten
  | ParamUnbound u32
  | NegateNonBigInt data_type
  | IntegerOverflow
  | DivisionByZero
  | ArithNonBigInt data_type data_type
  | CompareMixed data_type data_type
  | LogicNonBoolean data_type
  | UnknownTypeName string
  | CastTextToBigInt string
  | CastTextToBoolean string
  | CastUnsupported data_type data_type
  | UnknownFunction string
  | FunctionArity string nat
  | FunctionArgType string data_type
  | PredicateNonBoolean data_type
  | InsertColumnCount nat nat

datatype (plugins only: code size) db_error =
    Io
  | NotImplemented
  | SchemaMismatch
  | DuplicateTable string
  | DuplicateColumn string
  | TableNotFound string
  | Eval eval_cause
  | Parse nat nat
  | Lex nat nat
  | Bind nat nat
  | CorruptPage
  | CorruptTuple
  | PageOutOfRange
  | TupleTooLarge nat
  | BufferPoolFull
  | CorruptCatalog
  | InvalidStats
  | CatalogTooLarge nat nat
  | InvalidRecordId
  | TableIdSpaceExhausted
  | MultiplePrimaryKeys
  | PrimaryKeyViolation string string
  | UniqueViolation string string
  | NullKeyNotAllowed
  | BTreeKeyTypeMismatch string string
  | BTreeKeyTooLarge nat
  | BTreeUniqueViolation
  | DuplicateIndex string
  | IndexNotFound string
  | CannotDropConstraintIndex string
  | TransactionAlreadyActive
  | NoActiveTransaction
  | TransactionAborted
  | WouldBlock
  | DeadlockDetected
  | PreparedStatementAlreadyExists string
  | PreparedStatementNotFound string
  | CannotPrepareStatement
  | ParamCountMismatch nat nat
  | ParamTypeMismatch u32 data_type data_type
  | ParamTypeConflict u32 data_type data_type
  | ParamIndexTooLarge u32 u32
  | QueryCancelled
  | QueryTimeout
  | MemoryLimitExceeded string nat
  | TableNotAnalyzed string

subsection \<open>Outcomes\<close>

text \<open>
  The outcome of running a piece of the program: a value, an \<open>Err\<close> of \<open>DbResult\<close>, or a panic (an
  index out of range, an \<open>unwrap\<close> or \<open>expect\<close> on nothing, \<open>unreachable!\<close>, a failed \<open>assert!\<close>).
  \<open>and_then\<close> is the \<open>?\<close> operator.
\<close>

datatype 'a outcome = Ok 'a | Err db_error | Panic

definition and_then :: "'a outcome \<Rightarrow> ('a \<Rightarrow> 'b outcome) \<Rightarrow> 'b outcome" where
  "and_then r f = (case r of Ok x \<Rightarrow> f x | Err e \<Rightarrow> Err e | Panic \<Rightarrow> Panic)"

lemma and_then_simps [simp]:
  "and_then (Ok x) f = f x"
  "and_then (Err e) f = Err e"
  "and_then Panic f = Panic"
  by (simp_all add: and_then_def)

lemma and_then_Ok_iff: "and_then r f = Ok y \<longleftrightarrow> (\<exists>x. r = Ok x \<and> f x = Ok y)"
  by (cases r) auto

lemma and_then_Err_iff: "and_then r f = Err e \<longleftrightarrow> r = Err e \<or> (\<exists>x. r = Ok x \<and> f x = Err e)"
  by (cases r) auto

lemma and_then_Panic_iff: "and_then r f = Panic \<longleftrightarrow> r = Panic \<or> (\<exists>x. r = Ok x \<and> f x = Panic)"
  by (cases r) auto

lemmas and_then_iffs = and_then_Ok_iff and_then_Err_iff and_then_Panic_iff

lemma and_then_cong [fundef_cong]:
  "r = r' \<Longrightarrow> (\<And>x. r' = Ok x \<Longrightarrow> f x = f' x) \<Longrightarrow> and_then r f = and_then r' f'"
  by (cases r') auto

lemma and_then_assoc: "and_then (and_then r f) g = and_then r (\<lambda>x. and_then (f x) g)"
  by (cases r) auto

text \<open>\<open>Option::ok_or\<close> and \<open>Option::expect\<close>.\<close>

definition ok_or :: "db_error \<Rightarrow> 'a option \<Rightarrow> 'a outcome" where
  "ok_or e r = (case r of None \<Rightarrow> Err e | Some x \<Rightarrow> Ok x)"

definition expect :: "'a option \<Rightarrow> 'a outcome" where
  "expect r = (case r of None \<Rightarrow> Panic | Some x \<Rightarrow> Ok x)"

lemma ok_or_simps [simp]:
  "ok_or e None = Err e" "ok_or e (Some x) = Ok x"
  "expect None = Panic" "expect (Some x) = Ok x"
  by (simp_all add: ok_or_def expect_def)

lemma ok_or_iffs [simp]:
  "ok_or e r = Ok x \<longleftrightarrow> r = Some x"
  "ok_or e r = Err d \<longleftrightarrow> r = None \<and> d = e"
  "ok_or e r \<noteq> Panic"
  "expect r = Ok x \<longleftrightarrow> r = Some x"
  "expect r \<noteq> Err d"
  "expect r = Panic \<longleftrightarrow> r = None"
  by (cases r; auto)+

text \<open>\<open>map\<close> followed by \<open>collect::<DbResult<Vec<_>>>()\<close>: stops at the first error.\<close>

fun map_outcome :: "('a \<Rightarrow> 'b outcome) \<Rightarrow> 'a list \<Rightarrow> 'b list outcome" where
  "map_outcome f [] = Ok []"
| "map_outcome f (x # xs) = and_then (f x) (\<lambda>y. and_then (map_outcome f xs) (\<lambda>ys. Ok (y # ys)))"

lemma map_outcome_cong [fundef_cong]:
  "xs = ys \<Longrightarrow> (\<And>x. x \<in> set ys \<Longrightarrow> f x = g x) \<Longrightarrow> map_outcome f xs = map_outcome g ys"
  by (induction ys arbitrary: xs) auto

lemma map_outcome_Ok_iff: "map_outcome f xs = Ok ys \<longleftrightarrow> list_all2 (\<lambda>x y. f x = Ok y) xs ys"
  by (induction xs arbitrary: ys) (auto simp: and_then_Ok_iff list_all2_Cons1)

lemma map_outcome_all_Ok: "(\<And>x. x \<in> set xs \<Longrightarrow> f x = Ok (g x)) \<Longrightarrow> map_outcome f xs = Ok (map g xs)"
  by (induction xs) auto

lemma map_outcome_ex:
  "\<forall>x \<in> set xs. \<exists>y. f x = Ok y \<and> Q x y \<Longrightarrow> \<exists>ys. map_outcome f xs = Ok ys \<and> list_all2 Q xs ys"
proof (induction xs)
  case (Cons x xs)
  then obtain y ys where "f x = Ok y" "Q x y" "map_outcome f xs = Ok ys" "list_all2 Q xs ys" by auto
  then show ?case by simp
qed simp

lemma map_outcome_Err:
  "map_outcome f xs = Err e \<Longrightarrow> \<exists>x \<in> set xs. f x = Err e"
  "map_outcome f xs = Panic \<Longrightarrow> \<exists>x \<in> set xs. f x = Panic"
  by (induction xs) (auto simp: and_then_iffs)

end
