(* ===== verification/Ids.thy ===== *)
theory Ids
  imports Errors
begin

text \<open>
  The identifiers of \<open>src/src/ids.rs\<close>: newtypes over machine words, and record identifiers with the
  lexicographic order that the code derives for them.
\<close>

type_synonym table_id = u64
type_synonym page_no = u64
type_synonym lsn = u64
type_synonym txn_id = u64
type_synonym slot_id = u16

datatype record_id = RecordId (rid_page: page_no) (rid_slot: slot_id)

instantiation record_id :: linorder
begin

definition less_record_id :: "record_id \<Rightarrow> record_id \<Rightarrow> bool" where
  "less_record_id a b \<longleftrightarrow>
     rid_page a < rid_page b \<or> rid_page a = rid_page b \<and> rid_slot a < rid_slot b"

definition less_eq_record_id :: "record_id \<Rightarrow> record_id \<Rightarrow> bool" where
  "less_eq_record_id a b \<longleftrightarrow> a < b \<or> a = b"

instance
  by intro_classes (auto simp: less_record_id_def less_eq_record_id_def intro: record_id.expand)

end

end
