(* ===== verification/Lock_Manager.thy ===== *)
theory Lock_Manager
  imports Ids
begin

text \<open>
  The lock manager of \<open>src/src/lock_manager.rs\<close>: shared and exclusive locks on keys, a queue of
  waiters per key, upgrades, and the wait-for edges that deadlock detection reads. A \<open>HashMap\<close> is a
  partial map; where the code iterates over one, the order of the keys is an argument.
\<close>

subsection \<open>State\<close>

datatype lock_mode = Shared | Exclusive

definition compatible_with :: "lock_mode \<Rightarrow> lock_mode \<Rightarrow> bool" where
  "compatible_with a b = (a = Shared \<and> b = Shared)"

datatype lock_result = Granted | Blocked

datatype lock_key = KeyTable table_id | KeyTuple table_id record_id

record waiter =
  w_txn :: txn_id
  w_mode :: lock_mode
  w_upgrade :: bool

record lock_entry =
  holders :: "(txn_id \<times> lock_mode) list"
  waiters :: "waiter list"

definition compatible_with_holders :: "(txn_id \<times> lock_mode) list \<Rightarrow> lock_mode \<Rightarrow> bool" where
  "compatible_with_holders hs mode = list_all (\<lambda>(t, held). compatible_with held mode) hs"

definition holder_mode :: "lock_entry \<Rightarrow> txn_id \<Rightarrow> lock_mode option" where
  "holder_mode e txn = map_option snd (List.find (\<lambda>(t, m). t = txn) (holders e))"

record 'k lock_manager =
  lm_entries :: "'k \<rightharpoonup> lock_entry"
  pending_shared_grants :: "txn_id \<rightharpoonup> 'k list"

definition lock_manager_new :: "'k lock_manager" where
  "lock_manager_new = \<lparr>lm_entries = Map.empty, pending_shared_grants = Map.empty\<rparr>"

definition push_grant :: "(txn_id \<rightharpoonup> 'k list) \<Rightarrow> txn_id \<Rightarrow> 'k \<Rightarrow> (txn_id \<rightharpoonup> 'k list)" where
  "push_grant pend txn key = pend(txn \<mapsto> (case pend txn of None \<Rightarrow> [] | Some ks \<Rightarrow> ks) @ [key])"

subsection \<open>Operations\<close>

definition entry_or_default :: "'k lock_manager \<Rightarrow> 'k \<Rightarrow> lock_entry" where
  "entry_or_default m key =
     (case lm_entries m key of Some e \<Rightarrow> e | None \<Rightarrow> \<lparr>holders = [], waiters = []\<rparr>)"

definition put_entry :: "'k lock_manager \<Rightarrow> 'k \<Rightarrow> lock_entry \<Rightarrow> 'k lock_manager" where
  "put_entry m key e = m\<lparr>lm_entries := (lm_entries m)(key \<mapsto> e)\<rparr>"

definition acquire ::
  "'k lock_manager \<Rightarrow> txn_id \<Rightarrow> 'k \<Rightarrow> lock_mode \<Rightarrow> lock_result \<times> 'k lock_manager" where
  "acquire m txn key mode =
     (let e = entry_or_default m key in
      case holder_mode e txn of
        Some held \<Rightarrow>
          if held = Exclusive \<or> held = mode then (Granted, put_entry m key e)
          else if length (holders e) = 1
          then (Granted, put_entry m key (e\<lparr>holders := map (\<lambda>(t, _). (t, Exclusive)) (holders e)\<rparr>))
          else if \<not> list_ex (\<lambda>w. w_txn w = txn) (waiters e)
          then (Blocked, put_entry m key
                 (e\<lparr>waiters := \<lparr>w_txn = txn, w_mode = mode, w_upgrade = True\<rparr> # waiters e\<rparr>))
          else (Blocked, put_entry m key e)
      | None \<Rightarrow>
          if waiters e = [] \<and> compatible_with_holders (holders e) mode
          then (Granted,
                 (let m' = put_entry m key (e\<lparr>holders := holders e @ [(txn, mode)]\<rparr>) in
                  if mode = Shared
                  then m'\<lparr>pending_shared_grants := push_grant (pending_shared_grants m') txn key\<rparr>
                  else m'))
          else if \<not> list_ex (\<lambda>w. w_txn w = txn) (waiters e)
          then (Blocked, put_entry m key
                 (e\<lparr>waiters := waiters e @ [\<lparr>w_txn = txn, w_mode = mode, w_upgrade = False\<rparr>]\<rparr>))
          else (Blocked, put_entry m key e))"

text \<open>The \<open>while let\<close> loop of \<open>promote_waiters\<close>, on the holders, the queue and the pending grants.\<close>

fun promote_loop ::
  "'k \<Rightarrow> (txn_id \<times> lock_mode) list \<Rightarrow> waiter list \<Rightarrow> (txn_id \<rightharpoonup> 'k list)
   \<Rightarrow> (txn_id \<times> lock_mode) list \<times> waiter list \<times> (txn_id \<rightharpoonup> 'k list)" where
  "promote_loop key hs [] pend = (hs, [], pend)"
| "promote_loop key hs (w # ws) pend =
    (if w_upgrade w then
       (if length hs = 1 \<and> fst (hd hs) = w_txn w
        then promote_loop key (map (\<lambda>(t, _). (t, Exclusive)) hs) ws pend
        else (hs, w # ws, pend))
     else if \<not> compatible_with_holders hs (w_mode w) then (hs, w # ws, pend)
     else promote_loop key (hs @ [(w_txn w, w_mode w)]) ws
       (if w_mode w = Shared then push_grant pend (w_txn w) key else pend))"

definition promote_waiters :: "'k lock_manager \<Rightarrow> 'k \<Rightarrow> 'k lock_manager" where
  "promote_waiters m key =
     (case lm_entries m key of
        None \<Rightarrow> m
      | Some e \<Rightarrow>
          (case promote_loop key (holders e) (waiters e) (pending_shared_grants m) of
             (hs, ws, pend) \<Rightarrow>
               m\<lparr>lm_entries := (lm_entries m)
                   (key := if hs = [] \<and> ws = [] then None else Some \<lparr>holders = hs, waiters = ws\<rparr>),
                 pending_shared_grants := pend\<rparr>))"

text \<open>The body of the loop of \<open>release_all\<close> for one key.\<close>

definition release_one :: "txn_id \<Rightarrow> 'k lock_manager \<Rightarrow> 'k \<Rightarrow> 'k lock_manager" where
  "release_one txn m key =
     (case lm_entries m key of
        None \<Rightarrow> m
      | Some e \<Rightarrow>
          promote_waiters (put_entry m key
            \<lparr>holders = filter (\<lambda>(t, _). t \<noteq> txn) (holders e),
             waiters = filter (\<lambda>w. w_txn w \<noteq> txn) (waiters e)\<rparr>) key)"

definition mentions :: "lock_entry \<Rightarrow> txn_id \<Rightarrow> bool" where
  "mentions e txn =
     (list_ex (\<lambda>(t, _). t = txn) (holders e) \<or> list_ex (\<lambda>w. w_txn w = txn) (waiters e))"

text \<open>\<open>ks\<close> enumerates the keys of the map; the code keeps those whose entry mentions \<open>txn\<close>.\<close>

definition release_all :: "'k lock_manager \<Rightarrow> txn_id \<Rightarrow> 'k list \<Rightarrow> 'k lock_manager" where
  "release_all m txn ks =
     (let keys = filter (\<lambda>k. case lm_entries m k of Some e \<Rightarrow> mentions e txn | None \<Rightarrow> False) ks;
          m' = foldl (release_one txn) m keys in
      m'\<lparr>pending_shared_grants := (pending_shared_grants m')(txn := None)\<rparr>)"

definition take_pending_shared_grants ::
  "'k lock_manager \<Rightarrow> txn_id \<Rightarrow> 'k list \<times> 'k lock_manager" where
  "take_pending_shared_grants m txn =
     ((case pending_shared_grants m txn of None \<Rightarrow> [] | Some ks \<Rightarrow> ks),
      m\<lparr>pending_shared_grants := (pending_shared_grants m)(txn := None)\<rparr>)"

definition release_key :: "txn_id \<Rightarrow> 'k lock_manager \<Rightarrow> 'k \<Rightarrow> 'k lock_manager" where
  "release_key txn m key =
     (case lm_entries m key of
        None \<Rightarrow> m
      | Some e \<Rightarrow>
          promote_waiters (put_entry m key
            (e\<lparr>holders := filter (\<lambda>(t, _). t \<noteq> txn) (holders e)\<rparr>)) key)"

definition release_keys :: "'k lock_manager \<Rightarrow> txn_id \<Rightarrow> 'k list \<Rightarrow> 'k lock_manager" where
  "release_keys m txn keys = foldl (release_key txn) m keys"

definition waiter_edges :: "(txn_id \<times> lock_mode) list \<Rightarrow> waiter \<Rightarrow> (txn_id \<times> txn_id) list" where
  "waiter_edges hs w =
     map (\<lambda>(h, _). (w_txn w, h))
       (filter (\<lambda>(h, held). h \<noteq> w_txn w \<and> (w_upgrade w \<or> \<not> compatible_with held (w_mode w))) hs)"

fun queue_edges :: "waiter list \<Rightarrow> (txn_id \<times> txn_id) list" where
  "queue_edges (a # b # ws) = (w_txn b, w_txn a) # queue_edges (b # ws)"
| "queue_edges _ = []"

definition entry_edges :: "lock_entry \<Rightarrow> (txn_id \<times> txn_id) list" where
  "entry_edges e = concat (map (waiter_edges (holders e)) (waiters e)) @ queue_edges (waiters e)"

definition wait_for_edges :: "'k lock_manager \<Rightarrow> 'k list \<Rightarrow> (txn_id \<times> txn_id) list" where
  "wait_for_edges m ks =
     concat (map (\<lambda>k. case lm_entries m k of Some e \<Rightarrow> entry_edges e | None \<Rightarrow> []) ks)"

subsection \<open>Steps\<close>

inductive lm_step :: "'k lock_manager \<Rightarrow> 'k lock_manager \<Rightarrow> bool" where
  step_acquire: "lm_step m (snd (acquire m txn key mode))"
| step_release_all: "set ks = dom (lm_entries m) \<Longrightarrow> distinct ks \<Longrightarrow> lm_step m (release_all m txn ks)"
| step_take: "lm_step m (snd (take_pending_shared_grants m txn))"
| step_release_keys: "lm_step m (release_keys m txn keys)"

inductive_cases lm_stepE: "lm_step m m'"

subsection \<open>Invariant\<close>

definition head_blocked :: "(txn_id \<times> lock_mode) list \<Rightarrow> waiter list \<Rightarrow> bool" where
  "head_blocked hs ws =
     (case ws of
        [] \<Rightarrow> True
      | w # _ \<Rightarrow>
          if w_upgrade w then \<not> (length hs = 1 \<and> fst (hd hs) = w_txn w)
          else \<not> compatible_with_holders hs (w_mode w))"

text \<open>
  One entry: every transaction holds and waits at most once, an exclusive holder is the only holder,
  and only an upgrade request waits while its transaction holds the lock.
\<close>

definition entry_wf :: "(txn_id \<times> lock_mode) list \<Rightarrow> waiter list \<Rightarrow> bool" where
  "entry_wf hs ws \<longleftrightarrow>
     distinct (map fst hs) \<and> (\<forall>(t, m) \<in> set hs. m = Exclusive \<longrightarrow> length hs = 1)
     \<and> distinct (map w_txn ws) \<and> (\<forall>w \<in> set ws. w_upgrade w \<or> w_txn w \<notin> fst ` set hs)"

definition entry_inv :: "lock_entry \<Rightarrow> bool" where
  "entry_inv e \<longleftrightarrow>
     entry_wf (holders e) (waiters e) \<and> head_blocked (holders e) (waiters e)
     \<and> (holders e \<noteq> [] \<or> waiters e \<noteq> [])"

definition lm_inv :: "'k lock_manager \<Rightarrow> bool" where
  "lm_inv m \<longleftrightarrow> (\<forall>key e. lm_entries m key = Some e \<longrightarrow> entry_inv e)"

lemma compatible_simps [simp]:
  "compatible_with Shared Shared" "\<not> compatible_with Exclusive m" "\<not> compatible_with m Exclusive"
  by (auto simp: compatible_with_def)

lemma compatible_with_holders_iff:
  "compatible_with_holders hs mode \<longleftrightarrow> hs = [] \<or> mode = Shared \<and> (\<forall>(t, m) \<in> set hs. m = Shared)"
  by (cases hs) (auto simp: compatible_with_holders_def compatible_with_def list_all_iff)

lemma holder_mode_Some:
  "holder_mode e txn = Some held \<Longrightarrow> (txn, held) \<in> set (holders e)"
  by (auto simp: holder_mode_def find_Some_iff in_set_conv_nth)

lemma holder_mode_None: "holder_mode e txn = None \<longleftrightarrow> txn \<notin> fst ` set (holders e)"
  by (force simp: holder_mode_def find_None_iff)

lemma promote_loop_wf:
  "entry_wf hs ws \<Longrightarrow> promote_loop key hs ws pend = (hs', ws', pend') \<Longrightarrow>
   entry_wf hs' ws' \<and> head_blocked hs' ws'"
proof (induction key hs ws pend rule: promote_loop.induct)
  case (1 key hs pend)
  then show ?case by (simp add: head_blocked_def)
next
  case (2 key hs w ws pend)
  show ?case
  proof (cases "w_upgrade w")
    case True
    show ?thesis
    proof (cases "length hs = 1 \<and> fst (hd hs) = w_txn w")
      case sole: True
      then obtain m where hs: "hs = [(w_txn w, m)]" by (cases hs) auto
      with "2.prems"(1) have "entry_wf (map (\<lambda>(t, _). (t, Exclusive)) hs) ws"
        by (auto simp: entry_wf_def)
      with 2 True sole show ?thesis by simp
    next
      case False
      with 2 True show ?thesis by (auto simp: head_blocked_def)
    qed
  next
    case False
    show ?thesis
    proof (cases "compatible_with_holders hs (w_mode w)")
      case True
      with False "2.prems"(1) have "entry_wf (hs @ [(w_txn w, w_mode w)]) ws"
        by (auto simp: entry_wf_def compatible_with_holders_iff) (metis image_eqI)+
      with 2 True False show ?thesis by simp
    next
      case False
      with 2 \<open>\<not> w_upgrade w\<close> show ?thesis by (auto simp: head_blocked_def)
    qed
  qed
qed

lemma put_entry_inv: "lm_inv m \<Longrightarrow> entry_inv e \<Longrightarrow> lm_inv (put_entry m key e)"
  by (simp add: lm_inv_def put_entry_def)

lemma lm_inv_pending [simp]: "lm_inv (m\<lparr>pending_shared_grants := p\<rparr>) = lm_inv m"
  by (simp add: lm_inv_def)

text \<open>Promotion repairs an entry that is well formed but whose head may be grantable.\<close>

lemma promote_inv:
  assumes "\<And>k e. lm_entries m k = Some e \<Longrightarrow> k \<noteq> key \<Longrightarrow> entry_inv e"
    and "\<And>e. lm_entries m key = Some e \<Longrightarrow> entry_wf (holders e) (waiters e)"
  shows "lm_inv (promote_waiters m key)"
proof (cases "lm_entries m key")
  case None
  have "entry_inv e" if "lm_entries m k = Some e" for k e
    using assms(1) [OF that] that None by (cases "k = key") auto
  with None show ?thesis by (simp add: lm_inv_def promote_waiters_def)
next
  case (Some e)
  obtain hs ws pend where p: "promote_loop key (holders e) (waiters e) (pending_shared_grants m) = (hs, ws, pend)"
    by (cases "promote_loop key (holders e) (waiters e) (pending_shared_grants m)")
  note promote_loop_wf [OF assms(2) [OF Some] p]
  with Some p assms(1) show ?thesis
    by (auto simp: lm_inv_def promote_waiters_def entry_inv_def split: if_splits)
qed

lemma promote_put_inv:
  assumes "lm_inv m" "entry_wf (holders e) (waiters e)"
  shows "lm_inv (promote_waiters (put_entry m key e) key)"
  using assms by (intro promote_inv) (auto simp: put_entry_def lm_inv_def)

lemma release_one_inv: "lm_inv m \<Longrightarrow> lm_inv (release_one txn m key)"
proof (cases "lm_entries m key")
  case (Some e)
  assume inv: "lm_inv m"
  then have "entry_wf (holders e) (waiters e)" using Some by (auto simp: lm_inv_def entry_inv_def)
  then have "entry_wf (filter (\<lambda>(t, _). t \<noteq> txn) (holders e)) (filter (\<lambda>w. w_txn w \<noteq> txn) (waiters e))"
    by (auto simp: entry_wf_def distinct_map_filter length_Suc_conv) 
  with inv Some show ?thesis
    by (simp add: release_one_def promote_put_inv)
qed (simp add: release_one_def)

lemma release_key_inv: "lm_inv m \<Longrightarrow> lm_inv (release_key txn m key)"
proof (cases "lm_entries m key")
  case (Some e)
  assume inv: "lm_inv m"
  then have "entry_wf (holders e) (waiters e)" using Some by (auto simp: lm_inv_def entry_inv_def)
  then have "entry_wf (filter (\<lambda>(t, _). t \<noteq> txn) (holders e)) (waiters e)"
    by (auto simp: entry_wf_def distinct_map_filter length_Suc_conv) 
  with inv Some show ?thesis
    by (simp add: release_key_def promote_put_inv)
qed (simp add: release_key_def)

lemma release_all_inv: "lm_inv m \<Longrightarrow> lm_inv (release_all m txn ks)"
proof -
  have "lm_inv m \<Longrightarrow> lm_inv (foldl (release_one txn) m keys)" for keys
    by (induction keys arbitrary: m) (auto intro: release_one_inv)
  then show "lm_inv m \<Longrightarrow> ?thesis" by (simp add: release_all_def Let_def)
qed

lemma release_keys_inv: "lm_inv m \<Longrightarrow> lm_inv (release_keys m txn keys)"
  unfolding release_keys_def by (induction keys arbitrary: m) (auto intro: release_key_inv)

lemma list_ex_waiter: "list_ex (\<lambda>w. w_txn w = txn) ws \<longleftrightarrow> txn \<in> w_txn ` set ws"
  by (auto simp: list_ex_iff)

lemma acquire_entry:
  assumes "e = \<lparr>holders = [], waiters = []\<rparr> \<or> entry_inv e"
  shows "holder_mode e txn = Some held \<Longrightarrow> length (holders e) = 1 \<Longrightarrow> held \<noteq> Exclusive \<Longrightarrow>
      entry_inv (e\<lparr>holders := map (\<lambda>(t, _). (t, Exclusive)) (holders e)\<rparr>)"
    and "holder_mode e txn = Some held \<Longrightarrow> length (holders e) \<noteq> 1 \<Longrightarrow> txn \<notin> w_txn ` set (waiters e) \<Longrightarrow>
      entry_inv (e\<lparr>waiters := \<lparr>w_txn = txn, w_mode = mode, w_upgrade = True\<rparr> # waiters e\<rparr>)"
    and "holder_mode e txn = None \<Longrightarrow> waiters e = [] \<Longrightarrow> compatible_with_holders (holders e) mode \<Longrightarrow>
      entry_inv (e\<lparr>holders := holders e @ [(txn, mode)]\<rparr>)"
    and "holder_mode e txn = None \<Longrightarrow> \<not> (waiters e = [] \<and> compatible_with_holders (holders e) mode) \<Longrightarrow>
      txn \<notin> w_txn ` set (waiters e) \<Longrightarrow>
      entry_inv (e\<lparr>waiters := waiters e @ [\<lparr>w_txn = txn, w_mode = mode, w_upgrade = False\<rparr>]\<rparr>)"
proof -
  have wf: "entry_wf (holders e) (waiters e)" "head_blocked (holders e) (waiters e)"
    using assms by (auto simp: entry_inv_def entry_wf_def head_blocked_def)
  show "entry_inv (e\<lparr>holders := map (\<lambda>(t, _). (t, Exclusive)) (holders e)\<rparr>)"
    if "holder_mode e txn = Some held" "length (holders e) = 1" "held \<noteq> Exclusive"
  proof -
    from that(2) obtain t m where "holders e = [(t, m)]" by (cases "holders e") auto
    with wf show ?thesis
      by (auto simp: entry_inv_def entry_wf_def head_blocked_def compatible_with_holders_iff
          split: list.splits if_splits)
  qed
  show "entry_inv (e\<lparr>waiters := \<lparr>w_txn = txn, w_mode = mode, w_upgrade = True\<rparr> # waiters e\<rparr>)"
    if "holder_mode e txn = Some held" "length (holders e) \<noteq> 1" "txn \<notin> w_txn ` set (waiters e)"
    using wf that by (auto simp: entry_inv_def entry_wf_def head_blocked_def)
  show "entry_inv (e\<lparr>holders := holders e @ [(txn, mode)]\<rparr>)"
    if "holder_mode e txn = None" "waiters e = []" "compatible_with_holders (holders e) mode"
    using wf that
    by (auto simp: entry_inv_def entry_wf_def head_blocked_def holder_mode_None
        compatible_with_holders_iff)
  show "entry_inv (e\<lparr>waiters := waiters e @ [\<lparr>w_txn = txn, w_mode = mode, w_upgrade = False\<rparr>]\<rparr>)"
    if "holder_mode e txn = None" "\<not> (waiters e = [] \<and> compatible_with_holders (holders e) mode)"
      "txn \<notin> w_txn ` set (waiters e)"
    using wf that
    by (cases "waiters e") (auto simp: entry_inv_def entry_wf_def head_blocked_def holder_mode_None)
qed

lemma acquire_inv: "lm_inv m \<Longrightarrow> lm_inv (snd (acquire m txn key mode))"
proof -
  assume inv: "lm_inv m"
  let ?e = "entry_or_default m key"
  have e: "?e = \<lparr>holders = [], waiters = []\<rparr> \<or> entry_inv ?e"
    using inv by (auto simp: entry_or_default_def lm_inv_def split: option.splits)
  have ne: "entry_inv ?e" if "?e \<noteq> \<lparr>holders = [], waiters = []\<rparr>" using e that by blast
  have "holder_mode ?e txn = Some held \<Longrightarrow> entry_inv ?e" for held
    using e by (auto simp: holder_mode_def)
  moreover have "\<not> (waiters ?e = [] \<and> compatible_with_holders (holders ?e) mode) \<Longrightarrow> entry_inv ?e"
    using e by (auto simp: compatible_with_holders_iff)
  ultimately show ?thesis
    using acquire_entry [OF e] inv
    by (cases "holder_mode ?e txn")
      (auto simp: acquire_def Let_def list_ex_waiter intro!: put_entry_inv split: if_splits)
qed

interpretation locks: state_machine "\<lambda>m. m = lock_manager_new" lm_step lm_inv
proof
  fix s t :: "'a lock_manager"
  show "s = lock_manager_new \<Longrightarrow> lm_inv s" by (simp add: lm_inv_def lock_manager_new_def)
  show "lm_step s t \<Longrightarrow> lm_inv s \<Longrightarrow> lm_inv t"
    by (erule lm_stepE)
      (auto simp: take_pending_shared_grants_def intro: acquire_inv release_all_inv release_keys_inv)
qed

subsection \<open>Safety\<close>

abbreviation entry_of :: "'k lock_manager \<Rightarrow> 'k \<Rightarrow> lock_entry" where
  "entry_of \<equiv> entry_or_default"

lemma entry_of_wf: "lm_inv m \<Longrightarrow> entry_wf (holders (entry_of m key)) (waiters (entry_of m key))"
  by (auto simp: entry_or_default_def lm_inv_def entry_inv_def entry_wf_def split: option.splits)

lemma entry_of_head: "lm_inv m \<Longrightarrow> head_blocked (holders (entry_of m key)) (waiters (entry_of m key))"
  by (auto simp: entry_or_default_def lm_inv_def entry_inv_def head_blocked_def split: option.splits)

text \<open>
  C11: in every state that any sequence of acquire, release and hand-over calls can reach from a new
  lock manager: two transactions that hold the same key both hold it shared, no transaction holds or
  waits for a key twice, and no request is left waiting at the head of a queue that could be granted
  (no lost wake-up): the head conflicts with a holder, or is an upgrade of a transaction that is not
  the only holder.
\<close>

theorem lock_manager_safe:
  assumes "lm_step\<^sup>*\<^sup>* lock_manager_new m"
  shows "let e = entry_of m key in
    (\<forall>t t' md md'. (t, md) \<in> set (holders e) \<and> (t', md') \<in> set (holders e) \<and> t \<noteq> t' \<longrightarrow>
       md = Shared \<and> md' = Shared)
    \<and> distinct (map fst (holders e)) \<and> distinct (map w_txn (waiters e))
    \<and> (\<forall>w ws. waiters e = w # ws \<longrightarrow>
         (if w_upgrade w then \<not> (\<exists>md. holders e = [(w_txn w, md)])
          else \<exists>(t, held) \<in> set (holders e). \<not> compatible_with held (w_mode w)))"
proof -
  have inv: "lm_inv m" using locks.reachable_inv assms by blast
  let ?e = "entry_of m key"
  note wf = entry_of_wf [OF inv, of key]
  have "md = Shared" if "(t, md) \<in> set (holders ?e)" "(t', md') \<in> set (holders ?e)" "t \<noteq> t'" for t t' md md'
  proof (rule ccontr)
    assume "md \<noteq> Shared"
    then have "length (holders ?e) = 1" using wf that(1) by (cases md) (auto simp: entry_wf_def)
    with that show False by (auto simp: length_Suc_conv)
  qed
  moreover have "if w_upgrade w then \<not> (\<exists>md. holders ?e = [(w_txn w, md)])
      else \<exists>(t, held) \<in> set (holders ?e). \<not> compatible_with held (w_mode w)" if "waiters ?e = w # ws" for w ws
    using entry_of_head [OF inv, of key] that
    by (auto simp: head_blocked_def compatible_with_holders_def list_all_iff split: if_splits)
  ultimately show ?thesis using wf by (auto simp: Let_def entry_wf_def)
qed

lemma lm_run: "lm_step\<^sup>*\<^sup>* lock_manager_new m \<Longrightarrow> lm_step\<^sup>*\<^sup>* lock_manager_new (snd (acquire m t k md))"
  by (rule rtranclp.rtrancl_into_rtrancl) (auto intro: step_acquire)

theorem lock_manager_safe_witness:
  "let m = snd (acquire (snd (acquire lock_manager_new 1 (KeyTable 9) Shared)) 2 (KeyTable 9) Shared) in
   holders (entry_of m (KeyTable 9)) = [(1, Shared), (2, Shared)]
   \<and> distinct (map fst (holders (entry_of m (KeyTable 9))))"
proof -
  let ?m = "snd (acquire (snd (acquire lock_manager_new 1 (KeyTable 9) Shared)) 2 (KeyTable 9) Shared)"
  have "distinct (map fst (holders (entry_of ?m (KeyTable 9))))"
    using lock_manager_safe [OF lm_run [OF lm_run [OF rtranclp.rtrancl_refl]], of 1 "KeyTable 9" Shared 2
        "KeyTable 9" Shared "KeyTable 9"] by (simp add: Let_def)
  then show ?thesis
    by (simp add: Let_def acquire_def entry_or_default_def lock_manager_new_def holder_mode_def
        put_entry_def compatible_with_holders_def)
qed

subsection \<open>Acquisition\<close>

text \<open>
  What \<open>acquire\<close> decides. It grants exactly when the transaction already holds the key strongly
  enough, or is its only holder (then the hold becomes exclusive), or holds nothing, nobody waits and
  the mode is compatible with every holder; so a newcomer never overtakes a waiter. A granted
  request is held at least at the requested mode; a blocked one changes no holder and leaves the
  transaction in the queue exactly once, with the other waiters in their order; other keys are
  untouched.
\<close>

lemma acquire_decision:
  assumes inv: "lm_inv m" and a: "acquire m txn key mode = (r, m')"
  shows "let e = entry_of m key; e' = entry_of m' key in
    (r = Granted \<longleftrightarrow>
       (case holder_mode e txn of
          Some held \<Rightarrow> held = Exclusive \<or> held = mode \<or> length (holders e) = 1
        | None \<Rightarrow> waiters e = [] \<and> compatible_with_holders (holders e) mode))
    \<and> (r = Granted \<longrightarrow>
         (\<exists>held. (txn, held) \<in> set (holders e') \<and> (mode = Exclusive \<longrightarrow> held = Exclusive)) \<and> waiters e' = waiters e)
    \<and> (r = Blocked \<longrightarrow> holders e' = holders e \<and> txn \<in> w_txn ` set (waiters e')
         \<and> distinct (map w_txn (waiters e')))
    \<and> filter (\<lambda>w. w_txn w \<noteq> txn) (waiters e') = filter (\<lambda>w. w_txn w \<noteq> txn) (waiters e)
    \<and> (\<forall>k. k \<noteq> key \<longrightarrow> lm_entries m' k = lm_entries m k)"
proof -
  let ?e = "entry_of m key"
  have inv': "lm_inv m'" using acquire_inv [OF inv, of txn key mode] a by simp
  then have d: "distinct (map w_txn (waiters (entry_of m' key)))"
    using entry_of_wf [OF inv', of key] by (simp add: entry_wf_def)
  show ?thesis
  proof (cases "holder_mode ?e txn")
    case None
    with a show ?thesis using d
      by (auto simp: acquire_def Let_def list_ex_waiter put_entry_def entry_or_default_def split: if_splits)
  next
    case (Some held)
    note h = holder_mode_Some [OF Some]
    show ?thesis
    proof (cases "length (holders ?e) = 1")
      case True
      with h obtain "holders ?e = [(txn, held)]" by (auto simp: length_Suc_conv)
      with a Some show ?thesis using d
        by (auto simp: acquire_def Let_def put_entry_def entry_or_default_def split: if_splits)
    next
      case False
      have "mode = held \<or> mode = Exclusive \<or> held = Exclusive" by (cases mode; cases held) auto
      with a Some False h show ?thesis using d
        by (auto simp: acquire_def Let_def list_ex_waiter put_entry_def entry_or_default_def split: if_splits)
    qed
  qed
qed

lemma acquire_decision_witness:
  "fst (acquire (snd (acquire lock_manager_new 1 (KeyTable 9) Exclusive)) 2 (KeyTable 9) Shared) = Blocked"
proof -
  let ?m = "snd (acquire lock_manager_new 1 (KeyTable 9) Exclusive)"
  have e: "entry_of ?m (KeyTable 9) = \<lparr>holders = [(1, Exclusive)], waiters = []\<rparr>"
    by (simp add: acquire_def entry_or_default_def lock_manager_new_def holder_mode_def put_entry_def
        compatible_with_holders_def Let_def)
  obtain r m' where a: "acquire ?m 2 (KeyTable 9) Shared = (r, m')"
    by (cases "acquire ?m 2 (KeyTable 9) Shared")
  have "lm_inv ?m" by (rule acquire_inv) (simp add: lm_inv_def lock_manager_new_def)
  from acquire_decision [OF this a] have "r \<noteq> Granted"
    by (simp add: e Let_def holder_mode_def compatible_with_holders_def)
  then show ?thesis using a by (cases r) auto
qed

subsection \<open>Release\<close>

definition holds :: "'k lock_manager \<Rightarrow> txn_id \<Rightarrow> 'k \<Rightarrow> bool" where
  "holds m txn key = (txn \<in> fst ` set (holders (entry_of m key)))"

definition involved :: "'k lock_manager \<Rightarrow> txn_id \<Rightarrow> 'k \<Rightarrow> bool" where
  "involved m txn key = (holds m txn key \<or> txn \<in> w_txn ` set (waiters (entry_of m key)))"

lemma promote_loop_members:
  "promote_loop key hs ws pend = (hs', ws', pend') \<Longrightarrow>
   fst ` set hs \<subseteq> fst ` set hs' \<and>
   fst ` set hs' \<union> w_txn ` set ws' \<subseteq> fst ` set hs \<union> w_txn ` set ws"
proof (induction key hs ws pend rule: promote_loop.induct)
  case (2 key hs w ws pend)
  have up: "fst ` (\<lambda>(t, _). (t, Exclusive)) ` set hs = fst ` set hs" by force
  consider (stop) "hs' = hs" "ws' = w # ws"
    | (upgrade) "w_upgrade w" "length hs = 1 \<and> fst (hd hs) = w_txn w"
    | (grant) "\<not> w_upgrade w" "compatible_with_holders hs (w_mode w)"
    using "2.prems" by (auto split: if_splits)
  then show ?case
  proof cases
    case upgrade
    with 2 show ?thesis by (auto simp: up)
  next
    case grant
    with 2 show ?thesis by auto
  qed simp
qed simp

lemma promote_waiters_other: "k \<noteq> key \<Longrightarrow> lm_entries (promote_waiters m key) k = lm_entries m k"
  by (auto simp: promote_waiters_def split: option.splits prod.splits)

lemma promote_waiters_members:
  "holds m t key \<Longrightarrow> holds (promote_waiters m key) t key"
  "involved (promote_waiters m key) t key \<Longrightarrow> involved m t key"
proof -
  have "(holds m t key \<longrightarrow> holds (promote_waiters m key) t key) \<and>
    (involved (promote_waiters m key) t key \<longrightarrow> involved m t key)"
  proof (cases "lm_entries m key")
    case None
    then show ?thesis by (simp add: promote_waiters_def)
  next
    case (Some e)
    obtain hs ws pend where
      p: "promote_loop key (holders e) (waiters e) (pending_shared_grants m) = (hs, ws, pend)"
      by (cases "promote_loop key (holders e) (waiters e) (pending_shared_grants m)")
    have e': "holders (entry_of (promote_waiters m key) key) = hs"
      "waiters (entry_of (promote_waiters m key) key) = ws"
      using Some p by (auto simp: promote_waiters_def entry_or_default_def)
    have e: "entry_of m key = e" using Some by (simp add: entry_or_default_def)
    show ?thesis using promote_loop_members [OF p] unfolding holds_def involved_def e e' by blast
  qed
  then show "holds m t key \<Longrightarrow> holds (promote_waiters m key) t key"
    "involved (promote_waiters m key) t key \<Longrightarrow> involved m t key" by blast+
qed

lemma release_one_other: "k \<noteq> key \<Longrightarrow> lm_entries (release_one txn m key) k = lm_entries m k"
  by (auto simp: release_one_def promote_waiters_other put_entry_def split: option.splits)

lemma release_one_gone: "\<not> involved (release_one txn m key) txn key"
proof (cases "lm_entries m key")
  case None
  then show ?thesis by (simp add: release_one_def involved_def holds_def entry_or_default_def)
next
  case (Some e)
  let ?m = "put_entry m key \<lparr>holders = filter (\<lambda>(t, _). t \<noteq> txn) (holders e),
      waiters = filter (\<lambda>w. w_txn w \<noteq> txn) (waiters e)\<rparr>"
  have "\<not> involved ?m txn key" by (auto simp: involved_def holds_def entry_or_default_def put_entry_def)
  with Some promote_waiters_members(2) [of ?m key txn] show ?thesis by (auto simp: release_one_def)
qed

lemma release_one_keeps:
  assumes "t \<noteq> txn" "holds m t k"
  shows "holds (release_one txn m key) t k"
proof (cases "k = key")
  case False
  then show ?thesis using assms release_one_other [of k key txn m]
    by (simp add: holds_def entry_or_default_def)
next
  case True
  then obtain e where e: "lm_entries m key = Some e" "t \<in> fst ` set (holders e)"
    using assms(2) by (auto simp: holds_def entry_or_default_def split: option.splits)
  let ?m = "put_entry m key \<lparr>holders = filter (\<lambda>(t, _). t \<noteq> txn) (holders e),
      waiters = filter (\<lambda>w. w_txn w \<noteq> txn) (waiters e)\<rparr>"
  have "holds ?m t key" using e(2) assms(1) by (force simp: holds_def entry_or_default_def put_entry_def)
  then show ?thesis using e(1) True promote_waiters_members(1) [of ?m t key] by (simp add: release_one_def)
qed

lemma release_fold:
  "k \<notin> set keys \<Longrightarrow> lm_entries (foldl (release_one txn) m keys) k = lm_entries m k"
  "k \<in> set keys \<Longrightarrow> \<not> involved (foldl (release_one txn) m keys) txn k"
  "t \<noteq> txn \<Longrightarrow> holds m t k \<Longrightarrow> holds (foldl (release_one txn) m keys) t k"
proof -
  show other: "lm_entries (foldl (release_one txn) m keys) k = lm_entries m k" if "k \<notin> set keys" for m
    using that by (induction keys arbitrary: m) (auto simp: release_one_other)
  show "holds (foldl (release_one txn) m keys) t k" if "t \<noteq> txn" "holds m t k" for m
    using that by (induction keys arbitrary: m) (auto intro: release_one_keeps)
  have stays: "\<not> involved (release_one txn m x) txn k" if "\<not> involved m txn k" for m x
  proof (cases "k = x")
    case True
    then show ?thesis by (simp add: release_one_gone)
  next
    case False
    with that show ?thesis by (simp add: involved_def holds_def entry_or_default_def release_one_other)
  qed
  have keep: "\<not> involved (foldl (release_one txn) m keys) txn k" if "\<not> involved m txn k" for m keys
    using that by (induction keys arbitrary: m) (simp_all add: stays)
  show "\<not> involved (foldl (release_one txn) m keys) txn k" if "k \<in> set keys" for m
    using that by (induction keys arbitrary: m) (auto simp: keep release_one_gone)
qed

text \<open>
  \<open>release_all\<close>, which ends a transaction, leaves it neither holding nor waiting for any key and
  without pending grants, takes no lock from any other transaction, and does not touch the keys the
  transaction had nothing to do with; for this the order in which the code walks its hash map does
  not matter.
\<close>

lemma release_all_complete:
  assumes "set ks = dom (lm_entries m)"
  shows "\<not> involved (release_all m txn ks) txn key
    \<and> pending_shared_grants (release_all m txn ks) txn = None
    \<and> (t \<noteq> txn \<and> holds m t key \<longrightarrow> holds (release_all m txn ks) t key)
    \<and> (\<not> involved m txn key \<longrightarrow> lm_entries (release_all m txn ks) key = lm_entries m key)"
proof -
  define keys where "keys = filter (\<lambda>k. case lm_entries m k of Some e \<Rightarrow> mentions e txn | None \<Rightarrow> False) ks"
  let ?m = "foldl (release_one txn) m keys"
  have same: "holds (release_all m txn ks) = holds ?m" "involved (release_all m txn ks) = involved ?m"
    "lm_entries (release_all m txn ks) = lm_entries ?m"
    by (auto simp: release_all_def Let_def keys_def [symmetric] holds_def involved_def
        entry_or_default_def fun_eq_iff)
  have iff: "key \<in> set keys \<longleftrightarrow> involved m txn key"
    using assms by (force simp: keys_def involved_def holds_def entry_or_default_def mentions_def
        list_ex_iff split: option.splits)
  have "\<not> involved ?m txn key"
  proof (cases "key \<in> set keys")
    case True
    then show ?thesis by (rule release_fold(2))
  next
    case False
    then have "lm_entries ?m key = lm_entries m key" by (rule release_fold(1))
    with False iff show ?thesis by (simp add: involved_def holds_def entry_or_default_def)
  qed
  then show ?thesis
    using release_fold(1) [of key keys txn m] release_fold(3) [of t txn m key keys] iff
    by (simp add: same) (simp add: release_all_def Let_def)
qed

lemma release_all_complete_witness:
  "\<not> involved (release_all (snd (acquire lock_manager_new 1 (KeyTable 9) Exclusive)) 1 [KeyTable 9]) 1 (KeyTable 9)"
proof -
  let ?m = "snd (acquire lock_manager_new 1 (KeyTable 9) Exclusive)"
  have "set [KeyTable 9] = dom (lm_entries ?m)"
    by (simp add: acquire_def entry_or_default_def lock_manager_new_def holder_mode_def put_entry_def
        compatible_with_holders_def Let_def)
  from release_all_complete [OF this, of 1 "KeyTable 9" 2] show ?thesis by blast
qed

subsection \<open>Wait-for edges\<close>

text \<open>Runs without \<open>release_keys\<close>: every isolation level but READ COMMITTED.\<close>

inductive strict_step :: "'k lock_manager \<Rightarrow> 'k lock_manager \<Rightarrow> bool" where
  strict_acquire: "strict_step m (snd (acquire m txn key mode))"
| strict_release_all:
    "set ks = dom (lm_entries m) \<Longrightarrow> distinct ks \<Longrightarrow> strict_step m (release_all m txn ks)"
| strict_take: "strict_step m (snd (take_pending_shared_grants m txn))"

inductive_cases strict_stepE: "strict_step m m'"

definition upgrades_hold :: "(txn_id \<times> lock_mode) list \<Rightarrow> waiter list \<Rightarrow> bool" where
  "upgrades_hold hs ws = (\<forall>w \<in> set ws. w_upgrade w \<longrightarrow> w_txn w \<in> fst ` set hs)"

definition strict_inv :: "'k lock_manager \<Rightarrow> bool" where
  "strict_inv m \<longleftrightarrow>
     lm_inv m \<and> (\<forall>key e. lm_entries m key = Some e \<longrightarrow> upgrades_hold (holders e) (waiters e))"

lemma promote_loop_upgrades:
  "promote_loop key hs ws pend = (hs', ws', pend') \<Longrightarrow> upgrades_hold hs ws \<Longrightarrow> upgrades_hold hs' ws'"
proof (induction key hs ws pend rule: promote_loop.induct)
  case (2 key hs w ws pend)
  have up: "fst ` (\<lambda>(t, _). (t, Exclusive)) ` set hs = fst ` set hs" by force
  consider (stop) "hs' = hs" "ws' = w # ws"
    | (upgrade) "w_upgrade w" "length hs = 1 \<and> fst (hd hs) = w_txn w"
    | (grant) "\<not> w_upgrade w" "compatible_with_holders hs (w_mode w)"
    using "2.prems"(1) by (auto split: if_splits)
  then show ?case
  proof cases
    case stop
    with 2 show ?thesis by simp
  next
    case upgrade
    with 2 show ?thesis by (auto simp: up upgrades_hold_def)
  next
    case grant
    with 2 show ?thesis by (auto simp: upgrades_hold_def)
  qed
qed simp

lemma strict_inv_pending [simp]: "strict_inv (m\<lparr>pending_shared_grants := p\<rparr>) = strict_inv m"
  by (simp add: strict_inv_def)

lemma strict_release_one: "strict_inv m \<Longrightarrow> strict_inv (release_one txn m key)"
proof (cases "lm_entries m key")
  case (Some e)
  assume inv: "strict_inv m"
  let ?hs = "filter (\<lambda>(t, _). t \<noteq> txn) (holders e)" and ?ws = "filter (\<lambda>w. w_txn w \<noteq> txn) (waiters e)"
  obtain hs ws pend where p: "promote_loop key ?hs ?ws (pending_shared_grants m) = (hs, ws, pend)"
    by (cases "promote_loop key ?hs ?ws (pending_shared_grants m)")
  have "upgrades_hold (holders e) (waiters e)" using inv Some by (simp add: strict_inv_def)
  then have "upgrades_hold ?hs ?ws" by (fastforce simp: upgrades_hold_def)
  note up = promote_loop_upgrades [OF p this]
  have "upgrades_hold (holders e') (waiters e')" if "lm_entries (release_one txn m key) k = Some e'" for k e'
    using that inv up p Some
    by (cases "k = key")
      (auto simp: release_one_def promote_waiters_def put_entry_def strict_inv_def split: if_splits)
  with inv show ?thesis by (simp add: strict_inv_def release_one_inv)
qed (simp add: release_one_def)

lemma strict_release_all: "strict_inv m \<Longrightarrow> strict_inv (release_all m txn ks)"
proof -
  have fold: "strict_inv m \<Longrightarrow> strict_inv (foldl (release_one txn) m keys)" for keys
    by (induction keys arbitrary: m) (auto intro: strict_release_one)
  then show "strict_inv m \<Longrightarrow> ?thesis" using fold by (simp add: release_all_def Let_def)
qed

lemma strict_acquire: "strict_inv m \<Longrightarrow> strict_inv (snd (acquire m txn key mode))"
proof -
  assume inv: "strict_inv m"
  let ?m = "snd (acquire m txn key mode)" and ?e = "entry_of m key"
  have old: "upgrades_hold (holders ?e) (waiters ?e)"
    using inv by (auto simp: strict_inv_def entry_or_default_def upgrades_hold_def split: option.splits)
  have img: "fst ` (\<lambda>(t, _). (t, Exclusive)) ` set hs = fst ` set hs" for hs :: "(txn_id \<times> lock_mode) list"
    by force
  have "upgrades_hold (holders e) (waiters e)" if "lm_entries ?m k = Some e" for k e
  proof (cases "k = key")
    case False
    with that inv show ?thesis
      by (auto simp: acquire_def Let_def put_entry_def strict_inv_def split: option.splits if_splits)
  next
    case True
    show ?thesis
    proof (cases "holder_mode ?e txn")
      case None
      with that True old show ?thesis
        by (auto simp: acquire_def Let_def put_entry_def upgrades_hold_def split: if_splits)
    next
      case (Some held)
      then have "txn \<in> fst ` set (holders ?e)" by (metis holder_mode_None option.distinct(1))
      with Some that True old show ?thesis
        unfolding upgrades_hold_def
        by (auto simp: acquire_def Let_def put_entry_def img split: if_splits) force
    qed
  qed
  moreover have "lm_inv ?m" using inv by (simp add: strict_inv_def acquire_inv)
  ultimately show ?thesis by (simp add: strict_inv_def)
qed

interpretation strict: state_machine "\<lambda>m. m = lock_manager_new" strict_step strict_inv
proof unfold_locales
  show "strict_inv s" if "s = lock_manager_new" for s :: "'k lock_manager"
    using that by (simp add: strict_inv_def lm_inv_def lock_manager_new_def)
  show "strict_inv t" if "strict_step s t" "strict_inv s" for s t :: "'k lock_manager"
    using that by (elim strict_stepE) (auto simp: strict_acquire strict_release_all
        take_pending_shared_grants_def)
qed

lemma queue_edges_nth: "i + 1 < length ws \<Longrightarrow> (w_txn (ws ! (i + 1)), w_txn (ws ! i)) \<in> set (queue_edges ws)"
proof (induction ws arbitrary: i rule: queue_edges.induct)
  case (1 a b ws)
  then show ?case by (cases i) auto
qed auto

lemma queue_edges_in: "(a, b) \<in> set (queue_edges ws) \<Longrightarrow> distinct (map w_txn ws) \<Longrightarrow> a \<noteq> b"
  by (induction ws rule: queue_edges.induct) auto

lemma entry_edge_of_waiter:
  assumes inv: "entry_inv e" and up: "upgrades_hold (holders e) (waiters e)" and w: "w \<in> set (waiters e)"
  shows "\<exists>t. (w_txn w, t) \<in> set (entry_edges e)"
proof -
  obtain i where i: "i < length (waiters e)" "waiters e ! i = w" using w by (auto simp: in_set_conv_nth)
  show ?thesis
  proof (cases i)
    case (Suc j)
    then show ?thesis using queue_edges_nth [of j "waiters e"] i by (auto simp: entry_edges_def)
  next
    case 0
    then obtain ws where ws: "waiters e = w # ws" using i by (cases "waiters e") auto
    have "\<exists>(h, held) \<in> set (holders e). h \<noteq> w_txn w \<and> (w_upgrade w \<or> \<not> compatible_with held (w_mode w))"
    proof (cases "w_upgrade w")
      case True
      then obtain md where md: "(w_txn w, md) \<in> set (holders e)"
        using up w by (auto simp: upgrades_hold_def)
      have "distinct (map fst (holders e))" "\<not> (length (holders e) = 1 \<and> fst (hd (holders e)) = w_txn w)"
        using inv True by (auto simp: entry_inv_def entry_wf_def head_blocked_def ws)
      then have "\<exists>x \<in> set (holders e). fst x \<noteq> w_txn w"
        using md by (cases "holders e"; cases "tl (holders e)") auto
      with True show ?thesis by auto
    next
      case False
      then have "w_txn w \<notin> fst ` set (holders e)" "\<not> compatible_with_holders (holders e) (w_mode w)"
        using inv by (auto simp: entry_inv_def entry_wf_def head_blocked_def ws)
      moreover from this(2) obtain h held where
        "(h, held) \<in> set (holders e)" "\<not> compatible_with held (w_mode w)"
        by (auto simp: compatible_with_holders_def list_all_iff)
      ultimately show ?thesis by force
    qed
    then obtain h held where "(h, held) \<in> set (holders e)" "h \<noteq> w_txn w"
        "w_upgrade w \<or> \<not> compatible_with held (w_mode w)" by auto
    then have "(w_txn w, h) \<in> set (waiter_edges (holders e) w)" by (force simp: waiter_edges_def)
    then show ?thesis by (auto simp: entry_edges_def ws)
  qed
qed

lemma edge_of_waiter:
  assumes run: "strict_step\<^sup>*\<^sup>* lock_manager_new m"
    and ks: "set ks = dom (lm_entries m)" and w: "w \<in> set (waiters (entry_of m key))"
  shows "\<exists>t. (w_txn w, t) \<in> set (wait_for_edges m ks)"
proof -
  have inv: "strict_inv m" using strict.reachable_inv run by blast
  obtain e where e: "lm_entries m key = Some e" "w \<in> set (waiters e)"
    using w by (auto simp: entry_or_default_def split: option.splits)
  with inv have "\<exists>t. (w_txn w, t) \<in> set (entry_edges e)"
    by (intro entry_edge_of_waiter) (auto simp: strict_inv_def lm_inv_def)
  moreover have "key \<in> set ks" using e(1) ks by auto
  ultimately show ?thesis using e(1) by (force simp: wait_for_edges_def)
qed

lemma no_self_edge:
  assumes "strict_step\<^sup>*\<^sup>* lock_manager_new m"
  shows "(t, t) \<notin> set (wait_for_edges m ks)"
proof
  have inv: "strict_inv m" using strict.reachable_inv assms by blast
  assume "(t, t) \<in> set (wait_for_edges m ks)"
  then obtain k e where "lm_entries m k = Some e" "(t, t) \<in> set (entry_edges e)"
    by (auto simp: wait_for_edges_def split: option.splits) (metis)
  moreover from this inv have "distinct (map w_txn (waiters e))"
    by (auto simp: strict_inv_def lm_inv_def entry_inv_def entry_wf_def)
  ultimately show False
    by (auto simp: entry_edges_def waiter_edges_def dest: queue_edges_in)
qed

text \<open>
  Deadlock detection sees every waiter: after any sequence of acquire, release-all and hand-over
  calls (every isolation level but READ COMMITTED), each queued request has an edge to a transaction
  other than itself in the graph that \<open>wait_for_edges\<close> returns, whatever order the code walks the
  hash map in; and no edge is a self-loop.
\<close>

lemma waiters_have_edges:
  assumes run: "strict_step\<^sup>*\<^sup>* lock_manager_new m"
    and ks: "set ks = dom (lm_entries m)"
  shows "(w \<in> set (waiters (entry_of m key)) \<longrightarrow>
      (\<exists>t. t \<noteq> w_txn w \<and> (w_txn w, t) \<in> set (wait_for_edges m ks)))
    \<and> (t, t) \<notin> set (wait_for_edges m ks)"
  using edge_of_waiter [OF run ks] no_self_edge [OF run] by metis

lemma strict_run: "strict_step\<^sup>*\<^sup>* lock_manager_new m \<Longrightarrow> strict_step\<^sup>*\<^sup>* lock_manager_new (snd (acquire m t k md))"
  by (rule rtranclp.rtrancl_into_rtrancl) (auto intro: strict_step.strict_acquire)

lemmas lock_eval = acquire_def entry_or_default_def lock_manager_new_def holder_mode_def put_entry_def
  compatible_with_holders_def Let_def push_grant_def release_keys_def release_key_def
  promote_waiters_def release_all_def release_one_def mentions_def take_pending_shared_grants_def

lemma waiters_have_edges_witness:
  "\<exists>t. t \<noteq> 2 \<and> (2, t) \<in> set (wait_for_edges
     (snd (acquire (snd (acquire lock_manager_new 1 (KeyTable 9) Exclusive)) 2 (KeyTable 9) Shared)) [KeyTable 9])"
proof -
  let ?m = "snd (acquire (snd (acquire lock_manager_new 1 (KeyTable 9) Exclusive)) 2 (KeyTable 9) Shared)"
  have e: "lm_entries ?m = [KeyTable 9 \<mapsto> \<lparr>holders = [(1, Exclusive)], waiters = [\<lparr>w_txn = 2, w_mode = Shared, w_upgrade = False\<rparr>]\<rparr>]"
    by (simp add: lock_eval)
  then have "set [KeyTable 9] = dom (lm_entries ?m)" by simp
  from waiters_have_edges [OF strict_run [OF strict_run [OF rtranclp.rtrancl_refl]] this,
      of "\<lparr>w_txn = 2, w_mode = Shared, w_upgrade = False\<rparr>" "KeyTable 9"]
  show ?thesis using e by (simp add: entry_or_default_def)
qed

subsection \<open>What releasing at the end of a READ COMMITTED statement does\<close>

text \<open>
  C14: handing back read locks can strand an upgrade. Two transactions share key \<open>k\<close> and transaction 1
  waits to upgrade; a statement of transaction 1 then ends and hands back the shared lock it took
  on \<open>k\<close> (\<open>take_pending_shared_grants\<close>, \<open>release_keys\<close>), and transaction 2 ends. The queue keeps the upgrade
  request although nobody holds \<open>k\<close>: every later request for \<open>k\<close> is \<open>Blocked\<close>, the one of
  transaction 1 included, and the wait-for graph has no edge that would show it.
\<close>

definition stranded :: "nat lock_manager" where
  "stranded =
     (let m = snd (acquire lock_manager_new 1 7 Shared);
          m = snd (acquire m 2 7 Shared);
          m = snd (acquire m 1 7 Exclusive);
          (ks, m) = take_pending_shared_grants m 1;
          m = release_keys m 1 ks in
      release_all m 2 [7])"


text \<open>
  Handing back read locks can drop a write lock. A READ COMMITTED statement of transaction 1 takes
  key 5 shared and is then blocked on key 6, so its grant of key 5 stays pending; transaction 1 then
  takes key 5 exclusively (an upgrade, granted at once). When its next scan ends, the pending
  grant of key 5 is still handed over, \<open>release_keys\<close> drops the exclusive lock, and another transaction
  gets key 5 exclusively while the first has not ended.
\<close>

definition dropped :: "nat lock_manager" where
  "dropped =
     (let m = snd (acquire lock_manager_new 2 6 Exclusive);
          m = snd (acquire m 1 5 Shared);
          m = snd (acquire m 1 6 Shared);
          m = snd (acquire m 1 5 Exclusive);
          m = release_all m 2 [5, 6];
          (ks, m) = take_pending_shared_grants m 1 in
      release_keys m 1 ks)"

lemma release_keys_drops_exclusive:
  "(let m = snd (acquire (lock_manager_new :: nat lock_manager) 2 6 Exclusive);
        m = snd (acquire m 1 5 Shared);
        m = snd (acquire m 1 6 Shared)
    in fst (acquire m 1 5 Exclusive) = Granted)
   \<and> \<not> holds dropped 1 5
   \<and> fst (acquire dropped 2 5 Exclusive) = Granted"
proof -
  show ?thesis by code_simp
qed

end
