(* ===== verification/Deadlock.thy ===== *)
theory Deadlock
  imports Lock_Manager "HOL-Library.Transitive_Closure_Table"
begin

text \<open>
  Deadlock detection of \<open>src/src/database.rs\<close>: \<open>find_cycle_containing\<close>, a depth-first search of the
  wait-for graph for a cycle through the requesting transaction, and the choice of the victim in
  \<open>detect_deadlock\<close>. Rolling the victim back (\<open>abort_transaction\<close>) is not part of this theory.
\<close>

subsection \<open>The search\<close>

text \<open>The map of \<open>detect_deadlock\<close>: successors sorted and without duplicates.\<close>

definition adjacency_of :: "(txn_id \<times> txn_id) list \<Rightarrow> txn_id \<rightharpoonup> txn_id list" where
  "adjacency_of edges n =
     (case map snd (filter (\<lambda>(w, h). w = n) edges) of
        [] \<Rightarrow> None
      | ns \<Rightarrow> Some (remdups_adj (sort ns)))"

text \<open>
  The loop of \<open>dfs\<close> over the successors that remain; \<open>path\<close> and \<open>on_path\<close> are popped when a branch
  fails, so the call for a successor gets them extended and the rest of the loop gets them as they were.
\<close>

function (sequential) dfs_neighbors ::
  "txn_id \<Rightarrow> (txn_id \<rightharpoonup> txn_id list) \<Rightarrow> txn_id list \<Rightarrow> txn_id set \<Rightarrow> txn_id list \<Rightarrow> txn_id list option" where
  "dfs_neighbors start adj path on_path [] = None"
| "dfs_neighbors start adj path on_path (n # ns) =
     (if n = start then Some path
      else if n \<in> on_path then dfs_neighbors start adj path on_path ns
      else
        (case (case adj n of
                 None \<Rightarrow> None
               | Some ms \<Rightarrow> dfs_neighbors start adj (path @ [n]) (insert n on_path) ms) of
           Some cycle \<Rightarrow> Some cycle
         | None \<Rightarrow> dfs_neighbors start adj path on_path ns))"
  by pat_completeness auto

termination
  by (relation "measures [\<lambda>(start, adj, path, on_path, ns). card (- on_path),
        \<lambda>(start, adj, path, on_path, ns). length ns]")
    (auto intro!: psubset_card_mono)

definition dfs ::
  "txn_id \<Rightarrow> txn_id \<Rightarrow> (txn_id \<rightharpoonup> txn_id list) \<Rightarrow> txn_id list \<Rightarrow> txn_id set \<Rightarrow> txn_id list option" where
  "dfs node start adj path on_path =
     (case adj node of None \<Rightarrow> None | Some ns \<Rightarrow> dfs_neighbors start adj path on_path ns)"

definition find_cycle_containing :: "(txn_id \<rightharpoonup> txn_id list) \<Rightarrow> txn_id \<Rightarrow> txn_id list option" where
  "find_cycle_containing adj start = dfs start start adj [start] {start}"

text \<open>\<open>max_by_key\<close>; \<open>None\<close> for the empty iterator.\<close>

definition max_txn :: "txn_id list \<Rightarrow> txn_id option" where
  "max_txn c = (case c of [] \<Rightarrow> None | t # ts \<Rightarrow> Some (fold max ts t))"

definition detect_victim :: "(txn_id \<times> txn_id) list \<Rightarrow> txn_id \<Rightarrow> txn_id option outcome" where
  "detect_victim edges owner =
     (case find_cycle_containing (adjacency_of edges) owner of
        None \<Rightarrow> Ok None
      | Some cycle \<Rightarrow> and_then (expect (max_txn cycle)) (\<lambda>v. Ok (Some v)))"

subsection \<open>Soundness and completeness\<close>

definition succ_of :: "(txn_id \<rightharpoonup> txn_id list) \<Rightarrow> txn_id \<Rightarrow> txn_id \<Rightarrow> bool" where
  "succ_of adj a b = (case adj a of None \<Rightarrow> False | Some ns \<Rightarrow> b \<in> set ns)"

definition cycle_through :: "('a \<Rightarrow> 'a \<Rightarrow> bool) \<Rightarrow> 'a \<Rightarrow> 'a list \<Rightarrow> bool" where
  "cycle_through E s c \<longleftrightarrow> c \<noteq> [] \<and> hd c = s \<and> distinct c \<and> successively E c \<and> E (last c) s"

lemma succ_of_adjacency: "succ_of (adjacency_of edges) a b \<longleftrightarrow> (a, b) \<in> set edges"
proof (cases "map snd (filter (\<lambda>(w, h). w = a) edges)")
  case Nil
  then have "(a, b) \<notin> set edges" by (auto simp: filter_empty_conv)
  with Nil show ?thesis by (simp add: succ_of_def adjacency_of_def)
next
  case (Cons n ns)
  have "b \<in> set (map snd (filter (\<lambda>(w, h). w = a) edges)) \<longleftrightarrow> (a, b) \<in> set edges" by force
  with Cons show ?thesis by (simp add: succ_of_def adjacency_of_def set_insort_key)
qed

lemma dfs_neighbors_sound:
  assumes "dfs_neighbors start adj path on_path ns = Some c"
    and "path \<noteq> []" "hd path = start" "distinct path" "set path = on_path"
    and "successively (succ_of adj) path" "\<forall>n \<in> set ns. succ_of adj (last path) n"
  shows "cycle_through (succ_of adj) start c"
  using assms
proof (induction start adj path on_path ns rule: dfs_neighbors.induct)
  case (2 start adj path on_path n ns)
  show ?case
  proof (cases "n = start")
    case True
    with 2 show ?thesis by (auto simp: cycle_through_def)
  next
    case ns: False
    show ?thesis
    proof (cases "n \<in> on_path")
      case True
      with 2 ns show ?thesis by simp
    next
      case False
      let ?inner = "case adj n of None \<Rightarrow> None
        | Some ms \<Rightarrow> dfs_neighbors start adj (path @ [n]) (insert n on_path) ms"
      show ?thesis
      proof (cases ?inner)
        case None
        have "dfs_neighbors start adj path on_path ns = Some c" using "2.prems"(1) ns False None by simp
        with "2.IH"(3) [OF ns False None] "2.prems" show ?thesis by simp
      next
        case (Some c')
        then obtain ms where ms: "adj n = Some ms"
          "dfs_neighbors start adj (path @ [n]) (insert n on_path) ms = Some c'"
          by (auto split: option.splits)
        have "c' = c" using "2.prems"(1) ns False Some by simp
        moreover have "\<forall>m \<in> set ms. succ_of adj n m" by (simp add: succ_of_def ms)
        ultimately show ?thesis
          using "2.IH"(2) [OF ns False ms(1)] ms(2) "2.prems" False
          by (auto simp: successively_append_iff)
      qed
    qed
  qed
qed simp

lemma dfs_neighbors_start: "start \<in> set ns \<Longrightarrow> dfs_neighbors start adj path on_path ns \<noteq> None"
  by (induction ns) (auto split: option.splits)

lemma dfs_neighbors_complete:
  assumes "rtrancl_path (succ_of adj) x xs z" "succ_of adj z start"
    and "distinct (x # xs)" "set (x # xs) \<inter> insert start on_path = {}"
    and "x \<in> set ns"
  shows "dfs_neighbors start adj path on_path ns \<noteq> None"
  using assms
proof (induction start adj path on_path ns arbitrary: x xs rule: dfs_neighbors.induct)
  case (2 start adj path on_path n ns)
  show ?case
  proof (cases "n = start")
    case False
    note ns = False
    show ?thesis
    proof (cases "n \<in> on_path")
      case True
      with "2.prems" have "x \<in> set ns" by auto
      with 2 ns True show ?thesis by simp
    next
      case False
      let ?inner = "case adj n of None \<Rightarrow> None
        | Some ms \<Rightarrow> dfs_neighbors start adj (path @ [n]) (insert n on_path) ms"
      have "?inner \<noteq> None \<or> dfs_neighbors start adj path on_path ns \<noteq> None"
      proof (cases "x = n")
        case x: True
        obtain ms where ms: "adj n = Some ms" and cont: "xs = [] \<and> start \<in> set ms \<or> (\<exists>y ys. xs = y # ys \<and> y \<in> set ms)"
          using "2.prems"(1,2) x
          by (cases xs) (auto simp: succ_of_def elim: rtrancl_path.cases split: option.splits)
        from cont have "dfs_neighbors start adj (path @ [n]) (insert n on_path) ms \<noteq> None"
        proof (elim disjE exE conjE)
          assume "start \<in> set ms"
          then show ?thesis by (simp add: dfs_neighbors_start)
        next
          fix y ys assume y: "xs = y # ys" "y \<in> set ms"
          then have "rtrancl_path (succ_of adj) y ys z" using "2.prems"(1) by (auto elim: rtrancl_path.cases)
          with "2.IH"(2) [OF ns False ms this] "2.prems" y x show ?thesis by auto
        qed
        with ms show ?thesis by simp
      next
        case x: False
        with "2.prems"(5) have "x \<in> set ns" by simp
        with "2.IH"(3) [OF ns False _ "2.prems"(1,2,3,4)] show ?thesis by blast
      qed
      with ns False show ?thesis by (auto split: option.splits)
    qed
  qed simp
qed simp

lemma cycle_tranclp:
  assumes "cycle_through E s c" "t \<in> set c"
  shows "E\<^sup>*\<^sup>* s t" "E\<^sup>+\<^sup>+ t s"
proof -
  obtain as bs where c: "c = as @ t # bs" using assms(2) by (auto dest: split_list)
  have last: "E (last (t # bs)) s" using assms(1) by (simp add: c cycle_through_def)
  have walk: "successively E (x # xs) \<Longrightarrow> E\<^sup>*\<^sup>* x (last (x # xs))" for x xs
    by (induction xs arbitrary: x) (auto intro: converse_rtranclp_into_rtranclp)
  have "successively E (t # bs)" "successively E (as @ [t])"
    using assms(1) by (auto simp: c cycle_through_def successively_append_iff)
  from walk [OF this(1)] last show "E\<^sup>+\<^sup>+ t s" by (rule rtranclp_into_tranclp1)
  show "E\<^sup>*\<^sup>* s t"
  proof (cases as)
    case Nil
    then show ?thesis using assms(1) by (simp add: c cycle_through_def)
  next
    case (Cons a as')
    then have "successively E (a # as' @ [t])" using \<open>successively E (as @ [t])\<close> by simp
    from walk [OF this] Cons show ?thesis using assms(1) by (simp add: c cycle_through_def)
  qed
qed

lemma find_cycle_sound:
  assumes "find_cycle_containing adj s = Some c"
  shows "cycle_through (succ_of adj) s c"
  using assms unfolding find_cycle_containing_def dfs_def
  by (auto split: option.splits simp: succ_of_def intro!: dfs_neighbors_sound)

lemma find_cycle_complete:
  assumes "(succ_of adj)\<^sup>+\<^sup>+ s s"
  shows "find_cycle_containing adj s \<noteq> None"
proof -
  obtain z where z: "(succ_of adj)\<^sup>*\<^sup>* s z" "succ_of adj z s"
    using assms by (metis rtranclp.rtrancl_refl tranclp.cases tranclp_into_rtranclp)
  obtain xs where xs: "rtrancl_path (succ_of adj) s xs z" "distinct (s # xs)"
    using z(1) by (auto simp: rtranclp_eq_rtrancl_path elim: rtrancl_path_distinct)
  show ?thesis
  proof (cases xs)
    case Nil
    then have "z = s" using xs(1) by (auto elim: rtrancl_path.cases)
    then show ?thesis using z(2)
      by (auto simp: find_cycle_containing_def dfs_def succ_of_def dest: dfs_neighbors_start split: option.splits)
  next
    case (Cons y ys)
    then have "succ_of adj s y" "rtrancl_path (succ_of adj) y ys z"
      using xs(1) by (auto elim: rtrancl_path.cases)
    moreover from this(1) obtain ns where "adj s = Some ns" "y \<in> set ns"
      by (auto simp: succ_of_def split: option.splits)
    ultimately show ?thesis
      using dfs_neighbors_complete [of adj y ys z s "{s}" ns "[s]"] z(2) xs(2) Cons
      by (auto simp: find_cycle_containing_def dfs_def)
  qed
qed

lemma max_txn_Max: "c \<noteq> [] \<Longrightarrow> max_txn c = Some (Max (set c))"
  by (cases c) (simp_all add: max_txn_def Max.set_eq_fold [symmetric])

lemma detect_victim_none:
  "detect_victim edges owner = Ok None \<longleftrightarrow> \<not> (\<lambda>a b. (a, b) \<in> set edges)\<^sup>+\<^sup>+ owner owner"
proof -
  let ?E = "\<lambda>a b. (a, b) \<in> set edges"
  have E: "succ_of (adjacency_of edges) = ?E" by (simp add: fun_eq_iff succ_of_adjacency)
  show ?thesis
  proof (cases "find_cycle_containing (adjacency_of edges) owner")
    case None
    then show ?thesis
      using find_cycle_complete [of "adjacency_of edges" owner] by (auto simp: E detect_victim_def)
  next
    case (Some c)
    from find_cycle_sound [OF this] have c: "cycle_through ?E owner c" by (simp add: E)
    then have "c \<noteq> []" "owner \<in> set c" by (cases c; simp add: cycle_through_def)+
    with cycle_tranclp(2) [OF c] Some show ?thesis by (auto simp: detect_victim_def max_txn_Max)
  qed
qed

lemma detect_victim_some:
  assumes "detect_victim edges owner \<noteq> Ok None"
  shows "\<exists>c. cycle_through (\<lambda>a b. (a, b) \<in> set edges) owner c
    \<and> detect_victim edges owner = Ok (Some (Max (set c)))"
proof -
  have E: "succ_of (adjacency_of edges) = (\<lambda>a b. (a, b) \<in> set edges)"
    by (simp add: fun_eq_iff succ_of_adjacency)
  obtain c where c: "find_cycle_containing (adjacency_of edges) owner = Some c"
    using assms by (cases "find_cycle_containing (adjacency_of edges) owner") (auto simp: detect_victim_def)
  from find_cycle_sound [OF this] have "c \<noteq> []" by (simp add: cycle_through_def)
  with c find_cycle_sound [OF c] show ?thesis by (auto simp: E detect_victim_def max_txn_Max)
qed

text \<open>
  C12: the search decides exactly whether the requesting transaction waits, through any number of
  others, for itself: it reports no victim if and only if the graph has no path from the owner back to
  the owner; otherwise the victim is the youngest transaction (the largest identifier) of a cycle
  through the owner, so aborting it breaks that cycle. The \<open>expect\<close> on the maximum never panics.
\<close>

theorem detect_victim_exact:
  "let E = (\<lambda>a b. (a, b) \<in> set edges) in
   if E\<^sup>+\<^sup>+ owner owner
   then \<exists>c. cycle_through E owner c \<and> detect_victim edges owner = Ok (Some (Max (set c)))
   else detect_victim edges owner = Ok None"
  using detect_victim_none [of edges owner] detect_victim_some [of edges owner]
  unfolding Let_def by auto



end
