(* ===== verification/Codec.thy ===== *)
theory Codec
  imports Errors
begin

text \<open>
  What the byte codecs of the program share. They all walk a buffer with a cursor, take slices with
  \<open>bytes.get(cursor..cursor + n)\<close> and fail with an error of their own when the buffer ends early.
  The locale \<open>cursor_codec\<close> is the contract between an encoder and such a decoder; it is interpreted on
  the column values of tuples, the keys and entries of B+tree pages, the records of the log and the
  cells of the wire protocol.
\<close>

named_theorems codec_intros \<open>reads that succeed on a buffer that holds an encoding\<close>

definition read_bytes :: "db_error \<Rightarrow> byte list \<Rightarrow> nat \<Rightarrow> nat \<Rightarrow> (byte list \<times> nat) outcome" where
  "read_bytes e bs c n = and_then (ok_or e (get_slice bs c (c + n))) (\<lambda>xs. Ok (xs, c + n))"

lemma read_bytes_at [codec_intros]:
  assumes "c \<le> length bs" "drop c bs = xs @ r" "n = length xs"
  shows "read_bytes e bs c n = Ok (xs, c + n)"
  using get_slice_at [OF assms(1,2)] assms(3) by (simp add: read_bytes_def)

lemma read_bytes_Ok_iff:
  "read_bytes e bs c n = Ok (xs, c') \<longleftrightarrow>
     c' = c + n \<and> c + n \<le> length bs \<and> xs = take n (drop c bs)"
  by (auto simp: read_bytes_def and_then_Ok_iff get_slice_Some_iff)

lemma read_bytes_Err_iff:
  "read_bytes e bs c n = Err d \<longleftrightarrow> length bs < c + n \<and> d = e"
  by (auto simp: read_bytes_def and_then_Err_iff get_slice_def)

lemma read_bytes_no_panic [simp]: "read_bytes e bs c n \<noteq> Panic"
  by (simp add: read_bytes_def and_then_Panic_iff)

locale cursor_codec =
  fixes enc :: "'a \<Rightarrow> byte list"
    and dec :: "byte list \<Rightarrow> nat \<Rightarrow> ('a \<times> nat) outcome"
    and encodable :: "'a \<Rightarrow> bool"
  assumes dec_enc:
    "encodable x \<Longrightarrow> c \<le> length bs \<Longrightarrow> drop c bs = enc x @ r \<Longrightarrow>
     dec bs c = Ok (x, c + length (enc x))"
begin

lemma dec_whole: "encodable x \<Longrightarrow> dec (enc x) 0 = Ok (x, length (enc x))"
  using dec_enc [of x 0 "enc x" "[]"] by simp

text \<open>Encodings are prefix-free: a buffer starts with at most one of them.\<close>

lemma prefix_free:
  assumes "encodable x" "encodable y" "enc x @ r = enc y @ s"
  shows "x = y \<and> r = s"
proof -
  have "dec (enc x @ r) 0 = Ok (x, length (enc x))"
    using dec_enc [of x 0 "enc x @ r" r] assms(1) by simp
  moreover have "dec (enc x @ r) 0 = Ok (y, length (enc y))"
    using dec_enc [of y 0 "enc x @ r" s] assms(2,3) by simp
  ultimately show ?thesis using assms(3) by simp
qed

lemma advance:
  assumes "c \<le> length bs" "drop c bs = enc x @ r"
  shows "c + length (enc x) \<le> length bs" "drop (c + length (enc x)) bs = r"
  using drop_advance_le [OF assms refl] drop_advance [OF assms(2) refl] by auto

end

text \<open>The loop \<open>for _ in 0..n\<close> that reads one item per turn.\<close>

fun read_many :: "(byte list \<Rightarrow> nat \<Rightarrow> ('a \<times> nat) outcome) \<Rightarrow> nat \<Rightarrow> byte list \<Rightarrow> nat
    \<Rightarrow> ('a list \<times> nat) outcome" where
  "read_many dec 0 bs c = Ok ([], c)"
| "read_many dec (Suc n) bs c =
    and_then (dec bs c) (\<lambda>(x, c1). and_then (read_many dec n bs c1) (\<lambda>(xs, c2). Ok (x # xs, c2)))"

context cursor_codec
begin

lemma read_many_enc:
  assumes "\<forall>x \<in> set xs. encodable x" "c \<le> length bs" "drop c bs = concat (map enc xs) @ r"
  shows "read_many dec (length xs) bs c = Ok (xs, c + length (concat (map enc xs)))"
  using assms
proof (induction xs arbitrary: c)
  case (Cons x xs)
  from Cons.prems have d: "drop c bs = enc x @ (concat (map enc xs) @ r)" by simp
  note step = dec_enc [OF _ Cons.prems(2) d] advance [OF Cons.prems(2) d]
  with Cons.IH [OF _ step(2) step(3)] Cons.prems(1) show ?case by (simp add: add.assoc)
qed simp

end

end
