(* ===== verification/Page.thy ===== *)
theory Page
  imports Codec
begin

unbundle bit_operations_syntax

text \<open>
  The on-disk format of \<open>src/src/page.rs\<close>: the file header, the fixed-size page with its checksum, and
  the CRC-32 that both use. A write into a byte buffer is a checked slice assignment; one that does
  not fit is a panic, as \<open>copy_from_slice\<close> is.
\<close>

definition PAGE_SIZE :: nat where "PAGE_SIZE = 4096"
definition MAGIC :: "byte list" where "MAGIC = [0x4D, 0x44, 0x42, 0x31]"
definition FORMAT_VERSION :: u32 where "FORMAT_VERSION = 2"
definition FILE_HEADER_SIZE :: nat where "FILE_HEADER_SIZE = 24"
definition PAGE_HEADER_SIZE :: nat where "PAGE_HEADER_SIZE = 24"
definition PAGE_PAYLOAD_SIZE :: nat where "PAGE_PAYLOAD_SIZE = PAGE_SIZE - PAGE_HEADER_SIZE"

lemmas page_consts = PAGE_SIZE_def FILE_HEADER_SIZE_def PAGE_HEADER_SIZE_def PAGE_PAYLOAD_SIZE_def

definition put :: "nat \<Rightarrow> byte list \<Rightarrow> byte list \<Rightarrow> byte list outcome" where
  "put off xs buf = expect (put_slice buf off xs)"

definition sub_slice :: "byte list \<Rightarrow> nat \<Rightarrow> nat \<Rightarrow> byte list outcome" where
  "sub_slice bs a b = expect (get_slice bs a b)"

subsection \<open>CRC-32\<close>

definition crc_bit :: "u32 \<Rightarrow> u32" where
  "crc_bit c = (let mask = - (c AND 1) in drop_bit 1 c XOR (0xEDB88320 AND mask))"

definition crc_byte :: "u32 \<Rightarrow> byte \<Rightarrow> u32" where
  "crc_byte c b = (crc_bit ^^ 8) (c XOR ucast b)"

definition crc32 :: "byte list \<Rightarrow> u32" where
  "crc32 bs = NOT (foldl crc_byte 0xFFFFFFFF bs)"

lemma crc_bit_mask: "- (c AND 1) = (if bit c 0 then - 1 else (0 :: u32))"
  by (auto simp: and_one_eq bit_0 odd_iff_mod_2_eq_one even_iff_mod_2_eq_zero)

lemma xor_cancel: "a XOR c = b XOR c \<longleftrightarrow> a = (b :: u32)" "c XOR a = c XOR b \<longleftrightarrow> a = b"
  by (auto simp: bit_eq_iff bit_xor_iff)

lemma crc_bit_if: "crc_bit c = drop_bit 1 c XOR (if bit c 0 then 0xEDB88320 else 0)"
  unfolding crc_bit_def Let_def crc_bit_mask by simp

lemma bit_crc_bit_31: "bit (crc_bit c) 31 = bit c 0"
proof -
  have "bit (0xEDB88320 :: u32) 31" by simp
  moreover have "\<not> bit c 32" using bit_imp_le_length [of c 32] by auto
  ultimately show ?thesis by (simp add: crc_bit_if bit_xor_iff bit_drop_bit_eq)
qed

lemma crc_bit_inj: "inj crc_bit"
proof (rule injI)
  fix c d :: u32
  assume eq: "crc_bit c = crc_bit d"
  then have b0: "bit c 0 = bit d 0" by (metis bit_crc_bit_31)
  with eq have "drop_bit 1 c = drop_bit 1 d" by (simp add: crc_bit_if xor_cancel)
  then have "bit c (Suc n) = bit d (Suc n)" for n by (metis bit_drop_bit_eq comp_apply plus_1_eq_Suc)
  then show "c = d" using b0 by (intro bit_eqI) (metis not0_implies_Suc)
qed

lemma crc_byte_inj_state: "crc_byte c b = crc_byte d b \<longleftrightarrow> c = d"
proof -
  have "inj (crc_bit ^^ 8)" using crc_bit_inj by (rule inj_fn)
  then have "crc_byte c b = crc_byte d b \<longleftrightarrow> c XOR ucast b = d XOR ucast b"
    by (simp add: crc_byte_def inj_eq)
  then show ?thesis by (simp add: xor_cancel)
qed

lemma crc_byte_inj_byte: "crc_byte c a = crc_byte c b \<longleftrightarrow> a = b"
proof -
  have "inj (crc_bit ^^ 8)" using crc_bit_inj by (rule inj_fn)
  then have "crc_byte c a = crc_byte c b \<longleftrightarrow> c XOR ucast a = c XOR (ucast b :: u32)"
    by (simp add: crc_byte_def inj_eq)
  also have "\<dots> \<longleftrightarrow> ucast a = (ucast b :: u32)"
    by (simp add: xor_cancel)
  also have "\<dots> \<longleftrightarrow> a = b"
  proof
    assume "ucast a = (ucast b :: u32)"
    then have "unat (ucast a :: u32) = unat (ucast b :: u32)" by simp
    moreover have "unat x < 2 ^ 32" for x :: byte
      using unsigned_less [of x, where 'a = nat] by simp
    ultimately show "a = b"
      by (simp add: unsigned_ucast_eq take_bit_nat_eq_self unsigned_word_eqI)
  qed simp
  finally show ?thesis .
qed

lemma crc_fold_inj: "foldl crc_byte c bs = foldl crc_byte d bs \<longleftrightarrow> c = d"
  by (induction bs arbitrary: c d) (simp_all add: crc_byte_inj_state)

text \<open>Changing one byte always changes the checksum.\<close>

lemma crc32_one_byte:
  assumes "i < length bs" "b \<noteq> bs ! i"
  shows "crc32 (bs[i := b]) \<noteq> crc32 bs"
proof -
  let ?f = "foldl crc_byte 0xFFFFFFFF (take i bs)"
  have "foldl crc_byte 0xFFFFFFFF (bs[i := b]) = foldl crc_byte (crc_byte ?f b) (drop (Suc i) bs)"
    using assms(1) by (simp add: upd_conv_take_nth_drop)
  moreover have "foldl crc_byte 0xFFFFFFFF bs = foldl crc_byte (crc_byte ?f (bs ! i)) (drop (Suc i) bs)"
    by (subst id_take_nth_drop [OF assms(1)]) simp
  ultimately show ?thesis
    using assms(2) by (simp add: crc32_def crc_fold_inj crc_byte_inj_byte)
qed

subsection \<open>File header\<close>

record file_header =
  fh_page_size :: u32
  fh_page_count :: u64

definition file_header_new :: "u64 \<Rightarrow> file_header" where
  "file_header_new n = \<lparr>fh_page_size = of_nat PAGE_SIZE, fh_page_count = n\<rparr>"

definition file_header_encode :: "file_header \<Rightarrow> byte list outcome" where
  "file_header_encode h =
     and_then (put 0 MAGIC (replicate FILE_HEADER_SIZE 0)) (\<lambda>buf.
     and_then (put 4 (le32 FORMAT_VERSION) buf) (\<lambda>buf.
     and_then (put 8 (le32 (fh_page_size h)) buf) (\<lambda>buf.
     and_then (put 12 (le64 (fh_page_count h)) buf) (\<lambda>buf.
     and_then (sub_slice buf 0 20) (\<lambda>pre.
     put 20 (le32 (crc32 pre)) buf)))))"

definition file_header_decode :: "byte list \<Rightarrow> file_header outcome" where
  "file_header_decode bs =
     (if length bs \<noteq> FILE_HEADER_SIZE then Err CorruptPage
      else and_then (sub_slice bs 0 4) (\<lambda>magic.
        if magic \<noteq> MAGIC then Err CorruptPage
        else and_then (sub_slice bs 4 8) (\<lambda>v.
          if from_le32 v \<noteq> FORMAT_VERSION then Err CorruptPage
          else and_then (sub_slice bs 8 12) (\<lambda>ps.
            and_then (sub_slice bs 12 20) (\<lambda>pc.
            and_then (sub_slice bs 20 24) (\<lambda>cs.
            and_then (sub_slice bs 0 20) (\<lambda>pre.
              if from_le32 cs \<noteq> crc32 pre then Err CorruptPage
              else Ok \<lparr>fh_page_size = from_le32 ps, fh_page_count = from_le64 pc\<rparr>)))))))"

subsection \<open>Pages\<close>

datatype page_type = PtMeta | PtData | PtCatalog | PtBTreeLeaf | PtBTreeInternal

fun page_type_to_u8 :: "page_type \<Rightarrow> byte" where
  "page_type_to_u8 PtMeta = 0"
| "page_type_to_u8 PtData = 1"
| "page_type_to_u8 PtCatalog = 2"
| "page_type_to_u8 PtBTreeLeaf = 3"
| "page_type_to_u8 PtBTreeInternal = 4"

definition page_type_from_u8 :: "byte \<Rightarrow> page_type outcome" where
  "page_type_from_u8 b =
     (if b = 0 then Ok PtMeta else if b = 1 then Ok PtData else if b = 2 then Ok PtCatalog
      else if b = 3 then Ok PtBTreeLeaf else if b = 4 then Ok PtBTreeInternal
      else Err CorruptPage)"

record page =
  page_id :: u64
  page_kind :: page_type
  page_lsn :: u64
  payload :: "byte list"

definition page_new :: "u64 \<Rightarrow> page_type \<Rightarrow> page" where
  "page_new i t = \<lparr>page_id = i, page_kind = t, page_lsn = 0, payload = replicate PAGE_PAYLOAD_SIZE 0\<rparr>"

definition page_encode :: "page \<Rightarrow> byte list outcome" where
  "page_encode p =
     and_then (put 0 (le64 (page_id p)) (replicate PAGE_SIZE 0)) (\<lambda>buf.
     and_then (put 8 [page_type_to_u8 (page_kind p)] buf) (\<lambda>buf.
     and_then (put 9 (le64 (page_lsn p)) buf) (\<lambda>buf.
     if length (payload p) \<noteq> PAGE_SIZE - PAGE_HEADER_SIZE then Panic
     else and_then (put PAGE_HEADER_SIZE (payload p) buf) (\<lambda>buf.
       put 20 (le32 (crc32 buf)) buf))))"

definition page_decode :: "byte list \<Rightarrow> page outcome" where
  "page_decode bs =
     (if length bs \<noteq> PAGE_SIZE then Err CorruptPage
      else and_then (sub_slice bs 20 24) (\<lambda>cs.
        and_then (put 20 (replicate 4 0) bs) (\<lambda>zeroed.
        if from_le32 cs \<noteq> crc32 zeroed then Err CorruptPage
        else and_then (sub_slice bs 0 8) (\<lambda>i.
          and_then (expect (get_at bs 8)) (\<lambda>tb.
          and_then (page_type_from_u8 tb) (\<lambda>t.
          and_then (sub_slice bs 9 17) (\<lambda>l.
          and_then (sub_slice bs PAGE_HEADER_SIZE (length bs)) (\<lambda>pl.
          Ok \<lparr>page_id = from_le64 i, page_kind = t, page_lsn = from_le64 l, payload = pl\<rparr>))))))))"

subsection \<open>Closed forms\<close>

lemma from_le32_inject:
  "from_le32 xs = from_le32 ys \<Longrightarrow> length xs = 4 \<Longrightarrow> length ys = 4 \<Longrightarrow> xs = ys"
  by (metis le_from_le(2))

lemma page_type_roundtrip [simp]: "page_type_from_u8 (page_type_to_u8 t) = Ok t"
  by (cases t) (simp_all add: page_type_from_u8_def)

lemma put_at:
  "off = length pre \<Longrightarrow> length old = length xs \<Longrightarrow> put off xs (pre @ old @ post) = Ok (pre @ xs @ post)"
  by (simp add: put_def put_slice_def)

lemma sub_slice_at:
  "a = length pre \<Longrightarrow> b = a + length xs \<Longrightarrow> sub_slice (pre @ xs @ post) a b = Ok xs"
  by (simp add: sub_slice_def get_slice_def)

definition header_prefix :: "file_header \<Rightarrow> byte list" where
  "header_prefix h = MAGIC @ le32 FORMAT_VERSION @ le32 (fh_page_size h) @ le64 (fh_page_count h)"

lemma length_header_prefix [simp]: "length (header_prefix h) = 20"
  by (simp add: header_prefix_def MAGIC_def)

lemma file_header_encode_eq:
  "file_header_encode h = Ok (header_prefix h @ le32 (crc32 (header_prefix h)))"
proof -
  let ?z = "\<lambda>n. replicate n (0 :: byte)"
  let ?v = "le32 FORMAT_VERSION" and ?s = "le32 (fh_page_size h)" and ?c = "le64 (fh_page_count h)"
  have m: "length MAGIC = 4" by (simp add: MAGIC_def)
  have "?z 24 = [] @ ?z 4 @ (?z 4 @ ?z 4 @ ?z 8 @ ?z 4)"
    by (simp add: replicate_add [symmetric])
  then have "put 0 MAGIC (?z 24) = Ok (MAGIC @ ?z 4 @ ?z 4 @ ?z 8 @ ?z 4)"
    using put_at [of 0 "[]" "?z 4" MAGIC] m by simp
  moreover have "put 4 ?v (MAGIC @ ?z 4 @ ?z 4 @ ?z 8 @ ?z 4) = Ok (MAGIC @ ?v @ ?z 4 @ ?z 8 @ ?z 4)"
    by (rule put_at) (simp_all add: m)
  moreover have "put 8 ?s (MAGIC @ ?v @ ?z 4 @ ?z 8 @ ?z 4) = Ok (MAGIC @ ?v @ ?s @ ?z 8 @ ?z 4)"
    using put_at [of 8 "MAGIC @ ?v" "?z 4" ?s] m by simp
  moreover have "put 12 ?c (MAGIC @ ?v @ ?s @ ?z 8 @ ?z 4) = Ok (MAGIC @ ?v @ ?s @ ?c @ ?z 4)"
    using put_at [of 12 "MAGIC @ ?v @ ?s" "?z 8" ?c] m by simp
  moreover have "sub_slice (MAGIC @ ?v @ ?s @ ?c @ ?z 4) 0 20 = Ok (header_prefix h)"
  proof -
    have e: "MAGIC @ ?v @ ?s @ ?c @ ?z 4 = [] @ header_prefix h @ ?z 4" by (simp add: header_prefix_def)
    show ?thesis unfolding e by (rule sub_slice_at) simp_all
  qed
  moreover have "put 20 (le32 k) (MAGIC @ ?v @ ?s @ ?c @ ?z 4) = Ok (header_prefix h @ le32 k)" for k
  proof -
    have e: "MAGIC @ ?v @ ?s @ ?c @ ?z 4 = header_prefix h @ ?z 4 @ []" by (simp add: header_prefix_def)
    show ?thesis unfolding e by (subst put_at) simp_all
  qed
  ultimately show ?thesis by (simp add: file_header_encode_def FILE_HEADER_SIZE_def)
qed

definition page_prefix :: "page \<Rightarrow> byte list" where
  "page_prefix p =
     le64 (page_id p) @ [page_type_to_u8 (page_kind p)] @ le64 (page_lsn p) @ replicate 3 0"

lemma length_page_prefix [simp]: "length (page_prefix p) = 20"
  by (simp add: page_prefix_def)

lemma page_encode_eq:
  assumes l: "length (payload p) = PAGE_PAYLOAD_SIZE"
  shows "page_encode p =
    Ok (page_prefix p @ le32 (crc32 (page_prefix p @ replicate 4 0 @ payload p)) @ payload p)"
proof -
  let ?z = "\<lambda>n. replicate n (0 :: byte)"
  let ?i = "le64 (page_id p)" and ?t = "[page_type_to_u8 (page_kind p)]" and ?n = "le64 (page_lsn p)"
  let ?rest = "?z 3 @ ?z 4 @ ?z 4072"
  have "?z (8 + (1 + (8 + (3 + (4 + 4072))))) = ?z 8 @ ?z 1 @ ?z 8 @ ?rest"
    by (simp only: replicate_add)
  then have "put 0 ?i (?z 4096) = Ok (?i @ ?z 1 @ ?z 8 @ ?rest)"
    using put_at [of 0 "[]" "?z 8" ?i] by simp
  moreover have "put 8 ?t (?i @ ?z 1 @ ?z 8 @ ?rest) = Ok (?i @ ?t @ ?z 8 @ ?rest)"
    by (rule put_at) simp_all
  moreover have "put 9 ?n (?i @ ?t @ ?z 8 @ ?rest) = Ok (?i @ ?t @ ?n @ ?rest)"
    using put_at [of 9 "?i @ ?t" "?z 8" ?n ?rest] by simp
  moreover have "put 24 (payload p) (?i @ ?t @ ?n @ ?rest) = Ok (page_prefix p @ ?z 4 @ payload p)"
    using put_at [of 24 "page_prefix p @ ?z 4" "?z 4072" "payload p" "[]"] l
    by (simp add: page_prefix_def page_consts)
  moreover have "put 20 (le32 k) (page_prefix p @ ?z 4 @ payload p)
      = Ok (page_prefix p @ le32 k @ payload p)" for k
    by (rule put_at) simp_all
  ultimately show ?thesis using l by (simp add: page_encode_def page_consts)
qed

subsection \<open>Round trips and corruption\<close>

lemma sub_slice_Ok_iff: "sub_slice bs a b = Ok xs \<longleftrightarrow> a \<le> b \<and> b \<le> length bs \<and> xs = take (b - a) (drop a bs)"
  by (auto simp: sub_slice_def get_slice_Some_iff)

lemma file_header_decode_iff:
  "file_header_decode bs = Ok h \<longleftrightarrow> bs = header_prefix h @ le32 (crc32 (header_prefix h))"
proof
  assume "file_header_decode bs = Ok h"
  then have l: "length bs = 24" and m: "take 4 bs = MAGIC"
    and v: "from_le32 (take 4 (drop 4 bs)) = FORMAT_VERSION"
    and c: "from_le32 (take 4 (drop 20 bs)) = crc32 (take 20 bs)"
    and h: "h = \<lparr>fh_page_size = from_le32 (take 4 (drop 8 bs)),
                 fh_page_count = from_le64 (take 8 (drop 12 bs))\<rparr>"
    by (auto simp: file_header_decode_def and_then_Ok_iff sub_slice_Ok_iff FILE_HEADER_SIZE_def
        split: if_splits)
  have e: "le32 (from_le32 (take 4 (drop k bs))) = take 4 (drop k bs)" if "k + 4 \<le> 24" for k
    using that l by (intro le_from_le(2)) simp
  have "take 4 (drop 20 bs) = drop 20 bs" using l by simp
  then have tail: "drop 20 bs = le32 (crc32 (take 20 bs))" using e [of 20] c by simp
  have "header_prefix h = take 4 bs @ take 4 (drop 4 bs) @ take 4 (drop 8 bs) @ take 8 (drop 12 bs)"
    using e [of 4] e [of 8] v m l by (simp add: header_prefix_def h le_from_le(3))
  also have "\<dots> = take 20 bs"
    using take_add [of 4 "4 + (4 + 8)" bs] take_add [of 4 "4 + 8" "drop 4 bs"]
      take_add [of 4 8 "drop 8 bs"] by simp
  finally show "bs = header_prefix h @ le32 (crc32 (header_prefix h))"
    using tail by (metis append_take_drop_id)
next
  assume b: "bs = header_prefix h @ le32 (crc32 (header_prefix h))"
  then show "file_header_decode bs = Ok h"
    by (simp add: file_header_decode_def and_then_Ok_iff sub_slice_Ok_iff FILE_HEADER_SIZE_def)
      (simp add: header_prefix_def MAGIC_def numeral_eq_Suc)
qed

lemma page_decode_iff:
  "page_decode bs = Ok p \<longleftrightarrow>
     length bs = PAGE_SIZE \<and> from_le32 (take 4 (drop 20 bs)) = crc32 (take 20 bs @ replicate 4 0 @ drop 24 bs)
     \<and> page_type_from_u8 (bs ! 8) = Ok (page_kind p)
     \<and> page_id p = from_le64 (take 8 bs) \<and> page_lsn p = from_le64 (take 8 (drop 9 bs))
     \<and> payload p = drop 24 bs"
  by (cases p) (auto simp: page_decode_def and_then_Ok_iff sub_slice_Ok_iff page_consts get_at_def
      put_def put_slice_Some_iff)

lemma page_decode_encode:
  assumes "length (payload p) = PAGE_PAYLOAD_SIZE" "page_encode p = Ok bs"
  shows "page_decode bs = Ok p"
proof -
  have b: "bs = page_prefix p @ le32 (crc32 (page_prefix p @ replicate 4 0 @ payload p)) @ payload p"
    using assms page_encode_eq by simp
  have "page_prefix p ! 8 = page_type_to_u8 (page_kind p)"
    by (simp add: page_prefix_def nth_append)
  moreover have "take 8 (page_prefix p) = le64 (page_id p)"
    "take 8 (drop 9 (page_prefix p)) = le64 (page_lsn p)"
    by (simp_all add: page_prefix_def)
  ultimately show ?thesis
    using assms(1) by (simp add: page_decode_iff b nth_append page_consts)
qed

text \<open>
  C8: the file header and every page survive a write and a read: decoding the encoding gives the same
  value back, the encoding has exactly the fixed size, and the header decoder accepts nothing but the
  encodings of headers.
\<close>

theorem page_format_roundtrip:
  assumes "length (payload p) = PAGE_PAYLOAD_SIZE"
  shows "\<exists>bs hs. page_encode p = Ok bs \<and> length bs = PAGE_SIZE \<and> page_decode bs = Ok p
    \<and> file_header_encode h = Ok hs \<and> length hs = FILE_HEADER_SIZE
    \<and> (\<forall>xs. file_header_decode xs = Ok h \<longleftrightarrow> xs = hs)"
  using assms page_decode_encode [OF assms]
  by (simp add: page_encode_eq file_header_encode_eq file_header_decode_iff page_consts)

theorem page_format_roundtrip_witness:
  "\<exists>bs. page_encode (page_new 3 PtData) = Ok bs \<and> page_decode bs = Ok (page_new 3 PtData)"
  using page_format_roundtrip [of "page_new 3 PtData" "file_header_new 1"] by (auto simp: page_new_def)

lemma page_decode_error: "page_decode bs = Err e \<Longrightarrow> e = CorruptPage"
  by (auto simp: page_decode_def and_then_Err_iff sub_slice_def page_type_from_u8_def put_def
      split: if_splits)

lemma page_decode_no_panic: "page_decode bs \<noteq> Panic"
  by (auto simp: page_decode_def and_then_Panic_iff sub_slice_def get_slice_def get_at_def
      page_type_from_u8_def put_def put_slice_def page_consts split: if_splits)

definition zero_crc :: "byte list \<Rightarrow> byte list" where
  "zero_crc bs = take 20 bs @ replicate 4 0 @ drop 24 bs"

lemma length_zero_crc: "24 \<le> length bs \<Longrightarrow> length (zero_crc bs) = length bs"
  by (simp add: zero_crc_def)

lemma nth_zero_crc:
  "24 \<le> length bs \<Longrightarrow> j < length bs \<Longrightarrow>
   zero_crc bs ! j = (if 20 \<le> j \<and> j < 24 then 0 else bs ! j)"
  using nth_overwrite [of 20 "replicate 4 0" bs j] by (auto simp: zero_crc_def)

lemma zero_crc_update:
  assumes "24 \<le> length bs" "i < length bs"
  shows "zero_crc (bs[i := b]) = (if 20 \<le> i \<and> i < 24 then zero_crc bs else (zero_crc bs)[i := b])"
  using assms by (intro nth_equalityI) (auto simp: length_zero_crc nth_zero_crc nth_list_update)

text \<open>
  C9: a page with any single byte changed, in the header, the stored checksum, the unused bytes or the
  payload, is rejected with \<open>CorruptPage\<close>; the decoder never panics and has no other error.
\<close>

theorem page_single_byte_corruption:
  assumes "page_encode p = Ok bs" "length (payload p) = PAGE_PAYLOAD_SIZE"
    and i: "i < PAGE_SIZE" and b: "b \<noteq> bs ! i"
  shows "page_decode (bs[i := b]) = Err CorruptPage"
proof (cases "page_decode (bs[i := b])")
  case (Ok q)
  have len: "length bs = PAGE_SIZE" and c: "from_le32 (take 4 (drop 20 bs)) = crc32 (zero_crc bs)"
    using page_decode_encode [OF assms(2,1)] by (simp_all add: page_decode_iff zero_crc_def)
  from Ok have c': "from_le32 (take 4 (drop 20 (bs[i := b]))) = crc32 (zero_crc (bs[i := b]))"
    by (simp add: page_decode_iff zero_crc_def)
  have l: "24 \<le> length bs" "i < length bs" using len i by (simp_all add: PAGE_SIZE_def)
  show ?thesis
  proof (cases "20 \<le> i \<and> i < 24")
    case True
    with c c' have "from_le32 (take 4 (drop 20 (bs[i := b]))) = from_le32 (take 4 (drop 20 bs))"
      by (simp add: zero_crc_update [OF l])
    then have "take 4 (drop 20 (bs[i := b])) = take 4 (drop 20 bs)"
      by (rule from_le32_inject) (use l in simp_all)
    then have "take 4 (drop 20 (bs[i := b])) ! (i - 20) = take 4 (drop 20 bs) ! (i - 20)" by simp
    moreover have "i - 20 < 4" "20 + (i - 20) = i" using True by auto
    ultimately have "(bs[i := b]) ! i = bs ! i" using l by simp
    with b l show ?thesis by simp
  next
    case False
    have s: "take 4 (drop 20 (bs[i := b])) = take 4 (drop 20 bs)"
    proof (cases "i < 20")
      case True
      then show ?thesis by simp
    next
      case False
      with \<open>\<not> (20 \<le> i \<and> i < 24)\<close> have "i = 20 + (i - 20)" "4 \<le> i - 20" by auto
      then show ?thesis by (simp add: drop_update_swap)
    qed
    have u: "zero_crc (bs[i := b]) = (zero_crc bs)[i := b]"
      using False by (subst zero_crc_update [OF l]) auto
    have "crc32 ((zero_crc bs)[i := b]) = crc32 (zero_crc bs)"
      using c c' unfolding s u by simp
    moreover have "crc32 ((zero_crc bs)[i := b]) \<noteq> crc32 (zero_crc bs)"
      using False l b by (intro crc32_one_byte) (auto simp: length_zero_crc nth_zero_crc)
    ultimately show ?thesis by simp
  qed
next
  case (Err e)
  then show ?thesis using page_decode_error by blast
next
  case Panic
  then show ?thesis by (simp add: page_decode_no_panic)
qed

theorem page_single_byte_corruption_witness:
  "\<exists>bs. page_encode (page_new 1 PtData) = Ok bs
     \<and> page_decode (bs[100 := bs ! 100 + 1]) = Err CorruptPage"
proof -
  have l: "length (payload (page_new 1 PtData)) = PAGE_PAYLOAD_SIZE" by (simp add: page_new_def)
  obtain bs where "page_encode (page_new 1 PtData) = Ok bs" using page_encode_eq [OF l] by blast
  then show ?thesis
    using page_single_byte_corruption [of "page_new 1 PtData" bs 100 "bs ! 100 + 1"] l
    by (auto simp: PAGE_SIZE_def)
qed

end
