(* ===== verification/Slotted_Page.thy ===== *)
theory Slotted_Page
  imports Page "HOL-Library.Multiset"
begin

text \<open>
  The slotted page of \<open>src/src/slotted_page.rs\<close>: a header (slot count, start of the tuple data), a
  directory of eight-byte entries (offset, length, status and three unused bytes) that grows upward,
  and tuple data that grows downward from the end of the payload. The page is its payload, a byte
  list; every read and write of the code is a checked slice and a slot count past 65535 overflows,
  so a panic would show as \<open>Panic\<close>.
\<close>

subsection \<open>Raw access\<close>

definition SLOTTED_HEADER_SIZE :: nat where "SLOTTED_HEADER_SIZE = 4"
definition SLOT_ENTRY_SIZE :: nat where "SLOT_ENTRY_SIZE = 8"
definition STATUS_OCCUPIED :: byte where "STATUS_OCCUPIED = 1"
definition STATUS_TOMBSTONE :: byte where "STATUS_TOMBSTONE = 2"

datatype slot_status = Occupied | Tombstone

type_synonym slot_entry = "u16 \<times> u16 \<times> byte"

definition read_u16 :: "byte list \<Rightarrow> nat \<Rightarrow> u16 outcome" where
  "read_u16 p a = and_then (sub_slice p a (a + 2)) (\<lambda>xs. Ok (from_le16 xs))"

definition directory_end :: "u16 \<Rightarrow> nat" where
  "directory_end n = SLOTTED_HEADER_SIZE + unat n * SLOT_ENTRY_SIZE"

definition read_header :: "byte list \<Rightarrow> (u16 \<times> u16) outcome" where
  "read_header p = and_then (read_u16 p 0) (\<lambda>c. and_then (read_u16 p 2) (\<lambda>t. Ok (c, t)))"

definition set_header :: "byte list \<Rightarrow> u16 \<Rightarrow> u16 \<Rightarrow> byte list outcome" where
  "set_header p c t = and_then (put 0 (le16 c) p) (\<lambda>p. put 2 (le16 t) p)"

definition read_slot_entry :: "byte list \<Rightarrow> u16 \<Rightarrow> slot_entry option outcome" where
  "read_slot_entry p slot =
     and_then (read_header p) (\<lambda>(c, t).
     if c \<le> slot then Ok None
     else let base = SLOTTED_HEADER_SIZE + unat slot * SLOT_ENTRY_SIZE in
       and_then (read_u16 p base) (\<lambda>off.
       and_then (read_u16 p (base + 2)) (\<lambda>len.
       and_then (expect (get_at p (base + 4))) (\<lambda>st. Ok (Some (off, len, st))))))"

definition set_slot_entry :: "byte list \<Rightarrow> u16 \<Rightarrow> u16 \<Rightarrow> u16 \<Rightarrow> byte \<Rightarrow> byte list outcome" where
  "set_slot_entry p slot off len st =
     (let base = SLOTTED_HEADER_SIZE + unat slot * SLOT_ENTRY_SIZE in
      and_then (put base (le16 off) p) (\<lambda>p.
      and_then (put (base + 2) (le16 len) p) (\<lambda>p.
      put (base + 4) [st] p)))"

subsection \<open>Validation\<close>

text \<open>The loop over the slots: every status is known, every occupied range lies in the data area.\<close>

fun validate_slots ::
  "byte list \<Rightarrow> nat \<Rightarrow> nat list \<Rightarrow> (nat \<times> nat) list \<Rightarrow> (nat \<times> nat) list outcome" where
  "validate_slots p dstart [] acc = Ok acc"
| "validate_slots p dstart (i # is) acc =
    and_then (read_slot_entry p (of_nat i)) (\<lambda>e.
    and_then (expect e) (\<lambda>(off, len, st).
    if st = STATUS_OCCUPIED then
      (let start = unat off; stop = start + unat len in
       if start < dstart \<or> length p < stop then Err CorruptPage
       else validate_slots p dstart is (if start \<noteq> stop then acc @ [(start, stop)] else acc))
    else if st = STATUS_TOMBSTONE then validate_slots p dstart is acc
    else Err CorruptPage))"

fun windows_ok :: "(nat \<times> nat) list \<Rightarrow> bool" where
  "windows_ok ((s1, e1) # (s2, e2) # r) = (e1 \<le> s2 \<and> windows_ok ((s2, e2) # r))"
| "windows_ok _ = True"

definition validate_header :: "byte list \<Rightarrow> unit outcome" where
  "validate_header p =
     (if length p < SLOTTED_HEADER_SIZE then Err CorruptPage
      else and_then (read_header p) (\<lambda>(c, t).
        if length p < unat t then Err CorruptPage
        else if unat t < directory_end c then Err CorruptPage
        else and_then (validate_slots p (unat t) [0..<unat c] []) (\<lambda>ranges.
          if windows_ok (sort_key fst ranges) then Ok () else Err CorruptPage)))"

subsection \<open>Operations\<close>

definition slotted_init :: "byte list \<Rightarrow> byte list outcome" where
  "slotted_init p = (if length p > 65535 then Panic else set_header p 0 (of_nat (length p)))"

definition slotted_open :: "byte list \<Rightarrow> byte list outcome" where
  "slotted_open p = and_then (validate_header p) (\<lambda>_. Ok p)"

definition slot_count :: "byte list \<Rightarrow> nat outcome" where
  "slot_count p = and_then (read_header p) (\<lambda>(c, t). Ok (unat c))"

definition free_space :: "byte list \<Rightarrow> nat outcome" where
  "free_space p = and_then (read_header p) (\<lambda>(c, t).
     if unat t < directory_end c then Panic else Ok (unat t - directory_end c))"

definition slot_status_of :: "byte list \<Rightarrow> u16 \<Rightarrow> slot_status option outcome" where
  "slot_status_of p slot = and_then (read_slot_entry p slot) (\<lambda>e.
     case e of
       None \<Rightarrow> Ok None
     | Some (off, len, st) \<Rightarrow>
         if st = STATUS_OCCUPIED then Ok (Some Occupied)
         else if st = STATUS_TOMBSTONE then Ok (Some Tombstone)
         else Panic)"

definition slot_get :: "byte list \<Rightarrow> u16 \<Rightarrow> byte list option outcome" where
  "slot_get p slot = and_then (read_slot_entry p slot) (\<lambda>e.
     case e of
       None \<Rightarrow> Ok None
     | Some (off, len, st) \<Rightarrow>
         if st \<noteq> STATUS_OCCUPIED then Ok None
         else and_then (sub_slice p (unat off) (unat off + unat len)) (\<lambda>xs. Ok (Some xs)))"

fun all_unoccupied :: "byte list \<Rightarrow> nat list \<Rightarrow> bool outcome" where
  "all_unoccupied p [] = Ok True"
| "all_unoccupied p (i # is) = and_then (read_slot_entry p (of_nat i)) (\<lambda>e.
    if (case e of Some (off, len, st) \<Rightarrow> st = STATUS_OCCUPIED | None \<Rightarrow> False) then Ok False
    else all_unoccupied p is)"

definition slotted_is_empty :: "byte list \<Rightarrow> bool outcome" where
  "slotted_is_empty p = and_then (read_header p) (\<lambda>(c, t). all_unoccupied p [0..<unat c])"

fun find_tombstone :: "byte list \<Rightarrow> nat list \<Rightarrow> u16 option outcome" where
  "find_tombstone p [] = Ok None"
| "find_tombstone p (i # is) = and_then (read_slot_entry p (of_nat i)) (\<lambda>e.
    if (case e of Some (off, len, st) \<Rightarrow> st = STATUS_TOMBSTONE | None \<Rightarrow> False)
    then Ok (Some (of_nat i)) else find_tombstone p is)"

definition try_insert :: "byte list \<Rightarrow> byte list \<Rightarrow> (u16 option \<times> byte list) outcome" where
  "try_insert p bytes =
     (let len = length bytes in
      and_then (read_header p) (\<lambda>(c, t).
      and_then (find_tombstone p [0..<unat c]) (\<lambda>reuse.
      if reuse = None \<and> c = - 1 then Panic
      else let c' = (if reuse = None then c + 1 else c) in
      if unat t < directory_end c' + len then Ok (None, p)
      else let new_start = unat t - len in
        and_then (put new_start bytes p) (\<lambda>p.
        let slot = (case reuse of Some s \<Rightarrow> s | None \<Rightarrow> c) in
        and_then (set_slot_entry p slot (of_nat new_start) (of_nat len) STATUS_OCCUPIED) (\<lambda>p.
        and_then (set_header p c' (of_nat new_start)) (\<lambda>p. Ok (Some slot, p)))))))"

definition try_relocate :: "byte list \<Rightarrow> u16 \<Rightarrow> byte list \<Rightarrow> (bool \<times> byte list) outcome" where
  "try_relocate p slot bytes =
     (let len = length bytes in
      and_then (read_header p) (\<lambda>(c, t).
      if unat t < directory_end c + len then Ok (False, p)
      else let new_start = unat t - len in
        and_then (put new_start bytes p) (\<lambda>p.
        and_then (set_slot_entry p slot (of_nat new_start) (of_nat len) STATUS_OCCUPIED) (\<lambda>p.
        and_then (set_header p c (of_nat new_start)) (\<lambda>p. Ok (True, p))))))"

text \<open>\<open>compact\<close>: copy the live tuples, then lay them out again from the end of the payload.\<close>

fun collect_live :: "byte list \<Rightarrow> nat list \<Rightarrow> (u16 \<times> byte list) list outcome" where
  "collect_live p [] = Ok []"
| "collect_live p (i # is) = and_then (read_slot_entry p (of_nat i)) (\<lambda>e.
    case e of
      Some (off, len, st) \<Rightarrow>
        if st = STATUS_OCCUPIED then
          and_then (sub_slice p (unat off) (unat off + unat len)) (\<lambda>xs.
          and_then (collect_live p is) (\<lambda>r. Ok ((of_nat i, xs) # r)))
        else collect_live p is
    | None \<Rightarrow> collect_live p is)"

fun write_live :: "byte list \<Rightarrow> nat \<Rightarrow> (u16 \<times> byte list) list \<Rightarrow> (byte list \<times> nat) outcome" where
  "write_live p cursor [] = Ok (p, cursor)"
| "write_live p cursor ((slot, bytes) # r) =
    (if cursor < length bytes then Panic
     else let cursor' = cursor - length bytes in
       and_then (put cursor' bytes p) (\<lambda>p.
       and_then (set_slot_entry p slot (of_nat cursor') (of_nat (length bytes)) STATUS_OCCUPIED) (\<lambda>p.
       write_live p cursor' r)))"

definition compact :: "byte list \<Rightarrow> byte list outcome" where
  "compact p =
     and_then (read_header p) (\<lambda>(c, t).
     and_then (collect_live p [0..<unat c]) (\<lambda>live.
     and_then (write_live p (length p) live) (\<lambda>(p, cursor).
     set_header p c (of_nat cursor))))"

definition slot_insert :: "byte list \<Rightarrow> byte list \<Rightarrow> (u16 option \<times> byte list) outcome" where
  "slot_insert p bytes =
     and_then (try_insert p bytes) (\<lambda>(r, p).
     if r \<noteq> None then Ok (r, p) else and_then (compact p) (\<lambda>p. try_insert p bytes))"

definition slot_delete :: "byte list \<Rightarrow> u16 \<Rightarrow> (bool \<times> byte list) outcome" where
  "slot_delete p slot =
     and_then (read_slot_entry p slot) (\<lambda>e.
     case e of
       Some (off, len, st) \<Rightarrow>
         if st = STATUS_OCCUPIED
         then and_then (set_slot_entry p slot off len STATUS_TOMBSTONE) (\<lambda>p. Ok (True, p))
         else Ok (False, p)
     | None \<Rightarrow> Ok (False, p))"

definition slot_update :: "byte list \<Rightarrow> u16 \<Rightarrow> byte list \<Rightarrow> (bool \<times> byte list) outcome" where
  "slot_update p slot bytes =
     and_then (read_slot_entry p slot) (\<lambda>e.
     case e of
       None \<Rightarrow> Ok (False, p)
     | Some (off, len, st) \<Rightarrow>
         if st \<noteq> STATUS_OCCUPIED then Ok (False, p)
         else if length bytes = unat len
         then and_then (put (unat off) bytes p) (\<lambda>p. Ok (True, p))
         else and_then (try_relocate p slot bytes) (\<lambda>(done', p).
           if done' then Ok (True, p)
           else and_then (compact p) (\<lambda>p. try_relocate p slot bytes)))"

definition max_len_for_fresh_page :: "nat \<Rightarrow> nat" where
  "max_len_for_fresh_page n = n - (SLOTTED_HEADER_SIZE + SLOT_ENTRY_SIZE)"

subsection \<open>Reading after writing\<close>

text \<open>The same accesses on a payload where they are in range, as total functions.\<close>

definition sub_bytes :: "byte list \<Rightarrow> nat \<Rightarrow> nat \<Rightarrow> byte list" where
  "sub_bytes p a n = take n (drop a p)"

definition overwrite :: "byte list \<Rightarrow> nat \<Rightarrow> byte list \<Rightarrow> byte list" where
  "overwrite p off xs = take off p @ xs @ drop (off + length xs) p"

definition get16 :: "byte list \<Rightarrow> nat \<Rightarrow> nat" where
  "get16 p a = unat (from_le16 (sub_bytes p a 2))"

lemma put_overwrite: "off + length xs \<le> length p \<Longrightarrow> put off xs p = Ok (overwrite p off xs)"
  by (simp add: put_def put_slice_def overwrite_def)

lemma length_overwrite [simp]: "off + length xs \<le> length p \<Longrightarrow> length (overwrite p off xs) = length p"
  by (simp add: overwrite_def)

lemma sub_overwrite_same: "off + length xs \<le> length p \<Longrightarrow> sub_bytes (overwrite p off xs) off (length xs) = xs"
  by (simp add: sub_bytes_def overwrite_def)

lemma sub_overwrite_other:
  "off + length xs \<le> length p \<Longrightarrow> a + n \<le> length p \<Longrightarrow> a + n \<le> off \<or> off + length xs \<le> a \<Longrightarrow>
   sub_bytes (overwrite p off xs) a n = sub_bytes p a n"
  unfolding sub_bytes_def overwrite_def by (rule take_drop_overwrite_other)

lemma nth_overwrite_other:
  "off + length xs \<le> length p \<Longrightarrow> a < length p \<Longrightarrow> a < off \<or> off + length xs \<le> a \<Longrightarrow>
   overwrite p off xs ! a = p ! a"
  by (auto simp: overwrite_def nth_overwrite)

lemma nth_overwrite_one: "off < length p \<Longrightarrow> overwrite p off [x] ! off = x"
  by (simp add: overwrite_def nth_append)

lemma get16_overwrite_same:
  "off + 2 \<le> length p \<Longrightarrow> get16 (overwrite p off (le16 w)) off = unat w"
  using sub_overwrite_same [of off "le16 w" p] by (simp add: get16_def)

lemma get16_overwrite_other:
  "off + length xs \<le> length p \<Longrightarrow> a + 2 \<le> length p \<Longrightarrow> a + 2 \<le> off \<or> off + length xs \<le> a \<Longrightarrow>
   get16 (overwrite p off xs) a = get16 p a"
  by (simp add: get16_def sub_overwrite_other)

lemma get16_less [simp]: "get16 p a < 65536"
  using unsigned_less [of "from_le16 (sub_bytes p a 2)", where 'a = nat] by (simp add: get16_def)

lemma read_u16_eq: "a + 2 \<le> length p \<Longrightarrow> read_u16 p a = Ok (of_nat (get16 p a))"
  by (simp add: read_u16_def sub_slice_def get_slice_def get16_def sub_bytes_def)

lemma unat_of_nat16 [simp]: "n < 65536 \<Longrightarrow> unat (of_nat n :: u16) = n"
  by (simp add: unat_of_nat take_bit_nat_eq_self)

subsection \<open>Layout\<close>

abbreviation n_slots :: "byte list \<Rightarrow> nat" where "n_slots p \<equiv> get16 p 0"
abbreviation data_start :: "byte list \<Rightarrow> nat" where "data_start p \<equiv> get16 p 2"
definition e_off :: "byte list \<Rightarrow> nat \<Rightarrow> nat" where "e_off p i = get16 p (4 + 8 * i)"
definition e_len :: "byte list \<Rightarrow> nat \<Rightarrow> nat" where "e_len p i = get16 p (6 + 8 * i)"
definition e_status :: "byte list \<Rightarrow> nat \<Rightarrow> byte" where "e_status p i = p ! (8 + 8 * i)"

lemma e_less [simp]: "e_off p i < 65536" "e_len p i < 65536"
  by (simp_all add: e_off_def e_len_def)

lemma read_header_eq:
  "4 \<le> length p \<Longrightarrow> read_header p = Ok (of_nat (n_slots p), of_nat (data_start p))"
  by (simp add: read_header_def read_u16_eq)

lemma read_slot_entry_eq:
  assumes "4 + 8 * n_slots p \<le> length p"
  shows "read_slot_entry p s =
    (if n_slots p \<le> unat s then Ok None
     else Ok (Some (of_nat (e_off p (unat s)), of_nat (e_len p (unat s)), e_status p (unat s))))"
proof -
  have le: "of_nat (n_slots p) \<le> s \<longleftrightarrow> n_slots p \<le> unat s" by (simp add: word_le_nat_alt)
  have "unat s < n_slots p \<Longrightarrow> 8 * unat s + 8 \<le> 8 * n_slots p" by linarith
  with assms show ?thesis
    by (auto simp: read_slot_entry_def read_header_eq le read_u16_eq SLOTTED_HEADER_SIZE_def
        SLOT_ENTRY_SIZE_def get_at_def e_off_def e_len_def e_status_def Let_def not_le
        algebra_simps)
qed

text \<open>The two compound writes, with what they change and what they leave.\<close>

lemma set_header_eq:
  assumes "4 \<le> length p"
  obtains q where "set_header p c t = Ok q" "length q = length p"
    "n_slots q = unat c" "data_start q = unat t"
    "\<And>a n. 4 \<le> a \<Longrightarrow> a + n \<le> length p \<Longrightarrow> sub_bytes q a n = sub_bytes p a n"
    "\<And>a. 4 \<le> a \<Longrightarrow> a < length p \<Longrightarrow> q ! a = p ! a"
proof
  let ?q = "overwrite (overwrite p 0 (le16 c)) 2 (le16 t)"
  show "set_header p c t = Ok ?q" using assms by (simp add: set_header_def put_overwrite)
  show "length ?q = length p" using assms by simp
  show "n_slots ?q = unat c" "data_start ?q = unat t"
    using assms by (simp_all add: get16_overwrite_same get16_overwrite_other)
  show "sub_bytes ?q a n = sub_bytes p a n" if "4 \<le> a" "a + n \<le> length p" for a n
    using assms that by (simp add: sub_overwrite_other)
  show "?q ! a = p ! a" if "4 \<le> a" "a < length p" for a
    using assms that by (simp add: nth_overwrite_other)
qed

lemma set_slot_entry_eq:
  assumes "4 + 8 * unat s + 8 \<le> length p"
  obtains q where "set_slot_entry p s off len st = Ok q" "length q = length p"
    "e_off q (unat s) = unat off" "e_len q (unat s) = unat len" "e_status q (unat s) = st"
    "\<And>a n. a + n \<le> length p \<Longrightarrow> a + n \<le> 4 + 8 * unat s \<or> 12 + 8 * unat s \<le> a \<Longrightarrow>
      sub_bytes q a n = sub_bytes p a n"
    "\<And>a. a < length p \<Longrightarrow> a < 4 + 8 * unat s \<or> 12 + 8 * unat s \<le> a \<Longrightarrow> q ! a = p ! a"
proof
  let ?b = "4 + 8 * unat s"
  let ?q1 = "overwrite p ?b (le16 off)"
  let ?q2 = "overwrite ?q1 (?b + 2) (le16 len)"
  let ?q = "overwrite ?q2 (?b + 4) [st]"
  have l: "length ?q1 = length p" "length ?q2 = length p" using assms by simp_all
  show "set_slot_entry p s off len st = Ok ?q"
    using assms by (simp add: set_slot_entry_def Let_def put_overwrite SLOTTED_HEADER_SIZE_def
        SLOT_ENTRY_SIZE_def mult.commute)
  show "length ?q = length p" using assms l by simp
  show "e_off ?q (unat s) = unat off" "e_len ?q (unat s) = unat len"
    using assms l by (simp_all add: e_off_def e_len_def get16_overwrite_same get16_overwrite_other
        add.commute [of 6])
  show "e_status ?q (unat s) = st"
    using assms l nth_overwrite_one [of "?b + 4" ?q2 st] by (simp add: e_status_def add.commute)
  show "sub_bytes ?q a n = sub_bytes p a n" if "a + n \<le> length p" "a + n \<le> ?b \<or> 12 + 8 * unat s \<le> a" for a n
    using assms that l by (auto simp: sub_overwrite_other)
  show "?q ! a = p ! a" if "a < length p" "a < ?b \<or> 12 + 8 * unat s \<le> a" for a
    using assms that l by (auto simp: nth_overwrite_other)
qed

subsection \<open>The invariant that opening a page checks\<close>

definition live_slot :: "byte list \<Rightarrow> nat \<Rightarrow> bool" where
  "live_slot p i = (e_status p i = STATUS_OCCUPIED)"

definition e_range :: "byte list \<Rightarrow> nat \<Rightarrow> nat \<times> nat" where
  "e_range p i = (e_off p i, e_off p i + e_len p i)"

definition apart :: "nat \<times> nat \<Rightarrow> nat \<times> nat \<Rightarrow> bool" where
  "apart a b = (snd a \<le> fst b \<or> snd b \<le> fst a)"

definition slot_ok :: "byte list \<Rightarrow> nat \<Rightarrow> nat \<Rightarrow> bool" where
  "slot_ok p d i =
     (live_slot p i \<and> d \<le> e_off p i \<and> e_off p i + e_len p i \<le> length p
      \<or> e_status p i = STATUS_TOMBSTONE)"

definition counted :: "byte list \<Rightarrow> nat \<Rightarrow> bool" where
  "counted p i = (live_slot p i \<and> e_len p i \<noteq> 0)"

definition valid_page :: "byte list \<Rightarrow> bool" where
  "valid_page p =
     (4 \<le> length p \<and> data_start p \<le> length p \<and> 4 + 8 * n_slots p \<le> data_start p
      \<and> (\<forall>i < n_slots p. slot_ok p (data_start p) i)
      \<and> (\<forall>i < n_slots p. \<forall>j < n_slots p. i \<noteq> j \<longrightarrow> counted p i \<longrightarrow> counted p j \<longrightarrow>
           apart (e_range p i) (e_range p j)))"

lemma status_distinct [simp]:
  "STATUS_OCCUPIED \<noteq> STATUS_TOMBSTONE" "STATUS_TOMBSTONE \<noteq> STATUS_OCCUPIED"
  by (simp_all add: STATUS_OCCUPIED_def STATUS_TOMBSTONE_def)

lemma sorted_wrt_filter_upt:
  "sorted_wrt Q (filter P [0..<n]) \<longleftrightarrow> (\<forall>j < n. \<forall>i < j. P i \<longrightarrow> P j \<longrightarrow> Q i j)"
  by (induction n) (auto simp: sorted_wrt_append less_Suc_eq)

lemma sorted_wrt_sym_mset:
  assumes "symp P" "mset xs = mset ys" "sorted_wrt P xs"
  shows "sorted_wrt P ys"
  using assms(2,3)
proof (induction ys arbitrary: xs)
  case (Cons y ys)
  then obtain us vs where xs: "xs = us @ y # vs"
    by (metis in_multiset_in_set split_list list.set_intros(1))
  with Cons.prems have "mset (us @ vs) = mset ys" "sorted_wrt P (us @ vs)"
    by (auto simp: sorted_wrt_append)
  then have "sorted_wrt P ys" by (rule Cons.IH)
  moreover have "\<forall>z \<in> set (us @ vs). P y z"
    using Cons.prems(2) assms(1) by (auto simp: xs sorted_wrt_append symp_def)
  moreover have "set (us @ vs) = set ys"
    using \<open>mset (us @ vs) = mset ys\<close> by (rule mset_eq_setD)
  ultimately show ?case by simp
qed simp

lemma windows_ok_after: "windows_ok (a # xs) \<Longrightarrow> \<forall>b \<in> set xs. fst b < snd b \<Longrightarrow> \<forall>b \<in> set xs. snd a \<le> fst b"
proof (induction xs arbitrary: a)
  case (Cons b xs)
  then have "snd a \<le> fst b" by (cases a; cases b; cases xs) auto
  moreover have "windows_ok (b # xs)" using Cons.prems(1) by (cases a; cases b) auto
  then have "\<forall>c \<in> set xs. snd b \<le> fst c" using Cons.IH Cons.prems(2) by simp
  moreover have "fst b < snd b" using Cons.prems(2) by simp
  ultimately show ?case by force
qed simp

lemma windows_ok_sorted_wrt:
  "\<forall>b \<in> set xs. fst b < snd b \<Longrightarrow> windows_ok xs \<longleftrightarrow> sorted_wrt (\<lambda>a b. snd a \<le> fst b) xs"
proof (induction xs rule: windows_ok.induct)
  case (1 s1 e1 s2 e2 r)
  have "windows_ok ((s1, e1) # (s2, e2) # r) \<Longrightarrow> \<forall>b \<in> set ((s2, e2) # r). e1 \<le> fst b"
    using windows_ok_after [of "(s1, e1)" "(s2, e2) # r"] "1.prems" by auto
  with 1 show ?case by auto
qed auto

lemma windows_ok_sort:
  assumes ne: "\<forall>b \<in> set rs. fst b < snd b"
  shows "windows_ok (sort_key fst rs) \<longleftrightarrow> sorted_wrt apart rs"
proof
  have sym: "symp apart" by (auto simp: symp_def apart_def)
  have ne': "\<forall>b \<in> set (sort_key fst rs). fst b < snd b" using ne by simp
  assume "windows_ok (sort_key fst rs)"
  then have "sorted_wrt apart (sort_key fst rs)"
    unfolding windows_ok_sorted_wrt [OF ne'] by (rule sorted_wrt_mono_rel [rotated]) (simp add: apart_def)
  then show "sorted_wrt apart rs" by (rule sorted_wrt_sym_mset [OF sym, rotated]) simp
next
  have sym: "symp apart" by (auto simp: symp_def apart_def)
  have ne': "\<forall>b \<in> set (sort_key fst rs). fst b < snd b" using ne by simp
  assume "sorted_wrt apart rs"
  then have a: "sorted_wrt apart (sort_key fst rs)" by (rule sorted_wrt_sym_mset [OF sym, rotated]) simp
  have s: "sorted_wrt (\<lambda>a b. fst a \<le> fst b) (sort_key fst rs)"
    using sorted_sort_key [of fst rs] by (simp add: sorted_wrt_map)
  have "sorted_wrt (\<lambda>a b. snd a \<le> fst b) xs"
    if "\<forall>b \<in> set xs. fst b < snd b" "sorted_wrt apart xs" "sorted_wrt (\<lambda>a b. fst a \<le> fst b) xs"
    for xs :: "(nat \<times> nat) list"
    using that by (induction xs) (fastforce simp: apart_def)+
  from this [OF ne' a s] show "windows_ok (sort_key fst rs)" by (simp add: windows_ok_sorted_wrt [OF ne'])
qed

lemma validate_slots_iff:
  assumes l: "4 + 8 * n_slots p \<le> length p" and "\<forall>i \<in> set is. i < n_slots p"
  shows "validate_slots p d is acc =
    (if \<forall>i \<in> set is. slot_ok p d i then Ok (acc @ map (e_range p) (filter (counted p) is))
     else Err CorruptPage)"
  using assms(2)
proof (induction "is" arbitrary: acc)
  case (Cons i "is")
  then have i: "i < n_slots p" by simp
  have "i < 65536" using i get16_less [of p 0] by linarith
  then have u: "unat (of_nat i :: u16) = i" by simp
  have e: "read_slot_entry p (of_nat i) =
      Ok (Some (of_nat (e_off p i), of_nat (e_len p i), e_status p i))"
    using i by (simp add: read_slot_entry_eq [OF l] u)
  have IH: "validate_slots p d is acc' =
      (if \<forall>i \<in> set is. slot_ok p d i then Ok (acc' @ map (e_range p) (filter (counted p) is))
       else Err CorruptPage)" for acc'
    using Cons.IH Cons.prems by simp
  consider (occ) "e_status p i = STATUS_OCCUPIED" | (tomb) "e_status p i = STATUS_TOMBSTONE"
    | (bad) "e_status p i \<noteq> STATUS_OCCUPIED" "e_status p i \<noteq> STATUS_TOMBSTONE" by blast
  then show ?case
  proof cases
    case occ
    then have "slot_ok p d i \<longleftrightarrow> d \<le> e_off p i \<and> e_off p i + e_len p i \<le> length p"
      "counted p i \<longleftrightarrow> e_len p i \<noteq> 0" "e_range p i = (e_off p i, e_off p i + e_len p i)"
      by (simp_all add: slot_ok_def counted_def live_slot_def e_range_def)
    with occ show ?thesis by (auto simp: e IH Let_def)
  next
    case tomb
    then have "slot_ok p d i" "\<not> counted p i" by (simp_all add: slot_ok_def counted_def live_slot_def)
    with tomb show ?thesis by (auto simp: e IH)
  next
    case bad
    then have "\<not> slot_ok p d i" by (simp add: slot_ok_def live_slot_def)
    with bad show ?thesis by (auto simp: e)
  qed
qed simp

lemma n_slots_word: "unat (of_nat (n_slots p) :: u16) = n_slots p" "unat (of_nat (data_start p) :: u16) = data_start p"
  by simp_all

lemma validate_header_iff: "validate_header p = (if valid_page p then Ok () else Err CorruptPage)"
proof (cases "4 \<le> length p \<and> data_start p \<le> length p \<and> 4 + 8 * n_slots p \<le> data_start p")
  case False
  then show ?thesis
    by (auto simp: validate_header_def valid_page_def read_header_eq directory_end_def
        SLOTTED_HEADER_SIZE_def SLOT_ENTRY_SIZE_def not_le mult.commute)
next
  case True
  then have l: "4 + 8 * n_slots p \<le> length p" by linarith
  let ?rs = "map (e_range p) (filter (counted p) [0..<n_slots p])"
  have "\<forall>b \<in> set ?rs. fst b < snd b" by (auto simp: e_range_def counted_def)
  then have w: "windows_ok (sort_key fst ?rs) \<longleftrightarrow> sorted_wrt apart ?rs" by (rule windows_ok_sort)
  have sym: "apart a b = apart b a" for a b by (auto simp: apart_def)
  have "sorted_wrt apart ?rs \<longleftrightarrow> (\<forall>j < n_slots p. \<forall>i < j. counted p i \<longrightarrow> counted p j \<longrightarrow>
      apart (e_range p i) (e_range p j))"
    by (simp add: sorted_wrt_map sorted_wrt_filter_upt)
  also have "\<dots> \<longleftrightarrow> (\<forall>i < n_slots p. \<forall>j < n_slots p. i \<noteq> j \<longrightarrow> counted p i \<longrightarrow> counted p j \<longrightarrow>
      apart (e_range p i) (e_range p j))"
  proof (intro iffI allI impI)
    fix i j
    assume "\<forall>j < n_slots p. \<forall>i < j. counted p i \<longrightarrow> counted p j \<longrightarrow> apart (e_range p i) (e_range p j)"
      and "i < n_slots p" "j < n_slots p" "i \<noteq> j" "counted p i" "counted p j"
    then show "apart (e_range p i) (e_range p j)"
      using sym [of "e_range p i" "e_range p j"] by (cases "i < j") auto
  qed auto
  finally have d: "sorted_wrt apart ?rs \<longleftrightarrow> \<dots>" .
  have "validate_slots p (data_start p) [0..<n_slots p] [] =
      (if \<forall>i < n_slots p. slot_ok p (data_start p) i then Ok ?rs else Err CorruptPage)"
    by (subst validate_slots_iff [OF l]) auto
  then show ?thesis
    using True w d
    by (auto simp: validate_header_def valid_page_def read_header_eq directory_end_def
        SLOTTED_HEADER_SIZE_def SLOT_ENTRY_SIZE_def)
qed

text \<open>
  A page the program works on: valid, and short enough for 16-bit offsets. Its abstract content is the
  list of its slots, \<open>None\<close> for a tombstone.
\<close>

definition page_inv :: "byte list \<Rightarrow> bool" where
  "page_inv p = (length p \<le> 65535 \<and> validate_header p = Ok ())"

definition slot_view :: "byte list \<Rightarrow> nat \<Rightarrow> byte list option" where
  "slot_view p i = (if live_slot p i then Some (sub_bytes p (e_off p i) (e_len p i)) else None)"

definition page_view :: "byte list \<Rightarrow> byte list option list" where
  "page_view p = map (slot_view p) [0..<n_slots p]"

lemma page_inv_iff: "page_inv p \<longleftrightarrow> length p \<le> 65535 \<and> valid_page p"
  by (simp add: page_inv_def validate_header_iff)

lemma length_page_view [simp]: "length (page_view p) = n_slots p"
  by (simp add: page_view_def)

lemma page_view_nth [simp]: "i < n_slots p \<Longrightarrow> page_view p ! i = slot_view p i"
  by (simp add: page_view_def)

lemma page_inv_facts:
  assumes "page_inv p"
  shows "4 \<le> length p" "length p \<le> 65535" "4 + 8 * n_slots p \<le> data_start p"
    "data_start p \<le> length p" "4 + 8 * n_slots p \<le> length p"
  using assms by (auto simp: page_inv_iff valid_page_def)

lemma page_inv_slot:
  assumes "page_inv p" "i < n_slots p"
  shows "live_slot p i \<Longrightarrow> data_start p \<le> e_off p i \<and> e_off p i + e_len p i \<le> length p"
    and "\<not> live_slot p i \<Longrightarrow> e_status p i = STATUS_TOMBSTONE"
  using assms by (auto simp: page_inv_iff valid_page_def slot_ok_def live_slot_def)

lemma length_slot_view:
  "page_inv p \<Longrightarrow> i < n_slots p \<Longrightarrow> slot_view p i = Some xs \<Longrightarrow> length xs = e_len p i"
  using page_inv_slot(1) [of p i] by (auto simp: slot_view_def sub_bytes_def split: if_splits)

subsection \<open>Reading a valid page\<close>

lemma slot_get_view:
  assumes "page_inv p"
  shows "slot_get p s = Ok (if unat s < n_slots p then page_view p ! unat s else None)"
proof -
  note f = page_inv_facts [OF assms]
  let ?i = "unat s"
  show ?thesis
  proof (cases "?i < n_slots p \<and> live_slot p ?i")
    case True
    with page_inv_slot(1) [OF assms] have "e_off p ?i + e_len p ?i \<le> length p" by blast
    with True f show ?thesis
      by (simp add: slot_get_def read_slot_entry_eq slot_view_def live_slot_def sub_slice_def
          get_slice_def sub_bytes_def)
  next
    case False
    with f show ?thesis
      by (auto simp: slot_get_def read_slot_entry_eq slot_view_def live_slot_def)
  qed
qed

lemma slot_status_view:
  assumes "page_inv p"
  shows "slot_status_of p s = Ok (if unat s < n_slots p
    then Some (if page_view p ! unat s = None then Tombstone else Occupied) else None)"
  using page_inv_facts [OF assms] page_inv_slot(2) [OF assms, of "unat s"]
  by (auto simp: slot_status_of_def read_slot_entry_eq slot_view_def live_slot_def not_le)

subsection \<open>Writing to a valid page\<close>

definition same_entry :: "byte list \<Rightarrow> byte list \<Rightarrow> nat \<Rightarrow> bool" where
  "same_entry p q i = (e_off q i = e_off p i \<and> e_len q i = e_len p i \<and> e_status q i = e_status p i)"

lemma same_entryI:
  assumes "length q = length p" "12 + 8 * i \<le> length p"
    "\<And>a n. 4 + 8 * i \<le> a \<Longrightarrow> a + n \<le> 12 + 8 * i \<Longrightarrow> sub_bytes q a n = sub_bytes p a n"
  shows "same_entry p q i"
proof -
  have s: "sub_bytes q (8 + 8 * i) 1 = sub_bytes p (8 + 8 * i) 1" using assms(3) by simp
  have "sub_bytes r (8 + 8 * i) 1 = [r ! (8 + 8 * i)]" if "length r = length p" for r
    using that assms(2) by (auto simp: sub_bytes_def take_Suc_conv_app_nth hd_drop_conv_nth take_Suc)
  from this [of p] this [of q] s assms(1) have "e_status q i = e_status p i"
    by (simp add: e_status_def)
  then show ?thesis using assms(3) by (simp add: same_entry_def e_off_def e_len_def get16_def)
qed

lemma same_entry_simps:
  assumes "same_entry p q i"
  shows "e_off q i = e_off p i" "e_len q i = e_len p i" "e_status q i = e_status p i"
    "live_slot q i = live_slot p i" "counted q i = counted p i" "e_range q i = e_range p i"
  using assms by (simp_all add: same_entry_def live_slot_def counted_def e_range_def)

text \<open>
  One rule for every change of a page: the slots other than \<open>s\<close> keep their entries and their data, slot
  \<open>s\<close> is dead or lies in a fresh range below the old data, or is as it was.
\<close>

lemma page_inv_change:
  assumes inv: "page_inv p" and len: "length q = length p"
    and ds: "data_start q \<le> data_start p" "4 + 8 * n_slots q \<le> data_start q"
    and others: "\<And>i. i < n_slots q \<Longrightarrow> i \<noteq> s \<Longrightarrow> i < n_slots p \<and> same_entry p q i"
    and s: "s < n_slots q \<Longrightarrow>
      e_status q s = STATUS_TOMBSTONE
      \<or> live_slot q s \<and> data_start q \<le> e_off q s \<and> e_off q s + e_len q s \<le> data_start p
      \<or> s < n_slots p \<and> same_entry p q s"
  shows "page_inv q"
proof -
  note f = page_inv_facts [OF inv]
  have ok: "slot_ok p (data_start p) i" if "i < n_slots p" for i
    using inv that by (auto simp: page_inv_iff valid_page_def)
  have ap: "apart (e_range p i) (e_range p j)"
    if "i < n_slots p" "j < n_slots p" "i \<noteq> j" "counted p i" "counted p j" for i j
    using inv that by (auto simp: page_inv_iff valid_page_def)
  have keep: "slot_ok q (data_start q) i" if "i < n_slots p" "same_entry p q i" for i
    using ok [OF that(1)] ds(1) by (auto simp: slot_ok_def same_entry_simps [OF that(2)] len)
  have ok': "slot_ok q (data_start q) i" if i: "i < n_slots q" for i
  proof (cases "i = s")
    case True
    with s i keep f(4) len show ?thesis by (fastforce simp: slot_ok_def)
  next
    case False
    with others [OF i] keep show ?thesis by blast
  qed
  have fresh: "apart (e_range q s) (e_range q j)"
    if "live_slot q s" "e_off q s + e_len q s \<le> data_start p" "j < n_slots p" "same_entry p q j" "counted q j" for j
    using that page_inv_slot(1) [OF inv that(3)]
    by (auto simp: apart_def e_range_def same_entry_simps [OF that(4)] counted_def)
  have ap': "apart (e_range q i) (e_range q j)"
    if ij: "i < n_slots q" "j < n_slots q" "i \<noteq> j" "counted q i" "counted q j" for i j
  proof -
    have sym: "apart x y = apart y x" for x y by (auto simp: apart_def)
    have live: "live_slot q i" "live_slot q j" using ij by (auto simp: counted_def)
    consider (old) "i < n_slots p" "same_entry p q i" "j < n_slots p" "same_entry p q j"
      | (i) "i = s" "e_off q s + e_len q s \<le> data_start p" "j < n_slots p" "same_entry p q j"
      | (j) "j = s" "e_off q s + e_len q s \<le> data_start p" "i < n_slots p" "same_entry p q i"
      using others [OF ij(1)] others [OF ij(2)] s ij live
      by (auto simp: live_slot_def) (metis status_distinct(1))+
    then show ?thesis
    proof cases
      case old
      with ap [OF old(1,3) ij(3)] ij show ?thesis by (simp add: same_entry_simps)
    next
      case i
      with fresh [OF _ i(2,3,4)] live ij show ?thesis by simp
    next
      case j
      with fresh [OF _ j(2,3,4)] live ij sym show ?thesis by metis
    qed
  qed
  show ?thesis
    using f ds ok' ap' len by (simp add: page_inv_iff valid_page_def)
qed

text \<open>A slot keeps its content when its entry and its data keep their bytes.\<close>

lemma slot_view_same:
  assumes "same_entry p q i" "live_slot p i \<Longrightarrow> sub_bytes q (e_off p i) (e_len p i) = sub_bytes p (e_off p i) (e_len p i)"
  shows "slot_view q i = slot_view p i"
  using assms by (simp add: slot_view_def same_entry_simps [OF assms(1)])

text \<open>Writing a tuple below the old data, its directory entry and the header.\<close>

definition place_tuple :: "byte list \<Rightarrow> u16 \<Rightarrow> u16 \<Rightarrow> byte list \<Rightarrow> byte list outcome" where
  "place_tuple p c s bytes =
     (let new = data_start p - length bytes in
      and_then (put new bytes p) (\<lambda>p.
      and_then (set_slot_entry p s (of_nat new) (of_nat (length bytes)) STATUS_OCCUPIED) (\<lambda>p.
      set_header p c (of_nat new))))"

lemma place_tuple_Ok:
  assumes inv: "page_inv p" and fit: "4 + 8 * unat c + length bytes \<le> data_start p"
    and s: "unat c = n_slots p \<and> unat s < n_slots p \<or> unat c = Suc (n_slots p) \<and> unat s = n_slots p"
  obtains q where "place_tuple p c s bytes = Ok q" "page_inv q" "length q = length p"
    "n_slots q = unat c" "data_start q = data_start p - length bytes"
    "\<And>i. i < unat c \<Longrightarrow> slot_view q i = (if i = unat s then Some bytes else slot_view p i)"
proof -
  let ?n = "length bytes" let ?new = "data_start p - ?n" let ?s = "unat s"
  note f = page_inv_facts [OF inv]
  have sc: "?s < unat c" using s by auto
  have new: "4 + 8 * unat c \<le> ?new" "?new + ?n = data_start p" "?new < 65536" "?n < 65536"
    using fit get16_less [of p 2] by linarith+
  define p1 where "p1 = overwrite p ?new bytes"
  have p1: "put ?new bytes p = Ok p1" "length p1 = length p"
    using f(4) new(2) by (simp_all add: p1_def put_overwrite)
  have d1: "4 + 8 * ?s + 8 \<le> length p1" using sc new f(4) p1(2) by linarith
  from set_slot_entry_eq [OF d1] obtain p2 where p2:
    "set_slot_entry p1 s (of_nat ?new) (of_nat ?n) STATUS_OCCUPIED = Ok p2" "length p2 = length p1"
    "e_off p2 ?s = ?new" "e_len p2 ?s = ?n" "e_status p2 ?s = STATUS_OCCUPIED"
    "\<And>a n. a + n \<le> length p1 \<Longrightarrow> a + n \<le> 4 + 8 * ?s \<or> 12 + 8 * ?s \<le> a \<Longrightarrow>
      sub_bytes p2 a n = sub_bytes p1 a n"
    using new(3,4) by (metis unat_of_nat16)
  have "4 \<le> length p2" using f(1) p1 p2 by simp
  from set_header_eq [OF this] obtain q where q:
    "set_header p2 c (of_nat ?new) = Ok q" "length q = length p2" "n_slots q = unat c" "data_start q = ?new"
    "\<And>a n. 4 \<le> a \<Longrightarrow> a + n \<le> length p2 \<Longrightarrow> sub_bytes q a n = sub_bytes p2 a n"
    using new(3) by (metis unat_of_nat16)
  have len: "length q = length p" using p1 p2 q by simp
  have frame: "sub_bytes q a n = sub_bytes p a n"
    if "4 \<le> a" "a + n \<le> length p" "a + n \<le> 4 + 8 * ?s \<or> 12 + 8 * ?s \<le> a"
      "a + n \<le> ?new \<or> data_start p \<le> a" for a n
    using that q(5) [of a n] p2(6) [of a n] p1 p2(2) new(2) f(4)
    by (simp add: p1_def sub_overwrite_other)
  have same: "same_entry p q i" if "i < unat c" "i \<noteq> ?s" for i
  proof (rule same_entryI)
    show "12 + 8 * i \<le> length p" using that(1) new f(4) by linarith
    fix a n assume a: "4 + 8 * i \<le> a" "a + n \<le> 12 + 8 * i"
    have "i + 1 \<le> ?s \<or> ?s + 1 \<le> i" using that(2) by linarith
    with a that(1) new f(4) show "sub_bytes q a n = sub_bytes p a n" by (intro frame) linarith+
  qed (rule len)
  have es: "same_entry p2 q ?s"
    by (rule same_entryI) (use d1 p2(2) q(2,5) in auto)
  note es = same_entry_simps [OF es]
  have qs: "live_slot q ?s" "e_off q ?s = ?new" "e_len q ?s = ?n"
    using es p2 by (simp_all add: live_slot_def)
  have "sub_bytes q ?new ?n = sub_bytes p2 ?new ?n" using q(5) new f p1 p2 by simp
  also have "\<dots> = sub_bytes p1 ?new ?n" using p2(6) new sc p1 f(4) by simp
  also have "\<dots> = bytes" using sub_overwrite_same [of ?new bytes p] new(2) f(4) by (simp add: p1_def)
  finally have data: "sub_bytes q ?new ?n = bytes" .
  have inv': "page_inv q"
  proof (rule page_inv_change [OF inv len, of ?s])
    fix i assume "i < n_slots q" "i \<noteq> ?s"
    then show "i < n_slots p \<and> same_entry p q i" using same s q(3) by auto
  qed (use q qs new in auto)
  have view: "slot_view q i = (if i = ?s then Some bytes else slot_view p i)" if i: "i < unat c" for i
  proof (cases "i = ?s")
    case True
    then show ?thesis using qs data by (simp add: slot_view_def)
  next
    case False
    with i s have ip: "i < n_slots p" by auto
    show ?thesis
    proof (simp add: False, rule slot_view_same [OF same [OF i False]])
      assume "live_slot p i"
      with page_inv_slot(1) [OF inv ip] new sc
      show "sub_bytes q (e_off p i) (e_len p i) = sub_bytes p (e_off p i) (e_len p i)"
        by (intro frame) linarith+
    qed
  qed
  have "place_tuple p c s bytes = Ok q" by (simp add: place_tuple_def Let_def p1 p2 q)
  with inv' len q view that show thesis by blast
qed

subsection \<open>Operations on the abstract content\<close>

text \<open>
  The reference semantics: an insertion reuses the lowest tombstone or appends a slot. \<open>used_bytes\<close> is
  the room that the live tuples need.
\<close>

definition view_insert :: "byte list option list \<Rightarrow> byte list \<Rightarrow> nat \<times> byte list option list" where
  "view_insert v bytes =
     (case position (\<lambda>x. x = None) v of
        Some i \<Rightarrow> (i, v[i := Some bytes])
      | None \<Rightarrow> (length v, v @ [Some bytes]))"

definition live_len :: "byte list option \<Rightarrow> nat" where
  "live_len x = (case x of None \<Rightarrow> 0 | Some xs \<Rightarrow> length xs)"

definition used_bytes :: "byte list option list \<Rightarrow> nat" where
  "used_bytes v = sum_list (map live_len v)"

definition view_size :: "byte list option list \<Rightarrow> nat" where
  "view_size v = 4 + 8 * length v + used_bytes v"

lemma page_inv_slots_bound: "page_inv p \<Longrightarrow> n_slots p < 8192"
  using page_inv_facts [of p] by linarith

lemma slot_view_None_iff: "page_inv p \<Longrightarrow> i < n_slots p \<Longrightarrow>
    slot_view p i = None \<longleftrightarrow> e_status p i = STATUS_TOMBSTONE"
  using page_inv_slot(2) [of p i] by (auto simp: slot_view_def live_slot_def)

lemma read_entry_nat:
  assumes "page_inv p" "i < n_slots p"
  shows "read_slot_entry p (of_nat i) = Ok (Some (of_nat (e_off p i), of_nat (e_len p i), e_status p i))"
proof -
  have "unat (of_nat i :: u16) = i" using page_inv_slots_bound [OF assms(1)] assms(2) by simp
  then show ?thesis using assms page_inv_facts(5) [OF assms(1)] by (simp add: read_slot_entry_eq)
qed

lemma find_tombstone_eq:
  assumes "page_inv p" "\<forall>i \<in> set is. i < n_slots p"
  shows "find_tombstone p is =
    Ok (map_option (\<lambda>k. of_nat (is ! k)) (position (\<lambda>x. x = None) (map (slot_view p) is)))"
  using assms(2)
proof (induction "is")
  case (Cons i "is")
  then show ?case
    using slot_view_None_iff [OF assms(1), of i]
    by (simp add: read_entry_nat [OF assms(1)] option.map_comp comp_def)
qed simp

lemma find_tombstone_view:
  assumes "page_inv p"
  shows "find_tombstone p [0..<n_slots p] =
    Ok (map_option of_nat (position (\<lambda>x. x = None) (page_view p)))"
proof -
  have "map_option (\<lambda>k. of_nat ([0..<n_slots p] ! k)) r = (map_option of_nat r :: u16 option)"
    if "r = position (\<lambda>x. x = None) (page_view p)" for r
  proof (cases r)
    case (Some k)
    with that have "position (\<lambda>x. x = None) (page_view p) = Some k" by simp
    then have "k < n_slots p" by (simp add: position_Some_iff)
    with Some that show ?thesis by simp
  qed (use that in simp)
  then show ?thesis using find_tombstone_eq [OF assms, of "[0..<n_slots p]"] by (simp add: page_view_def)
qed

lemma view_insert_length:
  "length (snd (view_insert v bytes)) = (if position (\<lambda>x. x = None) v = None then Suc (length v) else length v)"
  by (auto simp: view_insert_def split: option.splits)

lemma page_view_eqI:
  "n_slots q = length v \<Longrightarrow> (\<And>i. i < length v \<Longrightarrow> slot_view q i = v ! i) \<Longrightarrow> page_view q = v"
  by (auto intro: nth_equalityI)

lemma try_insert_spec:
  assumes inv: "page_inv p" and vi: "view_insert (page_view p) bytes = (i, v')"
  shows "if 4 + 8 * length v' + length bytes \<le> data_start p
    then \<exists>q. try_insert p bytes = Ok (Some (of_nat i), q) \<and> page_inv q \<and> length q = length p
      \<and> page_view q = v' \<and> data_start q = data_start p - length bytes
    else try_insert p bytes = Ok (None, p)"
proof -
  note f = page_inv_facts [OF inv] and b = page_inv_slots_bound [OF inv]
  let ?n = "n_slots p" and ?r = "position (\<lambda>x. x = None) (page_view p)"
  define c :: u16 where "c = (if ?r = None then of_nat ?n + 1 else of_nat ?n)"
  define s :: u16 where "s = of_nat i"
  have un: "unat (of_nat ?n :: u16) = ?n" "unat (of_nat ?n + 1 :: u16) = Suc ?n"
  proof -
    show "unat (of_nat ?n :: u16) = ?n" by simp
    have "(of_nat ?n + 1 :: u16) = of_nat (Suc ?n)" by simp
    then show "unat (of_nat ?n + 1 :: u16) = Suc ?n" using b by (simp only: unat_of_nat16)
  qed
  have neq: "of_nat ?n \<noteq> (- 1 :: u16)"
  proof
    assume "of_nat ?n = (- 1 :: u16)"
    then have "?n = unat (- 1 :: u16)" using un(1) by simp
    moreover have "unat (- 1 :: u16) = 65535" by (simp add: unsigned_minus_1_eq_mask mask_eq_exp_minus_1)
    ultimately show False using b by linarith
  qed
  have ir: "(?r = None \<longrightarrow> i = ?n \<and> v' = page_view p @ [Some bytes]) \<and>
      (\<forall>k. ?r = Some k \<longrightarrow> i = k \<and> k < ?n \<and> v' = (page_view p)[i := Some bytes])"
  proof (cases ?r)
    case None
    with vi show ?thesis by (simp add: view_insert_def)
  next
    case (Some k)
    then have "k < ?n" by (simp add: position_Some_iff)
    with vi Some show ?thesis by (auto simp: view_insert_def)
  qed
  have c: "unat c = length v'" "unat s = i" and cs: "unat c = ?n \<and> unat s < ?n \<or> unat c = Suc ?n \<and> unat s = ?n"
    using ir b un by (cases ?r; simp add: c_def s_def)+
  have v': "v' ! k = (if k = i then Some bytes else slot_view p k)" if "k < length v'" for k
    using ir that by (cases ?r) (auto simp: nth_append nth_list_update)
  have unfold: "try_insert p bytes =
      (if data_start p < 4 + 8 * length v' + length bytes then Ok (None, p)
       else and_then (place_tuple p c s bytes) (\<lambda>q. Ok (Some s, q)))"
    using ir neq c(1)
    by (cases ?r) (auto simp: try_insert_def read_header_eq f(1) find_tombstone_view [OF inv] Let_def
        directory_end_def SLOTTED_HEADER_SIZE_def SLOT_ENTRY_SIZE_def c_def s_def place_tuple_def
        and_then_assoc mult.commute)
  show ?thesis
  proof (cases "4 + 8 * length v' + length bytes \<le> data_start p")
    case True
    then have "4 + 8 * unat c + length bytes \<le> data_start p" by (simp add: c)
    from place_tuple_Ok [OF inv this cs] obtain q where q: "place_tuple p c s bytes = Ok q" "page_inv q"
      "length q = length p" "n_slots q = unat c" "data_start q = data_start p - length bytes"
      "\<And>k. k < unat c \<Longrightarrow> slot_view q k = (if k = unat s then Some bytes else slot_view p k)" by blast
    then have "page_view q = v'" using v' c by (intro page_view_eqI) auto
    with q True show ?thesis by (simp add: unfold s_def)
  next
    case False
    then show ?thesis by (simp add: unfold)
  qed
qed

lemma try_relocate_spec:
  assumes inv: "page_inv p" and s: "unat s < n_slots p"
  shows "if 4 + 8 * n_slots p + length bytes \<le> data_start p
    then \<exists>q. try_relocate p s bytes = Ok (True, q) \<and> page_inv q \<and> length q = length p
      \<and> page_view q = (page_view p)[unat s := Some bytes]
    else try_relocate p s bytes = Ok (False, p)"
proof -
  note f = page_inv_facts [OF inv]
  let ?c = "of_nat (n_slots p) :: u16"
  have c: "unat ?c = n_slots p" by simp
  have unfold: "try_relocate p s bytes =
      (if data_start p < 4 + 8 * n_slots p + length bytes then Ok (False, p)
       else and_then (place_tuple p ?c s bytes) (\<lambda>q. Ok (True, q)))"
    by (auto simp: try_relocate_def read_header_eq f(1) Let_def directory_end_def
        SLOTTED_HEADER_SIZE_def SLOT_ENTRY_SIZE_def place_tuple_def and_then_assoc mult.commute)
  show ?thesis
  proof (cases "4 + 8 * n_slots p + length bytes \<le> data_start p")
    case True
    then have "4 + 8 * unat ?c + length bytes \<le> data_start p" by simp
    from place_tuple_Ok [OF inv this] s c obtain q where q: "place_tuple p ?c s bytes = Ok q" "page_inv q"
      "length q = length p" "n_slots q = n_slots p"
      "\<And>k. k < n_slots p \<Longrightarrow> slot_view q k = (if k = unat s then Some bytes else slot_view p k)"
      by metis
    then have "page_view q = (page_view p)[unat s := Some bytes]"
      by (intro page_view_eqI) (auto simp: nth_list_update)
    with q True show ?thesis by (simp add: unfold)
  qed (simp add: unfold)
qed

lemma slot_delete_spec:
  assumes inv: "page_inv p"
  shows "\<exists>q. slot_delete p s = Ok (unat s < n_slots p \<and> page_view p ! unat s \<noteq> None, q)
    \<and> page_inv q \<and> length q = length p
    \<and> page_view q = (if unat s < n_slots p then (page_view p)[unat s := None] else page_view p)"
proof (cases "unat s < n_slots p \<and> live_slot p (unat s)")
  case False
  note f = page_inv_facts [OF inv]
  have "(page_view p)[unat s := None] = page_view p" if "unat s < n_slots p"
    using False that by (intro nth_equalityI) (auto simp: nth_list_update slot_view_def)
  with False f inv show ?thesis
    by (auto simp: slot_delete_def read_slot_entry_eq slot_view_def live_slot_def)
next
  case True
  note f = page_inv_facts [OF inv]
  let ?s = "unat s"
  have d: "4 + 8 * ?s + 8 \<le> length p" using True f(5) by linarith
  from set_slot_entry_eq [OF d, where off = "of_nat (e_off p ?s)" and len = "of_nat (e_len p ?s)"
      and st = STATUS_TOMBSTONE]
  obtain q where q:
    "set_slot_entry p s (of_nat (e_off p ?s)) (of_nat (e_len p ?s)) STATUS_TOMBSTONE = Ok q"
    "length q = length p" "e_status q ?s = STATUS_TOMBSTONE"
    "\<And>a n. a + n \<le> length p \<Longrightarrow> a + n \<le> 4 + 8 * ?s \<or> 12 + 8 * ?s \<le> a \<Longrightarrow>
      sub_bytes q a n = sub_bytes p a n"
    by metis
  have h: "n_slots q = n_slots p" "data_start q = data_start p"
  proof -
    have "sub_bytes q 0 2 = sub_bytes p 0 2" by (rule q(4)) (use f(1) in linarith)+
    moreover have "sub_bytes q 2 2 = sub_bytes p 2 2" by (rule q(4)) (use f(1) in linarith)+
    ultimately show "n_slots q = n_slots p" "data_start q = data_start p" by (simp_all add: get16_def)
  qed
  have same: "same_entry p q i" if "i < n_slots p" "i \<noteq> ?s" for i
  proof (rule same_entryI)
    show "12 + 8 * i \<le> length p" using that(1) f(5) by linarith
    fix a n assume a: "4 + 8 * i \<le> a" "a + n \<le> 12 + 8 * i"
    have "i + 1 \<le> ?s \<or> ?s + 1 \<le> i" using that(2) by linarith
    with a that(1) f(5) show "sub_bytes q a n = sub_bytes p a n" by (intro q(4)) linarith+
  qed (rule q(2))
  have "page_inv q"
    by (rule page_inv_change [OF inv q(2), of ?s]) (use h f same q(3) in auto)
  moreover have "page_view q = (page_view p)[?s := None]"
  proof (rule page_view_eqI)
    fix i assume "i < length ((page_view p)[?s := None])"
    then have i: "i < n_slots p" by simp
    show "slot_view q i = (page_view p)[?s := None] ! i"
    proof (cases "i = ?s")
      case True
      with q(3) i show ?thesis by (simp add: slot_view_def live_slot_def)
    next
      case False
      have "slot_view q i = slot_view p i"
      proof (rule slot_view_same [OF same [OF i False]])
        assume "live_slot p i"
        with page_inv_slot(1) [OF inv i] f \<open>_ \<and> live_slot p ?s\<close>
        show "sub_bytes q (e_off p i) (e_len p i) = sub_bytes p (e_off p i) (e_len p i)"
          by (intro q(4)) linarith+
      qed
      with False i show ?thesis by simp
    qed
  qed (simp add: h)
  ultimately show ?thesis
    using True q f by (auto simp: slot_delete_def read_slot_entry_eq slot_view_def live_slot_def)
qed

text \<open>An update of the same length overwrites the tuple in place.\<close>

lemma overwrite_live_spec:
  assumes inv: "page_inv p" and s: "s < n_slots p" "live_slot p s" and l: "length bytes = e_len p s"
  shows "\<exists>q. put (e_off p s) bytes p = Ok q \<and> page_inv q \<and> length q = length p
    \<and> page_view q = (page_view p)[s := Some bytes]"
proof -
  note f = page_inv_facts [OF inv] and sl = page_inv_slot(1) [OF inv s]
  let ?q = "overwrite p (e_off p s) bytes"
  have fit: "e_off p s + length bytes \<le> length p" using sl l by simp
  have frame: "sub_bytes ?q a n = sub_bytes p a n"
    if "a + n \<le> length p" "a + n \<le> e_off p s \<or> e_off p s + length bytes \<le> a" for a n
    by (rule sub_overwrite_other [OF fit that])
  have len: "length ?q = length p" using fit by simp
  have dir: "sub_bytes ?q a n = sub_bytes p a n" if "a + n \<le> 4 + 8 * n_slots p" for a n
    using that f sl by (intro frame) linarith+
  have h: "n_slots ?q = n_slots p" "data_start ?q = data_start p"
    using dir [of 0 2] dir [of 2 2] by (simp_all add: get16_def)
  have same: "same_entry p ?q i" if "i < n_slots p" for i
    by (rule same_entryI [OF len]) (use that f dir in auto)
  have "page_inv ?q"
    by (rule page_inv_change [OF inv len, of s]) (use h f same s in auto)
  moreover have "page_view ?q = (page_view p)[s := Some bytes]"
  proof (rule page_view_eqI)
    fix i assume "i < length ((page_view p)[s := Some bytes])"
    then have i: "i < n_slots p" by simp
    show "slot_view ?q i = (page_view p)[s := Some bytes] ! i"
    proof (cases "i = s")
      case True
      then show ?thesis
        using same_entry_simps [OF same [OF s(1)]] s l sub_overwrite_same [OF fit]
        by (simp add: slot_view_def)
    next
      case False
      have "slot_view ?q i = slot_view p i"
      proof (rule slot_view_same [OF same [OF i]])
        assume li: "live_slot p i"
        have "e_len p i = 0 \<or> e_len p s = 0 \<or> apart (e_range p i) (e_range p s)"
          using inv i s li False by (auto simp: page_inv_iff valid_page_def counted_def)
        with page_inv_slot(1) [OF inv i li] l sl
        show "sub_bytes ?q (e_off p i) (e_len p i) = sub_bytes p (e_off p i) (e_len p i)"
        proof (elim disjE)
          assume "e_len p s = 0"
          then show ?thesis using l by (simp add: overwrite_def)
        qed (auto simp: sub_bytes_def [of _ _ 0] apart_def e_range_def intro!: frame)
      qed
      with False i show ?thesis by simp
    qed
  qed (simp add: h)
  ultimately show ?thesis using len put_overwrite [OF fit] by auto
qed

subsection \<open>Compaction\<close>

lemma collect_live_eq:
  assumes inv: "page_inv p" and "\<forall>i \<in> set is. i < n_slots p"
  shows "collect_live p is =
    Ok (map (\<lambda>i. (of_nat i, sub_bytes p (e_off p i) (e_len p i))) (filter (live_slot p) is))"
  using assms(2)
proof (induction "is")
  case (Cons i "is")
  then have i: "i < n_slots p" by simp
  have s: "live_slot p i \<Longrightarrow> sub_slice p (e_off p i) (e_off p i + e_len p i)
      = Ok (sub_bytes p (e_off p i) (e_len p i))"
    using page_inv_slot(1) [OF inv i] by (simp add: sub_slice_def get_slice_def sub_bytes_def)
  show ?case
    using Cons by (cases "live_slot p i") (simp_all add: read_entry_nat [OF inv i] s live_slot_def)
qed simp

lemma sum_intervals_le:
  fixes off len :: "nat \<Rightarrow> nat"
  assumes "finite I" "\<And>i. i \<in> I \<Longrightarrow> a \<le> off i \<and> off i + len i \<le> b"
    and "\<And>i j. i \<in> I \<Longrightarrow> j \<in> I \<Longrightarrow> i \<noteq> j \<Longrightarrow> {off i..<off i + len i} \<inter> {off j..<off j + len j} = {}"
  shows "(\<Sum>i \<in> I. len i) \<le> b - a"
proof -
  have "(\<Sum>i \<in> I. len i) = card (\<Union>i \<in> I. {off i..<off i + len i})"
    using assms by (subst card_UN_disjoint) auto
  also have "\<dots> \<le> card {a..<b}"
    using assms(2) by (intro card_mono) fastforce+
  finally show ?thesis by simp
qed

lemma used_bytes_sum:
  assumes inv: "page_inv p"
  shows "used_bytes (page_view p) = (\<Sum>i \<in> {i. i < n_slots p \<and> live_slot p i}. e_len p i)"
proof -
  have "live_len (slot_view p i) = (if live_slot p i then e_len p i else 0)" if "i < n_slots p" for i
    using page_inv_slot(1) [OF inv that] by (auto simp: slot_view_def live_len_def sub_bytes_def)
  then have "used_bytes (page_view p) = (\<Sum>i < n_slots p. if live_slot p i then e_len p i else 0)"
    by (simp add: used_bytes_def page_view_def interv_sum_list_conv_sum_set_nat comp_def
        atLeast0LessThan)
  also have "\<dots> = (\<Sum>i \<in> {i. i < n_slots p \<and> live_slot p i}. e_len p i)"
    by (subst sum.inter_filter [symmetric]) auto
  finally show ?thesis .
qed

lemma used_bytes_fit:
  assumes inv: "page_inv p"
  shows "data_start p + used_bytes (page_view p) \<le> length p"
proof -
  have "(\<Sum>i \<in> {i. i < n_slots p \<and> live_slot p i}. e_len p i) \<le> length p - data_start p"
  proof (rule sum_intervals_le [where off = "e_off p"])
    fix i j assume ij: "i \<in> {i. i < n_slots p \<and> live_slot p i}" "j \<in> {i. i < n_slots p \<and> live_slot p i}" "i \<noteq> j"
    then have "e_len p i = 0 \<or> e_len p j = 0 \<or> apart (e_range p i) (e_range p j)"
      using inv by (auto simp: page_inv_iff valid_page_def counted_def)
    then show "{e_off p i..<e_off p i + e_len p i} \<inter> {e_off p j..<e_off p j + e_len p j} = {}"
      by (auto simp: apart_def e_range_def)
  qed (use page_inv_slot(1) [OF inv] in auto)
  then show ?thesis using page_inv_facts(4) [OF inv] by (simp add: used_bytes_sum [OF inv])
qed

definition live_total :: "(u16 \<times> byte list) list \<Rightarrow> nat" where
  "live_total live = sum_list (map (\<lambda>(s, b). length b) live)"

text \<open>What laying out the tuples of \<open>live\<close> below \<open>cursor\<close> does.\<close>

definition laid_out :: "byte list \<Rightarrow> nat \<Rightarrow> (u16 \<times> byte list) list \<Rightarrow> byte list \<Rightarrow> bool" where
  "laid_out p cursor live q \<longleftrightarrow>
     length q = length p
     \<and> (\<forall>a m. a + m \<le> length p \<longrightarrow> a + m \<le> cursor - live_total live \<or> cursor \<le> a \<longrightarrow>
          (\<forall>(s, b) \<in> set live. a + m \<le> 4 + 8 * unat s \<or> 12 + 8 * unat s \<le> a) \<longrightarrow>
          sub_bytes q a m = sub_bytes p a m)
     \<and> (\<forall>(s, b) \<in> set live. live_slot q (unat s) \<and> e_len q (unat s) = length b
          \<and> cursor - live_total live \<le> e_off q (unat s) \<and> e_off q (unat s) + length b \<le> cursor
          \<and> sub_bytes q (e_off q (unat s)) (length b) = b)
     \<and> (\<forall>(s, b) \<in> set live. \<forall>(s', b') \<in> set live. unat s \<noteq> unat s' \<longrightarrow>
          apart (e_range q (unat s)) (e_range q (unat s')))"

lemma write_live_Ok:
  assumes "length p \<le> 65535" "4 + 8 * n + live_total live \<le> cursor" "cursor \<le> length p"
    and "\<forall>(s, b) \<in> set live. unat s < n" "distinct (map fst live)"
  shows "\<exists>q. write_live p cursor live = Ok (q, cursor - live_total live) \<and> laid_out p cursor live q"
  using assms
proof (induction live arbitrary: p cursor)
  case Nil
  then show ?case by (simp add: laid_out_def live_total_def)
next
  case (Cons sb live)
  obtain s b where sb: "sb = (s, b)" by (cases sb)
  let ?s = "unat s" and ?len = "length b" and ?rest = "live_total live"
  let ?new = "cursor - ?len"
  have tot: "live_total (sb # live) = ?len + ?rest" by (simp add: live_total_def sb)
  have s: "?s < n" and rest: "\<forall>(t, b) \<in> set live. unat t < n" "distinct (map fst live)"
    using Cons.prems(4,5) by (auto simp: sb)
  have fresh: "\<forall>(t, b) \<in> set live. unat t \<noteq> ?s"
    using Cons.prems(5) by (force simp: sb word_eq_iff_unsigned [symmetric])
  have n: "4 + 8 * n + ?rest \<le> ?new" "?new + ?len = cursor" "?new < 65536" "?len < 65536"
    using Cons.prems(1-3) tot by linarith+
  define p1 where "p1 = overwrite p ?new b"
  have p1: "put ?new b p = Ok p1" "length p1 = length p"
    using Cons.prems(3) n(2) by (simp_all add: p1_def put_overwrite)
  have "4 + 8 * ?s + 8 \<le> length p1" using s n Cons.prems(3) p1(2) by linarith
  from set_slot_entry_eq [OF this] obtain p2 where p2:
    "set_slot_entry p1 s (of_nat ?new) (of_nat ?len) STATUS_OCCUPIED = Ok p2" "length p2 = length p1"
    "e_off p2 ?s = ?new" "e_len p2 ?s = ?len" "e_status p2 ?s = STATUS_OCCUPIED"
    "\<And>a m. a + m \<le> length p1 \<Longrightarrow> a + m \<le> 4 + 8 * ?s \<or> 12 + 8 * ?s \<le> a \<Longrightarrow>
      sub_bytes p2 a m = sub_bytes p1 a m"
    using n(3,4) by (metis unat_of_nat16)
  have len2: "length p2 = length p" using p1 p2 by simp
  have "length p2 \<le> 65535" "?new \<le> length p2" using Cons.prems len2 n by simp_all
  from Cons.IH [OF this(1) n(1) this(2) rest] obtain q where
    q: "write_live p2 ?new live = Ok (q, ?new - ?rest)" and lo: "laid_out p2 ?new live q" by blast
  have lenq: "length q = length p" using lo len2 by (simp add: laid_out_def)
  have frame2: "sub_bytes q a m = sub_bytes p2 a m"
    if "a + m \<le> length p" "a + m \<le> ?new - ?rest \<or> ?new \<le> a"
      "\<forall>(t, b) \<in> set live. a + m \<le> 4 + 8 * unat t \<or> 12 + 8 * unat t \<le> a" for a m
    using lo that len2 by (auto simp: laid_out_def)
  have frame1: "sub_bytes p2 a m = sub_bytes p a m"
    if "a + m \<le> length p" "a + m \<le> ?new \<or> cursor \<le> a" "a + m \<le> 4 + 8 * ?s \<or> 12 + 8 * ?s \<le> a" for a m
    using p2(6) [of a m] that p1 n(2) Cons.prems(3) by (simp add: p1_def sub_overwrite_other)
  have "same_entry p2 q ?s"
  proof (rule same_entryI)
    show "length q = length p2" "12 + 8 * ?s \<le> length p2"
      using lenq len2 s n Cons.prems(3) by linarith+
    fix a m assume "4 + 8 * ?s \<le> a" "a + m \<le> 12 + 8 * ?s"
    moreover have "unat t + 1 \<le> ?s \<or> ?s + 1 \<le> unat t" if "(t, c) \<in> set live" for t c
      using fresh that by fastforce
    ultimately show "sub_bytes q a m = sub_bytes p2 a m"
      using s n Cons.prems(3) by (intro frame2) (linarith, linarith, fastforce)
  qed
  note es = same_entry_simps [OF this]
  have "sub_bytes q ?new ?len = sub_bytes p2 ?new ?len"
    using n Cons.prems(3) rest(1) by (intro frame2) (linarith, simp, fastforce)
  also have "\<dots> = sub_bytes p1 ?new ?len" using p2(6) p1(2) n s Cons.prems(3) by simp
  also have "\<dots> = b" using sub_overwrite_same [of ?new b p] n(2) Cons.prems(3) by (simp add: p1_def)
  finally have data: "sub_bytes q ?new ?len = b" .
  have here: "live_slot q ?s" "e_len q ?s = ?len" "e_off q ?s = ?new"
    using es p2 by (simp_all add: live_slot_def)
  have low: "live_slot q (unat t) \<and> e_len q (unat t) = length c \<and> ?new - ?rest \<le> e_off q (unat t)
      \<and> e_off q (unat t) + length c \<le> ?new \<and> sub_bytes q (e_off q (unat t)) (length c) = c"
    if "(t, c) \<in> set live" for t c
    using lo that by (auto simp: laid_out_def)
  have ap: "apart (e_range q (unat t)) (e_range q (unat t'))"
    if "(t, c) \<in> set live" "(t', c') \<in> set live" "unat t \<noteq> unat t'" for t c t' c'
    using lo that by (fastforce simp: laid_out_def)
  have ap2: "apart (e_range q ?s) (e_range q (unat t))" "apart (e_range q (unat t)) (e_range q ?s)"
    if "(t, c) \<in> set live" for t c
    using low [OF that] here by (simp_all add: apart_def e_range_def)
  have "laid_out p cursor (sb # live) q"
    unfolding laid_out_def
  proof (intro conjI allI impI ballI)
    show "length q = length p" by (rule lenq)
    fix a m
    assume am: "a + m \<le> length p" "a + m \<le> cursor - live_total (sb # live) \<or> cursor \<le> a"
      "\<forall>(t, c) \<in> set (sb # live). a + m \<le> 4 + 8 * unat t \<or> 12 + 8 * unat t \<le> a"
    have "a + m \<le> ?new - ?rest \<or> ?new \<le> a" "a + m \<le> ?new \<or> cursor \<le> a"
      using am(2) tot n by linarith+
    then show "sub_bytes q a m = sub_bytes p a m"
      using frame1 [of a m] frame2 [of a m] am(1,3) by (auto simp: sb)
  qed (use here data low ap ap2 tot n in \<open>auto simp: sb dest: low\<close>)
  moreover have "write_live p cursor (sb # live) = Ok (q, cursor - live_total (sb # live))"
  proof -
    have "\<not> cursor < ?len" "?new - ?rest = cursor - live_total (sb # live)"
      using n tot by linarith+
    then have "(cursor < ?len) = False" "?new - ?rest = cursor - live_total (sb # live)" by simp_all
    then show ?thesis
      by (simp only: sb write_live.simps Let_def p1(1) p2(1) q and_then_simps if_False)
  qed
  ultimately show ?case by blast
qed

lemma live_total_view:
  assumes "page_inv p"
  shows "live_total (map (\<lambda>i. (of_nat i, sub_bytes p (e_off p i) (e_len p i)))
      (filter (live_slot p) [0..<n_slots p])) = used_bytes (page_view p)"
proof -
  have "live_total (map (\<lambda>i. (of_nat i, f i)) (filter P xs)) =
      sum_list (map (\<lambda>i. live_len (if P i then Some (f i) else None)) xs)" for P xs and f :: "nat \<Rightarrow> byte list"
    by (induction xs) (simp_all add: live_total_def live_len_def)
  then show ?thesis by (simp add: used_bytes_def page_view_def slot_view_def comp_def)
qed

lemma compact_spec:
  assumes inv: "page_inv p"
  shows "\<exists>q. compact p = Ok q \<and> page_inv q \<and> length q = length p \<and> page_view q = page_view p
    \<and> data_start q = length p - used_bytes (page_view p)"
proof -
  note f = page_inv_facts [OF inv] and b = page_inv_slots_bound [OF inv] and u = used_bytes_fit [OF inv]
  let ?n = "n_slots p"
  let ?live = "map (\<lambda>i. (of_nat i :: u16, sub_bytes p (e_off p i) (e_len p i))) (filter (live_slot p) [0..<?n])"
  let ?cur = "length p - used_bytes (page_view p)"
  have un: "unat (of_nat i :: u16) = i" if "i < ?n" for i using b that by simp
  have tot: "live_total ?live = used_bytes (page_view p)" by (rule live_total_view [OF inv])
  have "inj_on (of_nat :: nat \<Rightarrow> u16) {..<?n}" by (rule inj_onI) (metis un lessThan_iff)
  then have dist: "distinct (map fst ?live)"
    by (simp add: comp_def distinct_map) (rule inj_on_subset, auto)
  have lo: "4 + 8 * ?n + live_total ?live \<le> length p" using f u tot by linarith
  have "\<forall>(s, c) \<in> set ?live. unat s < ?n" using un by auto
  from write_live_Ok [OF f(2) lo order.refl this dist] obtain p1 where
    w: "write_live p (length p) ?live = Ok (p1, ?cur)" and laid: "laid_out p (length p) ?live p1"
    unfolding tot by blast
  have len1: "length p1 = length p" using laid by (simp add: laid_out_def)
  have frame: "sub_bytes p1 a m = sub_bytes p a m"
    if "a + m \<le> length p" "a + m \<le> ?cur"
      "\<forall>(s, b) \<in> set ?live. a + m \<le> 4 + 8 * unat s \<or> 12 + 8 * unat s \<le> a" for a m
    using laid [unfolded laid_out_def tot] that by blast
  have "4 \<le> length p1" using f(1) len1 by simp
  from set_header_eq [OF this] obtain q where
    q: "set_header p1 (of_nat ?n) (of_nat ?cur) = Ok q" "length q = length p1" "n_slots q = ?n"
    "data_start q = ?cur"
    "\<And>a m. 4 \<le> a \<Longrightarrow> a + m \<le> length p1 \<Longrightarrow> sub_bytes q a m = sub_bytes p1 a m"
  proof -
    have "?cur < 65536" using f(2) by simp
    then have u: "unat (of_nat ?cur :: u16) = ?cur" by (rule unat_of_nat16)
    from set_header_eq [OF \<open>4 \<le> length p1\<close>, where c = "of_nat ?n" and t = "of_nat ?cur"]
    obtain r where r: "set_header p1 (of_nat ?n) (of_nat ?cur) = Ok r" "length r = length p1"
      "n_slots r = ?n" "data_start r = unat (of_nat ?cur :: u16)"
      "\<And>a m. 4 \<le> a \<Longrightarrow> a + m \<le> length p1 \<Longrightarrow> sub_bytes r a m = sub_bytes p1 a m"
      by (metis n_slots_word(1))
    show thesis by (rule that [OF r(1,2,3) _ r(5)]) (simp_all only: r(4) u)
  qed
  have len: "length q = length p" using q len1 by simp
  have q1: "same_entry p1 q i" if "i < ?n" for i
    by (rule same_entryI) (use q len1 f that in auto)
  have lv: "live_slot q i \<and> e_len q i = e_len p i \<and> ?cur \<le> e_off q i \<and> e_off q i + e_len p i \<le> length p
      \<and> sub_bytes q (e_off q i) (e_len q i) = sub_bytes p (e_off p i) (e_len p i)"
    if i: "i < ?n" "live_slot p i" for i
  proof -
    have m: "(of_nat i, sub_bytes p (e_off p i) (e_len p i)) \<in> set ?live" using i by auto
    have l: "length (sub_bytes p (e_off p i) (e_len p i)) = e_len p i"
      using page_inv_slot(1) [OF inv i] by (auto simp: sub_bytes_def)
    have "live_slot p1 i \<and> e_len p1 i = e_len p i \<and> ?cur \<le> e_off p1 i \<and> e_off p1 i + e_len p i \<le> length p
      \<and> sub_bytes p1 (e_off p1 i) (e_len p1 i) = sub_bytes p (e_off p i) (e_len p i)"
      using laid m l un [OF i(1)] tot unfolding laid_out_def by fastforce
    moreover have "4 \<le> ?cur" using f u by linarith
    ultimately show ?thesis
      using same_entry_simps(1,2,4) [OF q1 [OF i(1)]] q(5) [of "e_off p1 i" "e_len p i"] len1 by auto
  qed
  have dead: "e_status q i = STATUS_TOMBSTONE" if i: "i < ?n" "\<not> live_slot p i" for i
  proof -
    have "same_entry p p1 i"
    proof (rule same_entryI [OF len1])
      show "12 + 8 * i \<le> length p" using i f by linarith
      fix a m assume am: "4 + 8 * i \<le> a" "a + m \<le> 12 + 8 * i"
      have k: "unat s + 1 \<le> i \<or> i + 1 \<le> unat s" if "(s, c) \<in> set ?live" for s c
        using that i un by (auto simp: Suc_le_eq) (metis linorder_neqE_nat)
      show "sub_bytes p1 a m = sub_bytes p a m"
      proof (rule frame)
        show "a + m \<le> length p" "a + m \<le> ?cur" using am(2) i(1) f u by linarith+
        show "\<forall>(s, b) \<in> set ?live. a + m \<le> 4 + 8 * unat s \<or> 12 + 8 * unat s \<le> a"
        proof
          fix x assume "x \<in> set ?live"
          moreover obtain s c where x: "x = (s, c)" by (cases x)
          ultimately have "unat s + 1 \<le> i \<or> i + 1 \<le> unat s" using k by blast
          with am have "a + m \<le> 4 + 8 * unat s \<or> 12 + 8 * unat s \<le> a" by linarith
          then show "case x of (s, b) \<Rightarrow> a + m \<le> 4 + 8 * unat s \<or> 12 + 8 * unat s \<le> a"
            by (simp add: x)
        qed
      qed
    qed
    then show ?thesis
      using same_entry_simps [OF q1 [OF i(1)]] page_inv_slot(2) [OF inv i] by (simp add: same_entry_simps)
  qed
  have live_iff: "live_slot q i = live_slot p i" if "i < ?n" for i
    using lv [OF that] dead [OF that] by (cases "live_slot p i") (auto simp: live_slot_def)
  have ap: "apart (e_range q i) (e_range q j)"
    if "i < ?n" "j < ?n" "i \<noteq> j" "live_slot p i" "live_slot p j" for i j
  proof -
    have "(of_nat k, sub_bytes p (e_off p k) (e_len p k)) \<in> set ?live" if "k < ?n" "live_slot p k" for k
      using that by auto
    with that have "apart (e_range p1 i) (e_range p1 j)"
      using laid un [OF that(1)] un [OF that(2)] unfolding laid_out_def by fastforce
    then show ?thesis by (simp add: same_entry_simps(6) [OF q1] that)
  qed
  have "slot_ok q ?cur i" if "i < ?n" for i
    using lv [OF that] dead [OF that] live_iff [OF that] len
    by (cases "live_slot p i") (auto simp: slot_ok_def)
  then have "valid_page q"
    using f u len q(3,4) live_iff ap by (auto simp: valid_page_def counted_def)
  then have "page_inv q" using f len by (simp add: page_inv_iff)
  moreover have "slot_view q i = slot_view p i" if "i < ?n" for i
    using lv [OF that] live_iff [OF that] by (auto simp: slot_view_def)
  then have "page_view q = page_view p"
    by (intro page_view_eqI) (simp_all add: q(3))
  moreover have "compact p = Ok q"
    using w q(1) collect_live_eq [OF inv, of "[0..<?n]"] f(1)
    by (simp add: compact_def read_header_eq)
  ultimately show ?thesis using len q(4) by blast
qed

subsection \<open>The operations against the reference semantics\<close>

lemma used_bytes_update:
  "i < length v \<Longrightarrow> used_bytes (v[i := x]) + live_len (v ! i) = used_bytes v + live_len x"
  by (induction v arbitrary: i) (auto simp: used_bytes_def split: nat.splits)

lemma view_insert_facts:
  assumes "view_insert v bytes = (i, v')"
  shows "used_bytes v' = used_bytes v + length bytes" "i < length v'" "v' ! i = Some bytes"
    "i < length v \<longrightarrow> v ! i = None" "length v \<le> length v'" "i \<le> length v"
    "\<And>j. j < length v \<Longrightarrow> j \<noteq> i \<Longrightarrow> v' ! j = v ! j" "length v' \<le> Suc (max i (length v))"
    "length v' = max (Suc i) (length v)"
proof -
  have "(position (\<lambda>x. x = None) v = None \<and> i = length v \<and> v' = v @ [Some bytes])
      \<or> (i < length v \<and> v ! i = None \<and> v' = v[i := Some bytes])"
    using assms by (auto simp: view_insert_def position_Some_iff split: option.splits)
  then show "used_bytes v' = used_bytes v + length bytes" "i < length v'" "v' ! i = Some bytes"
    "i < length v \<longrightarrow> v ! i = None" "length v \<le> length v'" "i \<le> length v"
    "\<And>j. j < length v \<Longrightarrow> j \<noteq> i \<Longrightarrow> v' ! j = v ! j" "length v' \<le> Suc (max i (length v))"
    "length v' = max (Suc i) (length v)"
    using used_bytes_update [of i v "Some bytes"]
    by (auto simp: used_bytes_def live_len_def nth_append)
qed

text \<open>
  C10: \<open>SlottedPage::insert\<close> on a page that opening accepts never panics and keeps the page acceptable.
  It succeeds exactly when the page's content with the new tuple added still fits (compacting first
  when the free space is fragmented); then it stores the bytes in the lowest tombstone, or in a new
  slot when there is none, and every other slot keeps its content. When it fails, every slot keeps
  its content.
\<close>

lemma slot_insert_exact:
  assumes inv: "page_inv p" and vi: "view_insert (page_view p) bytes = (i, v')"
  shows "\<exists>q. page_inv q \<and> length q = length p
    \<and> (if view_size v' \<le> length p
       then slot_insert p bytes = Ok (Some (of_nat i), q) \<and> page_view q = v'
       else slot_insert p bytes = Ok (None, q) \<and> page_view q = page_view p)"
proof -
  note u = used_bytes_fit [OF inv] and vf = view_insert_facts(1) [OF vi]
  let ?need = "4 + 8 * length v' + length bytes"
  have size: "view_size v' = ?need + used_bytes (page_view p)" by (simp add: view_size_def vf)
  show ?thesis
  proof (cases "?need \<le> data_start p")
    case True
    then have "view_size v' \<le> length p" using u size by linarith
    with True try_insert_spec [OF inv vi] show ?thesis by (auto simp: slot_insert_def)
  next
    case False
    then have t: "try_insert p bytes = Ok (None, p)" using try_insert_spec [OF inv vi] by simp
    obtain q where q: "compact p = Ok q" "page_inv q" "length q = length p" "page_view q = page_view p"
      "data_start q = length p - used_bytes (page_view p)"
      using compact_spec [OF inv] by blast
    have "?need \<le> data_start q \<longleftrightarrow> view_size v' \<le> length p" using q(5) u size by linarith
    then show ?thesis
      using t q try_insert_spec [OF q(2), of bytes i v'] vi by (auto simp: slot_insert_def)
  qed
qed

text \<open>
  C11: \<open>SlottedPage::update\<close> never panics and keeps the page acceptable. On an occupied slot it replaces
  the bytes, in place when the length is the same and otherwise by writing a second copy, so it needs
  room for the new bytes beside the old ones: it fails, changing no content, exactly when that room
  is missing even after compaction. On any other slot it does nothing and returns false.
\<close>

lemma slot_update_exact:
  assumes inv: "page_inv p"
  shows "\<exists>q. page_inv q \<and> length q = length p
    \<and> (let v = page_view p; i = unat s in
       if i < length v \<and> v ! i \<noteq> None
          \<and> (live_len (v ! i) = length bytes \<or> view_size v + length bytes \<le> length p)
       then slot_update p s bytes = Ok (True, q) \<and> page_view q = v[i := Some bytes]
       else slot_update p s bytes = Ok (False, q) \<and> page_view q = v)"
proof (cases "unat s < n_slots p \<and> live_slot p (unat s)")
  case False
  with page_inv_facts [OF inv] inv show ?thesis
    by (auto simp: slot_update_def read_slot_entry_eq slot_view_def live_slot_def Let_def)
next
  case True
  let ?i = "unat s"
  note f = page_inv_facts [OF inv] and u = used_bytes_fit [OF inv]
  have e: "read_slot_entry p s = Ok (Some (of_nat (e_off p ?i), of_nat (e_len p ?i), STATUS_OCCUPIED))"
    using True f by (simp add: read_slot_entry_eq live_slot_def)
  have l: "page_view p ! ?i \<noteq> None" "live_len (page_view p ! ?i) = e_len p ?i"
    using True page_inv_slot(1) [OF inv, of ?i] by (auto simp: slot_view_def live_len_def sub_bytes_def)
  show ?thesis
  proof (cases "length bytes = e_len p ?i")
    case same: True
    from overwrite_live_spec [OF inv _ _ same] True obtain q where
      "put (e_off p ?i) bytes p = Ok q" "page_inv q" "length q = length p"
      "page_view q = (page_view p)[?i := Some bytes]" by blast
    with True l same show ?thesis by (auto simp: slot_update_def e Let_def)
  next
    case diff: False
    let ?need = "4 + 8 * n_slots p + length bytes"
    have size: "view_size (page_view p) + length bytes = ?need + used_bytes (page_view p)"
      by (simp add: view_size_def)
    show ?thesis
    proof (cases "?need \<le> data_start p")
      case fit: True
      then have "view_size (page_view p) + length bytes \<le> length p" using u size by linarith
      with fit try_relocate_spec [OF inv, of s bytes] True l diff show ?thesis
        by (auto simp: slot_update_def e Let_def)
    next
      case False
      then have t: "try_relocate p s bytes = Ok (False, p)"
        using try_relocate_spec [OF inv, of s bytes] True by simp
      obtain q where q: "compact p = Ok q" "page_inv q" "length q = length p" "page_view q = page_view p"
        "data_start q = length p - used_bytes (page_view p)"
        using compact_spec [OF inv] by blast
      have n: "n_slots q = n_slots p" using q(4) by (metis length_page_view)
      have "?need \<le> data_start q \<longleftrightarrow> view_size (page_view p) + length bytes \<le> length p"
        using q(5) u size by linarith
      then show ?thesis
        using t q n True l diff try_relocate_spec [OF q(2), of s bytes]
        by (auto simp: slot_update_def e Let_def)
    qed
  qed
qed

lemma all_unoccupied_eq:
  assumes "page_inv p" "\<forall>i \<in> set is. i < n_slots p"
  shows "all_unoccupied p is = Ok (\<forall>i \<in> set is. slot_view p i = None)"
  using assms(2)
  by (induction "is") (auto simp: read_entry_nat [OF assms(1)] slot_view_def live_slot_def)

lemma slotted_init_spec:
  assumes l: "4 \<le> length p0" "length p0 \<le> 65535"
  shows "\<exists>q. slotted_init p0 = Ok q \<and> page_inv q \<and> page_view q = [] \<and> length q = length p0"
proof -
  have "unat (of_nat (length p0) :: u16) = length p0" using l(2) by (intro unat_of_nat16) simp
  with set_header_eq [OF l(1), where c = 0 and t = "of_nat (length p0)"] obtain q where
    "set_header p0 0 (of_nat (length p0)) = Ok q" "length q = length p0" "n_slots q = 0"
    "data_start q = length p0" by (metis unsigned_0)
  then show ?thesis
    using l by (auto simp: slotted_init_def page_inv_iff valid_page_def page_view_def)
qed

text \<open>
  A payload of at most 65535 bytes becomes an acceptable empty page; on acceptable pages the reads
  never panic and agree with the slots' content, deletion removes exactly one slot's content (and
  says whether there was any), and compaction changes no slot and leaves as free space everything
  that the header, the directory and the live tuples do not use.
\<close>

lemma slotted_page_reads:
  assumes inv: "page_inv p" and l: "4 \<le> length p0" "length p0 \<le> 65535"
  shows "(\<exists>q. slotted_init p0 = Ok q \<and> page_inv q \<and> page_view q = [])
    \<and> slotted_open p = Ok p
    \<and> slot_count p = Ok (length (page_view p))
    \<and> slot_get p s = Ok (if unat s < length (page_view p) then page_view p ! unat s else None)
    \<and> slotted_is_empty p = Ok (\<forall>x \<in> set (page_view p). x = None)
    \<and> (\<exists>q. slot_delete p s = Ok (unat s < length (page_view p) \<and> page_view p ! unat s \<noteq> None, q)
         \<and> page_inv q \<and> page_view q = (page_view p)[unat s := None])
    \<and> (\<exists>q. compact p = Ok q \<and> page_inv q \<and> page_view q = page_view p
         \<and> free_space q = Ok (length p - view_size (page_view p)))"
proof (intro conjI)
  note f = page_inv_facts [OF inv]
  show "\<exists>q. slotted_init p0 = Ok q \<and> page_inv q \<and> page_view q = []"
    using slotted_init_spec [OF l] by blast
  show "slotted_open p = Ok p" using inv by (simp add: slotted_open_def page_inv_def)
  show "slot_count p = Ok (length (page_view p))" using f by (simp add: slot_count_def read_header_eq)
  show "slot_get p s = Ok (if unat s < length (page_view p) then page_view p ! unat s else None)"
    using slot_get_view [OF inv] by simp
  show "slotted_is_empty p = Ok (\<forall>x \<in> set (page_view p). x = None)"
    using f all_unoccupied_eq [OF inv, of "[0..<n_slots p]"]
    by (simp add: slotted_is_empty_def read_header_eq page_view_def)
  show "\<exists>q. slot_delete p s = Ok (unat s < length (page_view p) \<and> page_view p ! unat s \<noteq> None, q)
      \<and> page_inv q \<and> page_view q = (page_view p)[unat s := None]"
    using slot_delete_spec [OF inv, of s] by (auto simp: list_update_beyond not_less)
  obtain q where q: "compact p = Ok q" "page_inv q" "length q = length p" "page_view q = page_view p"
    "data_start q = length p - used_bytes (page_view p)" using compact_spec [OF inv] by blast
  have n: "n_slots q = n_slots p" using q(4) by (metis length_page_view)
  have "free_space q = Ok (data_start q - (4 + 8 * n_slots q))"
    using page_inv_facts [OF q(2)]
    by (simp add: free_space_def read_header_eq directory_end_def SLOTTED_HEADER_SIZE_def
        SLOT_ENTRY_SIZE_def mult.commute)
  moreover have "data_start q - (4 + 8 * n_slots q) = length p - view_size (page_view p)"
    unfolding q(5) n by (simp add: view_size_def)
  ultimately have "free_space q = Ok (length p - view_size (page_view p))" by simp
  with q show "\<exists>q. compact p = Ok q \<and> page_inv q \<and> page_view q = page_view p
      \<and> free_space q = Ok (length p - view_size (page_view p))" by blast
qed

subsection \<open>The page as a store of records\<close>

text \<open>
  What the heap file relies on: slots that map to byte strings, with insertion into an unused slot.
\<close>

locale slot_store =
  fixes inv :: "'p \<Rightarrow> bool"
    and content :: "'p \<Rightarrow> nat \<Rightarrow> byte list option"
    and get :: "'p \<Rightarrow> u16 \<Rightarrow> byte list option outcome"
    and ins :: "'p \<Rightarrow> byte list \<Rightarrow> (u16 option \<times> 'p) outcome"
    and upd :: "'p \<Rightarrow> u16 \<Rightarrow> byte list \<Rightarrow> (bool \<times> 'p) outcome"
    and del :: "'p \<Rightarrow> u16 \<Rightarrow> (bool \<times> 'p) outcome"
  assumes get_content: "inv p \<Longrightarrow> get p s = Ok (content p (unat s))"
    and ins_law: "inv p \<Longrightarrow> \<exists>r q. ins p b = Ok (r, q) \<and> inv q
      \<and> (case r of
           None \<Rightarrow> content q = content p
         | Some s \<Rightarrow> content p (unat s) = None \<and> content q = (content p)(unat s := Some b))"
    and upd_law: "inv p \<Longrightarrow> \<exists>r q. upd p s b = Ok (r, q) \<and> inv q
      \<and> (if r then content p (unat s) \<noteq> None \<and> content q = (content p)(unat s := Some b)
         else content q = content p)"
    and del_law: "inv p \<Longrightarrow> \<exists>q. del p s = Ok (content p (unat s) \<noteq> None, q) \<and> inv q
      \<and> content q = (content p)(unat s := None)"
begin

lemma get_after_ins:
  "inv p \<Longrightarrow> ins p b = Ok (Some s, q) \<Longrightarrow>
   get p s = Ok None \<and> get q s = Ok (Some b) \<and> (t \<noteq> s \<longrightarrow> get q t = get p t)"
  using ins_law [of p b] by (auto simp: get_content word_eq_iff_unsigned [symmetric])

end

text \<open>Running a sequence of operations, with the answer of each.\<close>

datatype page_op = OpInsert "byte list" | OpUpdate u16 "byte list" | OpDelete u16
datatype page_answer = Inserted "u16 option" | Changed bool

fun run_ops :: "('p \<Rightarrow> byte list \<Rightarrow> (u16 option \<times> 'p) outcome) \<Rightarrow> ('p \<Rightarrow> u16 \<Rightarrow> byte list \<Rightarrow> (bool \<times> 'p) outcome)
    \<Rightarrow> ('p \<Rightarrow> u16 \<Rightarrow> (bool \<times> 'p) outcome) \<Rightarrow> page_op list \<Rightarrow> 'p \<Rightarrow> (page_answer list \<times> 'p) outcome" where
  "run_ops ins upd del [] p = Ok ([], p)"
| "run_ops ins upd del (opr # ops) p =
    and_then
      (case opr of
         OpInsert b \<Rightarrow> and_then (ins p b) (\<lambda>(r, q). Ok (Inserted r, q))
       | OpUpdate s b \<Rightarrow> and_then (upd p s b) (\<lambda>(r, q). Ok (Changed r, q))
       | OpDelete s \<Rightarrow> and_then (del p s) (\<lambda>(r, q). Ok (Changed r, q)))
      (\<lambda>(a, q). and_then (run_ops ins upd del ops q) (\<lambda>(as, q'). Ok (a # as, q')))"

text \<open>The map that the answered operations describe.\<close>

fun replay_op :: "(nat \<Rightarrow> byte list option) \<Rightarrow> page_op \<times> page_answer \<Rightarrow> (nat \<Rightarrow> byte list option)" where
  "replay_op m (OpInsert b, Inserted (Some s)) = m(unat s := Some b)"
| "replay_op m (OpUpdate s b, Changed True) = m(unat s := Some b)"
| "replay_op m (OpDelete s, Changed True) = m(unat s := None)"
| "replay_op m _ = m"

context slot_store
begin

lemma run_ops_replay:
  "inv p \<Longrightarrow> \<exists>as q. run_ops ins upd del ops p = Ok (as, q) \<and> inv q \<and> length as = length ops
     \<and> content q = foldl replay_op (content p) (zip ops as)"
proof (induction ops arbitrary: p)
  case (Cons opr ops)
  have "\<exists>a q. (case opr of
         OpInsert b \<Rightarrow> and_then (ins p b) (\<lambda>(r, q). Ok (Inserted r, q))
       | OpUpdate s b \<Rightarrow> and_then (upd p s b) (\<lambda>(r, q). Ok (Changed r, q))
       | OpDelete s \<Rightarrow> and_then (del p s) (\<lambda>(r, q). Ok (Changed r, q))) = Ok (a, q)
     \<and> inv q \<and> content q = replay_op (content p) (opr, a)"
  proof (cases opr)
    case (OpInsert b)
    with ins_law [OF Cons.prems, of b] show ?thesis by (force split: option.splits)
  next
    case (OpUpdate s b)
    with upd_law [OF Cons.prems, of s b] show ?thesis by (force split: if_splits)
  next
    case (OpDelete s)
    have "content p (unat s) = None \<Longrightarrow> (content p)(unat s := None) = content p" by auto
    with del_law [OF Cons.prems, of s] OpDelete show ?thesis by (cases "content p (unat s)") auto
  qed
  then obtain a q where "inv q" and step: "(case opr of
         OpInsert b \<Rightarrow> and_then (ins p b) (\<lambda>(r, q). Ok (Inserted r, q))
       | OpUpdate s b \<Rightarrow> and_then (upd p s b) (\<lambda>(r, q). Ok (Changed r, q))
       | OpDelete s \<Rightarrow> and_then (del p s) (\<lambda>(r, q). Ok (Changed r, q))) = Ok (a, q)"
    "content q = replay_op (content p) (opr, a)" by blast
  with Cons.IH [OF \<open>inv q\<close>] show ?case by auto
qed simp

end

definition page_content :: "byte list \<Rightarrow> nat \<Rightarrow> byte list option" where
  "page_content p i = (if i < length (page_view p) then page_view p ! i else None)"

lemma page_content_update:
  "page_view q = (page_view p)[i := x] \<Longrightarrow> i < length (page_view p) \<or> x = None \<Longrightarrow>
   page_content q = (page_content p)(i := x)"
proof -
  assume q: "page_view q = (page_view p)[i := x]" and i: "i < length (page_view p) \<or> x = None"
  have "length (page_view q) = length (page_view p)" by (simp only: q length_list_update)
  with q i show ?thesis
    by (auto simp: page_content_def fun_eq_iff nth_list_update simp del: length_page_view)
qed

interpretation sp: slot_store page_inv page_content slot_get slot_insert slot_update slot_delete
proof
  fix p s b
  assume inv: "page_inv p"
  show "slot_get p s = Ok (page_content p (unat s))"
    using slot_get_view [OF inv] by (simp add: page_content_def)
  obtain i v' where vi: "view_insert (page_view p) b = (i, v')" by (cases "view_insert (page_view p) b")
  obtain q where q: "page_inv q" "length q = length p"
    "if view_size v' \<le> length p
       then slot_insert p b = Ok (Some (of_nat i), q) \<and> page_view q = v'
       else slot_insert p b = Ok (None, q) \<and> page_view q = page_view p"
    using slot_insert_exact [OF inv vi] by blast
  note vf = view_insert_facts [OF vi]
  have "i < 65536" using vf(6) page_inv_slots_bound [OF inv] by simp
  then have i: "unat (of_nat i :: u16) = i" by simp
  have c: "page_content p i = None" using vf(4) by (simp add: page_content_def)
  have c': "page_content q = (page_content p)(i := Some b)" if v: "page_view q = v'"
  proof
    fix j
    have "length (page_view q) = max (Suc i) (length (page_view p))" by (simp only: v vf(9))
    then show "page_content q j = ((page_content p)(i := Some b)) j"
      using vf(3,6,7) v c by (auto simp: page_content_def simp del: length_page_view)
  qed
  show "\<exists>r q. slot_insert p b = Ok (r, q) \<and> page_inv q
      \<and> (case r of
           None \<Rightarrow> page_content q = page_content p
         | Some s \<Rightarrow> page_content p (unat s) = None \<and> page_content q = (page_content p)(unat s := Some b))"
  proof (cases "view_size v' \<le> length p")
    case True
    with q c c' i show ?thesis by auto
  next
    case False
    with q have "page_content q = page_content p" by (simp add: page_content_def fun_eq_iff del: length_page_view)
    with False q show ?thesis by auto
  qed
  obtain q2 where q2: "page_inv q2" "let v = page_view p; i = unat s in
       if i < length v \<and> v ! i \<noteq> None
          \<and> (live_len (v ! i) = length b \<or> view_size v + length b \<le> length p)
       then slot_update p s b = Ok (True, q2) \<and> page_view q2 = v[i := Some b]
       else slot_update p s b = Ok (False, q2) \<and> page_view q2 = v"
    using slot_update_exact [OF inv] by blast
  have "page_view q2 = page_view p \<Longrightarrow> page_content q2 = page_content p"
    by (simp add: page_content_def fun_eq_iff del: length_page_view)
  then show "\<exists>r q. slot_update p s b = Ok (r, q) \<and> page_inv q
      \<and> (if r then page_content p (unat s) \<noteq> None \<and> page_content q = (page_content p)(unat s := Some b)
         else page_content q = page_content p)"
    using q2 page_content_update [of q2 p "unat s" "Some b"]
    by (auto simp: Let_def page_content_def [of p] split: if_splits)
  obtain q3 where q3: "slot_delete p s = Ok (unat s < length (page_view p) \<and> page_view p ! unat s \<noteq> None, q3)"
    "page_inv q3" "page_view q3 = (page_view p)[unat s := None]"
    using slot_delete_spec [OF inv, of s] by (auto simp: list_update_beyond not_less)
  then show "\<exists>q. slot_delete p s = Ok (page_content p (unat s) \<noteq> None, q) \<and> page_inv q
      \<and> page_content q = (page_content p)(unat s := None)"
    using page_content_update [OF q3(3)] by (auto simp: page_content_def [of p])
qed

text \<open>
  C10: the slotted page implements a map from slots to byte strings: from any acceptable page, any
  sequence of insertions, updates and deletions runs without a panic, and the final content is the
  initial content changed by exactly the operations that reported success, in order.
\<close>

theorem slotted_page_refines_map:
  assumes "page_inv p"
  shows "\<exists>as q. run_ops slot_insert slot_update slot_delete ops p = Ok (as, q)
    \<and> page_inv q \<and> length as = length ops
    \<and> (\<forall>s. slot_get q s = Ok (foldl replay_op (page_content p) (zip ops as) (unat s)))"
  using sp.run_ops_replay [OF assms, of ops] sp.get_content by metis

subsection \<open>Witnesses\<close>

lemma sample_page: "\<exists>p. slotted_init (replicate 32 0) = Ok p \<and> page_inv p \<and> page_view p = [] \<and> length p = 32"
  using slotted_init_spec [of "replicate 32 0"] by simp

lemma slot_insert_exact_witness:
  "\<exists>p q. slotted_init (replicate 32 0) = Ok p \<and> slot_insert p [7, 8] = Ok (Some 0, q)
    \<and> page_view q = [Some [7, 8]]"
proof -
  obtain p where p: "slotted_init (replicate 32 0) = Ok p" "page_inv p" "page_view p = []" "length p = 32"
    using sample_page by blast
  have "view_insert (page_view p) [7, 8] = (0, [Some [7, 8]])" by (simp add: p view_insert_def)
  from slot_insert_exact [OF p(2) this] p(1) show ?thesis
    by (auto simp: view_size_def used_bytes_def live_len_def p)
qed

lemma slot_update_exact_witness:
  "\<exists>p q. slotted_init (replicate 32 0) = Ok p \<and> slot_update p 0 [7] = Ok (False, q) \<and> page_view q = []"
proof -
  obtain p where p: "slotted_init (replicate 32 0) = Ok p" "page_inv p" "page_view p = []"
    using sample_page by blast
  from slot_update_exact [OF p(2), of 0 "[7]"] p show ?thesis
    by (auto simp: Let_def length_page_view [symmetric] simp del: length_page_view)
qed

lemma slotted_page_reads_witness:
  "\<exists>p. slotted_init (replicate 32 0) = Ok p \<and> slotted_open p = Ok p \<and> slotted_is_empty p = Ok True"
proof -
  obtain p where p: "slotted_init (replicate 32 0) = Ok p" "page_inv p" "page_view p = []"
    using sample_page by blast
  from slotted_page_reads [OF p(2), of "replicate 10 0"] p show ?thesis by auto
qed

theorem slotted_page_refines_map_witness:
  "\<exists>p as q. slotted_init (replicate 32 0) = Ok p
    \<and> run_ops slot_insert slot_update slot_delete [OpInsert [5], OpDelete 0] p = Ok (as, q) \<and> page_inv q"
proof -
  obtain p where p: "slotted_init (replicate 32 0) = Ok p" "page_inv p" using sample_page by blast
  from slotted_page_refines_map [OF p(2), of "[OpInsert [5], OpDelete 0]"] p(1) show ?thesis by blast
qed

end
