(* ===== verification/Types.thy ===== *)
theory Types
  imports Errors
begin

text \<open>
  The relational types of \<open>src/src/types.rs\<close>: data types, values and their total order, columns,
  schemas, tuples and the row environment of expression evaluation. A BIGINT is a 64-bit word read
  by \<open>sint\<close>.
\<close>

subsection \<open>Values\<close>

datatype val = VNull | VBoolean bool | VBigInt i64 | VText string

definition from_sql_name :: "string \<Rightarrow> data_type option" where
  "from_sql_name name =
     (let n = to_ascii_uppercase name in
      if n = ''BIGINT'' then Some TBigInt
      else if n = ''TEXT'' then Some TText
      else if n = ''BOOLEAN'' then Some TBoolean
      else None)"

fun data_type_display :: "data_type \<Rightarrow> string" where
  "data_type_display TBoolean = ''BOOLEAN''"
| "data_type_display TBigInt = ''BIGINT''"
| "data_type_display TText = ''TEXT''"

fun type_of :: "val \<Rightarrow> data_type option" where
  "type_of VNull = None"
| "type_of (VBoolean _) = Some TBoolean"
| "type_of (VBigInt _) = Some TBigInt"
| "type_of (VText _) = Some TText"

fun is_null :: "val \<Rightarrow> bool" where
  "is_null VNull = True"
| "is_null _ = False"

fun value_display :: "val \<Rightarrow> string" where
  "value_display VNull = ''NULL''"
| "value_display (VBoolean b) = (if b then ''true'' else ''false'')"
| "value_display (VBigInt n) = show_i64 n"
| "value_display (VText s) = s"

datatype ordering = Less | Equal | Greater

definition cmp :: "'a :: linorder \<Rightarrow> 'a \<Rightarrow> ordering" where
  "cmp x y = (if x < y then Less else if x = y then Equal else Greater)"

text \<open>\<open>Panic\<close> is the \<open>unreachable!\<close> arm: two values of different types.\<close>

fun compare_values :: "val \<Rightarrow> val \<Rightarrow> ordering outcome" where
  "compare_values VNull VNull = Ok Equal"
| "compare_values VNull _ = Ok Less"
| "compare_values _ VNull = Ok Greater"
| "compare_values (VBigInt x) (VBigInt y) = Ok (cmp (sint x) (sint y))"
| "compare_values (VText x) (VText y) = Ok (cmp x y)"
| "compare_values (VBoolean x) (VBoolean y) = Ok (cmp x y)"
| "compare_values _ _ = Panic"

subsection \<open>Columns, schemas, tuples\<close>

record column =
  col_name :: string
  col_type :: data_type
  nullable :: bool
  primary_key :: bool
  unique :: bool

definition column_new :: "string \<Rightarrow> data_type \<Rightarrow> bool \<Rightarrow> column" where
  "column_new n t nl =
     \<lparr>col_name = n, col_type = t, nullable = nl, primary_key = False, unique = False\<rparr>"

definition with_primary_key :: "column \<Rightarrow> column" where
  "with_primary_key c = c\<lparr>primary_key := True, nullable := False\<rparr>"

definition with_unique :: "column \<Rightarrow> column" where
  "with_unique c = c\<lparr>unique := True\<rparr>"

definition conforms_to :: "val \<Rightarrow> column \<Rightarrow> bool" where
  "conforms_to v c = (case type_of v of None \<Rightarrow> nullable c | Some t \<Rightarrow> t = col_type c)"

record schema =
  columns :: "column list"

definition schema_len :: "schema \<Rightarrow> nat" where
  "schema_len s = length (columns s)"

definition unique_constrained_columns :: "schema \<Rightarrow> (nat \<times> column) list" where
  "unique_constrained_columns s =
     filter (\<lambda>(i, c). primary_key c \<or> unique c) (enumerate 0 (columns s))"

definition index_of :: "schema \<Rightarrow> string \<Rightarrow> nat option" where
  "index_of s n = position (\<lambda>c. col_name c = n) (columns s)"

definition column_named :: "schema \<Rightarrow> string \<Rightarrow> column option" where
  "column_named s n = List.find (\<lambda>c. col_name c = n) (columns s)"

fun check_values :: "(val \<times> column) list \<Rightarrow> unit outcome" where
  "check_values [] = Ok ()"
| "check_values ((v, c) # r) = (if \<not> conforms_to v c then Err SchemaMismatch else check_values r)"

definition validate_tuple :: "schema \<Rightarrow> val list \<Rightarrow> unit outcome" where
  "validate_tuple s vs =
     (if length vs \<noteq> length (columns s) then Err SchemaMismatch
      else check_values (zip vs (columns s)))"

record tuple =
  tup_values :: "val list"

definition tuple_new :: "schema \<Rightarrow> val list \<Rightarrow> tuple outcome" where
  "tuple_new s vs = and_then (validate_tuple s vs) (\<lambda>_. Ok \<lparr>tup_values = vs\<rparr>)"

definition tuple_get :: "tuple \<Rightarrow> nat \<Rightarrow> val option" where
  "tuple_get t i = get_at (tup_values t) i"

definition get_by_name :: "tuple \<Rightarrow> schema \<Rightarrow> string \<Rightarrow> val option" where
  "get_by_name t s n = do { i \<leftarrow> index_of s n; tuple_get t i }"

record row =
  row_schema :: schema
  row_tuple :: tuple

definition row_get :: "row \<Rightarrow> string \<Rightarrow> val option" where
  "row_get r n = get_by_name (row_tuple r) (row_schema r) n"

definition get_index :: "row \<Rightarrow> nat \<Rightarrow> val option" where
  "get_index r i = tuple_get (row_tuple r) i"

subsection \<open>The order of values\<close>

lemma cmp_simps [simp]:
  "cmp x y = Less \<longleftrightarrow> x < y" "cmp x y = Equal \<longleftrightarrow> x = y" "cmp x y = Greater \<longleftrightarrow> y < x"
  by (auto simp: cmp_def)

text \<open>Values that may occur in one expression or one column of type \<open>t\<close>.\<close>

definition of_type :: "data_type \<Rightarrow> val \<Rightarrow> bool" where
  "of_type t v = (v = VNull \<or> type_of v = Some t)"

lemma of_type_simps [simp]:
  "of_type t VNull"
  "of_type t (VBoolean b) \<longleftrightarrow> t = TBoolean"
  "of_type t (VBigInt n) \<longleftrightarrow> t = TBigInt"
  "of_type t (VText s) \<longleftrightarrow> t = TText"
  by (auto simp: of_type_def)

lemma of_type_cases:
  assumes "of_type t v"
  obtains "v = VNull"
  | b where "t = TBoolean" "v = VBoolean b"
  | n where "t = TBigInt" "v = VBigInt n"
  | s where "t = TText" "v = VText s"
  using assms by (cases v) auto

lemma sint_eq_iff [simp]: "sint (x :: i64) = sint y \<longleftrightarrow> x = y"
  by (auto intro: signed_word_eqI)

lemma conforms_to_of_type: "conforms_to v c \<Longrightarrow> of_type (col_type c) v"
  by (cases v) (auto simp: conforms_to_def)

lemma compare_values_defined:
  "of_type t a \<Longrightarrow> of_type t b \<Longrightarrow> \<exists>o'. compare_values a b = Ok o'"
  by (elim of_type_cases) auto

lemma compare_values_Equal_iff: "compare_values a b = Ok Equal \<longleftrightarrow> a = b"
  by (induction a b rule: compare_values.induct) auto

lemma compare_values_flip: "compare_values a b = Ok Less \<longleftrightarrow> compare_values b a = Ok Greater"
  by (induction a b rule: compare_values.induct) auto

lemma compare_values_trans:
  "compare_values a b = Ok Less \<Longrightarrow> compare_values b c = Ok Less \<Longrightarrow>
   compare_values a c = Ok Less"
  by (cases a; cases b; cases c) auto

text \<open>
  C1: on NULL and the values of one type, \<open>compare_values\<close> never reaches its \<open>unreachable!\<close> arm and
  is a total order: exactly equal values compare \<open>Equal\<close>, swapping the arguments swaps \<open>Less\<close> and
  \<open>Greater\<close>, \<open>Less\<close> is transitive, and NULL is below every other value.
\<close>

theorem compare_values_total_order:
  assumes "of_type t a" "of_type t b" "of_type t c"
  shows "(\<exists>r. compare_values a b = Ok r)
    \<and> (compare_values a b = Ok Equal \<longleftrightarrow> a = b)
    \<and> (compare_values a b = Ok Less \<longleftrightarrow> compare_values b a = Ok Greater)
    \<and> (compare_values a b = Ok Less \<and> compare_values b c = Ok Less
        \<longrightarrow> compare_values a c = Ok Less)
    \<and> (a \<noteq> VNull \<longrightarrow> compare_values VNull a = Ok Less)"
proof -
  have "a \<noteq> VNull \<longrightarrow> compare_values VNull a = Ok Less" by (cases a) simp_all
  then show ?thesis
    using compare_values_defined [OF assms(1,2)] compare_values_flip [of a b]
    by (auto simp: compare_values_Equal_iff intro: compare_values_trans)
qed

theorem compare_values_total_order_witness:
  "compare_values (VBigInt (- 1)) (VBigInt 0) = Ok Less"
  using compare_values_total_order [of TBigInt "VBigInt (- 1)" "VBigInt 0" "VBigInt 0"]
  by simp

subsection \<open>Schema validation\<close>

lemma check_values_iff: "check_values xs = Ok u \<longleftrightarrow> (\<forall>(v, c) \<in> set xs. conforms_to v c)"
  by (induction xs rule: check_values.induct) auto

lemma check_values_error: "check_values xs = Err e \<Longrightarrow> e = SchemaMismatch"
  by (induction xs rule: check_values.induct) (auto split: if_splits)

lemma validate_tuple_iff:
  "validate_tuple s vs = Ok () \<longleftrightarrow> list_all2 conforms_to vs (columns s)"
  by (auto simp: validate_tuple_def check_values_iff list_all2_iff)

lemma validate_tuple_error: "validate_tuple s vs = Err e \<Longrightarrow> e = SchemaMismatch"
  by (auto simp: validate_tuple_def dest: check_values_error split: if_splits)

lemma validate_tuple_no_panic: "validate_tuple s vs \<noteq> Panic"
proof -
  have "check_values xs \<noteq> Panic" for xs by (induction xs rule: check_values.induct) auto
  then show ?thesis by (simp add: validate_tuple_def)
qed

lemma tuple_new_iff:
  "tuple_new s vs = Ok t \<longleftrightarrow> t = \<lparr>tup_values = vs\<rparr> \<and> list_all2 conforms_to vs (columns s)"
  by (auto simp: tuple_new_def and_then_Ok_iff validate_tuple_iff)

lemma index_of_column:
  "index_of s n = Some i \<longleftrightarrow>
     i < length (columns s) \<and> col_name (columns s ! i) = n
     \<and> (\<forall>j < i. col_name (columns s ! j) \<noteq> n)"
  by (simp add: index_of_def position_Some_iff)

text \<open>
  C2: \<open>Tuple::new\<close> accepts exactly the value lists that conform to the schema column by column (same
  length, NULL only in nullable columns, types equal), rejects everything else with
  \<open>SchemaMismatch\<close>, and a tuple it builds answers \<open>get_by_name\<close> on a name of the schema with the value
  of the first column so named, which conforms to that column.
\<close>

lemma tuple_new_exact:
  "(list_all2 conforms_to vs (columns s) \<longrightarrow> tuple_new s vs = Ok \<lparr>tup_values = vs\<rparr>)
   \<and> (\<not> list_all2 conforms_to vs (columns s) \<longrightarrow> tuple_new s vs = Err SchemaMismatch)
   \<and> (\<forall>t n. tuple_new s vs = Ok t \<and> n \<in> col_name ` set (columns s) \<longrightarrow>
        (\<exists>i < length vs. index_of s n = Some i \<and> get_by_name t s n = Some (vs ! i)
           \<and> conforms_to (vs ! i) (columns s ! i)))"
proof (intro conjI allI impI)
  assume "list_all2 conforms_to vs (columns s)"
  then show "tuple_new s vs = Ok \<lparr>tup_values = vs\<rparr>" by (simp add: tuple_new_iff)
next
  assume n: "\<not> list_all2 conforms_to vs (columns s)"
  show "tuple_new s vs = Err SchemaMismatch"
  proof (cases "validate_tuple s vs")
    case (Err e)
    then show ?thesis using validate_tuple_error [OF Err] by (simp add: tuple_new_def)
  next
    case (Ok u)
    with n show ?thesis by (simp add: validate_tuple_iff)
  next
    case Panic
    then show ?thesis by (simp add: validate_tuple_no_panic)
  qed
next
  fix t n
  assume a: "tuple_new s vs = Ok t \<and> n \<in> col_name ` set (columns s)"
  then have t: "t = \<lparr>tup_values = vs\<rparr>" and c: "list_all2 conforms_to vs (columns s)"
    by (simp_all add: tuple_new_iff)
  obtain i where i: "index_of s n = Some i"
    using a position_None_iff [of "\<lambda>c. col_name c = n" "columns s"]
    by (cases "index_of s n") (auto simp: index_of_def)
  then have "i < length vs" using c by (simp add: index_of_column list_all2_lengthD)
  moreover have "conforms_to (vs ! i) (columns s ! i)"
    using c \<open>i < length vs\<close> by (rule list_all2_nthD)
  ultimately show "\<exists>i < length vs. index_of s n = Some i \<and> get_by_name t s n = Some (vs ! i)
      \<and> conforms_to (vs ! i) (columns s ! i)"
    using i by (auto simp: get_by_name_def tuple_get_def t get_at_def)
qed

lemma tuple_new_exact_witness:
  "tuple_new \<lparr>columns = [column_new ''id'' TBigInt False]\<rparr> [VNull] = Err SchemaMismatch"
  using tuple_new_exact [of "[VNull]" "\<lparr>columns = [column_new ''id'' TBigInt False]\<rparr>"]
  by (simp add: column_new_def conforms_to_def)

end
