(* ===== verification/Tuple_Codec.thy ===== *)
theory Tuple_Codec
  imports Types Codec
begin

unbundle bit_operations_syntax

text \<open>
  The stored form of a tuple (\<open>src/src/tuple_codec.rs\<close>): a NULL bitmap of one bit per column, then
  the non-NULL values in column order, BOOLEAN as one byte, BIGINT as eight little-endian bytes,
  TEXT as a 32-bit length and its UTF-8 bytes.
\<close>

definition null_bitmap_len :: "nat \<Rightarrow> nat" where
  "null_bitmap_len n = (n + 7) div 8"

definition set_null_bit :: "byte list \<Rightarrow> nat \<Rightarrow> byte list" where
  "set_null_bit bm i = bm[i div 8 := bm ! (i div 8) OR push_bit (i mod 8) 1]"

definition null_bit :: "byte list \<Rightarrow> nat \<Rightarrow> bool" where
  "null_bit bm i = ((bm ! (i div 8)) AND push_bit (i mod 8) 1 \<noteq> 0)"

fun encode_value :: "val \<Rightarrow> byte list" where
  "encode_value VNull = []"
| "encode_value (VBoolean b) = [if b then 1 else 0]"
| "encode_value (VBigInt n) = le64 n"
| "encode_value (VText s) = le32 (of_nat (length s)) @ bytes_of s"

text \<open>The loop over the values, with the bitmap and the body built so far.\<close>

fun encode_values :: "nat \<Rightarrow> byte list \<Rightarrow> byte list \<Rightarrow> val list \<Rightarrow> byte list \<times> byte list" where
  "encode_values i bm body [] = (bm, body)"
| "encode_values i bm body (v # vs) =
    encode_values (Suc i) (if is_null v then set_null_bit bm i else bm) (body @ encode_value v) vs"

text \<open>A tuple of another length than the schema fails the \<open>debug_assert_eq!\<close>.\<close>

definition encode_tuple :: "schema \<Rightarrow> tuple \<Rightarrow> byte list outcome" where
  "encode_tuple s t =
     (let vs = tup_values t in
      if length vs \<noteq> schema_len s then Panic
      else let (bm, body) = encode_values 0 (replicate (null_bitmap_len (length vs)) 0) [] vs
        in Ok (bm @ body))"

fun decode_value :: "data_type \<Rightarrow> byte list \<Rightarrow> nat \<Rightarrow> (val \<times> nat) outcome" where
  "decode_value TBoolean bs c =
    and_then (ok_or CorruptTuple (get_at bs c)) (\<lambda>b.
    if b = 0 then Ok (VBoolean False, c + 1)
    else if b = 1 then Ok (VBoolean True, c + 1)
    else Err CorruptTuple)"
| "decode_value TBigInt bs c =
    and_then (read_bytes CorruptTuple bs c 8) (\<lambda>(xs, c1). Ok (VBigInt (from_le64 xs), c1))"
| "decode_value TText bs c =
    and_then (read_bytes CorruptTuple bs c 4) (\<lambda>(lb, c1).
    and_then (read_bytes CorruptTuple bs c1 (unat (from_le32 lb))) (\<lambda>(tb, c2).
    and_then (ok_or CorruptTuple (from_utf8 tb)) (\<lambda>s. Ok (VText s, c2))))"

fun decode_columns :: "byte list \<Rightarrow> nat \<Rightarrow> column list \<Rightarrow> byte list \<Rightarrow> nat \<Rightarrow> (val list \<times> nat) outcome"
where
  "decode_columns bm i [] bs c = Ok ([], c)"
| "decode_columns bm i (col # cols) bs c =
    and_then (if null_bit bm i then Ok (VNull, c) else decode_value (col_type col) bs c) (\<lambda>(v, c1).
    and_then (decode_columns bm (Suc i) cols bs c1) (\<lambda>(vs, c2). Ok (v # vs, c2)))"

definition decode_tuple :: "schema \<Rightarrow> byte list \<Rightarrow> tuple outcome" where
  "decode_tuple s bs =
     (let len = null_bitmap_len (schema_len s) in
      if length bs < len then Err CorruptTuple
      else and_then (decode_columns (take len bs) 0 (columns s) bs len) (\<lambda>(vs, c).
        if c \<noteq> length bs then Err CorruptTuple else tuple_new s vs))"

subsection \<open>Bitmap\<close>

lemma null_bit_iff: "null_bit bm i \<longleftrightarrow> bit (bm ! (i div 8)) (i mod 8)"
  unfolding null_bit_def by (simp add: bit_iff_and_push_bit_not_eq_0)

lemma length_set_null_bit [simp]: "length (set_null_bit bm i) = length bm"
  by (simp add: set_null_bit_def)

lemma null_bit_set:
  assumes "i div 8 < length bm"
  shows "null_bit (set_null_bit bm i) j \<longleftrightarrow> null_bit bm j \<or> i = j"
proof -
  have "i = j \<longleftrightarrow> i div 8 = j div 8 \<and> i mod 8 = j mod 8"
    by (metis div_mult_mod_eq)
  moreover have "bit (push_bit (i mod 8) (1 :: byte)) (j mod 8) \<longleftrightarrow> i mod 8 = j mod 8"
    by (auto simp: bit_exp_iff)
  ultimately show ?thesis
    using assms by (auto simp: null_bit_iff set_null_bit_def nth_list_update bit_or_iff)
qed

lemma null_bit_zero: "i div 8 < n \<Longrightarrow> \<not> null_bit (replicate n 0) i"
  by (simp add: null_bit_iff)

lemma encode_values_body:
  "snd (encode_values i bm body vs) = body @ concat (map encode_value vs)"
  by (induction i bm body vs rule: encode_values.induct) auto

lemma length_encode_bitmap [simp]: "length (fst (encode_values i bm body vs)) = length bm"
  by (induction i bm body vs rule: encode_values.induct) auto

lemma null_bit_encode:
  "i + length vs \<le> 8 * length bm \<Longrightarrow>
   null_bit (fst (encode_values i bm body vs)) j \<longleftrightarrow>
     null_bit bm j \<or> (i \<le> j \<and> j < i + length vs \<and> is_null (vs ! (j - i)))"
proof (induction i bm body vs rule: encode_values.induct)
  case (2 i bm body v vs)
  let ?bm = "if is_null v then set_null_bit bm i else bm"
  have i: "i div 8 < length bm" using 2 by auto
  have "null_bit (fst (encode_values (Suc i) ?bm (body @ encode_value v) vs)) j \<longleftrightarrow>
      null_bit ?bm j \<or> (Suc i \<le> j \<and> j < Suc i + length vs \<and> is_null (vs ! (j - Suc i)))"
    using 2 by auto
  also have "null_bit ?bm j \<longleftrightarrow> null_bit bm j \<or> (is_null v \<and> i = j)"
    using null_bit_set [OF i] by auto
  finally show ?case
    by (cases "i = j") (auto simp: nth_Cons' Suc_le_eq)
qed auto

subsection \<open>Values\<close>

text \<open>A Rust string is valid UTF-8; a length that does not fit 32 bits is truncated by \<open>as u32\<close>.\<close>

definition storable :: "data_type \<Rightarrow> val \<Rightarrow> bool" where
  "storable t v =
     (type_of v = Some t
      \<and> (case v of VText s \<Rightarrow> utf8 (bytes_of s) \<and> length s < 2 ^ 32 | _ \<Rightarrow> True))"

lemma le32_length_value:
  "n < 2 ^ 32 \<Longrightarrow> unat (from_le32 (le32 (of_nat n))) = n"
  by (simp add: unat_of_nat take_bit_nat_eq_self)

interpretation value_codec: cursor_codec encode_value "decode_value t" "storable t" for t
proof
  fix v c bs r
  assume v: "storable t v" and c: "c \<le> length bs" and d: "drop c bs = encode_value v @ r"
  show "decode_value t bs c = Ok (v, c + length (encode_value v))"
  proof (cases v)
    case VNull
    with v show ?thesis by (simp add: storable_def)
  next
    case (VBoolean b)
    with v d show ?thesis using get_at_at [of c bs _ r] by (auto simp: storable_def)
  next
    case (VBigInt n)
    with v d show ?thesis using read_bytes_at [OF c, of "le64 n" r 8] by (auto simp: storable_def)
  next
    case (VText s)
    let ?l = "le32 (of_nat (length s))"
    from VText v have t: "t = TText" "utf8 (bytes_of s)" "length s < 2 ^ 32"
      by (auto simp: storable_def)
    from VText d have d1: "drop c bs = ?l @ (bytes_of s @ r)" by simp
    have d2: "drop (c + 4) bs = bytes_of s @ r" using drop_advance [OF d1] by simp
    have c2: "c + 4 \<le> length bs" using drop_advance_le [OF c d1] by simp
    have "read_bytes CorruptTuple bs c 4 = Ok (?l, c + 4)"
      using read_bytes_at [OF c d1] by simp
    moreover have "read_bytes CorruptTuple bs (c + 4) (length s) = Ok (bytes_of s, c + 4 + length s)"
      using read_bytes_at [OF c2 d2] by simp
    ultimately show ?thesis using t VText le32_length_value [OF t(3)] by (simp add: add.assoc)
  qed
qed

text \<open>What the columns of a schema can store.\<close>

definition storable_in :: "val \<Rightarrow> column \<Rightarrow> bool" where
  "storable_in v col = (conforms_to v col \<and> (is_null v \<or> storable (col_type col) v))"

lemma decode_columns_at:
  assumes "list_all2 storable_in vs cols"
    and "\<And>k. k < length vs \<Longrightarrow> null_bit bm (i + k) = is_null (vs ! k)"
    and "c \<le> length bs" "drop c bs = concat (map encode_value vs) @ r"
  shows "decode_columns bm i cols bs c = Ok (vs, c + length (concat (map encode_value vs)))"
  using assms
proof (induction vs cols arbitrary: i c rule: list_all2_induct)
  case (Cons v vs' col cols)
  have nb: "null_bit bm i = is_null v" using Cons.prems(1) [of 0] by simp
  have bits: "null_bit bm (Suc i + k) = is_null (vs' ! k)" if "k < length vs'" for k
    using Cons.prems(1) [of "Suc k"] that by simp
  have d: "drop c bs = encode_value v @ (concat (map encode_value vs') @ r)"
    using Cons.prems(3) by simp
  note adv = value_codec.advance [OF Cons.prems(2) d]
  have step: "(if null_bit bm i then Ok (VNull, c) else decode_value (col_type col) bs c)
      = Ok (v, c + length (encode_value v))"
  proof (cases "is_null v")
    case True
    then have "v = VNull" by (cases v) auto
    with nb show ?thesis by simp
  next
    case False
    with Cons.hyps(1) have "storable (col_type col) v" by (auto simp: storable_in_def)
    with False nb show ?thesis using value_codec.dec_enc [OF _ Cons.prems(2) d] by simp
  qed
  show ?case
    using Cons.IH [OF bits adv] step by (simp add: add.assoc)
qed simp

lemma encode_tuple_Ok:
  assumes "length vs = schema_len s"
  obtains bm where "encode_tuple s \<lparr>tup_values = vs\<rparr> = Ok (bm @ concat (map encode_value vs))"
    "length bm = null_bitmap_len (length vs)"
    "\<And>k. k < length vs \<Longrightarrow> null_bit bm k = is_null (vs ! k)"
proof
  let ?z = "replicate (null_bitmap_len (length vs)) (0 :: byte)"
  let ?bm = "fst (encode_values 0 ?z [] vs)"
  show "encode_tuple s \<lparr>tup_values = vs\<rparr> = Ok (?bm @ concat (map encode_value vs))"
    using assms encode_values_body [of 0 ?z "[]" vs]
    by (auto simp: encode_tuple_def Let_def split: prod.splits)
  show "length ?bm = null_bitmap_len (length vs)" by simp
  have b: "0 + length vs \<le> 8 * length ?z" by (simp add: null_bitmap_len_def)
  show "null_bit ?bm k = is_null (vs ! k)" if "k < length vs" for k
  proof -
    have "\<not> null_bit ?z k"
      by (rule null_bit_zero) (use that in \<open>simp add: null_bitmap_len_def; presburger\<close>)
    then show ?thesis using null_bit_encode [OF b] that by simp
  qed
qed

lemma tuple_codec_ok:
  assumes "list_all2 storable_in vs (columns s)"
  shows "\<exists>bs. encode_tuple s \<lparr>tup_values = vs\<rparr> = Ok bs
    \<and> decode_tuple s bs = Ok \<lparr>tup_values = vs\<rparr>
    \<and> (\<forall>r. r \<noteq> [] \<longrightarrow> decode_tuple s (bs @ r) = Err CorruptTuple)"
proof -
  have len: "length vs = schema_len s" using assms by (simp add: schema_len_def list_all2_lengthD)
  obtain bm where e: "encode_tuple s \<lparr>tup_values = vs\<rparr> = Ok (bm @ concat (map encode_value vs))"
    and l: "length bm = null_bitmap_len (length vs)"
    and b: "\<And>k. k < length vs \<Longrightarrow> null_bit bm k = is_null (vs ! k)"
    using encode_tuple_Ok [OF len] by metis
  have conf: "list_all2 conforms_to vs (columns s)"
    using assms by (rule list_all2_mono) (simp add: storable_in_def)
  have "decode_columns bm 0 (columns s) (bm @ concat (map encode_value vs) @ r) (length bm)
      = Ok (vs, length bm + length (concat (map encode_value vs)))" for r
    using decode_columns_at [OF assms, of bm 0 "length bm"] b by simp
  from this [of "[]"] this
  show ?thesis
    using e l len conf by (auto simp: decode_tuple_def Let_def tuple_new_iff simp del: length_concat)
qed

text \<open>
  C7: a tuple of storable values that conforms to its schema always encodes, decoding gives the same
  tuple back, and the encoding followed by any further bytes is rejected as corrupt: the decoder
  consumes its input exactly, so a cell that holds more than the tuple is never accepted.
\<close>

theorem tuple_codec_roundtrip:
  assumes "list_all2 storable_in vs (columns s)"
  shows "\<exists>bs. encode_tuple s \<lparr>tup_values = vs\<rparr> = Ok bs
    \<and> decode_tuple s bs = Ok \<lparr>tup_values = vs\<rparr>
    \<and> (\<forall>r. r \<noteq> [] \<longrightarrow> decode_tuple s (bs @ r) = Err CorruptTuple)"
  using tuple_codec_ok [OF assms] .

theorem tuple_codec_roundtrip_witness:
  "let s = \<lparr>columns = [column_new ''id'' TBigInt False, column_new ''n'' TText True]\<rparr> in
   \<exists>bs. encode_tuple s \<lparr>tup_values = [VBigInt (- 5), VNull]\<rparr> = Ok bs
     \<and> decode_tuple s bs = Ok \<lparr>tup_values = [VBigInt (- 5), VNull]\<rparr>"
  using tuple_codec_roundtrip [of "[VBigInt (- 5), VNull]"
      "\<lparr>columns = [column_new ''id'' TBigInt False, column_new ''n'' TText True]\<rparr>"]
  by (auto simp: storable_in_def storable_def conforms_to_def column_new_def)

end
