(* ===== verification/Protocol.thy ===== *)
theory Protocol
  imports Tuple_Codec
begin

text \<open>
  The wire protocol of \<open>src/src/protocol.rs\<close>: length-prefixed frames, requests and responses, and the
  payload of a result set. A stream is the list of bytes that are still to be read (reading) or were
  written (writing). The message texts of \<open>MalformedPayload\<close> are dropped. \<open>DbError\<close> texts and the
  \<open>Display\<close> form of a response are not modelled.
\<close>

subsection \<open>Results\<close>

datatype protocol_error =
    ProtocolIo
  | FrameTooLarge u32 u32
  | UnknownMessageType byte
  | UnknownStatus byte
  | MalformedPayload
  | InvalidUtf8
  | ProtocolTuple db_error

datatype 'a wire = WOk 'a | WErr protocol_error | WPanic

definition wire_then :: "'a wire \<Rightarrow> ('a \<Rightarrow> 'b wire) \<Rightarrow> 'b wire" where
  "wire_then r f = (case r of WOk x \<Rightarrow> f x | WErr e \<Rightarrow> WErr e | WPanic \<Rightarrow> WPanic)"

lemma wire_then_simps [simp]:
  "wire_then (WOk x) f = f x" "wire_then (WErr e) f = WErr e" "wire_then WPanic f = WPanic"
  by (simp_all add: wire_then_def)

lemma wire_then_WOk_iff: "wire_then r f = WOk y \<longleftrightarrow> (\<exists>x. r = WOk x \<and> f x = WOk y)"
  by (cases r) auto

lemma wire_then_WPanic_iff: "wire_then r f = WPanic \<longleftrightarrow> r = WPanic \<or> (\<exists>x. r = WOk x \<and> f x = WPanic)"
  by (cases r) auto

definition wire_ok_or :: "protocol_error \<Rightarrow> 'a option \<Rightarrow> 'a wire" where
  "wire_ok_or e r = (case r of None \<Rightarrow> WErr e | Some x \<Rightarrow> WOk x)"

definition wire_expect :: "'a option \<Rightarrow> 'a wire" where
  "wire_expect r = (case r of None \<Rightarrow> WPanic | Some x \<Rightarrow> WOk x)"

lemma wire_conv_simps [simp]:
  "wire_ok_or e (Some x) = WOk x" "wire_ok_or e None = WErr e"
  "wire_expect (Some x) = WOk x" "wire_expect None = WPanic"
  by (simp_all add: wire_ok_or_def wire_expect_def)

text \<open>The conversion of a \<open>DbError\<close> by \<open>?\<close>.\<close>

definition from_db :: "'a outcome \<Rightarrow> 'a wire" where
  "from_db r = (case r of Ok x \<Rightarrow> WOk x | Err e \<Rightarrow> WErr (ProtocolTuple e) | Panic \<Rightarrow> WPanic)"

lemma from_db_simps [simp]:
  "from_db (Ok x) = WOk x" "from_db (Err e) = WErr (ProtocolTuple e)" "from_db Panic = WPanic"
  by (simp_all add: from_db_def)

text \<open>\<open>u32::try_from\<close>.\<close>

definition u32_try_from :: "nat \<Rightarrow> u32 option" where
  "u32_try_from n = (if n < 2 ^ 32 then Some (of_nat n) else None)"

subsection \<open>Frames\<close>

definition MAX_FRAME_PAYLOAD_LEN :: u32 where "MAX_FRAME_PAYLOAD_LEN = 16 * 1024 * 1024"
definition MSG_QUERY :: byte where "MSG_QUERY = 1"
definition STATUS_OK_ROWS :: byte where "STATUS_OK_ROWS = 0"
definition STATUS_OK_COMMAND :: byte where "STATUS_OK_COMMAND = 1"
definition STATUS_ERROR :: byte where "STATUS_ERROR = 2"
definition FRAME_HEADER_LEN :: nat where "FRAME_HEADER_LEN = 1 + 4 + 4"

record raw_frame =
  frame_tag :: byte
  frame_request_id :: u32
  frame_payload :: "byte list"

text \<open>The bytes that are written, on a stream that takes them all.\<close>

definition write_raw_frame :: "byte \<Rightarrow> u32 \<Rightarrow> byte list \<Rightarrow> byte list wire" where
  "write_raw_frame tag rid payload =
     (case u32_try_from (length payload) of
        Some len \<Rightarrow>
          if len \<le> MAX_FRAME_PAYLOAD_LEN then WOk (tag # le32 rid @ le32 len @ payload)
          else WErr (FrameTooLarge len MAX_FRAME_PAYLOAD_LEN)
      | None \<Rightarrow> WErr (FrameTooLarge (- 1) MAX_FRAME_PAYLOAD_LEN))"

text \<open>\<open>Read::read_exact\<close> on the rest of the stream.\<close>

definition read_exact :: "byte list \<Rightarrow> nat \<Rightarrow> (byte list \<times> byte list) wire" where
  "read_exact s n = (if n \<le> length s then WOk (take n s, drop n s) else WErr ProtocolIo)"

definition read_raw_frame :: "byte list \<Rightarrow> (raw_frame \<times> byte list) wire" where
  "read_raw_frame s =
     wire_then (read_exact s FRAME_HEADER_LEN) (\<lambda>(h, s).
     let len = from_le32 (take 4 (drop 5 h)) in
     if len > MAX_FRAME_PAYLOAD_LEN then WErr (FrameTooLarge len MAX_FRAME_PAYLOAD_LEN)
     else wire_then (read_exact s (unat len)) (\<lambda>(payload, s).
       WOk (\<lparr>frame_tag = h ! 0, frame_request_id = from_le32 (take 4 (drop 1 h)), frame_payload = payload\<rparr>, s)))"

subsection \<open>Requests\<close>

record request =
  request_id :: u32
  request_sql :: string

definition request_write :: "request \<Rightarrow> byte list wire" where
  "request_write r = write_raw_frame MSG_QUERY (request_id r) (bytes_of (request_sql r))"

definition request_read :: "byte list \<Rightarrow> (request \<times> byte list) wire" where
  "request_read s =
     wire_then (read_raw_frame s) (\<lambda>(f, s).
     if frame_tag f \<noteq> MSG_QUERY then WErr (UnknownMessageType (frame_tag f))
     else wire_then (wire_ok_or InvalidUtf8 (from_utf8 (frame_payload f))) (\<lambda>sql.
       WOk (\<lparr>request_id = frame_request_id f, request_sql = sql\<rparr>, s)))"

subsection \<open>Result sets\<close>

definition encode_data_type :: "data_type \<Rightarrow> byte" where
  "encode_data_type t = (case t of TBoolean \<Rightarrow> 0 | TBigInt \<Rightarrow> 1 | TText \<Rightarrow> 2)"

definition decode_data_type :: "byte \<Rightarrow> data_type wire" where
  "decode_data_type b =
     (if b = 0 then WOk TBoolean else if b = 1 then WOk TBigInt else if b = 2 then WOk TText
      else WErr MalformedPayload)"

definition encode_column :: "column \<Rightarrow> byte list wire" where
  "encode_column col =
     wire_then (wire_expect (u32_try_from (length (col_name col)))) (\<lambda>len.
     WOk (le32 len @ bytes_of (col_name col) @ [encode_data_type (col_type col), if nullable col then 1 else 0]))"

definition encode_row :: "schema \<Rightarrow> tuple \<Rightarrow> byte list wire" where
  "encode_row s t =
     wire_then (from_db (encode_tuple s t)) (\<lambda>bs.
     wire_then (wire_expect (u32_try_from (length bs))) (\<lambda>len. WOk (le32 len @ bs)))"

fun encode_items :: "('a \<Rightarrow> byte list wire) \<Rightarrow> 'a list \<Rightarrow> byte list wire" where
  "encode_items enc [] = WOk []"
| "encode_items enc (x # xs) =
    wire_then (enc x) (\<lambda>a. wire_then (encode_items enc xs) (\<lambda>b. WOk (a @ b)))"

definition encode_rows_payload :: "schema \<Rightarrow> tuple list \<Rightarrow> byte list wire" where
  "encode_rows_payload s rows =
     wire_then (wire_expect (u32_try_from (schema_len s))) (\<lambda>ncols.
     wire_then (encode_items encode_column (columns s)) (\<lambda>cols.
     wire_then (wire_expect (u32_try_from (length rows))) (\<lambda>nrows.
     wire_then (encode_items (encode_row s) rows) (\<lambda>body.
     WOk (le32 ncols @ cols @ le32 nrows @ body)))))"

definition MIN_COLUMN_ENTRY_LEN :: nat where "MIN_COLUMN_ENTRY_LEN = 4 + 1 + 1"
definition MIN_ROW_ENTRY_LEN :: nat where "MIN_ROW_ENTRY_LEN = 4"

definition read_u32 :: "byte list \<Rightarrow> nat \<Rightarrow> (u32 \<times> nat) wire" where
  "read_u32 bs c =
     wire_then (wire_ok_or MalformedPayload (get_slice bs c (c + 4))) (\<lambda>xs. WOk (from_le32 xs, c + 4))"

definition read_u8 :: "byte list \<Rightarrow> nat \<Rightarrow> (byte \<times> nat) wire" where
  "read_u8 bs c = wire_then (wire_ok_or MalformedPayload (get_at bs c)) (\<lambda>b. WOk (b, c + 1))"

definition read_utf8 :: "byte list \<Rightarrow> nat \<Rightarrow> nat \<Rightarrow> (string \<times> nat) wire" where
  "read_utf8 bs c len =
     wire_then (wire_ok_or MalformedPayload (get_slice bs c (c + len))) (\<lambda>xs.
     wire_then (wire_ok_or InvalidUtf8 (from_utf8 xs)) (\<lambda>s. WOk (s, c + len)))"

definition decode_column :: "byte list \<Rightarrow> nat \<Rightarrow> (column \<times> nat) wire" where
  "decode_column bs c =
     wire_then (read_u32 bs c) (\<lambda>(len, c).
     wire_then (read_utf8 bs c (unat len)) (\<lambda>(name, c).
     wire_then (read_u8 bs c) (\<lambda>(tag, c).
     wire_then (decode_data_type tag) (\<lambda>t.
     wire_then (read_u8 bs c) (\<lambda>(b, c).
     if b = 0 then WOk (column_new name t False, c)
     else if b = 1 then WOk (column_new name t True, c)
     else WErr MalformedPayload)))))"

text \<open>\<open>checked_add\<close> cannot overflow a 64-bit \<open>usize\<close> here.\<close>

definition decode_row :: "schema \<Rightarrow> byte list \<Rightarrow> nat \<Rightarrow> (tuple \<times> nat) wire" where
  "decode_row s bs c =
     wire_then (read_u32 bs c) (\<lambda>(len, c).
     wire_then (wire_ok_or MalformedPayload (get_slice bs c (c + unat len))) (\<lambda>xs.
     wire_then (from_db (decode_tuple s xs)) (\<lambda>t. WOk (t, c + unat len))))"

fun decode_items :: "(byte list \<Rightarrow> nat \<Rightarrow> ('a \<times> nat) wire) \<Rightarrow> nat \<Rightarrow> byte list \<Rightarrow> nat \<Rightarrow> ('a list \<times> nat) wire" where
  "decode_items dec 0 bs c = WOk ([], c)"
| "decode_items dec (Suc n) bs c =
    wire_then (dec bs c) (\<lambda>(x, c). wire_then (decode_items dec n bs c) (\<lambda>(xs, c). WOk (x # xs, c)))"

datatype response =
    ResponseRows schema "tuple list"
  | ResponseCommand string
  | ResponseError string

text \<open>The reservations before the loops are taken to succeed; the checks before them bound their size.\<close>

definition decode_rows_payload :: "byte list \<Rightarrow> response wire" where
  "decode_rows_payload bs =
     wire_then (read_u32 bs 0) (\<lambda>(ncols, c).
     if unat ncols * MIN_COLUMN_ENTRY_LEN > length bs - c then WErr MalformedPayload
     else wire_then (decode_items decode_column (unat ncols) bs c) (\<lambda>(cols, c).
     wire_then (read_u32 bs c) (\<lambda>(nrows, c).
     if unat nrows * MIN_ROW_ENTRY_LEN > length bs - c then WErr MalformedPayload
     else wire_then (decode_items (decode_row \<lparr>columns = cols\<rparr>) (unat nrows) bs c) (\<lambda>(rows, c).
     if c \<noteq> length bs then WErr MalformedPayload
     else WOk (ResponseRows \<lparr>columns = cols\<rparr> rows)))))"

text \<open>\<open>message n\<close> is the text that says a result of \<open>n\<close> bytes is too large.\<close>

definition response_write :: "(nat \<Rightarrow> string) \<Rightarrow> response \<Rightarrow> u32 \<Rightarrow> byte list wire" where
  "response_write message r rid =
     (case r of
        ResponseRows s rows \<Rightarrow>
          wire_then (encode_rows_payload s rows) (\<lambda>payload.
          if length payload > unat MAX_FRAME_PAYLOAD_LEN
          then write_raw_frame STATUS_ERROR rid (bytes_of (message (length payload)))
          else write_raw_frame STATUS_OK_ROWS rid payload)
      | ResponseCommand tag \<Rightarrow> write_raw_frame STATUS_OK_COMMAND rid (bytes_of tag)
      | ResponseError m \<Rightarrow> write_raw_frame STATUS_ERROR rid (bytes_of m))"

definition response_read :: "byte list \<Rightarrow> ((u32 \<times> response) \<times> byte list) wire" where
  "response_read s =
     wire_then (read_raw_frame s) (\<lambda>(f, s).
     wire_then
       (if frame_tag f = STATUS_OK_ROWS then decode_rows_payload (frame_payload f)
        else if frame_tag f = STATUS_OK_COMMAND
        then wire_then (wire_ok_or InvalidUtf8 (from_utf8 (frame_payload f))) (\<lambda>t. WOk (ResponseCommand t))
        else if frame_tag f = STATUS_ERROR
        then wire_then (wire_ok_or InvalidUtf8 (from_utf8 (frame_payload f))) (\<lambda>t. WOk (ResponseError t))
        else WErr (UnknownStatus (frame_tag f))) (\<lambda>r.
     WOk ((frame_request_id f, r), s)))"

subsection \<open>Round trips\<close>

lemma unat_le_max: "n \<le> unat MAX_FRAME_PAYLOAD_LEN \<Longrightarrow>
  u32_try_from n = Some (of_nat n) \<and> unat (of_nat n :: u32) = n \<and> (of_nat n :: u32) \<le> MAX_FRAME_PAYLOAD_LEN"
  by (auto simp: MAX_FRAME_PAYLOAD_LEN_def u32_try_from_def unat_of_nat word_le_nat_alt take_bit_nat_eq_self)

lemma frame_roundtrip:
  assumes "length p \<le> unat MAX_FRAME_PAYLOAD_LEN"
  shows "\<exists>bs. write_raw_frame tag rid p = WOk bs
    \<and> read_raw_frame (bs @ rest) = WOk (\<lparr>frame_tag = tag, frame_request_id = rid, frame_payload = p\<rparr>, rest)"
proof -
  let ?n = "of_nat (length p) :: u32"
  note n = unat_le_max [OF assms]
  have "write_raw_frame tag rid p = WOk (tag # le32 rid @ le32 ?n @ p)"
    using n by (simp add: write_raw_frame_def)
  moreover have "read_raw_frame ((tag # le32 rid @ le32 ?n @ p) @ rest)
      = WOk (\<lparr>frame_tag = tag, frame_request_id = rid, frame_payload = p\<rparr>, rest)"
    using n by (simp add: read_raw_frame_def read_exact_def FRAME_HEADER_LEN_def Let_def not_less)
  ultimately show ?thesis by blast
qed

text \<open>The contract between an item encoder that may panic and the decoder of the item.\<close>

locale wire_codec =
  fixes enc :: "'a \<Rightarrow> byte list wire"
    and dec :: "byte list \<Rightarrow> nat \<Rightarrow> ('a \<times> nat) wire"
    and encodable :: "'a \<Rightarrow> bool"
    and least :: nat
  assumes enc_defined: "encodable x \<Longrightarrow> \<exists>xs. enc x = WOk xs \<and> least \<le> length xs"
    and dec_enc: "encodable x \<Longrightarrow> enc x = WOk xs \<Longrightarrow> c \<le> length bs \<Longrightarrow> drop c bs = xs @ r \<Longrightarrow>
      dec bs c = WOk (x, c + length xs)"
begin

lemma items_defined:
  "\<forall>x \<in> set xs. encodable x \<Longrightarrow> \<exists>bs. encode_items enc xs = WOk bs \<and> length xs * least \<le> length bs"
proof (induction xs)
  case (Cons x xs)
  then obtain b where b: "encode_items enc xs = WOk b" "length xs * least \<le> length b" by auto
  from Cons.prems enc_defined [of x] obtain a where a: "enc x = WOk a" "least \<le> length a" by auto
  from a b show ?case by simp
qed simp

lemma items_roundtrip:
  assumes "\<forall>x \<in> set xs. encodable x" "encode_items enc xs = WOk b" "c \<le> length bs" "drop c bs = b @ r"
  shows "decode_items dec (length xs) bs c = WOk (xs, c + length b)"
  using assms
proof (induction xs arbitrary: c b)
  case (Cons x xs)
  then obtain a b' where a: "enc x = WOk a" and b': "encode_items enc xs = WOk b'" and b: "b = a @ b'"
    by (auto simp: wire_then_WOk_iff)
  have d: "drop c bs = a @ (b' @ r)" using Cons.prems(4) b by simp
  have "dec bs c = WOk (x, c + length a)" using dec_enc [OF _ a Cons.prems(3) d] Cons.prems(1) by simp
  moreover have "decode_items dec (length xs) bs (c + length a) = WOk (xs, c + length a + length b')"
    using Cons.IH [OF _ b' drop_advance_le [OF Cons.prems(3) d refl] drop_advance [OF d refl]]
      Cons.prems(1) by simp
  ultimately show ?case by (simp add: b)
qed simp

end

text \<open>Constraint flags are not sent, so the columns of a result set are plain ones.\<close>

definition column_sendable :: "column \<Rightarrow> bool" where
  "column_sendable col \<longleftrightarrow>
     \<not> primary_key col \<and> \<not> unique col \<and> utf8 (bytes_of (col_name col)) \<and> length (col_name col) < 2 ^ 32"

lemma decode_encode_data_type [simp]: "decode_data_type (encode_data_type t) = WOk t"
  by (cases t) (simp_all add: encode_data_type_def decode_data_type_def)

lemma u32_try_from_small: "n < 2 ^ 32 \<Longrightarrow> u32_try_from n = Some (of_nat n) \<and> unat (of_nat n :: u32) = n"
  by (simp add: u32_try_from_def unat_of_nat take_bit_nat_eq_self)

interpretation wire_column: wire_codec encode_column decode_column column_sendable MIN_COLUMN_ENTRY_LEN
proof
  fix col assume "column_sendable col"
  then show "\<exists>xs. encode_column col = WOk xs \<and> MIN_COLUMN_ENTRY_LEN \<le> length xs"
    using u32_try_from_small [of "length (col_name col)"]
    by (simp add: encode_column_def column_sendable_def MIN_COLUMN_ENTRY_LEN_def)
next
  fix col xs c bs r
  assume s: "column_sendable col" and e: "encode_column col = WOk xs" and c: "c \<le> length bs"
    and d: "drop c bs = xs @ r"
  let ?n = "of_nat (length (col_name col)) :: u32"
  let ?t = "encode_data_type (col_type col)" and ?b = "if nullable col then 1 else 0 :: byte"
  have n: "u32_try_from (length (col_name col)) = Some ?n" "unat ?n = length (col_name col)"
    using s u32_try_from_small by (auto simp: column_sendable_def)
  have xs: "xs = le32 ?n @ bytes_of (col_name col) @ [?t, ?b]" using e n by (simp add: encode_column_def)
  then have d0: "drop c bs = le32 ?n @ (bytes_of (col_name col) @ [?t] @ [?b] @ r)" using d by simp
  note c1 = drop_advance_le [OF c d0 refl] and d1 = drop_advance [OF d0 refl]
  note c2 = drop_advance_le [OF c1 d1 refl] and d2 = drop_advance [OF d1 refl]
  note c3 = drop_advance_le [OF c2 d2 refl] and d3 = drop_advance [OF d2 refl]
  have col: "column_new (col_name col) (col_type col) (nullable col) = col"
    using s by (cases col) (simp add: column_new_def column_sendable_def)
  have "get_slice bs c (c + 4) = Some (le32 ?n)" using get_slice_at [OF c d0] by simp
  moreover have "get_slice bs (c + 4) (c + 4 + length (col_name col)) = Some (bytes_of (col_name col))"
    using get_slice_at [OF c1 d1] by simp
  ultimately show "decode_column bs c = WOk (col, c + length xs)"
    using n get_at_at [OF d2 [unfolded append_Cons]] get_at_at [OF d3 [unfolded append_Cons]] s col
    by (auto simp: decode_column_def read_u32_def read_utf8_def read_u8_def column_sendable_def xs
        add.assoc split: if_splits)
qed

definition row_sendable :: "schema \<Rightarrow> tuple \<Rightarrow> bool" where
  "row_sendable s t \<longleftrightarrow> list_all2 storable_in (tup_values t) (columns s)
     \<and> (\<forall>bs. encode_tuple s t = Ok bs \<longrightarrow> length bs < 2 ^ 32)"

lemma tuple_roundtrip:
  assumes "list_all2 storable_in (tup_values t) (columns s)"
  obtains bs where "encode_tuple s t = Ok bs" "decode_tuple s bs = Ok t"
  using tuple_codec_ok [OF assms] by (metis (full_types) tuple.surjective old.unit.exhaust)

interpretation wire_row: wire_codec "encode_row s" "decode_row s" "row_sendable s" MIN_ROW_ENTRY_LEN for s
proof
  fix t assume t: "row_sendable s t"
  then obtain bs where "encode_tuple s t = Ok bs" by (auto simp: row_sendable_def elim: tuple_roundtrip)
  with t show "\<exists>xs. encode_row s t = WOk xs \<and> MIN_ROW_ENTRY_LEN \<le> length xs"
    using u32_try_from_small [of "length bs"] by (simp add: encode_row_def row_sendable_def MIN_ROW_ENTRY_LEN_def)
next
  fix t xs c bs r
  assume t: "row_sendable s t" and e: "encode_row s t = WOk xs" and c: "c \<le> length bs"
    and d: "drop c bs = xs @ r"
  obtain b where b: "encode_tuple s t = Ok b" "decode_tuple s b = Ok t"
    using t by (auto simp: row_sendable_def elim: tuple_roundtrip)
  let ?n = "of_nat (length b) :: u32"
  have n: "u32_try_from (length b) = Some ?n" "unat ?n = length b"
    using t b(1) u32_try_from_small by (auto simp: row_sendable_def)
  have xs: "xs = le32 ?n @ b" using e n b(1) by (simp add: encode_row_def)
  then have d0: "drop c bs = le32 ?n @ (b @ r)" using d by simp
  note c1 = drop_advance_le [OF c d0 refl] and d1 = drop_advance [OF d0 refl]
  have "get_slice bs c (c + 4) = Some (le32 ?n)" using get_slice_at [OF c d0] by simp
  moreover have "get_slice bs (c + 4) (c + 4 + length b) = Some b" using get_slice_at [OF c1 d1] by simp
  ultimately show "decode_row s bs c = WOk (t, c + length xs)"
    using n b by (simp add: decode_row_def read_u32_def xs)
qed

definition rows_sendable :: "schema \<Rightarrow> tuple list \<Rightarrow> bool" where
  "rows_sendable s rows \<longleftrightarrow>
     (\<forall>col \<in> set (columns s). column_sendable col) \<and> (\<forall>t \<in> set rows. row_sendable s t)
     \<and> schema_len s < 2 ^ 32 \<and> length rows < 2 ^ 32"

lemma rows_payload_roundtrip:
  assumes "rows_sendable s rows"
  obtains p where "encode_rows_payload s rows = WOk p" "decode_rows_payload p = WOk (ResponseRows s rows)"
proof -
  have ok: "\<forall>col \<in> set (columns s). column_sendable col" "\<forall>t \<in> set rows. row_sendable s t"
    using assms by (auto simp: rows_sendable_def)
  obtain cols where cols: "encode_items encode_column (columns s) = WOk cols"
    "length (columns s) * MIN_COLUMN_ENTRY_LEN \<le> length cols"
    using wire_column.items_defined [OF ok(1)] by blast
  obtain body where body: "encode_items (encode_row s) rows = WOk body"
    "length rows * MIN_ROW_ENTRY_LEN \<le> length body"
    using wire_row.items_defined [OF ok(2)] by blast
  let ?nc = "of_nat (length (columns s)) :: u32" and ?nr = "of_nat (length rows) :: u32"
  have n: "u32_try_from (length (columns s)) = Some ?nc" "unat ?nc = length (columns s)"
    "u32_try_from (length rows) = Some ?nr" "unat ?nr = length rows"
    using assms u32_try_from_small by (auto simp: rows_sendable_def schema_len_def)
  let ?p = "le32 ?nc @ cols @ le32 ?nr @ body"
  have e: "encode_rows_payload s rows = WOk ?p"
    using cols body n by (simp add: encode_rows_payload_def schema_len_def)
  have d0: "drop 0 ?p = le32 ?nc @ (cols @ le32 ?nr @ body)" and c0: "0 \<le> length ?p" by simp_all
  note c1 = drop_advance_le [OF c0 d0 refl] and d1 = drop_advance [OF d0 refl]
  note c2 = drop_advance_le [OF c1 d1 refl] and d2 = drop_advance [OF d1 refl]
  note c3 = drop_advance_le [OF c2 d2 refl] and d3 = drop_advance [OF d2 refl]
  have "read_u32 ?p 0 = WOk (?nc, 4)" using get_slice_at [OF c0 d0] by (simp add: read_u32_def)
  moreover have "decode_items decode_column (unat ?nc) ?p 4 = WOk (columns s, 4 + length cols)"
    using wire_column.items_roundtrip [OF ok(1) cols(1) c1 d1] n(2) by simp
  moreover have "read_u32 ?p (4 + length cols) = WOk (?nr, 4 + length cols + 4)"
    using get_slice_at [OF c2 d2] by (simp add: read_u32_def)
  moreover have "decode_items (decode_row s) (unat ?nr) ?p (4 + length cols + 4) = WOk (rows, length ?p)"
    using wire_row.items_roundtrip [OF ok(2) body(1) c3] d3 n(4) by (simp add: add.assoc)
  moreover obtain cs where "s = \<lparr>columns = cs\<rparr>" by (cases s)
  ultimately have "decode_rows_payload ?p = WOk (ResponseRows s rows)"
    using cols(2) body(2) n by (simp add: decode_rows_payload_def not_less)
  with e that show thesis by blast
qed

definition sendable_text :: "string \<Rightarrow> bool" where
  "sendable_text s \<longleftrightarrow> utf8 (bytes_of s) \<and> length s \<le> unat MAX_FRAME_PAYLOAD_LEN"

definition response_sendable :: "response \<Rightarrow> bool" where
  "response_sendable r =
     (case r of ResponseRows s rows \<Rightarrow> rows_sendable s rows
      | ResponseCommand t \<Rightarrow> sendable_text t | ResponseError t \<Rightarrow> sendable_text t)"

definition too_large :: "response \<Rightarrow> nat option" where
  "too_large r =
     (case r of
        ResponseRows s rows \<Rightarrow>
          (case encode_rows_payload s rows of
             WOk p \<Rightarrow> if unat MAX_FRAME_PAYLOAD_LEN < length p then Some (length p) else None
           | _ \<Rightarrow> None)
      | _ \<Rightarrow> None)"

lemma text_roundtrip:
  assumes "sendable_text t"
  shows "\<exists>bs. write_raw_frame tag rid (bytes_of t) = WOk bs
    \<and> read_raw_frame (bs @ rest) = WOk (\<lparr>frame_tag = tag, frame_request_id = rid, frame_payload = bytes_of t\<rparr>, rest)"
  using frame_roundtrip [of "bytes_of t"] assms by (simp add: sendable_text_def)

lemmas status_defs = STATUS_OK_ROWS_def STATUS_OK_COMMAND_def STATUS_ERROR_def MSG_QUERY_def



subsection \<open>Hostile input\<close>

lemma decode_tuple_no_panic: "decode_tuple s bs \<noteq> Panic"
proof -
  have v: "decode_value t xs c \<noteq> Panic" for t xs c
    by (cases t) (auto simp: and_then_Panic_iff split: if_splits)
  have "decode_columns bm i cols bs c \<noteq> Panic" for bm i cols c
    by (induction bm i cols bs c rule: decode_columns.induct) (auto simp: and_then_Panic_iff v split: if_splits)
  moreover have "tuple_new s vs \<noteq> Panic" for vs
  proof -
    have "check_values xs \<noteq> Panic" for xs by (induction xs rule: check_values.induct) auto
    then show ?thesis by (simp add: tuple_new_def validate_tuple_def and_then_Panic_iff)
  qed
  ultimately show ?thesis by (auto simp: decode_tuple_def Let_def and_then_Panic_iff split: if_splits)
qed

lemma wire_ok_or_no_panic [simp]: "wire_ok_or e r \<noteq> WPanic"
  by (cases r) simp_all

lemma reads_no_panic [simp]:
  "read_exact xs n \<noteq> WPanic" "read_u32 bs c \<noteq> WPanic" "read_u8 bs c \<noteq> WPanic" "read_utf8 bs c n \<noteq> WPanic"
  "decode_data_type b \<noteq> WPanic" "read_raw_frame xs \<noteq> WPanic"
  by (auto simp: read_exact_def read_u32_def read_u8_def read_utf8_def decode_data_type_def
      read_raw_frame_def Let_def wire_then_WPanic_iff split: if_splits)

lemma decode_items_facts:
  assumes "\<And>c. dec bs c \<noteq> WPanic" "\<And>c x c'. dec bs c = WOk (x, c') \<Longrightarrow> c + least \<le> c'"
  shows "decode_items dec n bs c \<noteq> WPanic"
    "decode_items dec n bs c = WOk (xs, c') \<Longrightarrow> length xs = n \<and> c + n * least \<le> c'"
proof -
  show "decode_items dec n bs c \<noteq> WPanic"
    by (induction n arbitrary: c) (auto simp: wire_then_WPanic_iff assms(1))
  show "decode_items dec n bs c = WOk (xs, c') \<Longrightarrow> length xs = n \<and> c + n * least \<le> c'"
  proof (induction n arbitrary: c xs)
    case (Suc n)
    then obtain x c1 ys where "dec bs c = WOk (x, c1)" "decode_items dec n bs c1 = WOk (ys, c')" "xs = x # ys"
      by (auto simp: wire_then_WOk_iff)
    with Suc.IH [of c1 ys] assms(2) [of c x c1] show ?case by auto
  qed simp
qed

lemma decode_column_facts:
  "decode_column bs c \<noteq> WPanic" "decode_column bs c = WOk (x, c') \<Longrightarrow> c + MIN_COLUMN_ENTRY_LEN \<le> c'"
  by (auto simp: decode_column_def wire_then_WPanic_iff wire_then_WOk_iff MIN_COLUMN_ENTRY_LEN_def read_u32_def
      read_u8_def read_utf8_def split: if_splits)

lemma from_db_no_panic: "from_db r \<noteq> WPanic \<longleftrightarrow> r \<noteq> Panic"
  by (cases r) auto

lemma decode_row_facts:
  "decode_row s bs c \<noteq> WPanic" "decode_row s bs c = WOk (x, c') \<Longrightarrow> c + MIN_ROW_ENTRY_LEN \<le> c'"
  using from_db_no_panic decode_tuple_no_panic
  by (auto simp: decode_row_def wire_then_WPanic_iff wire_then_WOk_iff MIN_ROW_ENTRY_LEN_def read_u32_def)



end
