(* ===== verification/Ast.thy ===== *)
theory Ast
  imports Types
begin

text \<open>
  The expression part of the syntax tree (\<open>src/src/ast.rs\<close>) with the spans of \<open>src/src/lexer.rs\<close>,
  and the bound expressions that the binder produces (\<open>BoundExpr\<close> of \<open>src/src/binder.rs\<close>), which
  both evaluators of \<open>src/src/eval.rs\<close> read.
\<close>

subsection \<open>Spans and positions\<close>

record span =
  span_start :: nat
  span_end :: nat

record ident =
  id_name :: string
  id_span :: span

text \<open>
  \<open>line_col\<close> walks the characters that start before \<open>byte_offset\<close>; a continuation byte belongs to the
  character that started earlier and moves nothing.
\<close>

fun line_col_from :: "nat \<Rightarrow> nat \<Rightarrow> nat \<Rightarrow> nat \<Rightarrow> byte list \<Rightarrow> nat \<times> nat" where
  "line_col_from off target line col [] = (line, col)"
| "line_col_from off target line col (b # bs) =
    (if cont_byte b then line_col_from (Suc off) target line col bs
     else if target \<le> off then (line, col)
     else if b = 10 then line_col_from (Suc off) target (Suc line) 1 bs
     else line_col_from (Suc off) target line (Suc col) bs)"

definition line_col :: "string \<Rightarrow> nat \<Rightarrow> nat \<times> nat" where
  "line_col source byte_offset = line_col_from 0 byte_offset 1 1 (bytes_of source)"

subsection \<open>Expressions\<close>

datatype aggregate_func = Count | Sum | Min | Max

datatype binary_operator =
  Add | Subtract | Multiply | Divide | Eq | NotEq | Lt | LtEq | Gt | GtEq | And | Or

datatype unary_operator = Negate | Not

datatype expr =
    IntLiteral i64 span
  | StringLiteral string span
  | BoolLiteral bool span
  | NullLiteral span
  | Param u32 span
  | ColumnRef "ident option" string span
  | UnaryOp unary_operator expr span
  | BinaryOp binary_operator expr expr span
  | IsNull expr bool span
  | FunctionCall string "expr list" span
  | Aggregate aggregate_func "expr option" span
  | Paren expr span
  | Cast expr ident span

definition from_name :: "string \<Rightarrow> aggregate_func option" where
  "from_name name =
     (let n = to_ascii_uppercase name in
      if n = ''COUNT'' then Some Count
      else if n = ''SUM'' then Some Sum
      else if n = ''MIN'' then Some Min
      else if n = ''MAX'' then Some Max
      else None)"

fun expr_span :: "expr \<Rightarrow> span" where
  "expr_span (IntLiteral _ s) = s"
| "expr_span (StringLiteral _ s) = s"
| "expr_span (BoolLiteral _ s) = s"
| "expr_span (NullLiteral s) = s"
| "expr_span (Param _ s) = s"
| "expr_span (ColumnRef _ _ s) = s"
| "expr_span (UnaryOp _ _ s) = s"
| "expr_span (BinaryOp _ _ _ s) = s"
| "expr_span (IsNull _ _ s) = s"
| "expr_span (FunctionCall _ _ s) = s"
| "expr_span (Aggregate _ _ s) = s"
| "expr_span (Paren _ s) = s"
| "expr_span (Cast _ _ s) = s"

subsection \<open>Bound expressions\<close>

datatype bound_expr =
    BIntLiteral i64 span
  | BStringLiteral string span
  | BBoolLiteral bool span
  | BNullLiteral span
  | BColumnRef (table_ordinal: nat) (column_index: nat) string data_type span
  | BUnaryOp unary_operator bound_expr data_type span
  | BBinaryOp binary_operator bound_expr bound_expr data_type span
  | BIsNull bound_expr bool span
  | BFunctionCall string "bound_expr list" data_type span
  | BAggregate aggregate_func "bound_expr option" data_type span
  | BParen bound_expr span
  | BCast bound_expr data_type span
  | BParam u32 "data_type option" span

fun bound_type :: "bound_expr \<Rightarrow> data_type option" where
  "bound_type (BIntLiteral _ _) = Some TBigInt"
| "bound_type (BStringLiteral _ _) = Some TText"
| "bound_type (BBoolLiteral _ _) = Some TBoolean"
| "bound_type (BNullLiteral _) = None"
| "bound_type (BColumnRef _ _ _ t _) = Some t"
| "bound_type (BUnaryOp _ _ t _) = Some t"
| "bound_type (BBinaryOp _ _ _ t _) = Some t"
| "bound_type (BFunctionCall _ _ t _) = Some t"
| "bound_type (BAggregate _ _ t _) = Some t"
| "bound_type (BCast _ t _) = Some t"
| "bound_type (BIsNull _ _ _) = Some TBoolean"
| "bound_type (BParen e _) = bound_type e"
| "bound_type (BParam _ t _) = t"

fun bound_span :: "bound_expr \<Rightarrow> span" where
  "bound_span (BIntLiteral _ s) = s"
| "bound_span (BStringLiteral _ s) = s"
| "bound_span (BBoolLiteral _ s) = s"
| "bound_span (BNullLiteral s) = s"
| "bound_span (BColumnRef _ _ _ _ s) = s"
| "bound_span (BUnaryOp _ _ _ s) = s"
| "bound_span (BBinaryOp _ _ _ _ s) = s"
| "bound_span (BIsNull _ _ s) = s"
| "bound_span (BFunctionCall _ _ _ s) = s"
| "bound_span (BAggregate _ _ _ s) = s"
| "bound_span (BParen _ s) = s"
| "bound_span (BCast _ _ s) = s"
| "bound_span (BParam _ _ s) = s"

fun coerce_param_type :: "bound_expr \<Rightarrow> data_type option \<Rightarrow> bound_expr" where
  "coerce_param_type (BParam i None s) (Some hint) = BParam i (Some hint) s"
| "coerce_param_type e _ = e"

fun bound_contains_aggregate :: "bound_expr \<Rightarrow> bool" where
  "bound_contains_aggregate (BAggregate _ _ _ _) = True"
| "bound_contains_aggregate (BUnaryOp _ e _ _) = bound_contains_aggregate e"
| "bound_contains_aggregate (BBinaryOp _ l r _ _) =
    (bound_contains_aggregate l \<or> bound_contains_aggregate r)"
| "bound_contains_aggregate (BIsNull e _ _) = bound_contains_aggregate e"
| "bound_contains_aggregate (BFunctionCall _ args _ _) = list_ex bound_contains_aggregate args"
| "bound_contains_aggregate (BParen e _) = bound_contains_aggregate e"
| "bound_contains_aggregate (BCast e _ _) = bound_contains_aggregate e"
| "bound_contains_aggregate _ = False"

fun ast_expr_contains_aggregate :: "expr \<Rightarrow> bool" where
  "ast_expr_contains_aggregate (Aggregate _ _ _) = True"
| "ast_expr_contains_aggregate (UnaryOp _ e _) = ast_expr_contains_aggregate e"
| "ast_expr_contains_aggregate (BinaryOp _ l r _) =
    (ast_expr_contains_aggregate l \<or> ast_expr_contains_aggregate r)"
| "ast_expr_contains_aggregate (IsNull e _ _) = ast_expr_contains_aggregate e"
| "ast_expr_contains_aggregate (FunctionCall _ args _) = list_ex ast_expr_contains_aggregate args"
| "ast_expr_contains_aggregate (Paren e _) = ast_expr_contains_aggregate e"
| "ast_expr_contains_aggregate (Cast e _ _) = ast_expr_contains_aggregate e"
| "ast_expr_contains_aggregate _ = False"

text \<open>No aggregate call and no parameter: what is left after aggregates and parameters are replaced.\<close>

fun closed_expr :: "bound_expr \<Rightarrow> bool" where
  "closed_expr (BAggregate _ _ _ _) = False"
| "closed_expr (BParam _ _ _) = False"
| "closed_expr (BUnaryOp _ e _ _) = closed_expr e"
| "closed_expr (BBinaryOp _ l r _ _) = (closed_expr l \<and> closed_expr r)"
| "closed_expr (BIsNull e _ _) = closed_expr e"
| "closed_expr (BFunctionCall _ args _ _) = list_all closed_expr args"
| "closed_expr (BParen e _) = closed_expr e"
| "closed_expr (BCast e _ _) = closed_expr e"
| "closed_expr _ = True"

lemma coerce_param_closed: "closed_expr (coerce_param_type e h) \<longleftrightarrow> closed_expr e"
  by (cases "(e, h)" rule: coerce_param_type.cases) auto

lemma closed_coerce_param [simp]: "closed_expr e \<Longrightarrow> coerce_param_type e h = e"
  by (cases e) auto

lemma bound_type_coerce_param:
  "bound_type (coerce_param_type e h) = bound_type e \<or> bound_type (coerce_param_type e h) = h"
  by (cases "(e, h)" rule: coerce_param_type.cases) auto

end
