(* ===== verification/Eval.thy ===== *)
theory Eval
  imports Ast
begin

text \<open>
  The two expression evaluators of \<open>src/src/eval.rs\<close>, \<open>eval_expr\<close> on syntax and \<open>eval_bound_expr\<close> on
  bound expressions, with the arithmetic, comparison, three-valued logic, CAST and scalar functions
  they share. Only a call with an operator of the wrong family can reach the \<open>unreachable!\<close> arms;
  they are \<open>Panic\<close> here.
\<close>

subsection \<open>Three-valued logic\<close>

datatype tri = TriTrue | TriFalse | TriUnknown

fun tri_not :: "tri \<Rightarrow> tri" where
  "tri_not TriTrue = TriFalse"
| "tri_not TriFalse = TriTrue"
| "tri_not TriUnknown = TriUnknown"

fun value_to_tri :: "val \<Rightarrow> tri outcome" where
  "value_to_tri VNull = Ok TriUnknown"
| "value_to_tri (VBoolean True) = Ok TriTrue"
| "value_to_tri (VBoolean False) = Ok TriFalse"
| "value_to_tri v = and_then (expect (type_of v)) (\<lambda>t. Err (Eval (LogicNonBoolean t)))"

fun tri_to_value :: "tri \<Rightarrow> val" where
  "tri_to_value TriTrue = VBoolean True"
| "tri_to_value TriFalse = VBoolean False"
| "tri_to_value TriUnknown = VNull"

fun tri_and :: "tri \<Rightarrow> tri \<Rightarrow> tri" where
  "tri_and TriFalse _ = TriFalse"
| "tri_and _ TriFalse = TriFalse"
| "tri_and TriTrue TriTrue = TriTrue"
| "tri_and _ _ = TriUnknown"

fun tri_or :: "tri \<Rightarrow> tri \<Rightarrow> tri" where
  "tri_or TriTrue _ = TriTrue"
| "tri_or _ TriTrue = TriTrue"
| "tri_or TriFalse TriFalse = TriFalse"
| "tri_or _ _ = TriUnknown"

subsection \<open>Operators\<close>

fun eval_unary :: "unary_operator \<Rightarrow> val \<Rightarrow> val outcome" where
  "eval_unary Negate VNull = Ok VNull"
| "eval_unary Negate (VBigInt n) =
    and_then (ok_or (Eval IntegerOverflow) (checked_i64 (- sint n))) (\<lambda>m. Ok (VBigInt m))"
| "eval_unary Negate other =
    and_then (expect (type_of other)) (\<lambda>t. Err (Eval (NegateNonBigInt t)))"
| "eval_unary Not v = and_then (value_to_tri v) (\<lambda>t. Ok (tri_to_value (tri_not t)))"

fun arith_result :: "binary_operator \<Rightarrow> i64 \<Rightarrow> i64 \<Rightarrow> i64 option outcome" where
  "arith_result Add l r = Ok (checked_i64 (sint l + sint r))"
| "arith_result Subtract l r = Ok (checked_i64 (sint l - sint r))"
| "arith_result Multiply l r = Ok (checked_i64 (sint l * sint r))"
| "arith_result Divide l r =
    (if r = 0 then Err (Eval DivisionByZero) else Ok (checked_i64 (sint l sdiv sint r)))"
| "arith_result _ l r = Panic"

definition eval_arith :: "binary_operator \<Rightarrow> val \<Rightarrow> val \<Rightarrow> val outcome" where
  "eval_arith opr l r =
     (if is_null l \<or> is_null r then Ok VNull
      else case (l, r) of
        (VBigInt a, VBigInt b) \<Rightarrow>
          and_then (arith_result opr a b) (\<lambda>res.
          and_then (ok_or (Eval IntegerOverflow) res) (\<lambda>n. Ok (VBigInt n)))
      | _ \<Rightarrow>
          and_then (expect (type_of l)) (\<lambda>lt.
          and_then (expect (type_of r)) (\<lambda>rt. Err (Eval (ArithNonBigInt lt rt)))))"

fun compare_result :: "binary_operator \<Rightarrow> ordering \<Rightarrow> bool outcome" where
  "compare_result Eq o' = Ok (o' = Equal)"
| "compare_result NotEq o' = Ok (o' \<noteq> Equal)"
| "compare_result Lt o' = Ok (o' = Less)"
| "compare_result LtEq o' = Ok (o' \<noteq> Greater)"
| "compare_result Gt o' = Ok (o' = Greater)"
| "compare_result GtEq o' = Ok (o' \<noteq> Less)"
| "compare_result _ o' = Panic"

definition eval_compare :: "binary_operator \<Rightarrow> val \<Rightarrow> val \<Rightarrow> val outcome" where
  "eval_compare opr l r =
     (if is_null l \<or> is_null r then Ok VNull
      else and_then
        (case (l, r) of
           (VBigInt a, VBigInt b) \<Rightarrow> Ok (cmp (sint a) (sint b))
         | (VText a, VText b) \<Rightarrow> Ok (cmp a b)
         | (VBoolean a, VBoolean b) \<Rightarrow> Ok (cmp a b)
         | _ \<Rightarrow>
             and_then (expect (type_of l)) (\<lambda>lt.
             and_then (expect (type_of r)) (\<lambda>rt. Err (Eval (CompareMixed lt rt)))))
        (\<lambda>o'. and_then (compare_result opr o') (\<lambda>b. Ok (VBoolean b))))"

definition resolve_data_type :: "string \<Rightarrow> data_type outcome" where
  "resolve_data_type n = ok_or (Eval (UnknownTypeName n)) (from_sql_name n)"

fun eval_cast :: "val \<Rightarrow> data_type \<Rightarrow> val outcome" where
  "eval_cast VNull _ = Ok VNull"
| "eval_cast (VBigInt n) TBigInt = Ok (VBigInt n)"
| "eval_cast (VText s) TText = Ok (VText s)"
| "eval_cast (VBoolean b) TBoolean = Ok (VBoolean b)"
| "eval_cast (VBigInt n) TText = Ok (VText (show_i64 n))"
| "eval_cast (VBoolean b) TText = Ok (VText (if b then ''true'' else ''false''))"
| "eval_cast (VText s) TBigInt =
    and_then (ok_or (Eval (CastTextToBigInt s)) (parse_i64 s)) (\<lambda>n. Ok (VBigInt n))"
| "eval_cast (VText s) TBoolean =
    (let l = to_ascii_lowercase s in
     if l = ''true'' then Ok (VBoolean True)
     else if l = ''false'' then Ok (VBoolean False)
     else Err (Eval (CastTextToBoolean s)))"
| "eval_cast v t = and_then (expect (type_of v)) (\<lambda>d. Err (Eval (CastUnsupported d t)))"

subsection \<open>Scalar functions\<close>

record function_entry =
  fn_func :: "val list \<Rightarrow> val outcome"
  fn_arg_types :: "data_type list"
  fn_return_type :: data_type

type_synonym function_registry = "string \<rightharpoonup> function_entry"

definition registry_new :: function_registry where
  "registry_new = Map.empty"

definition register_fn ::
  "function_registry \<Rightarrow> string \<Rightarrow> data_type list \<Rightarrow> data_type \<Rightarrow> (val list \<Rightarrow> val outcome)
   \<Rightarrow> function_registry" where
  "register_fn reg name ats rt f =
     reg(to_ascii_lowercase name \<mapsto> \<lparr>fn_func = f, fn_arg_types = ats, fn_return_type = rt\<rparr>)"

definition call_fn :: "function_registry \<Rightarrow> string \<Rightarrow> val list \<Rightarrow> val outcome" where
  "call_fn reg name args =
     (case reg (to_ascii_lowercase name) of
        Some entry \<Rightarrow> fn_func entry args
      | None \<Rightarrow> Err (Eval (UnknownFunction name)))"

definition arg_types :: "function_registry \<Rightarrow> string \<Rightarrow> data_type list outcome" where
  "arg_types reg name =
     (case reg (to_ascii_lowercase name) of
        Some entry \<Rightarrow> Ok (fn_arg_types entry)
      | None \<Rightarrow> Err (Eval (UnknownFunction name)))"

definition return_type :: "function_registry \<Rightarrow> string \<Rightarrow> data_type outcome" where
  "return_type reg name =
     (case reg (to_ascii_lowercase name) of
        Some entry \<Rightarrow> Ok (fn_return_type entry)
      | None \<Rightarrow> Err (Eval (UnknownFunction name)))"

fun expect_one_arg :: "string \<Rightarrow> val list \<Rightarrow> val outcome" where
  "expect_one_arg name [arg] = Ok arg"
| "expect_one_arg name args = Err (Eval (FunctionArity name (length args)))"

definition builtin_abs :: "val list \<Rightarrow> val outcome" where
  "builtin_abs args =
     and_then (expect_one_arg ''abs'' args) (\<lambda>v.
     case v of
       VNull \<Rightarrow> Ok VNull
     | VBigInt n \<Rightarrow>
         and_then (ok_or (Eval IntegerOverflow) (checked_i64 \<bar>sint n\<bar>)) (\<lambda>m. Ok (VBigInt m))
     | other \<Rightarrow>
         and_then (expect (type_of other)) (\<lambda>t. Err (Eval (FunctionArgType ''abs'' t))))"

definition builtin_length :: "val list \<Rightarrow> val outcome" where
  "builtin_length args =
     and_then (expect_one_arg ''length'' args) (\<lambda>v.
     case v of
       VNull \<Rightarrow> Ok VNull
     | VText s \<Rightarrow> Ok (VBigInt (of_nat (char_count s)))
     | other \<Rightarrow>
         and_then (expect (type_of other)) (\<lambda>t. Err (Eval (FunctionArgType ''length'' t))))"

definition with_builtins :: function_registry where
  "with_builtins =
     register_fn (register_fn registry_new ''abs'' [TBigInt] TBigInt builtin_abs)
       ''length'' [TText] TBigInt builtin_length"

subsection \<open>Evaluators\<close>

fun logic_op :: "binary_operator \<Rightarrow> bool" where
  "logic_op And = True"
| "logic_op Or = True"
| "logic_op _ = False"

fun arith_op :: "binary_operator \<Rightarrow> bool" where
  "arith_op Add = True"
| "arith_op Subtract = True"
| "arith_op Multiply = True"
| "arith_op Divide = True"
| "arith_op _ = False"

text \<open>
  The dispatch of \<open>eval_binary\<close> and \<open>eval_binary_bound\<close>, which differ only in the evaluator they
  call on the operands: \<open>l\<close> and \<open>r\<close> are the outcomes of those calls. AND and OR convert the left
  operand to a truth value before the right one is evaluated, and evaluate both (no short circuit).
\<close>

definition binary_dispatch :: "binary_operator \<Rightarrow> val outcome \<Rightarrow> val outcome \<Rightarrow> val outcome" where
  "binary_dispatch opr l r =
     (if logic_op opr then
        and_then (and_then l value_to_tri) (\<lambda>a.
        and_then (and_then r value_to_tri) (\<lambda>b.
        Ok (tri_to_value (if opr = And then tri_and a b else tri_or a b))))
      else if arith_op opr then
        and_then l (\<lambda>a. and_then r (\<lambda>b. eval_arith opr a b))
      else
        and_then l (\<lambda>a. and_then r (\<lambda>b. eval_compare opr a b)))"

fun eval_expr :: "expr \<Rightarrow> function_registry \<Rightarrow> row option \<Rightarrow> val outcome"
and eval_expr_args :: "expr list \<Rightarrow> function_registry \<Rightarrow> row option \<Rightarrow> val list outcome" where
  "eval_expr (IntLiteral v _) fns row = Ok (VBigInt v)"
| "eval_expr (StringLiteral v _) fns row = Ok (VText v)"
| "eval_expr (BoolLiteral v _) fns row = Ok (VBoolean v)"
| "eval_expr (NullLiteral _) fns row = Ok VNull"
| "eval_expr (ColumnRef _ name _) fns row =
    (case row of
       Some rw \<Rightarrow> ok_or (Eval (ColumnMissing name)) (row_get rw name)
     | None \<Rightarrow> Err (Eval (NoRowForColumn name)))"
| "eval_expr (Paren e _) fns row = eval_expr e fns row"
| "eval_expr (UnaryOp opr e _) fns row = and_then (eval_expr e fns row) (eval_unary opr)"
| "eval_expr (BinaryOp opr l r _) fns row =
    binary_dispatch opr (eval_expr l fns row) (eval_expr r fns row)"
| "eval_expr (IsNull e negated _) fns row =
    and_then (eval_expr e fns row) (\<lambda>v.
    Ok (VBoolean (if negated then \<not> is_null v else is_null v)))"
| "eval_expr (Cast e type_name _) fns row =
    and_then (eval_expr e fns row) (\<lambda>v.
    and_then (resolve_data_type (id_name type_name)) (\<lambda>t. eval_cast v t))"
| "eval_expr (FunctionCall name args _) fns row =
    and_then (eval_expr_args args fns row) (\<lambda>vs. call_fn fns name vs)"
| "eval_expr (Aggregate _ _ _) fns row = Err (Eval AggregateOutsideRows)"
| "eval_expr (Param i _) fns row = Err (Eval (ParamUnbound i))"
| "eval_expr_args [] fns row = Ok []"
| "eval_expr_args (e # es) fns row =
    and_then (eval_expr e fns row) (\<lambda>v.
    and_then (eval_expr_args es fns row) (\<lambda>vs. Ok (v # vs)))"

fun eval_bound_expr :: "bound_expr \<Rightarrow> function_registry \<Rightarrow> row option \<Rightarrow> val outcome"
and eval_bound_args :: "bound_expr list \<Rightarrow> function_registry \<Rightarrow> row option \<Rightarrow> val list outcome"
where
  "eval_bound_expr (BIntLiteral v _) fns row = Ok (VBigInt v)"
| "eval_bound_expr (BStringLiteral v _) fns row = Ok (VText v)"
| "eval_bound_expr (BBoolLiteral v _) fns row = Ok (VBoolean v)"
| "eval_bound_expr (BNullLiteral _) fns row = Ok VNull"
| "eval_bound_expr (BColumnRef _ i name _ _) fns row =
    (case row of
       Some rw \<Rightarrow> ok_or (Eval (ColumnMissing name)) (get_index rw i)
     | None \<Rightarrow> Err (Eval (NoRowForColumn name)))"
| "eval_bound_expr (BParen e _) fns row = eval_bound_expr e fns row"
| "eval_bound_expr (BUnaryOp opr e _ _) fns row =
    and_then (eval_bound_expr e fns row) (eval_unary opr)"
| "eval_bound_expr (BBinaryOp opr l r _ _) fns row =
    binary_dispatch opr (eval_bound_expr l fns row) (eval_bound_expr r fns row)"
| "eval_bound_expr (BIsNull e negated _) fns row =
    and_then (eval_bound_expr e fns row) (\<lambda>v.
    Ok (VBoolean (if negated then \<not> is_null v else is_null v)))"
| "eval_bound_expr (BCast e t _) fns row =
    and_then (eval_bound_expr e fns row) (\<lambda>v. eval_cast v t)"
| "eval_bound_expr (BFunctionCall name args _ _) fns row =
    and_then (eval_bound_args args fns row) (\<lambda>vs. call_fn fns name vs)"
| "eval_bound_expr (BAggregate _ _ _ _) fns row = Err (Eval AggregateNotRewritten)"
| "eval_bound_expr (BParam i _ _) fns row = Err (Eval (ParamUnbound i))"
| "eval_bound_args [] fns row = Ok []"
| "eval_bound_args (e # es) fns row =
    and_then (eval_bound_expr e fns row) (\<lambda>v.
    and_then (eval_bound_args es fns row) (\<lambda>vs. Ok (v # vs)))"

subsection \<open>Laws of the three-valued logic\<close>

text \<open>Truth values are ordered FALSE, UNKNOWN, TRUE; AND and OR are meet and join of that chain.\<close>

fun tri_rank :: "tri \<Rightarrow> nat" where
  "tri_rank TriFalse = 0"
| "tri_rank TriUnknown = 1"
| "tri_rank TriTrue = 2"

lemma tri_rank_inject [simp]: "tri_rank a = tri_rank b \<longleftrightarrow> a = b"
  by (cases a; cases b) auto

instantiation tri :: linorder
begin

definition less_eq_tri :: "tri \<Rightarrow> tri \<Rightarrow> bool" where
  "less_eq_tri a b = (tri_rank a \<le> tri_rank b)"

definition less_tri :: "tri \<Rightarrow> tri \<Rightarrow> bool" where
  "less_tri a b = (tri_rank a < tri_rank b)"

instance
  by intro_classes (auto simp: less_eq_tri_def less_tri_def)

end

lemma tri_and_min: "tri_and a b = min a b"
  by (cases a; cases b) (simp_all add: min_def less_eq_tri_def)

lemma tri_or_max: "tri_or a b = max a b"
  by (cases a; cases b) (simp_all add: max_def less_eq_tri_def)

lemma tri_de_morgan: "tri_not (tri_and a b) = tri_or (tri_not a) (tri_not b)"
  by (cases a; cases b) simp_all

lemma value_to_tri_total: "of_type TBoolean v \<Longrightarrow> \<exists>x. value_to_tri v = Ok x \<and> tri_to_value x = v"
  by (elim of_type_cases) (auto split: bool.splits, metis (full_types) tri_to_value.simps value_to_tri.simps)

lemma value_to_tri_to_value [simp]: "value_to_tri (tri_to_value x) = Ok x"
  by (cases x) simp_all

lemma of_type_tri [simp]: "of_type TBoolean (tri_to_value x)"
  by (cases x) simp_all



subsection \<open>Arithmetic\<close>

fun exact_result :: "binary_operator \<Rightarrow> int \<Rightarrow> int \<Rightarrow> int" where
  "exact_result Add x y = x + y"
| "exact_result Subtract x y = x - y"
| "exact_result Multiply x y = x * y"
| "exact_result _ x y = x sdiv y"

lemma arith_result_exact:
  "arith_op opr \<Longrightarrow> opr \<noteq> Divide \<or> b \<noteq> 0 \<Longrightarrow>
   arith_result opr a b = Ok (checked_i64 (exact_result opr (sint a) (sint b)))"
  by (cases opr) auto

lemma eval_arith_BigInt:
  assumes "arith_op opr"
  shows "eval_arith opr (VBigInt a) (VBigInt b) =
    (if opr = Divide \<and> b = 0 then Err (Eval DivisionByZero)
     else if i64_range (exact_result opr (sint a) (sint b))
     then Ok (VBigInt (word_of_int (exact_result opr (sint a) (sint b))))
     else Err (Eval IntegerOverflow))"
proof (cases "opr = Divide \<and> b = 0")
  case True
  then show ?thesis by (simp add: eval_arith_def)
next
  case False
  then show ?thesis
    using arith_result_exact [OF assms, of b a] by (auto simp: eval_arith_def checked_i64_def)
qed

text \<open>Division truncates toward zero, and only the least integer divided by -1 overflows.\<close>

lemma sdiv_overflow:
  assumes "y \<noteq> 0" "i64_range x" "i64_range y"
  shows "i64_range (x sdiv y) \<longleftrightarrow> \<not> (x = - (2 ^ 63) \<and> y = - 1)"
proof -
  let ?q = "\<bar>x\<bar> div \<bar>y\<bar>"
  have q0: "0 \<le> ?q" by (simp add: pos_imp_zdiv_nonneg_iff assms(1))
  have eq: "x sdiv y = sgn x * sgn y * ?q" by (simp add: signed_divide_int_def)
  show ?thesis
  proof (cases "\<bar>y\<bar> = 1")
    case True
    then have "y = 1 \<or> y = - 1" by linarith
    with assms(2) show ?thesis unfolding eq by (auto simp: i64_range_def sgn_if)
  next
    case False
    with assms(1) have y2: "2 \<le> \<bar>y\<bar>" by linarith
    have "?q \<le> \<bar>x\<bar> div 2" using y2 by (intro zdiv_mono2) auto
    then have "?q < 2 ^ 63" using assms(2) by (auto simp: i64_range_def)
    moreover have "sgn x * sgn y * ?q = ?q \<or> sgn x * sgn y * ?q = - ?q \<or> sgn x * sgn y * ?q = 0"
      by (auto simp: sgn_if)
    ultimately have "i64_range (x sdiv y)" unfolding eq i64_range_def using q0 by auto
    with y2 show ?thesis by auto
  qed
qed

text \<open>
  C3: a BIGINT operator never wraps. On two BIGINTs, \<open>eval_arith\<close> returns the exact integer result
  (division truncating toward zero) when it fits in 64 bits, an overflow error exactly when it does
  not, and a division-by-zero error exactly for a zero divisor; a quotient overflows only for the
  least integer divided by -1; and NULL on either side gives NULL before any check.
\<close>

theorem eval_arith_exact:
  assumes "arith_op opr"
  shows "eval_arith opr (VBigInt a) (VBigInt b) =
      (if opr = Divide \<and> b = 0 then Err (Eval DivisionByZero)
       else if i64_range (exact_result opr (sint a) (sint b))
       then Ok (VBigInt (word_of_int (exact_result opr (sint a) (sint b))))
       else Err (Eval IntegerOverflow))
    \<and> (\<forall>n. eval_arith opr (VBigInt a) (VBigInt b) = Ok (VBigInt n) \<longrightarrow>
         sint n = exact_result opr (sint a) (sint b))
    \<and> (b \<noteq> 0 \<longrightarrow> (i64_range (exact_result Divide (sint a) (sint b))
         \<longleftrightarrow> \<not> (sint a = - (2 ^ 63) \<and> sint b = - 1)))
    \<and> eval_arith opr VNull v = Ok VNull \<and> eval_arith opr v VNull = Ok VNull"
proof -
  have "sint b \<noteq> 0" if "b \<noteq> 0" using that by (metis signed_0 sint_eq_iff)
  then have "b \<noteq> 0 \<Longrightarrow> i64_range (sint a sdiv sint b) \<longleftrightarrow> \<not> (sint a = - (2 ^ 63) \<and> sint b = - 1)"
    by (intro sdiv_overflow) auto
  moreover have "eval_arith opr VNull v = Ok VNull" "eval_arith opr v VNull = Ok VNull"
    by (simp_all add: eval_arith_def)
  ultimately show ?thesis
    using eval_arith_BigInt [OF assms, of a b] by (auto simp: sint_word_of_int)
qed

theorem eval_arith_exact_witness:
  "eval_arith Add (VBigInt (2 ^ 62)) (VBigInt (2 ^ 62)) = Err (Eval IntegerOverflow)"
  using eval_arith_exact [of Add "2 ^ 62" "2 ^ 62"] by (simp add: i64_range_def)

subsection \<open>CAST\<close>

lemma lower_true_false:
  "to_ascii_lowercase ''true'' = ''true''" "to_ascii_lowercase ''false'' = ''false''"
  by (simp_all add: to_ascii_lowercase_def lower_char_def less_eq_char_def)

text \<open>
  CAST to TEXT loses nothing: every BIGINT and every BOOLEAN comes back from its text form, and
  CAST to the value's own type and CAST of NULL are identities.
\<close>

lemma eval_cast_roundtrip:
  "and_then (eval_cast (VBigInt n) TText) (\<lambda>t. eval_cast t TBigInt) = Ok (VBigInt n)
   \<and> and_then (eval_cast (VBoolean b) TText) (\<lambda>t. eval_cast t TBoolean) = Ok (VBoolean b)
   \<and> eval_cast VNull t = Ok VNull
   \<and> (\<forall>v. type_of v = Some t \<longrightarrow> eval_cast v t = Ok v)"
proof -
  have "type_of v = Some t \<longrightarrow> eval_cast v t = Ok v" for v by (cases v) auto
  then show ?thesis by (simp add: lower_true_false)
qed

lemma eval_cast_roundtrip_witness:
  "eval_cast (VText ''7'') TText = Ok (VText ''7'')"
  using eval_cast_roundtrip [of 0 True TText] by simp

end
