(* ===== verification/Binder.thy ===== *)
theory Binder
  imports Eval
begin

text \<open>
  Name resolution and type checking of expressions (\<open>Binder\<close> of \<open>src/src/binder.rs\<close>), the display
  form of bound expressions that it uses as a key (\<open>fmt_bound_expr\<close> of \<open>src/src/logical_plan.rs\<close>),
  and the rewriting of GROUP BY and ORDER BY expressions to output slots. The catalog is the map of
  the trait \<open>CatalogLookup\<close>.
\<close>

subsection \<open>State\<close>

record table_info =
  ti_id :: u64
  ti_name :: string
  ti_schema :: schema

record binder_env =
  b_table :: "string \<Rightarrow> table_info option"
  b_index_exists :: "string \<Rightarrow> bool"
  b_functions :: function_registry
  b_sql :: string

record bound_table_ref =
  bt_table_id :: u64
  bt_table_name :: string
  bt_alias :: "string option"
  bt_schema :: schema

definition table_qualifier :: "bound_table_ref \<Rightarrow> string" where
  "table_qualifier t = (case bt_alias t of Some a \<Rightarrow> a | None \<Rightarrow> bt_table_name t)"

definition error_at :: "binder_env \<Rightarrow> span \<Rightarrow> db_error" where
  "error_at b s = (let (l, c) = line_col (b_sql b) (span_start s) in Bind l c)"

definition resolve_table :: "binder_env \<Rightarrow> ident \<Rightarrow> ident option \<Rightarrow> bound_table_ref outcome" where
  "resolve_table b t al =
     and_then (ok_or (error_at b (id_span t)) (b_table b (id_name t))) (\<lambda>info.
     Ok \<lparr>bt_table_id = ti_id info, bt_table_name = ti_name info,
         bt_alias = map_option id_name al, bt_schema = ti_schema info\<rparr>)"

subsection \<open>Columns\<close>

definition table_offset :: "bound_table_ref list \<Rightarrow> nat \<Rightarrow> nat" where
  "table_offset ts k = sum_list (map (\<lambda>t. schema_len (bt_schema t)) (take k ts))"

definition column_matches :: "bound_table_ref list \<Rightarrow> string \<Rightarrow> (nat \<times> nat \<times> data_type) list" where
  "column_matches ts name =
     List.map_filter (\<lambda>(k, t). map_option
         (\<lambda>i. (k, table_offset ts k + i, col_type (columns (bt_schema t) ! i)))
         (index_of (bt_schema t) name))
       (enumerate 0 ts)"

definition resolve_column ::
  "binder_env \<Rightarrow> ident option \<Rightarrow> string \<Rightarrow> span \<Rightarrow> bound_table_ref list \<Rightarrow> bound_expr outcome" where
  "resolve_column b qualifier name s ts =
     (case qualifier of
        Some q \<Rightarrow>
          and_then (ok_or (error_at b (id_span q))
            (position (\<lambda>t. table_qualifier t = id_name q) ts)) (\<lambda>k.
          and_then (ok_or (error_at b s) (index_of (bt_schema (ts ! k)) name)) (\<lambda>i.
          Ok (BColumnRef k (table_offset ts k + i) name
                (col_type (columns (bt_schema (ts ! k)) ! i)) s)))
      | None \<Rightarrow>
          (case column_matches ts name of
             [] \<Rightarrow> Err (error_at b s)
           | [(k, i, t)] \<Rightarrow> Ok (BColumnRef k i name t s)
           | _ \<Rightarrow> Err (error_at b s)))"

subsection \<open>Type checks\<close>

definition check_unary_type :: "binder_env \<Rightarrow> unary_operator \<Rightarrow> bound_expr \<Rightarrow> span \<Rightarrow> data_type outcome" where
  "check_unary_type b opr operand s =
     (case opr of
        Negate \<Rightarrow> (case bound_type operand of
            Some t \<Rightarrow> if t \<noteq> TBigInt then Err (error_at b s) else Ok TBigInt
          | None \<Rightarrow> Ok TBigInt)
      | Not \<Rightarrow> (case bound_type operand of
            Some t \<Rightarrow> if t \<noteq> TBoolean then Err (error_at b s) else Ok TBoolean
          | None \<Rightarrow> Ok TBoolean))"

definition check_binary_type ::
  "binder_env \<Rightarrow> binary_operator \<Rightarrow> bound_expr \<Rightarrow> bound_expr \<Rightarrow> span \<Rightarrow> data_type outcome" where
  "check_binary_type b opr lhs rhs s =
     (let l = bound_type lhs; r = bound_type rhs in
      if arith_op opr then
        (if \<not> (l = None \<or> l = Some TBigInt) \<or> \<not> (r = None \<or> r = Some TBigInt)
         then Err (error_at b s) else Ok TBigInt)
      else if logic_op opr then
        (if l \<noteq> None \<and> l \<noteq> Some TBoolean then Err (error_at b s)
         else if r \<noteq> None \<and> r \<noteq> Some TBoolean then Err (error_at b s)
         else Ok TBoolean)
      else
        (let ok = (case (l, r) of (Some x, Some y) \<Rightarrow> x = y | _ \<Rightarrow> True) in
         if \<not> ok then Err (error_at b s) else Ok TBoolean))"

definition check_aggregate_arg_type ::
  "binder_env \<Rightarrow> aggregate_func \<Rightarrow> bound_expr option \<Rightarrow> span \<Rightarrow> data_type outcome" where
  "check_aggregate_arg_type b func arg s =
     (case func of
        Count \<Rightarrow> Ok TBigInt
      | Sum \<Rightarrow>
          and_then (expect arg) (\<lambda>a.
          case bound_type a of
            Some t \<Rightarrow> if t \<noteq> TBigInt then Err (error_at b s) else Ok TBigInt
          | None \<Rightarrow> Ok TBigInt)
      | _ \<Rightarrow>
          and_then (expect arg) (\<lambda>a.
          Ok (case bound_type a of Some t \<Rightarrow> t | None \<Rightarrow> TText)))"

text \<open>\<open>bind_aggregate\<close>, given the outcome of binding the argument.\<close>

definition bind_aggregate ::
  "binder_env \<Rightarrow> aggregate_func \<Rightarrow> bound_expr outcome option \<Rightarrow> span \<Rightarrow> bound_expr outcome" where
  "bind_aggregate b func arg s =
     and_then
       (case arg of
          Some r \<Rightarrow> and_then r (\<lambda>e.
            if bound_contains_aggregate e then Err (error_at b (bound_span e)) else Ok (Some e))
        | None \<Rightarrow> Ok None)
       (\<lambda>e. and_then (check_aggregate_arg_type b func e s) (\<lambda>t. Ok (BAggregate func e t s)))"

definition wrap_eval_error :: "binder_env \<Rightarrow> span \<Rightarrow> 'a outcome \<Rightarrow> 'a outcome" where
  "wrap_eval_error b s r = (case r of Err (Eval _) \<Rightarrow> Err (error_at b s) | _ \<Rightarrow> r)"

definition unary_hint :: "unary_operator \<Rightarrow> data_type" where
  "unary_hint opr = (case opr of Negate \<Rightarrow> TBigInt | Not \<Rightarrow> TBoolean)"

definition binary_hint :: "binary_operator \<Rightarrow> bound_expr \<Rightarrow> bound_expr \<Rightarrow> data_type option" where
  "binary_hint opr l r =
     (if arith_op opr then Some TBigInt
      else if logic_op opr then Some TBoolean
      else (case bound_type l of None \<Rightarrow> bound_type r | Some t \<Rightarrow> Some t))"

subsection \<open>Expressions\<close>

fun bind_expr :: "binder_env \<Rightarrow> expr \<Rightarrow> bound_table_ref list \<Rightarrow> bound_expr outcome"
and bind_args ::
  "binder_env \<Rightarrow> expr list \<Rightarrow> data_type list \<Rightarrow> bound_table_ref list \<Rightarrow> bound_expr list outcome" where
  "bind_expr b (IntLiteral v s) ts = Ok (BIntLiteral v s)"
| "bind_expr b (StringLiteral v s) ts = Ok (BStringLiteral v s)"
| "bind_expr b (BoolLiteral v s) ts = Ok (BBoolLiteral v s)"
| "bind_expr b (NullLiteral s) ts = Ok (BNullLiteral s)"
| "bind_expr b (Param i s) ts = Ok (BParam i None s)"
| "bind_expr b (ColumnRef q name s) ts = resolve_column b q name s ts"
| "bind_expr b (Paren e s) ts = and_then (bind_expr b e ts) (\<lambda>inner. Ok (BParen inner s))"
| "bind_expr b (UnaryOp opr e s) ts =
    and_then (bind_expr b e ts) (\<lambda>e1.
    let operand = coerce_param_type e1 (Some (unary_hint opr)) in
    and_then (check_unary_type b opr operand s) (\<lambda>t. Ok (BUnaryOp opr operand t s)))"
| "bind_expr b (BinaryOp opr l r s) ts =
    and_then (bind_expr b l ts) (\<lambda>l1.
    and_then (bind_expr b r ts) (\<lambda>r1.
    let hint = binary_hint opr l1 r1;
        l2 = coerce_param_type l1 hint;
        r2 = coerce_param_type r1 hint in
    and_then (check_binary_type b opr l2 r2 s) (\<lambda>t. Ok (BBinaryOp opr l2 r2 t s))))"
| "bind_expr b (IsNull e negated s) ts =
    and_then (bind_expr b e ts) (\<lambda>e1. Ok (BIsNull e1 negated s))"
| "bind_expr b (Cast e type_name s) ts =
    and_then (ok_or (error_at b (id_span type_name)) (from_sql_name (id_name type_name))) (\<lambda>t.
    and_then (bind_expr b e ts) (\<lambda>e1. Ok (BCast (coerce_param_type e1 (Some t)) t s)))"
| "bind_expr b (FunctionCall name args s) ts =
    and_then (wrap_eval_error b s (arg_types (b_functions b) name)) (\<lambda>ats.
    if length args \<noteq> length ats then Err (error_at b s)
    else and_then (bind_args b args ats ts) (\<lambda>bargs.
      and_then (wrap_eval_error b s (return_type (b_functions b) name)) (\<lambda>rt.
      Ok (BFunctionCall (to_ascii_lowercase name) bargs rt s))))"
| "bind_expr b (Aggregate func None s) ts = bind_aggregate b func None s"
| "bind_expr b (Aggregate func (Some e) s) ts = bind_aggregate b func (Some (bind_expr b e ts)) s"
| "bind_args b (a # as) (expected # ats) ts =
    and_then (bind_expr b a ts) (\<lambda>a1.
    let arg = coerce_param_type a1 (Some expected) in
    if (case bound_type arg of Some t \<Rightarrow> t \<noteq> expected | None \<Rightarrow> False)
    then Err (error_at b (bound_span arg))
    else and_then (bind_args b as ats ts) (\<lambda>rest. Ok (arg # rest)))"
| "bind_args b [] ats ts = Ok []"
| "bind_args b as [] ts = Ok []"

definition bind_predicate :: "binder_env \<Rightarrow> expr \<Rightarrow> bound_table_ref list \<Rightarrow> bound_expr outcome" where
  "bind_predicate b e ts =
     and_then (bind_expr b e ts) (\<lambda>bound.
     case bound_type bound of
       Some t \<Rightarrow> if t = TBoolean then Ok bound else Err (error_at b (bound_span bound))
     | None \<Rightarrow> Ok bound)"

definition eval_row_count_expr :: "binder_env \<Rightarrow> expr \<Rightarrow> nat outcome" where
  "eval_row_count_expr b e =
     and_then (bind_expr b e []) (\<lambda>bound.
     if bound_type bound \<noteq> Some TBigInt then Err (error_at b (bound_span bound))
     else and_then (wrap_eval_error b (bound_span bound) (eval_bound_expr bound (b_functions b) None))
       (\<lambda>v. case v of
          VBigInt n \<Rightarrow> if 0 \<le> sint n then Ok (nat (sint n)) else Err (error_at b (bound_span bound))
        | VNull \<Rightarrow> Err (error_at b (bound_span bound))
        | _ \<Rightarrow> Panic))"

subsection \<open>Flat columns\<close>

text \<open>The columns of the joined row that \<open>column_index\<close> counts.\<close>

definition flat_columns :: "bound_table_ref list \<Rightarrow> column list" where
  "flat_columns ts = concat (map (\<lambda>t. columns (bt_schema t)) ts)"

lemma nth_concat_prefix:
  assumes "k < length xss" "i < length (xss ! k)"
  shows "sum_list (map length (take k xss)) + i < length (concat xss)
    \<and> concat xss ! (sum_list (map length (take k xss)) + i) = xss ! k ! i"
  using assms
proof (induction xss arbitrary: k)
  case (Cons xs xss)
  then show ?case by (cases k) (auto simp: nth_append)
qed simp

lemma flat_columns_nth:
  assumes "k < length ts" "i < length (columns (bt_schema (ts ! k)))"
  shows "table_offset ts k + i < length (flat_columns ts)"
    and "flat_columns ts ! (table_offset ts k + i) = columns (bt_schema (ts ! k)) ! i"
  using nth_concat_prefix [of k "map (\<lambda>t. columns (bt_schema t)) ts" i] assms
  by (simp_all add: flat_columns_def table_offset_def schema_len_def take_map comp_def)

lemma resolve_column_Ok:
  assumes "resolve_column b q name s ts = Ok e"
  obtains k i where "k < length ts" "index_of (bt_schema (ts ! k)) name = Some i"
    "e = BColumnRef k (table_offset ts k + i) name (col_type (columns (bt_schema (ts ! k)) ! i)) s"
proof (cases q)
  case (Some r)
  then show ?thesis
    using assms that by (auto simp: resolve_column_def and_then_Ok_iff position_Some_iff)
next
  case None
  with assms obtain k j t where m: "column_matches ts name = [(k, j, t)]"
    and e: "e = BColumnRef k j name t s"
    by (auto simp: resolve_column_def split: list.splits prod.splits)
  then have "(k, j, t) \<in> set (column_matches ts name)" by simp
  then show ?thesis
    using that e by (auto simp: column_matches_def map_filter_def in_set_enumerate_eq)
qed

subsection \<open>Typing of bound expressions\<close>

definition fits :: "data_type \<Rightarrow> data_type option \<Rightarrow> bool" where
  "fits t ot = (ot = None \<or> ot = Some t)"

fun well_typed :: "function_registry \<Rightarrow> column list \<Rightarrow> bound_expr \<Rightarrow> bool" where
  "well_typed reg cols (BColumnRef _ i _ t _) = (i < length cols \<and> col_type (cols ! i) = t)"
| "well_typed reg cols (BUnaryOp opr e t _) =
    (well_typed reg cols e \<and> fits (unary_hint opr) (bound_type e) \<and> t = unary_hint opr)"
| "well_typed reg cols (BBinaryOp opr l r t _) =
    (well_typed reg cols l \<and> well_typed reg cols r
     \<and> (if arith_op opr then fits TBigInt (bound_type l) \<and> fits TBigInt (bound_type r) \<and> t = TBigInt
        else if logic_op opr
        then fits TBoolean (bound_type l) \<and> fits TBoolean (bound_type r) \<and> t = TBoolean
        else (bound_type l = None \<or> bound_type r = None \<or> bound_type l = bound_type r)
             \<and> t = TBoolean))"
| "well_typed reg cols (BIsNull e _ _) = well_typed reg cols e"
| "well_typed reg cols (BFunctionCall name args t _) =
    (list_all (well_typed reg cols) args
     \<and> (case reg (to_ascii_lowercase name) of
          Some entry \<Rightarrow> list_all2 fits (fn_arg_types entry) (map bound_type args)
            \<and> t = fn_return_type entry
        | None \<Rightarrow> False))"
| "well_typed reg cols (BParen e _) = well_typed reg cols e"
| "well_typed reg cols (BCast e _ _) = well_typed reg cols e"
| "well_typed reg cols _ = True"

lemma well_typed_coerce [simp]:
  "well_typed reg cols (coerce_param_type e h) \<longleftrightarrow> well_typed reg cols e"
  by (cases "(e, h)" rule: coerce_param_type.cases) auto

lemma upper_lower_char: "lower_char (lower_char c) = lower_char c"
proof -
  have "n < 256 \<Longrightarrow> lower_char (lower_char (char_of n)) = lower_char (char_of n)" for n :: nat
    by (auto simp: lower_char_def less_eq_char_def)
  from this [of "of_char c"] nat_of_char_less_256 show ?thesis by simp
qed

lemma lowercase_idem [simp]: "to_ascii_lowercase (to_ascii_lowercase s) = to_ascii_lowercase s"
  by (simp add: to_ascii_lowercase_def comp_def upper_lower_char)

lemma wrap_eval_error_Ok [simp]: "wrap_eval_error b s r = Ok x \<longleftrightarrow> r = Ok x"
  by (auto simp: wrap_eval_error_def split: outcome.splits db_error.splits)

lemma check_unary_type_Ok:
  "check_unary_type b opr e s = Ok t \<longleftrightarrow> fits (unary_hint opr) (bound_type e) \<and> t = unary_hint opr"
  by (auto simp: check_unary_type_def fits_def unary_hint_def split: unary_operator.splits
      option.splits if_splits)

lemma arg_types_Ok:
  "arg_types reg n = Ok ats \<longleftrightarrow> (\<exists>e. reg (to_ascii_lowercase n) = Some e \<and> ats = fn_arg_types e)"
  "return_type reg n = Ok rt \<longleftrightarrow> (\<exists>e. reg (to_ascii_lowercase n) = Some e \<and> rt = fn_return_type e)"
  by (auto simp: arg_types_def return_type_def split: option.splits)

lemma bind_well_typed:
  "bind_expr b e ts = Ok be \<Longrightarrow> well_typed (b_functions b) (flat_columns ts) be"
  "length as = length ats \<Longrightarrow> bind_args b as ats ts = Ok bas \<Longrightarrow>
    list_all (well_typed (b_functions b) (flat_columns ts)) bas
    \<and> list_all2 fits ats (map bound_type bas)"
proof (induction b e ts and b as ats ts arbitrary: be and bas rule: bind_expr_bind_args.induct)
  case (6 b q name s ts)
  then show ?case
    by (auto elim!: resolve_column_Ok simp: flat_columns_nth index_of_column)
next
  case (8 b opr e s ts)
  then show ?case by (auto simp: and_then_Ok_iff Let_def check_unary_type_Ok)
next
  case (9 b opr l r s ts)
  then show ?case
    by (auto simp: and_then_Ok_iff Let_def check_binary_type_def fits_def split: if_splits option.splits)
next
  case (12 b name args s ts)
  then show ?case
    by (auto simp: and_then_Ok_iff arg_types_Ok split: if_splits)
next
  case (13 b func s ts)
  then show ?case by (auto simp: bind_aggregate_def and_then_Ok_iff)
next
  case (14 b func e s ts)
  then show ?case by (auto simp: bind_aggregate_def and_then_Ok_iff)
next
  case (15 b a as expected ats ts)
  then show ?case
    by (auto simp: and_then_Ok_iff Let_def fits_def split: if_splits option.splits)
qed (auto simp: and_then_Ok_iff)

subsection \<open>Evaluation of well-typed expressions\<close>

text \<open>The causes that no static check can exclude.\<close>

fun runtime_cause :: "eval_cause \<Rightarrow> bool" where
  "runtime_cause IntegerOverflow = True"
| "runtime_cause DivisionByZero = True"
| "runtime_cause (CastTextToBigInt _) = True"
| "runtime_cause (CastTextToBoolean _) = True"
| "runtime_cause (CastUnsupported _ _) = True"
| "runtime_cause _ = False"

definition typed_result :: "data_type option \<Rightarrow> val outcome \<Rightarrow> bool" where
  "typed_result ot r =
     (case r of
        Ok v \<Rightarrow> (case ot of None \<Rightarrow> v = VNull | Some t \<Rightarrow> of_type t v)
      | Err (Eval c) \<Rightarrow> runtime_cause c
      | _ \<Rightarrow> False)"

lemma typed_result_simps [simp]:
  "typed_result None (Ok v) \<longleftrightarrow> v = VNull"
  "typed_result (Some t) (Ok v) \<longleftrightarrow> of_type t v"
  "typed_result ot (Err (Eval c)) \<longleftrightarrow> runtime_cause c"
  "\<not> typed_result ot Panic"
  by (simp_all add: typed_result_def)

lemma typed_result_cases:
  assumes "typed_result ot r"
  obtains v where "r = Ok v" "case ot of None \<Rightarrow> v = VNull | Some t \<Rightarrow> of_type t v"
  | c where "r = Err (Eval c)" "runtime_cause c"
  using assms by (auto simp: typed_result_def split: outcome.splits db_error.splits)

lemma typed_result_fits:
  assumes "typed_result ot r" "fits t ot"
  obtains v where "r = Ok v" "of_type t v"
  | c where "r = Err (Eval c)" "runtime_cause c"
  using assms by (elim typed_result_cases) (auto simp: fits_def)

lemma eval_unary_typed: "of_type (unary_hint opr) v \<Longrightarrow> typed_result (Some (unary_hint opr)) (eval_unary opr v)"
proof (cases opr)
  case Negate
  then show "of_type (unary_hint opr) v \<Longrightarrow> ?thesis"
    by (cases v) (auto simp: unary_hint_def ok_or_def split: option.splits)
next
  case Not
  then show "of_type (unary_hint opr) v \<Longrightarrow> ?thesis"
    using value_to_tri_total [of v] by (auto simp: unary_hint_def)
qed

lemma eval_arith_typed:
  assumes "arith_op opr" "of_type TBigInt a" "of_type TBigInt b"
  shows "typed_result (Some TBigInt) (eval_arith opr a b)"
  using assms eval_arith_BigInt [OF assms(1)] by (cases a; cases b) (auto simp: eval_arith_def)

lemma compare_result_Ok: "\<not> arith_op opr \<Longrightarrow> \<not> logic_op opr \<Longrightarrow> \<exists>x. compare_result opr o' = Ok x"
  by (cases opr) auto

lemma eval_compare_typed:
  assumes "\<not> arith_op opr" "\<not> logic_op opr" "of_type t a" "of_type t b"
  shows "typed_result (Some TBoolean) (eval_compare opr a b)"
proof (cases "a = VNull \<or> b = VNull")
  case True
  then show ?thesis by (auto simp: eval_compare_def)
next
  case False
  then obtain o' where "eval_compare opr a b = and_then (compare_result opr o') (\<lambda>b. Ok (VBoolean b))"
    using assms(3,4) by (elim of_type_cases) (auto simp: eval_compare_def)
  then show ?thesis using compare_result_Ok [OF assms(1,2), of o'] by auto
qed

lemma binary_dispatch_typed:
  assumes l: "typed_result lt l" and r: "typed_result rt r"
    and "if arith_op opr then fits TBigInt lt \<and> fits TBigInt rt \<and> t = TBigInt
      else if logic_op opr then fits TBoolean lt \<and> fits TBoolean rt \<and> t = TBoolean
      else (lt = None \<or> rt = None \<or> lt = rt) \<and> t = TBoolean"
  shows "typed_result (Some t) (binary_dispatch opr l r)"
proof -
  consider (arith) "arith_op opr" "\<not> logic_op opr" | (logic) "logic_op opr" "\<not> arith_op opr"
    | (compare) "\<not> arith_op opr" "\<not> logic_op opr" by (cases opr) auto
  then show ?thesis
  proof cases
    case arith
    with assms have f: "fits TBigInt lt" "fits TBigInt rt" "t = TBigInt" by auto
    from l f(1) show ?thesis
      by (rule typed_result_fits; insert r f(2,3))
        (auto simp: binary_dispatch_def arith eval_arith_typed elim!: typed_result_fits)
  next
    case logic
    with assms have f: "fits TBoolean lt" "fits TBoolean rt" "t = TBoolean" by auto
    from l f(1) show ?thesis
    proof (rule typed_result_fits)
      fix v assume "l = Ok v" "of_type TBoolean v"
      with r f(2,3) show ?thesis
        using value_to_tri_total [of v]
        by (auto simp: binary_dispatch_def logic elim!: typed_result_fits dest!: value_to_tri_total)
    qed (simp add: binary_dispatch_def logic)
  next
    case compare
    with assms have t: "t = TBoolean" and c: "lt = None \<or> rt = None \<or> lt = rt" by auto
    from c have "\<exists>u. fits u lt \<and> fits u rt" by (cases lt; cases rt) (auto simp: fits_def)
    with t obtain u where f: "fits u lt" "fits u rt" "t = TBoolean" by blast
    from l f(1) show ?thesis
      by (rule typed_result_fits; insert r f(2,3))
        (auto simp: binary_dispatch_def compare eval_compare_typed elim!: typed_result_fits)
  qed
qed

lemma eval_cast_typed:
  assumes "case ot of None \<Rightarrow> v = VNull | Some u \<Rightarrow> of_type u v"
  shows "typed_result (Some t) (eval_cast v t)"
  by (cases "(v, t)" rule: eval_cast.cases) (auto simp: ok_or_def Let_def split: option.splits)

subsubsection \<open>Function registries that respect their declared types\<close>

locale typed_functions =
  fixes reg :: function_registry
  assumes call_typed:
    "reg n = Some entry \<Longrightarrow> list_all2 of_type (fn_arg_types entry) vs \<Longrightarrow>
     typed_result (Some (fn_return_type entry)) (fn_func entry vs)"
begin

text \<open>A row that holds a value of the right type, or NULL, for every flat column.\<close>

lemma eval_well_typed:
  assumes row_typed: "list_all2 (\<lambda>v c. of_type (col_type c) v) (tup_values (row_tuple rw)) cols"
  shows "well_typed fns cols e \<Longrightarrow> closed_expr e \<Longrightarrow> fns = reg \<Longrightarrow> row = Some rw \<Longrightarrow>
      typed_result (bound_type e) (eval_bound_expr e fns row)"
    and "list_all (well_typed fns cols) es \<Longrightarrow> list_all closed_expr es \<Longrightarrow> fns = reg \<Longrightarrow>
      row = Some rw \<Longrightarrow> list_all2 fits ats (map bound_type es) \<Longrightarrow>
      (\<exists>vs. eval_bound_args es fns row = Ok vs \<and> list_all2 of_type ats vs)
      \<or> (\<exists>c. eval_bound_args es fns row = Err (Eval c) \<and> runtime_cause c)"
proof (induction e fns row and es fns row arbitrary: and ats
    rule: eval_bound_expr_eval_bound_args.induct)
  case (5 k i name t s fns row)
  then have i: "i < length cols" "col_type (cols ! i) = t" and r: "row = Some rw" by auto
  then show ?case using list_all2_nthD2 [OF row_typed i(1)] list_all2_lengthD [OF row_typed]
    by (simp add: get_index_def tuple_get_def get_at_def)
next
  case (7 opr e t s fns row)
  then have "typed_result (bound_type e) (eval_bound_expr e fns row)"
    and "fits (unary_hint opr) (bound_type e)" and "t = unary_hint opr" by auto
  then show ?case by (elim typed_result_fits) (auto simp: eval_unary_typed)
next
  case (8 opr l r t s fns row)
  then show ?case by (auto intro!: binary_dispatch_typed)
next
  case (9 e negated s fns row)
  then have "typed_result (bound_type e) (eval_bound_expr e fns row)" by auto
  then show ?case by (elim typed_result_cases) auto
next
  case (10 e t s fns row)
  then have "typed_result (bound_type e) (eval_bound_expr e fns row)" by auto
  then show ?case by (elim typed_result_cases) (auto simp: eval_cast_typed)
next
  case (11 name args t s fns row)
  then obtain entry where e: "reg (to_ascii_lowercase name) = Some entry"
    and a: "list_all2 fits (fn_arg_types entry) (map bound_type args)" "t = fn_return_type entry"
    by (auto split: option.splits)
  have "list_all (well_typed fns cols) args" "list_all closed_expr args" using 11 by auto
  from "11.IH" [OF this "11.prems"(3,4) a(1)] show ?case
    using call_typed [OF e] "11.prems"(3) by (auto simp: call_fn_def e a(2))
next
  case (15 e es fns row)
  from "15.prems"(5) obtain t ats' where ats: "ats = t # ats'"
    and f: "fits t (bound_type e)" "list_all2 fits ats' (map bound_type es)"
    by (auto simp: list_all2_Cons2)
  from 15 have "typed_result (bound_type e) (eval_bound_expr e fns row)" by simp
  then show ?case using f(1)
  proof (rule typed_result_fits)
    fix v assume v: "eval_bound_expr e fns row = Ok v" "of_type t v"
    show ?case using "15.IH"(2) [OF v(1) _ _ _ _ f(2)] "15.prems" v by (auto simp: ats)
  qed auto
qed auto

end

lemma builtin_abs_typed: "list_all2 of_type [TBigInt] vs \<Longrightarrow> typed_result (Some TBigInt) (builtin_abs vs)"
  by (auto simp: builtin_abs_def list_all2_Cons1 ok_or_def elim!: of_type_cases split: option.splits)

lemma builtin_length_typed: "list_all2 of_type [TText] vs \<Longrightarrow> typed_result (Some TBigInt) (builtin_length vs)"
  by (auto simp: builtin_length_def list_all2_Cons1 elim!: of_type_cases)

interpretation builtins: typed_functions with_builtins
proof
  fix n entry vs
  assume "with_builtins n = Some entry" and "list_all2 of_type (fn_arg_types entry) vs"
  then show "typed_result (Some (fn_return_type entry)) (fn_func entry vs)"
    using builtin_abs_typed builtin_length_typed
    by (auto simp: with_builtins_def register_fn_def registry_new_def split: if_splits)
qed

text \<open>
  C4: type soundness of the binder. If \<open>bind_expr\<close> accepts an expression that holds no parameter and
  no aggregate, then evaluating the bound expression on any row whose values have the types of the
  bound tables' columns gives a value of the type the binder computed (or NULL; only NULL when it
  computed none), or one of the errors no static check excludes: overflow, division by zero, a
  failed CAST. It never reports a missing column, a type mismatch of an operator, an unknown
  function, and it never panics.
\<close>

theorem bind_expr_sound:
  assumes "bind_expr b e ts = Ok be" "closed_expr be" "b_functions b = with_builtins"
    and "list_all2 (\<lambda>v c. of_type (col_type c) v) (tup_values (row_tuple rw)) (flat_columns ts)"
  shows "typed_result (bound_type be) (eval_bound_expr be with_builtins (Some rw))"
  using builtins.eval_well_typed(1) [OF assms(4)] bind_well_typed(1) [OF assms(1)] assms(2,3) by simp

definition sample_span :: span where
  "sample_span = \<lparr>span_start = 0, span_end = 0\<rparr>"

definition sample_table :: bound_table_ref where
  "sample_table = \<lparr>bt_table_id = 0, bt_table_name = ''t'', bt_alias = None,
     bt_schema = \<lparr>columns = [column_new ''id'' TBigInt False]\<rparr>\<rparr>"

definition sample_binder :: binder_env where
  "sample_binder = \<lparr>b_table = (\<lambda>n. None), b_index_exists = (\<lambda>n. False), b_functions = with_builtins, b_sql = []\<rparr>"

definition sample_row :: row where
  "sample_row = \<lparr>row_schema = bt_schema sample_table, row_tuple = \<lparr>tup_values = [VBigInt 7]\<rparr>\<rparr>"

lemmas sample_defs = sample_span_def sample_table_def sample_binder_def sample_row_def

theorem bind_expr_sound_witness:
  "typed_result (Some TBigInt)
     (eval_bound_expr
        (BBinaryOp Add (BColumnRef 0 0 ''id'' TBigInt sample_span) (BIntLiteral 1 sample_span)
          TBigInt sample_span)
        with_builtins (Some sample_row))"
  using bind_expr_sound [of sample_binder
      "BinaryOp Add (ColumnRef None ''id'' sample_span) (IntLiteral 1 sample_span) sample_span"
      "[sample_table]"
      "BBinaryOp Add (BColumnRef 0 0 ''id'' TBigInt sample_span) (BIntLiteral 1 sample_span)
         TBigInt sample_span" sample_row]
  by (simp add: sample_defs column_new_def resolve_column_def column_matches_def map_filter_def
      index_of_def table_offset_def check_binary_type_def flat_columns_def Let_def)

subsection \<open>The two evaluators agree\<close>

lemma eval_coerce [simp]: "eval_bound_expr (coerce_param_type e h) fns row = eval_bound_expr e fns row"
  by (cases "(e, h)" rule: coerce_param_type.cases) auto

lemma call_fn_lower [simp]:
  assumes "fns (to_ascii_lowercase name) = Some entry"
  shows "call_fn fns (to_ascii_lowercase name) = call_fn fns name"
  using assms by (simp add: call_fn_def fun_eq_iff)

lemma bind_eval_agree:
  "bind_expr b e ts = Ok be \<Longrightarrow> ts = [t] \<Longrightarrow> row_schema rw = bt_schema t \<Longrightarrow>
    \<not> ast_expr_contains_aggregate e \<Longrightarrow>
    eval_bound_expr be (b_functions b) (Some rw) = eval_expr e (b_functions b) (Some rw)"
  "length as = length ats \<Longrightarrow> bind_args b as ats ts = Ok bas \<Longrightarrow> ts = [t] \<Longrightarrow>
    row_schema rw = bt_schema t \<Longrightarrow> \<not> list_ex ast_expr_contains_aggregate as \<Longrightarrow>
    eval_bound_args bas (b_functions b) (Some rw) = eval_expr_args as (b_functions b) (Some rw)"
proof (induction b e ts and b as ats ts arbitrary: be and bas rule: bind_expr_bind_args.induct)
  case (6 b q name s ts)
  then show ?case
    by (auto elim!: resolve_column_Ok simp: row_get_def get_by_name_def get_index_def
        table_offset_def)
next
  case (9 b opr l r s ts)
  then show ?case by (auto simp: and_then_Ok_iff Let_def binary_dispatch_def)
next
  case (11 b e type_name s ts)
  then show ?case by (auto simp: and_then_Ok_iff resolve_data_type_def)
next
  case (12 b name args s ts)
  then show ?case by (auto simp: and_then_Ok_iff arg_types_Ok split: if_splits)
next
  case (15 b a as expected ats ts)
  then show ?case by (auto simp: and_then_Ok_iff Let_def split: if_splits)
qed (auto simp: and_then_Ok_iff Let_def)

text \<open>
  C5: on a single table, binding changes nothing but the way columns are found: whenever the binder
  accepts an aggregate-free expression, \<open>eval_bound_expr\<close> on the bound expression (columns by index,
  functions by canonical name, CAST targets resolved) equals \<open>eval_expr\<close> on the syntax (columns by
  name) on every row of that table, errors included.
\<close>

theorem evaluators_agree:
  assumes "bind_expr b e [t] = Ok be" "\<not> ast_expr_contains_aggregate e"
    and "row_schema rw = bt_schema t"
  shows "eval_bound_expr be (b_functions b) (Some rw) = eval_expr e (b_functions b) (Some rw)"
  using bind_eval_agree(1) [OF assms(1) refl assms(3,2)] .

lemma lower_builtin_names:
  "to_ascii_lowercase ''ABS'' = ''abs''" "to_ascii_lowercase ''abs'' = ''abs''"
  "to_ascii_lowercase ''length'' = ''length''"
  by code_simp+

theorem evaluators_agree_witness:
  "eval_bound_expr (BFunctionCall ''abs'' [BColumnRef 0 0 ''id'' TBigInt sample_span] TBigInt sample_span)
     with_builtins (Some sample_row)
   = eval_expr (FunctionCall ''ABS'' [ColumnRef None ''id'' sample_span] sample_span)
       with_builtins (Some sample_row)"
  using evaluators_agree [of sample_binder "FunctionCall ''ABS'' [ColumnRef None ''id'' sample_span] sample_span"
      sample_table "BFunctionCall ''abs'' [BColumnRef 0 0 ''id'' TBigInt sample_span] TBigInt sample_span"
      sample_row]
  by (simp add: sample_defs column_new_def resolve_column_def column_matches_def map_filter_def
      index_of_def table_offset_def arg_types_def return_type_def with_builtins_def register_fn_def
      lower_builtin_names Let_def wrap_eval_error_def)

subsection \<open>Display form of expressions\<close>

fun fmt_binary_operator :: "binary_operator \<Rightarrow> string" where
  "fmt_binary_operator Add = ''+''"
| "fmt_binary_operator Subtract = ''-''"
| "fmt_binary_operator Multiply = ''*''"
| "fmt_binary_operator Divide = ''/''"
| "fmt_binary_operator Eq = ''=''"
| "fmt_binary_operator NotEq = ''<>''"
| "fmt_binary_operator Lt = ''<''"
| "fmt_binary_operator LtEq = ''<=''"
| "fmt_binary_operator Gt = ''>''"
| "fmt_binary_operator GtEq = ''>=''"
| "fmt_binary_operator And = ''AND''"
| "fmt_binary_operator Or = ''OR''"

fun aggregate_name :: "aggregate_func \<Rightarrow> string" where
  "aggregate_name Count = ''COUNT''"
| "aggregate_name Sum = ''SUM''"
| "aggregate_name Min = ''MIN''"
| "aggregate_name Max = ''MAX''"

fun fmt_bound_expr :: "bound_expr \<Rightarrow> string" where
  "fmt_bound_expr (BIntLiteral v _) = show_i64 v"
| "fmt_bound_expr (BStringLiteral v _) = [CHR 0x27] @ v @ [CHR 0x27]"
| "fmt_bound_expr (BBoolLiteral v _) = (if v then ''true'' else ''false'')"
| "fmt_bound_expr (BNullLiteral _) = ''NULL''"
| "fmt_bound_expr (BColumnRef _ _ name _ _) = name"
| "fmt_bound_expr (BUnaryOp Negate e _ _) = ''-'' @ fmt_bound_expr e"
| "fmt_bound_expr (BUnaryOp Not e _ _) = ''NOT '' @ fmt_bound_expr e"
| "fmt_bound_expr (BBinaryOp opr l r _ _) =
    fmt_bound_expr l @ '' '' @ fmt_binary_operator opr @ '' '' @ fmt_bound_expr r"
| "fmt_bound_expr (BIsNull e negated _) =
    fmt_bound_expr e @ '' '' @ (if negated then ''IS NOT NULL'' else ''IS NULL'')"
| "fmt_bound_expr (BFunctionCall name args _ _) =
    name @ ''('' @ join_with '', '' (map fmt_bound_expr args) @ '')''"
| "fmt_bound_expr (BAggregate func arg _ _) =
    aggregate_name func @ ''('' @ (case arg of None \<Rightarrow> ''*'' | Some e \<Rightarrow> fmt_bound_expr e) @ '')''"
| "fmt_bound_expr (BParen e _) = ''('' @ fmt_bound_expr e @ '')''"
| "fmt_bound_expr (BCast e t _) = ''CAST('' @ fmt_bound_expr e @ '' AS '' @ data_type_display t @ '')''"
| "fmt_bound_expr (BParam i _ _) = ''$'' @ show_nat (unat i)"

subsection \<open>Aggregation slots\<close>

record aggregate_call =
  ac_func :: aggregate_func
  ac_arg :: "bound_expr option"

record bound_aggregate =
  ba_group_by :: "bound_expr list"
  ba_calls :: "aggregate_call list"
  ba_schema :: schema

definition fmt_aggregate_call :: "aggregate_call \<Rightarrow> string" where
  "fmt_aggregate_call c =
     aggregate_name (ac_func c) @ ''('' @
     (case ac_arg c of None \<Rightarrow> ''*'' | Some e \<Rightarrow> fmt_bound_expr e) @ '')''"

definition build_aggregate :: "bound_expr list \<Rightarrow> bound_aggregate" where
  "build_aggregate group_by =
     \<lparr>ba_group_by = group_by, ba_calls = [],
      ba_schema = \<lparr>columns = map (\<lambda>e. column_new (fmt_bound_expr e)
          (case bound_type e of Some t \<Rightarrow> t | None \<Rightarrow> TText) True) group_by\<rparr>\<rparr>"

definition slot_column_ref :: "nat \<Rightarrow> schema \<Rightarrow> span \<Rightarrow> bound_expr outcome" where
  "slot_column_ref slot s sp =
     and_then (expect (get_at (columns s) slot)) (\<lambda>c.
     Ok (BColumnRef 0 slot (col_name c) (col_type c) sp))"

definition group_slot :: "bound_aggregate \<Rightarrow> bound_expr \<Rightarrow> nat option" where
  "group_slot agg e = position (\<lambda>g. fmt_bound_expr g = fmt_bound_expr e) (ba_group_by agg)"

definition rewrite_call ::
  "binder_env \<Rightarrow> aggregate_func \<Rightarrow> bound_expr option \<Rightarrow> string \<Rightarrow> span \<Rightarrow> bound_aggregate
   \<Rightarrow> (bound_expr \<times> bound_aggregate) outcome" where
  "rewrite_call b func arg key sp agg =
     (case position (\<lambda>c. fmt_aggregate_call c = key) (ba_calls agg) of
        Some i \<Rightarrow>
          and_then (slot_column_ref (length (ba_group_by agg) + i) (ba_schema agg) sp) (\<lambda>e. Ok (e, agg))
      | None \<Rightarrow>
          and_then (check_aggregate_arg_type b func arg sp) (\<lambda>t.
          let label = aggregate_name func @ ''('' @
                (case arg of None \<Rightarrow> ''*'' | Some e \<Rightarrow> fmt_bound_expr e) @ '')'';
              agg' = agg\<lparr>
                ba_schema := \<lparr>columns = columns (ba_schema agg) @ [column_new label t (func \<noteq> Count)]\<rparr>,
                ba_calls := ba_calls agg @ [\<lparr>ac_func = func, ac_arg = arg\<rparr>]\<rparr> in
          and_then (slot_column_ref (length (ba_group_by agg') + length (ba_calls agg') - 1)
              (ba_schema agg') sp) (\<lambda>e. Ok (e, agg'))))"

text \<open>\<open>rewrite_for_aggregate\<close>; the mutable \<open>aggregate\<close> is passed along and returned.\<close>

fun rewrite_for_aggregate ::
  "binder_env \<Rightarrow> bound_expr \<Rightarrow> bound_aggregate \<Rightarrow> (bound_expr \<times> bound_aggregate) outcome"
and rewrite_args ::
  "binder_env \<Rightarrow> bound_expr list \<Rightarrow> bound_aggregate \<Rightarrow> (bound_expr list \<times> bound_aggregate) outcome"
where
  "rewrite_for_aggregate b e agg =
    (case group_slot agg e of
       Some slot \<Rightarrow>
         and_then (slot_column_ref slot (ba_schema agg) (bound_span e)) (\<lambda>e'. Ok (e', agg))
     | None \<Rightarrow>
       (case e of
          BAggregate func arg t s \<Rightarrow> rewrite_call b func arg (fmt_bound_expr e) s agg
        | BColumnRef k i name t s \<Rightarrow> Err (error_at b s)
        | BUnaryOp opr x t s \<Rightarrow>
            and_then (rewrite_for_aggregate b x agg) (\<lambda>(x', agg1). Ok (BUnaryOp opr x' t s, agg1))
        | BBinaryOp opr l r t s \<Rightarrow>
            and_then (rewrite_for_aggregate b l agg) (\<lambda>(l', agg1).
            and_then (rewrite_for_aggregate b r agg1) (\<lambda>(r', agg2).
            Ok (BBinaryOp opr l' r' t s, agg2)))
        | BIsNull x negated s \<Rightarrow>
            and_then (rewrite_for_aggregate b x agg) (\<lambda>(x', agg1). Ok (BIsNull x' negated s, agg1))
        | BFunctionCall name args t s \<Rightarrow>
            and_then (rewrite_args b args agg) (\<lambda>(args', agg1). Ok (BFunctionCall name args' t s, agg1))
        | BParen x s \<Rightarrow>
            and_then (rewrite_for_aggregate b x agg) (\<lambda>(x', agg1). Ok (BParen x' s, agg1))
        | BCast x t s \<Rightarrow>
            and_then (rewrite_for_aggregate b x agg) (\<lambda>(x', agg1). Ok (BCast x' t s, agg1))
        | _ \<Rightarrow> Ok (e, agg)))"
| "rewrite_args b [] agg = Ok ([], agg)"
| "rewrite_args b (e # es) agg =
    and_then (rewrite_for_aggregate b e agg) (\<lambda>(e', agg1).
    and_then (rewrite_args b es agg1) (\<lambda>(es', agg2). Ok (e' # es', agg2)))"

declare rewrite_for_aggregate.simps [simp del]

subsection \<open>ORDER BY\<close>

record bound_select_item =
  si_expr :: bound_expr
  si_output_name :: string

definition projection_slot :: "bound_select_item list \<Rightarrow> bound_expr \<Rightarrow> nat option" where
  "projection_slot projection e =
     position (\<lambda>item. fmt_bound_expr (si_expr item) = fmt_bound_expr e) projection"

definition resolve_in_projection ::
  "binder_env \<Rightarrow> expr \<Rightarrow> bound_expr \<Rightarrow> bound_select_item list
   \<Rightarrow> (nat \<times> bound_select_item list) outcome" where
  "resolve_in_projection b e bound projection =
     (case projection_slot projection bound of
        Some index \<Rightarrow> Ok (index, projection)
      | None \<Rightarrow>
          and_then (expect (str_slice (b_sql b) (span_start (expr_span e)) (span_end (expr_span e))))
            (\<lambda>name. Ok (length projection, projection @ [\<lparr>si_expr = bound, si_output_name = name\<rparr>])))"

definition resolve_order_by_in_plain_scope ::
  "binder_env \<Rightarrow> expr \<Rightarrow> bound_table_ref list \<Rightarrow> bound_select_item list
   \<Rightarrow> (nat \<times> bound_select_item list) outcome" where
  "resolve_order_by_in_plain_scope b e ts projection =
     and_then (bind_expr b e ts) (\<lambda>bound. resolve_in_projection b e bound projection)"

definition resolve_order_by_in_aggregate_scope ::
  "binder_env \<Rightarrow> expr \<Rightarrow> bound_table_ref list \<Rightarrow> bound_aggregate \<Rightarrow> bound_select_item list
   \<Rightarrow> (nat \<times> bound_select_item list \<times> bound_aggregate) outcome" where
  "resolve_order_by_in_aggregate_scope b e ts agg projection =
     and_then (bind_expr b e ts) (\<lambda>bound.
     and_then (rewrite_for_aggregate b bound agg) (\<lambda>(rewritten, agg1).
     and_then (resolve_in_projection b e rewritten projection) (\<lambda>(index, projection1).
     Ok (index, projection1, agg1))))"

subsection \<open>Rewriting to slots\<close>

text \<open>
  The output row of an aggregation has one column per GROUP BY expression, then one per aggregate
  call. \<open>slots_ok\<close> holds of an expression that mentions only such columns, with their types, and no
  aggregate call.
\<close>

definition agg_wf :: "bound_aggregate \<Rightarrow> bool" where
  "agg_wf agg = (length (columns (ba_schema agg)) = length (ba_group_by agg) + length (ba_calls agg))"

definition agg_extends :: "bound_aggregate \<Rightarrow> bound_aggregate \<Rightarrow> bool" where
  "agg_extends agg agg' =
     (agg_wf agg' \<and> ba_group_by agg' = ba_group_by agg
      \<and> (\<exists>cs. ba_calls agg' = ba_calls agg @ cs)
      \<and> (\<exists>cs. columns (ba_schema agg') = columns (ba_schema agg) @ cs))"

fun slots_ok :: "column list \<Rightarrow> bound_expr \<Rightarrow> bool" where
  "slots_ok cols (BColumnRef _ i _ t _) = (i < length cols \<and> col_type (cols ! i) = t)"
| "slots_ok cols (BAggregate _ _ _ _) = False"
| "slots_ok cols (BUnaryOp _ e _ _) = slots_ok cols e"
| "slots_ok cols (BBinaryOp _ l r _ _) = (slots_ok cols l \<and> slots_ok cols r)"
| "slots_ok cols (BIsNull e _ _) = slots_ok cols e"
| "slots_ok cols (BFunctionCall _ args _ _) = list_all (slots_ok cols) args"
| "slots_ok cols (BParen e _) = slots_ok cols e"
| "slots_ok cols (BCast e _ _) = slots_ok cols e"
| "slots_ok cols _ = True"

lemma slots_ok_append: "slots_ok cols e \<Longrightarrow> slots_ok (cols @ ds) e"
proof (induction cols e rule: slots_ok.induct)
  case (6 cols name args t s)
  then show ?case by (auto simp: list_all_iff)
qed (auto simp: nth_append)

lemma agg_extends_refl [simp]: "agg_extends agg agg \<longleftrightarrow> agg_wf agg"
  by (simp add: agg_extends_def)

lemma agg_extends_trans: "agg_extends a b \<Longrightarrow> agg_extends b c \<Longrightarrow> agg_extends a c"
  by (auto simp: agg_extends_def)

lemma agg_extends_wf: "agg_extends a b \<Longrightarrow> agg_wf b"
  by (simp add: agg_extends_def)

lemma slots_ok_extends:
  "agg_extends a b \<Longrightarrow> slots_ok (columns (ba_schema a)) e \<Longrightarrow> slots_ok (columns (ba_schema b)) e"
  by (auto simp: agg_extends_def slots_ok_append)

lemma slot_column_ref_ok: "slot_column_ref i s sp = Ok e \<Longrightarrow> slots_ok (columns s) e"
  by (auto simp: slot_column_ref_def and_then_Ok_iff get_at_def split: if_splits)

lemma rewrite_call_ok:
  "rewrite_call b func arg key sp agg = Ok (e, agg') \<Longrightarrow> agg_wf agg \<Longrightarrow>
   agg_extends agg agg' \<and> slots_ok (columns (ba_schema agg')) e"
  by (auto simp: rewrite_call_def and_then_Ok_iff Let_def agg_wf_def agg_extends_def
      dest: slot_column_ref_ok split: option.splits)

lemma rewrite_ok:
  "rewrite_for_aggregate b e agg = Ok (e', agg') \<Longrightarrow> agg_wf agg \<Longrightarrow>
     agg_extends agg agg' \<and> slots_ok (columns (ba_schema agg')) e'"
  "rewrite_args b es agg = Ok (es', agg') \<Longrightarrow> agg_wf agg \<Longrightarrow>
     agg_extends agg agg' \<and> list_all (slots_ok (columns (ba_schema agg'))) es'"
proof (induction b e agg and b es agg arbitrary: e' agg' and es' agg'
    rule: rewrite_for_aggregate_rewrite_args.induct)
  case (1 b e agg)
  show ?case
  proof (cases "group_slot agg e")
    case (Some slot)
    with "1.prems" show ?thesis
      by (auto simp: rewrite_for_aggregate.simps and_then_Ok_iff dest: slot_column_ref_ok)
  next
    case None
    note rw = "1.prems"(1) [unfolded rewrite_for_aggregate.simps [of b e agg] None option.case]
    show ?thesis
    proof (cases e)
      case (BBinaryOp opr l r t s)
      with rw obtain l' agg1 r' where s: "rewrite_for_aggregate b l agg = Ok (l', agg1)"
        "rewrite_for_aggregate b r agg1 = Ok (r', agg')" "e' = BBinaryOp opr l' r' t s"
        by (auto simp: and_then_Ok_iff)
      from "1.IH"(2) [OF None BBinaryOp s(1) "1.prems"(2)]
      have l: "agg_extends agg agg1" "slots_ok (columns (ba_schema agg1)) l'" by auto
      from "1.IH"(3) [OF None BBinaryOp s(1) refl s(2) agg_extends_wf [OF l(1)]]
      have r: "agg_extends agg1 agg'" "slots_ok (columns (ba_schema agg')) r'" by auto
      from l r s(3) show ?thesis by (auto intro: agg_extends_trans slots_ok_extends)
    qed (use rw "1.prems"(2) "1.IH" None in \<open>auto simp: and_then_Ok_iff dest: rewrite_call_ok\<close>)
  qed
next
  case (3 b e es agg)
  then obtain x agg1 xs where s: "rewrite_for_aggregate b e agg = Ok (x, agg1)"
    "rewrite_args b es agg1 = Ok (xs, agg')" "es' = x # xs"
    by (auto simp: and_then_Ok_iff)
  from "3.IH"(1) [OF s(1) "3.prems"(2)]
  have l: "agg_extends agg agg1" "slots_ok (columns (ba_schema agg1)) x" by auto
  from "3.IH"(2) [OF s(1) refl s(2) agg_extends_wf [OF l(1)]]
  have r: "agg_extends agg1 agg'" "list_all (slots_ok (columns (ba_schema agg'))) xs" by auto
  from l r s(3) show ?case by (auto intro: agg_extends_trans slots_ok_extends)
qed auto

lemma slots_ok_no_aggregate: "slots_ok cols e \<Longrightarrow> \<not> bound_contains_aggregate e"
  by (induction cols e rule: slots_ok.induct) (auto simp: list_ex_iff list_all_iff)

lemma build_aggregate_wf: "agg_wf (build_aggregate gs)"
  by (simp add: agg_wf_def build_aggregate_def)

text \<open>
  Rewriting an expression of an aggregate query leaves only references to columns of the
  aggregation's output, at their types, and no aggregate call; it appends the calls it meets to the
  call list and one column each to the output schema, keeps the earlier slots where they are and the
  GROUP BY list as it is, so expressions rewritten earlier stay valid (the schema always has one
  column per GROUP BY expression and per call, from \<open>build_aggregate\<close> on).
\<close>

lemma rewrite_for_aggregate_slots:
  assumes "rewrite_for_aggregate b e agg = Ok (e', agg')" "agg_wf agg"
  shows "slots_ok (columns (ba_schema agg')) e' \<and> \<not> bound_contains_aggregate e'
    \<and> agg_wf agg' \<and> ba_group_by agg' = ba_group_by agg
    \<and> (\<exists>cs. ba_calls agg' = ba_calls agg @ cs)
    \<and> (\<forall>d. slots_ok (columns (ba_schema agg)) d \<longrightarrow> slots_ok (columns (ba_schema agg')) d)
    \<and> agg_wf (build_aggregate gs)"
proof -
  note r = rewrite_ok(1) [OF assms]
  then have "agg_extends agg agg'" and "slots_ok (columns (ba_schema agg')) e'" by auto
  then show ?thesis
    by (auto simp: build_aggregate_wf slots_ok_no_aggregate slots_ok_append agg_extends_def)
qed

lemma rewrite_for_aggregate_slots_witness:
  "slots_ok [column_new ''COUNT(*)'' TBigInt False] (BColumnRef 0 0 ''COUNT(*)'' TBigInt sample_span)"
  using rewrite_for_aggregate_slots [of sample_binder "BAggregate Count None TBigInt sample_span"
      "build_aggregate []" "BColumnRef 0 0 ''COUNT(*)'' TBigInt sample_span"
      "\<lparr>ba_group_by = [], ba_calls = [\<lparr>ac_func = Count, ac_arg = None\<rparr>],
        ba_schema = \<lparr>columns = [column_new ''COUNT(*)'' TBigInt False]\<rparr>\<rparr>"]
  by (simp add: rewrite_for_aggregate.simps group_slot_def build_aggregate_def rewrite_call_def
      check_aggregate_arg_type_def slot_column_ref_def get_at_def agg_wf_def column_new_def)

text \<open>
  C6: the keys that decide whether two expressions are the same are display strings, and a column's
  display string is its bare name. So with two joined tables that both have a column \<open>name\<close>,
  ORDER BY on the second one resolves to the SELECT item that reads the first one, and an expression
  over the second one is accepted under GROUP BY of the first one and reads its slot, whatever the
  column indices and types are.
\<close>

theorem same_name_columns_collide:
  "resolve_in_projection b e (BColumnRef k' i' name t' s')
      [\<lparr>si_expr = BColumnRef k i name t s, si_output_name = out\<rparr>]
    = Ok (0, [\<lparr>si_expr = BColumnRef k i name t s, si_output_name = out\<rparr>])
   \<and> rewrite_for_aggregate b (BColumnRef k' i' name t' s') (build_aggregate [BColumnRef k i name t s])
    = Ok (BColumnRef 0 0 name t s', build_aggregate [BColumnRef k i name t s])"
  by (simp add: resolve_in_projection_def projection_slot_def rewrite_for_aggregate.simps
      group_slot_def build_aggregate_def slot_column_ref_def get_at_def column_new_def)

end
