(* ===== verification/Catalog.thy ===== *)
theory Catalog
  imports Binder Ids
begin

text \<open>
  The in-memory catalog (\<open>src/src/catalog.rs\<close>), the rows of the memory backend
  (\<open>src/src/storage_mem.rs\<close>), and \<open>CREATE TABLE\<close> and \<open>DROP TABLE\<close> of that backend
  (\<open>execute_create_table\<close> and \<open>execute_drop_table\<close> of \<open>src/src/database.rs\<close>).
\<close>

record catalog =
  cat_tables :: "string \<rightharpoonup> table_info"
  next_table_id :: u64

definition catalog_new :: catalog where
  "catalog_new = \<lparr>cat_tables = Map.empty, next_table_id = 0\<rparr>"

text \<open>The increment of the counter panics on overflow.\<close>

definition catalog_create_table :: "catalog \<Rightarrow> string \<Rightarrow> schema \<Rightarrow> (table_id \<times> catalog) outcome" where
  "catalog_create_table c name s =
     (if cat_tables c name \<noteq> None then Err (DuplicateTable name)
      else if next_table_id c = - 1 then Panic
      else Ok (next_table_id c,
        c\<lparr>next_table_id := next_table_id c + 1,
          cat_tables := (cat_tables c)(name \<mapsto> \<lparr>ti_id = next_table_id c, ti_name = name, ti_schema = s\<rparr>)\<rparr>))"

definition catalog_drop_table :: "catalog \<Rightarrow> string \<Rightarrow> (table_id \<times> catalog) outcome" where
  "catalog_drop_table c name =
     (case cat_tables c name of
        None \<Rightarrow> Err (TableNotFound name)
      | Some info \<Rightarrow> Ok (ti_id info, c\<lparr>cat_tables := (cat_tables c)(name := None)\<rparr>))"

definition catalog_table :: "catalog \<Rightarrow> string \<Rightarrow> table_info option" where
  "catalog_table c name = cat_tables c name"

subsection \<open>Rows in memory\<close>

type_synonym mem_storage = "table_id \<rightharpoonup> tuple list"

definition mem_create_table :: "mem_storage \<Rightarrow> table_id \<Rightarrow> mem_storage" where
  "mem_create_table st tid = st(tid \<mapsto> [])"

definition mem_drop_table :: "mem_storage \<Rightarrow> table_id \<Rightarrow> mem_storage" where
  "mem_drop_table st tid = st(tid := None)"

subsection \<open>Statements that define tables\<close>

record column_def =
  cd_name :: ident
  cd_type_name :: ident
  cd_not_null :: bool
  cd_primary_key :: bool
  cd_unique :: bool
  cd_span :: span

record create_table_statement =
  ct_table :: ident
  ct_columns :: "column_def list"
  ct_span :: span

definition column_of_def :: "column_def \<Rightarrow> data_type \<Rightarrow> column" where
  "column_of_def d t =
     (let c = column_new (id_name (cd_name d)) t (\<not> cd_not_null d);
          c = (if cd_primary_key d then with_primary_key c else c) in
      if cd_unique d then with_unique c else c)"

fun table_columns :: "string set \<Rightarrow> nat \<Rightarrow> column_def list \<Rightarrow> (column list \<times> nat) outcome" where
  "table_columns seen pk [] = Ok ([], pk)"
| "table_columns seen pk (d # ds) =
    (if id_name (cd_name d) \<in> seen then Err (DuplicateColumn (id_name (cd_name d)))
     else and_then (ok_or (Eval (UnknownTypeName (id_name (cd_type_name d)))) (from_sql_name (id_name (cd_type_name d)))) (\<lambda>t.
       and_then (table_columns (insert (id_name (cd_name d)) seen) (if cd_primary_key d then pk + 1 else pk) ds)
         (\<lambda>(cs, pk). Ok (column_of_def d t # cs, pk))))"

definition create_table_schema :: "create_table_statement \<Rightarrow> schema outcome" where
  "create_table_schema ct =
     and_then (table_columns {} 0 (ct_columns ct)) (\<lambda>(cs, pk).
     if pk > 1 then Err MultiplePrimaryKeys else Ok \<lparr>columns = cs\<rparr>)"

record memory_backend =
  mb_catalog :: catalog
  mb_storage :: mem_storage

definition memory_create_table :: "memory_backend \<Rightarrow> create_table_statement \<Rightarrow> memory_backend outcome" where
  "memory_create_table b ct =
     and_then (create_table_schema ct) (\<lambda>s.
     and_then (catalog_create_table (mb_catalog b) (id_name (ct_table ct)) s) (\<lambda>(tid, c).
     Ok \<lparr>mb_catalog = c, mb_storage = mem_create_table (mb_storage b) tid\<rparr>))"

definition memory_drop_table :: "memory_backend \<Rightarrow> string \<Rightarrow> memory_backend outcome" where
  "memory_drop_table b name =
     and_then (catalog_drop_table (mb_catalog b) name) (\<lambda>(tid, c).
     Ok \<lparr>mb_catalog = c, mb_storage = mem_drop_table (mb_storage b) tid\<rparr>)"

subsection \<open>Invariant\<close>

text \<open>What \<open>CREATE TABLE\<close> guarantees of a schema.\<close>

definition schema_ok :: "schema \<Rightarrow> bool" where
  "schema_ok s \<longleftrightarrow>
     distinct (map col_name (columns s))
     \<and> length (filter primary_key (columns s)) \<le> 1
     \<and> (\<forall>c \<in> set (columns s). primary_key c \<longrightarrow> \<not> nullable c)"

definition backend_inv :: "memory_backend \<Rightarrow> bool" where
  "backend_inv b \<longleftrightarrow>
     (\<forall>name info. cat_tables (mb_catalog b) name = Some info \<longrightarrow>
        ti_name info = name \<and> ti_id info < next_table_id (mb_catalog b) \<and> schema_ok (ti_schema info))
     \<and> inj_on (\<lambda>n. ti_id (the (cat_tables (mb_catalog b) n))) (dom (cat_tables (mb_catalog b)))
     \<and> dom (mb_storage b) = ti_id ` ran (cat_tables (mb_catalog b))"

lemma table_columns_ok:
  assumes "table_columns seen pk ds = Ok (cs, pk')"
  shows "distinct (map col_name cs) \<and> set (map col_name cs) \<inter> seen = {}
    \<and> pk' = pk + length (filter primary_key cs)
    \<and> (\<forall>c \<in> set cs. primary_key c \<longrightarrow> \<not> nullable c)"
  using assms
proof (induction seen pk ds arbitrary: cs pk' rule: table_columns.induct)
  case (2 seen pk d ds)
  obtain t cs' where new: "id_name (cd_name d) \<notin> seen"
    and rest: "table_columns (insert (id_name (cd_name d)) seen) (if cd_primary_key d then pk + 1 else pk) ds = Ok (cs', pk')"
    and cs: "cs = column_of_def d t # cs'"
    and t: "ok_or (Eval (UnknownTypeName (id_name (cd_type_name d)))) (from_sql_name (id_name (cd_type_name d))) = Ok t"
    using "2.prems" by (auto simp: and_then_Ok_iff split: if_splits)
  have "col_name (column_of_def d t) = id_name (cd_name d)" "primary_key (column_of_def d t) = cd_primary_key d"
    "primary_key (column_of_def d t) \<longrightarrow> \<not> nullable (column_of_def d t)"
    by (simp_all add: column_of_def_def column_new_def with_primary_key_def with_unique_def Let_def)
  with "2.IH" [OF new t rest] cs new show ?case by auto
qed auto

lemma create_table_schema_ok: "create_table_schema ct = Ok s \<Longrightarrow> schema_ok s"
  using table_columns_ok by (fastforce simp: create_table_schema_def and_then_Ok_iff schema_ok_def split: if_splits)

lemma create_table_inv:
  assumes inv: "backend_inv b" and c: "memory_create_table b ct = Ok b'"
  shows "backend_inv b'"
proof -
  let ?c = "mb_catalog b" and ?n = "id_name (ct_table ct)"
  obtain s where s: "create_table_schema ct = Ok s" and fresh: "cat_tables ?c ?n = None"
    and room: "next_table_id ?c \<noteq> - 1"
    and b': "b' = \<lparr>mb_catalog = ?c\<lparr>next_table_id := next_table_id ?c + 1,
        cat_tables := (cat_tables ?c)(?n \<mapsto> \<lparr>ti_id = next_table_id ?c, ti_name = ?n, ti_schema = s\<rparr>)\<rparr>,
      mb_storage = (mb_storage b)(next_table_id ?c \<mapsto> [])\<rparr>"
    using c by (auto simp: memory_create_table_def catalog_create_table_def mem_create_table_def and_then_Ok_iff
        split: if_splits)
  have up: "x < next_table_id ?c + 1 \<longleftrightarrow> x \<le> next_table_id ?c" for x
    using room by (rule less_Suc_u64)
  have low: "ti_id info < next_table_id ?c" if "cat_tables ?c n = Some info" for n info
    using inv that by (auto simp: backend_inv_def)
  have "inj_on (\<lambda>n. ti_id (the (cat_tables (mb_catalog b') n))) (dom (cat_tables (mb_catalog b')))"
    using inv low fresh by (fastforce simp: b' backend_inv_def inj_on_def dom_def)
  moreover have "dom (mb_storage b') = ti_id ` ran (cat_tables (mb_catalog b'))"
    using inv fresh by (simp add: b' backend_inv_def ran_map_upd)
  ultimately show ?thesis
    using inv low create_table_schema_ok [OF s] by (force simp: backend_inv_def b' up)
qed

lemma drop_table_inv:
  assumes inv: "backend_inv b" and d: "memory_drop_table b name = Ok b'"
  shows "backend_inv b'"
proof -
  let ?t = "cat_tables (mb_catalog b)"
  obtain info where i: "?t name = Some info"
    and b': "b' = \<lparr>mb_catalog = (mb_catalog b)\<lparr>cat_tables := ?t(name := None)\<rparr>,
      mb_storage = (mb_storage b)(ti_id info := None)\<rparr>"
    using d by (auto simp: memory_drop_table_def catalog_drop_table_def mem_drop_table_def and_then_Ok_iff
        split: option.splits)
  have inj: "inj_on (\<lambda>n. ti_id (the (?t n))) (dom ?t)" using inv by (simp add: backend_inv_def)
  have other: "n = name" if "?t n = Some j" "ti_id j = ti_id info" for n j
    using inj_onD [OF inj, of n name] that i by auto
  have "ran (?t(name := None)) = {j. \<exists>n. n \<noteq> name \<and> ?t n = Some j}" by (auto simp: ran_def)
  then have "ti_id ` ran (?t(name := None)) \<subseteq> ti_id ` ran ?t - {ti_id info}"
    using other by (auto simp: ran_def)
  moreover have "ti_id ` ran ?t - {ti_id info} \<subseteq> ti_id ` ran (?t(name := None))"
  proof
    fix x assume x: "x \<in> ti_id ` ran ?t - {ti_id info}"
    then obtain n j where "?t n = Some j" "x = ti_id j" by (auto simp: ran_def)
    moreover from this x i have "n \<noteq> name" by auto
    ultimately show "x \<in> ti_id ` ran (?t(name := None))" by (auto simp: ran_def)
  qed
  ultimately have "ti_id ` ran (?t(name := None)) = ti_id ` ran ?t - {ti_id info}" by (rule equalityI)
  moreover have "inj_on (\<lambda>n. ti_id (the ((?t(name := None)) n))) (dom (?t(name := None)))"
    using inj by (auto simp: inj_on_def)
  ultimately show ?thesis using inv by (auto simp: backend_inv_def b')
qed

end
