(* ===== verification/Mem_Executor.thy ===== *)
theory Mem_Executor
  imports Catalog "HOL-Library.Multiset"
begin

text \<open>
  Uniqueness checks (\<open>src/src/constraints.rs\<close>), \<open>INSERT\<close>, \<open>UPDATE\<close> and \<open>DELETE\<close> on the memory backend
  (\<open>src/src/executor.rs\<close>) and the undo log that \<open>ROLLBACK\<close> applies (\<open>src/src/transaction.rs\<close>). An
  operation that changes state returns its result and the new state, also when the result is an error.
\<close>

subsection \<open>Uniqueness\<close>

definition violation_for :: "column \<Rightarrow> val \<Rightarrow> db_error" where
  "violation_for c v =
     (if primary_key c then PrimaryKeyViolation (col_name c) (value_display v)
      else UniqueViolation (col_name c) (value_display v))"

text \<open>The first loop: every candidate against the other rows.\<close>

fun check_against :: "nat \<Rightarrow> column \<Rightarrow> tuple list \<Rightarrow> tuple list \<Rightarrow> unit outcome" where
  "check_against i col others [] = Ok ()"
| "check_against i col others (c # cs) =
    and_then (expect (tuple_get c i)) (\<lambda>v.
    if is_null v then check_against i col others cs
    else if list_ex (\<lambda>o'. tuple_get o' i = Some v) others then Err (violation_for col v)
    else check_against i col others cs)"

text \<open>The inner loop of the second: one value against the candidates after it.\<close>

fun check_later :: "nat \<Rightarrow> column \<Rightarrow> val \<Rightarrow> tuple list \<Rightarrow> unit outcome" where
  "check_later i col v [] = Ok ()"
| "check_later i col v (c # cs) =
    and_then (expect (tuple_get c i)) (\<lambda>w.
    if \<not> is_null w \<and> w = v then Err (violation_for col v) else check_later i col v cs)"

fun check_pairs :: "nat \<Rightarrow> column \<Rightarrow> tuple list \<Rightarrow> unit outcome" where
  "check_pairs i col [] = Ok ()"
| "check_pairs i col (c # cs) =
    and_then (expect (tuple_get c i)) (\<lambda>v.
    if is_null v then check_pairs i col cs
    else and_then (check_later i col v cs) (\<lambda>_. check_pairs i col cs))"

fun check_columns :: "(nat \<times> column) list \<Rightarrow> tuple list \<Rightarrow> tuple list \<Rightarrow> unit outcome" where
  "check_columns [] others cands = Ok ()"
| "check_columns ((i, col) # cols) others cands =
    and_then (check_against i col others cands) (\<lambda>_.
    and_then (check_pairs i col cands) (\<lambda>_. check_columns cols others cands))"

definition check_uniqueness :: "schema \<Rightarrow> tuple list \<Rightarrow> tuple list \<Rightarrow> unit outcome" where
  "check_uniqueness s others cands = check_columns (unique_constrained_columns s) others cands"

subsection \<open>Evaluation of rows\<close>

text \<open>The \<open>expect\<close> of the last case is on a value that has a type.\<close>

fun predicate_matches :: "val \<Rightarrow> bool outcome" where
  "predicate_matches (VBoolean b) = Ok b"
| "predicate_matches VNull = Ok False"
| "predicate_matches (VBigInt _) = Err (Eval (PredicateNonBoolean TBigInt))"
| "predicate_matches (VText _) = Err (Eval (PredicateNonBoolean TText))"

definition row_matches :: "function_registry \<Rightarrow> schema \<Rightarrow> bound_expr option \<Rightarrow> tuple \<Rightarrow> bool outcome" where
  "row_matches fns s pred t =
     (case pred of
        None \<Rightarrow> Ok True
      | Some p \<Rightarrow> and_then (eval_bound_expr p fns (Some \<lparr>row_schema = s, row_tuple = t\<rparr>)) predicate_matches)"

fun assign_cells :: "val list \<Rightarrow> (nat \<times> val) list \<Rightarrow> val list outcome" where
  "assign_cells full [] = Ok full"
| "assign_cells full ((i, v) # r) = (if i < length full then assign_cells (full[i := v]) r else Panic)"

definition expand_to_schema :: "schema \<Rightarrow> nat list option \<Rightarrow> val list \<Rightarrow> val list outcome" where
  "expand_to_schema s cols vs =
     (case cols of
        None \<Rightarrow> Ok vs
      | Some cs \<Rightarrow>
          if length cs \<noteq> length vs then Err (Eval (InsertColumnCount (length cs) (length vs)))
          else assign_cells (replicate (schema_len s) VNull) (zip cs vs))"

fun plan_insert_rows :: "schema \<Rightarrow> function_registry \<Rightarrow> nat list option \<Rightarrow> expr list list \<Rightarrow> tuple list outcome" where
  "plan_insert_rows s fns cols [] = Ok []"
| "plan_insert_rows s fns cols (es # rows) =
    and_then (eval_expr_args es fns None) (\<lambda>vs.
    and_then (expand_to_schema s cols vs) (\<lambda>full.
    and_then (tuple_new s full) (\<lambda>t.
    and_then (plan_insert_rows s fns cols rows) (\<lambda>ts. Ok (t # ts)))))"

record bound_assignment =
  as_column :: nat
  as_value :: bound_expr

text \<open>Every right-hand side is evaluated on the old row.\<close>

fun apply_assignments :: "function_registry \<Rightarrow> row \<Rightarrow> bound_assignment list \<Rightarrow> val list \<Rightarrow> val list outcome" where
  "apply_assignments fns r [] vs = Ok vs"
| "apply_assignments fns r (a # as) vs =
    and_then (eval_bound_expr (as_value a) fns (Some r)) (\<lambda>v.
    if as_column a < length vs then apply_assignments fns r as (vs[as_column a := v]) else Panic)"

fun plan_update_rows ::
  "schema \<Rightarrow> function_registry \<Rightarrow> bound_assignment list \<Rightarrow> bound_expr option \<Rightarrow> (nat \<times> tuple) list
   \<Rightarrow> (nat \<times> tuple \<times> tuple) list outcome" where
  "plan_update_rows s fns as pred [] = Ok []"
| "plan_update_rows s fns as pred ((i, t) # ts) =
    and_then (row_matches fns s pred t) (\<lambda>m.
    if \<not> m then plan_update_rows s fns as pred ts
    else and_then (apply_assignments fns \<lparr>row_schema = s, row_tuple = t\<rparr> as (tup_values t)) (\<lambda>vs.
      and_then (tuple_new s vs) (\<lambda>t'.
      and_then (plan_update_rows s fns as pred ts) (\<lambda>r. Ok ((i, t, t') # r)))))"

fun split_matching ::
  "schema \<Rightarrow> function_registry \<Rightarrow> bound_expr option \<Rightarrow> tuple list \<Rightarrow> (tuple list \<times> tuple list) outcome" where
  "split_matching s fns pred [] = Ok ([], [])"
| "split_matching s fns pred (t # ts) =
    and_then (row_matches fns s pred t) (\<lambda>m.
    and_then (split_matching s fns pred ts) (\<lambda>(kept, deleted).
    Ok (if m then (kept, t # deleted) else (t # kept, deleted))))"

subsection \<open>Statements\<close>

datatype undo_record =
    UndoInsert table_id tuple
  | UndoDelete table_id tuple
  | UndoUpdate table_id tuple tuple

definition mem_insert ::
  "tuple list \<Rightarrow> table_id \<Rightarrow> schema \<Rightarrow> function_registry \<Rightarrow> nat list option \<Rightarrow> expr list list \<Rightarrow> undo_record list
   \<Rightarrow> nat outcome \<times> tuple list \<times> undo_record list" where
  "mem_insert table tid s fns cols rows undo =
     (case and_then (plan_insert_rows s fns cols rows) (\<lambda>planned.
             and_then (check_uniqueness s table planned) (\<lambda>_. Ok planned)) of
        Ok planned \<Rightarrow> (Ok (length planned), table @ planned, undo @ map (UndoInsert tid) planned)
      | Err e \<Rightarrow> (Err e, table, undo)
      | Panic \<Rightarrow> (Panic, table, undo))"

fun write_updates :: "(nat \<times> tuple \<times> tuple) list \<Rightarrow> tuple list \<Rightarrow> tuple list" where
  "write_updates [] table = table"
| "write_updates ((i, t, t') # r) table = write_updates r (table[i := t'])"

definition mem_update ::
  "tuple list \<Rightarrow> table_id \<Rightarrow> schema \<Rightarrow> function_registry \<Rightarrow> bound_assignment list \<Rightarrow> bound_expr option
   \<Rightarrow> undo_record list \<Rightarrow> nat outcome \<times> tuple list \<times> undo_record list" where
  "mem_update table tid s fns as pred undo =
     (case and_then (plan_update_rows s fns as pred (enumerate 0 table)) (\<lambda>planned.
             let others = map snd (filter (\<lambda>(i, _). i \<notin> fst ` set planned) (enumerate 0 table)) in
             and_then (check_uniqueness s others (map (\<lambda>(_, _, t'). t') planned)) (\<lambda>_. Ok planned)) of
        Ok planned \<Rightarrow>
          (Ok (length planned), write_updates planned table,
           undo @ map (\<lambda>(_, t, t'). UndoUpdate tid t t') planned)
      | Err e \<Rightarrow> (Err e, table, undo)
      | Panic \<Rightarrow> (Panic, table, undo))"

definition mem_delete ::
  "tuple list \<Rightarrow> table_id \<Rightarrow> schema \<Rightarrow> function_registry \<Rightarrow> bound_expr option \<Rightarrow> undo_record list
   \<Rightarrow> nat outcome \<times> tuple list \<times> undo_record list" where
  "mem_delete table tid s fns pred undo =
     (case split_matching s fns pred table of
        Ok (kept, deleted) \<Rightarrow> (Ok (length deleted), kept, undo @ map (UndoDelete tid) deleted)
      | Err e \<Rightarrow> (Err e, table, undo)
      | Panic \<Rightarrow> (Panic, table, undo))"

subsection \<open>Undo\<close>

definition remove_at :: "nat \<Rightarrow> 'a list \<Rightarrow> 'a list" where
  "remove_at i xs = take i xs @ drop (Suc i) xs"

definition undo_one :: "undo_record \<Rightarrow> mem_storage \<Rightarrow> mem_storage" where
  "undo_one r st =
     (case r of
        UndoInsert tid t \<Rightarrow>
          (case st tid of
             None \<Rightarrow> st
           | Some rows \<Rightarrow>
               (case position (\<lambda>x. tup_values x = tup_values t) rows of
                  None \<Rightarrow> st
                | Some i \<Rightarrow> st(tid \<mapsto> remove_at i rows)))
      | UndoDelete tid t \<Rightarrow> (case st tid of None \<Rightarrow> st | Some rows \<Rightarrow> st(tid \<mapsto> rows @ [t]))
      | UndoUpdate tid old new \<Rightarrow>
          (case st tid of
             None \<Rightarrow> st
           | Some rows \<Rightarrow>
               (case position (\<lambda>x. tup_values x = tup_values new) rows of
                  None \<Rightarrow> st
                | Some i \<Rightarrow> st(tid \<mapsto> rows[i := old]))))"

definition apply_undo_memory :: "mem_storage \<Rightarrow> undo_record list \<Rightarrow> mem_storage" where
  "apply_undo_memory st log = fold undo_one (rev log) st"

text \<open>\<open>run_insert\<close>, \<open>run_update\<close> and \<open>run_delete\<close> on the memory backend, after their locks are granted.\<close>

datatype dml =
    DInsert "nat list option" "expr list list"
  | DUpdate "bound_assignment list" "bound_expr option"
  | DDelete "bound_expr option"

definition run_dml ::
  "function_registry \<Rightarrow> table_id \<Rightarrow> schema \<Rightarrow> dml \<Rightarrow> mem_storage \<times> undo_record list
   \<Rightarrow> nat outcome \<times> mem_storage \<times> undo_record list" where
  "run_dml fns tid s d = (\<lambda>(st, undo).
     case st tid of
       None \<Rightarrow> (Panic, st, undo)
     | Some table \<Rightarrow>
         (case (case d of
                  DInsert cols rows \<Rightarrow> mem_insert table tid s fns cols rows undo
                | DUpdate as pred \<Rightarrow> mem_update table tid s fns as pred undo
                | DDelete pred \<Rightarrow> mem_delete table tid s fns pred undo) of
            (r, table', undo') \<Rightarrow> (r, st(tid \<mapsto> table'), undo')))"

subsection \<open>Uniqueness is decided exactly\<close>

text \<open>The non-NULL values of column \<open>i\<close>.\<close>

definition keys :: "nat \<Rightarrow> tuple list \<Rightarrow> val list" where
  "keys i ts = filter (\<lambda>v. \<not> is_null v) (map (\<lambda>t. tup_values t ! i) ts)"

lemma keys_simps [simp]:
  "keys i [] = []"
  "keys i (t # ts) = (if is_null (tup_values t ! i) then keys i ts else tup_values t ! i # keys i ts)"
  "keys i (ts @ us) = keys i ts @ keys i us"
  by (simp_all add: keys_def)

lemma mset_keys: "mset (keys i ts) = filter_mset (\<lambda>v. \<not> is_null v) (image_mset (\<lambda>t. tup_values t ! i) (mset ts))"
  by (simp add: keys_def)

definition wide :: "nat \<Rightarrow> tuple list \<Rightarrow> bool" where
  "wide i ts = (\<forall>t \<in> set ts. i < length (tup_values t))"

lemma wide_simps [simp]: "wide i []" "wide i (t # ts) \<longleftrightarrow> i < length (tup_values t) \<and> wide i ts"
  by (auto simp: wide_def)

lemma tuple_get_wide: "i < length (tup_values t) \<Longrightarrow> tuple_get t i = Some (tup_values t ! i)"
  by (simp add: tuple_get_def get_at_def)

lemma any_other: "wide i others \<Longrightarrow> \<not> is_null v \<Longrightarrow>
  list_ex (\<lambda>o'. tuple_get o' i = Some v) others \<longleftrightarrow> v \<in> set (keys i others)"
  by (induction others) (auto simp: tuple_get_wide)

text \<open>How a check can end: all is well, or one of the values of the candidates is reported.\<close>

definition check_ends :: "unit outcome \<Rightarrow> bool \<Rightarrow> column \<Rightarrow> val set \<Rightarrow> bool" where
  "check_ends r ok col vs = (if ok then r = Ok () else \<exists>v \<in> vs. r = Err (violation_for col v))"

lemma check_against_ends:
  assumes "wide i others" "wide i cands"
  shows "check_ends (check_against i col others cands) (set (keys i cands) \<inter> set (keys i others) = {}) col (set (keys i cands))"
  using assms(2)
proof (induction cands)
  case (Cons c cs)
  then show ?case
    using any_other [OF assms(1), of "tup_values c ! i"] by (auto simp: tuple_get_wide check_ends_def)
qed (simp add: check_ends_def)

lemma check_later_ends:
  assumes "wide i cands" "\<not> is_null v"
  shows "check_ends (check_later i col v cands) (v \<notin> set (keys i cands)) col {v}"
  using assms by (induction cands) (auto simp: tuple_get_wide check_ends_def)

lemma check_pairs_ends:
  "wide i cands \<Longrightarrow> check_ends (check_pairs i col cands) (distinct (keys i cands)) col (set (keys i cands))"
proof (induction cands)
  case (Cons c cs)
  then show ?case using check_later_ends [of i cs "tup_values c ! i" col]
    by (auto simp: tuple_get_wide check_ends_def split: if_splits)
qed (simp add: check_ends_def)

definition no_clash :: "nat \<Rightarrow> tuple list \<Rightarrow> tuple list \<Rightarrow> bool" where
  "no_clash i others cands \<longleftrightarrow> distinct (keys i cands) \<and> set (keys i cands) \<inter> set (keys i others) = {}"

lemma check_columns_exact:
  assumes "\<forall>(i, col) \<in> set cols. wide i others \<and> wide i cands"
  shows "if \<forall>(i, col) \<in> set cols. no_clash i others cands then check_columns cols others cands = Ok ()
    else \<exists>(i, col) \<in> set cols. \<not> no_clash i others cands
      \<and> (\<exists>v \<in> set (keys i cands). check_columns cols others cands = Err (violation_for col v))"
  using assms
proof (induction cols)
  case (Cons ic cols)
  obtain i col where ic: "ic = (i, col)" by (cases ic)
  have w: "wide i others" "wide i cands" using Cons.prems ic by auto
  show ?case
  proof (cases "no_clash i others cands")
    case True
    then have "check_columns (ic # cols) others cands = check_columns cols others cands"
      using check_against_ends [OF w, of col] check_pairs_ends [OF w(2), of col]
      by (simp add: ic check_ends_def no_clash_def)
    with Cons True ic show ?thesis by (auto split: if_splits)
  next
    case False
    then have "\<exists>v \<in> set (keys i cands). check_columns (ic # cols) others cands = Err (violation_for col v)"
      using check_against_ends [OF w, of col] check_pairs_ends [OF w(2), of col]
      by (auto simp: ic check_ends_def no_clash_def split: if_splits)
    with False ic show ?thesis by auto
  qed
qed simp

definition conforming :: "schema \<Rightarrow> tuple list \<Rightarrow> bool" where
  "conforming s ts = (\<forall>t \<in> set ts. list_all2 conforms_to (tup_values t) (columns s))"

lemma ucc_index: "(i, col) \<in> set (unique_constrained_columns s) \<Longrightarrow> i < length (columns s)"
  by (auto simp: unique_constrained_columns_def in_set_enumerate_eq)

lemma conforming_wide:
  "conforming s ts \<Longrightarrow> (i, col) \<in> set (unique_constrained_columns s) \<Longrightarrow> wide i ts"
  using ucc_index by (fastforce simp: conforming_def wide_def dest: list_all2_lengthD)

lemma check_uniqueness_cases:
  assumes "conforming s others" "conforming s cands"
  shows "if \<forall>(i, col) \<in> set (unique_constrained_columns s). no_clash i others cands
    then check_uniqueness s others cands = Ok ()
    else \<exists>(i, col) \<in> set (unique_constrained_columns s). \<not> no_clash i others cands
      \<and> (\<exists>v \<in> set (keys i cands). check_uniqueness s others cands = Err (violation_for col v))"
  unfolding check_uniqueness_def
  by (rule check_columns_exact) (auto intro: conforming_wide [OF assms(1)] conforming_wide [OF assms(2)])

text \<open>
  C21: on rows that conform to the schema, \<open>check_uniqueness\<close> accepts exactly when no PRIMARY KEY or UNIQUE
  column would hold a non-NULL value twice, among the new rows or between a new row and the others;
  otherwise it names a constrained column that really has a duplicate and a value of a new row, and it
  never panics.
\<close>

theorem check_uniqueness_exact:
  assumes "conforming s others" "conforming s cands"
  shows "if \<forall>(i, col) \<in> set (unique_constrained_columns s). no_clash i others cands
    then check_uniqueness s others cands = Ok ()
    else \<exists>(i, col) \<in> set (unique_constrained_columns s). \<not> no_clash i others cands
      \<and> (\<exists>v \<in> set (keys i cands). check_uniqueness s others cands = Err (violation_for col v))"
  by (rule check_uniqueness_cases [OF assms])

theorem check_uniqueness_exact_witness:
  "let s = \<lparr>columns = [with_unique (column_new ''e'' TBigInt True)]\<rparr> in
   check_uniqueness s [\<lparr>tup_values = [VNull]\<rparr>] [\<lparr>tup_values = [VNull]\<rparr>] = Ok ()"
proof -
  let ?s = "\<lparr>columns = [with_unique (column_new ''e'' TBigInt True)]\<rparr>" and ?t = "[\<lparr>tup_values = [VNull]\<rparr>]"
  have "conforming ?s ?t" by (simp add: conforming_def with_unique_def column_new_def conforms_to_def)
  from check_uniqueness_exact [OF this this] show ?thesis
    by (simp add: unique_constrained_columns_def no_clash_def)
qed

subsection \<open>Statements keep the constraints\<close>

definition table_ok :: "schema \<Rightarrow> tuple list \<Rightarrow> bool" where
  "table_ok s ts \<longleftrightarrow>
     conforming s ts \<and> (\<forall>(i, col) \<in> set (unique_constrained_columns s). distinct (keys i ts))"

lemma table_ok_mset: "mset ts = mset us \<Longrightarrow> table_ok s ts \<longleftrightarrow> table_ok s us"
proof -
  assume m: "mset ts = mset us"
  then have "set ts = set us" by (rule mset_eq_setD)
  moreover have "distinct (keys i ts) \<longleftrightarrow> distinct (keys i us)" for i
    by (rule mset_eq_imp_distinct_iff) (simp add: mset_keys m)
  ultimately show ?thesis by (simp add: table_ok_def conforming_def)
qed

lemma table_ok_append:
  assumes "conforming s others" "conforming s cands" "check_uniqueness s others cands = Ok ()"
    and "\<forall>(i, col) \<in> set (unique_constrained_columns s). distinct (keys i others)"
  shows "table_ok s (others @ cands)"
proof -
  have "\<forall>(i, col) \<in> set (unique_constrained_columns s). no_clash i others cands"
    using check_uniqueness_cases [OF assms(1,2)] assms(3) by (auto split: if_splits)
  with assms(1,2,4) show ?thesis by (fastforce simp: table_ok_def conforming_def no_clash_def)
qed

lemma table_ok_part: "mset ts = mset us + mset vs \<Longrightarrow> table_ok s ts \<Longrightarrow> table_ok s us"
proof -
  assume "mset ts = mset us + mset vs" and ok: "table_ok s ts"
  then have "table_ok s (us @ vs)" using table_ok_mset [of ts "us @ vs" s] by simp
  then show ?thesis by (fastforce simp: table_ok_def conforming_def)
qed

lemma plan_insert_conforming: "plan_insert_rows s fns cols rows = Ok ts \<Longrightarrow> conforming s ts"
  by (induction rows arbitrary: ts) (auto simp: and_then_Ok_iff conforming_def tuple_new_iff)

definition planned_ok :: "schema \<Rightarrow> (nat \<times> tuple) list \<Rightarrow> (nat \<times> tuple \<times> tuple) list \<Rightarrow> bool" where
  "planned_ok s rows p \<longleftrightarrow>
     distinct (map fst p) \<and> (\<forall>(i, t, t') \<in> set p. (i, t) \<in> set rows) \<and> conforming s (map (\<lambda>(_, _, t'). t') p)"

lemma plan_update_ok:
  "plan_update_rows s fns as pred rows = Ok p \<Longrightarrow> distinct (map fst rows) \<Longrightarrow> planned_ok s rows p"
proof (induction rows arbitrary: p)
  case (Cons it rows)
  obtain i t where it: "it = (i, t)" by (cases it)
  obtain m where "row_matches fns s pred t = Ok m" using Cons.prems(1) it by (auto simp: and_then_Ok_iff)
  show ?case
  proof (cases m)
    case False
    then have "plan_update_rows s fns as pred rows = Ok p"
      using Cons.prems(1) it \<open>row_matches fns s pred t = Ok m\<close> by simp
    with Cons show ?thesis by (auto simp: planned_ok_def)
  next
    case True
    then obtain t' q where q: "plan_update_rows s fns as pred rows = Ok q" "p = (i, t, t') # q"
      "list_all2 conforms_to (tup_values t') (columns s)"
      using Cons.prems(1) it \<open>row_matches fns s pred t = Ok m\<close> by (auto simp: and_then_Ok_iff tuple_new_iff)
    with Cons.IH [OF q(1)] Cons.prems(2) it show ?thesis
      by (force simp: planned_ok_def conforming_def)
  qed
qed (simp add: planned_ok_def conforming_def)

definition untouched :: "nat set \<Rightarrow> tuple list \<Rightarrow> tuple list" where
  "untouched I ts = map snd (filter (\<lambda>(i, _). i \<notin> I) (enumerate 0 ts))"

lemma mset_untouched: "mset (untouched I ts) = image_mset ((!) ts) (mset_set ({..<length ts} - I))"
proof -
  have "enumerate 0 ts = map (\<lambda>i. (i, ts ! i)) [0..<length ts]"
    by (rule nth_equalityI) (simp_all add: nth_enumerate_eq)
  then have "untouched I ts = map ((!) ts) (filter (\<lambda>i. i \<notin> I) [0..<length ts])"
    by (simp add: untouched_def filter_map comp_def)
  moreover have "filter_mset (\<lambda>i. i \<notin> I) (mset_set {0..<length ts}) = mset_set ({..<length ts} - I)"
    by (simp add: filter_mset_mset_set lessThan_atLeast0 set_diff_eq)
  ultimately show ?thesis by simp
qed

lemma mset_write_updates:
  "distinct (map fst p) \<Longrightarrow> \<forall>(i, t, t') \<in> set p. i < length ts \<Longrightarrow>
   mset (write_updates p ts) = mset (untouched (fst ` set p) ts) + mset (map (\<lambda>(_, _, t'). t') p)"
proof (induction p arbitrary: ts)
  case Nil
  then show ?case by (simp add: untouched_def)
next
  case (Cons x p)
  obtain i t t' where x: "x = (i, t, t')" by (cases x)
  let ?ts = "ts[i := t']" and ?I = "fst ` set p"
  have i: "i < length ts" "i \<notin> ?I" using Cons.prems x by auto
  have set: "{..<length ts} - ?I = insert i ({..<length ts} - insert i ?I)" using i by auto
  have "image_mset ((!) ?ts) (mset_set ({..<length ts} - ?I))
      = add_mset t' (image_mset ((!) ts) (mset_set ({..<length ts} - insert i ?I)))"
    unfolding set using i by (auto intro: image_mset_cong)
  with Cons.IH [of ?ts] Cons.prems x show ?case by (auto simp: mset_untouched)
qed

lemma write_updates_same:
  "\<forall>(i, t, t') \<in> set p. i < length ts \<and> ts ! i = t \<Longrightarrow> write_updates (map (\<lambda>(i, t, _). (i, t, t)) p) ts = ts"
  by (induction p) auto

lemma mset_before_updates:
  assumes "distinct (map fst p)" "\<forall>(i, t, t') \<in> set p. i < length ts \<and> ts ! i = t"
  shows "mset ts = mset (untouched (fst ` set p) ts) + mset (map (\<lambda>(_, t, _). t) p)"
proof -
  let ?q = "map (\<lambda>(i, t, _). (i, t, t)) p"
  have fst: "map fst ?q = map fst p" by auto
  have "distinct (map fst ?q)" using assms(1) by (simp only: fst)
  moreover have "\<forall>(i, t, t') \<in> set ?q. i < length ts" using assms(2) by auto
  ultimately have "mset (write_updates ?q ts) = mset (untouched (fst ` set ?q) ts) + mset (map (\<lambda>(_, _, t'). t') ?q)"
    by (rule mset_write_updates)
  moreover have sets: "fst ` set ?q = fst ` set p" by force
  moreover have olds: "map (\<lambda>(_, _, t'). t') ?q = map (\<lambda>(_, t, _). t) p" by auto
  ultimately show ?thesis unfolding sets olds write_updates_same [OF assms(2)] by blast
qed

lemma split_matching_mset:
  "split_matching s fns pred ts = Ok (kept, deleted) \<Longrightarrow> mset ts = mset kept + mset deleted"
  by (induction ts arbitrary: kept deleted) (auto simp: and_then_Ok_iff split: if_splits)

lemma mem_update_cases:
  assumes "mem_update table tid s fns as pred undo = (r, table', undo')"
  obtains (changed) p where "planned_ok s (enumerate 0 table) p" "table' = write_updates p table"
      "check_uniqueness s (untouched (fst ` set p) table) (map (\<lambda>(_, _, t'). t') p) = Ok ()"
      "undo' = undo @ map (\<lambda>(_, t, t'). UndoUpdate tid t t') p" "r = Ok (length p)"
  | (unchanged) "table' = table" "undo' = undo" "\<And>n. r \<noteq> Ok n"
proof (cases "plan_update_rows s fns as pred (enumerate 0 table)")
  case (Ok p)
  then have ok: "planned_ok s (enumerate 0 table) p" by (rule plan_update_ok) simp
  let ?check = "check_uniqueness s (untouched (fst ` set p) table) (map (\<lambda>(_, _, t'). t') p)"
  have step: "(r, table', undo') = (case and_then ?check (\<lambda>_. Ok p) of
      Ok planned \<Rightarrow> (Ok (length planned), write_updates planned table,
        undo @ map (\<lambda>(_, t, t'). UndoUpdate tid t t') planned)
    | Err e \<Rightarrow> (Err e, table, undo) | Panic \<Rightarrow> (Panic, table, undo))"
    using assms unfolding mem_update_def Ok and_then_simps Let_def untouched_def by simp
  show ?thesis
  proof (cases ?check)
    case (Ok u)
    show ?thesis by (rule changed [OF ok]) (use step Ok in auto)
  next
    case (Err e)
    show ?thesis by (rule unchanged) (use step Err in auto)
  next
    case Panic
    show ?thesis by (rule unchanged) (use step Panic in auto)
  qed
next
  case (Err e)
  show ?thesis by (rule unchanged) (use assms Err in \<open>auto simp: mem_update_def\<close>)
next
  case Panic
  show ?thesis by (rule unchanged) (use assms Panic in \<open>auto simp: mem_update_def\<close>)
qed

lemma planned_in_table:
  assumes "planned_ok s (enumerate 0 table) p"
  shows "distinct (map fst p)" "\<forall>(i, t, t') \<in> set p. i < length table \<and> table ! i = t"
    "\<forall>(i, t, t') \<in> set p. i < length table"
  using assms by (auto simp: planned_ok_def in_set_enumerate_eq)

lemma mem_update_ok:
  assumes "mem_update table tid s fns as pred undo = (r, table', undo')" "table_ok s table"
  shows "table_ok s table'"
  using assms(1)
proof (cases rule: mem_update_cases)
  case (changed p)
  let ?others = "untouched (fst ` set p) table" and ?new = "map (\<lambda>(_, _, t'). t') p"
  note p = planned_in_table [OF changed(1)]
  have "table_ok s ?others" by (rule table_ok_part [OF mset_before_updates [OF p(1,2)] assms(2)])
  then have "table_ok s (?others @ ?new)"
    using changed(1,3) by (intro table_ok_append) (auto simp: table_ok_def planned_ok_def)
  moreover have "mset table' = mset (?others @ ?new)"
    unfolding changed(2) using mset_write_updates [OF p(1,3)] by simp
  ultimately show ?thesis using table_ok_mset by blast
qed (use assms(2) in simp)

lemma show_4: "show_i64 4 = ''4''"
  by code_simp

lemma mem_insert_cases:
  assumes "mem_insert table tid s fns cols rows undo = (r, table', undo')"
  obtains (changed) p where "conforming s p" "table' = table @ p" "check_uniqueness s table p = Ok ()"
      "undo' = undo @ map (UndoInsert tid) p" "r = Ok (length p)"
  | (unchanged) "table' = table" "undo' = undo" "\<And>n. r \<noteq> Ok n"
proof (cases "plan_insert_rows s fns cols rows")
  case (Ok p)
  with assms plan_insert_conforming [OF Ok] show ?thesis
    by (cases "check_uniqueness s table p") (auto simp: mem_insert_def intro: that)
qed (use assms in \<open>auto simp: mem_insert_def intro: that\<close>)

lemma mem_insert_ok:
  assumes "mem_insert table tid s fns cols rows undo = (r, table', undo')" "table_ok s table"
  shows "table_ok s table'"
  using assms(1)
proof (cases rule: mem_insert_cases)
  case (changed p)
  have "table_ok s (table @ p)"
    using assms(2) by (intro table_ok_append changed(1,3)) (simp_all add: table_ok_def)
  then show ?thesis by (simp only: changed(2))
qed (use assms(2) in simp)

lemma mem_delete_cases:
  assumes "mem_delete table tid s fns pred undo = (r, table', undo')"
  obtains (changed) deleted where "mset table = mset table' + mset deleted"
      "undo' = undo @ map (UndoDelete tid) deleted" "r = Ok (length deleted)"
  | (unchanged) "table' = table" "undo' = undo" "\<And>n. r \<noteq> Ok n"
  using assms split_matching_mset [of s fns pred table]
  by (cases "split_matching s fns pred table") (auto simp: mem_delete_def intro: that)

lemma run_dml_table:
  assumes tab: "st tid = Some table" and ok: "table_ok s table"
    and run: "run_dml fns tid s d (st, undo) = (r, st', undo')"
  shows "\<exists>table'. st' = st(tid \<mapsto> table') \<and> table_ok s table'
    \<and> (\<forall>n. r = Ok n \<longrightarrow> length undo' = length undo + n)
    \<and> ((\<forall>n. r \<noteq> Ok n) \<longrightarrow> table' = table \<and> undo' = undo)"
proof -
  obtain table' where st': "st' = st(tid \<mapsto> table')"
    and op: "(case d of
        DInsert cols rows \<Rightarrow> mem_insert table tid s fns cols rows undo
      | DUpdate as pred \<Rightarrow> mem_update table tid s fns as pred undo
      | DDelete pred \<Rightarrow> mem_delete table tid s fns pred undo) = (r, table', undo')"
    using run tab by (auto simp: run_dml_def split: prod.splits)
  have "table_ok s table' \<and> (\<forall>n. r = Ok n \<longrightarrow> length undo' = length undo + n)
    \<and> ((\<forall>n. r \<noteq> Ok n) \<longrightarrow> table' = table \<and> undo' = undo)"
  proof (cases d)
    case (DInsert cols rows)
    then have i: "mem_insert table tid s fns cols rows undo = (r, table', undo')" using op by simp
    from i mem_insert_ok [OF i ok] show ?thesis by (cases rule: mem_insert_cases) auto
  next
    case (DUpdate as pred)
    then have u: "mem_update table tid s fns as pred undo = (r, table', undo')" using op by simp
    from u mem_update_ok [OF u ok] show ?thesis by (cases rule: mem_update_cases) auto
  next
    case (DDelete pred)
    then have "mem_delete table tid s fns pred undo = (r, table', undo')" using op by simp
    then show ?thesis
    proof (cases rule: mem_delete_cases)
      case (changed deleted)
      with table_ok_part [OF changed(1) ok] show ?thesis by auto
    qed (use ok in auto)
  qed
  with st' show ?thesis by blast
qed

text \<open>Every table of the storage keeps its constraints; \<open>sch\<close> gives the schema of each.\<close>

definition storage_ok :: "(table_id \<Rightarrow> schema) \<Rightarrow> mem_storage \<Rightarrow> bool" where
  "storage_ok sch st = (\<forall>tid rows. st tid = Some rows \<longrightarrow> table_ok (sch tid) rows)"

text \<open>
  C22: INSERT, UPDATE and DELETE on the memory backend keep every table correct: each row conforms to the
  schema and no PRIMARY KEY or UNIQUE column holds a non-NULL value twice. A statement that fails, with
  an error or a panic, leaves all rows and the undo log as they were; one that succeeds logs exactly as
  many undo records as the row count it reports, and touches no other table.
\<close>

theorem dml_keeps_constraints:
  assumes "storage_ok sch st" "run_dml fns tid (sch tid) d (st, undo) = (r, st', undo')"
  shows "storage_ok sch st'
    \<and> (\<forall>n. r = Ok n \<longrightarrow> length undo' = length undo + n)
    \<and> ((\<forall>n. r \<noteq> Ok n) \<longrightarrow> st' = st \<and> undo' = undo)
    \<and> (\<forall>k. k \<noteq> tid \<longrightarrow> st' k = st k)"
proof (cases "st tid")
  case None
  with assms show ?thesis by (simp add: run_dml_def)
next
  case (Some table)
  then have "table_ok (sch tid) table" using assms(1) by (simp add: storage_ok_def)
  from run_dml_table [OF Some this assms(2)] assms(1) Some show ?thesis
    by (auto simp: storage_ok_def split: if_splits)
qed

theorem dml_keeps_constraints_witness:
  "let s = \<lparr>columns = [with_primary_key (column_new ''id'' TBigInt False)]\<rparr>;
       sp = \<lparr>span_start = 0, span_end = 0\<rparr>;
       (r, st, undo) = run_dml with_builtins 0 s (DInsert None [[IntLiteral 4 sp], [IntLiteral 4 sp]]) ([0 \<mapsto> []], []) in
   r = Err (PrimaryKeyViolation ''id'' ''4'') \<and> st = [0 \<mapsto> []] \<and> undo = []"
proof -
  let ?s = "\<lparr>columns = [with_primary_key (column_new ''id'' TBigInt False)]\<rparr>"
  let ?sp = "\<lparr>span_start = 0, span_end = 0\<rparr>"
  let ?d = "DInsert None [[IntLiteral 4 ?sp], [IntLiteral 4 ?sp]]"
  obtain r st undo where run: "run_dml with_builtins 0 ?s ?d ([0 \<mapsto> []], []) = (r, st, undo)"
    by (cases "run_dml with_builtins 0 ?s ?d ([0 \<mapsto> []], [])") auto
  have r: "r = Err (PrimaryKeyViolation ''id'' ''4'')"
    using run by (simp add: run_dml_def mem_insert_def expand_to_schema_def tuple_new_def validate_tuple_def
        conforms_to_def with_primary_key_def column_new_def check_uniqueness_def unique_constrained_columns_def
        tuple_get_def get_at_def violation_for_def show_4)
  have "storage_ok (\<lambda>_. ?s) [0 \<mapsto> []]"
    by (simp add: storage_ok_def table_ok_def conforming_def)
  from dml_keeps_constraints [OF this run] r have "st = [0 \<mapsto> []] \<and> undo = []" by blast
  then show ?thesis using run r by (simp only: Let_def prod.case)
qed

subsection \<open>Rollback\<close>

text \<open>The rows of every table without their order.\<close>

definition contents :: "mem_storage \<Rightarrow> table_id \<rightharpoonup> tuple multiset" where
  "contents st = (\<lambda>tid. map_option mset (st tid))"

definition undo_contents :: "undo_record \<Rightarrow> (table_id \<rightharpoonup> tuple multiset) \<Rightarrow> table_id \<rightharpoonup> tuple multiset" where
  "undo_contents r m =
     (case r of
        UndoInsert tid t \<Rightarrow> (case m tid of None \<Rightarrow> m | Some M \<Rightarrow> m(tid \<mapsto> M - {#t#}))
      | UndoDelete tid t \<Rightarrow> (case m tid of None \<Rightarrow> m | Some M \<Rightarrow> m(tid \<mapsto> add_mset t M))
      | UndoUpdate tid old new \<Rightarrow>
          (case m tid of None \<Rightarrow> m
           | Some M \<Rightarrow> if new \<in># M then m(tid \<mapsto> add_mset old (M - {#new#})) else m))"

lemma tuple_eq_iff: "tup_values t = tup_values u \<longleftrightarrow> t = u" for t u :: tuple
  by (rule iffI, rule tuple.equality) simp_all

lemma mset_remove_at: "i < length xs \<Longrightarrow> mset (remove_at i xs) = mset xs - {#xs ! i#}"
proof -
  assume i: "i < length xs"
  then have "mset xs = mset (take i xs @ xs ! i # drop (Suc i) xs)" by (simp only: id_take_nth_drop [symmetric])
  then show ?thesis by (simp add: remove_at_def)
qed

lemma position_tuple:
  "position (\<lambda>x. x = t) xs = None \<Longrightarrow> t \<notin> set xs"
  "position (\<lambda>x. x = t) xs = Some i \<Longrightarrow> i < length xs \<and> xs ! i = t"
  by (auto simp: position_None_iff position_Some_iff)

lemma contents_undo_one: "contents (undo_one r st) = undo_contents r (contents st)"
proof (cases r)
  case (UndoInsert tid t)
  show ?thesis
  proof (cases "st tid")
    case (Some rows)
    then show ?thesis
      by (cases "position (\<lambda>x. x = t) rows")
        (auto simp: UndoInsert undo_one_def undo_contents_def contents_def tuple_eq_iff fun_eq_iff
          mset_remove_at diff_single_trivial dest!: position_tuple)
  qed (simp add: UndoInsert undo_one_def undo_contents_def contents_def)
next
  case (UndoDelete tid t)
  then show ?thesis by (auto simp: undo_one_def undo_contents_def contents_def fun_eq_iff split: option.splits)
next
  case (UndoUpdate tid old new)
  show ?thesis
  proof (cases "st tid")
    case (Some rows)
    then show ?thesis
      by (cases "position (\<lambda>x. x = new) rows")
        (auto simp: UndoUpdate undo_one_def undo_contents_def contents_def tuple_eq_iff fun_eq_iff mset_update
          dest!: position_tuple)
  qed (simp add: UndoUpdate undo_one_def undo_contents_def contents_def)
qed

lemma contents_apply_undo:
  "contents (apply_undo_memory st log) = fold undo_contents (rev log) (contents st)"
proof -
  have "contents (fold undo_one rs st) = fold undo_contents rs (contents st)" for rs
    by (induction rs arbitrary: st) (simp_all add: contents_undo_one)
  then show ?thesis by (simp add: apply_undo_memory_def)
qed

text \<open>Undoing the records of one statement on the contents after it.\<close>

lemma undo_contents_one:
  "undo_contents (UndoInsert tid t) (m(tid \<mapsto> add_mset t M)) = m(tid \<mapsto> M)"
  "undo_contents (UndoDelete tid t) (m(tid \<mapsto> M)) = m(tid \<mapsto> add_mset t M)"
  "undo_contents (UndoUpdate tid t t') (m(tid \<mapsto> add_mset t' M)) = m(tid \<mapsto> add_mset t M)"
  by (simp_all add: undo_contents_def)

lemma undo_inserts_from:
  "fold undo_contents (rev (map (UndoInsert tid) ts)) (m(tid \<mapsto> M + mset ts)) = m(tid \<mapsto> M)"
proof (induction ts arbitrary: M)
  case (Cons t ts)
  have "M + mset (t # ts) = add_mset t M + mset ts" by simp
  with Cons.IH [of "add_mset t M"] show ?case by (simp only: rev.simps list.map fold_append fold.simps o_apply id_apply undo_contents_one)
qed (simp del: fun_upd_apply)

lemma undo_deletes_from:
  "fold undo_contents (rev (map (UndoDelete tid) ts)) (m(tid \<mapsto> M)) = m(tid \<mapsto> M + mset ts)"
proof (induction ts)
  case (Cons t ts)
  then show ?case
    by (simp only: rev.simps list.map fold_append fold.simps o_apply id_apply undo_contents_one mset.simps union_mset_add_mset_right)
qed simp

lemma undo_updates_from:
  "fold undo_contents (rev (map (\<lambda>(_, t, t'). UndoUpdate tid t t') p))
     (m(tid \<mapsto> M + mset (map (\<lambda>(_, _, t'). t') p)))
   = m(tid \<mapsto> M + mset (map (\<lambda>(_, t, _). t) p))"
proof (induction p arbitrary: M)
  case (Cons x p)
  obtain i t t' where x: "x = (i, t, t')" by (cases x)
  from Cons.IH [of "add_mset t' M"] show ?case
    by (simp only: x rev.simps list.map prod.case fold_append fold.simps o_apply id_apply undo_contents_one mset.simps
      union_mset_add_mset_right union_mset_add_mset_left)
qed simp

lemma undo_inserts:
  "m tid = Some M \<Longrightarrow> fold undo_contents (rev (map (UndoInsert tid) ts)) (m(tid \<mapsto> M + mset ts)) = m"
  by (simp add: undo_inserts_from map_upd_triv)

lemma undo_deletes:
  "m tid = Some (M + mset ts) \<Longrightarrow> fold undo_contents (rev (map (UndoDelete tid) ts)) (m(tid \<mapsto> M)) = m"
  by (simp add: undo_deletes_from map_upd_triv)

lemma undo_updates:
  "m tid = Some (M + mset (map (\<lambda>(_, t, _). t) p)) \<Longrightarrow>
   fold undo_contents (rev (map (\<lambda>(_, t, t'). UndoUpdate tid t t') p))
     (m(tid \<mapsto> M + mset (map (\<lambda>(_, _, t'). t') p))) = m"
  by (simp only: undo_updates_from map_upd_triv)

lemma run_dml_undo:
  assumes "run_dml fns tid s d (st, undo) = (r, st', undo')"
  shows "\<exists>new. undo' = undo @ new \<and> fold undo_contents (rev new) (contents st') = contents st"
proof (cases "st tid")
  case None
  with assms show ?thesis by (simp add: run_dml_def)
next
  case (Some table)
  obtain table' where st': "st' = st(tid \<mapsto> table')"
    and op: "(case d of
        DInsert cols rows \<Rightarrow> mem_insert table tid s fns cols rows undo
      | DUpdate as pred \<Rightarrow> mem_update table tid s fns as pred undo
      | DDelete pred \<Rightarrow> mem_delete table tid s fns pred undo) = (r, table', undo')"
    using assms Some by (auto simp: run_dml_def split: prod.splits)
  have before: "contents st tid = Some (mset table)" and after: "contents st' = (contents st)(tid \<mapsto> mset table')"
    using Some by (auto simp: contents_def st' fun_eq_iff)
  have same: ?thesis if "table' = table" "undo' = undo"
    using that before by (auto simp: after fun_eq_iff)
  show ?thesis
  proof (cases d)
    case (DInsert cols rows)
    then have "mem_insert table tid s fns cols rows undo = (r, table', undo')" using op by simp
    then show ?thesis
    proof (cases rule: mem_insert_cases)
      case (changed p)
      then show ?thesis using undo_inserts [where m = "contents st" and tid = tid and ts = p, OF before] by (auto simp: after)
    qed (rule same)
  next
    case (DUpdate as pred)
    then have "mem_update table tid s fns as pred undo = (r, table', undo')" using op by simp
    then show ?thesis
    proof (cases rule: mem_update_cases)
      case (changed p)
      let ?M = "mset (untouched (fst ` set p) table)"
      note p = planned_in_table [OF changed(1)]
      have "contents st tid = Some (?M + mset (map (\<lambda>(_, t, _). t) p))"
        using before mset_before_updates [OF p(1,2)] by simp
      from undo_updates [where m = "contents st" and tid = tid and p = p, OF this] show ?thesis
        unfolding after changed(2) mset_write_updates [OF p(1,3)] using changed(4) by blast
    qed (rule same)
  next
    case (DDelete pred)
    then have "mem_delete table tid s fns pred undo = (r, table', undo')" using op by simp
    then show ?thesis
    proof (cases rule: mem_delete_cases)
      case (changed deleted)
      then have "contents st tid = Some (mset table' + mset deleted)" using before by simp
      from undo_deletes [where m = "contents st" and tid = tid and ts = deleted, OF this] show ?thesis using changed(2) by (auto simp: after)
    qed (rule same)
  qed
qed

definition run_statements ::
  "function_registry \<Rightarrow> (table_id \<times> schema \<times> dml) list \<Rightarrow> mem_storage \<times> undo_record list
   \<Rightarrow> mem_storage \<times> undo_record list" where
  "run_statements fns = fold (\<lambda>(tid, s, d) st. snd (run_dml fns tid s d st))"

lemma run_statements_undo:
  "run_statements fns ops (st, undo) = (st', undo') \<Longrightarrow>
   \<exists>new. undo' = undo @ new \<and> fold undo_contents (rev new) (contents st') = contents st"
proof (induction ops arbitrary: st undo)
  case (Cons x ops)
  obtain tid s d where x: "x = (tid, s, d)" by (cases x)
  obtain r st1 undo1 where one: "run_dml fns tid s d (st, undo) = (r, st1, undo1)"
    by (cases "run_dml fns tid s d (st, undo)") auto
  have "run_statements fns ops (st1, undo1) = (st', undo')"
    using Cons.prems by (simp add: run_statements_def x one)
  from Cons.IH [OF this] run_dml_undo [OF one] show ?case by force
qed (simp add: run_statements_def)

lemma rollback_contents:
  "run_statements fns ops (st, []) = (st', log) \<Longrightarrow> contents (apply_undo_memory st' log) = contents st"
  using run_statements_undo [of fns ops st "[]"] by (fastforce simp: contents_apply_undo)

text \<open>
  C23: ROLLBACK on the memory backend restores the data: after any sequence of INSERT, UPDATE and DELETE
  statements on any tables, failed ones included, applying the undo log that they collected gives
  every table the rows it had before, each as often as before (their order may differ).
\<close>

theorem rollback_restores:
  "let (st', log) = run_statements fns ops (st, []) in contents (apply_undo_memory st' log) = contents st"
  using rollback_contents by (auto simp: Let_def)

subsection \<open>The memory backend as a whole\<close>

text \<open>
  The states that the memory backend reaches: \<open>CREATE TABLE\<close>, \<open>DROP TABLE\<close>, one auto-committed statement,
  and a transaction that is rolled back. A statement is bound to the id and the schema of the catalog.
\<close>

inductive memory_reachable :: "function_registry \<Rightarrow> memory_backend \<Rightarrow> bool" for fns where
  init: "memory_reachable fns \<lparr>mb_catalog = catalog_new, mb_storage = Map.empty\<rparr>"
| create: "memory_reachable fns b \<Longrightarrow> memory_create_table b ct = Ok b' \<Longrightarrow> memory_reachable fns b'"
| drop: "memory_reachable fns b \<Longrightarrow> memory_drop_table b name = Ok b' \<Longrightarrow> memory_reachable fns b'"
| dml: "memory_reachable fns b \<Longrightarrow> catalog_table (mb_catalog b) name = Some info \<Longrightarrow>
    run_dml fns (ti_id info) (ti_schema info) d (mb_storage b, []) = (r, st', undo) \<Longrightarrow>
    memory_reachable fns (b\<lparr>mb_storage := st'\<rparr>)"
| rollback: "memory_reachable fns b \<Longrightarrow> run_statements fns ops (mb_storage b, []) = (st', undo) \<Longrightarrow>
    memory_reachable fns (b\<lparr>mb_storage := apply_undo_memory st' undo\<rparr>)"

definition rows_ok :: "memory_backend \<Rightarrow> bool" where
  "rows_ok b \<longleftrightarrow> (\<forall>name info rows. cat_tables (mb_catalog b) name = Some info \<longrightarrow>
     mb_storage b (ti_id info) = Some rows \<longrightarrow> table_ok (ti_schema info) rows)"

lemma contents_table_ok:
  assumes "contents st' = contents st" "st' tid = Some rows'" "\<And>rows. st tid = Some rows \<Longrightarrow> table_ok s rows"
  shows "table_ok s rows'"
proof -
  from fun_cong [OF assms(1), of tid] assms(2) have "map_option mset (st tid) = Some (mset rows')"
    by (simp add: contents_def)
  then obtain rows where "st tid = Some rows" "mset rows = mset rows'" by blast
  with table_ok_mset assms(3) show ?thesis by metis
qed

lemma contents_dom: "contents st' = contents st \<Longrightarrow> dom st' = dom st"
proof -
  assume "contents st' = contents st"
  then have "map_option mset (st' t) = map_option mset (st t)" for t by (simp add: contents_def fun_eq_iff)
  then have "st' t = None \<longleftrightarrow> st t = None" for t by (metis map_option_is_None)
  then show ?thesis by (simp add: dom_def)
qed

lemma memory_create_rows_ok:
  assumes "backend_inv b" "rows_ok b" "memory_create_table b ct = Ok b'"
  shows "rows_ok b'"
proof -
  have "ti_id info \<noteq> next_table_id (mb_catalog b)" if "cat_tables (mb_catalog b) n = Some info" for n info
    using assms(1) that unfolding backend_inv_def by (metis order.strict_implies_not_eq)
  then show ?thesis
    using assms by (fastforce simp: memory_create_table_def catalog_create_table_def mem_create_table_def and_then_Ok_iff
        rows_ok_def table_ok_def conforming_def keys_def split: if_splits)
qed

lemma memory_drop_rows_ok:
  assumes "rows_ok b" "memory_drop_table b name = Ok b'"
  shows "rows_ok b'"
  using assms by (fastforce simp: memory_drop_table_def catalog_drop_table_def mem_drop_table_def and_then_Ok_iff
      rows_ok_def split: option.splits if_splits)

lemma backend_inv_dom:
  "backend_inv b \<Longrightarrow> dom st = dom (mb_storage b) \<Longrightarrow> backend_inv (b\<lparr>mb_storage := st\<rparr>)"
  by (simp add: backend_inv_def)

lemma backend_rows:
  assumes "backend_inv b" "cat_tables (mb_catalog b) name = Some info"
  obtains rows where "mb_storage b (ti_id info) = Some rows"
proof -
  from assms(2) have "ti_id info \<in> ti_id ` ran (cat_tables (mb_catalog b))" by (auto intro: ranI)
  then have "ti_id info \<in> dom (mb_storage b)" using assms(1) by (simp add: backend_inv_def)
  then show ?thesis using that by blast
qed

lemma memory_dml_ok:
  assumes inv: "backend_inv b" "rows_ok b" and info: "cat_tables (mb_catalog b) name = Some info"
    and run: "run_dml fns (ti_id info) (ti_schema info) d (mb_storage b, undo) = (r, st', undo')"
  shows "backend_inv (b\<lparr>mb_storage := st'\<rparr>) \<and> rows_ok (b\<lparr>mb_storage := st'\<rparr>)"
proof -
  obtain rows where rows: "mb_storage b (ti_id info) = Some rows" by (rule backend_rows [OF inv(1) info])
  then have "table_ok (ti_schema info) rows" using inv(2) info by (simp add: rows_ok_def)
  from run_dml_table [OF rows this run] obtain rows' where st': "st' = (mb_storage b)(ti_id info \<mapsto> rows')"
    and ok: "table_ok (ti_schema info) rows'" by blast
  have "dom st' = dom (mb_storage b)" using rows by (auto simp: st')
  then have "backend_inv (b\<lparr>mb_storage := st'\<rparr>)" by (rule backend_inv_dom [OF inv(1)])
  moreover have "j = info" if "cat_tables (mb_catalog b) n = Some j" "ti_id j = ti_id info" for n j
  proof -
    have "inj_on (\<lambda>n. ti_id (the (cat_tables (mb_catalog b) n))) (dom (cat_tables (mb_catalog b)))"
      using inv(1) by (simp add: backend_inv_def)
    from inj_onD [OF this, of n name] that info have "n = name" by (simp add: domI)
    with that info show ?thesis by simp
  qed
  then have "rows_ok (b\<lparr>mb_storage := st'\<rparr>)"
    using inv(2) ok by (auto simp: rows_ok_def st' split: if_splits)
  ultimately show ?thesis by blast
qed

lemma memory_rollback_ok:
  assumes inv: "backend_inv b" "rows_ok b" and "run_statements fns ops (mb_storage b, []) = (st', log)"
  shows "backend_inv (b\<lparr>mb_storage := apply_undo_memory st' log\<rparr>)
    \<and> rows_ok (b\<lparr>mb_storage := apply_undo_memory st' log\<rparr>)"
proof -
  note same = rollback_contents [OF assms(3)]
  have "rows_ok (b\<lparr>mb_storage := apply_undo_memory st' log\<rparr>)"
    using inv(2) contents_table_ok [OF same] by (auto simp: rows_ok_def)
  with backend_inv_dom [OF inv(1) contents_dom [OF same]] show ?thesis by blast
qed



end
