(* ===== verification/Statements.thy ===== *)
theory Statements
  imports Mem_Executor
begin

text \<open>
  The statements of the syntax tree (\<open>src/src/ast.rs\<close>) and their binding (\<open>src/src/binder.rs\<close>): names of
  tables, columns and indexes are resolved, expressions are type checked, aggregation and
  \<open>ORDER BY\<close> are rewritten to columns of the projection.
\<close>

subsection \<open>Statements\<close>

datatype join_kind = Inner

datatype isolation_level = ReadUncommitted | ReadCommitted | RepeatableRead | Serializable

record order_by_item =
  ob_expr :: expr
  ob_desc :: bool
  ob_span :: span

record join_clause =
  jc_kind :: join_kind
  jc_table :: ident
  jc_alias :: "ident option"
  jc_on :: expr
  jc_span :: span

record from_clause =
  fc_table :: ident
  fc_alias :: "ident option"
  fc_joins :: "join_clause list"
  fc_span :: span

datatype select_item = SelectExpr expr span | Wildcard span

record select_statement =
  sel_distinct :: bool
  sel_items :: "select_item list"
  sel_from :: "from_clause option"
  sel_where :: "expr option"
  sel_group_by :: "expr list"
  sel_having :: "expr option"
  sel_order_by :: "order_by_item list"
  sel_limit :: "expr option"
  sel_offset :: "expr option"
  sel_span :: span

record drop_table_statement =
  dt_table :: ident
  dt_span :: span

record create_index_statement =
  ci_unique :: bool
  ci_index :: ident
  ci_table :: ident
  ci_column :: ident
  ci_span :: span

record drop_index_statement =
  di_index :: ident
  di_span :: span

record insert_statement =
  ins_table :: ident
  ins_columns :: "ident list option"
  ins_rows :: "expr list list"
  ins_span :: span

record assignment =
  asg_column :: ident
  asg_value :: expr
  asg_span :: span

record update_statement =
  upd_table :: ident
  upd_assignments :: "assignment list"
  upd_where :: "expr option"
  upd_span :: span

record delete_statement =
  del_table :: ident
  del_where :: "expr option"
  del_span :: span

datatype literal = LitInt i64 span | LitText string span | LitBool bool span | LitNull span

fun literal_span :: "literal \<Rightarrow> span" where
  "literal_span (LitInt _ s) = s"
| "literal_span (LitText _ s) = s"
| "literal_span (LitBool _ s) = s"
| "literal_span (LitNull s) = s"

text \<open>Statements with nothing but a table name, or nothing at all, are their fields and the span.\<close>

datatype statement =
    Select select_statement
  | CreateTable create_table_statement
  | DropTable drop_table_statement
  | CreateIndex create_index_statement
  | DropIndex drop_index_statement
  | Insert insert_statement
  | Update update_statement
  | Delete delete_statement
  | Explain statement bool span
  | Analyze "ident option" span
  | Begin "isolation_level option" span
  | Commit span
  | Rollback span
  | Checkpoint span
  | Prepare ident statement span
  | Execute ident "literal list" span
  | Deallocate ident span
  | ShowTables span
  | Describe ident span
  | ShowIndexes "ident option" span
  | ShowStats "ident option" span
  | Vacuum "ident option" span

fun statement_span :: "statement \<Rightarrow> span" where
  "statement_span (Select s) = sel_span s"
| "statement_span (CreateTable s) = ct_span s"
| "statement_span (DropTable s) = dt_span s"
| "statement_span (CreateIndex s) = ci_span s"
| "statement_span (DropIndex s) = di_span s"
| "statement_span (Insert s) = ins_span s"
| "statement_span (Update s) = upd_span s"
| "statement_span (Delete s) = del_span s"
| "statement_span (Explain _ _ s) = s"
| "statement_span (Analyze _ s) = s"
| "statement_span (Begin _ s) = s"
| "statement_span (Commit s) = s"
| "statement_span (Rollback s) = s"
| "statement_span (Checkpoint s) = s"
| "statement_span (Prepare _ _ s) = s"
| "statement_span (Execute _ _ s) = s"
| "statement_span (Deallocate _ s) = s"
| "statement_span (ShowTables s) = s"
| "statement_span (Describe _ s) = s"
| "statement_span (ShowIndexes _ s) = s"
| "statement_span (ShowStats _ s) = s"
| "statement_span (Vacuum _ s) = s"

subsection \<open>Bound statements\<close>

record bound_join_step =
  bj_kind :: join_kind
  bj_condition :: bound_expr

record bound_order_by_item =
  bo_expr :: bound_expr
  bo_desc :: bool

record bound_select =
  bs_tables :: "bound_table_ref list"
  bs_joins :: "bound_join_step list"
  bs_distinct :: bool
  bs_projection :: "bound_select_item list"
  bs_hidden_column_count :: nat
  bs_predicate :: "bound_expr option"
  bs_aggregate :: "bound_aggregate option"
  bs_having :: "bound_expr option"
  bs_order_by :: "bound_order_by_item list"
  bs_limit :: "nat option"
  bs_offset :: "nat option"
  bs_span :: span

record bound_insert =
  bi_table_id :: table_id
  bi_table_name :: string
  bi_schema :: schema
  bi_columns :: "nat list option"
  bi_rows :: "expr list list"
  bi_span :: span

record bound_update =
  bu_table_id :: table_id
  bu_table_name :: string
  bu_schema :: schema
  bu_assignments :: "bound_assignment list"
  bu_predicate :: "bound_expr option"
  bu_span :: span

record bound_delete =
  bd_table_id :: table_id
  bd_table_name :: string
  bd_schema :: schema
  bd_predicate :: "bound_expr option"
  bd_span :: span

record bound_create_index =
  bci_index_name :: string
  bci_table_name :: string
  bci_table_id :: table_id
  bci_column_name :: string
  bci_column_index :: nat
  bci_unique :: bool
  bci_span :: span

datatype bound_statement =
    BSelect bound_select
  | BCreateTable create_table_statement
  | BDropTable drop_table_statement
  | BCreateIndex bound_create_index
  | BDropIndex drop_index_statement
  | BInsert bound_insert
  | BUpdate bound_update
  | BDelete bound_delete
  | BExplain bound_statement bool
  | BAnalyze "ident option" span
  | BBegin "isolation_level option" span
  | BCommit span
  | BRollback span
  | BCheckpoint span
  | BShowTables span
  | BDescribe ident span
  | BShowIndexes "ident option" span
  | BShowStats "ident option" span
  | BVacuum "ident option" span

subsection \<open>Binding of SELECT\<close>

fun bind_joins ::
  "binder_env \<Rightarrow> bound_table_ref list \<Rightarrow> join_clause list
   \<Rightarrow> (bound_table_ref list \<times> bound_join_step list) outcome" where
  "bind_joins b ts [] = Ok (ts, [])"
| "bind_joins b ts (j # js) =
    and_then (resolve_table b (jc_table j) (jc_alias j)) (\<lambda>right.
    let ts = ts @ [right] in
    and_then (bind_predicate b (jc_on j) ts) (\<lambda>c.
    if bound_contains_aggregate c then Err (error_at b (bound_span c))
    else and_then (bind_joins b ts js) (\<lambda>(ts, joins).
      Ok (ts, \<lparr>bj_kind = jc_kind j, bj_condition = c\<rparr> # joins))))"

definition bind_from ::
  "binder_env \<Rightarrow> from_clause option \<Rightarrow> (bound_table_ref list \<times> bound_join_step list) outcome" where
  "bind_from b from =
     (case from of
        None \<Rightarrow> Ok ([], [])
      | Some f \<Rightarrow>
          and_then (resolve_table b (fc_table f) (fc_alias f)) (\<lambda>t. bind_joins b [t] (fc_joins f)))"

text \<open>\<open>*\<close>: every column of every table, numbered through.\<close>

fun wildcard_items :: "span \<Rightarrow> nat \<Rightarrow> nat \<Rightarrow> bound_table_ref list \<Rightarrow> bound_select_item list" where
  "wildcard_items sp ordinal offset [] = []"
| "wildcard_items sp ordinal offset (t # ts) =
    map (\<lambda>(i, c). \<lparr>si_expr = BColumnRef ordinal (offset + i) (col_name c) (col_type c) sp,
        si_output_name = col_name c\<rparr>) (enumerate 0 (columns (bt_schema t)))
    @ wildcard_items sp (Suc ordinal) (offset + schema_len (bt_schema t)) ts"

definition bind_item ::
  "binder_env \<Rightarrow> bound_table_ref list \<Rightarrow> select_item \<Rightarrow> bound_select_item list outcome" where
  "bind_item b ts item =
     (case item of
        Wildcard sp \<Rightarrow>
          if ts = [] then Err (error_at b sp) else Ok (wildcard_items sp 0 0 ts)
      | SelectExpr e sp \<Rightarrow>
          and_then (expect (str_slice (b_sql b) (span_start sp) (span_end sp))) (\<lambda>name.
          and_then (bind_expr b e ts) (\<lambda>bound.
          Ok [\<lparr>si_expr = bound, si_output_name = name\<rparr>])))"

definition bind_where :: "binder_env \<Rightarrow> bound_table_ref list \<Rightarrow> expr option \<Rightarrow> bound_expr option outcome" where
  "bind_where b ts clause =
     (case clause of
        None \<Rightarrow> Ok None
      | Some e \<Rightarrow>
          and_then (bind_predicate b e ts) (\<lambda>bound.
          if bound_contains_aggregate bound then Err (error_at b (bound_span bound)) else Ok (Some bound)))"

definition bind_group_key :: "binder_env \<Rightarrow> bound_table_ref list \<Rightarrow> expr \<Rightarrow> bound_expr outcome" where
  "bind_group_key b ts e =
     and_then (bind_expr b e ts) (\<lambda>bound.
     if bound_contains_aggregate bound then Err (error_at b (bound_span bound)) else Ok bound)"

definition bind_having :: "binder_env \<Rightarrow> bound_table_ref list \<Rightarrow> expr option \<Rightarrow> bound_expr option outcome" where
  "bind_having b ts clause =
     (case clause of None \<Rightarrow> Ok None | Some e \<Rightarrow> and_then (bind_predicate b e ts) (\<lambda>bound. Ok (Some bound)))"

fun rewrite_items ::
  "binder_env \<Rightarrow> bound_select_item list \<Rightarrow> bound_aggregate \<Rightarrow> (bound_select_item list \<times> bound_aggregate) outcome"
where
  "rewrite_items b [] agg = Ok ([], agg)"
| "rewrite_items b (i # is) agg =
    and_then (rewrite_for_aggregate b (si_expr i) agg) (\<lambda>(e, agg).
    and_then (rewrite_items b is agg) (\<lambda>(is, agg).
    Ok (i\<lparr>si_expr := e\<rparr> # is, agg)))"

definition aggregate_query ::
  "bound_expr list \<Rightarrow> bound_expr option \<Rightarrow> bound_select_item list \<Rightarrow> order_by_item list \<Rightarrow> bool" where
  "aggregate_query group_by having projection order_by \<longleftrightarrow>
     group_by \<noteq> [] \<or> having \<noteq> None
     \<or> list_ex (\<lambda>i. bound_contains_aggregate (si_expr i)) projection
     \<or> list_ex (\<lambda>i. ast_expr_contains_aggregate (ob_expr i)) order_by"

definition rewrite_select ::
  "binder_env \<Rightarrow> bound_expr list \<Rightarrow> bound_expr option \<Rightarrow> bound_select_item list
   \<Rightarrow> (bound_aggregate \<times> bound_select_item list \<times> bound_expr option) outcome" where
  "rewrite_select b group_by having projection =
     and_then (rewrite_items b projection (build_aggregate group_by)) (\<lambda>(projection, agg).
     case having of
       None \<Rightarrow> Ok (agg, projection, None)
     | Some h \<Rightarrow>
         and_then (rewrite_for_aggregate b h agg) (\<lambda>(h, agg). Ok (agg, projection, Some h)))"

definition resolve_order_by ::
  "binder_env \<Rightarrow> expr \<Rightarrow> bound_table_ref list \<Rightarrow> bound_aggregate option \<Rightarrow> bound_select_item list
   \<Rightarrow> (nat \<times> bound_select_item list \<times> bound_aggregate option) outcome" where
  "resolve_order_by b e ts agg projection =
     (case agg of
        Some a \<Rightarrow>
          and_then (resolve_order_by_in_aggregate_scope b e ts a projection) (\<lambda>(index, projection, a).
          Ok (index, projection, Some a))
      | None \<Rightarrow>
          and_then (resolve_order_by_in_plain_scope b e ts projection) (\<lambda>(index, projection).
          Ok (index, projection, None)))"

fun bind_order_by ::
  "binder_env \<Rightarrow> bool \<Rightarrow> nat \<Rightarrow> bound_table_ref list \<Rightarrow> order_by_item list \<Rightarrow> bound_aggregate option
   \<Rightarrow> bound_select_item list
   \<Rightarrow> (bound_order_by_item list \<times> bound_select_item list \<times> bound_aggregate option) outcome" where
  "bind_order_by b dist visible ts [] agg projection = Ok ([], projection, agg)"
| "bind_order_by b dist visible ts (item # items) agg projection =
    and_then (resolve_order_by b (ob_expr item) ts agg projection) (\<lambda>(index, projection, agg).
    if dist \<and> visible \<le> index then Err (error_at b (expr_span (ob_expr item)))
    else and_then (expect (get_at projection index)) (\<lambda>target.
      let t = (case bound_type (si_expr target) of Some t \<Rightarrow> t | None \<Rightarrow> TText) in
      and_then (bind_order_by b dist visible ts items agg projection) (\<lambda>(keys, projection, agg).
      Ok (\<lparr>bo_expr = BColumnRef 0 index (si_output_name target) t (expr_span (ob_expr item)),
            bo_desc = ob_desc item\<rparr> # keys, projection, agg))))"

definition bind_row_count :: "binder_env \<Rightarrow> expr option \<Rightarrow> nat option outcome" where
  "bind_row_count b clause =
     (case clause of None \<Rightarrow> Ok None | Some e \<Rightarrow> and_then (eval_row_count_expr b e) (\<lambda>n. Ok (Some n)))"

definition bind_select :: "binder_env \<Rightarrow> select_statement \<Rightarrow> bound_select outcome" where
  "bind_select b s =
     and_then (bind_from b (sel_from s)) (\<lambda>(ts, joins).
     and_then (map_outcome (bind_item b ts) (sel_items s)) (\<lambda>items.
     and_then (bind_where b ts (sel_where s)) (\<lambda>predicate.
     and_then (map_outcome (bind_group_key b ts) (sel_group_by s)) (\<lambda>group_by.
     and_then (bind_having b ts (sel_having s)) (\<lambda>raw_having.
     let projection = concat items in
     and_then
       (if aggregate_query group_by raw_having projection (sel_order_by s)
        then and_then (rewrite_select b group_by raw_having projection) (\<lambda>(agg, projection, having).
          Ok (Some agg, projection, having))
        else Ok (None, projection, None)) (\<lambda>(agg, projection, having).
     let visible = length projection in
     and_then (bind_order_by b (sel_distinct s) visible ts (sel_order_by s) agg projection)
       (\<lambda>(order_by, projection, agg).
     and_then (bind_row_count b (sel_limit s)) (\<lambda>limit.
     and_then (bind_row_count b (sel_offset s)) (\<lambda>offset.
     Ok \<lparr>bs_tables = ts, bs_joins = joins, bs_distinct = sel_distinct s, bs_projection = projection,
         bs_hidden_column_count = length projection - visible, bs_predicate = predicate,
         bs_aggregate = agg, bs_having = having, bs_order_by = order_by, bs_limit = limit,
         bs_offset = offset, bs_span = sel_span s\<rparr>)))))))))"

subsection \<open>Binding of the other statements\<close>

fun bind_insert_columns :: "binder_env \<Rightarrow> schema \<Rightarrow> nat set \<Rightarrow> ident list \<Rightarrow> nat list outcome" where
  "bind_insert_columns b s seen [] = Ok []"
| "bind_insert_columns b s seen (c # cs) =
    and_then (ok_or (error_at b (id_span c)) (index_of s (id_name c))) (\<lambda>i.
    if i \<in> seen then Err (error_at b (id_span c))
    else and_then (bind_insert_columns b s (insert i seen) cs) (\<lambda>is. Ok (i # is)))"

definition bind_insert :: "binder_env \<Rightarrow> insert_statement \<Rightarrow> bound_insert outcome" where
  "bind_insert b i =
     and_then (resolve_table b (ins_table i) None) (\<lambda>t.
     and_then
       (case ins_columns i of
          None \<Rightarrow> Ok None
        | Some cs \<Rightarrow> and_then (bind_insert_columns b (bt_schema t) {} cs) (\<lambda>is. Ok (Some is))) (\<lambda>cols.
     Ok \<lparr>bi_table_id = bt_table_id t, bi_table_name = bt_table_name t, bi_schema = bt_schema t,
         bi_columns = cols, bi_rows = ins_rows i, bi_span = ins_span i\<rparr>))"

definition bind_assignment :: "binder_env \<Rightarrow> bound_table_ref \<Rightarrow> assignment \<Rightarrow> bound_assignment outcome" where
  "bind_assignment b t a =
     and_then (ok_or (error_at b (id_span (asg_column a))) (index_of (bt_schema t) (id_name (asg_column a)))) (\<lambda>i.
     and_then (expect (get_at (columns (bt_schema t)) i)) (\<lambda>c.
     and_then (bind_expr b (asg_value a) [t]) (\<lambda>v.
     Ok \<lparr>as_column = i, as_value = coerce_param_type v (Some (col_type c))\<rparr>)))"

text \<open>\<open>WHERE\<close> of \<open>UPDATE\<close> and \<open>DELETE\<close>; unlike that of \<open>SELECT\<close> it does not look for aggregate calls.\<close>

definition bind_dml_where :: "binder_env \<Rightarrow> bound_table_ref \<Rightarrow> expr option \<Rightarrow> bound_expr option outcome" where
  "bind_dml_where b t clause =
     (case clause of None \<Rightarrow> Ok None | Some e \<Rightarrow> and_then (bind_predicate b e [t]) (\<lambda>bound. Ok (Some bound)))"

definition bind_update :: "binder_env \<Rightarrow> update_statement \<Rightarrow> bound_update outcome" where
  "bind_update b u =
     and_then (resolve_table b (upd_table u) None) (\<lambda>t.
     and_then (map_outcome (bind_assignment b t) (upd_assignments u)) (\<lambda>assignments.
     and_then (bind_dml_where b t (upd_where u)) (\<lambda>predicate.
     Ok \<lparr>bu_table_id = bt_table_id t, bu_table_name = bt_table_name t, bu_schema = bt_schema t,
         bu_assignments = assignments, bu_predicate = predicate, bu_span = upd_span u\<rparr>)))"

definition bind_delete :: "binder_env \<Rightarrow> delete_statement \<Rightarrow> bound_delete outcome" where
  "bind_delete b d =
     and_then (resolve_table b (del_table d) None) (\<lambda>t.
     and_then (bind_dml_where b t (del_where d)) (\<lambda>predicate.
     Ok \<lparr>bd_table_id = bt_table_id t, bd_table_name = bt_table_name t, bd_schema = bt_schema t,
         bd_predicate = predicate, bd_span = del_span d\<rparr>))"

definition bind_create_index :: "binder_env \<Rightarrow> create_index_statement \<Rightarrow> bound_create_index outcome" where
  "bind_create_index b ci =
     (if b_index_exists b (id_name (ci_index ci)) then Err (error_at b (id_span (ci_index ci)))
      else
        and_then (ok_or (error_at b (id_span (ci_table ci))) (b_table b (id_name (ci_table ci)))) (\<lambda>info.
        and_then (ok_or (error_at b (id_span (ci_column ci))) (index_of (ti_schema info) (id_name (ci_column ci)))) (\<lambda>i.
        Ok \<lparr>bci_index_name = id_name (ci_index ci), bci_table_name = ti_name info, bci_table_id = ti_id info,
            bci_column_name = id_name (ci_column ci), bci_column_index = i, bci_unique = ci_unique ci,
            bci_span = ci_span ci\<rparr>)))"

definition bind_drop_index :: "binder_env \<Rightarrow> drop_index_statement \<Rightarrow> bound_statement outcome" where
  "bind_drop_index b d =
     (if \<not> b_index_exists b (id_name (di_index d)) then Err (error_at b (id_span (di_index d)))
      else Ok (BDropIndex d))"

text \<open>The existence check of \<open>bind_drop_table\<close>, \<open>bind_describe\<close> and, for a named table, of the others.\<close>

definition require_table :: "binder_env \<Rightarrow> ident \<Rightarrow> unit outcome" where
  "require_table b t = and_then (ok_or (error_at b (id_span t)) (b_table b (id_name t))) (\<lambda>_. Ok ())"

definition require_named_table :: "binder_env \<Rightarrow> ident option \<Rightarrow> unit outcome" where
  "require_named_table b t = (case t of None \<Rightarrow> Ok () | Some t \<Rightarrow> require_table b t)"

fun bind_statement :: "binder_env \<Rightarrow> statement \<Rightarrow> bound_statement outcome" where
  "bind_statement b (Select s) = and_then (bind_select b s) (\<lambda>s. Ok (BSelect s))"
| "bind_statement b (CreateTable c) = Ok (BCreateTable c)"
| "bind_statement b (DropTable d) = and_then (require_table b (dt_table d)) (\<lambda>_. Ok (BDropTable d))"
| "bind_statement b (CreateIndex c) = and_then (bind_create_index b c) (\<lambda>c. Ok (BCreateIndex c))"
| "bind_statement b (DropIndex d) = bind_drop_index b d"
| "bind_statement b (Insert i) = and_then (bind_insert b i) (\<lambda>i. Ok (BInsert i))"
| "bind_statement b (Update u) = and_then (bind_update b u) (\<lambda>u. Ok (BUpdate u))"
| "bind_statement b (Delete d) = and_then (bind_delete b d) (\<lambda>d. Ok (BDelete d))"
| "bind_statement b (Explain st analyze _) =
    and_then (bind_statement b st) (\<lambda>inner. Ok (BExplain inner analyze))"
| "bind_statement b (Analyze t s) = and_then (require_named_table b t) (\<lambda>_. Ok (BAnalyze t s))"
| "bind_statement b (Begin l s) = Ok (BBegin l s)"
| "bind_statement b (Commit s) = Ok (BCommit s)"
| "bind_statement b (Rollback s) = Ok (BRollback s)"
| "bind_statement b (Checkpoint s) = Ok (BCheckpoint s)"
| "bind_statement b (ShowTables s) = Ok (BShowTables s)"
| "bind_statement b (Describe t s) = and_then (require_table b t) (\<lambda>_. Ok (BDescribe t s))"
| "bind_statement b (ShowIndexes t s) = and_then (require_named_table b t) (\<lambda>_. Ok (BShowIndexes t s))"
| "bind_statement b (ShowStats t s) = and_then (require_named_table b t) (\<lambda>_. Ok (BShowStats t s))"
| "bind_statement b (Vacuum t s) = and_then (require_named_table b t) (\<lambda>_. Ok (BVacuum t s))"
| "bind_statement b (Prepare _ _ s) = Err (error_at b s)"
| "bind_statement b (Execute _ _ s) = Err (error_at b s)"
| "bind_statement b (Deallocate _ s) = Err (error_at b s)"

end
