(* ===== verification/Logical_Plan.thy ===== *)
theory Logical_Plan
  imports Statements
begin

text \<open>
  The logical plan (\<open>src/src/logical_plan.rs\<close>): the operator tree, its output schema, its construction from
  a bound statement, and its display form.
\<close>

subsection \<open>The tree\<close>

record sort_key =
  sk_expr :: bound_expr
  sk_desc :: bool

datatype logical_plan =
    LScan table_id string schema
  | LValues schema "expr list list"
  | LFilter logical_plan bound_expr
  | LJoin logical_plan logical_plan join_kind bound_expr
  | LAggregate logical_plan "bound_expr list" "aggregate_call list" schema
  | LProjection logical_plan "bound_select_item list"
  | LDistinct logical_plan
  | LSort logical_plan "sort_key list"
  | LLimit logical_plan "nat option" "nat option"
  | LInsert table_id string schema "nat list option" logical_plan
  | LUpdate table_id string schema "bound_assignment list" "bound_expr option" logical_plan
  | LDelete table_id string schema "bound_expr option" logical_plan

definition join_schema :: "schema \<Rightarrow> schema \<Rightarrow> schema" where
  "join_schema l r = \<lparr>columns = columns l @ columns r\<rparr>"

text \<open>A column reference outside the input schema panics.\<close>

definition projection_column :: "schema \<Rightarrow> bound_select_item \<Rightarrow> column outcome" where
  "projection_column s item =
     (case si_expr item of
        BColumnRef _ i _ _ _ \<Rightarrow>
          and_then (expect (get_at (columns s) i)) (\<lambda>c. Ok (c\<lparr>col_name := si_output_name item\<rparr>))
      | e \<Rightarrow> Ok (column_new (si_output_name item) (case bound_type e of Some t \<Rightarrow> t | None \<Rightarrow> TText) True))"

definition projection_schema :: "schema \<Rightarrow> bound_select_item list \<Rightarrow> schema outcome" where
  "projection_schema s items =
     and_then (map_outcome (projection_column s) items) (\<lambda>cs. Ok \<lparr>columns = cs\<rparr>)"

fun output_schema :: "logical_plan \<Rightarrow> schema outcome" where
  "output_schema (LScan _ _ s) = Ok s"
| "output_schema (LValues s _) = Ok s"
| "output_schema (LFilter p _) = output_schema p"
| "output_schema (LJoin l r _ _) =
    and_then (output_schema l) (\<lambda>ls. and_then (output_schema r) (\<lambda>rs. Ok (join_schema ls rs)))"
| "output_schema (LAggregate _ _ _ s) = Ok s"
| "output_schema (LProjection p items) = and_then (output_schema p) (\<lambda>s. projection_schema s items)"
| "output_schema (LDistinct p) = output_schema p"
| "output_schema (LSort p _) = output_schema p"
| "output_schema (LLimit p _ _) = output_schema p"
| "output_schema (LInsert _ _ _ _ _) = Ok \<lparr>columns = []\<rparr>"
| "output_schema (LUpdate _ _ _ _ _ _) = Ok \<lparr>columns = []\<rparr>"
| "output_schema (LDelete _ _ _ _ _) = Ok \<lparr>columns = []\<rparr>"

subsection \<open>Construction\<close>

definition scan_of :: "bound_table_ref \<Rightarrow> logical_plan" where
  "scan_of t = LScan (bt_table_id t) (bt_table_name t) (bt_schema t)"

definition build_from :: "bound_table_ref list \<Rightarrow> bound_join_step list \<Rightarrow> logical_plan" where
  "build_from ts joins =
     (case ts of
        [] \<Rightarrow> LValues \<lparr>columns = []\<rparr> [[]]
      | t # ts \<Rightarrow>
          fold (\<lambda>(t, j) plan. LJoin plan (scan_of t) (bj_kind j) (bj_condition j)) (zip ts joins) (scan_of t))"

definition trim_item :: "span \<Rightarrow> nat \<times> column \<Rightarrow> bound_select_item" where
  "trim_item sp = (\<lambda>(i, c).
     \<lparr>si_expr = BColumnRef 0 i (col_name c) (col_type c) sp, si_output_name = col_name c\<rparr>)"

definition aggregated_plan :: "bound_select \<Rightarrow> logical_plan \<Rightarrow> logical_plan" where
  "aggregated_plan s filtered =
     (case bs_aggregate s of
        None \<Rightarrow> filtered
      | Some a \<Rightarrow>
          let p = LAggregate filtered (ba_group_by a) (ba_calls a) (ba_schema a) in
          (case bs_having s of None \<Rightarrow> p | Some h \<Rightarrow> LFilter p h))"

text \<open>The subtraction of the hidden columns and the index into the extended schema panic on failure.\<close>

definition build_select :: "bound_select \<Rightarrow> logical_plan outcome" where
  "build_select s =
     (let source = build_from (bs_tables s) (bs_joins s);
          filtered = (case bs_predicate s of None \<Rightarrow> source | Some p \<Rightarrow> LFilter source p);
          projected = LProjection (aggregated_plan s filtered) (bs_projection s);
          distinct_plan = (if bs_distinct s then LDistinct projected else projected);
          sorted_plan = (if bs_order_by s = [] then distinct_plan
            else LSort distinct_plan (map (\<lambda>i. \<lparr>sk_expr = bo_expr i, sk_desc = bo_desc i\<rparr>) (bs_order_by s)));
          limited = (if bs_limit s = None \<and> bs_offset s = None then sorted_plan
            else LLimit sorted_plan (bs_limit s) (bs_offset s)) in
      if length (bs_projection s) < bs_hidden_column_count s then Panic
      else if bs_hidden_column_count s = 0 then Ok limited
      else
        let visible = length (bs_projection s) - bs_hidden_column_count s in
        and_then (output_schema limited) (\<lambda>ext.
        if length (columns ext) < visible then Panic
        else Ok (LProjection limited
          (map (trim_item (bs_span s)) (enumerate 0 (take visible (columns ext)))))))"

definition build_insert :: "bound_insert \<Rightarrow> logical_plan" where
  "build_insert i =
     LInsert (bi_table_id i) (bi_table_name i) (bi_schema i) (bi_columns i) (LValues (bi_schema i) (bi_rows i))"

definition build_update :: "bound_update \<Rightarrow> logical_plan" where
  "build_update u =
     LUpdate (bu_table_id u) (bu_table_name u) (bu_schema u) (bu_assignments u) (bu_predicate u)
       (LScan (bu_table_id u) (bu_table_name u) (bu_schema u))"

definition build_delete :: "bound_delete \<Rightarrow> logical_plan" where
  "build_delete d =
     LDelete (bd_table_id d) (bd_table_name d) (bd_schema d) (bd_predicate d)
       (LScan (bd_table_id d) (bd_table_name d) (bd_schema d))"

subsection \<open>Display\<close>

fun join_kind_name :: "join_kind \<Rightarrow> string" where
  "join_kind_name Inner = ''INNER JOIN''"

definition values_label :: "expr list list \<Rightarrow> string" where
  "values_label rows =
     ''Values('' @ show_nat (length rows) @ (if length rows = 1 then '' row)'' else '' rows)'')"

definition aggregate_label :: "bound_expr list \<Rightarrow> aggregate_call list \<Rightarrow> string" where
  "aggregate_label group_by calls =
     ''Aggregate(group_by=['' @ join_with '', '' (map fmt_bound_expr group_by) @ ''], calls=[''
     @ join_with '', '' (map fmt_aggregate_call calls) @ ''])''"

definition projection_label :: "bound_select_item list \<Rightarrow> string" where
  "projection_label items = ''Projection('' @ join_with '', '' (map si_output_name items) @ '')''"

definition sort_label :: "sort_key list \<Rightarrow> string" where
  "sort_label ks =
     ''Sort('' @ join_with '', '' (map (\<lambda>k. fmt_bound_expr (sk_expr k) @ (if sk_desc k then '' DESC'' else '' ASC'')) ks)
     @ '')''"

definition limit_label :: "nat option \<Rightarrow> nat option \<Rightarrow> string" where
  "limit_label limit offset =
     (case (limit, offset) of
        (Some n, Some k) \<Rightarrow> ''Limit(limit='' @ show_nat n @ '', offset='' @ show_nat k @ '')''
      | (Some n, None) \<Rightarrow> ''Limit(limit='' @ show_nat n @ '')''
      | (None, Some k) \<Rightarrow> ''Limit(offset='' @ show_nat k @ '')''
      | (None, None) \<Rightarrow> ''Limit'')"

fun plan_label :: "logical_plan \<Rightarrow> string" where
  "plan_label (LScan _ name _) = ''Scan('' @ name @ '')''"
| "plan_label (LValues _ rows) = values_label rows"
| "plan_label (LFilter _ p) = ''Filter('' @ fmt_bound_expr p @ '')''"
| "plan_label (LJoin _ _ k c) = ''Join('' @ join_kind_name k @ '', '' @ fmt_bound_expr c @ '')''"
| "plan_label (LAggregate _ gs cs _) = aggregate_label gs cs"
| "plan_label (LProjection _ items) = projection_label items"
| "plan_label (LDistinct _) = ''Distinct''"
| "plan_label (LSort _ ks) = sort_label ks"
| "plan_label (LLimit _ n k) = limit_label n k"
| "plan_label (LInsert _ name _ _ _) = ''Insert('' @ name @ '')''"
| "plan_label (LUpdate _ name _ _ _ _) = ''Update('' @ name @ '')''"
| "plan_label (LDelete _ name _ _ _) = ''Delete('' @ name @ '')''"

text \<open>The branch mark in front of a child is the UTF-8 form of U+2514, U+2500 and a space.\<close>

definition branch_mark :: string where
  "branch_mark = string_of [0xE2, 0x94, 0x94, 0xE2, 0x94, 0x80, 0x20]"

definition tree_line :: "nat \<Rightarrow> string \<Rightarrow> string" where
  "tree_line depth label =
     (if depth = 0 then label else concat (replicate depth ''  '') @ branch_mark @ label) @ [CHR 0x0A]"

fun write_tree :: "nat \<Rightarrow> logical_plan \<Rightarrow> string" where
  "write_tree d (LScan t n s) = tree_line d (plan_label (LScan t n s))"
| "write_tree d (LValues s r) = tree_line d (plan_label (LValues s r))"
| "write_tree d (LJoin l r k c) = tree_line d (plan_label (LJoin l r k c)) @ write_tree (Suc d) l @ write_tree (Suc d) r"
| "write_tree d (LFilter p e) = tree_line d (plan_label (LFilter p e)) @ write_tree (Suc d) p"
| "write_tree d (LAggregate p gs cs s) = tree_line d (plan_label (LAggregate p gs cs s)) @ write_tree (Suc d) p"
| "write_tree d (LProjection p is) = tree_line d (plan_label (LProjection p is)) @ write_tree (Suc d) p"
| "write_tree d (LDistinct p) = tree_line d (plan_label (LDistinct p)) @ write_tree (Suc d) p"
| "write_tree d (LSort p ks) = tree_line d (plan_label (LSort p ks)) @ write_tree (Suc d) p"
| "write_tree d (LLimit p n k) = tree_line d (plan_label (LLimit p n k)) @ write_tree (Suc d) p"
| "write_tree d (LInsert t n s cs p) = tree_line d (plan_label (LInsert t n s cs p)) @ write_tree (Suc d) p"
| "write_tree d (LUpdate t n s as e p) = tree_line d (plan_label (LUpdate t n s as e p)) @ write_tree (Suc d) p"
| "write_tree d (LDelete t n s e p) = tree_line d (plan_label (LDelete t n s e p)) @ write_tree (Suc d) p"

definition plan_display :: "logical_plan \<Rightarrow> string" where
  "plan_display p = write_tree 0 p"

end
