(* ===== verification/Conjuncts.thy ===== *)
theory Conjuncts
  imports Logical_Plan
begin

text \<open>
  The analysis of predicates that both the rewriting rules and the physical planner use
  (\<open>src/src/physical_plan.rs\<close>): conjunctions, the side of a join that an expression reads, and the shift
  of column positions.
\<close>

fun strip_paren :: "bound_expr \<Rightarrow> bound_expr" where
  "strip_paren (BParen e _) = strip_paren e"
| "strip_paren e = e"

text \<open>\<open>collect_conjuncts\<close> looks at its argument through \<open>strip_paren\<close>.\<close>

fun collect_conjuncts :: "bound_expr \<Rightarrow> bound_expr list" where
  "collect_conjuncts (BParen e _) = collect_conjuncts e"
| "collect_conjuncts (BBinaryOp And l r _ _) = collect_conjuncts l @ collect_conjuncts r"
| "collect_conjuncts e = [e]"

definition conjoin :: "bound_expr \<Rightarrow> bound_expr \<Rightarrow> bound_expr" where
  "conjoin acc e = BBinaryOp And acc e TBoolean (bound_span acc)"

definition rebuild_conjunction :: "bound_expr list \<Rightarrow> bound_expr option" where
  "rebuild_conjunction es =
     (case es of [] \<Rightarrow> None | e # es \<Rightarrow> Some (foldl conjoin e es))"

datatype side = LeftSide | RightSide

text \<open>The mutable \<open>side\<close> is passed along; the flag is the result of the function.\<close>

fun collect_column_side :: "bound_expr \<Rightarrow> nat \<Rightarrow> side option \<Rightarrow> bool \<times> side option"
and collect_args_side :: "bound_expr list \<Rightarrow> nat \<Rightarrow> side option \<Rightarrow> bool \<times> side option" where
  "collect_column_side (BColumnRef _ i _ _ _) n side =
    (let this = (if i < n then LeftSide else RightSide) in
     case side of None \<Rightarrow> (True, Some this) | Some existing \<Rightarrow> (existing = this, side))"
| "collect_column_side (BUnaryOp _ e _ _) n side = collect_column_side e n side"
| "collect_column_side (BParen e _) n side = collect_column_side e n side"
| "collect_column_side (BCast e _ _) n side = collect_column_side e n side"
| "collect_column_side (BBinaryOp _ l r _ _) n side =
    (case collect_column_side l n side of
       (True, side) \<Rightarrow> collect_column_side r n side
     | (False, side) \<Rightarrow> (False, side))"
| "collect_column_side (BIsNull e _ _) n side = collect_column_side e n side"
| "collect_column_side (BFunctionCall _ args _ _) n side = collect_args_side args n side"
| "collect_column_side (BAggregate _ _ _ _) n side = (False, side)"
| "collect_column_side _ n side = (True, side)"
| "collect_args_side [] n side = (True, side)"
| "collect_args_side (e # es) n side =
    (case collect_column_side e n side of
       (True, side) \<Rightarrow> collect_args_side es n side
     | (False, side) \<Rightarrow> (False, side))"

definition columns_side :: "bound_expr \<Rightarrow> nat \<Rightarrow> side option" where
  "columns_side e n = (case collect_column_side e n None of (True, side) \<Rightarrow> side | (False, _) \<Rightarrow> None)"

text \<open>The subtraction panics below zero.\<close>

fun shift_column_index :: "bound_expr \<Rightarrow> nat \<Rightarrow> bound_expr outcome" where
  "shift_column_index (BColumnRef k i name t s) d =
    (if d \<le> i then Ok (BColumnRef k (i - d) name t s) else Panic)"
| "shift_column_index (BUnaryOp opr e t s) d =
    and_then (shift_column_index e d) (\<lambda>e. Ok (BUnaryOp opr e t s))"
| "shift_column_index (BBinaryOp opr l r t s) d =
    and_then (shift_column_index l d) (\<lambda>l.
    and_then (shift_column_index r d) (\<lambda>r. Ok (BBinaryOp opr l r t s)))"
| "shift_column_index (BIsNull e negated s) d =
    and_then (shift_column_index e d) (\<lambda>e. Ok (BIsNull e negated s))"
| "shift_column_index (BFunctionCall name args t s) d =
    and_then (map_outcome (\<lambda>e. shift_column_index e d) args) (\<lambda>args. Ok (BFunctionCall name args t s))"
| "shift_column_index (BParen e s) d = and_then (shift_column_index e d) (\<lambda>e. Ok (BParen e s))"
| "shift_column_index (BCast e t s) d = and_then (shift_column_index e d) (\<lambda>e. Ok (BCast e t s))"
| "shift_column_index e d = Ok e"

text \<open>The equalities of a join condition: every conjunct compares the two sides, or there are no keys.\<close>

definition equi_join_key :: "nat \<Rightarrow> bound_expr \<Rightarrow> (bound_expr \<times> bound_expr) option" where
  "equi_join_key n c =
     (case strip_paren c of
        BBinaryOp Eq l r _ _ \<Rightarrow>
          (case (columns_side l n, columns_side r n) of
             (Some LeftSide, Some RightSide) \<Rightarrow> Some (l, r)
           | (Some RightSide, Some LeftSide) \<Rightarrow> Some (r, l)
           | _ \<Rightarrow> None)
      | _ \<Rightarrow> None)"

definition split_equi_join_keys :: "bound_expr \<Rightarrow> nat \<Rightarrow> (bound_expr \<times> bound_expr) list option" where
  "split_equi_join_keys condition n =
     (let ks = map (equi_join_key n) (collect_conjuncts condition) in
      if list_ex (\<lambda>k. k = None) ks \<or> ks = [] then None else Some (map the ks))"

end
