(* ===== verification/Rules.thy ===== *)
theory Rules
  imports Conjuncts
begin

text \<open>
  The rewriting rules of the logical plan (\<open>src/src/rules.rs\<close>). A rule returns the new plan and whether it
  changed anything; \<open>optimize\<close> applies all of them until nothing changes.
\<close>

definition MAX_ITERATIONS :: nat where "MAX_ITERATIONS = 64"

type_synonym 'a change = "('a \<times> bool) outcome"

subsection \<open>Traversals\<close>

fun map_plan_children :: "(logical_plan \<Rightarrow> logical_plan change) \<Rightarrow> logical_plan \<Rightarrow> logical_plan change" where
  "map_plan_children f (LScan t n s) = Ok (LScan t n s, False)"
| "map_plan_children f (LValues s r) = Ok (LValues s r, False)"
| "map_plan_children f (LFilter p e) = and_then (f p) (\<lambda>(p, c). Ok (LFilter p e, c))"
| "map_plan_children f (LJoin l r k e) =
    and_then (f l) (\<lambda>(l, c1). and_then (f r) (\<lambda>(r, c2). Ok (LJoin l r k e, c1 \<or> c2)))"
| "map_plan_children f (LAggregate p gs cs s) = and_then (f p) (\<lambda>(p, c). Ok (LAggregate p gs cs s, c))"
| "map_plan_children f (LProjection p is) = and_then (f p) (\<lambda>(p, c). Ok (LProjection p is, c))"
| "map_plan_children f (LDistinct p) = and_then (f p) (\<lambda>(p, c). Ok (LDistinct p, c))"
| "map_plan_children f (LSort p ks) = and_then (f p) (\<lambda>(p, c). Ok (LSort p ks, c))"
| "map_plan_children f (LLimit p n k) = and_then (f p) (\<lambda>(p, c). Ok (LLimit p n k, c))"
| "map_plan_children f (LInsert t n s cs p) = and_then (f p) (\<lambda>(p, c). Ok (LInsert t n s cs p, c))"
| "map_plan_children f (LUpdate t n s as e p) = and_then (f p) (\<lambda>(p, c). Ok (LUpdate t n s as e p, c))"
| "map_plan_children f (LDelete t n s e p) = and_then (f p) (\<lambda>(p, c). Ok (LDelete t n s e p, c))"

text \<open>The number of operators, the measure of the traversals.\<close>

fun plan_nodes :: "logical_plan \<Rightarrow> nat" where
  "plan_nodes (LScan _ _ _) = 1"
| "plan_nodes (LValues _ _) = 1"
| "plan_nodes (LFilter p _) = Suc (plan_nodes p)"
| "plan_nodes (LJoin l r _ _) = Suc (plan_nodes l + plan_nodes r)"
| "plan_nodes (LAggregate p _ _ _) = Suc (plan_nodes p)"
| "plan_nodes (LProjection p _) = Suc (plan_nodes p)"
| "plan_nodes (LDistinct p) = Suc (plan_nodes p)"
| "plan_nodes (LSort p _) = Suc (plan_nodes p)"
| "plan_nodes (LLimit p _ _) = Suc (plan_nodes p)"
| "plan_nodes (LInsert _ _ _ _ p) = Suc (plan_nodes p)"
| "plan_nodes (LUpdate _ _ _ _ _ p) = Suc (plan_nodes p)"
| "plan_nodes (LDelete _ _ _ _ p) = Suc (plan_nodes p)"

lemma map_plan_children_cong [fundef_cong]:
  "p = q \<Longrightarrow> (\<And>x. plan_nodes x < plan_nodes q \<Longrightarrow> f x = g x) \<Longrightarrow> map_plan_children f p = map_plan_children g q"
  by (cases q) auto

text \<open>Rewriting of a list or an optional expression in place; the flag is raised if any element changed.\<close>

definition map_change :: "('a \<Rightarrow> 'a change) \<Rightarrow> 'a list \<Rightarrow> 'a list change" where
  "map_change f xs = and_then (map_outcome f xs) (\<lambda>rs. Ok (map fst rs, list_ex snd rs))"

definition option_change :: "('a \<Rightarrow> 'a change) \<Rightarrow> 'a option \<Rightarrow> 'a option change" where
  "option_change f x =
     (case x of None \<Rightarrow> Ok (None, False) | Some e \<Rightarrow> and_then (f e) (\<lambda>(e, c). Ok (Some e, c)))"

definition call_change :: "(bound_expr \<Rightarrow> bound_expr change) \<Rightarrow> aggregate_call \<Rightarrow> aggregate_call change" where
  "call_change f a = and_then (option_change f (ac_arg a)) (\<lambda>(e, c). Ok (a\<lparr>ac_arg := e\<rparr>, c))"

definition item_change :: "(bound_expr \<Rightarrow> bound_expr change) \<Rightarrow> bound_select_item \<Rightarrow> bound_select_item change" where
  "item_change f i = and_then (f (si_expr i)) (\<lambda>(e, c). Ok (i\<lparr>si_expr := e\<rparr>, c))"

definition key_change :: "(bound_expr \<Rightarrow> bound_expr change) \<Rightarrow> sort_key \<Rightarrow> sort_key change" where
  "key_change f k = and_then (f (sk_expr k)) (\<lambda>(e, c). Ok (k\<lparr>sk_expr := e\<rparr>, c))"

definition assignment_change :: "(bound_expr \<Rightarrow> bound_expr change) \<Rightarrow> bound_assignment \<Rightarrow> bound_assignment change" where
  "assignment_change f a = and_then (f (as_value a)) (\<lambda>(e, c). Ok (a\<lparr>as_value := e\<rparr>, c))"

fun map_plan_exprs :: "(bound_expr \<Rightarrow> bound_expr change) \<Rightarrow> logical_plan \<Rightarrow> logical_plan change" where
  "map_plan_exprs f (LScan t n s) = Ok (LScan t n s, False)"
| "map_plan_exprs f (LValues s r) = Ok (LValues s r, False)"
| "map_plan_exprs f (LFilter p e) =
    and_then (map_plan_exprs f p) (\<lambda>(p, c1). and_then (f e) (\<lambda>(e, c2). Ok (LFilter p e, c1 \<or> c2)))"
| "map_plan_exprs f (LJoin l r k e) =
    and_then (map_plan_exprs f l) (\<lambda>(l, c1).
    and_then (map_plan_exprs f r) (\<lambda>(r, c2).
    and_then (f e) (\<lambda>(e, c3). Ok (LJoin l r k e, c1 \<or> c2 \<or> c3))))"
| "map_plan_exprs f (LAggregate p gs cs s) =
    and_then (map_plan_exprs f p) (\<lambda>(p, c1).
    and_then (map_change f gs) (\<lambda>(gs, c2).
    and_then (map_change (call_change f) cs) (\<lambda>(cs, c3). Ok (LAggregate p gs cs s, c1 \<or> c2 \<or> c3))))"
| "map_plan_exprs f (LProjection p is) =
    and_then (map_plan_exprs f p) (\<lambda>(p, c1).
    and_then (map_change (item_change f) is) (\<lambda>(is, c2). Ok (LProjection p is, c1 \<or> c2)))"
| "map_plan_exprs f (LDistinct p) = and_then (map_plan_exprs f p) (\<lambda>(p, c). Ok (LDistinct p, c))"
| "map_plan_exprs f (LSort p ks) =
    and_then (map_plan_exprs f p) (\<lambda>(p, c1).
    and_then (map_change (key_change f) ks) (\<lambda>(ks, c2). Ok (LSort p ks, c1 \<or> c2)))"
| "map_plan_exprs f (LLimit p n k) = and_then (map_plan_exprs f p) (\<lambda>(p, c). Ok (LLimit p n k, c))"
| "map_plan_exprs f (LInsert t n s cs p) =
    and_then (map_plan_exprs f p) (\<lambda>(p, c). Ok (LInsert t n s cs p, c))"
| "map_plan_exprs f (LUpdate t n s as e p) =
    and_then (map_plan_exprs f p) (\<lambda>(p, c1).
    and_then (map_change (assignment_change f) as) (\<lambda>(as, c2).
    and_then (option_change f e) (\<lambda>(e, c3). Ok (LUpdate t n s as e p, c1 \<or> c2 \<or> c3))))"
| "map_plan_exprs f (LDelete t n s e p) =
    and_then (map_plan_exprs f p) (\<lambda>(p, c1).
    and_then (option_change f e) (\<lambda>(e, c2). Ok (LDelete t n s e p, c1 \<or> c2)))"

subsection \<open>Constant folding\<close>

fun is_constant :: "bound_expr \<Rightarrow> bool" where
  "is_constant (BIntLiteral _ _) = True"
| "is_constant (BStringLiteral _ _) = True"
| "is_constant (BBoolLiteral _ _) = True"
| "is_constant (BNullLiteral _) = True"
| "is_constant (BColumnRef _ _ _ _ _) = False"
| "is_constant (BAggregate _ _ _ _) = False"
| "is_constant (BParam _ _ _) = False"
| "is_constant (BUnaryOp _ e _ _) = is_constant e"
| "is_constant (BParen e _) = is_constant e"
| "is_constant (BCast e _ _) = is_constant e"
| "is_constant (BBinaryOp _ l r _ _) = (is_constant l \<and> is_constant r)"
| "is_constant (BIsNull e _ _) = is_constant e"
| "is_constant (BFunctionCall _ args _ _) = list_all is_constant args"

fun value_to_literal :: "val \<Rightarrow> span \<Rightarrow> bound_expr" where
  "value_to_literal VNull s = BNullLiteral s"
| "value_to_literal (VBoolean b) s = BBoolLiteral b s"
| "value_to_literal (VBigInt n) s = BIntLiteral n s"
| "value_to_literal (VText t) s = BStringLiteral t s"

fun is_literal :: "bound_expr \<Rightarrow> bool" where
  "is_literal (BIntLiteral _ _) = True"
| "is_literal (BStringLiteral _ _) = True"
| "is_literal (BBoolLiteral _ _) = True"
| "is_literal (BNullLiteral _) = True"
| "is_literal _ = False"

text \<open>An error other than \<open>Eval\<close> is unreachable.\<close>

definition try_fold :: "bound_expr \<Rightarrow> function_registry \<Rightarrow> bool \<Rightarrow> bound_expr change" where
  "try_fold e fns changed =
     (if is_literal e \<or> \<not> is_constant e then Ok (e, changed)
      else case eval_bound_expr e fns None of
        Ok v \<Rightarrow>
          if is_null v \<and> bound_type e \<noteq> None then Ok (e, changed)
          else Ok (value_to_literal v (bound_span e), True)
      | Err (Eval _) \<Rightarrow> Ok (e, changed)
      | _ \<Rightarrow> Panic)"

fun fold_expr :: "function_registry \<Rightarrow> bound_expr \<Rightarrow> bound_expr change" where
  "fold_expr fns (BUnaryOp opr e t s) =
    and_then (fold_expr fns e) (\<lambda>(e, c). try_fold (BUnaryOp opr e t s) fns c)"
| "fold_expr fns (BBinaryOp opr l r t s) =
    and_then (fold_expr fns l) (\<lambda>(l, c1).
    and_then (fold_expr fns r) (\<lambda>(r, c2). try_fold (BBinaryOp opr l r t s) fns (c1 \<or> c2)))"
| "fold_expr fns (BIsNull e negated s) =
    and_then (fold_expr fns e) (\<lambda>(e, c). try_fold (BIsNull e negated s) fns c)"
| "fold_expr fns (BFunctionCall name args t s) =
    and_then (map_outcome (fold_expr fns) args) (\<lambda>rs.
    try_fold (BFunctionCall name (map fst rs) t s) fns (list_ex snd rs))"
| "fold_expr fns (BParen e s) =
    and_then (fold_expr fns e) (\<lambda>(e, c). try_fold (BParen e s) fns c)"
| "fold_expr fns (BCast e t s) =
    and_then (fold_expr fns e) (\<lambda>(e, c). try_fold (BCast e t s) fns c)"
| "fold_expr fns e = Ok (e, False)"

definition constant_folding :: "function_registry \<Rightarrow> logical_plan \<Rightarrow> logical_plan change" where
  "constant_folding fns p = map_plan_exprs (fold_expr fns) p"

subsection \<open>Boolean simplification\<close>

fun bool_literal :: "bound_expr \<Rightarrow> bool option" where
  "bool_literal (BBoolLiteral b _) = Some b"
| "bool_literal (BParen e _) = bool_literal e"
| "bool_literal _ = None"

definition simplify_and :: "bound_expr \<times> bool \<Rightarrow> bound_expr \<times> bool \<Rightarrow> data_type \<Rightarrow> span \<Rightarrow> bound_expr \<times> bool" where
  "simplify_and l r t s =
     (if bool_literal (fst l) = Some True then (fst r, True)
      else if bool_literal (fst r) = Some True then (fst l, True)
      else if bool_literal (fst l) = Some False then (fst l, True)
      else if bool_literal (fst r) = Some False then (fst r, True)
      else (BBinaryOp And (fst l) (fst r) t s, snd l \<or> snd r))"

definition simplify_or :: "bound_expr \<times> bool \<Rightarrow> bound_expr \<times> bool \<Rightarrow> data_type \<Rightarrow> span \<Rightarrow> bound_expr \<times> bool" where
  "simplify_or l r t s =
     (if bool_literal (fst l) = Some True then (fst l, True)
      else if bool_literal (fst r) = Some True then (fst r, True)
      else if bool_literal (fst l) = Some False then (fst r, True)
      else if bool_literal (fst r) = Some False then (fst l, True)
      else (BBinaryOp Or (fst l) (fst r) t s, snd l \<or> snd r))"

definition simplify_not :: "bound_expr \<times> bool \<Rightarrow> data_type \<Rightarrow> span \<Rightarrow> bound_expr \<times> bool" where
  "simplify_not e t s =
     (case bool_literal (fst e) of
        Some b \<Rightarrow> (BBoolLiteral (\<not> b) s, True)
      | None \<Rightarrow>
          (case fst e of
             BUnaryOp Not inner _ _ \<Rightarrow> (inner, True)
           | x \<Rightarrow> (BUnaryOp Not x t s, snd e)))"

fun simplify_expr :: "bound_expr \<Rightarrow> bound_expr \<times> bool" where
  "simplify_expr (BBinaryOp opr l r t s) =
    (case opr of
       And \<Rightarrow> simplify_and (simplify_expr l) (simplify_expr r) t s
     | Or \<Rightarrow> simplify_or (simplify_expr l) (simplify_expr r) t s
     | _ \<Rightarrow> (BBinaryOp opr (fst (simplify_expr l)) (fst (simplify_expr r)) t s,
         snd (simplify_expr l) \<or> snd (simplify_expr r)))"
| "simplify_expr (BUnaryOp opr e t s) =
    (case opr of
       Not \<Rightarrow> simplify_not (simplify_expr e) t s
     | _ \<Rightarrow> (BUnaryOp opr (fst (simplify_expr e)) t s, snd (simplify_expr e)))"
| "simplify_expr (BIsNull e negated s) = (BIsNull (fst (simplify_expr e)) negated s, snd (simplify_expr e))"
| "simplify_expr (BFunctionCall name args t s) =
    (BFunctionCall name (map (\<lambda>a. fst (simplify_expr a)) args) t s, list_ex (\<lambda>a. snd (simplify_expr a)) args)"
| "simplify_expr (BParen e s) = (BParen (fst (simplify_expr e)) s, snd (simplify_expr e))"
| "simplify_expr (BCast e t s) = (BCast (fst (simplify_expr e)) t s, snd (simplify_expr e))"
| "simplify_expr e = (e, False)"

definition boolean_simplification :: "logical_plan \<Rightarrow> logical_plan change" where
  "boolean_simplification p = map_plan_exprs (\<lambda>e. Ok (simplify_expr e)) p"

subsection \<open>Merging filters\<close>

text \<open>The loop over a chain of filters: its predicates, outermost first, and the plan below it.\<close>

fun filter_chain :: "logical_plan \<Rightarrow> bound_expr list \<times> logical_plan" where
  "filter_chain (LFilter p e) = (case filter_chain p of (es, rest) \<Rightarrow> (e # es, rest))"
| "filter_chain p = ([], p)"

lemma filter_chain_nodes: "plan_nodes (snd (filter_chain p)) \<le> plan_nodes p"
  by (induction p rule: filter_chain.induct) (auto split: prod.splits)

function (sequential) merge_filters :: "logical_plan \<Rightarrow> logical_plan change" where
  "merge_filters (LFilter p e) =
    (case filter_chain p of
       (es, rest) \<Rightarrow>
         and_then (merge_filters rest) (\<lambda>(input, inner_changed).
         and_then (expect (rebuild_conjunction (rev (e # es)))) (\<lambda>predicate.
         Ok (LFilter input predicate, 1 < length (e # es) \<or> inner_changed))))"
| "merge_filters p = map_plan_children merge_filters p"
  by pat_completeness auto

termination
  by (relation "measure plan_nodes") (auto simp: less_Suc_eq_le, metis filter_chain_nodes snd_conv)

subsection \<open>Predicate pushdown\<close>

definition filter_over :: "bound_expr list \<Rightarrow> logical_plan \<Rightarrow> logical_plan" where
  "filter_over es p = (case rebuild_conjunction es of None \<Rightarrow> p | Some e \<Rightarrow> LFilter p e)"

lemma filter_over_nodes: "plan_nodes (filter_over es p) \<le> Suc (plan_nodes p)"
  by (simp add: filter_over_def split: option.splits)

lemma filter_over_nodes_less: "plan_nodes p < n \<Longrightarrow> plan_nodes (filter_over es p) < Suc n"
  using filter_over_nodes [of es p] by simp

function (sequential) pushdown_plan :: "logical_plan \<Rightarrow> logical_plan change" where
  "pushdown_plan (LFilter (LJoin l r k c) e) =
    and_then (output_schema l) (\<lambda>ls.
    let n = schema_len ls;
        conjuncts = collect_conjuncts e;
        left_preds = filter (\<lambda>x. columns_side x n = Some LeftSide) conjuncts;
        right_conjuncts = filter (\<lambda>x. columns_side x n = Some RightSide) conjuncts;
        residual = filter (\<lambda>x. columns_side x n = None) conjuncts in
    and_then (map_outcome (\<lambda>x. shift_column_index x n) right_conjuncts) (\<lambda>right_preds.
    and_then (pushdown_plan (filter_over left_preds l)) (\<lambda>(l, c1).
    and_then (pushdown_plan (filter_over right_preds r)) (\<lambda>(r, c2).
    Ok (filter_over residual (LJoin l r k c), left_preds \<noteq> [] \<or> right_preds \<noteq> [] \<or> c1 \<or> c2)))))"
| "pushdown_plan (LFilter p e) = and_then (pushdown_plan p) (\<lambda>(p, c). Ok (LFilter p e, c))"
| "pushdown_plan p = map_plan_children pushdown_plan p"
  by pat_completeness auto

termination
  by (relation "measure plan_nodes") (auto intro!: filter_over_nodes_less)

subsection \<open>Projection pruning\<close>

fun is_from_where_subtree :: "logical_plan \<Rightarrow> bool" where
  "is_from_where_subtree (LScan _ _ _) = True"
| "is_from_where_subtree (LValues _ _) = True"
| "is_from_where_subtree (LFilter p _) = is_from_where_subtree p"
| "is_from_where_subtree (LJoin l r _ _) = (is_from_where_subtree l \<and> is_from_where_subtree r)"
| "is_from_where_subtree _ = False"

fun is_bare_leaf :: "logical_plan \<Rightarrow> bool" where
  "is_bare_leaf (LScan _ _ _) = True"
| "is_bare_leaf (LValues _ _) = True"
| "is_bare_leaf _ = False"

text \<open>The columns that an expression reads, added to a set.\<close>

fun collect_columns :: "bound_expr \<Rightarrow> nat set" where
  "collect_columns (BColumnRef _ i _ _ _) = {i}"
| "collect_columns (BUnaryOp _ e _ _) = collect_columns e"
| "collect_columns (BParen e _) = collect_columns e"
| "collect_columns (BCast e _ _) = collect_columns e"
| "collect_columns (BBinaryOp _ l r _ _) = collect_columns l \<union> collect_columns r"
| "collect_columns (BIsNull e _ _) = collect_columns e"
| "collect_columns (BFunctionCall _ args _ _) = (\<Union>a \<in> set args. collect_columns a)"
| "collect_columns (BAggregate _ arg _ _) = (case arg of None \<Rightarrow> {} | Some e \<Rightarrow> collect_columns e)"
| "collect_columns _ = {}"

text \<open>A column that is missing from the map is unreachable.\<close>

fun remap_expr :: "(nat \<rightharpoonup> nat) \<Rightarrow> bound_expr \<Rightarrow> bound_expr outcome" where
  "remap_expr m (BColumnRef k i name t s) = and_then (expect (m i)) (\<lambda>i. Ok (BColumnRef k i name t s))"
| "remap_expr m (BUnaryOp opr e t s) = and_then (remap_expr m e) (\<lambda>e. Ok (BUnaryOp opr e t s))"
| "remap_expr m (BBinaryOp opr l r t s) =
    and_then (remap_expr m l) (\<lambda>l. and_then (remap_expr m r) (\<lambda>r. Ok (BBinaryOp opr l r t s)))"
| "remap_expr m (BIsNull e negated s) = and_then (remap_expr m e) (\<lambda>e. Ok (BIsNull e negated s))"
| "remap_expr m (BFunctionCall name args t s) =
    and_then (map_outcome (remap_expr m) args) (\<lambda>args. Ok (BFunctionCall name args t s))"
| "remap_expr m (BParen e s) = and_then (remap_expr m e) (\<lambda>e. Ok (BParen e s))"
| "remap_expr m (BCast e t s) = and_then (remap_expr m e) (\<lambda>e. Ok (BCast e t s))"
| "remap_expr m (BAggregate func arg t s) =
    (case arg of
       None \<Rightarrow> Ok (BAggregate func None t s)
     | Some e \<Rightarrow> and_then (remap_expr m e) (\<lambda>e. Ok (BAggregate func (Some e) t s)))"
| "remap_expr m e = Ok e"

definition identity_map :: "nat \<Rightarrow> nat \<rightharpoonup> nat" where
  "identity_map width = (\<lambda>i. if i < width then Some i else None)"

text \<open>\<open>split_by_side\<close> over a whole set.\<close>

definition left_columns :: "nat \<Rightarrow> nat set \<Rightarrow> nat set" where
  "left_columns n cols = {i \<in> cols. i < n}"

definition right_columns :: "nat \<Rightarrow> nat set \<Rightarrow> nat set" where
  "right_columns n cols = (\<lambda>i. i - n) ` {i \<in> cols. n \<le> i}"

definition kept_item :: "schema \<Rightarrow> nat \<Rightarrow> bound_select_item outcome" where
  "kept_item s i =
     and_then (expect (get_at (columns s) i)) (\<lambda>c.
     Ok \<lparr>si_expr = BColumnRef 0 i (col_name c) (col_type c) \<lparr>span_start = 0, span_end = 0\<rparr>,
         si_output_name = col_name c\<rparr>)"

definition prune_scan ::
  "table_id \<Rightarrow> string \<Rightarrow> schema \<Rightarrow> nat set \<Rightarrow> (logical_plan \<times> (nat \<rightharpoonup> nat) \<times> bool) outcome" where
  "prune_scan t n s required =
     (if schema_len s \<le> card required then Ok (LScan t n s, identity_map (schema_len s), False)
      else
        let kept = sorted_list_of_set required in
        and_then (map_outcome (kept_item s) kept) (\<lambda>items.
        Ok (LProjection (LScan t n s) items, map_of (zip kept [0..<length kept]), True)))"

definition join_map :: "nat \<Rightarrow> nat \<Rightarrow> (nat \<rightharpoonup> nat) \<Rightarrow> (nat \<rightharpoonup> nat) \<Rightarrow> nat \<rightharpoonup> nat" where
  "join_map n n' ml mr =
     (\<lambda>i. if i < n then ml i else map_option (\<lambda>j. n' + j) (mr (i - n)))"

definition is_scan :: "logical_plan \<Rightarrow> bool" where
  "is_scan p = (case p of LScan _ _ _ \<Rightarrow> True | _ \<Rightarrow> False)"

definition scan_width :: "logical_plan \<Rightarrow> nat" where
  "scan_width p = (case p of LScan _ _ s \<Rightarrow> schema_len s | _ \<Rightarrow> 0)"

fun prune_scope :: "logical_plan \<Rightarrow> nat set \<Rightarrow> (logical_plan \<times> (nat \<rightharpoonup> nat) \<times> bool) outcome" where
  "prune_scope (LScan t n s) required = prune_scan t n s required"
| "prune_scope (LValues s rows) required = Ok (LValues s rows, identity_map (schema_len s), False)"
| "prune_scope (LFilter p e) required =
    (if is_scan p then Ok (LFilter p e, identity_map (scan_width p), False)
     else
       and_then (prune_scope p (required \<union> collect_columns e)) (\<lambda>(p, m, c).
       and_then (remap_expr m e) (\<lambda>e. Ok (LFilter p e, m, c))))"
| "prune_scope (LJoin l r k e) required =
    and_then (output_schema l) (\<lambda>ls.
    let n = schema_len ls; all = required \<union> collect_columns e in
    and_then (prune_scope l (left_columns n all)) (\<lambda>(l, ml, c1).
    and_then (output_schema l) (\<lambda>ls'.
    and_then (if is_scan r then Ok (r, identity_map (scan_width r), False)
              else prune_scope r (right_columns n all)) (\<lambda>(r, mr, c2).
    let m = join_map n (schema_len ls') ml mr in
    and_then (remap_expr m e) (\<lambda>e.
    if \<exists>i \<in> required. m i = None then Panic
    else Ok (LJoin l r k e, m |` required, c1 \<or> c2))))))"
| "prune_scope p required = Panic"

definition remap_item :: "(nat \<rightharpoonup> nat) \<Rightarrow> bound_select_item \<Rightarrow> bound_select_item outcome" where
  "remap_item m i = and_then (remap_expr m (si_expr i)) (\<lambda>e. Ok (i\<lparr>si_expr := e\<rparr>))"

definition remap_call :: "(nat \<rightharpoonup> nat) \<Rightarrow> aggregate_call \<Rightarrow> aggregate_call outcome" where
  "remap_call m c =
     (case ac_arg c of None \<Rightarrow> Ok c | Some e \<Rightarrow> and_then (remap_expr m e) (\<lambda>e. Ok (c\<lparr>ac_arg := Some e\<rparr>)))"

definition call_columns :: "aggregate_call \<Rightarrow> nat set" where
  "call_columns c = (case ac_arg c of None \<Rightarrow> {} | Some e \<Rightarrow> collect_columns e)"

function (sequential) prune_plan :: "logical_plan \<Rightarrow> logical_plan change" where
  "prune_plan (LAggregate p gs cs s) =
    (if is_from_where_subtree p \<and> \<not> is_bare_leaf p then
       and_then (prune_scope p ((\<Union>g \<in> set gs. collect_columns g) \<union> (\<Union>c \<in> set cs. call_columns c)))
         (\<lambda>(p, m, changed).
       and_then (map_outcome (remap_expr m) gs) (\<lambda>gs.
       and_then (map_outcome (remap_call m) cs) (\<lambda>cs. Ok (LAggregate p gs cs s, changed))))
     else and_then (prune_plan p) (\<lambda>(p, c). Ok (LAggregate p gs cs s, c)))"
| "prune_plan (LProjection p items) =
    (if is_from_where_subtree p \<and> \<not> is_bare_leaf p then
       and_then (prune_scope p (\<Union>i \<in> set items. collect_columns (si_expr i))) (\<lambda>(p, m, changed).
       and_then (map_outcome (remap_item m) items) (\<lambda>items. Ok (LProjection p items, changed)))
     else and_then (prune_plan p) (\<lambda>(p, c). Ok (LProjection p items, c)))"
| "prune_plan p = map_plan_children prune_plan p"
  by pat_completeness auto

termination
  by (relation "measure plan_nodes") auto

subsection \<open>The driver\<close>

definition default_rules :: "function_registry \<Rightarrow> (logical_plan \<Rightarrow> logical_plan change) list" where
  "default_rules fns =
     [constant_folding fns, boolean_simplification, merge_filters, pushdown_plan, prune_plan]"

fun apply_rules :: "(logical_plan \<Rightarrow> logical_plan change) list \<Rightarrow> logical_plan \<Rightarrow> bool \<Rightarrow> logical_plan change" where
  "apply_rules [] p changed = Ok (p, changed)"
| "apply_rules (r # rs) p changed = and_then (r p) (\<lambda>(p, c). apply_rules rs p (changed \<or> c))"

fun optimize_loop :: "nat \<Rightarrow> function_registry \<Rightarrow> logical_plan \<Rightarrow> logical_plan outcome" where
  "optimize_loop 0 fns p = Ok p"
| "optimize_loop (Suc n) fns p =
    and_then (apply_rules (default_rules fns) p False) (\<lambda>(p, changed).
    if changed then optimize_loop n fns p else Ok p)"

definition optimize :: "logical_plan \<Rightarrow> function_registry \<Rightarrow> logical_plan outcome" where
  "optimize p fns = optimize_loop MAX_ITERATIONS fns p"

end
