(* ===== verification/Operators.thy ===== *)
theory Operators
  imports Conjuncts
begin

text \<open>
  The operators of a query (\<open>src/src/physical_plan.rs\<close>, the implementations of \<open>Executor\<close>). An executor
  is pulled one row at a time by \<open>next\<close>; what it yields from some state on is a \<open>stream\<close>: the rows
  before the end, and how it ends, with \<open>None\<close> (\<open>Ok ()\<close>), an error or a panic. Each operator is
  a function on the streams of its inputs; the state between two pulls is what is left of these streams.
  The cancellation token is the inert one of \<open>ExecutionContext::unbounded\<close>; the row limit of the
  blocking operators is modelled.
\<close>

subsection \<open>Streams\<close>

type_synonym stream = "tuple list \<times> unit outcome"

definition emit :: "tuple \<Rightarrow> stream \<Rightarrow> stream" where
  "emit t s = (t # fst s, snd s)"

definition stream_then :: "'a outcome \<Rightarrow> ('a \<Rightarrow> stream) \<Rightarrow> stream" where
  "stream_then r f = (case r of Ok x \<Rightarrow> f x | Err e \<Rightarrow> ([], Err e) | Panic \<Rightarrow> ([], Panic))"

lemma stream_then_simps [simp]:
  "stream_then (Ok x) f = f x" "stream_then (Err e) f = ([], Err e)" "stream_then Panic f = ([], Panic)"
  by (simp_all add: stream_then_def)

lemma stream_then_cong [fundef_cong]:
  "r = r' \<Longrightarrow> (\<And>x. r' = Ok x \<Longrightarrow> f x = g x) \<Longrightarrow> stream_then r f = stream_then r' g"
  by (cases r') simp_all

text \<open>Reading a stream to its end, as the blocking operators do in their constructor.\<close>

definition collect :: "stream \<Rightarrow> tuple list outcome" where
  "collect s = and_then (snd s) (\<lambda>_. Ok (fst s))"

definition row_of :: "schema \<Rightarrow> tuple \<Rightarrow> row option" where
  "row_of s t = Some \<lparr>row_schema = s, row_tuple = t\<rparr>"

definition check_row_limit :: "nat option \<Rightarrow> string \<Rightarrow> nat \<Rightarrow> unit outcome" where
  "check_row_limit limit operator n =
     (case limit of None \<Rightarrow> Ok () | Some k \<Rightarrow> if k < n then Err (MemoryLimitExceeded operator k) else Ok ())"

subsection \<open>Row at a time\<close>

fun filter_rows ::
  "function_registry \<Rightarrow> schema \<Rightarrow> bound_expr \<Rightarrow> tuple list \<Rightarrow> unit outcome \<Rightarrow> stream" where
  "filter_rows fns s p [] end' = ([], end')"
| "filter_rows fns s p (t # ts) end' =
    stream_then (and_then (eval_bound_expr p fns (row_of s t)) predicate_matches) (\<lambda>m.
    if m then emit t (filter_rows fns s p ts end') else filter_rows fns s p ts end')"

definition project_row ::
  "function_registry \<Rightarrow> schema \<Rightarrow> schema \<Rightarrow> bound_select_item list \<Rightarrow> tuple \<Rightarrow> tuple outcome" where
  "project_row fns ins outs items t =
     and_then (map_outcome (\<lambda>i. eval_bound_expr (si_expr i) fns (row_of ins t)) items) (\<lambda>vs. tuple_new outs vs)"

fun project_rows ::
  "function_registry \<Rightarrow> schema \<Rightarrow> schema \<Rightarrow> bound_select_item list \<Rightarrow> tuple list \<Rightarrow> unit outcome \<Rightarrow> stream" where
  "project_rows fns ins outs items [] end' = ([], end')"
| "project_rows fns ins outs items (t # ts) end' =
    stream_then (project_row fns ins outs items t) (\<lambda>u. emit u (project_rows fns ins outs items ts end'))"

fun distinct_rows :: "val list set \<Rightarrow> tuple list \<Rightarrow> unit outcome \<Rightarrow> stream" where
  "distinct_rows seen [] end' = ([], end')"
| "distinct_rows seen (t # ts) end' =
    (if tup_values t \<in> seen then distinct_rows seen ts end'
     else emit t (distinct_rows (insert (tup_values t) seen) ts end'))"

text \<open>The counter of rows to skip and the counter of rows left; nothing is pulled once the latter is zero.\<close>

fun limit_rows :: "nat \<Rightarrow> nat option \<Rightarrow> tuple list \<Rightarrow> unit outcome \<Rightarrow> stream" where
  "limit_rows offset limit [] end' = (if limit = Some 0 then ([], Ok ()) else ([], end'))"
| "limit_rows offset limit (t # ts) end' =
    (if limit = Some 0 then ([], Ok ())
     else if 0 < offset then limit_rows (offset - 1) limit ts end'
     else emit t (limit_rows 0 (map_option (\<lambda>n. n - 1) limit) ts end'))"

subsection \<open>Joins\<close>

definition concat_tuple :: "schema \<Rightarrow> tuple \<Rightarrow> tuple \<Rightarrow> tuple outcome" where
  "concat_tuple s l r = tuple_new s (tup_values l @ tup_values r)"

text \<open>One left row against the rest of the right rows; \<open>rest\<close> is what comes after it.\<close>

fun probe_rows ::
  "function_registry \<Rightarrow> schema \<Rightarrow> bound_expr \<Rightarrow> tuple \<Rightarrow> tuple list \<Rightarrow> stream \<Rightarrow> stream" where
  "probe_rows fns s c l [] rest = rest"
| "probe_rows fns s c l (r # rs) rest =
    stream_then (concat_tuple s l r) (\<lambda>t.
    stream_then (and_then (eval_bound_expr c fns (row_of s t)) predicate_matches) (\<lambda>m.
    if m then emit t (probe_rows fns s c l rs rest) else probe_rows fns s c l rs rest))"

fun nested_loop_rows ::
  "function_registry \<Rightarrow> schema \<Rightarrow> bound_expr \<Rightarrow> tuple list \<Rightarrow> tuple list \<Rightarrow> unit outcome \<Rightarrow> stream" where
  "nested_loop_rows fns s c rrows [] end' = ([], end')"
| "nested_loop_rows fns s c rrows (l # ls) end' =
    probe_rows fns s c l rrows (nested_loop_rows fns s c rrows ls end')"

definition eval_keys :: "function_registry \<Rightarrow> schema \<Rightarrow> bound_expr list \<Rightarrow> tuple \<Rightarrow> val list outcome" where
  "eval_keys fns s es t = map_outcome (\<lambda>e. eval_bound_expr e fns (row_of s t)) es"

type_synonym hash_table = "val list \<rightharpoonup> tuple list"

definition hash_push :: "hash_table \<Rightarrow> val list \<Rightarrow> tuple \<Rightarrow> hash_table" where
  "hash_push m k t = m(k \<mapsto> (case m k of None \<Rightarrow> [] | Some ts \<Rightarrow> ts) @ [t])"

fun hash_build ::
  "function_registry \<Rightarrow> schema \<Rightarrow> bound_expr list \<Rightarrow> nat option \<Rightarrow> tuple list \<Rightarrow> unit outcome
   \<Rightarrow> hash_table \<Rightarrow> nat \<Rightarrow> hash_table outcome" where
  "hash_build fns s ks limit [] end' m n = and_then end' (\<lambda>_. Ok m)"
| "hash_build fns s ks limit (t # ts) end' m n =
    and_then (eval_keys fns s ks t) (\<lambda>k.
    if list_ex is_null k then hash_build fns s ks limit ts end' m n
    else and_then (check_row_limit limit ''Hash Join'' (n + 1)) (\<lambda>_.
      hash_build fns s ks limit ts end' (hash_push m k t) (n + 1)))"

fun hash_matches :: "schema \<Rightarrow> tuple \<Rightarrow> tuple list \<Rightarrow> stream \<Rightarrow> stream" where
  "hash_matches s l [] rest = rest"
| "hash_matches s l (r # rs) rest =
    stream_then (concat_tuple s l r) (\<lambda>t. emit t (hash_matches s l rs rest))"

fun hash_probe_rows ::
  "function_registry \<Rightarrow> schema \<Rightarrow> schema \<Rightarrow> bound_expr list \<Rightarrow> hash_table \<Rightarrow> tuple list \<Rightarrow> unit outcome \<Rightarrow> stream"
where
  "hash_probe_rows fns ls s ks m [] end' = ([], end')"
| "hash_probe_rows fns ls s ks m (l # rows) end' =
    stream_then (eval_keys fns ls ks l) (\<lambda>k.
    if list_ex is_null k then hash_probe_rows fns ls s ks m rows end'
    else hash_matches s l (case m k of None \<Rightarrow> [] | Some ts \<Rightarrow> ts)
      (hash_probe_rows fns ls s ks m rows end'))"

subsection \<open>Aggregation\<close>

record agg_state =
  as_count :: i64
  as_sum :: "i64 option"
  as_extreme :: "val option"

definition agg_new :: agg_state where
  "agg_new = \<lparr>as_count = 0, as_sum = None, as_extreme = None\<rparr>"

text \<open>A missing argument of SUM, MIN and MAX and a SUM over another type are unreachable.\<close>

definition agg_update :: "agg_state \<Rightarrow> aggregate_func \<Rightarrow> val option \<Rightarrow> agg_state outcome" where
  "agg_update a func v =
     (case func of
        Count \<Rightarrow>
          if v = Some VNull then Ok a
          else and_then (expect (checked_i64 (sint (as_count a) + 1))) (\<lambda>n. Ok (a\<lparr>as_count := n\<rparr>))
      | Sum \<Rightarrow>
          (case v of
             None \<Rightarrow> Panic
           | Some VNull \<Rightarrow> Ok a
           | Some (VBigInt n) \<Rightarrow>
               let base = (case as_sum a of None \<Rightarrow> 0 | Some b \<Rightarrow> b) in
               and_then (ok_or (Eval IntegerOverflow) (checked_i64 (sint base + sint n))) (\<lambda>m.
               Ok (a\<lparr>as_sum := Some m\<rparr>))
           | _ \<Rightarrow> Panic)
      | _ \<Rightarrow>
          (case v of
             None \<Rightarrow> Panic
           | Some v \<Rightarrow>
               if is_null v then Ok a
               else
                 and_then
                   (case as_extreme a of
                      None \<Rightarrow> Ok True
                    | Some c \<Rightarrow> and_then (compare_values v c) (\<lambda>o'.
                        Ok (o' = (if func = Min then Less else Greater)))) (\<lambda>better.
                 Ok (if better then a\<lparr>as_extreme := Some v\<rparr> else a))))"

definition agg_finish :: "agg_state \<Rightarrow> aggregate_func \<Rightarrow> val" where
  "agg_finish a func =
     (case func of
        Count \<Rightarrow> VBigInt (as_count a)
      | Sum \<Rightarrow> (case as_sum a of None \<Rightarrow> VNull | Some n \<Rightarrow> VBigInt n)
      | _ \<Rightarrow> (case as_extreme a of None \<Rightarrow> VNull | Some v \<Rightarrow> v))"

definition agg_arg :: "function_registry \<Rightarrow> schema \<Rightarrow> tuple \<Rightarrow> aggregate_call \<Rightarrow> val option outcome" where
  "agg_arg fns s t c =
     (case ac_arg c of
        None \<Rightarrow> Ok None
      | Some e \<Rightarrow> and_then (eval_bound_expr e fns (row_of s t)) (\<lambda>v. Ok (Some v)))"

text \<open>The loop over the calls and the states of one group.\<close>

fun update_states ::
  "function_registry \<Rightarrow> schema \<Rightarrow> tuple \<Rightarrow> aggregate_call list \<Rightarrow> agg_state list \<Rightarrow> agg_state list outcome" where
  "update_states fns s t (c # cs) (a # as) =
    and_then (agg_arg fns s t c) (\<lambda>v.
    and_then (agg_update a (ac_func c) v) (\<lambda>a.
    and_then (update_states fns s t cs as) (\<lambda>as. Ok (a # as))))"
| "update_states fns s t _ as = Ok as"

type_synonym agg_groups = "(val list \<times> agg_state list) list"

text \<open>The map from keys to positions in \<open>groups\<close> finds the first group with the key.\<close>

definition group_index :: "agg_groups \<Rightarrow> val list \<Rightarrow> nat option" where
  "group_index groups k = position (\<lambda>g. fst g = k) groups"

definition open_group :: "aggregate_call list \<Rightarrow> agg_groups \<Rightarrow> val list \<Rightarrow> agg_groups \<times> nat" where
  "open_group calls groups k =
     (case group_index groups k of
        Some i \<Rightarrow> (groups, i)
      | None \<Rightarrow> (groups @ [(k, map (\<lambda>_. agg_new) calls)], length groups))"

fun aggregate_groups ::
  "function_registry \<Rightarrow> schema \<Rightarrow> bound_expr list \<Rightarrow> aggregate_call list \<Rightarrow> nat option
   \<Rightarrow> tuple list \<Rightarrow> unit outcome \<Rightarrow> agg_groups \<Rightarrow> agg_groups outcome" where
  "aggregate_groups fns s gs calls limit [] end' groups = and_then end' (\<lambda>_. Ok groups)"
| "aggregate_groups fns s gs calls limit (t # ts) end' groups =
    and_then (eval_keys fns s gs t) (\<lambda>k.
    case open_group calls groups k of (groups, i) \<Rightarrow>
    and_then (check_row_limit limit ''Hash Aggregate'' (length groups)) (\<lambda>_.
    and_then (update_states fns s t calls (snd (groups ! i))) (\<lambda>as.
    aggregate_groups fns s gs calls limit ts end' (groups[i := (fst (groups ! i), as)]))))"

definition finish_group :: "schema \<Rightarrow> aggregate_call list \<Rightarrow> val list \<times> agg_state list \<Rightarrow> tuple outcome" where
  "finish_group s calls = (\<lambda>(k, as).
     tuple_new s (k @ map (\<lambda>(c, a). agg_finish a (ac_func c)) (zip calls as)))"

definition aggregate_rows ::
  "function_registry \<Rightarrow> schema \<Rightarrow> schema \<Rightarrow> bound_expr list \<Rightarrow> aggregate_call list \<Rightarrow> nat option \<Rightarrow> stream
   \<Rightarrow> tuple list outcome" where
  "aggregate_rows fns ins outs gs calls limit st =
     and_then (aggregate_groups fns ins gs calls limit (fst st) (snd st) []) (\<lambda>groups.
     let groups = (if groups = [] \<and> gs = [] then [([], map (\<lambda>_. agg_new) calls)] else groups) in
     map_outcome (finish_group outs calls) groups)"

subsection \<open>Sorting\<close>

text \<open>
  \<open>sort_by\<close> is a stable sort. The comparison panics on values of different types; here the sort panics if
  any two keys of the input have such values, whether or not the algorithm meets them.
\<close>

definition flip_ordering :: "ordering \<Rightarrow> ordering" where
  "flip_ordering o' = (case o' of Less \<Rightarrow> Greater | Equal \<Rightarrow> Equal | Greater \<Rightarrow> Less)"

fun compare_keys :: "sort_key list \<Rightarrow> val list \<Rightarrow> val list \<Rightarrow> ordering outcome" where
  "compare_keys (k # ks) (a # as) (b # bs) =
    and_then (compare_values a b) (\<lambda>o'.
    let o' = (if sk_desc k then flip_ordering o' else o') in
    if o' \<noteq> Equal then Ok o' else compare_keys ks as bs)"
| "compare_keys [] _ _ = Ok Equal"
| "compare_keys _ _ _ = Panic"

definition not_after :: "sort_key list \<Rightarrow> val list \<times> tuple \<Rightarrow> val list \<times> tuple \<Rightarrow> bool" where
  "not_after ks x y \<longleftrightarrow> compare_keys ks (fst x) (fst y) \<noteq> Ok Greater"

fun insert_stable :: "('a \<Rightarrow> 'a \<Rightarrow> bool) \<Rightarrow> 'a \<Rightarrow> 'a list \<Rightarrow> 'a list" where
  "insert_stable le x [] = [x]"
| "insert_stable le x (y # ys) = (if le x y then x # y # ys else y # insert_stable le x ys)"

definition sort_stable :: "('a \<Rightarrow> 'a \<Rightarrow> bool) \<Rightarrow> 'a list \<Rightarrow> 'a list" where
  "sort_stable le xs = foldr (insert_stable le) xs []"

fun key_rows ::
  "function_registry \<Rightarrow> schema \<Rightarrow> sort_key list \<Rightarrow> nat option \<Rightarrow> tuple list \<Rightarrow> unit outcome \<Rightarrow> nat
   \<Rightarrow> (val list \<times> tuple) list outcome" where
  "key_rows fns s ks limit [] end' n = and_then end' (\<lambda>_. Ok [])"
| "key_rows fns s ks limit (t # ts) end' n =
    and_then (eval_keys fns s (map sk_expr ks) t) (\<lambda>k.
    and_then (check_row_limit limit ''Sort'' (n + 1)) (\<lambda>_.
    and_then (key_rows fns s ks limit ts end' (n + 1)) (\<lambda>rest. Ok ((k, t) # rest))))"

definition comparable :: "sort_key list \<Rightarrow> (val list \<times> tuple) list \<Rightarrow> bool" where
  "comparable ks keyed \<longleftrightarrow>
     list_all (\<lambda>x. list_all (\<lambda>y. compare_keys ks (fst x) (fst y) \<noteq> Panic) keyed) keyed"

definition sort_rows ::
  "function_registry \<Rightarrow> schema \<Rightarrow> sort_key list \<Rightarrow> nat option \<Rightarrow> stream \<Rightarrow> tuple list outcome" where
  "sort_rows fns s ks limit st =
     and_then (key_rows fns s ks limit (fst st) (snd st) 0) (\<lambda>keyed.
     if \<not> comparable ks keyed then Panic
     else Ok (map snd (sort_stable (not_after ks) keyed)))"

end
