(* ===== verification/Query_Spec.thy ===== *)
theory Query_Spec
  imports Rules Operators
begin

text \<open>
  What a query means. \<open>query_rows\<close> gives the rows of a logical plan with the list functions of HOL: a
  filter is \<open>filter\<close>, a join runs over all pairs, sorting is a stable sort. Expressions are evaluated by
  \<open>value_of\<close>, which agrees with \<open>eval_bound_expr\<close> wherever that succeeds and is NULL where it fails. A run
  of the program that fails yields no result; one that succeeds has to yield these rows.
\<close>

subsection \<open>Expressions without failure\<close>

definition ok_val :: "val outcome \<Rightarrow> val" where
  "ok_val r = (case r of Ok v \<Rightarrow> v | _ \<Rightarrow> VNull)"

lemma ok_val_Ok [simp]: "ok_val (Ok v) = v" "ok_val (Err e) = VNull" "ok_val Panic = VNull"
  by (simp_all add: ok_val_def)

fun value_of :: "function_registry \<Rightarrow> bound_expr \<Rightarrow> tuple \<Rightarrow> val" where
  "value_of fns (BIntLiteral v _) t = VBigInt v"
| "value_of fns (BStringLiteral v _) t = VText v"
| "value_of fns (BBoolLiteral v _) t = VBoolean v"
| "value_of fns (BNullLiteral _) t = VNull"
| "value_of fns (BColumnRef _ i _ _ _) t = (case tuple_get t i of Some v \<Rightarrow> v | None \<Rightarrow> VNull)"
| "value_of fns (BParen e _) t = value_of fns e t"
| "value_of fns (BUnaryOp opr e _ _) t = ok_val (eval_unary opr (value_of fns e t))"
| "value_of fns (BBinaryOp opr l r _ _) t =
    ok_val (binary_dispatch opr (Ok (value_of fns l t)) (Ok (value_of fns r t)))"
| "value_of fns (BIsNull e negated _) t =
    VBoolean (if negated then \<not> is_null (value_of fns e t) else is_null (value_of fns e t))"
| "value_of fns (BCast e ty _) t = ok_val (eval_cast (value_of fns e t) ty)"
| "value_of fns (BFunctionCall name args _ _) t = ok_val (call_fn fns name (map (\<lambda>a. value_of fns a t) args))"
| "value_of fns (BAggregate _ _ _ _) t = VNull"
| "value_of fns (BParam _ _ _) t = VNull"

lemma binary_dispatch_Ok:
  assumes "binary_dispatch opr l r = Ok v"
  obtains a b where "l = Ok a" "r = Ok b"
  using assms by (auto simp: binary_dispatch_def and_then_Ok_iff split: if_splits)

lemma value_of_Ok:
  "eval_bound_expr e fns row = Ok v \<Longrightarrow> row = row_of s t \<Longrightarrow> value_of fns e t = v"
  "eval_bound_args es fns row = Ok vs \<Longrightarrow> row = row_of s t \<Longrightarrow> map (\<lambda>e. value_of fns e t) es = vs"
proof (induction e fns row and es fns row arbitrary: v and vs rule: eval_bound_expr_eval_bound_args.induct)
  case (5 k i name ty s fns row)
  then show ?case by (auto simp: row_of_def get_index_def split: option.splits)
next
  case (8 opr l r ty s fns row)
  from 8(3) obtain a b where "eval_bound_expr l fns row = Ok a" "eval_bound_expr r fns row = Ok b"
    by (auto elim: binary_dispatch_Ok)
  with 8 show ?case by simp
qed (auto simp: and_then_Ok_iff)

definition holds :: "function_registry \<Rightarrow> bound_expr \<Rightarrow> tuple \<Rightarrow> bool" where
  "holds fns e t \<longleftrightarrow> value_of fns e t = VBoolean True"

lemma predicate_holds:
  "and_then (eval_bound_expr e fns (row_of s t)) predicate_matches = Ok m \<Longrightarrow> m = holds fns e t"
proof -
  assume "and_then (eval_bound_expr e fns (row_of s t)) predicate_matches = Ok m"
  then obtain v where v: "eval_bound_expr e fns (row_of s t) = Ok v" "predicate_matches v = Ok m"
    by (auto simp: and_then_Ok_iff)
  from value_of_Ok(1) [OF v(1) refl] v(2) show ?thesis by (cases v) (auto simp: holds_def)
qed

subsection \<open>The rows of a plan\<close>

definition tuple_of :: "val list \<Rightarrow> tuple" where
  "tuple_of vs = \<lparr>tup_values = vs\<rparr>"

definition join_tuple :: "tuple \<Rightarrow> tuple \<Rightarrow> tuple" where
  "join_tuple l r = tuple_of (tup_values l @ tup_values r)"

definition project_tuple :: "function_registry \<Rightarrow> bound_select_item list \<Rightarrow> tuple \<Rightarrow> tuple" where
  "project_tuple fns items t = tuple_of (map (\<lambda>i. value_of fns (si_expr i) t) items)"

text \<open>The first of several equal rows stays.\<close>

fun distinct_from :: "tuple set \<Rightarrow> tuple list \<Rightarrow> tuple list" where
  "distinct_from seen [] = []"
| "distinct_from seen (t # ts) =
    (if t \<in> seen then distinct_from seen ts else t # distinct_from (insert t seen) ts)"

definition key_values :: "function_registry \<Rightarrow> bound_expr list \<Rightarrow> tuple \<Rightarrow> val list" where
  "key_values fns es t = map (\<lambda>e. value_of fns e t) es"

definition sorted_rows :: "function_registry \<Rightarrow> sort_key list \<Rightarrow> tuple list \<Rightarrow> tuple list" where
  "sorted_rows fns ks ts = map snd (sort_stable (not_after ks) (map (\<lambda>t. (key_values fns (map sk_expr ks) t, t)) ts))"

text \<open>
  Groups in the order in which their first rows appear. The argument of a call on one row is \<open>None\<close> for
  \<open>COUNT( * )\<close>; \<open>aggregate_value\<close> runs the accumulator over a group, and is NULL where it fails.
\<close>

definition call_values :: "function_registry \<Rightarrow> aggregate_call list \<Rightarrow> tuple \<Rightarrow> val option list" where
  "call_values fns calls t = map (\<lambda>c. map_option (\<lambda>e. value_of fns e t) (ac_arg c)) calls"

fun accumulate :: "aggregate_func \<Rightarrow> agg_state \<Rightarrow> val option list \<Rightarrow> agg_state outcome" where
  "accumulate func a [] = Ok a"
| "accumulate func a (v # vs) = and_then (agg_update a func v) (\<lambda>a. accumulate func a vs)"

definition aggregate_value :: "aggregate_func \<Rightarrow> val option list \<Rightarrow> val" where
  "aggregate_value func vs = (case accumulate func agg_new vs of Ok a \<Rightarrow> agg_finish a func | _ \<Rightarrow> VNull)"

definition group_row ::
  "aggregate_call list \<Rightarrow> (val list \<times> val option list) list \<Rightarrow> val list \<Rightarrow> tuple" where
  "group_row calls keyed k =
     tuple_of (k @ map (\<lambda>(i, c). aggregate_value (ac_func c) (map (\<lambda>(_, vs). vs ! i) (filter (\<lambda>(k', _). k' = k) keyed)))
       (enumerate 0 calls))"

definition first_keys :: "(val list \<times> 'a) list \<Rightarrow> val list list" where
  "first_keys keyed = rev (remdups (rev (map fst keyed)))"

definition grouped_rows ::
  "function_registry \<Rightarrow> bound_expr list \<Rightarrow> aggregate_call list \<Rightarrow> tuple list \<Rightarrow> tuple list" where
  "grouped_rows fns gs calls ts =
     (let keyed = map (\<lambda>t. (key_values fns gs t, call_values fns calls t)) ts in
      if ts = [] \<and> gs = [] then [group_row calls [] []]
      else map (group_row calls keyed) (first_keys keyed))"

fun query_rows :: "function_registry \<Rightarrow> mem_storage \<Rightarrow> logical_plan \<Rightarrow> tuple list" where
  "query_rows fns db (LScan tid _ _) = (case db tid of None \<Rightarrow> [] | Some rows \<Rightarrow> rows)"
| "query_rows fns db (LValues _ rows) = map (\<lambda>_. tuple_of []) rows"
| "query_rows fns db (LFilter p e) = filter (holds fns e) (query_rows fns db p)"
| "query_rows fns db (LJoin l r _ e) =
    filter (holds fns e)
      (concat (map (\<lambda>x. map (join_tuple x) (query_rows fns db r)) (query_rows fns db l)))"
| "query_rows fns db (LAggregate p gs calls _) = grouped_rows fns gs calls (query_rows fns db p)"
| "query_rows fns db (LProjection p items) = map (project_tuple fns items) (query_rows fns db p)"
| "query_rows fns db (LDistinct p) = distinct_from {} (query_rows fns db p)"
| "query_rows fns db (LSort p ks) = sorted_rows fns ks (query_rows fns db p)"
| "query_rows fns db (LLimit p limit offset) =
    (let rows = drop (case offset of None \<Rightarrow> 0 | Some k \<Rightarrow> k) (query_rows fns db p) in
     case limit of None \<Rightarrow> rows | Some n \<Rightarrow> take n rows)"
| "query_rows fns db _ = []"

end
