(* ===== verification/Plan_Typing.thy ===== *)
theory Plan_Typing
  imports Query_Spec
begin

text \<open>
  Typing of logical plans. \<open>plan_typed\<close> assigns every plan the types of its output columns; the rows that
  the plan yields have these types, and every expression in it is well typed for them.
\<close>

subsection \<open>Expressions over typed rows\<close>

text \<open>Columns of given types, as \<open>well_typed\<close> reads them.\<close>

definition type_columns :: "data_type list \<Rightarrow> column list" where
  "type_columns ts = map (\<lambda>t. column_new [] t True) ts"

lemma type_columns_simps [simp]:
  "length (type_columns ts) = length ts"
  "i < length ts \<Longrightarrow> col_type (type_columns ts ! i) = ts ! i"
  by (simp_all add: type_columns_def column_new_def)

definition row_typed :: "data_type list \<Rightarrow> tuple \<Rightarrow> bool" where
  "row_typed ts t \<longleftrightarrow> list_all2 of_type ts (tup_values t)"

lemma row_typed_length: "row_typed ts t \<Longrightarrow> length (tup_values t) = length ts"
  by (auto simp: row_typed_def dest: list_all2_lengthD)

lemma row_typed_columns:
  "row_typed ts t \<Longrightarrow> list_all2 (\<lambda>v c. of_type (col_type c) v) (tup_values t) (type_columns ts)"
  by (simp add: row_typed_def list_all2_conv_all_nth)

text \<open>An expression that has type \<open>t\<close> on rows of types \<open>ts\<close>.\<close>

definition expr_ok :: "function_registry \<Rightarrow> data_type list \<Rightarrow> data_type \<Rightarrow> bound_expr \<Rightarrow> bool" where
  "expr_ok fns ts t e \<longleftrightarrow> well_typed fns (type_columns ts) e \<and> closed_expr e \<and> fits t (bound_type e)"

definition registry_typed :: "function_registry \<Rightarrow> bool" where
  "registry_typed fns \<longleftrightarrow> typed_functions fns"

lemma of_type_VNull [simp]: "of_type t VNull"
  by (simp add: of_type_def)

lemma eval_row_typed:
  assumes "registry_typed fns" "row_typed ts t" "well_typed fns (type_columns ts) e" "closed_expr e"
  shows "typed_result (bound_type e) (eval_bound_expr e fns (row_of s t))"
  using typed_functions.eval_well_typed(1) [OF assms(1) [unfolded registry_typed_def],
      of "\<lparr>row_schema = s, row_tuple = t\<rparr>", OF _ assms(3,4) refl] assms(2)
  by (simp add: row_typed_columns row_of_def)

lemma call_fn_of_type:
  assumes "registry_typed fns" "fns (to_ascii_lowercase name) = Some entry" "list_all2 of_type (fn_arg_types entry) vs"
  shows "of_type (fn_return_type entry) (ok_val (call_fn fns name vs))"
proof -
  have "typed_result (Some (fn_return_type entry)) (fn_func entry vs)"
    using assms typed_functions.call_typed by (auto simp: registry_typed_def)
  then show ?thesis using assms(2) by (auto simp: call_fn_def elim!: typed_result_cases)
qed

lemma ok_val_typed: "typed_result (Some t) r \<Longrightarrow> of_type t (ok_val r)"
  by (auto elim!: typed_result_cases)

lemma typed_result_None_Ok: "typed_result ot (Ok v) \<longleftrightarrow> (case ot of None \<Rightarrow> v = VNull | Some t \<Rightarrow> of_type t v)"
  by (simp add: typed_result_def)

lemma typed_value_fits: "typed_result ot (Ok v) \<Longrightarrow> fits t ot \<Longrightarrow> of_type t v"
  by (auto simp: fits_def)

lemma value_of_typed:
  "registry_typed fns \<Longrightarrow> row_typed ts t \<Longrightarrow> well_typed fns (type_columns ts) e \<Longrightarrow> closed_expr e \<Longrightarrow>
   typed_result (bound_type e) (Ok (value_of fns e t))"
proof (induction fns e t rule: value_of.induct)
  case (5 fns k i name ty s t)
  then have i: "i < length ts" "ty = ts ! i" by auto
  have "of_type (ts ! i) (tup_values t ! i)" "length (tup_values t) = length ts"
    using 5(2) i(1) by (auto simp: row_typed_def dest: list_all2_lengthD list_all2_nthD)
  with i show ?case by (simp add: tuple_get_def get_at_def)
next
  case (7 fns opr e ty s t)
  then have "typed_result (bound_type e) (Ok (value_of fns e t))" "fits (unary_hint opr) (bound_type e)" "ty = unary_hint opr"
    by auto
  then show ?case by (elim typed_result_fits) (auto simp: ok_val_typed eval_unary_typed)
next
  case (8 fns opr l r ty s t)
  then show ?case by (auto intro!: ok_val_typed binary_dispatch_typed)
next
  case (10 fns e ty s t)
  then show ?case by (auto intro!: ok_val_typed eval_cast_typed simp: typed_result_None_Ok)
next
  case (11 fns name args ty s t)
  then obtain entry where e: "fns (to_ascii_lowercase name) = Some entry"
    and a: "list_all2 fits (fn_arg_types entry) (map bound_type args)" "ty = fn_return_type entry"
    by (auto split: option.splits)
  have vals: "typed_result (bound_type x) (Ok (value_of fns x t))" if "x \<in> set args" for x
    using 11 that by (auto simp: list_all_iff)
  have "list_all2 of_type (fn_arg_types entry) (map (\<lambda>x. value_of fns x t) args)"
    unfolding list.rel_map
    by (rule list.rel_mono_strong [OF a(1) [unfolded list.rel_map]]) (auto intro: typed_value_fits vals)
  from call_fn_of_type [OF 11(2) e this] show ?case by (simp add: a(2))
qed auto

lemma value_of_expr_ok:
  assumes "registry_typed fns" "row_typed ts t" "expr_ok fns ts ty e"
  shows "of_type ty (value_of fns e t)"
  using value_of_typed [of fns ts t e] assms by (auto simp: expr_ok_def intro: typed_value_fits)

subsection \<open>Plans\<close>

definition agg_ok :: "function_registry \<Rightarrow> data_type list \<Rightarrow> data_type \<Rightarrow> aggregate_call \<Rightarrow> bool" where
  "agg_ok fns ts t c \<longleftrightarrow>
     (case ac_func c of
        Count \<Rightarrow> t = TBigInt \<and> (case ac_arg c of None \<Rightarrow> True | Some e \<Rightarrow> \<exists>u. expr_ok fns ts u e)
      | Sum \<Rightarrow> t = TBigInt \<and> (case ac_arg c of None \<Rightarrow> False | Some e \<Rightarrow> expr_ok fns ts TBigInt e)
      | _ \<Rightarrow> (case ac_arg c of None \<Rightarrow> False | Some e \<Rightarrow> expr_ok fns ts t e))"

inductive plan_typed :: "function_registry \<Rightarrow> mem_storage \<Rightarrow> logical_plan \<Rightarrow> data_type list \<Rightarrow> bool"
  for fns db where
  scan: "db tid = Some rows \<Longrightarrow> list_all (row_typed (map col_type (columns s))) rows \<Longrightarrow>
    plan_typed fns db (LScan tid n s) (map col_type (columns s))"
| vals: "columns s = [] \<Longrightarrow> list_all (\<lambda>es. es = []) rows \<Longrightarrow> plan_typed fns db (LValues s rows) []"
| filter: "plan_typed fns db p ts \<Longrightarrow> expr_ok fns ts TBoolean e \<Longrightarrow> plan_typed fns db (LFilter p e) ts"
| join: "plan_typed fns db l ts \<Longrightarrow> plan_typed fns db r us \<Longrightarrow> expr_ok fns (ts @ us) TBoolean e \<Longrightarrow>
    plan_typed fns db (LJoin l r k e) (ts @ us)"
| aggregate: "plan_typed fns db p ts \<Longrightarrow> list_all2 (expr_ok fns ts) gts gs \<Longrightarrow>
    list_all2 (agg_ok fns ts) cts cs \<Longrightarrow> length (columns s) = length gs + length cs \<Longrightarrow>
    plan_typed fns db (LAggregate p gs cs s) (gts @ cts)"
| projection: "plan_typed fns db p ts \<Longrightarrow> list_all2 (\<lambda>t i. expr_ok fns ts t (si_expr i)) us items \<Longrightarrow>
    plan_typed fns db (LProjection p items) us"
| distinct: "plan_typed fns db p ts \<Longrightarrow> plan_typed fns db (LDistinct p) ts"
| sort: "plan_typed fns db p ts \<Longrightarrow> list_all (\<lambda>k. \<exists>t. expr_ok fns ts t (sk_expr k)) ks \<Longrightarrow>
    plan_typed fns db (LSort p ks) ts"
| limit: "plan_typed fns db p ts \<Longrightarrow> plan_typed fns db (LLimit p n k) ts"

inductive_cases plan_typed_filterE: "plan_typed fns db (LFilter p e) ts"
inductive_cases plan_typed_joinE: "plan_typed fns db (LJoin l r k e) ts"
inductive_cases plan_typed_scanE: "plan_typed fns db (LScan tid n s) ts"
inductive_cases plan_typed_valuesE: "plan_typed fns db (LValues s rows) ts"
inductive_cases plan_typed_aggregateE: "plan_typed fns db (LAggregate p gs cs s) ts"
inductive_cases plan_typed_projectionE: "plan_typed fns db (LProjection p items) ts"

lemma projection_column_Ok:
  assumes "expr_ok fns ts t (si_expr i)" "length (columns s) = length ts"
  shows "\<exists>c. projection_column s i = Ok c"
  using assms by (cases "si_expr i") (auto simp: projection_column_def expr_ok_def get_at_def)

lemma plan_schema: "plan_typed fns db p ts \<Longrightarrow> \<exists>s. output_schema p = Ok s \<and> length (columns s) = length ts"
proof (induction rule: plan_typed.induct)
  case (join l ts r us e k)
  then show ?case by (auto simp: join_schema_def)
next
  case (aggregate p ts gts gs cts cs s)
  from aggregate(2,3) have "length gts = length gs" "length cts = length cs" by (auto dest: list_all2_lengthD)
  with aggregate(4) show ?case by simp
next
  case (projection p ts us items)
  then obtain s where s: "output_schema p = Ok s" "length (columns s) = length ts" by blast
  have "\<exists>cs. map_outcome (projection_column s) items = Ok cs \<and> length cs = length us"
    using projection(2)
  proof (induction rule: list_all2_induct)
    case (Cons t us i items)
    then show ?case using projection_column_Ok [OF _ s(2)] by fastforce
  qed simp
  then show ?case by (auto simp: s projection_schema_def)
qed auto

lemma plan_schema_len: "plan_typed fns db p ts \<Longrightarrow> output_schema p = Ok s \<Longrightarrow> schema_len s = length ts"
  using plan_schema by (fastforce simp: schema_len_def)

lemma row_typed_join: "row_typed ts l \<Longrightarrow> row_typed us r \<Longrightarrow> row_typed (ts @ us) (join_tuple l r)"
  by (simp add: row_typed_def join_tuple_def tuple_of_def list_all2_appendI)

lemma set_distinct_from: "set (distinct_from seen ts) \<subseteq> set ts"
  by (induction seen ts rule: distinct_from.induct) auto

lemma set_insert_stable [simp]: "set (insert_stable le x xs) = insert x (set xs)"
  by (induction xs) auto

lemma set_sort_stable [simp]: "set (sort_stable le xs) = set xs"
  unfolding sort_stable_def by (induction xs) auto

lemma set_sorted_rows [simp]: "set (sorted_rows fns ks ts) = set ts"
  by (simp add: sorted_rows_def image_image)

subsection \<open>Aggregates\<close>

definition state_typed :: "aggregate_func \<Rightarrow> data_type \<Rightarrow> agg_state \<Rightarrow> bool" where
  "state_typed func t a \<longleftrightarrow> of_type t (agg_finish a func)"

lemma state_typed_new: "func = Count \<longrightarrow> t = TBigInt \<Longrightarrow> state_typed func t agg_new"
  by (cases func) (auto simp: state_typed_def agg_finish_def agg_new_def)

text \<open>The value that a call passes to the accumulator.\<close>

definition agg_value_ok :: "aggregate_func \<Rightarrow> data_type \<Rightarrow> val option \<Rightarrow> bool" where
  "agg_value_ok func t v \<longleftrightarrow>
     (case func of
        Count \<Rightarrow> t = TBigInt
      | Sum \<Rightarrow> t = TBigInt \<and> (\<exists>x. v = Some x \<and> of_type TBigInt x)
      | _ \<Rightarrow> (\<exists>x. v = Some x \<and> of_type t x))"

lemma agg_update_typed:
  assumes "state_typed func t a" "agg_value_ok func t v" "agg_update a func v = Ok a'"
  shows "state_typed func t a'"
  using assms
  by (cases func) (auto simp: agg_update_def agg_value_ok_def state_typed_def agg_finish_def and_then_Ok_iff Let_def
      split: if_splits option.splits val.splits)

lemma accumulate_typed:
  "accumulate func a vs = Ok a' \<Longrightarrow> state_typed func t a \<Longrightarrow> \<forall>v \<in> set vs. agg_value_ok func t v \<Longrightarrow>
   state_typed func t a'"
  by (induction vs arbitrary: a) (auto simp: and_then_Ok_iff intro: agg_update_typed)

lemma aggregate_value_typed:
  assumes "\<forall>v \<in> set vs. agg_value_ok func t v" "func = Count \<longrightarrow> t = TBigInt"
  shows "of_type t (aggregate_value func vs)"
  using accumulate_typed [OF _ state_typed_new [OF assms(2)] assms(1)]
  by (auto simp: aggregate_value_def state_typed_def split: outcome.splits)

lemma agg_ok_value:
  assumes "registry_typed fns" "agg_ok fns ts t c" "row_typed ts x"
  shows "agg_value_ok (ac_func c) t (map_option (\<lambda>e. value_of fns e x) (ac_arg c))"
    and "ac_func c = Count \<longrightarrow> t = TBigInt"
  using assms value_of_expr_ok [OF assms(1,3)]
  by (auto simp: agg_ok_def agg_value_ok_def split: option.splits aggregate_func.splits)

lemma agg_ok_Count: "agg_ok fns ts t c \<Longrightarrow> ac_func c = Count \<longrightarrow> t = TBigInt"
  by (auto simp: agg_ok_def)

lemma key_values_typed:
  assumes "registry_typed fns" "row_typed ts t" "list_all2 (expr_ok fns ts) gts gs"
  shows "list_all2 of_type gts (key_values fns gs t)"
  unfolding key_values_def list.rel_map
  using assms(3) by (rule list.rel_mono_strong) (auto intro: value_of_expr_ok assms(1,2))

lemma group_row_typed:
  assumes reg: "registry_typed fns" and cs: "list_all2 (agg_ok fns ts) cts cs"
    and rows: "list_all (row_typed ts) rows" and k: "list_all2 of_type gts k"
  shows "row_typed (gts @ cts)
    (group_row cs (map (\<lambda>t. (key_values fns gs t, call_values fns cs t)) rows) k)"
proof -
  let ?keyed = "map (\<lambda>t. (key_values fns gs t, call_values fns cs t)) rows"
  have "of_type (cts ! i) (aggregate_value (ac_func (cs ! i))
      (map (\<lambda>(_, vs). vs ! i) (filter (\<lambda>(k', _). k' = k) ?keyed)))" if i: "i < length cs" for i
  proof (rule aggregate_value_typed)
    have ok: "agg_ok fns ts (cts ! i) (cs ! i)" using cs i by (simp add: list_all2_conv_all_nth)
    show "ac_func (cs ! i) = Count \<longrightarrow> cts ! i = TBigInt" by (rule agg_ok_Count [OF ok])
    show "\<forall>v \<in> set (map (\<lambda>(_, vs). vs ! i) (filter (\<lambda>(k', _). k' = k) ?keyed)).
        agg_value_ok (ac_func (cs ! i)) (cts ! i) v"
      using rows i agg_ok_value(1) [OF reg ok] by (auto simp: list_all_iff call_values_def)
  qed
  then have "list_all2 of_type cts (map (\<lambda>(i, c). aggregate_value (ac_func c)
      (map (\<lambda>(_, vs). vs ! i) (filter (\<lambda>(k', _). k' = k) ?keyed))) (enumerate 0 cs))"
    using cs by (auto simp: list_all2_conv_all_nth nth_enumerate_eq)
  with k show ?thesis by (simp add: row_typed_def group_row_def tuple_of_def list_all2_appendI)
qed

lemma set_first_keys: "set (first_keys keyed) = fst ` set keyed"
  by (simp add: first_keys_def)

lemma grouped_rows_typed:
  assumes "registry_typed fns" "list_all2 (expr_ok fns ts) gts gs" "list_all2 (agg_ok fns ts) cts cs"
    and rows: "list_all (row_typed ts) rows"
  shows "list_all (row_typed (gts @ cts)) (grouped_rows fns gs cs rows)"
proof (cases "rows = [] \<and> gs = []")
  case True
  then have "row_typed (gts @ cts) (group_row cs [] [])"
    using group_row_typed [OF assms(1,3), of "[]" gts "[]" gs] assms(2) by simp
  with True show ?thesis by (simp add: grouped_rows_def)
next
  case False
  have "list_all2 of_type gts k" if "k \<in> set (first_keys (map (\<lambda>t. (key_values fns gs t, call_values fns cs t)) rows))" for k
    using that rows key_values_typed [OF assms(1) _ assms(2)] by (auto simp: set_first_keys list_all_iff)
  with False show ?thesis using group_row_typed [OF assms(1,3) rows] by (auto simp: grouped_rows_def list_all_iff Let_def)
qed

lemma query_rows_typed:
  assumes "registry_typed fns"
  shows "plan_typed fns db p ts \<Longrightarrow> list_all (row_typed ts) (query_rows fns db p)"
proof (induction rule: plan_typed.induct)
  case (vals s rows)
  then show ?case by (simp add: row_typed_def tuple_of_def list_all_iff)
next
  case (join l ts r us e k)
  then show ?case by (auto simp: list_all_iff intro: row_typed_join)
next
  case (aggregate p ts gts gs cts cs s)
  then show ?case using grouped_rows_typed [OF assms] by simp
next
  case (projection p ts us items)
  have "row_typed us (project_tuple fns items t)" if "row_typed ts t" for t
    unfolding row_typed_def project_tuple_def tuple_of_def tuple.simps list.rel_map
    using projection(2) by (rule list.rel_mono_strong) (auto intro: value_of_expr_ok [OF assms that])
  with projection.IH show ?case by (auto simp: list_all_iff)
next
  case (distinct p ts)
  then show ?case using set_distinct_from by (fastforce simp: list_all_iff)
next
  case (limit p ts n k)
  then show ?case by (auto simp: list_all_iff Let_def dest: in_set_takeD in_set_dropD split: option.splits)
qed (auto simp: list_all_iff)

end
