(* ===== verification/Rules_Correct.thy ===== *)
theory Rules_Correct
  imports Plan_Typing
begin

text \<open>
  The rewriting rules keep the meaning of a plan: every rule maps a typed plan to a typed plan with the
  same rows, and none of them panics.
\<close>

subsection \<open>Rewriting of expressions\<close>

definition expr_equiv :: "function_registry \<Rightarrow> data_type list \<Rightarrow> bound_expr \<Rightarrow> bound_expr \<Rightarrow> bool" where
  "expr_equiv fns ts e e' \<longleftrightarrow>
     (\<forall>t. expr_ok fns ts t e \<longrightarrow> expr_ok fns ts t e')
     \<and> (\<forall>x. row_typed ts x \<longrightarrow> value_of fns e' x = value_of fns e x)"

definition expr_rewrite :: "function_registry \<Rightarrow> (bound_expr \<Rightarrow> bound_expr change) \<Rightarrow> bool" where
  "expr_rewrite fns f \<longleftrightarrow>
     (\<forall>ts t e. expr_ok fns ts t e \<longrightarrow> (\<exists>r. f e = Ok r \<and> expr_equiv fns ts e (fst r)))"

lemma expr_rewriteD:
  "expr_rewrite fns f \<Longrightarrow> expr_ok fns ts t e \<Longrightarrow> \<exists>r. f e = Ok r \<and> expr_equiv fns ts e (fst r)"
  by (auto simp: expr_rewrite_def)

subsubsection \<open>Constant folding\<close>

lemma constant_eval:
  "is_constant e \<Longrightarrow> eval_bound_expr e fns row = eval_bound_expr e fns row'"
  "list_all is_constant es \<Longrightarrow> eval_bound_args es fns row = eval_bound_args es fns row'"
  by (induction e fns row and es fns row rule: eval_bound_expr_eval_bound_args.induct) (auto intro: and_then_cong)

lemma value_to_literal_simps [simp]:
  "value_of fns (value_to_literal v s) x = v"
  "well_typed fns cols (value_to_literal v s)"
  "closed_expr (value_to_literal v s)"
  "bound_type (value_to_literal v s) = type_of v"
  by (cases v; simp)+

lemma null_row_typed: "row_typed ts (tuple_of (map (\<lambda>_. VNull) ts))"
  by (simp add: row_typed_def tuple_of_def list.rel_map list.rel_refl)

lemma type_of_None_iff: "type_of v = None \<longleftrightarrow> v = VNull"
  by (cases v) auto

text \<open>What every step of constant folding keeps.\<close>

definition folds_to :: "function_registry \<Rightarrow> data_type list \<Rightarrow> bound_expr \<Rightarrow> bound_expr \<Rightarrow> bool" where
  "folds_to fns ts e e' \<longleftrightarrow>
     well_typed fns (type_columns ts) e' \<and> closed_expr e' \<and> bound_type e' = bound_type e
     \<and> (\<forall>x. value_of fns e' x = value_of fns e x)"

lemma folds_to_refl: "well_typed fns (type_columns ts) e \<Longrightarrow> closed_expr e \<Longrightarrow> folds_to fns ts e e"
  by (simp add: folds_to_def)

lemma folds_to_trans: "folds_to fns ts e e' \<Longrightarrow> folds_to fns ts e' e'' \<Longrightarrow> folds_to fns ts e e''"
  by (simp add: folds_to_def)

lemma try_fold_ok:
  assumes reg: "registry_typed fns" and e: "well_typed fns (type_columns ts) e" "closed_expr e"
  shows "\<exists>r. try_fold e fns changed = Ok r \<and> folds_to fns ts e (fst r)"
proof (cases "is_literal e \<or> \<not> is_constant e")
  case True
  then show ?thesis using folds_to_refl [OF e] by (auto simp: try_fold_def)
next
  case False
  then have const: "is_constant e" by simp
  let ?row = "row_of undefined"
  have r: "typed_result (bound_type e) (eval_bound_expr e fns None)"
    using eval_row_typed [OF reg null_row_typed [of ts] e] constant_eval(1) [OF const] by metis
  from r show ?thesis
  proof (cases rule: typed_result_cases)
    case (1 v)
    show ?thesis
    proof (cases "is_null v \<and> bound_type e \<noteq> None")
      case True
      then show ?thesis using False folds_to_refl [OF e] by (simp add: try_fold_def 1)
    next
      case keep: False
      have v: "value_of fns e x = v" for x
        using value_of_Ok(1) [of e fns _ v] 1(1) constant_eval(1) [OF const, of fns None] by metis
      have "bound_type e = type_of v" using keep 1(2) by (cases v) (auto split: option.splits)
      then have "folds_to fns ts e (value_to_literal v (bound_span e))" by (simp add: folds_to_def v)
      moreover have "try_fold e fns changed = Ok (value_to_literal v (bound_span e), True)"
        using False keep by (simp only: try_fold_def 1(1) outcome.case if_False)
      ultimately show ?thesis by auto
    qed
  next
    case (2 c)
    then show ?thesis using False folds_to_refl [OF e] by (simp add: try_fold_def)
  qed
qed

lemma folds_to_args:
  assumes "list_all2 (folds_to fns ts) args args'"
  shows "list_all (well_typed fns (type_columns ts)) args'" "list_all closed_expr args'"
    "map bound_type args' = map bound_type args"
    "map (\<lambda>a. value_of fns a x) args' = map (\<lambda>a. value_of fns a x) args"
  using assms by (induction rule: list_all2_induct) (auto simp: folds_to_def)

lemma fold_step:
  assumes "registry_typed fns" "folds_to fns ts e e'"
  shows "\<exists>r. try_fold e' fns c = Ok r \<and> folds_to fns ts e (fst r)"
proof -
  have "well_typed fns (type_columns ts) e'" "closed_expr e'" using assms(2) by (simp_all add: folds_to_def)
  from try_fold_ok [OF assms(1) this, of c] obtain r where "try_fold e' fns c = Ok r" "folds_to fns ts e' (fst r)"
    by blast
  with folds_to_trans [OF assms(2)] show ?thesis by blast
qed

lemma fold_expr_ok:
  assumes reg: "registry_typed fns"
  shows "well_typed fns (type_columns ts) e \<Longrightarrow> closed_expr e \<Longrightarrow>
    \<exists>r. fold_expr fns e = Ok r \<and> folds_to fns ts e (fst r)"
proof (induction e)
  case (BUnaryOp opr e t s)
  then obtain e' c where e: "fold_expr fns e = Ok (e', c)" "folds_to fns ts e e'" by force
  then have "folds_to fns ts (BUnaryOp opr e t s) (BUnaryOp opr e' t s)"
    using BUnaryOp.prems by (simp add: folds_to_def)
  from fold_step [OF reg this] show ?case by (simp add: e(1))
next
  case (BBinaryOp opr l r t s)
  then obtain l' c1 r' c2 where l: "fold_expr fns l = Ok (l', c1)" "folds_to fns ts l l'"
    and r: "fold_expr fns r = Ok (r', c2)" "folds_to fns ts r r'" by force
  then have "folds_to fns ts (BBinaryOp opr l r t s) (BBinaryOp opr l' r' t s)"
    using BBinaryOp.prems by (simp add: folds_to_def)
  from fold_step [OF reg this] show ?case by (simp add: l(1) r(1))
next
  case (BIsNull e n s)
  then obtain e' c where e: "fold_expr fns e = Ok (e', c)" "folds_to fns ts e e'" by force
  then have "folds_to fns ts (BIsNull e n s) (BIsNull e' n s)" using BIsNull.prems by (simp add: folds_to_def)
  from fold_step [OF reg this] show ?case by (simp add: e(1))
next
  case (BFunctionCall name args t s)
  then have "\<forall>a \<in> set args. \<exists>r. fold_expr fns a = Ok r \<and> folds_to fns ts a (fst r)" by (simp add: list_all_iff)
  from map_outcome_ex [OF this] obtain rs where rs: "map_outcome (fold_expr fns) args = Ok rs" "list_all2 (folds_to fns ts) args (map fst rs)"
    unfolding list.rel_map by blast
  have "folds_to fns ts (BFunctionCall name args t s) (BFunctionCall name (map fst rs) t s)"
    unfolding folds_to_def well_typed.simps closed_expr.simps bound_type.simps value_of.simps
    using BFunctionCall.prems folds_to_args [OF rs(2)]
    by (simp only: well_typed.simps closed_expr.simps simp_thms cong: option.case_cong)
  from fold_step [OF reg this] show ?case by (simp add: rs(1))
next
  case (BParen e s)
  then obtain e' c where e: "fold_expr fns e = Ok (e', c)" "folds_to fns ts e e'" by force
  then have "folds_to fns ts (BParen e s) (BParen e' s)" using BParen.prems by (simp add: folds_to_def)
  from fold_step [OF reg this] show ?case by (simp add: e(1))
next
  case (BCast e t s)
  then obtain e' c where e: "fold_expr fns e = Ok (e', c)" "folds_to fns ts e e'" by force
  then have "folds_to fns ts (BCast e t s) (BCast e' t s)" using BCast.prems by (simp add: folds_to_def)
  from fold_step [OF reg this] show ?case by (simp add: e(1))
qed (auto intro: folds_to_refl)

lemma fold_expr_rewrite: "registry_typed fns \<Longrightarrow> expr_rewrite fns (fold_expr fns)"
  using fold_expr_ok by (fastforce simp: expr_rewrite_def expr_equiv_def expr_ok_def folds_to_def)

subsection \<open>Rewriting the expressions of a plan\<close>

text \<open>What a rule guarantees for a plan whose columns have types \<open>ts\<close>.\<close>

definition plan_equiv ::
  "function_registry \<Rightarrow> mem_storage \<Rightarrow> data_type list \<Rightarrow> logical_plan \<Rightarrow> logical_plan \<Rightarrow> bool" where
  "plan_equiv fns db ts p p' \<longleftrightarrow> plan_typed fns db p' ts \<and> query_rows fns db p' = query_rows fns db p"

definition sound_rule :: "function_registry \<Rightarrow> mem_storage \<Rightarrow> (logical_plan \<Rightarrow> logical_plan change) \<Rightarrow> bool" where
  "sound_rule fns db f \<longleftrightarrow>
     (\<forall>p ts. plan_typed fns db p ts \<longrightarrow> (\<exists>r. f p = Ok r \<and> plan_equiv fns db ts p (fst r)))"

lemma list_all2_member: "list_all2 P xs ys \<Longrightarrow> y \<in> set ys \<Longrightarrow> \<exists>x. P x y"
  by (auto simp: list_all2_conv_all_nth in_set_conv_nth)

lemma map_change_ok:
  "\<forall>x \<in> set xs. \<exists>r. f x = Ok r \<and> Q x (fst r) \<Longrightarrow> \<exists>r. map_change f xs = Ok r \<and> list_all2 Q xs (fst r)"
  by (drule map_outcome_ex) (auto simp: map_change_def list.rel_map)

definition call_equiv :: "function_registry \<Rightarrow> data_type list \<Rightarrow> aggregate_call \<Rightarrow> aggregate_call \<Rightarrow> bool" where
  "call_equiv fns ts c c' \<longleftrightarrow> ac_func c' = ac_func c \<and> rel_option (expr_equiv fns ts) (ac_arg c) (ac_arg c')"

lemma call_change_ok:
  assumes "expr_rewrite fns f" "agg_ok fns ts t c"
  shows "\<exists>r. call_change f c = Ok r \<and> call_equiv fns ts c (fst r)"
proof (cases "ac_arg c")
  case None
  then show ?thesis by (simp add: call_change_def option_change_def call_equiv_def)
next
  case (Some e)
  then obtain u where "expr_ok fns ts u e" using assms(2) by (auto simp: agg_ok_def split: aggregate_func.splits)
  from expr_rewriteD [OF assms(1) this] obtain r where "f e = Ok r" "expr_equiv fns ts e (fst r)" by blast
  then show ?thesis by (cases r) (simp add: Some call_change_def option_change_def call_equiv_def)
qed

lemma call_equiv_ok: "call_equiv fns ts c c' \<Longrightarrow> agg_ok fns ts t c \<Longrightarrow> agg_ok fns ts t c'"
  by (cases "ac_arg c"; cases "ac_arg c'")
    (auto simp: call_equiv_def agg_ok_def expr_equiv_def split: aggregate_func.splits)

text \<open>Grouping looks only at the values of the keys and of the arguments.\<close>

lemma map_enumerate: "map (\<lambda>(i, c). h i (f c)) (enumerate n xs) = map (\<lambda>(i, c). h i c) (enumerate n (map f xs))"
  by (induction xs arbitrary: n) auto

lemma group_row_funcs:
  "group_row cs keyed k = tuple_of (k @ map (\<lambda>(i, func). aggregate_value func
     (map (\<lambda>(_, vs). vs ! i) (filter (\<lambda>(k', _). k' = k) keyed))) (enumerate 0 (map ac_func cs)))"
  unfolding group_row_def map_enumerate [symmetric] ..

lemma grouped_rows_cong:
  assumes "list_all2 (\<lambda>x x'. key_values fns gs' x' = key_values fns gs x \<and> call_values fns cs' x' = call_values fns cs x) xs xs'"
    and "map ac_func cs' = map ac_func cs" "length gs' = length gs"
  shows "grouped_rows fns gs' cs' xs' = grouped_rows fns gs cs xs"
proof -
  have keyed: "map (\<lambda>t. (key_values fns gs' t, call_values fns cs' t)) xs' = map (\<lambda>t. (key_values fns gs t, call_values fns cs t)) xs"
    using assms(1) by (induction rule: list_all2_induct) auto
  have "xs' = [] \<longleftrightarrow> xs = []" using assms(1) by auto
  moreover have "gs' = [] \<longleftrightarrow> gs = []" using assms(3) by auto
  moreover have "group_row cs' = group_row cs" by (intro ext) (simp add: group_row_funcs assms(2))
  ultimately show ?thesis by (simp only: grouped_rows_def keyed)
qed

lemma key_values_equiv:
  "list_all2 (expr_equiv fns ts) gs gs' \<Longrightarrow> row_typed ts x \<Longrightarrow> key_values fns gs' x = key_values fns gs x"
  by (induction rule: list_all2_induct) (auto simp: key_values_def expr_equiv_def)

lemma call_values_equiv:
  "list_all2 (call_equiv fns ts) cs cs' \<Longrightarrow> row_typed ts x \<Longrightarrow> call_values fns cs' x = call_values fns cs x"
  by (induction rule: list_all2_induct)
    (auto simp: call_values_def call_equiv_def expr_equiv_def option.rel_sel option.map_sel intro: option.expand)

lemma call_equiv_funcs: "list_all2 (call_equiv fns ts) cs cs' \<Longrightarrow> map ac_func cs' = map ac_func cs"
  by (induction rule: list_all2_induct) (auto simp: call_equiv_def)

text \<open>Sorting looks only at the values of the keys and at their directions.\<close>

lemma compare_keys_desc:
  "list_all2 (\<lambda>k k'. sk_desc k' = sk_desc k) ks ks' \<Longrightarrow> compare_keys ks' as bs = compare_keys ks as bs"
proof (induction ks as bs arbitrary: ks' rule: compare_keys.induct)
  case (1 k ks a as b bs)
  then show ?case by (auto simp: list_all2_Cons1 Let_def intro!: and_then_cong)
qed (auto simp: list_all2_Cons1)

lemma sorted_rows_cong:
  assumes "list_all2 (\<lambda>k k'. sk_desc k' = sk_desc k) ks ks'"
    and "\<And>x. x \<in> set xs \<Longrightarrow> key_values fns (map sk_expr ks') x = key_values fns (map sk_expr ks) x"
  shows "sorted_rows fns ks' xs = sorted_rows fns ks xs"
proof -
  have "not_after ks' = not_after ks"
    by (intro ext) (simp add: not_after_def compare_keys_desc [OF assms(1)])
  moreover have "map (\<lambda>t. (key_values fns (map sk_expr ks') t, t)) xs = map (\<lambda>t. (key_values fns (map sk_expr ks) t, t)) xs"
    using assms(2) by simp
  ultimately show ?thesis by (simp only: sorted_rows_def)
qed

lemma project_tuple_equiv:
  "list_all2 (\<lambda>i j. expr_equiv fns ts (si_expr i) (si_expr j)) items items' \<Longrightarrow> row_typed ts x \<Longrightarrow>
   project_tuple fns items' x = project_tuple fns items x"
  by (induction rule: list_all2_induct) (auto simp: project_tuple_def tuple_of_def expr_equiv_def)

lemma map_plan_exprs_sound:
  assumes reg: "registry_typed fns" and f: "expr_rewrite fns f"
  shows "plan_typed fns db p ts \<Longrightarrow> \<exists>r. map_plan_exprs f p = Ok r \<and> plan_equiv fns db ts p (fst r)"
proof (induction rule: plan_typed.induct)
  case (filter p ts e)
  then obtain q where q: "map_plan_exprs f p = Ok q" "plan_equiv fns db ts p (fst q)" by blast
  from expr_rewriteD [OF f filter(2)] obtain r where r: "f e = Ok r" "expr_equiv fns ts e (fst r)" by blast
  have "filter (holds fns (fst r)) (query_rows fns db p) = filter (holds fns e) (query_rows fns db p)"
    using query_rows_typed [OF reg filter(1)] r(2)
    by (intro filter_cong) (auto simp: list_all_iff holds_def expr_equiv_def)
  with filter(2) q r show ?case
    by (cases q; cases r) (auto simp: plan_equiv_def expr_equiv_def intro: plan_typed.filter)
next
  case (join l ts r us e k)
  then obtain ql qr where l: "map_plan_exprs f l = Ok ql" "plan_equiv fns db ts l (fst ql)"
    and r: "map_plan_exprs f r = Ok qr" "plan_equiv fns db us r (fst qr)" by blast
  from expr_rewriteD [OF f join(3)] obtain x where x: "f e = Ok x" "expr_equiv fns (ts @ us) e (fst x)" by blast
  let ?rows = "concat (map (\<lambda>x. map (join_tuple x) (query_rows fns db r)) (query_rows fns db l))"
  have "filter (holds fns (fst x)) ?rows = filter (holds fns e) ?rows"
    using query_rows_typed [OF reg join(1)] query_rows_typed [OF reg join(2)] x(2)
    by (intro filter_cong) (auto simp: list_all_iff holds_def expr_equiv_def row_typed_join)
  with join(3) l r x show ?case
    by (cases ql; cases qr; cases x) (auto simp: plan_equiv_def expr_equiv_def intro: plan_typed.join)
next
  case (aggregate p ts gts gs cts cs s)
  then obtain q where q: "map_plan_exprs f p = Ok q" "plan_equiv fns db ts p (fst q)" by blast
  have "\<forall>g \<in> set gs. \<exists>r. f g = Ok r \<and> expr_equiv fns ts g (fst r)"
    using list_all2_member [OF aggregate(2)] expr_rewriteD [OF f] by blast
  from map_change_ok [OF this] obtain g where g: "map_change f gs = Ok g" "list_all2 (expr_equiv fns ts) gs (fst g)" by blast
  have "\<forall>c \<in> set cs. \<exists>r. call_change f c = Ok r \<and> call_equiv fns ts c (fst r)"
    using list_all2_member [OF aggregate(3)] call_change_ok [OF f] by blast
  from map_change_ok [OF this] obtain c
    where c: "map_change (call_change f) cs = Ok c" "list_all2 (call_equiv fns ts) cs (fst c)" by blast
  have len: "length (fst g) = length gs" "length (fst c) = length cs" using g(2) c(2) by (auto dest: list_all2_lengthD)
  have "grouped_rows fns (fst g) (fst c) (query_rows fns db p) = grouped_rows fns gs cs (query_rows fns db p)"
    using query_rows_typed [OF reg aggregate(1)] key_values_equiv [OF g(2)] call_values_equiv [OF c(2)]
    by (intro grouped_rows_cong call_equiv_funcs [OF c(2)] len(1))
      (auto simp: list_all_iff list_all2_same)
  moreover have "list_all2 (expr_ok fns ts) gts (fst g)" "list_all2 (agg_ok fns ts) cts (fst c)"
    using aggregate(2,3) g(2) c(2) len call_equiv_ok by (auto simp: list_all2_conv_all_nth expr_equiv_def)
  ultimately show ?case using aggregate(4) q g c len
    by (cases q; cases g; cases c) (auto simp: plan_equiv_def intro: plan_typed.aggregate)
next
  case (projection p ts us items)
  then obtain q where q: "map_plan_exprs f p = Ok q" "plan_equiv fns db ts p (fst q)" by blast
  have "\<exists>r. item_change f i = Ok r \<and> expr_equiv fns ts (si_expr i) (si_expr (fst r))" if "i \<in> set items" for i
  proof -
    from that projection(2) obtain t where "expr_ok fns ts t (si_expr i)"
      by (auto simp: list_all2_conv_all_nth in_set_conv_nth)
    from expr_rewriteD [OF f this] obtain r where "f (si_expr i) = Ok r" "expr_equiv fns ts (si_expr i) (fst r)" by blast
    then show ?thesis by (cases r) (simp add: item_change_def)
  qed
  then obtain r where r: "map_change (item_change f) items = Ok r"
      "list_all2 (\<lambda>i j. expr_equiv fns ts (si_expr i) (si_expr j)) items (fst r)"
    using map_change_ok [of items "item_change f" "\<lambda>i j. expr_equiv fns ts (si_expr i) (si_expr j)"] by blast
  have "map (project_tuple fns (fst r)) (query_rows fns db p) = map (project_tuple fns items) (query_rows fns db p)"
    using query_rows_typed [OF reg projection(1)] project_tuple_equiv [OF r(2)] by (auto simp: list_all_iff)
  moreover have "list_all2 (\<lambda>t i. expr_ok fns ts t (si_expr i)) us (fst r)"
    using projection(2) r(2) by (auto simp: list_all2_conv_all_nth expr_equiv_def)
  ultimately show ?case using q r
    by (cases q; cases r) (auto simp: plan_equiv_def intro: plan_typed.projection)
next
  case (sort p ts ks)
  then obtain q where q: "map_plan_exprs f p = Ok q" "plan_equiv fns db ts p (fst q)" by blast
  have "\<exists>r. key_change f k = Ok r \<and> sk_desc (fst r) = sk_desc k \<and> expr_equiv fns ts (sk_expr k) (sk_expr (fst r))"
    if "k \<in> set ks" for k
  proof -
    from that sort(2) obtain t where "expr_ok fns ts t (sk_expr k)" by (auto simp: list_all_iff)
    from expr_rewriteD [OF f this] obtain r where "f (sk_expr k) = Ok r" "expr_equiv fns ts (sk_expr k) (fst r)" by blast
    then show ?thesis by (cases r) (simp add: key_change_def)
  qed
  then obtain r where r: "map_change (key_change f) ks = Ok r"
      "list_all2 (\<lambda>k k'. sk_desc k' = sk_desc k \<and> expr_equiv fns ts (sk_expr k) (sk_expr k')) ks (fst r)"
    using map_change_ok [of ks "key_change f"
        "\<lambda>k k'. sk_desc k' = sk_desc k \<and> expr_equiv fns ts (sk_expr k) (sk_expr k')"] by blast
  then have eq: "list_all2 (\<lambda>k k'. sk_desc k' = sk_desc k) ks (fst r)"
    "list_all2 (expr_equiv fns ts) (map sk_expr ks) (map sk_expr (fst r))"
    by (auto simp: list.rel_map elim: list.rel_mono_strong)
  have "sorted_rows fns (fst r) (query_rows fns db p) = sorted_rows fns ks (query_rows fns db p)"
    using query_rows_typed [OF reg sort(1)] key_values_equiv [OF eq(2)]
    by (intro sorted_rows_cong [OF eq(1)]) (auto simp: list_all_iff)
  moreover have "list_all (\<lambda>k. \<exists>t. expr_ok fns ts t (sk_expr k)) (fst r)"
    using sort(2) r(2) by (fastforce simp: list_all_iff list_all2_conv_all_nth in_set_conv_nth expr_equiv_def)
  ultimately show ?case using q r
    by (cases q; cases r) (auto simp: plan_equiv_def intro: plan_typed.sort)
next
  case (distinct p ts)
  then show ?case by (auto simp: plan_equiv_def and_then_Ok_iff intro!: plan_typed.distinct)
next
  case (limit p ts n k)
  then show ?case by (auto simp: plan_equiv_def and_then_Ok_iff intro!: plan_typed.limit)
qed (auto simp: plan_equiv_def intro: plan_typed.intros)

subsection \<open>Boolean simplification\<close>

text \<open>A simplified expression may lose its static type, but only to the untyped NULL.\<close>

definition simplifies_to :: "function_registry \<Rightarrow> data_type list \<Rightarrow> bound_expr \<Rightarrow> bound_expr \<Rightarrow> bool" where
  "simplifies_to fns ts e e' \<longleftrightarrow>
     well_typed fns (type_columns ts) e' \<and> closed_expr e'
     \<and> (bound_type e' = None \<or> bound_type e' = bound_type e)
     \<and> (\<forall>x. row_typed ts x \<longrightarrow> value_of fns e' x = value_of fns e x)"

lemma bool_literal_value: "bool_literal e = Some b \<Longrightarrow> value_of fns e x = VBoolean b"
  by (induction e rule: bool_literal.induct) auto

lemma boolean_value:
  assumes "registry_typed fns" "row_typed ts x" "expr_ok fns ts TBoolean e"
  obtains a where "value_of fns e x = tri_to_value a"
  using value_to_tri_total [OF value_of_expr_ok [OF assms]] by metis

lemma logic_values:
  assumes "value_of fns l x = tri_to_value a" "value_of fns r x = tri_to_value b"
  shows "value_of fns (BBinaryOp And l r t s) x = tri_to_value (tri_and a b)"
    and "value_of fns (BBinaryOp Or l r t s) x = tri_to_value (tri_or a b)"
    and "value_of fns (BUnaryOp Not l t s) x = tri_to_value (tri_not a)"
  by (simp_all add: binary_dispatch_def assms)

lemma tri_to_value_eq: "tri_to_value a = VBoolean b \<longleftrightarrow> a = (if b then TriTrue else TriFalse)"
  by (cases a) auto

lemma logic_not_arith: "logic_op opr \<Longrightarrow> \<not> arith_op opr"
  by (cases opr) simp_all

lemma expr_ok_logic:
  "logic_op opr \<Longrightarrow> expr_ok fns ts t (BBinaryOp opr l r u s) \<longleftrightarrow>
    expr_ok fns ts TBoolean l \<and> expr_ok fns ts TBoolean r \<and> t = TBoolean \<and> u = TBoolean"
  by (cases opr) (auto simp: expr_ok_def fits_def)

text \<open>The simplified operator has the value of the operator on the simplified operands.\<close>

lemma simplify_logic:
  assumes reg: "registry_typed fns" and l: "expr_ok fns ts TBoolean (fst l)" and r: "expr_ok fns ts TBoolean (fst r)"
  shows "expr_ok fns ts TBoolean (fst (simplify_and l r TBoolean s))"
    and "expr_ok fns ts TBoolean (fst (simplify_or l r TBoolean s))"
    and "row_typed ts x \<Longrightarrow> value_of fns (fst (simplify_and l r TBoolean s)) x
      = value_of fns (BBinaryOp And (fst l) (fst r) TBoolean s) x"
    and "row_typed ts x \<Longrightarrow> value_of fns (fst (simplify_or l r TBoolean s)) x
      = value_of fns (BBinaryOp Or (fst l) (fst r) TBoolean s) x"
proof -
  show "expr_ok fns ts TBoolean (fst (simplify_and l r TBoolean s))"
    "expr_ok fns ts TBoolean (fst (simplify_or l r TBoolean s))"
    using l r by (auto simp: simplify_and_def simplify_or_def expr_ok_logic)
  assume x: "row_typed ts x"
  obtain a where a: "value_of fns (fst l) x = tri_to_value a" by (rule boolean_value [OF reg x l])
  obtain b where b: "value_of fns (fst r) x = tri_to_value b" by (rule boolean_value [OF reg x r])
  have lit: "bool_literal (fst l) = Some c \<Longrightarrow> a = (if c then TriTrue else TriFalse)"
    "bool_literal (fst r) = Some c \<Longrightarrow> b = (if c then TriTrue else TriFalse)" for c
    using bool_literal_value [of "fst l" c fns x] bool_literal_value [of "fst r" c fns x]
    by (simp_all add: a b tri_to_value_eq)
  show "value_of fns (fst (simplify_and l r TBoolean s)) x = value_of fns (BBinaryOp And (fst l) (fst r) TBoolean s) x"
    unfolding logic_values(1) [OF a b] simplify_and_def
    by (cases a; cases b) (auto simp: a b logic_values(1) [OF a b] simp del: value_of.simps dest!: lit)
  show "value_of fns (fst (simplify_or l r TBoolean s)) x = value_of fns (BBinaryOp Or (fst l) (fst r) TBoolean s) x"
    unfolding logic_values(2) [OF a b] simplify_or_def
    by (cases a; cases b) (auto simp: a b logic_values(2) [OF a b] simp del: value_of.simps dest!: lit)
qed

lemma simplify_not:
  assumes reg: "registry_typed fns" and e: "expr_ok fns ts TBoolean (fst e)"
  shows "expr_ok fns ts TBoolean (fst (simplify_not e TBoolean s))
    \<and> (row_typed ts x \<longrightarrow> value_of fns (fst (simplify_not e TBoolean s)) x = value_of fns (BUnaryOp Not (fst e) TBoolean s) x)"
proof (cases "bool_literal (fst e)")
  case (Some b)
  from bool_literal_value [OF this, of fns x]
  have "value_of fns (BUnaryOp Not (fst e) TBoolean s) x = VBoolean (\<not> b)"
    using logic_values(3) [of fns "fst e" x "if b then TriTrue else TriFalse"] by (cases b) auto
  with Some show ?thesis by (simp add: simplify_not_def expr_ok_def fits_def)
next
  case None
  show ?thesis
  proof (cases "\<exists>inner t' s'. fst e = BUnaryOp Not inner t' s'")
    case True
    then obtain inner t' s' where i: "fst e = BUnaryOp Not inner t' s'" by blast
    have ok: "expr_ok fns ts TBoolean inner" using e by (simp add: i expr_ok_def unary_hint_def)
    have "value_of fns inner x = value_of fns (BUnaryOp Not (fst e) TBoolean s) x" if x: "row_typed ts x"
    proof -
      obtain a where a: "value_of fns inner x = tri_to_value a" by (rule boolean_value [OF reg x ok])
      have "value_of fns (fst e) x = tri_to_value (tri_not a)" unfolding i by (rule logic_values(3) [OF a a])
      from logic_values(3) [OF this a] show ?thesis by (cases a) (simp_all add: a del: value_of.simps)
    qed
    with ok None show ?thesis by (simp add: simplify_not_def i)
  next
    case False
    then have "simplify_not e TBoolean s = (BUnaryOp Not (fst e) TBoolean s, snd e)"
      using None by (auto simp: simplify_not_def split: bound_expr.splits unary_operator.splits)
    with e show ?thesis by (simp add: expr_ok_def unary_hint_def fits_def)
  qed
qed

lemma simplifies_to_boolean:
  assumes "bound_type e = Some TBoolean" "expr_ok fns ts TBoolean e'"
    and "\<And>x. row_typed ts x \<Longrightarrow> value_of fns e' x = value_of fns e x"
  shows "simplifies_to fns ts e e'"
  using assms by (auto simp: simplifies_to_def expr_ok_def fits_def)

lemma simplifies_to_ok: "simplifies_to fns ts e e' \<Longrightarrow> expr_ok fns ts t e \<Longrightarrow> expr_ok fns ts t e'"
  by (auto simp: simplifies_to_def expr_ok_def fits_def)

lemma simplify_expr_ok:
  assumes reg: "registry_typed fns"
  shows "well_typed fns (type_columns ts) e \<Longrightarrow> closed_expr e \<Longrightarrow> simplifies_to fns ts e (fst (simplify_expr e))"
proof (induction e rule: simplify_expr.induct)
  case (1 opr l r t s)
  then have l: "simplifies_to fns ts l (fst (simplify_expr l))" and r: "simplifies_to fns ts r (fst (simplify_expr r))"
    by (cases opr; simp)+
  show ?case
  proof (cases "logic_op opr")
    case True
    then have ok: "expr_ok fns ts TBoolean l" "expr_ok fns ts TBoolean r" "t = TBoolean"
      using "1.prems" expr_ok_logic [OF True, of fns ts TBoolean l r t s] logic_not_arith [OF True]
      by (auto simp: expr_ok_def fits_def)
    note ok' = simplifies_to_ok [OF l ok(1)] simplifies_to_ok [OF r ok(2)]
    note simp = simplify_logic [OF reg ok', where s = s]
    have vals: "value_of fns (BBinaryOp opr (fst (simplify_expr l)) (fst (simplify_expr r)) TBoolean s) x
      = value_of fns (BBinaryOp opr l r TBoolean s) x" if "row_typed ts x" for x
      using l r that by (simp add: simplifies_to_def)
    show ?thesis
    proof (rule simplifies_to_boolean)
      show "bound_type (BBinaryOp opr l r t s) = Some TBoolean" by (simp add: ok(3))
      show "expr_ok fns ts TBoolean (fst (simplify_expr (BBinaryOp opr l r t s)))"
        using True simp(1,2) by (cases opr) (auto simp: ok(3))
      show "value_of fns (fst (simplify_expr (BBinaryOp opr l r t s))) x = value_of fns (BBinaryOp opr l r t s) x"
        if "row_typed ts x" for x
        using True simp(3,4) [OF that] vals [OF that]
        by (cases opr) (simp_all add: ok(3) del: value_of.simps)
    qed
  next
    case False
    then have "simplify_expr (BBinaryOp opr l r t s) = (BBinaryOp opr (fst (simplify_expr l)) (fst (simplify_expr r)) t s,
        snd (simplify_expr l) \<or> snd (simplify_expr r))"
      by (cases opr) simp_all
    then show ?thesis using l r "1.prems" False
      by (auto simp: simplifies_to_def fits_def)
  qed
next
  case (2 opr e t s)
  then have e: "simplifies_to fns ts e (fst (simplify_expr e))" by (cases opr) simp_all
  show ?case
  proof (cases opr)
    case Not
    have ok: "expr_ok fns ts TBoolean e" "t = TBoolean" using "2.prems" by (simp_all add: Not expr_ok_def unary_hint_def)
    note simp = simplify_not [OF reg simplifies_to_ok [OF e ok(1)], of s]
    show ?thesis
      by (rule simplifies_to_boolean)
        (use simp e in \<open>simp_all add: Not ok(2) simplifies_to_def\<close>)
  next
    case Negate
    then show ?thesis using e "2.prems" by (auto simp: simplifies_to_def fits_def)
  qed
next
  case (4 name args t s)
  then have args: "list_all2 (simplifies_to fns ts) args (map (\<lambda>a. fst (simplify_expr a)) args)"
    by (auto simp: list.rel_map list_all_iff intro!: list.rel_refl_strong)
  have "list_all (well_typed fns (type_columns ts)) bs \<and> list_all closed_expr bs
      \<and> (list_all2 fits us (map bound_type as) \<longrightarrow> list_all2 fits us (map bound_type bs))
      \<and> (\<forall>x. row_typed ts x \<longrightarrow> map (\<lambda>a. value_of fns a x) bs = map (\<lambda>a. value_of fns a x) as)"
    if "list_all2 (simplifies_to fns ts) as bs" for as bs us
    using that
    by (induction arbitrary: us rule: list_all2_induct) (auto simp: simplifies_to_def list_all2_Cons2 fits_def)
  from this [OF args] show ?case using "4.prems" unfolding simplifies_to_def
    by (simp add: comp_def cong: map_cong split: option.splits)
qed (auto simp: simplifies_to_def)

lemma simplify_expr_rewrite: "registry_typed fns \<Longrightarrow> expr_rewrite fns (\<lambda>e. Ok (simplify_expr e))"
  unfolding expr_rewrite_def expr_equiv_def
  using simplify_expr_ok simplifies_to_ok by (fastforce simp: expr_ok_def simplifies_to_def)

subsection \<open>Conjunctions\<close>

lemma expr_ok_And:
  "expr_ok fns ts t (BBinaryOp And l r u s) \<longleftrightarrow>
     expr_ok fns ts TBoolean l \<and> expr_ok fns ts TBoolean r \<and> t = TBoolean \<and> u = TBoolean"
  by (simp add: expr_ok_logic)

lemma expr_ok_BParen [simp]: "expr_ok fns ts t (BParen e s) \<longleftrightarrow> expr_ok fns ts t e"
  by (simp add: expr_ok_def)

lemma holds_And:
  assumes "registry_typed fns" "row_typed ts x" "expr_ok fns ts TBoolean l" "expr_ok fns ts TBoolean r"
  shows "holds fns (BBinaryOp And l r t s) x \<longleftrightarrow> holds fns l x \<and> holds fns r x"
proof -
  obtain a where a: "value_of fns l x = tri_to_value a" by (rule boolean_value [OF assms(1,2,3)])
  obtain b where b: "value_of fns r x = tri_to_value b" by (rule boolean_value [OF assms(1,2,4)])
  show ?thesis unfolding holds_def logic_values(1) [OF a b] a b by (cases a; cases b) simp_all
qed

lemma collect_conjuncts_ok:
  "expr_ok fns ts TBoolean e \<Longrightarrow> list_all (expr_ok fns ts TBoolean) (collect_conjuncts e)"
  by (induction e rule: collect_conjuncts.induct) (auto simp: expr_ok_And)

lemma collect_conjuncts_holds:
  assumes "registry_typed fns" "row_typed ts x"
  shows "expr_ok fns ts TBoolean e \<Longrightarrow> holds fns e x \<longleftrightarrow> list_all (\<lambda>c. holds fns c x) (collect_conjuncts e)"
proof (induction e rule: collect_conjuncts.induct)
  case (1 e s)
  then show ?case by (simp add: holds_def)
next
  case (2 l r t s)
  then show ?case by (simp add: expr_ok_And holds_And [OF assms])
qed simp_all

lemma rebuild_conjunction_ok:
  assumes "registry_typed fns"
  shows "list_all (expr_ok fns ts TBoolean) (e # es) \<Longrightarrow>
    \<exists>c. rebuild_conjunction (e # es) = Some c \<and> expr_ok fns ts TBoolean c
      \<and> (\<forall>x. row_typed ts x \<longrightarrow> holds fns c x = list_all (\<lambda>c. holds fns c x) (e # es))"
proof (induction es arbitrary: e)
  case (Cons e' es)
  then have ok: "expr_ok fns ts TBoolean e" "expr_ok fns ts TBoolean e'" by simp_all
  then have "list_all (expr_ok fns ts TBoolean) (conjoin e e' # es)" using Cons.prems by (simp add: conjoin_def expr_ok_And)
  from Cons.IH [OF this] show ?case
    using holds_And [OF assms _ ok] by (auto simp: rebuild_conjunction_def conjoin_def)
qed (simp add: rebuild_conjunction_def)

text \<open>A filter over a list of predicates keeps the rows on which all of them hold.\<close>

lemma filter_over_typed:
  assumes "registry_typed fns" "plan_typed fns db p ts" "list_all (expr_ok fns ts TBoolean) es"
  shows "plan_typed fns db (filter_over es p) ts"
    and "query_rows fns db (filter_over es p) = filter (\<lambda>x. list_all (\<lambda>c. holds fns c x) es) (query_rows fns db p)"
proof -
  have "plan_typed fns db (filter_over es p) ts
    \<and> query_rows fns db (filter_over es p) = filter (\<lambda>x. list_all (\<lambda>c. holds fns c x) es) (query_rows fns db p)"
  proof (cases es)
    case Nil
    then show ?thesis using assms(2) by (simp add: filter_over_def rebuild_conjunction_def)
  next
    case (Cons e es')
    from rebuild_conjunction_ok [OF assms(1) assms(3) [unfolded Cons]] obtain c
      where c: "rebuild_conjunction es = Some c" "expr_ok fns ts TBoolean c"
        "\<forall>x. row_typed ts x \<longrightarrow> holds fns c x = list_all (\<lambda>c. holds fns c x) es"
      unfolding Cons by blast
    from query_rows_typed [OF assms(1,2)] c(3)
    have "filter (holds fns c) (query_rows fns db p) = filter (\<lambda>x. list_all (\<lambda>c. holds fns c x) es) (query_rows fns db p)"
      by (intro filter_cong) (auto simp: list_all_iff)
    then show ?thesis using plan_typed.filter [OF assms(2) c(2)] by (simp add: filter_over_def c(1))
  qed
  then show "plan_typed fns db (filter_over es p) ts"
    and "query_rows fns db (filter_over es p) = filter (\<lambda>x. list_all (\<lambda>c. holds fns c x) es) (query_rows fns db p)" by auto
qed

subsection \<open>Merging filters\<close>

lemma filter_chain_ok:
  assumes "plan_typed fns db p ts"
  shows "case filter_chain p of (es, rest) \<Rightarrow>
    plan_typed fns db rest ts \<and> list_all (expr_ok fns ts TBoolean) es
    \<and> query_rows fns db p = filter (\<lambda>x. list_all (\<lambda>c. holds fns c x) es) (query_rows fns db rest)"
  using assms
  by (induction p rule: filter_chain.induct) (auto elim!: plan_typed_filterE split: prod.splits simp: conj_commute)

text \<open>Rules that only descend into the children.\<close>

lemma map_plan_children_sound:
  assumes "plan_typed fns db p ts"
    and "\<And>q us. plan_nodes q < plan_nodes p \<Longrightarrow> plan_typed fns db q us \<Longrightarrow>
      \<exists>r. f q = Ok r \<and> plan_equiv fns db us q (fst r)"
  shows "\<exists>r. map_plan_children f p = Ok r \<and> plan_equiv fns db ts p (fst r)"
  using assms(1)
proof (cases rule: plan_typed.cases)
  case (join l us r vs e k)
  then obtain ql qr where "f l = Ok ql" "plan_equiv fns db us l (fst ql)" "f r = Ok qr" "plan_equiv fns db vs r (fst qr)"
    using assms(2) [of l us] assms(2) [of r vs] by auto
  with join show ?thesis by (cases ql; cases qr) (auto simp: plan_equiv_def intro: plan_typed.join)
next
  case (filter q e)
  with assms(2) [of q ts] obtain r where "f q = Ok r" "plan_equiv fns db ts q (fst r)" by auto
  with filter show ?thesis by (cases r) (auto simp: plan_equiv_def intro: plan_typed.filter)
next
  case (aggregate q us gts gs cts cs s)
  with assms(2) [of q us] obtain r where "f q = Ok r" "plan_equiv fns db us q (fst r)" by auto
  with aggregate show ?thesis by (cases r) (auto simp: plan_equiv_def intro: plan_typed.aggregate)
next
  case (projection q us items)
  with assms(2) [of q us] obtain r where "f q = Ok r" "plan_equiv fns db us q (fst r)" by auto
  with projection show ?thesis by (cases r) (auto simp: plan_equiv_def intro: plan_typed.projection)
next
  case (distinct q)
  with assms(2) [of q ts] obtain r where "f q = Ok r" "plan_equiv fns db ts q (fst r)" by auto
  with distinct show ?thesis by (cases r) (auto simp: plan_equiv_def intro: plan_typed.distinct)
next
  case (sort q ks)
  with assms(2) [of q ts] obtain r where "f q = Ok r" "plan_equiv fns db ts q (fst r)" by auto
  with sort show ?thesis by (cases r) (auto simp: plan_equiv_def intro: plan_typed.sort)
next
  case (limit q n k)
  with assms(2) [of q ts] obtain r where "f q = Ok r" "plan_equiv fns db ts q (fst r)" by auto
  with limit show ?thesis by (cases r) (auto simp: plan_equiv_def intro: plan_typed.limit)
qed (use assms(1) in \<open>auto simp: plan_equiv_def\<close>)

lemma merge_filters_sound:
  assumes reg: "registry_typed fns"
  shows "plan_typed fns db p ts \<Longrightarrow> \<exists>r. merge_filters p = Ok r \<and> plan_equiv fns db ts p (fst r)"
proof (induction p arbitrary: ts rule: measure_induct_rule [of plan_nodes])
  case (less p)
  show ?case
  proof (cases "\<exists>q e. p = LFilter q e")
    case True
    then obtain q e where p: "p = LFilter q e" by blast
    obtain es rest where chain: "filter_chain q = (es, rest)" by fastforce
    from less.prems have q: "plan_typed fns db q ts" "expr_ok fns ts TBoolean e" by (auto simp: p elim: plan_typed_filterE)
    from filter_chain_ok [OF q(1)] have rest: "plan_typed fns db rest ts" "list_all (expr_ok fns ts TBoolean) es"
      and rows: "query_rows fns db q = filter (\<lambda>x. list_all (\<lambda>c. holds fns c x) es) (query_rows fns db rest)"
      by (simp_all add: chain)
    have "plan_nodes rest < plan_nodes p" using filter_chain_nodes [of q] by (simp add: p chain)
    from less.IH [OF this rest(1)] obtain r where r: "merge_filters rest = Ok r" "plan_equiv fns db ts rest (fst r)" by blast
    obtain c cs where c: "rev (e # es) = c # cs" by (cases "rev (e # es)") auto
    have "list_all (expr_ok fns ts TBoolean) (c # cs)" unfolding c [symmetric] using q(2) rest(2) by simp
    from filter_over_typed [OF reg _ this] r(2)
    have "plan_equiv fns db ts p (filter_over (rev (e # es)) (fst r))"
      unfolding c [symmetric]
      by (auto simp: plan_equiv_def p rows conj_commute intro!: filter_cong)
    moreover obtain d where "rebuild_conjunction (rev (e # es)) = Some d"
      using rebuild_conjunction_ok [OF reg \<open>list_all _ (c # cs)\<close>] unfolding c [symmetric] by blast
    ultimately show ?thesis by (cases r) (auto simp: p chain r(1) filter_over_def)
  next
    case False
    then have "merge_filters p = map_plan_children merge_filters p" by (cases p) auto
    with map_plan_children_sound [OF less.prems less.IH] show ?thesis by simp
  qed
qed

subsection \<open>Renumbering columns\<close>

text \<open>
  A map from old to new column positions that keeps the types, and the rows that agree along it.
\<close>

definition typed_map :: "(nat \<rightharpoonup> nat) \<Rightarrow> data_type list \<Rightarrow> data_type list \<Rightarrow> bool" where
  "typed_map m ts us \<longleftrightarrow> (\<forall>i j. m i = Some j \<longrightarrow> i < length ts \<and> j < length us \<and> us ! j = ts ! i)"

definition rows_agree :: "(nat \<rightharpoonup> nat) \<Rightarrow> tuple \<Rightarrow> tuple \<Rightarrow> bool" where
  "rows_agree m x y \<longleftrightarrow> (\<forall>i j. m i = Some j \<longrightarrow> tuple_get y j = tuple_get x i)"

definition remaps_to ::
  "function_registry \<Rightarrow> (nat \<rightharpoonup> nat) \<Rightarrow> data_type list \<Rightarrow> bound_expr \<Rightarrow> bound_expr \<Rightarrow> bool" where
  "remaps_to fns m us e e' \<longleftrightarrow>
     well_typed fns (type_columns us) e' \<and> closed_expr e' \<and> bound_type e' = bound_type e
     \<and> (\<forall>x y. rows_agree m x y \<longrightarrow> value_of fns e' y = value_of fns e x)"

lemma collect_columns_bound:
  "well_typed fns cols e \<Longrightarrow> closed_expr e \<Longrightarrow> collect_columns e \<subseteq> {..<length cols}"
  by (induction e rule: collect_columns.induct) (auto simp: list_all_iff subset_iff)

lemma remaps_to_args:
  assumes "list_all2 (remaps_to fns m us) args args'"
  shows "list_all (well_typed fns (type_columns us)) args'" "list_all closed_expr args'"
    "map bound_type args' = map bound_type args"
    "rows_agree m x y \<Longrightarrow> map (\<lambda>a. value_of fns a y) args' = map (\<lambda>a. value_of fns a x) args"
  using assms by (induction rule: list_all2_induct) (auto simp: remaps_to_def)

lemma remap_expr_ok:
  assumes m: "typed_map m ts us"
  shows "well_typed fns (type_columns ts) e \<Longrightarrow> closed_expr e \<Longrightarrow> collect_columns e \<subseteq> dom m \<Longrightarrow>
    \<exists>e'. remap_expr m e = Ok e' \<and> remaps_to fns m us e e'"
proof (induction e)
  case (BColumnRef k i n t s)
  then obtain j where j: "m i = Some j" by auto
  with m have "j < length us" "us ! j = ts ! i" by (auto simp: typed_map_def)
  with j BColumnRef show ?case by (auto simp: remaps_to_def rows_agree_def)
next
  case (BUnaryOp opr e t s)
  then obtain e' where e: "remap_expr m e = Ok e'" "remaps_to fns m us e e'" by auto
  then show ?case using BUnaryOp.prems by (auto simp: remaps_to_def)
next
  case (BBinaryOp opr l r t s)
  then obtain l' r' where l: "remap_expr m l = Ok l'" "remaps_to fns m us l l'"
    and r: "remap_expr m r = Ok r'" "remaps_to fns m us r r'" by auto
  then show ?case using BBinaryOp.prems by (simp add: remaps_to_def)
next
  case (BIsNull e n s)
  then obtain e' where e: "remap_expr m e = Ok e'" "remaps_to fns m us e e'" by auto
  then show ?case using BIsNull.prems by (auto simp: remaps_to_def)
next
  case (BFunctionCall name args t s)
  then have "\<forall>a \<in> set args. \<exists>a'. remap_expr m a = Ok a' \<and> remaps_to fns m us a a'"
    by (simp add: list_all_iff UN_subset_iff)
  from map_outcome_ex [OF this] obtain args' where a: "map_outcome (remap_expr m) args = Ok args'" "list_all2 (remaps_to fns m us) args args'"
    by blast
  have "remaps_to fns m us (BFunctionCall name args t s) (BFunctionCall name args' t s)"
    unfolding remaps_to_def well_typed.simps closed_expr.simps bound_type.simps value_of.simps
    using BFunctionCall.prems(1) remaps_to_args [OF a(2)]
    by (simp only: well_typed.simps closed_expr.simps simp_thms cong: option.case_cong) simp
  then show ?case by (simp add: a(1))
next
  case (BParen e s)
  then obtain e' where e: "remap_expr m e = Ok e'" "remaps_to fns m us e e'" by auto
  then show ?case using BParen.prems by (auto simp: remaps_to_def)
next
  case (BCast e t s)
  then obtain e' where e: "remap_expr m e = Ok e'" "remaps_to fns m us e e'" by auto
  then show ?case using BCast.prems by (auto simp: remaps_to_def)
qed (auto simp: remaps_to_def)

lemma remap_expr_typed:
  assumes "typed_map m ts us" "expr_ok fns ts t e" "collect_columns e \<subseteq> dom m"
  shows "\<exists>e'. remap_expr m e = Ok e' \<and> expr_ok fns us t e'
    \<and> (\<forall>x y. rows_agree m x y \<longrightarrow> value_of fns e' y = value_of fns e x)"
  using remap_expr_ok [OF assms(1), of fns e] assms(2,3) by (auto simp: expr_ok_def remaps_to_def)

lemma remap_identity: "(\<And>i. i \<in> collect_columns e \<Longrightarrow> m i = Some i) \<Longrightarrow> remap_expr m e = Ok e"
proof (induction e)
  case (BFunctionCall name args t s)
  then have "map_outcome (remap_expr m) args = Ok (map id args)" by (intro map_outcome_all_Ok) auto
  then show ?case by simp
next
  case (BAggregate func arg t s)
  then show ?case by (cases arg) auto
qed auto

lemma remap_expr_cong: "(\<And>i. i \<in> collect_columns e \<Longrightarrow> m i = m' i) \<Longrightarrow> remap_expr m e = remap_expr m' e"
proof (induction e)
  case (BFunctionCall name args t s)
  then have "map_outcome (remap_expr m) args = map_outcome (remap_expr m') args" by (intro map_outcome_cong) auto
  then show ?case by simp
next
  case (BAggregate func arg t s)
  then show ?case by (cases arg) auto
qed auto

lemma shift_is_remap:
  "closed_expr e \<Longrightarrow> shift_column_index e d = remap_expr (\<lambda>i. if d \<le> i then Some (i - d) else None) e"
proof (induction e)
  case (BFunctionCall name args t s)
  then have "map_outcome (\<lambda>e. shift_column_index e d) args
    = map_outcome (remap_expr (\<lambda>i. if d \<le> i then Some (i - d) else None)) args"
    by (intro map_outcome_cong) (auto simp: list_all_iff)
  then show ?case by simp
qed (auto intro!: and_then_cong)

subsection \<open>Predicate pushdown\<close>

lemma column_side_sound:
  "collect_column_side e n side = (True, side') \<Longrightarrow>
     (side \<noteq> None \<longrightarrow> side' = side)
     \<and> (\<forall>i \<in> collect_columns e. side' = Some (if i < n then LeftSide else RightSide))"
  "collect_args_side es n side = (True, side') \<Longrightarrow>
     (side \<noteq> None \<longrightarrow> side' = side)
     \<and> (\<forall>e \<in> set es. \<forall>i \<in> collect_columns e. side' = Some (if i < n then LeftSide else RightSide))"
proof (induction e n side and es n side arbitrary: side' and side' rule: collect_column_side_collect_args_side.induct)
  case (5 opr l r t s n side)
  then obtain s1 where s1: "collect_column_side l n side = (True, s1)" "collect_column_side r n s1 = (True, side')"
    by (auto split: prod.splits bool.splits)
  have "(s1 \<noteq> None \<longrightarrow> side' = s1) \<and> (\<forall>i \<in> collect_columns r. side' = Some (if i < n then LeftSide else RightSide))"
    by (rule "5.IH"(2)) (use s1 in simp_all)
  with "5.IH"(1) [OF s1(1)] show ?case by auto
next
  case (11 e es n side)
  then obtain s1 where s1: "collect_column_side e n side = (True, s1)" "collect_args_side es n s1 = (True, side')"
    by (auto split: prod.splits bool.splits)
  have "(s1 \<noteq> None \<longrightarrow> side' = s1)
      \<and> (\<forall>e \<in> set es. \<forall>i \<in> collect_columns e. side' = Some (if i < n then LeftSide else RightSide))"
    by (rule "11.IH"(2)) (use s1 in simp_all)
  with "11.IH"(1) [OF s1(1)] show ?case by auto
qed (auto simp: Let_def split: option.splits if_splits)

lemma columns_side_sound:
  "columns_side e n = Some LeftSide \<Longrightarrow> i \<in> collect_columns e \<Longrightarrow> i < n"
  "columns_side e n = Some RightSide \<Longrightarrow> i \<in> collect_columns e \<Longrightarrow> n \<le> i"
  using column_side_sound(1) [of e n None]
  by (fastforce simp: columns_side_def split: prod.splits bool.splits if_splits)+

definition left_map :: "nat \<Rightarrow> nat \<rightharpoonup> nat" where
  "left_map n = (\<lambda>i. if i < n then Some i else None)"

definition right_map :: "nat \<Rightarrow> nat \<Rightarrow> nat \<rightharpoonup> nat" where
  "right_map n k = (\<lambda>i. if n \<le> i \<and> i < n + k then Some (i - n) else None)"

lemma side_maps_typed:
  "typed_map (left_map (length ts)) (ts @ us) ts"
  "typed_map (right_map (length ts) (length us)) (ts @ us) us"
  by (auto simp: typed_map_def left_map_def right_map_def nth_append split: if_splits)

lemma side_maps_agree:
  assumes "row_typed ts x" "row_typed us y"
  shows "rows_agree (left_map (length ts)) (join_tuple x y) x"
    and "rows_agree (right_map (length ts) (length us)) (join_tuple x y) y"
  using row_typed_length [OF assms(1)] row_typed_length [OF assms(2)]
  by (auto simp: rows_agree_def left_map_def right_map_def join_tuple_def tuple_of_def tuple_get_def get_at_def
      nth_append split: if_splits)

lemma left_predicate:
  assumes "expr_ok fns (ts @ us) t e" "columns_side e (length ts) = Some LeftSide"
  shows "expr_ok fns ts t e"
    and "row_typed ts x \<Longrightarrow> row_typed us y \<Longrightarrow> value_of fns e (join_tuple x y) = value_of fns e x"
proof -
  note cols = columns_side_sound(1) [OF assms(2)]
  have dom: "collect_columns e \<subseteq> dom (left_map (length ts))" using cols by (auto simp: left_map_def)
  have id: "remap_expr (left_map (length ts)) e = Ok e" by (rule remap_identity) (simp add: left_map_def cols)
  from remap_expr_typed [OF side_maps_typed(1) assms(1) dom] id
  have ok: "expr_ok fns ts t e" "\<And>x y. rows_agree (left_map (length ts)) x y \<Longrightarrow> value_of fns e y = value_of fns e x"
    by auto
  show "expr_ok fns ts t e" by (rule ok)
  show "value_of fns e (join_tuple x y) = value_of fns e x" if "row_typed ts x" "row_typed us y"
    using ok(2) [OF side_maps_agree(1) [OF that]] by simp
qed

lemma right_predicate:
  assumes "expr_ok fns (ts @ us) t e" "columns_side e (length ts) = Some RightSide"
  shows "\<exists>e'. shift_column_index e (length ts) = Ok e' \<and> expr_ok fns us t e'
    \<and> (\<forall>x y. row_typed ts x \<and> row_typed us y \<longrightarrow> value_of fns e (join_tuple x y) = value_of fns e' y)"
proof -
  let ?m = "right_map (length ts) (length us)"
  note cols = columns_side_sound(2) [OF assms(2)]
  have typed: "well_typed fns (type_columns (ts @ us)) e" "closed_expr e" using assms(1) by (simp_all add: expr_ok_def)
  have dom: "collect_columns e \<subseteq> dom ?m"
    using cols collect_columns_bound [OF typed] by (force simp: right_map_def)
  have "remap_expr (\<lambda>i. if length ts \<le> i then Some (i - length ts) else None) e = remap_expr ?m e"
    using dom by (intro remap_expr_cong) (auto simp: right_map_def split: if_splits)
  then have "shift_column_index e (length ts) = remap_expr ?m e" by (simp add: shift_is_remap typed(2))
  with remap_expr_typed [OF side_maps_typed(2) assms(1) dom] side_maps_agree(2) show ?thesis by metis
qed

lemma filter_pairs:
  assumes "\<And>x y. x \<in> set xs \<Longrightarrow> y \<in> set ys \<Longrightarrow> S (f x y) \<longleftrightarrow> P x \<and> Q y"
  shows "filter S (concat (map (\<lambda>x. map (f x) ys) xs)) = concat (map (\<lambda>x. map (f x) (filter Q ys)) (filter P xs))"
  using assms
proof (induction xs)
  case (Cons x xs)
  have "filter S (map (f x) ys) = (if P x then map (f x) (filter Q ys) else [])"
    using Cons.prems [of x] by (auto simp: filter_map comp_def intro!: arg_cong [where f = "map (f x)"] filter_cong)
  with Cons show ?case by simp
qed simp

text \<open>One step: the conjuncts of a filter over a join go to the sides they read.\<close>

lemma pushdown_join:
  assumes reg: "registry_typed fns" and typed: "plan_typed fns db (LFilter (LJoin l r k c) e) ts"
    and IH: "\<And>q us. plan_nodes q < Suc (Suc (plan_nodes l + plan_nodes r)) \<Longrightarrow> plan_typed fns db q us \<Longrightarrow>
      \<exists>r. pushdown_plan q = Ok r \<and> plan_equiv fns db us q (fst r)"
  shows "\<exists>q. pushdown_plan (LFilter (LJoin l r k c) e) = Ok q \<and> plan_equiv fns db ts (LFilter (LJoin l r k c) e) (fst q)"
proof -
  from typed obtain ls us where ts: "ts = ls @ us" and l: "plan_typed fns db l ls" and r: "plan_typed fns db r us"
    and c: "expr_ok fns (ls @ us) TBoolean c" and e: "expr_ok fns (ls @ us) TBoolean e"
    by (auto elim!: plan_typed_filterE plan_typed_joinE)
  from plan_schema [OF l] obtain s where s: "output_schema l = Ok s" "schema_len s = length ls"
    by (auto simp: schema_len_def)
  let ?n = "length ls" let ?cs = "collect_conjuncts e"
  let ?left = "filter (\<lambda>x. columns_side x ?n = Some LeftSide) ?cs"
  let ?right = "filter (\<lambda>x. columns_side x ?n = Some RightSide) ?cs"
  let ?res = "filter (\<lambda>x. columns_side x ?n = None) ?cs"
  have cs: "expr_ok fns (ls @ us) TBoolean x" if "x \<in> set ?cs" for x
    using collect_conjuncts_ok [OF e] that by (simp add: list_all_iff)
  have left: "list_all (expr_ok fns ls TBoolean) ?left"
    using left_predicate(1) cs by (force simp: list_all_iff)
  have "\<forall>x \<in> set ?right. \<exists>x'. shift_column_index x ?n = Ok x' \<and> (expr_ok fns us TBoolean x'
      \<and> (\<forall>a b. row_typed ls a \<and> row_typed us b \<longrightarrow> value_of fns x (join_tuple a b) = value_of fns x' b))"
    using right_predicate cs by auto
  from map_outcome_ex [OF this] obtain rs where rs: "map_outcome (\<lambda>x. shift_column_index x ?n) ?right = Ok rs"
    "list_all2 (\<lambda>x x'. expr_ok fns us TBoolean x'
      \<and> (\<forall>a b. row_typed ls a \<and> row_typed us b \<longrightarrow> value_of fns x (join_tuple a b) = value_of fns x' b)) ?right rs"
    by blast
  have right: "list_all (expr_ok fns us TBoolean) rs"
    using rs(2) by (auto simp: list_all_length list_all2_conv_all_nth)
  note fl = filter_over_typed [OF reg l left] and fr = filter_over_typed [OF reg r right]
  obtain l' where l': "pushdown_plan (filter_over ?left l) = Ok l'" "plan_equiv fns db ls (filter_over ?left l) (fst l')"
    using IH [OF _ fl(1)] filter_over_nodes [of ?left l] by auto
  obtain r' where r': "pushdown_plan (filter_over rs r) = Ok r'" "plan_equiv fns db us (filter_over rs r) (fst r')"
    using IH [OF _ fr(1)] filter_over_nodes [of rs r] by auto
  let ?L = "query_rows fns db l" let ?R = "query_rows fns db r"
  have rows: "row_typed ls x" "row_typed us y" if "x \<in> set ?L" "y \<in> set ?R" for x y
    using query_rows_typed [OF reg l] query_rows_typed [OF reg r] that by (auto simp: list_all_iff)
  have left_holds: "list_all (\<lambda>q. holds fns q (join_tuple x y)) ?left \<longleftrightarrow> list_all (\<lambda>q. holds fns q x) ?left"
    if "x \<in> set ?L" "y \<in> set ?R" for x y
    using left_predicate(2) [OF cs _ rows [OF that]] by (auto simp: list_all_iff holds_def)
  have right_holds: "list_all (\<lambda>q. holds fns q (join_tuple x y)) ?right \<longleftrightarrow> list_all (\<lambda>q. holds fns q y) rs"
    if "x \<in> set ?L" "y \<in> set ?R" for x y
    using rs(2) rows [OF that] by (induction rule: list_all2_induct) (auto simp: holds_def)
  have e_holds: "holds fns e t \<longleftrightarrow> list_all (\<lambda>q. holds fns q t) ?res
      \<and> list_all (\<lambda>q. holds fns q t) ?left \<and> list_all (\<lambda>q. holds fns q t) ?right" if "row_typed (ls @ us) t" for t
    unfolding collect_conjuncts_holds [OF reg that e] by (auto simp: list_all_iff) (metis side.exhaust not_None_eq)
  let ?join = "LJoin (fst l') (fst r') k c"
  have join: "plan_typed fns db ?join ts" using l'(2) r'(2) c by (auto simp: plan_equiv_def ts intro: plan_typed.join)
  have res: "list_all (expr_ok fns ts TBoolean) ?res" using cs by (auto simp: list_all_iff ts)
  let ?pairs = "concat (map (\<lambda>x. map (join_tuple x) ?R) ?L)"
  let ?S = "\<lambda>t. list_all (\<lambda>q. holds fns q t) ?left \<and> list_all (\<lambda>q. holds fns q t) ?right"
  have "filter ?S ?pairs = concat (map (\<lambda>x. map (join_tuple x) (filter (\<lambda>y. list_all (\<lambda>q. holds fns q y) rs) ?R))
      (filter (\<lambda>x. list_all (\<lambda>q. holds fns q x) ?left) ?L))"
    by (rule filter_pairs) (use left_holds right_holds in blast)
  then have "query_rows fns db ?join = filter (holds fns c) (filter ?S ?pairs)"
    using l'(2) r'(2) fl(2) fr(2) by (simp add: plan_equiv_def del: filter_filter)
  moreover have "row_typed (ls @ us) t" if "t \<in> set ?pairs" for t
    using that rows by (auto intro: row_typed_join)
  then have "filter (\<lambda>t. list_all (\<lambda>q. holds fns q t) ?res) (filter (holds fns c) (filter ?S ?pairs))
      = filter (holds fns e) (filter (holds fns c) ?pairs)"
    unfolding filter_filter by (intro filter_cong) (auto simp: e_holds)
  ultimately have "plan_equiv fns db ts (LFilter (LJoin l r k c) e) (filter_over ?res ?join)"
    using filter_over_typed [OF reg join res] by (simp add: plan_equiv_def)
  then show ?thesis using s rs(1) l'(1) r'(1) by (cases l'; cases r') (simp add: Let_def)
qed

lemma pushdown_sound:
  assumes reg: "registry_typed fns"
  shows "plan_typed fns db p ts \<Longrightarrow> \<exists>r. pushdown_plan p = Ok r \<and> plan_equiv fns db ts p (fst r)"
proof (induction p arbitrary: ts rule: measure_induct_rule [of plan_nodes])
  case (less p)
  show ?case
  proof (cases "\<exists>l r k c e. p = LFilter (LJoin l r k c) e")
    case True
    then show ?thesis using pushdown_join [OF reg] less by fastforce
  next
    case False
    then have "pushdown_plan p = map_plan_children pushdown_plan p"
      by (cases p rule: pushdown_plan.cases) auto
    with map_plan_children_sound [OF less.prems less.IH] show ?thesis by simp
  qed
qed

subsection \<open>Projection pruning\<close>

text \<open>
  What pruning one scope guarantees: the required columns are still there, at the positions of the map,
  and the rows are the same, one for one, on these columns.
\<close>

definition pruned ::
  "function_registry \<Rightarrow> mem_storage \<Rightarrow> data_type list \<Rightarrow> nat set \<Rightarrow> logical_plan
   \<Rightarrow> logical_plan \<times> (nat \<rightharpoonup> nat) \<times> bool \<Rightarrow> bool" where
  "pruned fns db ts required p q \<longleftrightarrow>
     (case q of (p', m, _) \<Rightarrow>
        \<exists>us. plan_typed fns db p' us \<and> required \<subseteq> dom m \<and> typed_map m ts us
          \<and> list_all2 (rows_agree m) (query_rows fns db p) (query_rows fns db p'))"

lemma pruned_identity:
  assumes "plan_typed fns db p ts" "required \<subseteq> {..<length ts}" "n = length ts"
  shows "pruned fns db ts required p (p, identity_map n, c)"
  using assms unfolding pruned_def
  by (auto simp: identity_map_def typed_map_def rows_agree_def subset_iff intro!: exI [of _ ts] list.rel_refl
      split: if_splits)

lemma map_of_zip_upt: "map_of (zip ks [0..<length ks]) i = Some j \<Longrightarrow> j < length ks \<and> ks ! j = i"
  by (auto dest!: map_of_SomeD simp: in_set_zip)

lemma prune_scan_ok:
  assumes "plan_typed fns db (LScan t n s) ts" "required \<subseteq> {..<length ts}"
  shows "\<exists>q. prune_scan t n s required = Ok q \<and> pruned fns db ts required (LScan t n s) q"
proof (cases "schema_len s \<le> card required")
  case True
  moreover have "schema_len s = length ts" using assms(1) by (auto simp: schema_len_def elim: plan_typed_scanE)
  ultimately show ?thesis using pruned_identity [OF assms(1,2)] by (simp add: prune_scan_def)
next
  case False
  define kept where "kept = sorted_list_of_set required"
  have ts: "ts = map col_type (columns s)" using assms(1) by (auto elim: plan_typed_scanE)
  have fin: "finite required" using assms(2) finite_subset by blast
  define item where "item i = \<lparr>si_expr = BColumnRef 0 i (col_name (columns s ! i)) (col_type (columns s ! i))
      \<lparr>span_start = 0, span_end = 0\<rparr>, si_output_name = col_name (columns s ! i)\<rparr>" for i
  have set: "set kept = required" using fin by (simp add: kept_def)
  have kept: "i < length ts" if "i \<in> set kept" for i using that assms(2) set by auto
  have "map_outcome (kept_item s) kept = Ok (map item kept)"
    by (rule map_outcome_all_Ok) (use kept in \<open>auto simp: kept_item_def get_at_def item_def ts\<close>)
  then have run: "prune_scan t n s required
    = Ok (LProjection (LScan t n s) (map item kept), map_of (zip kept [0..<length kept]), True)"
    using False by (simp add: prune_scan_def Let_def kept_def [symmetric])
  let ?us = "map (\<lambda>i. ts ! i) kept" let ?m = "map_of (zip kept [0..<length kept])"
  have "plan_typed fns db (LProjection (LScan t n s) (map item kept)) ?us"
    using assms(1) kept
    by (intro plan_typed.projection [OF assms(1)])
      (auto simp: list.rel_map item_def expr_ok_def fits_def ts intro!: list.rel_refl_strong)
  moreover have "required \<subseteq> dom ?m" by (simp add: set)
  moreover have "typed_map ?m ts ?us" using kept by (auto simp: typed_map_def dest!: map_of_zip_upt)
  moreover have "rows_agree ?m x (project_tuple fns (map item kept) x)" if "row_typed ts x" for x
    using kept row_typed_length [OF that]
    by (auto simp: rows_agree_def project_tuple_def tuple_of_def tuple_get_def get_at_def item_def dest!: map_of_zip_upt)
  then have "list_all2 (rows_agree ?m) (query_rows fns db (LScan t n s))
      (query_rows fns db (LProjection (LScan t n s) (map item kept)))"
    using assms(1) by (auto simp: list.rel_map list_all_iff ts intro!: list.rel_refl_strong elim!: plan_typed_scanE)
  ultimately show ?thesis unfolding run pruned_def by blast
qed

lemma list_all2_filter:
  "list_all2 R xs ys \<Longrightarrow> (\<And>x y. R x y \<Longrightarrow> P x = Q y) \<Longrightarrow> list_all2 R (filter P xs) (filter Q ys)"
  by (induction rule: list_all2_induct) auto

lemma list_all2_pairs:
  assumes "list_all2 A xs xs'" "list_all2 B ys ys'" "\<And>x x' y y'. A x x' \<Longrightarrow> B y y' \<Longrightarrow> C (f x y) (f x' y')"
  shows "list_all2 C (concat (map (\<lambda>x. map (f x) ys) xs)) (concat (map (\<lambda>x. map (f x) ys') xs'))"
  using assms(1)
proof (induction rule: list_all2_induct)
  case (Cons x xs x' xs')
  have "list_all2 C (map (f x) ys) (map (f x') ys')"
    unfolding list.rel_map by (rule list.rel_mono [THEN predicate2D, OF _ assms(2)]) (use assms(3) Cons(1) in auto)
  with Cons show ?case by (simp add: list_all2_appendI)
qed simp

text \<open>Rows of both plans that correspond, with their types.\<close>

lemma pruned_rows:
  assumes "registry_typed fns" "plan_typed fns db p ts" "plan_typed fns db p' us"
    and "list_all2 (rows_agree m) (query_rows fns db p) (query_rows fns db p')"
  shows "list_all2 (\<lambda>x y. rows_agree m x y \<and> row_typed ts x \<and> row_typed us y) (query_rows fns db p) (query_rows fns db p')"
  using query_rows_typed [OF assms(1,2)] query_rows_typed [OF assms(1,3)] assms(4)
  by (simp add: list_all2_conv_all_nth list_all_length)

lemma join_map_agree:
  assumes "rows_agree ml x x'" "rows_agree mr y y'" "row_typed ts x" "row_typed us y" "row_typed ts' x'" "row_typed us' y'"
    and "typed_map ml ts ts'" "typed_map mr us us'"
  shows "rows_agree (join_map (length ts) (length ts') ml mr) (join_tuple x y) (join_tuple x' y')"
  unfolding rows_agree_def
proof (intro allI impI)
  fix i j
  assume m: "join_map (length ts) (length ts') ml mr i = Some j"
  note len = assms(3-6) [THEN row_typed_length]
  show "tuple_get (join_tuple x' y') j = tuple_get (join_tuple x y) i"
  proof (cases "i < length ts")
    case True
    with m have j: "ml i = Some j" by (simp add: join_map_def)
    with assms(7) have "i < length ts" "j < length ts'" by (auto simp: typed_map_def)
    moreover have "tuple_get x' j = tuple_get x i" using assms(1) j by (simp add: rows_agree_def)
    ultimately show ?thesis using len
      by (auto simp: rows_agree_def join_tuple_def tuple_of_def tuple_get_def get_at_def nth_append)
  next
    case False
    with m obtain k where k: "mr (i - length ts) = Some k" "j = length ts' + k" by (auto simp: join_map_def)
    from assms(8) k(1) have "i - length ts < length us" "k < length us'" by (auto simp: typed_map_def)
    with assms(2) k False len show ?thesis
      by (auto simp: rows_agree_def join_tuple_def tuple_of_def tuple_get_def get_at_def nth_append split: if_splits)
  qed
qed

lemma join_map_typed:
  assumes "typed_map ml ts ts'" "typed_map mr us us'"
  shows "typed_map (join_map (length ts) (length ts') ml mr) (ts @ us) (ts' @ us')"
  using assms by (fastforce simp: typed_map_def join_map_def nth_append split: if_splits)

lemma scan_width_typed: "plan_typed fns db p ts \<Longrightarrow> is_scan p \<Longrightarrow> scan_width p = length ts"
  by (cases p) (auto simp: is_scan_def scan_width_def schema_len_def elim: plan_typed_scanE)

lemma prune_join:
  assumes reg: "registry_typed fns"
    and typed: "plan_typed fns db l ts" "plan_typed fns db r us" "expr_ok fns (ts @ us) TBoolean e"
    and req: "required \<subseteq> {..<length (ts @ us)}"
    and l: "pruned fns db ts (left_columns (length ts) (required \<union> collect_columns e)) l (l', ml, c1)"
    and r: "pruned fns db us (right_columns (length ts) (required \<union> collect_columns e)) r (r', mr, c2)"
    and s: "output_schema l' = Ok s"
  defines "m \<equiv> join_map (length ts) (schema_len s) ml mr"
  shows "\<exists>e'. remap_expr m e = Ok e' \<and> \<not> (\<exists>i \<in> required. m i = None)
    \<and> pruned fns db (ts @ us) required (LJoin l r k e) (LJoin l' r' k e', m |` required, c1 \<or> c2)"
proof -
  from l obtain ts' where l': "plan_typed fns db l' ts'" "left_columns (length ts) (required \<union> collect_columns e) \<subseteq> dom ml"
    "typed_map ml ts ts'" "list_all2 (rows_agree ml) (query_rows fns db l) (query_rows fns db l')"
    by (auto simp: pruned_def)
  from r obtain us' where r': "plan_typed fns db r' us'" "right_columns (length ts) (required \<union> collect_columns e) \<subseteq> dom mr"
    "typed_map mr us us'" "list_all2 (rows_agree mr) (query_rows fns db r) (query_rows fns db r')"
    by (auto simp: pruned_def)
  have m: "m = join_map (length ts) (length ts') ml mr" using plan_schema_len [OF l'(1) s] by (simp add: m_def)
  have dom: "required \<union> collect_columns e \<subseteq> dom m"
  proof
    fix i assume i: "i \<in> required \<union> collect_columns e"
    show "i \<in> dom m"
    proof (cases "i < length ts")
      case True
      with i have "i \<in> left_columns (length ts) (required \<union> collect_columns e)" by (simp add: left_columns_def)
      with l'(2) True show ?thesis by (auto simp: m join_map_def)
    next
      case False
      with i have "i - length ts \<in> right_columns (length ts) (required \<union> collect_columns e)"
        by (auto simp: right_columns_def)
      with r'(2) False show ?thesis by (auto simp: m join_map_def)
    qed
  qed
  have tm: "typed_map m (ts @ us) (ts' @ us')" unfolding m by (rule join_map_typed [OF l'(3) r'(3)])
  from remap_expr_typed [OF tm typed(3)] dom obtain e' where e': "remap_expr m e = Ok e'"
    "expr_ok fns (ts' @ us') TBoolean e'" "\<And>x y. rows_agree m x y \<Longrightarrow> value_of fns e' y = value_of fns e x" by auto
  have "list_all2 (rows_agree m) (query_rows fns db (LJoin l r k e)) (query_rows fns db (LJoin l' r' k e'))"
    unfolding query_rows.simps
    by (rule list_all2_filter, rule list_all2_pairs [OF pruned_rows [OF reg typed(1) l'(1,4)] pruned_rows [OF reg typed(2) r'(1,4)]])
      (auto simp: m holds_def e'(3) intro: join_map_agree l'(3) r'(3))
  then have "list_all2 (rows_agree (m |` required)) (query_rows fns db (LJoin l r k e)) (query_rows fns db (LJoin l' r' k e'))"
    by (rule list.rel_mono [THEN predicate2D, rotated]) (auto simp: rows_agree_def restrict_map_def)
  moreover have "typed_map (m |` required) (ts @ us) (ts' @ us')" using tm by (auto simp: typed_map_def restrict_map_def)
  moreover have "plan_typed fns db (LJoin l' r' k e') (ts' @ us')" by (rule plan_typed.join [OF l'(1) r'(1) e'(2)])
  ultimately have "pruned fns db (ts @ us) required (LJoin l r k e) (LJoin l' r' k e', m |` required, c1 \<or> c2)"
    using dom by (auto simp: pruned_def intro!: exI [of _ "ts' @ us'"])
  with e'(1) dom show ?thesis by blast
qed

lemma prune_scope_ok:
  assumes reg: "registry_typed fns"
  shows "is_from_where_subtree p \<Longrightarrow> plan_typed fns db p ts \<Longrightarrow> required \<subseteq> {..<length ts} \<Longrightarrow>
    \<exists>q. prune_scope p required = Ok q \<and> pruned fns db ts required p q"
proof (induction p required arbitrary: ts rule: prune_scope.induct)
  case (1 t n s required)
  then show ?case using prune_scan_ok by simp
next
  case (2 s rows required)
  then show ?case using pruned_identity by (fastforce simp: schema_len_def elim: plan_typed_valuesE)
next
  case (3 p e required)
  from "3.prems"(2) have p: "plan_typed fns db p ts" and e: "expr_ok fns ts TBoolean e" by (auto elim: plan_typed_filterE)
  show ?case
  proof (cases "is_scan p")
    case True
    then show ?thesis using pruned_identity [OF "3.prems"(2,3) scan_width_typed [OF p True]] by simp
  next
    case False
    have "required \<union> collect_columns e \<subseteq> {..<length ts}"
      using "3.prems"(3) e collect_columns_bound [of fns "type_columns ts" e] by (auto simp: expr_ok_def)
    from "3.IH" [OF False _ p this] "3.prems"(1) obtain p' m c where
      q: "prune_scope p (required \<union> collect_columns e) = Ok (p', m, c)"
      "pruned fns db ts (required \<union> collect_columns e) p (p', m, c)" by auto
    then obtain us where us: "plan_typed fns db p' us" "required \<union> collect_columns e \<subseteq> dom m" "typed_map m ts us"
      "list_all2 (rows_agree m) (query_rows fns db p) (query_rows fns db p')" by (auto simp: pruned_def)
    from remap_expr_typed [OF us(3) e] us(2) obtain e' where e': "remap_expr m e = Ok e'" "expr_ok fns us TBoolean e'"
      "\<And>x y. rows_agree m x y \<Longrightarrow> value_of fns e' y = value_of fns e x" by auto
    have "list_all2 (rows_agree m) (query_rows fns db (LFilter p e)) (query_rows fns db (LFilter p' e'))"
      using us(4) by (auto simp: holds_def e'(3) intro: list_all2_filter)
    with us plan_typed.filter [OF us(1) e'(2)] have "pruned fns db ts required (LFilter p e) (LFilter p' e', m, c)"
      by (auto simp: pruned_def)
    with False q(1) e'(1) show ?thesis by simp
  qed
next
  case (4 l r k e required)
  from "4.prems"(2) obtain ls us where ts: "ts = ls @ us" and typed: "plan_typed fns db l ls" "plan_typed fns db r us"
    "expr_ok fns (ls @ us) TBoolean e" by (auto elim: plan_typed_joinE)
  from plan_schema [OF typed(1)] obtain s where s: "output_schema l = Ok s" "schema_len s = length ls"
    by (auto simp: schema_len_def)
  let ?all = "required \<union> collect_columns e"
  have all: "?all \<subseteq> {..<length ls + length us}"
    using "4.prems"(3) typed(3) collect_columns_bound [of fns "type_columns (ls @ us)" e] by (auto simp: expr_ok_def ts)
  have sides: "left_columns (length ls) ?all \<subseteq> {..<length ls}" "right_columns (length ls) ?all \<subseteq> {..<length us}"
    using all by (auto simp: left_columns_def right_columns_def)
  obtain l' ml c1 where l: "prune_scope l (left_columns (length ls) ?all) = Ok (l', ml, c1)"
    "pruned fns db ls (left_columns (length ls) ?all) l (l', ml, c1)"
    using "4.IH"(1) [OF s(1) refl refl, where ts = ls] "4.prems"(1) typed(1) sides(1) by (auto simp: s(2))
  obtain s' where s': "output_schema l' = Ok s'" using l(2) plan_schema by (fastforce simp: pruned_def)
  have "\<exists>q. (if is_scan r then Ok (r, identity_map (scan_width r), False) else prune_scope r (right_columns (length ls) ?all)) = Ok q
      \<and> pruned fns db us (right_columns (length ls) ?all) r q"
  proof (cases "is_scan r")
    case True
    then show ?thesis using pruned_identity [OF typed(2) sides(2) scan_width_typed [OF typed(2) True]] by simp
  next
    case False
    then show ?thesis
      using "4.IH"(2) [OF s(1) refl refl _ refl refl s' False, where ts = us] l(1) "4.prems"(1) typed(2) sides(2) by (auto simp: s(2))
  qed
  then obtain r' mr c2 where r: "(if is_scan r then Ok (r, identity_map (scan_width r), False)
      else prune_scope r (right_columns (length ls) ?all)) = Ok (r', mr, c2)"
    "pruned fns db us (right_columns (length ls) ?all) r (r', mr, c2)" by auto
  from prune_join [OF reg typed "4.prems"(3) [unfolded ts] l(2) r(2) s', of k]
  show ?case using s l(1) s' r(1) by (auto simp: Let_def ts)
qed simp_all

text \<open>The expressions above a pruned scope, remapped.\<close>

lemma remap_exprs:
  assumes m: "typed_map m ts us" and gs: "list_all2 (expr_ok fns ts) gts gs"
    and dom: "(\<Union>g \<in> set gs. collect_columns g) \<subseteq> dom m"
  shows "\<exists>gs'. map_outcome (remap_expr m) gs = Ok gs' \<and> list_all2 (expr_ok fns us) gts gs'
    \<and> (\<forall>x y. rows_agree m x y \<longrightarrow> key_values fns gs' y = key_values fns gs x)"
  using gs dom
proof (induction rule: list_all2_induct)
  case (Cons t gts g gs)
  from remap_expr_typed [OF m Cons(1)] Cons.prems obtain g' where "remap_expr m g = Ok g'" "expr_ok fns us t g'"
    "\<forall>x y. rows_agree m x y \<longrightarrow> value_of fns g' y = value_of fns g x" by auto
  with Cons show ?case by (auto simp: key_values_def)
qed (simp add: key_values_def)

lemma remap_call_ok:
  assumes m: "typed_map m ts us" and c: "agg_ok fns ts t c" and dom: "call_columns c \<subseteq> dom m"
  shows "\<exists>c'. remap_call m c = Ok c' \<and> agg_ok fns us t c' \<and> ac_func c' = ac_func c
    \<and> (\<forall>x y. rows_agree m x y \<longrightarrow> map_option (\<lambda>e. value_of fns e y) (ac_arg c') = map_option (\<lambda>e. value_of fns e x) (ac_arg c))"
proof (cases "ac_arg c")
  case None
  then show ?thesis using c by (auto simp: remap_call_def agg_ok_def split: aggregate_func.splits)
next
  case (Some e)
  define u where "u = (if ac_func c = Count then SOME u. expr_ok fns ts u e else t)"
  have u: "expr_ok fns ts u e"
    using c by (auto simp: agg_ok_def Some u_def split: aggregate_func.splits intro: someI)
  from remap_expr_typed [OF m u] dom obtain e' where "remap_expr m e = Ok e'" "expr_ok fns us u e'"
    "\<forall>x y. rows_agree m x y \<longrightarrow> value_of fns e' y = value_of fns e x" by (auto simp: call_columns_def Some)
  then show ?thesis using c
    by (auto simp: remap_call_def Some agg_ok_def u_def split: aggregate_func.splits if_splits)
qed

lemma remap_calls:
  assumes m: "typed_map m ts us" and cs: "list_all2 (agg_ok fns ts) cts cs"
    and dom: "(\<Union>c \<in> set cs. call_columns c) \<subseteq> dom m"
  shows "\<exists>cs'. map_outcome (remap_call m) cs = Ok cs' \<and> list_all2 (agg_ok fns us) cts cs'
    \<and> map ac_func cs' = map ac_func cs
    \<and> (\<forall>x y. rows_agree m x y \<longrightarrow> call_values fns cs' y = call_values fns cs x)"
  using cs dom
proof (induction rule: list_all2_induct)
  case (Cons t cts c cs)
  from remap_call_ok [OF m Cons(1)] Cons.prems obtain c' where "remap_call m c = Ok c'" "agg_ok fns us t c'"
    "ac_func c' = ac_func c" "\<forall>x y. rows_agree m x y \<longrightarrow>
      map_option (\<lambda>e. value_of fns e y) (ac_arg c') = map_option (\<lambda>e. value_of fns e x) (ac_arg c)" by auto
  with Cons show ?case by (auto simp: call_values_def)
qed (simp add: call_values_def)

lemma remap_items:
  assumes m: "typed_map m ts us" and items: "list_all2 (\<lambda>t i. expr_ok fns ts t (si_expr i)) vs items"
    and dom: "(\<Union>i \<in> set items. collect_columns (si_expr i)) \<subseteq> dom m"
  shows "\<exists>items'. map_outcome (remap_item m) items = Ok items'
    \<and> list_all2 (\<lambda>t i. expr_ok fns us t (si_expr i)) vs items'
    \<and> (\<forall>x y. rows_agree m x y \<longrightarrow> project_tuple fns items' y = project_tuple fns items x)"
  using items dom
proof (induction rule: list_all2_induct)
  case (Cons t vs i items)
  from remap_expr_typed [OF m Cons(1)] Cons.prems obtain e' where "remap_expr m (si_expr i) = Ok e'" "expr_ok fns us t e'"
    "\<forall>x y. rows_agree m x y \<longrightarrow> value_of fns e' y = value_of fns (si_expr i) x" by auto
  with Cons show ?case by (auto simp: remap_item_def project_tuple_def tuple_of_def)
qed (simp add: project_tuple_def)

lemma collect_columns_typed: "expr_ok fns ts t e \<Longrightarrow> collect_columns e \<subseteq> {..<length ts}"
  using collect_columns_bound [of fns "type_columns ts" e] by (simp add: expr_ok_def)

lemma list_all2_Union:
  "list_all2 P ts xs \<Longrightarrow> (\<And>t x. P t x \<Longrightarrow> f x \<subseteq> A) \<Longrightarrow> (\<Union>x \<in> set xs. f x) \<subseteq> A"
  by (induction rule: list_all2_induct) auto

lemma call_columns_typed: "agg_ok fns ts t c \<Longrightarrow> call_columns c \<subseteq> {..<length ts}"
  by (cases "ac_func c")
    (auto simp: agg_ok_def call_columns_def split: option.splits dest: collect_columns_typed [THEN subsetD])

lemma prune_plan_sound:
  assumes reg: "registry_typed fns"
  shows "plan_typed fns db p ts \<Longrightarrow> \<exists>r. prune_plan p = Ok r \<and> plan_equiv fns db ts p (fst r)"
proof (induction p arbitrary: ts rule: measure_induct_rule [of plan_nodes])
  case (less p)
  show ?case
  proof (cases p rule: prune_plan.cases)
    case (1 q gs cs s)
    from less.prems obtain ls gts cts where ts: "ts = gts @ cts" and q: "plan_typed fns db q ls"
      and gs: "list_all2 (expr_ok fns ls) gts gs" and cs: "list_all2 (agg_ok fns ls) cts cs"
      and s: "length (columns s) = length gs + length cs" by (auto simp: 1 elim: plan_typed_aggregateE)
    show ?thesis
    proof (cases "is_from_where_subtree q \<and> \<not> is_bare_leaf q")
      case True
      let ?req = "(\<Union>g \<in> set gs. collect_columns g) \<union> (\<Union>c \<in> set cs. call_columns c)"
      have "?req \<subseteq> {..<length ls}"
        by (intro Un_least list_all2_Union [OF gs] list_all2_Union [OF cs] collect_columns_typed call_columns_typed)
      from prune_scope_ok [OF reg _ q this] True obtain q' m c where scope: "prune_scope q ?req = Ok (q', m, c)"
        "pruned fns db ls ?req q (q', m, c)" by auto
      then obtain us where us: "plan_typed fns db q' us" "?req \<subseteq> dom m" "typed_map m ls us"
        "list_all2 (rows_agree m) (query_rows fns db q) (query_rows fns db q')" by (auto simp: pruned_def)
      from remap_exprs [OF us(3) gs] us(2) obtain gs' where gs': "map_outcome (remap_expr m) gs = Ok gs'"
        "list_all2 (expr_ok fns us) gts gs'"
        "\<And>x y. rows_agree m x y \<Longrightarrow> key_values fns gs' y = key_values fns gs x" by auto
      from remap_calls [OF us(3) cs] us(2) obtain cs' where cs': "map_outcome (remap_call m) cs = Ok cs'"
        "list_all2 (agg_ok fns us) cts cs'" "map ac_func cs' = map ac_func cs"
        "\<And>x y. rows_agree m x y \<Longrightarrow> call_values fns cs' y = call_values fns cs x" by auto
      have len: "length gs' = length gs" "length cs' = length cs"
        using list_all2_lengthD [OF gs] list_all2_lengthD [OF gs'(2)] map_eq_imp_length_eq [OF cs'(3)] by simp_all
      have "grouped_rows fns gs' cs' (query_rows fns db q') = grouped_rows fns gs cs (query_rows fns db q)"
        by (rule grouped_rows_cong [OF list.rel_mono [THEN predicate2D, OF _ us(4)] cs'(3) len(1)])
          (auto simp: gs'(3) cs'(4))
      moreover have "plan_typed fns db (LAggregate q' gs' cs' s) ts"
        unfolding ts by (rule plan_typed.aggregate [OF us(1) gs'(2) cs'(2)]) (simp add: s len)
      ultimately show ?thesis using True scope(1) gs'(1) cs'(1) by (simp add: 1 plan_equiv_def)
    next
      case False
      then show ?thesis using map_plan_children_sound [OF less.prems less.IH] by (auto simp: 1)
    qed
  next
    case (2 q items)
    from less.prems obtain ls where q: "plan_typed fns db q ls"
      and items: "list_all2 (\<lambda>t i. expr_ok fns ls t (si_expr i)) ts items" by (auto simp: 2 elim: plan_typed_projectionE)
    show ?thesis
    proof (cases "is_from_where_subtree q \<and> \<not> is_bare_leaf q")
      case True
      let ?req = "\<Union>i \<in> set items. collect_columns (si_expr i)"
      have "?req \<subseteq> {..<length ls}" by (intro list_all2_Union [OF items] collect_columns_typed)
      from prune_scope_ok [OF reg _ q this] True obtain q' m c where scope: "prune_scope q ?req = Ok (q', m, c)"
        "pruned fns db ls ?req q (q', m, c)" by auto
      then obtain us where us: "plan_typed fns db q' us" "?req \<subseteq> dom m" "typed_map m ls us"
        "list_all2 (rows_agree m) (query_rows fns db q) (query_rows fns db q')" by (auto simp: pruned_def)
      from remap_items [OF us(3) items us(2)] obtain items' where items': "map_outcome (remap_item m) items = Ok items'"
        "list_all2 (\<lambda>t i. expr_ok fns us t (si_expr i)) ts items'"
        "\<And>x y. rows_agree m x y \<Longrightarrow> project_tuple fns items' y = project_tuple fns items x" by auto
      have "map (project_tuple fns items') (query_rows fns db q') = map (project_tuple fns items) (query_rows fns db q)"
        using us(4) by (induction rule: list_all2_induct) (auto simp: items'(3))
      with plan_typed.projection [OF us(1) items'(2)] show ?thesis
        using True scope(1) items'(1) by (simp add: 2 plan_equiv_def)
    next
      case False
      then show ?thesis using map_plan_children_sound [OF less.prems less.IH] by (auto simp: 2)
    qed
  qed (use map_plan_children_sound [OF less.prems less.IH] in auto)
qed

subsection \<open>The driver\<close>

lemma plan_equiv_refl: "plan_typed fns db p ts \<Longrightarrow> plan_equiv fns db ts p p"
  by (simp add: plan_equiv_def)

lemma plan_equiv_trans: "plan_equiv fns db ts p q \<Longrightarrow> plan_equiv fns db ts q r \<Longrightarrow> plan_equiv fns db ts p r"
  by (simp add: plan_equiv_def)

lemma default_rules_sound: "registry_typed fns \<Longrightarrow> list_all (sound_rule fns db) (default_rules fns)"
  using map_plan_exprs_sound fold_expr_rewrite simplify_expr_rewrite merge_filters_sound pushdown_sound prune_plan_sound
  by (simp add: default_rules_def sound_rule_def constant_folding_def boolean_simplification_def)

lemma apply_rules_sound:
  "list_all (sound_rule fns db) rules \<Longrightarrow> plan_typed fns db p ts \<Longrightarrow>
   \<exists>r. apply_rules rules p changed = Ok r \<and> plan_equiv fns db ts p (fst r)"
proof (induction rules p changed rule: apply_rules.induct)
  case (1 p changed)
  then show ?case by (simp add: plan_equiv_refl)
next
  case (2 f rules p changed)
  from "2.prems" obtain q c where q: "f p = Ok (q, c)" "plan_equiv fns db ts p q" by (fastforce simp: sound_rule_def)
  then have "plan_typed fns db q ts" by (simp add: plan_equiv_def)
  with "2.IH" [OF q(1) refl] "2.prems"(1) obtain r where "apply_rules rules q (changed \<or> c) = Ok r"
    "plan_equiv fns db ts q (fst r)" by auto
  with q plan_equiv_trans show ?case by auto
qed

lemma optimize_loop_sound:
  assumes "registry_typed fns"
  shows "plan_typed fns db p ts \<Longrightarrow> \<exists>q. optimize_loop n fns p = Ok q \<and> plan_equiv fns db ts p q"
proof (induction n arbitrary: p)
  case (Suc n)
  from apply_rules_sound [OF default_rules_sound [OF assms] Suc.prems] obtain q c where
    q: "apply_rules (default_rules fns) p False = Ok (q, c)" "plan_equiv fns db ts p q" by (metis prod.collapse)
  then have "plan_typed fns db q ts" by (simp add: plan_equiv_def)
  from Suc.IH [OF this] q(2) plan_equiv_trans show ?case by (auto simp: q(1))
qed (simp add: plan_equiv_refl)


definition sample_schema :: "string \<Rightarrow> schema" where
  "sample_schema n = \<lparr>columns = [column_new n TBigInt True, column_new ''t'' TText True]\<rparr>"

definition sample_db :: mem_storage where
  "sample_db = [0 \<mapsto> [tuple_of [VBigInt 1, VText ''x''], tuple_of [VBigInt 2, VNull]], 1 \<mapsto> [tuple_of [VBigInt 2, VText ''y'']]]"

definition sample_plan :: logical_plan where
  "sample_plan = (let s = \<lparr>span_start = 0, span_end = 0\<rparr> in
     LProjection
       (LFilter
         (LJoin (LScan 0 ''a'' (sample_schema ''x'')) (LScan 1 ''b'' (sample_schema ''y'')) Inner (BBoolLiteral True s))
         (BBinaryOp And
           (BBinaryOp Eq (BColumnRef 0 0 ''x'' TBigInt s) (BColumnRef 1 2 ''y'' TBigInt s) TBoolean s)
           (BBinaryOp Gt (BColumnRef 1 2 ''y'' TBigInt s) (BBinaryOp Add (BIntLiteral 0 s) (BIntLiteral 1 s) TBigInt s) TBoolean s)
           TBoolean s))
       [\<lparr>si_expr = BColumnRef 1 3 ''t'' TText s, si_output_name = ''t''\<rparr>])"

lemma sample_plan_typed: "plan_typed with_builtins sample_db sample_plan [TText]"
proof -
  have a: "plan_typed with_builtins sample_db (LScan 0 ''a'' (sample_schema ''x'')) (map col_type (columns (sample_schema ''x'')))"
    by (rule plan_typed.scan) (auto simp: sample_db_def sample_schema_def column_new_def row_typed_def tuple_of_def of_type_def)
  have b: "plan_typed with_builtins sample_db (LScan 1 ''b'' (sample_schema ''y'')) (map col_type (columns (sample_schema ''y'')))"
    by (rule plan_typed.scan) (auto simp: sample_db_def sample_schema_def column_new_def row_typed_def tuple_of_def of_type_def)
  show ?thesis unfolding sample_plan_def Let_def
    by (rule plan_typed.projection [OF plan_typed.filter [OF plan_typed.join [OF a b]]])
      (auto simp: expr_ok_def fits_def sample_schema_def column_new_def type_columns_def)
qed

lemma builtins_typed: "registry_typed with_builtins"
  unfolding registry_typed_def by (rule builtins.typed_functions_axioms)

lemma sample_plan_rows: "query_rows with_builtins sample_db sample_plan = [tuple_of [VText ''y'']]"
  by (simp add: sample_plan_def Let_def sample_db_def join_tuple_def project_tuple_def tuple_of_def holds_def tuple_get_def get_at_def
      binary_dispatch_def eval_compare_def eval_arith_def checked_i64_def i64_range_def cmp_def)


end
