(* ===== verification/Physical_Plan.thy ===== *)
theory Physical_Plan
  imports Rules
begin

text \<open>
  Physical plans and the choice of access paths and join methods (\<open>src/src/physical_plan.rs\<close>). The
  catalogue of indexes is the function \<open>Storage::index_for_column\<close>, \<open>None\<close> for the memory backend; the order
  of costs, which the program computes in floating point, is the argument \<open>cheaper\<close>.
\<close>

datatype key_bound = Unbounded | Included val | Excluded val

datatype index_scan_kind = IPoint val | IRange key_bound key_bound

datatype physical_plan =
    PSeqScan table_id string schema
  | PIndexScan table_id string schema string string index_scan_kind
  | PValues schema "expr list list"
  | PFilter physical_plan bound_expr
  | PHashJoin physical_plan physical_plan join_kind "(bound_expr \<times> bound_expr) list" bound_expr
  | PIndexNestedLoopJoin physical_plan join_kind bound_expr bound_expr table_id string schema string string
  | PNestedLoopJoin physical_plan physical_plan join_kind bound_expr
  | PAggregate physical_plan "bound_expr list" "aggregate_call list" schema
  | PProjection physical_plan "bound_select_item list"
  | PDistinct physical_plan
  | PSort physical_plan "sort_key list"
  | PLimit physical_plan "nat option" "nat option"
  | PInsert table_id string schema "nat list option" physical_plan
  | PUpdate table_id string schema "bound_assignment list" "bound_expr option" physical_plan
  | PDelete table_id string schema "bound_expr option" physical_plan

fun phys_schema :: "physical_plan \<Rightarrow> schema outcome" where
  "phys_schema (PSeqScan _ _ s) = Ok s"
| "phys_schema (PIndexScan _ _ s _ _ _) = Ok s"
| "phys_schema (PValues s _) = Ok s"
| "phys_schema (PFilter p _) = phys_schema p"
| "phys_schema (PNestedLoopJoin l r _ _) =
    and_then (phys_schema l) (\<lambda>ls. and_then (phys_schema r) (\<lambda>rs. Ok (join_schema ls rs)))"
| "phys_schema (PHashJoin l r _ _ _) =
    and_then (phys_schema l) (\<lambda>ls. and_then (phys_schema r) (\<lambda>rs. Ok (join_schema ls rs)))"
| "phys_schema (PIndexNestedLoopJoin l _ _ _ _ _ s _ _) = and_then (phys_schema l) (\<lambda>ls. Ok (join_schema ls s))"
| "phys_schema (PAggregate _ _ _ s) = Ok s"
| "phys_schema (PProjection p items) = and_then (phys_schema p) (\<lambda>s. projection_schema s items)"
| "phys_schema (PDistinct p) = phys_schema p"
| "phys_schema (PSort p _) = phys_schema p"
| "phys_schema (PLimit p _ _) = phys_schema p"
| "phys_schema (PInsert _ _ _ _ _) = Ok \<lparr>columns = []\<rparr>"
| "phys_schema (PUpdate _ _ _ _ _ _) = Ok \<lparr>columns = []\<rparr>"
| "phys_schema (PDelete _ _ _ _ _) = Ok \<lparr>columns = []\<rparr>"

subsection \<open>Orderings that a plan already has\<close>

fun column_position :: "bound_expr \<Rightarrow> nat option" where
  "column_position (BColumnRef _ i _ _ _) = Some i"
| "column_position _ = None"

fun output_ordering :: "physical_plan \<Rightarrow> nat option" where
  "output_ordering (PIndexScan _ _ s _ col (IRange _ _)) = index_of s col"
| "output_ordering (PFilter p _) = output_ordering p"
| "output_ordering (PSort p ks) =
    (case ks of [k] \<Rightarrow> if sk_desc k then None else column_position (sk_expr k) | _ \<Rightarrow> None)"
| "output_ordering (PNestedLoopJoin l _ _ _) = output_ordering l"
| "output_ordering (PHashJoin l _ _ _ _) = output_ordering l"
| "output_ordering (PIndexNestedLoopJoin l _ _ _ _ _ _ _ _) = output_ordering l"
| "output_ordering (PProjection p items) =
    (case output_ordering p of
       None \<Rightarrow> None
     | Some i \<Rightarrow> position (\<lambda>item. column_position (si_expr item) = Some i) items)"
| "output_ordering _ = None"

definition sort_is_already_satisfied :: "sort_key list \<Rightarrow> physical_plan \<Rightarrow> bool" where
  "sort_is_already_satisfied ks input =
     (case ks of
        [k] \<Rightarrow> \<not> sk_desc k \<and> (case column_position (sk_expr k) of
          None \<Rightarrow> False | Some i \<Rightarrow> output_ordering input = Some i)
      | _ \<Rightarrow> False)"

subsection \<open>Choosing the cheapest candidate\<close>

text \<open>The first of several cheapest candidates; there is always one.\<close>

definition cheapest :: "(physical_plan \<Rightarrow> physical_plan \<Rightarrow> bool) \<Rightarrow> physical_plan list \<Rightarrow> physical_plan outcome" where
  "cheapest cheaper candidates =
     (case candidates of
        [] \<Rightarrow> Panic
      | p # ps \<Rightarrow> Ok (foldl (\<lambda>best q. if cheaper q best then q else best) p ps))"

lemma cheapest_in: "ps \<noteq> [] \<Longrightarrow> \<exists>p \<in> set ps. cheapest cheaper ps = Ok p"
proof -
  have "foldl (\<lambda>best q. if cheaper q best then q else best) p qs \<in> insert p (set qs)" for p qs
  proof (induction qs arbitrary: p)
    case (Cons q qs)
    from Cons [of q] Cons [of p] show ?case by auto
  qed simp
  then show "ps \<noteq> [] \<Longrightarrow> \<exists>p \<in> set ps. cheapest cheaper ps = Ok p"
    by (auto simp: cheapest_def neq_Nil_conv)
qed

subsection \<open>Scans\<close>

record index_ref =
  ir_name :: string
  ir_column_name :: string

type_synonym index_lookup = "(table_id \<Rightarrow> nat \<Rightarrow> index_ref option) option"

fun literal_value :: "bound_expr \<Rightarrow> val option" where
  "literal_value (BParen e _) = literal_value e"
| "literal_value (BIntLiteral v _) = Some (VBigInt v)"
| "literal_value (BStringLiteral v _) = Some (VText v)"
| "literal_value (BBoolLiteral v _) = Some (VBoolean v)"
| "literal_value (BNullLiteral _) = Some VNull"
| "literal_value _ = None"

definition column_index_of :: "bound_expr \<Rightarrow> nat option" where
  "column_index_of e = column_position (strip_paren e)"

fun flip_comparison :: "binary_operator \<Rightarrow> binary_operator" where
  "flip_comparison Lt = Gt"
| "flip_comparison LtEq = GtEq"
| "flip_comparison Gt = Lt"
| "flip_comparison GtEq = LtEq"
| "flip_comparison opr = opr"

definition as_column_literal_comparison :: "bound_expr \<Rightarrow> (nat \<times> binary_operator \<times> val) option" where
  "as_column_literal_comparison e =
     (case strip_paren e of
        BBinaryOp opr l r _ _ \<Rightarrow>
          if opr \<in> {Eq, Lt, LtEq, Gt, GtEq} then
            (case (column_index_of l, column_index_of r) of
               (Some i, None) \<Rightarrow> map_option (\<lambda>v. (i, opr, v)) (literal_value r)
             | (None, Some i) \<Rightarrow> map_option (\<lambda>v. (i, flip_comparison opr, v)) (literal_value l)
             | _ \<Rightarrow> None)
          else None
      | _ \<Rightarrow> None)"

definition exclude :: "bound_expr list \<Rightarrow> nat list \<Rightarrow> bound_expr list" where
  "exclude es skip = map snd (filter (\<lambda>(i, _). i \<notin> set skip) (enumerate 0 es))"

definition wrap_index_scan :: "physical_plan \<Rightarrow> bound_expr option \<Rightarrow> physical_plan" where
  "wrap_index_scan node remaining = (case remaining of None \<Rightarrow> node | Some e \<Rightarrow> PFilter node e)"

text \<open>The candidates for one equality with a literal.\<close>

definition point_candidate ::
  "(table_id \<Rightarrow> nat \<Rightarrow> index_ref option) \<Rightarrow> table_id \<Rightarrow> string \<Rightarrow> schema \<Rightarrow> bound_expr list \<Rightarrow> nat \<times> bound_expr
   \<Rightarrow> physical_plan list" where
  "point_candidate ix tid name s conjuncts = (\<lambda>(i, e).
     (case as_column_literal_comparison e of
        Some (col, opr, v) \<Rightarrow>
          if opr \<noteq> Eq \<or> is_null v then []
          else (case ix tid col of
            None \<Rightarrow> []
          | Some info \<Rightarrow>
              [wrap_index_scan (PIndexScan tid name s (ir_name info) (ir_column_name info) (IPoint v))
                 (rebuild_conjunction (exclude conjuncts [i]))])
      | None \<Rightarrow> []))"

text \<open>
  The bounds found so far, in the order in which their columns first appear; the first lower and the first
  upper bound of a column count.
\<close>

record range_accum =
  ra_lower :: "(nat \<times> key_bound) option"
  ra_upper :: "(nat \<times> key_bound) option"

definition range_bound :: "binary_operator \<Rightarrow> val \<Rightarrow> (bool \<times> key_bound) option" where
  "range_bound opr v =
     (case opr of
        Gt \<Rightarrow> Some (True, Excluded v)
      | GtEq \<Rightarrow> Some (True, Included v)
      | Lt \<Rightarrow> Some (False, Excluded v)
      | LtEq \<Rightarrow> Some (False, Included v)
      | _ \<Rightarrow> None)"

definition add_bound :: "nat \<Rightarrow> bool \<Rightarrow> key_bound \<Rightarrow> range_accum \<Rightarrow> range_accum" where
  "add_bound i lower b a =
     (if lower then a\<lparr>ra_lower := (case ra_lower a of None \<Rightarrow> Some (i, b) | some \<Rightarrow> some)\<rparr>
      else a\<lparr>ra_upper := (case ra_upper a of None \<Rightarrow> Some (i, b) | some \<Rightarrow> some)\<rparr>)"

fun collect_ranges ::
  "(nat \<times> bound_expr) list \<Rightarrow> nat list \<Rightarrow> (nat \<rightharpoonup> range_accum) \<Rightarrow> nat list \<times> (nat \<rightharpoonup> range_accum)" where
  "collect_ranges [] order ranges = (order, ranges)"
| "collect_ranges ((i, e) # es) order ranges =
    (case as_column_literal_comparison e of
       None \<Rightarrow> collect_ranges es order ranges
     | Some (col, opr, v) \<Rightarrow>
         if is_null v then collect_ranges es order ranges
         else (case range_bound opr v of
           None \<Rightarrow> collect_ranges es order ranges
         | Some (lower, b) \<Rightarrow>
             (case ranges col of
                None \<Rightarrow> collect_ranges es (order @ [col])
                  (ranges(col \<mapsto> add_bound i lower b \<lparr>ra_lower = None, ra_upper = None\<rparr>))
              | Some a \<Rightarrow> collect_ranges es order (ranges(col \<mapsto> add_bound i lower b a)))))"

definition bound_used :: "(nat \<times> key_bound) option \<Rightarrow> nat list" where
  "bound_used b = (case b of None \<Rightarrow> [] | Some (i, _) \<Rightarrow> [i])"

definition bound_of :: "(nat \<times> key_bound) option \<Rightarrow> key_bound" where
  "bound_of b = (case b of None \<Rightarrow> Unbounded | Some (_, b) \<Rightarrow> b)"

definition range_candidate ::
  "(table_id \<Rightarrow> nat \<Rightarrow> index_ref option) \<Rightarrow> table_id \<Rightarrow> string \<Rightarrow> schema \<Rightarrow> bound_expr list \<Rightarrow> (nat \<rightharpoonup> range_accum)
   \<Rightarrow> nat \<Rightarrow> physical_plan list" where
  "range_candidate ix tid name s conjuncts ranges col =
     (case (ix tid col, ranges col) of
        (Some info, Some a) \<Rightarrow>
          [wrap_index_scan (PIndexScan tid name s (ir_name info) (ir_column_name info)
             (IRange (bound_of (ra_lower a)) (bound_of (ra_upper a))))
             (rebuild_conjunction (exclude conjuncts (bound_used (ra_lower a) @ bound_used (ra_upper a))))]
      | _ \<Rightarrow> [])"

definition scan_plan_candidates ::
  "(table_id \<Rightarrow> nat \<Rightarrow> index_ref option) \<Rightarrow> table_id \<Rightarrow> string \<Rightarrow> schema \<Rightarrow> bound_expr \<Rightarrow> physical_plan list" where
  "scan_plan_candidates ix tid name s predicate =
     (let conjuncts = collect_conjuncts predicate;
          (order, ranges) = collect_ranges (enumerate 0 conjuncts) [] Map.empty in
      concat (map (point_candidate ix tid name s conjuncts) (enumerate 0 conjuncts))
      @ concat (map (range_candidate ix tid name s conjuncts ranges) order)
      @ [PFilter (PSeqScan tid name s) predicate])"

definition choose_scan_plan ::
  "(physical_plan \<Rightarrow> physical_plan \<Rightarrow> bool) \<Rightarrow> (table_id \<Rightarrow> nat \<Rightarrow> index_ref option) \<Rightarrow> table_id \<Rightarrow> string \<Rightarrow> schema
   \<Rightarrow> bound_expr \<Rightarrow> physical_plan outcome" where
  "choose_scan_plan cheaper ix tid name s predicate = cheapest cheaper (scan_plan_candidates ix tid name s predicate)"

subsection \<open>Joins\<close>

text \<open>The index nested loop join that a single key allows.\<close>

definition index_scan_target ::
  "index_lookup \<Rightarrow> physical_plan \<Rightarrow> (bound_expr \<times> bound_expr) list
   \<Rightarrow> (bound_expr \<times> table_id \<times> string \<times> schema \<times> index_ref) option" where
  "index_scan_target ix right ks =
     (case (ix, ks, right) of
        (Some ix, [(lk, rk)], PSeqScan tid name s) \<Rightarrow>
          (case column_index_of rk of
             None \<Rightarrow> None
           | Some col \<Rightarrow> map_option (\<lambda>info. (lk, tid, name, s, info)) (ix tid col))
      | _ \<Rightarrow> None)"

definition choose_join_plan ::
  "(physical_plan \<Rightarrow> physical_plan \<Rightarrow> bool) \<Rightarrow> index_lookup \<Rightarrow> physical_plan \<Rightarrow> physical_plan \<Rightarrow> join_kind
   \<Rightarrow> bound_expr \<Rightarrow> (bound_expr \<times> bound_expr) list \<Rightarrow> physical_plan outcome" where
  "choose_join_plan cheaper ix l r k c ks =
     cheapest cheaper
       ((case index_scan_target ix r ks of
           None \<Rightarrow> []
         | Some (lk, tid, name, s, info) \<Rightarrow>
             [PIndexNestedLoopJoin l k c lk tid name s (ir_name info) (ir_column_name info)])
        @ [PHashJoin l r k ks c])"

text \<open>The keys of the right side, numbered within the right side.\<close>

definition shift_keys :: "nat \<Rightarrow> (bound_expr \<times> bound_expr) list \<Rightarrow> (bound_expr \<times> bound_expr) list outcome" where
  "shift_keys n ks = map_outcome (\<lambda>(l, r). and_then (shift_column_index r n) (\<lambda>r. Ok (l, r))) ks"

definition join_leaf ::
  "(physical_plan \<Rightarrow> physical_plan \<Rightarrow> bool) \<Rightarrow> index_lookup \<Rightarrow> physical_plan \<Rightarrow> physical_plan \<Rightarrow> bound_expr
   \<Rightarrow> physical_plan outcome" where
  "join_leaf cheaper ix l r c =
     and_then (phys_schema l) (\<lambda>ls.
     case split_equi_join_keys c (schema_len ls) of
       None \<Rightarrow> Ok (PNestedLoopJoin l r Inner c)
     | Some ks \<Rightarrow> and_then (shift_keys (schema_len ls) ks) (\<lambda>ks. choose_join_plan cheaper ix l r Inner c ks))"

end
