(* ===== verification/Join_Order.thy ===== *)
theory Join_Order
  imports Physical_Plan
begin

text \<open>
  The order of joins (\<open>src/src/join_order.rs\<close>) and the translation of logical to physical plans
  (\<open>physical_plan::optimize\<close>). A set of tables is a bit mask, as in the code.
\<close>

definition MAX_DP_TABLES :: nat where "MAX_DP_TABLES = 8"

fun flatten_join_chain :: "logical_plan \<Rightarrow> logical_plan list \<times> bound_expr list" where
  "flatten_join_chain (LJoin l r _ c) = (case flatten_join_chain l of (leaves, cs) \<Rightarrow> (leaves @ [r], cs @ [c]))"
| "flatten_join_chain p = ([p], [])"

subsection \<open>Column positions\<close>

fun prefix_sums_from :: "nat \<Rightarrow> nat list \<Rightarrow> nat list" where
  "prefix_sums_from acc [] = []"
| "prefix_sums_from acc (w # ws) = acc # prefix_sums_from (acc + w) ws"

definition prefix_sums :: "nat list \<Rightarrow> nat list" where
  "prefix_sums ws = prefix_sums_from 0 ws"

text \<open>The index into \<open>widths\<close> panics out of range.\<close>

fun offsets_from :: "nat \<Rightarrow> nat list \<Rightarrow> nat list \<Rightarrow> (nat \<rightharpoonup> nat) \<Rightarrow> (nat \<rightharpoonup> nat) outcome" where
  "offsets_from offset [] widths m = Ok m"
| "offsets_from offset (t # ts) widths m =
    and_then (expect (get_at widths t)) (\<lambda>w. offsets_from (offset + w) ts widths (m(t \<mapsto> offset)))"

definition offsets_for_order :: "nat list \<Rightarrow> nat list \<Rightarrow> (nat \<rightharpoonup> nat) outcome" where
  "offsets_for_order order widths = offsets_from 0 order widths Map.empty"

text \<open>The table ordinals that an expression mentions, each once, in order of appearance.\<close>

fun referenced_tables :: "bound_expr \<Rightarrow> nat list \<Rightarrow> nat list" where
  "referenced_tables (BColumnRef t _ _ _ _) out = (if t \<in> set out then out else out @ [t])"
| "referenced_tables (BUnaryOp _ e _ _) out = referenced_tables e out"
| "referenced_tables (BParen e _) out = referenced_tables e out"
| "referenced_tables (BCast e _ _) out = referenced_tables e out"
| "referenced_tables (BIsNull e _ _) out = referenced_tables e out"
| "referenced_tables (BBinaryOp _ l r _ _) out = referenced_tables r (referenced_tables l out)"
| "referenced_tables (BFunctionCall _ args _ _) out = fold referenced_tables args out"
| "referenced_tables _ out = out"

text \<open>
  Both index operations panic on an unknown table, the subtraction on a column left of its table.
\<close>

definition remap_position :: "nat list \<Rightarrow> (nat \<rightharpoonup> nat) \<Rightarrow> nat \<Rightarrow> nat \<Rightarrow> nat outcome" where
  "remap_position orig_offset new_offset t i =
     and_then (expect (get_at orig_offset t)) (\<lambda>o'.
     if i < o' then Panic
     else and_then (expect (new_offset t)) (\<lambda>n. Ok (n + (i - o'))))"

fun remap_condition :: "nat list \<Rightarrow> (nat \<rightharpoonup> nat) \<Rightarrow> bound_expr \<Rightarrow> bound_expr outcome" where
  "remap_condition os m (BColumnRef t i name ty s) =
    and_then (remap_position os m t i) (\<lambda>i. Ok (BColumnRef t i name ty s))"
| "remap_condition os m (BUnaryOp opr e t s) = and_then (remap_condition os m e) (\<lambda>e. Ok (BUnaryOp opr e t s))"
| "remap_condition os m (BBinaryOp opr l r t s) =
    and_then (remap_condition os m l) (\<lambda>l. and_then (remap_condition os m r) (\<lambda>r. Ok (BBinaryOp opr l r t s)))"
| "remap_condition os m (BIsNull e negated s) = and_then (remap_condition os m e) (\<lambda>e. Ok (BIsNull e negated s))"
| "remap_condition os m (BFunctionCall name args t s) =
    and_then (map_outcome (remap_condition os m) args) (\<lambda>args. Ok (BFunctionCall name args t s))"
| "remap_condition os m (BParen e s) = and_then (remap_condition os m e) (\<lambda>e. Ok (BParen e s))"
| "remap_condition os m (BCast e t s) = and_then (remap_condition os m e) (\<lambda>e. Ok (BCast e t s))"
| "remap_condition os m e = Ok e"

subsection \<open>Sorting the conditions\<close>

type_synonym edges = "nat \<times> nat \<rightharpoonup> bound_expr list"

text \<open>
  One conjunct: without a table or with more than two it is residual, with one it becomes a filter of that
  leaf, with two an edge. The index of the leaf panics out of range.
\<close>

definition place_conjunct ::
  "nat list \<Rightarrow> bound_expr \<Rightarrow> edges \<times> bound_expr list list \<times> bound_expr list
   \<Rightarrow> (edges \<times> bound_expr list list \<times> bound_expr list) outcome" where
  "place_conjunct os c = (\<lambda>(edges, extra, residual).
     (case referenced_tables c [] of
        [t] \<Rightarrow>
          and_then (remap_condition os [t \<mapsto> 0] c) (\<lambda>local.
          and_then (expect (get_at extra t)) (\<lambda>es. Ok (edges, extra[t := es @ [local]], residual)))
      | [a, b] \<Rightarrow>
          let k = (min a b, max a b) in
          Ok (edges(k \<mapsto> (case edges k of None \<Rightarrow> [] | Some cs \<Rightarrow> cs) @ [c]), extra, residual)
      | _ \<Rightarrow> Ok (edges, extra, residual @ [c])))"

fun place_conjuncts ::
  "nat list \<Rightarrow> bound_expr list \<Rightarrow> edges \<times> bound_expr list list \<times> bound_expr list
   \<Rightarrow> (edges \<times> bound_expr list list \<times> bound_expr list) outcome" where
  "place_conjuncts os [] st = Ok st"
| "place_conjuncts os (c # cs) st = and_then (place_conjunct os c st) (place_conjuncts os cs)"

definition merge_leaf_filter :: "logical_plan \<Rightarrow> bound_expr \<Rightarrow> logical_plan" where
  "merge_leaf_filter leaf predicate =
     (case leaf of
        LFilter p e \<Rightarrow> LFilter p (conjoin e predicate)
      | _ \<Rightarrow> LFilter leaf predicate)"

definition filtered_leaf :: "logical_plan \<times> bound_expr list \<Rightarrow> logical_plan" where
  "filtered_leaf = (\<lambda>(leaf, extra).
     (case rebuild_conjunction extra of None \<Rightarrow> leaf | Some e \<Rightarrow> merge_leaf_filter leaf e))"

subsection \<open>Dynamic programming over sets of tables\<close>

record dp_entry =
  de_plan :: physical_plan
  de_order :: "nat list"

text \<open>The conditions between the tables of a set and one more table, renumbered for the new order.\<close>

definition connecting_condition ::
  "edges \<Rightarrow> nat \<Rightarrow> nat \<Rightarrow> nat \<Rightarrow> nat list \<Rightarrow> (nat \<rightharpoonup> nat) \<Rightarrow> bound_expr option outcome" where
  "connecting_condition edges prev_mask i n orig_offset new_offset =
     (let cs = concat (map (\<lambda>j. case edges (min i j, max i j) of None \<Rightarrow> [] | Some cs \<Rightarrow> cs)
          (filter (bit prev_mask) [0..<n])) in
      and_then (map_outcome (remap_condition orig_offset new_offset) cs) (\<lambda>cs. Ok (rebuild_conjunction cs)))"

definition true_condition :: bound_expr where
  "true_condition = BBoolLiteral True \<lparr>span_start = 0, span_end = 0\<rparr>"

definition join_condition :: "bound_expr option \<Rightarrow> bound_expr" where
  "join_condition c = (case c of None \<Rightarrow> true_condition | Some c \<Rightarrow> c)"

definition better :: "(physical_plan \<Rightarrow> physical_plan \<Rightarrow> bool) \<Rightarrow> dp_entry \<Rightarrow> dp_entry option \<Rightarrow> dp_entry option" where
  "better cheaper c best =
     (case best of None \<Rightarrow> Some c | Some b \<Rightarrow> if cheaper (de_plan c) (de_plan b) then Some c else Some b)"

text \<open>The best ways to add a last table to the rest of a set, with and without a connecting condition.\<close>

fun dp_candidates ::
  "(physical_plan \<Rightarrow> physical_plan \<Rightarrow> bool) \<Rightarrow> index_lookup \<Rightarrow> edges \<Rightarrow> nat list \<Rightarrow> nat list \<Rightarrow> nat
   \<Rightarrow> (nat \<rightharpoonup> dp_entry) \<Rightarrow> nat \<Rightarrow> (nat \<times> physical_plan) list \<Rightarrow> dp_entry option \<Rightarrow> dp_entry option
   \<Rightarrow> (dp_entry option \<times> dp_entry option) outcome" where
  "dp_candidates cheaper ix edges os widths n dp tables [] con dis = Ok (con, dis)"
| "dp_candidates cheaper ix edges os widths n dp tables ((i, right) # rest) con dis =
    (if \<not> bit tables i then dp_candidates cheaper ix edges os widths n dp tables rest con dis
     else case dp (unset_bit i tables) of
       None \<Rightarrow> dp_candidates cheaper ix edges os widths n dp tables rest con dis
     | Some prev \<Rightarrow>
         let order = de_order prev @ [i] in
         and_then (offsets_for_order order widths) (\<lambda>new_offset.
         and_then (connecting_condition edges (unset_bit i tables) i n os new_offset) (\<lambda>c.
         and_then (join_leaf cheaper ix (de_plan prev) right (join_condition c)) (\<lambda>p.
         let cand = \<lparr>de_plan = p, de_order = order\<rparr> in
         if c \<noteq> None
         then dp_candidates cheaper ix edges os widths n dp tables rest (better cheaper cand con) dis
         else dp_candidates cheaper ix edges os widths n dp tables rest con (better cheaper cand dis)))))"

definition mask_size :: "nat \<Rightarrow> nat \<Rightarrow> nat" where
  "mask_size n tables = length (filter (bit tables) [0..<n])"

fun dp_loop ::
  "(physical_plan \<Rightarrow> physical_plan \<Rightarrow> bool) \<Rightarrow> index_lookup \<Rightarrow> edges \<Rightarrow> nat list \<Rightarrow> nat list \<Rightarrow> physical_plan list
   \<Rightarrow> nat list \<Rightarrow> (nat \<rightharpoonup> dp_entry) \<Rightarrow> (nat \<rightharpoonup> dp_entry) outcome" where
  "dp_loop cheaper ix edges os widths leaves [] dp = Ok dp"
| "dp_loop cheaper ix edges os widths leaves (tables # todo) dp =
    (if mask_size (length leaves) tables < 2 then dp_loop cheaper ix edges os widths leaves todo dp
     else
       and_then (dp_candidates cheaper ix edges os widths (length leaves) dp tables (enumerate 0 leaves) None None)
         (\<lambda>(con, dis).
       and_then (expect (case con of None \<Rightarrow> dis | some \<Rightarrow> some)) (\<lambda>best.
       dp_loop cheaper ix edges os widths leaves todo (dp(tables \<mapsto> best)))))"

definition dp_start :: "physical_plan list \<Rightarrow> nat \<rightharpoonup> dp_entry" where
  "dp_start leaves = map_of (map (\<lambda>(i, p). (2 ^ i, \<lparr>de_plan = p, de_order = [i]\<rparr>)) (enumerate 0 leaves))"

definition best_order ::
  "(physical_plan \<Rightarrow> physical_plan \<Rightarrow> bool) \<Rightarrow> index_lookup \<Rightarrow> edges \<Rightarrow> nat list \<Rightarrow> nat list \<Rightarrow> physical_plan list
   \<Rightarrow> dp_entry outcome" where
  "best_order cheaper ix edges os widths leaves =
     (let full = 2 ^ length leaves - 1 in
      and_then (dp_loop cheaper ix edges os widths leaves [1..<Suc full] (dp_start leaves)) (\<lambda>dp. expect (dp full)))"

subsection \<open>Back to the order of the query\<close>

definition owning_table :: "nat \<Rightarrow> nat list \<Rightarrow> nat list \<Rightarrow> nat outcome" where
  "owning_table g os widths = expect (position (\<lambda>(o', w). o' \<le> g \<and> g < o' + w) (zip os widths))"

definition reorder_item ::
  "nat list \<Rightarrow> nat list \<Rightarrow> (nat \<rightharpoonup> nat) \<Rightarrow> nat \<times> column \<Rightarrow> bound_select_item outcome" where
  "reorder_item os widths new_offset = (\<lambda>(g, c).
     and_then (owning_table g os widths) (\<lambda>t.
     and_then (remap_position os new_offset t g) (\<lambda>i.
     Ok \<lparr>si_expr = BColumnRef t i (col_name c) (col_type c) \<lparr>span_start = 0, span_end = 0\<rparr>,
         si_output_name = col_name c\<rparr>)))"

definition reorder_to_original_layout ::
  "physical_plan \<Rightarrow> nat list \<Rightarrow> nat list \<Rightarrow> schema \<Rightarrow> physical_plan outcome" where
  "reorder_to_original_layout p order widths s =
     (if order = [0..<length widths] then Ok p
      else
        and_then (offsets_for_order order widths) (\<lambda>new_offset.
        and_then (map_outcome (reorder_item (prefix_sums widths) widths new_offset) (enumerate 0 (columns s)))
          (\<lambda>items. Ok (PProjection p items))))"

definition wrap_residual :: "physical_plan \<Rightarrow> bound_expr list \<Rightarrow> physical_plan" where
  "wrap_residual p residual = (case rebuild_conjunction residual of None \<Rightarrow> p | Some e \<Rightarrow> PFilter p e)"

fun combine_from ::
  "(physical_plan \<Rightarrow> physical_plan \<Rightarrow> bool) \<Rightarrow> index_lookup \<Rightarrow> physical_plan \<Rightarrow> (physical_plan \<times> bound_expr) list
   \<Rightarrow> physical_plan outcome" where
  "combine_from cheaper ix p [] = Ok p"
| "combine_from cheaper ix p ((right, c) # rest) =
    and_then (join_leaf cheaper ix p right c) (\<lambda>p. combine_from cheaper ix p rest)"

definition combine_in_syntactic_order ::
  "(physical_plan \<Rightarrow> physical_plan \<Rightarrow> bool) \<Rightarrow> index_lookup \<Rightarrow> physical_plan list \<Rightarrow> bound_expr list
   \<Rightarrow> physical_plan outcome" where
  "combine_in_syntactic_order cheaper ix leaves conditions =
     (case leaves of [] \<Rightarrow> Panic | p # ps \<Rightarrow> combine_from cheaper ix p (zip ps conditions))"

text \<open>
  The choice between the best order found and the order of the query. The residual conditions are put on
  top of either.
\<close>

definition choose_order ::
  "(physical_plan \<Rightarrow> physical_plan \<Rightarrow> bool) \<Rightarrow> index_lookup \<Rightarrow> edges \<Rightarrow> bound_expr list \<Rightarrow> nat list \<Rightarrow> schema
   \<Rightarrow> physical_plan list \<Rightarrow> physical_plan list \<Rightarrow> bound_expr list \<Rightarrow> physical_plan outcome" where
  "choose_order cheaper ix edges residual widths s leaf_plans raw_plans conditions =
     and_then (best_order cheaper ix edges (prefix_sums widths) widths leaf_plans) (\<lambda>best.
     and_then (reorder_to_original_layout (de_plan best) (de_order best) widths s) (\<lambda>reordered.
     and_then (combine_in_syntactic_order cheaper ix raw_plans conditions) (\<lambda>syntactic.
     Ok (wrap_residual (if cheaper reordered syntactic then reordered else syntactic) residual))))"

subsection \<open>From logical to physical plans\<close>

definition concat_schema :: "schema list \<Rightarrow> schema" where
  "concat_schema ss = \<lparr>columns = concat (map columns ss)\<rparr>"

lemma flatten_nodes:
  "leaf \<in> set (fst (flatten_join_chain p)) \<Longrightarrow> plan_nodes leaf \<le> plan_nodes p"
  by (induction p rule: flatten_join_chain.induct) (auto split: prod.splits)

lemma flatten_join_nodes:
  assumes "leaf \<in> set (fst (flatten_join_chain (LJoin l r k c)))"
  shows "plan_nodes leaf + 2 \<le> plan_nodes (LJoin l r k c)"
proof -
  have "0 < plan_nodes q" for q by (cases q) auto
  from this [of l] this [of r] show ?thesis
    using assms flatten_nodes [of leaf l] by (auto split: prod.splits)
qed

lemma flattened_nodes:
  assumes "(leaves, cs) = flatten_join_chain (LJoin l r k c)"
  shows "\<forall>leaf \<in> set leaves. plan_nodes leaf + 2 \<le> plan_nodes (LJoin l r k c)"
  using flatten_join_nodes [of _ l r k c] assms by (metis fst_conv)

lemma filtered_leaf_nodes: "plan_nodes (filtered_leaf (leaf, es)) \<le> Suc (plan_nodes leaf)"
  by (auto simp: filtered_leaf_def merge_leaf_filter_def split: option.splits logical_plan.splits)

text \<open>
  \<open>optimize_join_order\<close> is the branch for three or more leaves; its two other calls of \<open>optimize\<close> are the
  recursive calls on the leaves with and without the filters that the conditions add.
\<close>

function (sequential) phys_optimize ::
  "(physical_plan \<Rightarrow> physical_plan \<Rightarrow> bool) \<Rightarrow> index_lookup \<Rightarrow> logical_plan \<Rightarrow> physical_plan outcome" where
  "phys_optimize cheaper ix (LScan t n s) = Ok (PSeqScan t n s)"
| "phys_optimize cheaper ix (LValues s rows) = Ok (PValues s rows)"
| "phys_optimize cheaper ix (LFilter p e) =
    (case (ix, p) of
       (Some lookup, LScan t n s) \<Rightarrow> choose_scan_plan cheaper lookup t n s e
     | _ \<Rightarrow> and_then (phys_optimize cheaper ix p) (\<lambda>p. Ok (PFilter p e)))"
| "phys_optimize cheaper ix (LJoin l r k c) =
    (case flatten_join_chain (LJoin l r k c) of (leaves, conditions) \<Rightarrow>
     if length leaves < 3 then
       (case (leaves, conditions) of
          (l # r # _, c # _) \<Rightarrow>
            and_then (phys_optimize cheaper ix l) (\<lambda>l.
            and_then (phys_optimize cheaper ix r) (\<lambda>r. join_leaf cheaper ix l r c))
        | _ \<Rightarrow> Panic)
     else if length conditions \<noteq> length leaves - 1 then Panic
     else if MAX_DP_TABLES < length leaves then
       and_then (map_outcome (phys_optimize cheaper ix) leaves) (\<lambda>plans.
       combine_in_syntactic_order cheaper ix plans conditions)
     else
       and_then (map_outcome output_schema leaves) (\<lambda>schemas.
       let widths = map schema_len schemas in
       and_then (place_conjuncts (prefix_sums widths) (concat (map collect_conjuncts conditions))
         (Map.empty, replicate (length leaves) [], [])) (\<lambda>(edges, extra, residual).
       and_then (map_outcome (\<lambda>x. phys_optimize cheaper ix (filtered_leaf x)) (zip leaves extra)) (\<lambda>leaf_plans.
       and_then (map_outcome (phys_optimize cheaper ix) leaves) (\<lambda>raw_plans.
       choose_order cheaper ix edges residual widths (concat_schema schemas) leaf_plans raw_plans conditions)))))"
| "phys_optimize cheaper ix (LAggregate p gs cs s) =
    and_then (phys_optimize cheaper ix p) (\<lambda>p. Ok (PAggregate p gs cs s))"
| "phys_optimize cheaper ix (LProjection p items) =
    and_then (phys_optimize cheaper ix p) (\<lambda>p. Ok (PProjection p items))"
| "phys_optimize cheaper ix (LDistinct p) = and_then (phys_optimize cheaper ix p) (\<lambda>p. Ok (PDistinct p))"
| "phys_optimize cheaper ix (LSort p ks) =
    and_then (phys_optimize cheaper ix p) (\<lambda>p.
    Ok (if sort_is_already_satisfied ks p then p else PSort p ks))"
| "phys_optimize cheaper ix (LLimit p n k) = and_then (phys_optimize cheaper ix p) (\<lambda>p. Ok (PLimit p n k))"
| "phys_optimize cheaper ix (LInsert t n s cs p) =
    and_then (phys_optimize cheaper ix p) (\<lambda>p. Ok (PInsert t n s cs p))"
| "phys_optimize cheaper ix (LUpdate t n s as e p) =
    and_then (phys_optimize cheaper ix p) (\<lambda>p. Ok (PUpdate t n s as e p))"
| "phys_optimize cheaper ix (LDelete t n s e p) =
    and_then (phys_optimize cheaper ix p) (\<lambda>p. Ok (PDelete t n s e p))"
  by pat_completeness auto

termination
  by (relation "measure (\<lambda>(_, _, p). plan_nodes p)")
    (auto simp del: flatten_join_chain.simps plan_nodes.simps(4) dest!: set_zip_leftD flattened_nodes
      intro!: le_less_trans [OF filtered_leaf_nodes])

end
