(* ===== verification/Query_Exec.thy ===== *)
theory Query_Exec
  imports Join_Order Query_Spec
begin

text \<open>
  Running a physical plan on the memory backend (\<open>Database::build_query_executor\<close>, \<open>Database::execute_select\<close>),
  and the proof that a run that succeeds yields the rows that the plan stands for.
\<close>

subsection \<open>Building and running\<close>

definition values_rows :: "function_registry \<Rightarrow> schema \<Rightarrow> expr list list \<Rightarrow> tuple list outcome" where
  "values_rows fns s rows =
     map_outcome (\<lambda>es. and_then (map_outcome (\<lambda>e. eval_expr e fns None) es) (tuple_new s)) rows"

text \<open>
  The rows that the operator yields, or the error of its constructor; the blocking operators read their input
  there. Operators on indexes are unreachable without a disk, writing statements in a query.
\<close>

fun build_executor :: "function_registry \<Rightarrow> nat option \<Rightarrow> mem_storage \<Rightarrow> physical_plan \<Rightarrow> stream outcome" where
  "build_executor fns limit db (PSeqScan tid _ _) = and_then (expect (db tid)) (\<lambda>rows. Ok (rows, Ok ()))"
| "build_executor fns limit db (PValues s rows) = and_then (values_rows fns s rows) (\<lambda>ts. Ok (ts, Ok ()))"
| "build_executor fns limit db (PFilter p e) =
    and_then (build_executor fns limit db p) (\<lambda>(ts, end').
    and_then (phys_schema p) (\<lambda>s. Ok (filter_rows fns s e ts end')))"
| "build_executor fns limit db (PNestedLoopJoin l r k c) =
    and_then (build_executor fns limit db l) (\<lambda>(ls, end').
    and_then (build_executor fns limit db r) (\<lambda>right.
    and_then (collect right) (\<lambda>rows.
    and_then (phys_schema (PNestedLoopJoin l r k c)) (\<lambda>s. Ok (nested_loop_rows fns s c rows ls end')))))"
| "build_executor fns limit db (PHashJoin l r k ks c) =
    and_then (build_executor fns limit db l) (\<lambda>(ls, end').
    and_then (build_executor fns limit db r) (\<lambda>(rs, rend).
    and_then (phys_schema l) (\<lambda>lschema.
    and_then (phys_schema r) (\<lambda>rschema.
    and_then (hash_build fns rschema (map snd ks) limit rs rend Map.empty 0) (\<lambda>table.
    Ok (hash_probe_rows fns lschema (join_schema lschema rschema) (map fst ks) table ls end'))))))"
| "build_executor fns limit db (PAggregate p gs cs out) =
    and_then (build_executor fns limit db p) (\<lambda>st.
    and_then (phys_schema p) (\<lambda>s.
    and_then (aggregate_rows fns s out gs cs limit st) (\<lambda>ts. Ok (ts, Ok ()))))"
| "build_executor fns limit db (PProjection p items) =
    and_then (build_executor fns limit db p) (\<lambda>(ts, end').
    and_then (phys_schema p) (\<lambda>s.
    and_then (projection_schema s items) (\<lambda>out. Ok (project_rows fns s out items ts end'))))"
| "build_executor fns limit db (PDistinct p) =
    and_then (build_executor fns limit db p) (\<lambda>(ts, end'). Ok (distinct_rows {} ts end'))"
| "build_executor fns limit db (PSort p ks) =
    and_then (build_executor fns limit db p) (\<lambda>st.
    and_then (phys_schema p) (\<lambda>s.
    and_then (sort_rows fns s ks limit st) (\<lambda>ts. Ok (ts, Ok ()))))"
| "build_executor fns limit db (PLimit p n k) =
    and_then (build_executor fns limit db p) (\<lambda>(ts, end').
    Ok (limit_rows (case k of None \<Rightarrow> 0 | Some k \<Rightarrow> k) n ts end'))"
| "build_executor fns limit db _ = Panic"

text \<open>\<open>execute_select\<close> after the locks are taken: optimise, plan, build, and pull to the end.\<close>

definition execute_select ::
  "(physical_plan \<Rightarrow> physical_plan \<Rightarrow> bool) \<Rightarrow> function_registry \<Rightarrow> nat option \<Rightarrow> mem_storage \<Rightarrow> logical_plan
   \<Rightarrow> (schema \<times> tuple list) outcome" where
  "execute_select cheaper fns limit db p =
     and_then (optimize p fns) (\<lambda>p.
     and_then (phys_optimize cheaper None p) (\<lambda>q.
     and_then (phys_schema q) (\<lambda>s.
     and_then (build_executor fns limit db q) (\<lambda>st.
     and_then (collect st) (\<lambda>rows. Ok (s, rows))))))"

subsection \<open>The rows of a physical plan\<close>

definition keys_match :: "function_registry \<Rightarrow> (bound_expr \<times> bound_expr) list \<Rightarrow> tuple \<Rightarrow> tuple \<Rightarrow> bool" where
  "keys_match fns ks l r \<longleftrightarrow>
     (let a = key_values fns (map fst ks) l in list_all (\<lambda>v. v \<noteq> VNull) a \<and> a = key_values fns (map snd ks) r)"

fun phys_rows :: "function_registry \<Rightarrow> mem_storage \<Rightarrow> physical_plan \<Rightarrow> tuple list" where
  "phys_rows fns db (PSeqScan tid _ _) = (case db tid of None \<Rightarrow> [] | Some rows \<Rightarrow> rows)"
| "phys_rows fns db (PValues s rows) = (case values_rows fns s rows of Ok ts \<Rightarrow> ts | _ \<Rightarrow> [])"
| "phys_rows fns db (PFilter p e) = filter (holds fns e) (phys_rows fns db p)"
| "phys_rows fns db (PNestedLoopJoin l r _ c) =
    filter (holds fns c) (concat (map (\<lambda>x. map (join_tuple x) (phys_rows fns db r)) (phys_rows fns db l)))"
| "phys_rows fns db (PHashJoin l r _ ks _) =
    concat (map (\<lambda>x. map (join_tuple x) (filter (keys_match fns ks x) (phys_rows fns db r))) (phys_rows fns db l))"
| "phys_rows fns db (PAggregate p gs cs _) = grouped_rows fns gs cs (phys_rows fns db p)"
| "phys_rows fns db (PProjection p items) = map (project_tuple fns items) (phys_rows fns db p)"
| "phys_rows fns db (PDistinct p) = distinct_from {} (phys_rows fns db p)"
| "phys_rows fns db (PSort p ks) = sorted_rows fns ks (phys_rows fns db p)"
| "phys_rows fns db (PLimit p limit offset) =
    (let rows = drop (case offset of None \<Rightarrow> 0 | Some k \<Rightarrow> k) (phys_rows fns db p) in
     case limit of None \<Rightarrow> rows | Some n \<Rightarrow> take n rows)"
| "phys_rows fns db _ = []"

subsection \<open>Streams that follow a list of rows\<close>

text \<open>The stream yields the given rows, or stops among them with an error.\<close>

definition follows :: "stream \<Rightarrow> tuple list \<Rightarrow> bool" where
  "follows st rows \<longleftrightarrow> (\<exists>rest. rows = fst st @ rest \<and> (snd st = Ok () \<longrightarrow> rest = []))"

lemma follows_simps [simp]:
  "follows (rows, Ok ()) rows' \<longleftrightarrow> rows' = rows"
  "follows ([], Err e) rows" "follows ([], Panic) rows"
  "follows (emit t st) (t # rows) \<longleftrightarrow> follows st rows"
  by (auto simp: follows_def emit_def)

lemma follows_then:
  "(\<And>x. r = Ok x \<Longrightarrow> follows (f x) rows) \<Longrightarrow> follows (stream_then r f) rows"
  by (cases r) auto

lemma collect_follows: "collect st = Ok rows' \<Longrightarrow> follows st rows \<Longrightarrow> rows' = rows"
  by (cases st) (auto simp: collect_def and_then_Ok_iff)

text \<open>
  An operator is sound if, fed with any initial part of its input, it follows its specification on the whole
  input, however that goes on.
\<close>

lemma filter_rows_follow:
  "(end' = Ok () \<longrightarrow> rest = []) \<Longrightarrow> follows (filter_rows fns s e ts end') (filter (holds fns e) (ts @ rest))"
proof (induction ts)
  case (Cons t ts)
  show ?case
    unfolding filter_rows.simps
  proof (rule follows_then)
    fix m assume "and_then (eval_bound_expr e fns (row_of s t)) predicate_matches = Ok m"
    from predicate_holds [OF this] Cons
    show "follows (if m then emit t (filter_rows fns s e ts end') else filter_rows fns s e ts end')
      (filter (holds fns e) ((t # ts) @ rest))" by auto
  qed
qed (auto simp: follows_def)

lemma tuple_new_value: "tuple_new s vs = Ok t \<Longrightarrow> t = tuple_of vs"
  by (auto simp: tuple_new_iff tuple_of_def)

lemma map_outcome_values:
  "map_outcome (\<lambda>x. eval_bound_expr (g x) fns (row_of s t)) xs = Ok vs \<Longrightarrow> vs = map (\<lambda>x. value_of fns (g x) t) xs"
proof (induction xs arbitrary: vs)
  case (Cons x xs)
  then show ?case using value_of_Ok(1) [of "g x" fns "row_of s t" _ s t] by (auto simp: and_then_Ok_iff)
qed simp

lemma project_row_value: "project_row fns ins outs items t = Ok u \<Longrightarrow> u = project_tuple fns items t"
  by (auto simp: project_row_def and_then_Ok_iff project_tuple_def dest!: map_outcome_values tuple_new_value)

lemma project_rows_follow:
  "(end' = Ok () \<longrightarrow> rest = []) \<Longrightarrow>
   follows (project_rows fns ins outs items ts end') (map (project_tuple fns items) (ts @ rest))"
proof (induction ts)
  case (Cons t ts)
  then show ?case by (auto intro!: follows_then dest!: project_row_value)
qed (auto simp: follows_def)

lemma tup_values_inject: "tup_values t = tup_values u \<longleftrightarrow> t = (u :: tuple)"
  using tuple.equality [of t u] by auto

lemma distinct_rows_follow:
  "(end' = Ok () \<longrightarrow> rest = []) \<Longrightarrow>
   follows (distinct_rows (tup_values ` seen) ts end') (distinct_from seen (ts @ rest))"
proof (induction ts arbitrary: seen)
  case (Cons t ts)
  have "tup_values t \<in> tup_values ` seen \<longleftrightarrow> t \<in> seen" by (auto simp: tup_values_inject)
  with Cons.IH [of "insert t seen"] Cons.IH [of seen] Cons.prems show ?case by auto
qed (auto simp: follows_def)

definition limited :: "nat \<Rightarrow> nat option \<Rightarrow> 'a list \<Rightarrow> 'a list" where
  "limited offset limit rows = (case limit of None \<Rightarrow> drop offset rows | Some n \<Rightarrow> take n (drop offset rows))"

lemma limit_rows_follow:
  "(end' = Ok () \<longrightarrow> rest = []) \<Longrightarrow> follows (limit_rows offset limit ts end') (limited offset limit (ts @ rest))"
proof (induction offset limit ts end' rule: limit_rows.induct)
  case (1 offset limit end')
  then show ?case by (cases end'; cases limit) (auto simp: follows_def limited_def)
next
  case (2 offset limit t ts end')
  show ?case
  proof (cases "limit = Some 0")
    case True
    then show ?thesis by (simp add: limited_def)
  next
    case False
    show ?thesis
    proof (cases "0 < offset")
      case True
      with False 2 show ?thesis by (cases offset; cases limit) (auto simp: limited_def)
    next
      case zero: False
      then have "follows (limit_rows 0 (map_option (\<lambda>n. n - 1) limit) ts end')
          (limited 0 (map_option (\<lambda>n. n - 1) limit) (ts @ rest))"
        using 2 False by simp
      moreover have "offset = 0" using zero by simp
      ultimately show ?thesis using False by (cases limit) (auto simp: limited_def gr0_conv_Suc take_Cons split: nat.splits)
    qed
  qed
qed

lemma concat_tuple_value: "concat_tuple s l r = Ok t \<Longrightarrow> t = join_tuple l r"
  by (auto simp: concat_tuple_def join_tuple_def dest: tuple_new_value)

lemma probe_rows_follow:
  "follows rest rows \<Longrightarrow> follows (probe_rows fns s c l rs rest) (filter (holds fns c) (map (join_tuple l) rs) @ rows)"
proof (induction rs)
  case (Cons r rs)
  show ?case
    unfolding probe_rows.simps
  proof (intro follows_then)
    fix t m
    assume t: "concat_tuple s l r = Ok t" and m: "and_then (eval_bound_expr c fns (row_of s t)) predicate_matches = Ok m"
    from concat_tuple_value [OF t] predicate_holds [OF m] Cons
    show "follows (if m then emit t (probe_rows fns s c l rs rest) else probe_rows fns s c l rs rest)
      (filter (holds fns c) (map (join_tuple l) (r # rs)) @ rows)" by auto
  qed
qed simp

lemma nested_loop_follow:
  "(end' = Ok () \<longrightarrow> rest = []) \<Longrightarrow>
   follows (nested_loop_rows fns s c rows ls end')
     (filter (holds fns c) (concat (map (\<lambda>x. map (join_tuple x) rows) (ls @ rest))))"
proof (induction ls)
  case (Cons l ls)
  from probe_rows_follow [OF Cons.IH [OF Cons.prems], of fns s c l rows] show ?case by simp
qed (auto simp: follows_def)

text \<open>The hash table maps every key to the rows with this key, in their order.\<close>

lemma eval_keys_value: "eval_keys fns s es t = Ok k \<Longrightarrow> k = key_values fns es t"
  unfolding eval_keys_def key_values_def by (rule map_outcome_values)

definition table_rows :: "function_registry \<Rightarrow> bound_expr list \<Rightarrow> hash_table \<Rightarrow> tuple list \<Rightarrow> bool" where
  "table_rows fns es m rows \<longleftrightarrow>
     (\<forall>k. list_all (\<lambda>v. v \<noteq> VNull) k \<longrightarrow>
       (case m k of None \<Rightarrow> [] | Some ts \<Rightarrow> ts) = filter (\<lambda>r. key_values fns es r = k) rows)"

lemma is_null_iff: "is_null v \<longleftrightarrow> v = VNull"
  by (cases v) auto

lemma hash_build_rows:
  "hash_build fns s es limit ts end' m n = Ok m' \<Longrightarrow> table_rows fns es m rows \<Longrightarrow>
   end' = Ok () \<and> table_rows fns es m' (rows @ ts)"
proof (induction fns s es limit ts end' m n arbitrary: rows rule: hash_build.induct)
  case (1 fns s ks limit end' m n)
  then show ?case by (cases end') auto
next
  case (2 fns s ks limit t ts end' m n)
  then obtain k where k: "eval_keys fns s ks t = Ok k" by (auto simp: and_then_Ok_iff)
  note key = eval_keys_value [OF k]
  show ?case
  proof (cases "list_ex is_null k")
    case True
    then have "table_rows fns ks m (rows @ [t])"
      using 2(4) key by (auto simp: table_rows_def list_ex_iff list_all_iff is_null_iff)
    with "2.IH"(1) [OF k True, of "rows @ [t]"] 2(3) True show ?thesis by (simp add: k)
  next
    case False
    then obtain u where c: "check_row_limit limit ''Hash Join'' (n + 1) = Ok u"
      and b: "hash_build fns s ks limit ts end' (hash_push m k t) (n + 1) = Ok m'"
      using 2(3) by (auto simp: k and_then_Ok_iff)
    have "table_rows fns ks (hash_push m k t) (rows @ [t])"
      using 2(4) key by (auto simp: table_rows_def hash_push_def split: option.splits)
    with "2.IH"(2) [OF k False c b, of "rows @ [t]"] show ?thesis by simp
  qed
qed

lemma hash_matches_follow:
  "follows rest rows \<Longrightarrow> follows (hash_matches s l rs rest) (map (join_tuple l) rs @ rows)"
  by (induction rs) (auto intro!: follows_then dest!: concat_tuple_value)

lemma hash_probe_follow:
  assumes m: "table_rows fns (map snd ks) m rrows"
  shows "(end' = Ok () \<longrightarrow> rest = []) \<Longrightarrow>
   follows (hash_probe_rows fns lschema s (map fst ks) m ls end')
     (concat (map (\<lambda>x. map (join_tuple x) (filter (keys_match fns ks x) rrows)) (ls @ rest)))"
proof (induction ls)
  case (Cons l ls)
  show ?case
    unfolding hash_probe_rows.simps
  proof (rule follows_then)
    fix k assume "eval_keys fns lschema (map fst ks) l = Ok k"
    from eval_keys_value [OF this] have k: "k = key_values fns (map fst ks) l" .
    show "follows (if list_ex is_null k then hash_probe_rows fns lschema s (map fst ks) m ls end'
        else hash_matches s l (case m k of None \<Rightarrow> [] | Some ts \<Rightarrow> ts) (hash_probe_rows fns lschema s (map fst ks) m ls end'))
      (concat (map (\<lambda>x. map (join_tuple x) (filter (keys_match fns ks x) rrows)) ((l # ls) @ rest)))"
    proof (cases "list_ex is_null k")
      case True
      then have "\<not> keys_match fns ks l r" for r
        by (auto simp: keys_match_def Let_def k list_ex_iff list_all_iff is_null_iff)
      with True Cons show ?thesis by simp
    next
      case False
      then have nn: "list_all (\<lambda>v. v \<noteq> VNull) k" by (auto simp: list_ex_iff list_all_iff is_null_iff)
      then have "filter (keys_match fns ks l) rrows = (case m k of None \<Rightarrow> [] | Some ts \<Rightarrow> ts)"
        using m by (auto simp: table_rows_def keys_match_def k intro!: filter_cong)
      with False hash_matches_follow [OF Cons.IH [OF Cons.prems]] show ?thesis by simp
    qed
  qed
qed (auto simp: follows_def)

subsection \<open>Aggregation\<close>

lemma accumulate_append:
  "accumulate func a (vs @ [v]) = and_then (accumulate func a vs) (\<lambda>a. agg_update a func v)"
proof (induction vs arbitrary: a)
  case Nil
  then show ?case by (cases "agg_update a func v") auto
qed (simp add: and_then_assoc)

text \<open>The values that a call has seen in one group.\<close>

definition group_values ::
  "function_registry \<Rightarrow> bound_expr list \<Rightarrow> aggregate_call \<Rightarrow> val list \<Rightarrow> tuple list \<Rightarrow> val option list" where
  "group_values fns gs c k ts =
     map (\<lambda>t. map_option (\<lambda>e. value_of fns e t) (ac_arg c)) (filter (\<lambda>t. key_values fns gs t = k) ts)"

definition states_ok ::
  "function_registry \<Rightarrow> bound_expr list \<Rightarrow> aggregate_call list \<Rightarrow> tuple list \<Rightarrow> val list \<times> agg_state list \<Rightarrow> bool" where
  "states_ok fns gs calls ts = (\<lambda>(k, as).
     list_all2 (\<lambda>c a. accumulate (ac_func c) agg_new (group_values fns gs c k ts) = Ok a) calls as)"

definition row_keys :: "function_registry \<Rightarrow> bound_expr list \<Rightarrow> tuple list \<Rightarrow> val list list" where
  "row_keys fns gs ts = rev (remdups (rev (map (key_values fns gs) ts)))"

definition groups_ok ::
  "function_registry \<Rightarrow> bound_expr list \<Rightarrow> aggregate_call list \<Rightarrow> tuple list \<Rightarrow> agg_groups \<Rightarrow> bool" where
  "groups_ok fns gs calls ts groups \<longleftrightarrow>
     map fst groups = row_keys fns gs ts \<and> list_all (states_ok fns gs calls ts) groups"

lemma row_keys_append:
  "row_keys fns gs (ts @ [t]) =
    (if key_values fns gs t \<in> set (row_keys fns gs ts) then row_keys fns gs ts
     else row_keys fns gs ts @ [key_values fns gs t])"
  by (simp add: row_keys_def)

lemma group_values_append:
  "group_values fns gs c k (ts @ [t]) =
    group_values fns gs c k ts
    @ (if key_values fns gs t = k then [map_option (\<lambda>e. value_of fns e t) (ac_arg c)] else [])"
  by (simp add: group_values_def)

lemma agg_arg_value: "agg_arg fns s t c = Ok v \<Longrightarrow> v = map_option (\<lambda>e. value_of fns e t) (ac_arg c)"
  using value_of_Ok(1) by (fastforce simp: agg_arg_def and_then_Ok_iff split: option.splits)

text \<open>One row adds its values to the states of its group.\<close>

lemma update_states_ok:
  "list_all2 (\<lambda>c a. accumulate (ac_func c) agg_new (group_values fns gs c k ts) = Ok a) calls as \<Longrightarrow>
   update_states fns s t calls as = Ok as' \<Longrightarrow> key_values fns gs t = k \<Longrightarrow>
   list_all2 (\<lambda>c a. accumulate (ac_func c) agg_new (group_values fns gs c k (ts @ [t])) = Ok a) calls as'"
proof (induction arbitrary: as' rule: list_all2_induct)
  case (Cons c calls a as)
  then show ?case
    by (auto simp: and_then_Ok_iff group_values_append accumulate_append dest!: agg_arg_value)
qed simp

lemma states_ok_other:
  "states_ok fns gs calls ts g \<Longrightarrow> fst g \<noteq> key_values fns gs t \<Longrightarrow> states_ok fns gs calls (ts @ [t]) g"
  by (auto simp: states_ok_def group_values_append split: prod.splits elim!: list.rel_mono_strong)

lemma states_ok_new:
  "k \<notin> set (row_keys fns gs ts) \<Longrightarrow> states_ok fns gs calls ts (k, map (\<lambda>_. agg_new) calls)"
proof -
  assume "k \<notin> set (row_keys fns gs ts)"
  then have "group_values fns gs c k ts = []" for c
    by (auto simp: group_values_def row_keys_def filter_empty_conv)
  then show ?thesis by (simp add: states_ok_def list.rel_map list.rel_refl_strong)
qed

lemma open_group_ok:
  assumes "groups_ok fns gs calls ts groups" "open_group calls groups k = (groups', i)"
  shows "i < length groups'" "fst (groups' ! i) = k" "list_all (states_ok fns gs calls ts) groups'"
    "map fst groups' = (if k \<in> set (row_keys fns gs ts) then row_keys fns gs ts else row_keys fns gs ts @ [k])"
proof -
  have keys: "map fst groups = row_keys fns gs ts" using assms(1) by (simp add: groups_ok_def)
  have "i < length groups' \<and> fst (groups' ! i) = k \<and> list_all (states_ok fns gs calls ts) groups'
    \<and> map fst groups' = (if k \<in> set (row_keys fns gs ts) then row_keys fns gs ts else row_keys fns gs ts @ [k])"
  proof (cases "group_index groups k")
    case None
    then have "k \<notin> set (row_keys fns gs ts)"
      unfolding keys [symmetric] by (auto simp: group_index_def position_None_iff)
    with None assms states_ok_new [OF this] keys show ?thesis by (auto simp: open_group_def groups_ok_def)
  next
    case (Some j)
    then have "j < length groups" "fst (groups ! j) = k" by (auto simp: group_index_def position_Some_iff)
    then have "k \<in> set (row_keys fns gs ts)" unfolding keys [symmetric] using nth_mem [of j groups] by auto
    with Some assms \<open>j < length groups\<close> \<open>fst (groups ! j) = k\<close> keys show ?thesis by (auto simp: open_group_def groups_ok_def)
  qed
  then show "i < length groups'" "fst (groups' ! i) = k" "list_all (states_ok fns gs calls ts) groups'"
    "map fst groups' = (if k \<in> set (row_keys fns gs ts) then row_keys fns gs ts else row_keys fns gs ts @ [k])" by auto
qed

lemma distinct_row_keys: "distinct (row_keys fns gs ts)"
  by (simp add: row_keys_def)

lemma aggregate_groups_ok:
  "aggregate_groups fns s gs calls limit ts end' groups = Ok groups' \<Longrightarrow> groups_ok fns gs calls prior groups \<Longrightarrow>
   end' = Ok () \<and> groups_ok fns gs calls (prior @ ts) groups'"
proof (induction ts arbitrary: prior groups)
  case Nil
  then show ?case by (cases end') auto
next
  case (Cons t ts)
  from Cons.prems(1) obtain k where k: "eval_keys fns s gs t = Ok k" by (auto simp: and_then_Ok_iff)
  obtain groups1 i where o': "open_group calls groups k = (groups1, i)" by fastforce
  from Cons.prems(1) obtain as where
    as: "update_states fns s t calls (snd (groups1 ! i)) = Ok as"
    and run: "aggregate_groups fns s gs calls limit ts end' (groups1[i := (fst (groups1 ! i), as)]) = Ok groups'"
    by (auto simp: and_then_Ok_iff k o')
  note key = eval_keys_value [OF k]
  note og = open_group_ok [OF Cons.prems(2) o']
  have "groups1 ! i = (k, snd (groups1 ! i))" using og(2) by (simp add: prod_eq_iff)
  moreover have "states_ok fns gs calls prior (groups1 ! i)" using og(1,3) by (simp add: list_all_length)
  ultimately have "states_ok fns gs calls prior (k, snd (groups1 ! i))" by metis
  then have upd: "states_ok fns gs calls (prior @ [t]) (k, as)"
    using update_states_ok [OF _ as key [symmetric]] by (simp add: states_ok_def)
  have dist: "distinct (map fst groups1)" unfolding og(4) by (auto simp: distinct_row_keys)
  have "states_ok fns gs calls (prior @ [t]) (groups1[i := (k, as)] ! j)" if "j < length groups1" for j
  proof (cases "j = i")
    case False
    then have "fst (groups1 ! j) \<noteq> key_values fns gs t"
      using dist that og(1,2) key by (metis length_map nth_eq_iff_index_eq nth_map)
    with False that og(3) states_ok_other show ?thesis by (simp add: list_all_length)
  qed (use upd og(1) in simp)
  moreover have "map fst (groups1[i := (k, as)]) = row_keys fns gs (prior @ [t])"
  proof -
    have "map fst (groups1[i := (k, as)]) = map fst groups1"
      using og(1,2) by (simp add: map_update list_update_same_conv)
    then show ?thesis by (simp only: og(4) row_keys_append key [symmetric])
  qed
  ultimately have "groups_ok fns gs calls (prior @ [t]) (groups1[i := (k, as)])"
    by (simp add: groups_ok_def list_all_length)
  from Cons.IH [OF _ this] run og(2) show ?case by simp
qed

lemma group_row_states:
  assumes "states_ok fns gs calls ts (k, as)"
  shows "group_row calls (map (\<lambda>t. (key_values fns gs t, call_values fns calls t)) ts) k =
    tuple_of (k @ map (\<lambda>(c, a). agg_finish a (ac_func c)) (zip calls as))"
proof -
  have *: "list_all2 (\<lambda>c a. accumulate (ac_func c) agg_new (group_values fns gs c k ts) = Ok a) calls as"
    using assms by (simp add: states_ok_def)
  have "map (\<lambda>(i, c). aggregate_value (ac_func c) (map (\<lambda>(_, vs). vs ! i)
      (filter (\<lambda>(k', _). k' = k) (map (\<lambda>t. (key_values fns gs t, call_values fns calls t)) ts))))
      (enumerate 0 calls) = map (\<lambda>c. aggregate_value (ac_func c) (group_values fns gs c k ts)) calls"
    by (rule nth_equalityI)
      (auto simp: nth_enumerate_eq group_values_def call_values_def filter_map comp_def
        intro!: arg_cong2 [where f = aggregate_value])
  also have "\<dots> = map (\<lambda>(c, a). agg_finish a (ac_func c)) (zip calls as)"
    using * by (intro nth_equalityI) (auto simp: list_all2_conv_all_nth aggregate_value_def)
  finally show ?thesis by (simp add: group_row_def)
qed

lemma aggregate_rows_value:
  assumes run: "aggregate_rows fns s out gs calls limit st = Ok rows" and st: "follows st ts"
  shows "rows = grouped_rows fns gs calls ts"
proof -
  from run obtain groups where g: "aggregate_groups fns s gs calls limit (fst st) (snd st) [] = Ok groups"
    and fin: "map_outcome (finish_group out calls)
      (if groups = [] \<and> gs = [] then [([], map (\<lambda>_. agg_new) calls)] else groups) = Ok rows"
    by (auto simp: aggregate_rows_def and_then_Ok_iff)
  have "groups_ok fns gs calls [] []" by (simp add: groups_ok_def row_keys_def)
  from aggregate_groups_ok [OF g this] st have ok: "groups_ok fns gs calls ts groups"
    by (auto simp: follows_def)
  define groups' where "groups' = (if groups = [] \<and> gs = [] then [([], map (\<lambda>_. agg_new) calls)] else groups)"
  have empty: "groups = [] \<longleftrightarrow> ts = []"
    using ok by (auto simp: groups_ok_def row_keys_def dest: arg_cong [where f = length])
  have keys: "map fst groups' = (if ts = [] \<and> gs = [] then [[]] else row_keys fns gs ts)"
    using ok empty by (auto simp: groups'_def groups_ok_def)
  have states: "list_all (states_ok fns gs calls ts) groups'"
    using ok empty by (auto simp: groups'_def groups_ok_def intro: states_ok_new simp: row_keys_def)
  have "rows = map (\<lambda>g. group_row calls (map (\<lambda>t. (key_values fns gs t, call_values fns calls t)) ts) (fst g)) groups'"
    using fin [folded groups'_def] states
  proof (induction groups' arbitrary: rows)
    case (Cons g groups')
    then show ?case
      by (cases g) (auto simp: and_then_Ok_iff finish_group_def group_row_states dest!: tuple_new_value)
  qed simp
  also have "\<dots> = map (group_row calls (map (\<lambda>t. (key_values fns gs t, call_values fns calls t)) ts)) (map fst groups')"
    by simp
  also have "\<dots> = grouped_rows fns gs calls ts"
    unfolding keys by (simp add: grouped_rows_def Let_def first_keys_def row_keys_def comp_def)
  finally show ?thesis .
qed

subsection \<open>Sorting and rows of literals\<close>

lemma key_rows_value:
  "key_rows fns s ks limit ts end' n = Ok keyed \<Longrightarrow>
   end' = Ok () \<and> keyed = map (\<lambda>t. (key_values fns (map sk_expr ks) t, t)) ts"
  by (induction fns s ks limit ts end' n arbitrary: keyed rule: key_rows.induct)
    (auto simp: and_then_Ok_iff dest: eval_keys_value)

lemma sort_rows_value:
  "sort_rows fns s ks limit st = Ok rows \<Longrightarrow> follows st ts \<Longrightarrow> rows = sorted_rows fns ks ts"
  by (auto simp: sort_rows_def and_then_Ok_iff sorted_rows_def follows_def dest!: key_rows_value split: if_splits)

subsection \<open>A run that succeeds yields the rows of the plan\<close>

lemma follows_elim:
  assumes "follows (ts, end') rows"
  obtains rest where "rows = ts @ rest" "end' = Ok () \<longrightarrow> rest = []"
  using assms by (auto simp: follows_def)

lemma exec_sound: "build_executor fns limit db q = Ok st \<Longrightarrow> follows st (phys_rows fns db q)"
proof (induction fns limit db q arbitrary: st rule: build_executor.induct)
  case (3 fns limit db q e)
  then obtain ts end' s where q: "build_executor fns limit db q = Ok (ts, end')"
    and st: "st = filter_rows fns s e ts end'" by (auto simp: and_then_Ok_iff)
  from "3.IH" [OF q] show ?case
    unfolding st phys_rows.simps by (rule follows_elim) (auto intro: filter_rows_follow [of end', simplified])
next
  case (4 fns limit db l r k c)
  then obtain ls end' right rows s where l: "build_executor fns limit db l = Ok (ls, end')"
    and r: "build_executor fns limit db r = Ok right" "collect right = Ok rows"
    and st: "st = nested_loop_rows fns s c rows ls end'"
    by (auto simp: and_then_Ok_iff)
  have "rows = phys_rows fns db r" by (rule collect_follows [OF r(2) "4.IH"(2) [OF l refl r(1)]])
  moreover have "follows (ls, end') (phys_rows fns db l)" using l by (rule "4.IH"(1))
  ultimately obtain rest where "phys_rows fns db l = ls @ rest" "end' = Ok () \<longrightarrow> rest = []"
    and "rows = phys_rows fns db r" by (metis follows_elim)
  then show ?case
    unfolding st using nested_loop_follow [of end' rest fns s c rows ls] by simp
next
  case (5 fns limit db l r k ks c)
  then obtain ls end' rs rend lschema rschema m where l: "build_executor fns limit db l = Ok (ls, end')"
    and r: "build_executor fns limit db r = Ok (rs, rend)"
    and m: "hash_build fns rschema (map snd ks) limit rs rend Map.empty 0 = Ok m"
    and st: "st = hash_probe_rows fns lschema (join_schema lschema rschema) (map fst ks) m ls end'"
    by (auto simp: and_then_Ok_iff)
  have "table_rows fns (map snd ks) Map.empty []" by (simp add: table_rows_def)
  from hash_build_rows [OF m this] have rend: "rend = Ok ()" and m': "table_rows fns (map snd ks) m rs" by simp_all
  have "rs = phys_rows fns db r" using "5.IH"(2) [OF l refl r] by (simp add: rend)
  moreover have "follows (ls, end') (phys_rows fns db l)" using l by (rule "5.IH"(1))
  ultimately obtain rest where "phys_rows fns db l = ls @ rest" "end' = Ok () \<longrightarrow> rest = []"
    and "rs = phys_rows fns db r" by (metis follows_elim)
  then show ?case
    unfolding st using hash_probe_follow [OF m', of end' rest lschema "join_schema lschema rschema" ls] by simp
next
  case (6 fns limit db q gs cs out)
  then show ?case by (auto simp: and_then_Ok_iff dest: aggregate_rows_value)
next
  case (7 fns limit db q items)
  then obtain ts end' ins outs where q: "build_executor fns limit db q = Ok (ts, end')"
    and st: "st = project_rows fns ins outs items ts end'" by (auto simp: and_then_Ok_iff)
  from "7.IH" [OF q] show ?case
    unfolding st phys_rows.simps by (rule follows_elim) (auto intro: project_rows_follow [of end', simplified])
next
  case (8 fns limit db q)
  then obtain ts end' where q: "build_executor fns limit db q = Ok (ts, end')"
    and st: "st = distinct_rows {} ts end'" by (auto simp: and_then_Ok_iff)
  show ?case
    unfolding st phys_rows.simps
    using "8.IH" [OF q]
  proof (rule follows_elim)
    fix rest assume "phys_rows fns db q = ts @ rest" "end' = Ok () \<longrightarrow> rest = []"
    with distinct_rows_follow [of end' rest "{}" ts]
    show "follows (distinct_rows {} ts end') (distinct_from {} (phys_rows fns db q))" by simp
  qed
next
  case (9 fns limit db q ks)
  then show ?case by (auto simp: and_then_Ok_iff dest: sort_rows_value)
next
  case (10 fns limit db q n k)
  then obtain ts end' where q: "build_executor fns limit db q = Ok (ts, end')"
    and st: "st = limit_rows (case k of None \<Rightarrow> 0 | Some k \<Rightarrow> k) n ts end'" by (auto simp: and_then_Ok_iff)
  have "follows st (limited (case k of None \<Rightarrow> 0 | Some k \<Rightarrow> k) n (phys_rows fns db q))"
    unfolding st using "10.IH" [OF q] by (rule follows_elim) (auto intro: limit_rows_follow)
  then show ?case by (simp add: limited_def Let_def)
qed (auto simp: and_then_Ok_iff split: option.splits outcome.splits)

end
