(* ===== verification/Exec_Correct.thy ===== *)
theory Exec_Correct
  imports Rules_Correct Query_Exec
begin

text \<open>
  The physical plan of a typed logical plan yields the rows of the logical plan, and with the rewriting rules
  and the operators: a \<open>SELECT\<close> that succeeds returns the rows that its query means. The plans covered are
  those whose chains of joins have two leaves, which keep the order of the query; indexes need a disk.
\<close>

subsection \<open>Keys of a hash join\<close>

lemma holds_Eq:
  assumes reg: "registry_typed fns" and x: "row_typed ts x"
    and e: "expr_ok fns ts TBoolean (BBinaryOp Eq l r t s)"
  shows "holds fns (BBinaryOp Eq l r t s) x \<longleftrightarrow>
    value_of fns l x \<noteq> VNull \<and> value_of fns l x = value_of fns r x"
proof -
  have wt: "well_typed fns (type_columns ts) l" "closed_expr l" "well_typed fns (type_columns ts) r" "closed_expr r"
    and types: "bound_type l = None \<or> bound_type r = None \<or> bound_type l = bound_type r"
    using e by (auto simp: expr_ok_def)
  note typed = value_of_typed [OF reg x wt(1,2)] value_of_typed [OF reg x wt(3,4)]
  show ?thesis
    using typed types
    by (cases "value_of fns l x"; cases "value_of fns r x")
      (auto simp: holds_def binary_dispatch_def eval_compare_def cmp_def typed_result_None_Ok split: option.splits)
qed

lemma strip_paren_ok [simp]:
  "expr_ok fns ts t (strip_paren e) \<longleftrightarrow> expr_ok fns ts t e" "holds fns (strip_paren e) x \<longleftrightarrow> holds fns e x"
  by (induction e rule: strip_paren.induct) (simp_all add: holds_def)

text \<open>One key: the left part reads the left row, the shifted right part the right row.\<close>

definition key_ok ::
  "function_registry \<Rightarrow> data_type list \<Rightarrow> data_type list \<Rightarrow> bound_expr \<Rightarrow> bound_expr \<times> bound_expr \<Rightarrow> bool" where
  "key_ok fns ts us c = (\<lambda>(l, r). \<forall>x y. row_typed ts x \<longrightarrow> row_typed us y \<longrightarrow>
     (holds fns c (join_tuple x y) \<longleftrightarrow> value_of fns l x \<noteq> VNull \<and> value_of fns l x = value_of fns r y))"

lemma equi_join_key_ok:
  assumes reg: "registry_typed fns" and c: "expr_ok fns (ts @ us) TBoolean c"
    and k: "equi_join_key (length ts) c = Some (l, r)"
  shows "\<exists>r'. shift_column_index r (length ts) = Ok r' \<and> key_ok fns ts us c (l, r')"
proof -
  obtain a b t s where e: "strip_paren c = BBinaryOp Eq a b t s"
    and sides: "columns_side l (length ts) = Some LeftSide" "columns_side r (length ts) = Some RightSide"
    and ab: "(l = a \<and> r = b) \<or> (l = b \<and> r = a)"
    using k by (auto simp: equi_join_key_def split: bound_expr.splits binary_operator.splits option.splits side.splits)
  have ok: "expr_ok fns (ts @ us) TBoolean (BBinaryOp Eq a b t s)" using c strip_paren_ok(1) e by metis
  have eq: "holds fns c z \<longleftrightarrow> value_of fns l z \<noteq> VNull \<and> value_of fns l z = value_of fns r z" if "row_typed (ts @ us) z" for z
    using holds_Eq [OF reg that ok] strip_paren_ok(2) [of fns c z] ab by (auto simp: e)
  have typed: "\<exists>t. expr_ok fns (ts @ us) t l" "\<exists>t. expr_ok fns (ts @ us) t r"
    using ok ab by (fastforce simp: expr_ok_def fits_def)+
  from right_predicate [OF _ sides(2), of fns us] typed(2) obtain r' where
    r': "shift_column_index r (length ts) = Ok r'"
    "\<forall>x y. row_typed ts x \<and> row_typed us y \<longrightarrow> value_of fns r (join_tuple x y) = value_of fns r' y" by blast
  from left_predicate(2) [OF _ sides(1), of fns us] typed(1) have
    l: "row_typed ts x \<Longrightarrow> row_typed us y \<Longrightarrow> value_of fns l (join_tuple x y) = value_of fns l x" for x y by blast
  have "key_ok fns ts us c (l, r')"
    using eq [OF row_typed_join] l r'(2) by (auto simp: key_ok_def)
  with r'(1) show ?thesis by blast
qed

lemma equi_join_keys_ok:
  assumes reg: "registry_typed fns"
  shows "list_all (expr_ok fns (ts @ us) TBoolean) cs \<Longrightarrow> \<forall>c \<in> set cs. equi_join_key (length ts) c \<noteq> None \<Longrightarrow>
    \<exists>ks. shift_keys (length ts) (map (\<lambda>c. the (equi_join_key (length ts) c)) cs) = Ok ks \<and> list_all2 (key_ok fns ts us) cs ks"
proof (induction cs)
  case Nil
  then show ?case by (simp add: shift_keys_def)
next
  case (Cons c cs)
  then obtain l r where k: "equi_join_key (length ts) c = Some (l, r)" by auto
  from equi_join_key_ok [OF reg _ k, of us] Cons.prems(1) obtain r' where
    "shift_column_index r (length ts) = Ok r'" "key_ok fns ts us c (l, r')" by auto
  with k Cons show ?case by (auto simp: shift_keys_def)
qed

lemma keys_match_iff:
  assumes "row_typed ts x" "row_typed us y"
  shows "list_all2 (key_ok fns ts us) cs ks \<Longrightarrow>
    keys_match fns ks x y \<longleftrightarrow> list_all (\<lambda>c. holds fns c (join_tuple x y)) cs"
proof (induction rule: list_all2_induct)
  case (Cons c cs k ks)
  with assms show ?case by (cases k) (auto simp: keys_match_def key_values_def Let_def key_ok_def)
qed (simp add: keys_match_def key_values_def)

lemma split_equi_join_keys_ok:
  assumes reg: "registry_typed fns" and c: "expr_ok fns (ts @ us) TBoolean c"
    and ks: "split_equi_join_keys c (length ts) = Some ks"
  shows "\<exists>ks'. shift_keys (length ts) ks = Ok ks'
    \<and> (\<forall>x y. row_typed ts x \<longrightarrow> row_typed us y \<longrightarrow> (keys_match fns ks' x y \<longleftrightarrow> holds fns c (join_tuple x y)))"
proof -
  from ks have "\<not> list_ex (\<lambda>k. k = None) (map (equi_join_key (length ts)) (collect_conjuncts c))"
    and map: "ks = map (\<lambda>c. the (equi_join_key (length ts) c)) (collect_conjuncts c)"
    by (simp_all add: split_equi_join_keys_def Let_def comp_def split: if_splits)
  then have some: "\<forall>c \<in> set (collect_conjuncts c). equi_join_key (length ts) c \<noteq> None"
    unfolding list_ex_iff by (metis image_eqI list.set_map)
  from equi_join_keys_ok [OF reg collect_conjuncts_ok [OF c] some] obtain ks' where
    ks': "shift_keys (length ts) ks = Ok ks'" "list_all2 (key_ok fns ts us) (collect_conjuncts c) ks'"
    unfolding map by blast
  have "keys_match fns ks' x y \<longleftrightarrow> holds fns c (join_tuple x y)" if "row_typed ts x" "row_typed us y" for x y
    using keys_match_iff [OF that ks'(2)] collect_conjuncts_holds [OF reg row_typed_join [OF that] c] by simp
  with ks'(1) show ?thesis by blast
qed

subsection \<open>Ordered rows\<close>

definition in_order :: "nat \<Rightarrow> tuple \<Rightarrow> tuple \<Rightarrow> bool" where
  "in_order i x y \<longleftrightarrow> compare_values (tup_values x ! i) (tup_values y ! i) \<noteq> Ok Greater"

lemma in_order_refl [simp]: "in_order i x x"
  using compare_values_Equal_iff [of "tup_values x ! i" "tup_values x ! i"] by (simp add: in_order_def)

lemma in_order_typed:
  assumes "i < length ts" "row_typed ts x" "row_typed ts y"
  shows "in_order i x y \<longleftrightarrow> compare_values (tup_values x ! i) (tup_values y ! i) \<in> {Ok Less, Ok Equal}"
proof -
  have "of_type (ts ! i) (tup_values x ! i)" "of_type (ts ! i) (tup_values y ! i)"
    using assms by (auto simp: row_typed_def list_all2_conv_all_nth)
  from compare_values_defined [OF this] obtain o' where "compare_values (tup_values x ! i) (tup_values y ! i) = Ok o'" ..
  then show ?thesis by (cases o') (simp_all add: in_order_def)
qed

lemma in_order_total:
  assumes "i < length ts" "row_typed ts x" "row_typed ts y"
  shows "in_order i x y \<or> in_order i y x"
  using in_order_typed [OF assms(1)] assms(2,3) compare_values_flip compare_values_Equal_iff
  by (metis in_order_def insertCI)

lemma in_order_trans:
  assumes i: "i < length ts" and typed: "row_typed ts x" "row_typed ts y" "row_typed ts z"
    and xy: "in_order i x y" "in_order i y z"
  shows "in_order i x z"
  using in_order_typed [OF i typed(1,2)] in_order_typed [OF i typed(2,3)] in_order_typed [OF i typed(1,3)] xy
    compare_values_trans compare_values_Equal_iff by (metis insertE insertI1 insertI2 singletonD)

lemma insert_stable_sorted:
  assumes "\<And>x y. P x \<Longrightarrow> P y \<Longrightarrow> le x y \<or> le y x" "\<And>x y z. P x \<Longrightarrow> P y \<Longrightarrow> P z \<Longrightarrow> le x y \<Longrightarrow> le y z \<Longrightarrow> le x z"
  shows "P x \<Longrightarrow> list_all P ys \<Longrightarrow> sorted_wrt le ys \<Longrightarrow> sorted_wrt le (insert_stable le x ys)"
proof (induction ys)
  case (Cons y ys)
  then have "le x z" if "le x y" "z \<in> set ys" for z
    using assms(2) [of x y z] that by (auto simp: list_all_iff)
  with Cons assms(1) [of x y] show ?case by auto
qed simp

lemma sort_stable_sorted:
  assumes "\<And>x y. P x \<Longrightarrow> P y \<Longrightarrow> le x y \<or> le y x" "\<And>x y z. P x \<Longrightarrow> P y \<Longrightarrow> P z \<Longrightarrow> le x y \<Longrightarrow> le y z \<Longrightarrow> le x z"
  shows "list_all P xs \<Longrightarrow> sorted_wrt le (sort_stable le xs)"
proof (induction xs)
  case (Cons x xs)
  then have "list_all P (sort_stable le xs)" by (simp add: list_all_iff)
  with insert_stable_sorted [of P le, OF assms] Cons show ?case by (simp add: sort_stable_def)
qed (simp add: sort_stable_def)

lemma sort_stable_id: "sorted_wrt le xs \<Longrightarrow> sort_stable le xs = xs"
proof (induction xs)
  case (Cons x xs)
  then have "sort_stable le xs = xs" by simp
  with Cons.prems show ?case by (cases xs) (simp_all add: sort_stable_def)
qed (simp add: sort_stable_def)

lemma not_after_column:
  assumes "\<not> sk_desc k" "column_position (sk_expr k) = Some i" "i < length (tup_values x)" "i < length (tup_values y)"
  shows "not_after [k] (key_values fns (map sk_expr [k]) x, x) (key_values fns (map sk_expr [k]) y, y) \<longleftrightarrow> in_order i x y"
proof -
  have "compare_keys [k] [a] [b] = compare_values a b" for a b
    using assms(1) by (cases "compare_values a b") auto
  moreover have "key_values fns (map sk_expr [k]) z = [tup_values z ! i]" if "i < length (tup_values z)" for z
    using assms(2) that by (cases "sk_expr k") (auto simp: key_values_def tuple_get_def get_at_def)
  ultimately show ?thesis using assms by (simp add: not_after_def in_order_def del: compare_keys.simps)
qed

lemma sorted_rows_order:
  assumes k: "\<not> sk_desc k" "column_position (sk_expr k) = Some i" and i: "i < length ts"
    and rows: "list_all (row_typed ts) rows"
  shows "sorted_wrt (in_order i) (sorted_rows fns [k] rows)"
    and "sorted_wrt (in_order i) rows \<Longrightarrow> sorted_rows fns [k] rows = rows"
proof -
  let ?keyed = "map (\<lambda>t. (key_values fns (map sk_expr [k]) t, t)) rows"
  let ?P = "\<lambda>p. row_typed ts (snd p) \<and> fst p = key_values fns (map sk_expr [k]) (snd p)"
  have le: "not_after [k] p q \<longleftrightarrow> in_order i (snd p) (snd q)" if "?P p" "?P q" for p q
    using not_after_column [OF k, of "snd p" "snd q" fns] that i row_typed_length by (metis prod.collapse)
  have P: "list_all ?P ?keyed" using rows by (auto simp: list_all_iff)
  have "sorted_wrt (not_after [k]) (sort_stable (not_after [k]) ?keyed)"
  proof (rule sort_stable_sorted [of ?P, OF _ _ P])
    fix x y assume *: "?P x" "?P y"
    with in_order_total [OF i] show "not_after [k] x y \<or> not_after [k] y x"
      unfolding le [OF *] le [OF *(2,1)] by blast
  next
    fix x y z assume *: "?P x" "?P y" "?P z"
    with in_order_trans [OF i] show "not_after [k] x y \<Longrightarrow> not_after [k] y z \<Longrightarrow> not_after [k] x z"
      unfolding le [OF *(1,2)] le [OF *(2,3)] le [OF *(1,3)] by blast
  qed
  then have "sorted_wrt (\<lambda>p q. in_order i (snd p) (snd q)) (sort_stable (not_after [k]) ?keyed)"
    by (rule sorted_wrt_mono_rel [rotated]) (use le P in \<open>force simp: list_all_iff\<close>)
  then show "sorted_wrt (in_order i) (sorted_rows fns [k] rows)" by (simp add: sorted_rows_def sorted_wrt_map)
  assume "sorted_wrt (in_order i) rows"
  then have "sorted_wrt (\<lambda>p q. in_order i (snd p) (snd q)) ?keyed" by (simp add: sorted_wrt_map)
  then have "sorted_wrt (not_after [k]) ?keyed"
    by (rule sorted_wrt_mono_rel [rotated]) (use le P in \<open>force simp: list_all_iff\<close>)
  from sort_stable_id [OF this] show "sorted_rows fns [k] rows = rows" by (simp add: sorted_rows_def comp_def)
qed

subsection \<open>Two tables\<close>

lemma filter_concat_pairs:
  "filter P (concat (map (\<lambda>x. map (f x) ys) xs)) = concat (map (\<lambda>x. map (f x) (filter (\<lambda>y. P (f x y)) ys)) xs)"
  by (induction xs) (simp_all add: filter_map comp_def)

text \<open>
  A plan stands for some rows, which have the given types; if it announces an ordering, they are in this order.
\<close>

definition yields :: "function_registry \<Rightarrow> mem_storage \<Rightarrow> data_type list \<Rightarrow> physical_plan \<Rightarrow> tuple list \<Rightarrow> bool" where
  "yields fns db ts q rows \<longleftrightarrow>
     phys_rows fns db q = rows \<and> list_all (row_typed ts) rows
     \<and> (\<exists>s. phys_schema q = Ok s \<and> length (columns s) = length ts)
     \<and> (\<forall>i. output_ordering q = Some i \<longrightarrow> i < length ts \<and> sorted_wrt (in_order i) rows)"

definition joined :: "function_registry \<Rightarrow> bound_expr \<Rightarrow> tuple list \<Rightarrow> tuple list \<Rightarrow> tuple list" where
  "joined fns c ls rs = filter (holds fns c) (concat (map (\<lambda>x. map (join_tuple x) rs) ls))"

lemma joined_order:
  assumes "i < length ts" "list_all (row_typed ts) ls" "sorted_wrt (in_order i) ls"
  shows "sorted_wrt (in_order i) (joined fns c ls rs)"
proof -
  have left: "in_order i (join_tuple x a) (join_tuple y b) \<longleftrightarrow> in_order i x y"
    if "row_typed ts x" "row_typed ts y" for x y a b
    using row_typed_length [OF that(1)] row_typed_length [OF that(2)] assms(1)
    by (simp add: in_order_def join_tuple_def tuple_of_def nth_append)
  have "sorted_wrt (in_order i) (concat (map (\<lambda>x. map (join_tuple x) rs) ls))"
    using assms(2,3)
  proof (induction ls)
    case (Cons x ls)
    then have "sorted_wrt (in_order i) (map (join_tuple x) rs)"
      by (auto simp: sorted_wrt_map left intro!: sorted_wrt_nth_less [THEN iffD1] simp: sorted_wrt_iff_nth_less)
    with Cons show ?case by (auto simp: sorted_wrt_append left list_all_iff)
  qed simp
  then show ?thesis unfolding joined_def by (rule sorted_wrt_filter)
qed

lemma join_leaf_ok:
  assumes reg: "registry_typed fns" and l: "yields fns db ts l ls" and r: "yields fns db us r rs"
    and c: "expr_ok fns (ts @ us) TBoolean c"
  shows "\<exists>q. join_leaf cheaper None l r c = Ok q \<and> yields fns db (ts @ us) q (joined fns c ls rs)"
proof -
  from l obtain s where s: "phys_schema l = Ok s" "schema_len s = length ts" by (auto simp: yields_def schema_len_def)
  have rows: "row_typed ts x" "row_typed us y" if "x \<in> set ls" "y \<in> set rs" for x y
    using l r that by (auto simp: yields_def list_all_iff)
  then have typed: "list_all (row_typed (ts @ us)) (joined fns c ls rs)"
    by (auto simp: list_all_iff joined_def intro: row_typed_join)
  have order: "i < length (ts @ us) \<and> sorted_wrt (in_order i) (joined fns c ls rs)" if "output_ordering l = Some i" for i
    using joined_order [of i ts ls] l that by (auto simp: yields_def)
  have schema: "\<exists>s. phys_schema (PHashJoin l r k ks c) = Ok s \<and> length (columns s) = length (ts @ us)"
      "\<exists>s. phys_schema (PNestedLoopJoin l r k c) = Ok s \<and> length (columns s) = length (ts @ us)" for k ks
    using l r by (auto simp: yields_def join_schema_def)
  show ?thesis
  proof (cases "split_equi_join_keys c (length ts)")
    case None
    have "phys_rows fns db (PNestedLoopJoin l r Inner c) = joined fns c ls rs"
      using l r by (simp add: yields_def joined_def)
    with s None typed schema order show ?thesis by (simp add: join_leaf_def yields_def)
  next
    case (Some ks)
    from split_equi_join_keys_ok [OF reg c Some] obtain ks' where ks': "shift_keys (length ts) ks = Ok ks'"
      "\<And>x y. row_typed ts x \<Longrightarrow> row_typed us y \<Longrightarrow> keys_match fns ks' x y \<longleftrightarrow> holds fns c (join_tuple x y)" by blast
    have "phys_rows fns db (PHashJoin l r Inner ks' c) = joined fns c ls rs"
      using l r rows ks'(2)
      by (auto simp: yields_def joined_def filter_concat_pairs
          intro!: arg_cong [where f = concat] arg_cong [where f = "map f" for f] filter_cong)
    then show ?thesis using s Some ks'(1) typed schema order
      by (simp add: join_leaf_def yields_def choose_join_plan_def index_scan_target_def cheapest_def)
  qed
qed

subsection \<open>Chains of joins in the order of the query\<close>

text \<open>
  Every chain of joins is small enough or large enough to skip the search for an order; the flag tells whether
  the plan starts a chain.
\<close>

fun keeps_join_order :: "bool \<Rightarrow> logical_plan \<Rightarrow> bool" where
  "keeps_join_order outer (LJoin l r k c) \<longleftrightarrow>
    (outer \<longrightarrow> (let n = length (fst (flatten_join_chain (LJoin l r k c))) in n < 3 \<or> MAX_DP_TABLES < n))
    \<and> keeps_join_order False l \<and> keeps_join_order True r"
| "keeps_join_order outer (LFilter p _) = keeps_join_order True p"
| "keeps_join_order outer (LAggregate p _ _ _) = keeps_join_order True p"
| "keeps_join_order outer (LProjection p _) = keeps_join_order True p"
| "keeps_join_order outer (LDistinct p) = keeps_join_order True p"
| "keeps_join_order outer (LSort p _) = keeps_join_order True p"
| "keeps_join_order outer (LLimit p _ _) = keeps_join_order True p"
| "keeps_join_order outer _ = True"

lemma keeps_join_order_leaves:
  "keeps_join_order False p \<Longrightarrow> \<forall>leaf \<in> set (fst (flatten_join_chain p)). keeps_join_order True leaf"
  by (induction p rule: flatten_join_chain.induct) (auto split: prod.splits)

lemma flatten_lengths: "flatten_join_chain p = (leaves, cs) \<Longrightarrow> length leaves = Suc (length cs)"
  by (induction p arbitrary: leaves cs rule: flatten_join_chain.induct) (auto split: prod.splits)

lemma map_outcome_append:
  "map_outcome f (xs @ ys) = and_then (map_outcome f xs) (\<lambda>as. and_then (map_outcome f ys) (\<lambda>bs. Ok (as @ bs)))"
proof (induction xs)
  case Nil
  then show ?case by (cases "map_outcome f ys") auto
qed (auto simp: and_then_assoc intro!: and_then_cong)

lemma combine_from_append:
  "combine_from cheaper ix p (xs @ ys) = and_then (combine_from cheaper ix p xs) (\<lambda>p. combine_from cheaper ix p ys)"
  by (induction xs arbitrary: p) (auto simp: and_then_assoc intro!: and_then_cong)

lemma combine_snoc:
  assumes "length qs = Suc (length cs)"
  shows "combine_in_syntactic_order cheaper ix (qs @ [q]) (cs @ [c]) =
    and_then (combine_in_syntactic_order cheaper ix qs cs) (\<lambda>p. join_leaf cheaper ix p q c)"
proof -
  have "and_then r Ok = r" for r :: "physical_plan outcome" by (cases r) auto
  with assms show ?thesis
    by (cases qs) (auto simp: combine_in_syntactic_order_def combine_from_append intro!: and_then_cong)
qed

definition plan_ok ::
  "(physical_plan \<Rightarrow> physical_plan \<Rightarrow> bool) \<Rightarrow> function_registry \<Rightarrow> mem_storage \<Rightarrow> logical_plan \<Rightarrow> data_type list \<Rightarrow> bool" where
  "plan_ok cheaper fns db p ts \<longleftrightarrow>
     (\<exists>q. phys_optimize cheaper None p = Ok q \<and> yields fns db ts q (query_rows fns db p))"

lemma query_rows_join: "query_rows fns db (LJoin l r k c) = joined fns c (query_rows fns db l) (query_rows fns db r)"
  by (simp add: joined_def)

lemma chain_ok:
  assumes reg: "registry_typed fns"
  shows "flatten_join_chain p = (leaves, cs) \<Longrightarrow> plan_typed fns db p ts \<Longrightarrow>
    (\<And>leaf us. leaf \<in> set leaves \<Longrightarrow> plan_typed fns db leaf us \<Longrightarrow> plan_ok cheaper fns db leaf us) \<Longrightarrow>
    \<exists>qs q. map_outcome (phys_optimize cheaper None) leaves = Ok qs \<and> length qs = length leaves
      \<and> combine_in_syntactic_order cheaper None qs cs = Ok q \<and> yields fns db ts q (query_rows fns db p)"
proof (induction p arbitrary: leaves cs ts rule: flatten_join_chain.induct)
  case (1 l r k c)
  then obtain leaves' cs' where l: "flatten_join_chain l = (leaves', cs')"
    and leaves: "leaves = leaves' @ [r]" "cs = cs' @ [c]" by (auto split: prod.splits)
  from "1.prems"(2) obtain ls us where ts: "ts = ls @ us" and lt: "plan_typed fns db l ls" and rt: "plan_typed fns db r us"
    and c: "expr_ok fns (ls @ us) TBoolean c" by (auto elim: plan_typed_joinE)
  from "1.IH" [OF l lt] "1.prems"(3) leaves obtain qs q where
    qs: "map_outcome (phys_optimize cheaper None) leaves' = Ok qs" "length qs = length leaves'"
    and q: "combine_in_syntactic_order cheaper None qs cs' = Ok q" "yields fns db ls q (query_rows fns db l)" by auto
  from "1.prems"(3) [OF _ rt] leaves obtain qr where
    qr: "phys_optimize cheaper None r = Ok qr" "yields fns db us qr (query_rows fns db r)" by (auto simp: plan_ok_def)
  from join_leaf_ok [OF reg q(2) qr(2) c] obtain j where
    j: "join_leaf cheaper None q qr c = Ok j" "yields fns db ts j (query_rows fns db (LJoin l r k c))"
    unfolding query_rows_join ts by blast
  have "combine_in_syntactic_order cheaper None (qs @ [qr]) cs = Ok j"
    using qs(2) flatten_lengths [OF l] by (simp add: leaves(2) combine_snoc q(1) j(1))
  with qs qr j leaves show ?case by (simp add: map_outcome_append)
qed (fastforce simp: plan_ok_def combine_in_syntactic_order_def simp del: phys_optimize.simps query_rows.simps)+

subsection \<open>Every plan\<close>

lemma phys_optimize_join:
  assumes reg: "registry_typed fns" and typed: "plan_typed fns db (LJoin l r k c) ts"
    and keeps: "keeps_join_order True (LJoin l r k c)"
    and leaves: "\<And>leaf us. leaf \<in> set (fst (flatten_join_chain (LJoin l r k c))) \<Longrightarrow> plan_typed fns db leaf us \<Longrightarrow>
      plan_ok cheaper fns db leaf us"
  shows "plan_ok cheaper fns db (LJoin l r k c) ts"
proof -
  obtain leaves cs where f: "flatten_join_chain (LJoin l r k c) = (leaves, cs)" by fastforce
  note len = flatten_lengths [OF f]
  from chain_ok [OF reg f typed, of cheaper] leaves f obtain qs q where
    qs: "map_outcome (phys_optimize cheaper None) leaves = Ok qs"
    and q: "combine_in_syntactic_order cheaper None qs cs = Ok q" "yields fns db ts q (query_rows fns db (LJoin l r k c))"
    by auto
  have "phys_optimize cheaper None (LJoin l r k c) = Ok q"
  proof (cases "length leaves < 3")
    case True
    then obtain a b d where "leaves = [a, b]" "cs = [d]"
      using f len by (auto simp: length_Suc_conv less_Suc_eq numeral_3_eq_3 split: prod.splits)
    then show ?thesis using f qs q(1)
      by (auto simp: combine_in_syntactic_order_def and_then_Ok_iff)
  next
    case False
    with keeps f have "MAX_DP_TABLES < length leaves" by (simp del: flatten_join_chain.simps)
    with False f len qs q(1) show ?thesis by (simp del: flatten_join_chain.simps)
  qed
  with q(2) show ?thesis by (auto simp: plan_ok_def)
qed

lemma projection_order:
  assumes items: "list_all2 (\<lambda>t i. expr_ok fns ts t (si_expr i)) us items" and rows: "list_all (row_typed ts) rows"
    and order: "sorted_wrt (in_order i) rows" and j: "position (\<lambda>item. column_position (si_expr item) = Some i) items = Some j"
  shows "j < length us \<and> sorted_wrt (in_order j) (map (project_tuple fns items) rows)"
proof -
  have j': "j < length items" "column_position (si_expr (items ! j)) = Some i" using j by (auto simp: position_Some_iff)
  then obtain k n t s where col: "si_expr (items ! j) = BColumnRef k i n t s"
    by (cases "si_expr (items ! j)") auto
  have "expr_ok fns ts (us ! j) (si_expr (items ! j))" using items j'(1) by (simp add: list_all2_conv_all_nth)
  with col have i: "i < length ts" by (simp add: expr_ok_def)
  have "in_order j (project_tuple fns items x) (project_tuple fns items y) \<longleftrightarrow> in_order i x y"
    if "row_typed ts x" "row_typed ts y" for x y
    using row_typed_length [OF that(1)] row_typed_length [OF that(2)] i j'(1)
    by (simp add: in_order_def project_tuple_def tuple_of_def col tuple_get_def get_at_def)
  with order rows have "sorted_wrt (in_order j) (map (project_tuple fns items) rows)"
    unfolding sorted_wrt_map by (elim sorted_wrt_mono_rel [rotated]) (auto simp: list_all_iff)
  with j'(1) items show ?thesis by (auto dest: list_all2_lengthD)
qed

lemma phys_schema_projection:
  assumes "list_all2 (\<lambda>t i. expr_ok fns ts t (si_expr i)) us items" "length (columns s) = length ts"
  shows "\<exists>s'. projection_schema s items = Ok s' \<and> length (columns s') = length us"
proof -
  have "\<exists>cs. map_outcome (projection_column s) items = Ok cs \<and> length cs = length us"
    using assms(1)
  proof (induction rule: list_all2_induct)
    case (Cons t us i items)
    then show ?case using projection_column_Ok [OF _ assms(2)] by fastforce
  qed simp
  then show ?thesis by (auto simp: projection_schema_def)
qed

lemma values_rows_empty: "list_all (\<lambda>es. es = []) rows \<Longrightarrow> columns s = [] \<Longrightarrow>
  values_rows fns s rows = Ok (map (\<lambda>_. tuple_of []) rows)"
proof -
  assume rows: "list_all (\<lambda>es. es = []) rows" and "columns s = []"
  then have "tuple_new s [] = Ok (tuple_of [])" by (simp add: tuple_new_iff tuple_of_def)
  with rows show ?thesis unfolding values_rows_def by (intro map_outcome_all_Ok) (auto simp: list_all_iff)
qed

lemma phys_optimize_ok:
  assumes reg: "registry_typed fns"
  shows "plan_typed fns db p ts \<Longrightarrow> keeps_join_order True p \<Longrightarrow> plan_ok cheaper fns db p ts"
proof (induction "plan_nodes p" arbitrary: p ts rule: less_induct)
  case less
  note IH = less.hyps and rows = query_rows_typed [OF reg less.prems(1)]
  from less.prems show ?case
  proof cases
    case (scan tid rows s n)
    then show ?thesis using rows by (auto simp: plan_ok_def yields_def)
  next
    case (vals s rows)
    then show ?thesis using rows by (simp add: plan_ok_def yields_def values_rows_empty)
  next
    case (filter p' e)
    with IH [of p' ts] less.prems(2) rows show ?thesis
      by (auto simp: plan_ok_def yields_def intro!: sorted_wrt_filter)
  next
    case (join l ts' r us e k)
    from less.prems have typed: "plan_typed fns db (LJoin l r k e) ts" and keeps: "keeps_join_order True (LJoin l r k e)"
      by (simp_all only: join)
    have "plan_ok cheaper fns db leaf us"
      if "leaf \<in> set (fst (flatten_join_chain (LJoin l r k e)))" "plan_typed fns db leaf us" for leaf us
    proof (rule IH)
      show "plan_nodes leaf < plan_nodes p" using flatten_join_nodes [OF that(1)] by (simp add: join)
      have "keeps_join_order False (LJoin l r k e)" using keeps by simp
      from keeps_join_order_leaves [OF this] that(1) show "keeps_join_order True leaf" by blast
    qed (rule that(2))
    from phys_optimize_join [OF reg typed keeps this] show ?thesis by (simp add: join)
  next
    case (aggregate p' ts' gts gs cts cs s)
    with IH [of p' ts'] less.prems(2) rows show ?thesis
      by (auto simp: plan_ok_def yields_def dest!: list_all2_lengthD)
  next
    case (projection p' ts' items)
    with IH [of p' ts'] less.prems(2) obtain q where
      q: "phys_optimize cheaper None p' = Ok q" "yields fns db ts' q (query_rows fns db p')" by (auto simp: plan_ok_def)
    then show ?thesis
      using rows projection phys_schema_projection [OF projection(3)] projection_order [OF projection(3)]
      by (fastforce simp: plan_ok_def yields_def split: option.splits)
  next
    case (distinct p')
    with IH [of p' ts] less.prems(2) rows show ?thesis by (auto simp: plan_ok_def yields_def)
  next
    case (sort p' ks)
    with IH [of p' ts] less.prems(2) obtain q where
      q: "phys_optimize cheaper None p' = Ok q" "yields fns db ts q (query_rows fns db p')" by (auto simp: plan_ok_def)
    have typed: "list_all (row_typed ts) (query_rows fns db p')" using q(2) by (simp add: yields_def)
    show ?thesis
    proof (cases "sort_is_already_satisfied ks q")
      case True
      then obtain k i where k: "ks = [k]" "\<not> sk_desc k" "column_position (sk_expr k) = Some i" "output_ordering q = Some i"
        by (auto simp: sort_is_already_satisfied_def split: list.splits option.splits)
      with q(2) have "i < length ts" "sorted_wrt (in_order i) (query_rows fns db p')" by (auto simp: yields_def)
      with sorted_rows_order(2) [OF k(2,3) _ typed] k(1) have "query_rows fns db p = query_rows fns db p'" by (simp add: sort)
      with True q show ?thesis by (simp add: plan_ok_def sort)
    next
      case False
      have "i < length ts \<and> sorted_wrt (in_order i) (sorted_rows fns ks (query_rows fns db p'))"
        if o': "output_ordering (PSort q ks) = Some i" for i
      proof -
        from o' obtain k where k: "ks = [k]" "\<not> sk_desc k" "column_position (sk_expr k) = Some i"
          by (auto split: list.splits if_splits)
        then have "i < length ts" using sort(3) by (cases "sk_expr k") (auto simp: expr_ok_def)
        with sorted_rows_order(1) [OF k(2,3) _ typed] k(1) show ?thesis by simp
      qed
      with False q rows show ?thesis by (auto simp: plan_ok_def yields_def sort)
    qed
  next
    case (limit p' n k)
    with IH [of p' ts] less.prems(2) rows show ?thesis by (auto simp: plan_ok_def yields_def)
  qed
qed


definition never_cheaper :: "physical_plan \<Rightarrow> physical_plan \<Rightarrow> bool" where
  "never_cheaper p q = False"




subsection \<open>Where planning goes wrong\<close>

text \<open>
  Table positions in a condition count the tables of the query; the search for an order takes them for positions
  in the chain. When a filter stays between two joins of a chain of four tables, the filtered join is one
  leaf, the positions no longer fit, and the search reads past the end of its offsets. The rewriting rules
  themselves put the filter there:

  \<open>SELECT a.x FROM a JOIN b ON a.x = b.x JOIN c ON b.x = c.x JOIN d ON c.x = d.x AND d.x = 1 WHERE a.x < b.x\<close>
\<close>

definition no_span :: span where "no_span = \<lparr>span_start = 0, span_end = 0\<rparr>"

definition one_column :: schema where "one_column = \<lparr>columns = [column_new ''x'' TBigInt True]\<rparr>"

definition x_of :: "nat \<Rightarrow> bound_expr" where "x_of t = BColumnRef t t ''x'' TBigInt no_span"

definition compare_x :: "binary_operator \<Rightarrow> nat \<Rightarrow> nat \<Rightarrow> bound_expr" where
  "compare_x opr a b = BBinaryOp opr (x_of a) (x_of b) TBoolean no_span"

definition four_tables :: logical_plan where
  "four_tables =
     LProjection
       (LFilter
         (LJoin
           (LJoin
             (LJoin (LScan 0 ''a'' one_column) (LScan 1 ''b'' one_column) Inner (compare_x Eq 0 1))
             (LScan 2 ''c'' one_column) Inner (compare_x Eq 1 2))
           (LScan 3 ''d'' one_column) Inner
           (BBinaryOp And (compare_x Eq 2 3) (BBinaryOp Eq (x_of 3) (BIntLiteral 1 no_span) TBoolean no_span) TBoolean no_span))
         (compare_x Lt 0 1))
       [\<lparr>si_expr = x_of 0, si_output_name = ''x''\<rparr>]"

theorem filtered_leaf_breaks_the_join_order:
  "and_then (optimize four_tables with_builtins) (phys_optimize cheaper None) = Panic"
  "phys_optimize never_cheaper None four_tables \<noteq> Panic"
  by code_simp+

text \<open>
  A predicate that can fail is evaluated on rows that the join drops: \<open>SELECT a.x FROM a JOIN b ON a.x = b.x WHERE
  10 / a.x > 1\<close> on a table \<open>a\<close> with the row 0 and an empty table \<open>b\<close> has no row to divide by, and fails.
\<close>

definition guarded_division :: logical_plan where
  "guarded_division =
     LProjection
       (LFilter (LJoin (LScan 0 ''a'' one_column) (LScan 1 ''b'' one_column) Inner (compare_x Eq 0 1))
         (BBinaryOp Gt (BBinaryOp Divide (BIntLiteral 10 no_span) (x_of 0) TBigInt no_span) (BIntLiteral 1 no_span) TBoolean no_span))
       [\<lparr>si_expr = x_of 0, si_output_name = ''x''\<rparr>]"

definition zero_db :: mem_storage where
  "zero_db = [0 \<mapsto> [tuple_of [VBigInt 0]], 1 \<mapsto> []]"

theorem pushdown_makes_a_query_fail:
  "and_then (phys_optimize never_cheaper None guarded_division) (\<lambda>q.
   and_then (build_executor with_builtins None zero_db q) collect) = Ok []"
  "execute_select never_cheaper with_builtins None zero_db guarded_division = Err (Eval DivisionByZero)"
  by code_simp+

text \<open>
  Boolean simplification turns \<open>TRUE AND NULL\<close> into a literal \<open>NULL\<close>, whose column is announced as text; constant
  folding takes care not to.
\<close>

definition true_and_null :: logical_plan where
  "true_and_null =
     LProjection (LValues \<lparr>columns = []\<rparr> [[]])
       [\<lparr>si_expr = BBinaryOp And (BBoolLiteral True no_span) (BNullLiteral no_span) TBoolean no_span, si_output_name = ''c''\<rparr>]"

theorem simplification_forgets_a_type:
  "and_then (output_schema true_and_null) (\<lambda>s. Ok (map col_type (columns s))) = Ok [TBoolean]"
  "and_then (optimize true_and_null with_builtins) (\<lambda>p.
   and_then (output_schema p) (\<lambda>s. Ok (map col_type (columns s)))) = Ok [TText]"
  by code_simp+

end
