(* ===== verification/Page_Store.thy ===== *)
theory Page_Store
  imports Page Ids
begin

text \<open>
  What the clients of \<open>src/src/buffer_pool.rs\<close> see of it: numbered pages that are read, written through a
  guard and allocated at the end. \<open>Buffer_Pool\<close> shows that the pool, with its frames and evictions, is this
  list of pages. Also the sequencing of operations on a state, and of loops that may not return.
\<close>

type_synonym page_store = "page list"

definition store_get :: "page_store \<Rightarrow> page_no \<Rightarrow> page outcome" where
  "store_get s i = (if unat i < length s then Ok (s ! unat i) else Err PageOutOfRange)"

definition store_put :: "page_store \<Rightarrow> page_no \<Rightarrow> page \<Rightarrow> page_store" where
  "store_put s i p = s[unat i := p]"

definition store_alloc :: "page_store \<Rightarrow> page_type \<Rightarrow> page_no \<times> page_store" where
  "store_alloc s t = (of_nat (length s), s @ [page_new (of_nat (length s)) t])"

text \<open>Writing the payload of a page through its guard.\<close>

definition write_payload :: "page_store \<Rightarrow> page_no \<Rightarrow> byte list \<Rightarrow> page_store" where
  "write_payload s i bs = store_put s i ((s ! unat i)\<lparr>payload := bs\<rparr>)"

lemma store_simps [simp]:
  "length (store_put s i p) = length s"
  "length (write_payload s i bs) = length s"
  by (simp_all add: store_put_def write_payload_def)

lemma store_get_put:
  "unat i < length s \<Longrightarrow> store_get (store_put s i p) j = (if j = i then Ok p else store_get s j)"
  by (auto simp: store_get_def store_put_def nth_list_update dest: unsigned_word_eqI)

subsection \<open>Effects\<close>

text \<open>An operation on a state gives an outcome and the state it leaves, also when it fails.\<close>

type_synonym ('s, 'a) effect = "'s \<Rightarrow> 'a outcome \<times> 's"

definition run_then :: "'a outcome \<times> 's \<Rightarrow> ('a \<Rightarrow> ('s, 'b) effect) \<Rightarrow> 'b outcome \<times> 's" where
  "run_then r f = (case r of (Ok x, s) \<Rightarrow> f x s | (Err e, s) \<Rightarrow> (Err e, s) | (Panic, s) \<Rightarrow> (Panic, s))"

lemma run_then_simps [simp]:
  "run_then (Ok x, s) f = f x s"
  "run_then (Err e, s) f = (Err e, s)"
  "run_then (Panic, s) f = (Panic, s)"
  by (simp_all add: run_then_def)

lemma run_then_cong [fundef_cong]:
  "r = r' \<Longrightarrow> (\<And>x s. r' = (Ok x, s) \<Longrightarrow> f x s = g x s) \<Longrightarrow> run_then r f = run_then r' g"
  by (cases r'; cases "fst r'") auto

text \<open>A loop that may not end: \<open>None\<close> when it does not.\<close>

definition later :: "'a outcome option \<Rightarrow> ('a \<Rightarrow> 'b outcome option) \<Rightarrow> 'b outcome option" where
  "later r f = Option.bind r (\<lambda>q. case q of Ok x \<Rightarrow> f x | Err e \<Rightarrow> Some (Err e) | Panic \<Rightarrow> Some Panic)"

lemma later_simps [simp]:
  "later None f = None"
  "later (Some (Ok x)) f = f x"
  "later (Some (Err e)) f = Some (Err e)"
  "later (Some Panic) f = Some Panic"
  by (simp_all add: later_def)

lemma later_mono [partial_function_mono]:
  assumes "mono_option B" and "\<And>y. mono_option (\<lambda>f. C y f)"
  shows "mono_option (\<lambda>f. later (B f) (\<lambda>y. C y f))"
proof -
  have "mono_option (\<lambda>f. case q of Ok x \<Rightarrow> C x f | Err e \<Rightarrow> Some (Err e) | Panic \<Rightarrow> Some Panic)" for q
    using assms(2) by (cases q) (simp_all add: option.const_mono)
  with assms(1) show ?thesis unfolding later_def by (rule bind_mono)
qed

end
