(* ===== verification/Btree_Page.thy ===== *)
theory Btree_Page
  imports Page Ids "HOL-Library.Multiset"
begin

text \<open>
  The pages of a B+tree (\<open>src/src/btree_page.rs\<close>): the directory and the cells of leaf and internal pages,
  their validation, the binary searches and the sizes that splitting relies on. A page holds its entries in
  one canonical layout, \<open>node_image\<close>; every operation is shown to be the list operation behind that layout.
\<close>

subsection \<open>Reading\<close>

definition LEAF_HEADER_SIZE :: nat where "LEAF_HEADER_SIZE = 2 + 8"
definition INTERNAL_HEADER_SIZE :: nat where "INTERNAL_HEADER_SIZE = 2 + 8"
definition DIR_ENTRY_SIZE :: nat where "DIR_ENTRY_SIZE = 4"
definition RECORD_ID_SIZE :: nat where "RECORD_ID_SIZE = 8 + 2"
definition CHILD_ID_SIZE :: nat where "CHILD_ID_SIZE = 8"
definition NO_NEXT_LEAF :: page_no where "NO_NEXT_LEAF = 0"

lemmas node_sizes = LEAF_HEADER_SIZE_def INTERNAL_HEADER_SIZE_def DIR_ENTRY_SIZE_def RECORD_ID_SIZE_def CHILD_ID_SIZE_def

definition node_u16 :: "byte list \<Rightarrow> nat \<Rightarrow> u16 outcome" where
  "node_u16 p off = and_then (sub_slice p off (off + 2)) (\<lambda>bs. Ok (from_le16 bs))"

definition node_u64 :: "byte list \<Rightarrow> nat \<Rightarrow> u64 outcome" where
  "node_u64 p off = and_then (sub_slice p off (off + 8)) (\<lambda>bs. Ok (from_le64 bs))"

definition dir_entry :: "byte list \<Rightarrow> nat \<Rightarrow> nat \<Rightarrow> (nat \<times> nat) outcome" where
  "dir_entry p h i =
     (let base = h + i * DIR_ENTRY_SIZE in
      and_then (node_u16 p base) (\<lambda>off. and_then (node_u16 p (base + 2)) (\<lambda>len. Ok (unat off, unat len))))"

text \<open>The sum of the two numbers does not overflow a \<open>usize\<close>: both come from \<open>u16\<close> fields.\<close>

definition checked_range :: "nat \<Rightarrow> nat \<Rightarrow> nat \<Rightarrow> nat outcome" where
  "checked_range n start len = (if n < start + len then Err CorruptPage else Ok (start + len))"

fun validate_entries ::
  "byte list \<Rightarrow> nat \<Rightarrow> nat \<Rightarrow> nat list \<Rightarrow> nat \<Rightarrow> byte list option \<Rightarrow> unit outcome" where
  "validate_entries p h tr [] cursor prev = Ok ()"
| "validate_entries p h tr (i # is) cursor prev =
    and_then (dir_entry p h i) (\<lambda>(off, len).
    if off \<noteq> cursor then Err CorruptPage
    else
      and_then (checked_range (length p) off len) (\<lambda>key_end.
      and_then (checked_range (length p) key_end tr) (\<lambda>trailer_end.
      and_then (sub_slice p off key_end) (\<lambda>key.
      if (case prev of None \<Rightarrow> False | Some q \<Rightarrow> key < q) then Err CorruptPage
      else validate_entries p h tr is trailer_end (Some key)))))"

definition validate :: "byte list \<Rightarrow> nat \<Rightarrow> nat \<Rightarrow> nat outcome" where
  "validate p h tr =
     (if length p < h then Err CorruptPage
      else
        and_then (node_u16 p 0) (\<lambda>n.
        and_then (checked_range (length p) h (unat n * DIR_ENTRY_SIZE)) (\<lambda>dir_end.
        and_then (validate_entries p h tr [0..<unat n] dir_end None) (\<lambda>_. Ok (unat n)))))"

definition entry_count :: "byte list \<Rightarrow> nat outcome" where
  "entry_count p = and_then (node_u16 p 0) (\<lambda>n. Ok (unat n))"

definition node_key :: "nat \<Rightarrow> byte list \<Rightarrow> nat \<Rightarrow> byte list outcome" where
  "node_key h p i = and_then (dir_entry p h i) (\<lambda>(off, len). sub_slice p off (off + len))"

text \<open>The halving loop of all lower-bound searches: the predicate holds on a prefix of the keys.\<close>

function search_from :: "(byte list \<Rightarrow> bool) \<Rightarrow> (nat \<Rightarrow> byte list outcome) \<Rightarrow> nat \<Rightarrow> nat \<Rightarrow> nat outcome" where
  "search_from P key lo hi =
    (if lo < hi then
       let mid = lo + (hi - lo) div 2 in
       and_then (key mid) (\<lambda>k. if P k then search_from P key (mid + 1) hi else search_from P key lo mid)
     else Ok lo)"
  by pat_completeness auto

termination
  by (relation "measure (\<lambda>(_, _, lo, hi). hi - lo)") auto

declare search_from.simps [simp del]

subsubsection \<open>Leaf pages\<close>

type_synonym leaf_entry = "byte list \<times> record_id"

definition leaf_open :: "byte list \<Rightarrow> unit outcome" where
  "leaf_open p = and_then (validate p LEAF_HEADER_SIZE RECORD_ID_SIZE) (\<lambda>_. Ok ())"

definition next_leaf :: "byte list \<Rightarrow> page_no outcome" where
  "next_leaf p = node_u64 p 2"

definition leaf_key :: "byte list \<Rightarrow> nat \<Rightarrow> byte list outcome" where
  "leaf_key p i = node_key LEAF_HEADER_SIZE p i"

definition leaf_record_id :: "byte list \<Rightarrow> nat \<Rightarrow> record_id outcome" where
  "leaf_record_id p i =
     and_then (dir_entry p LEAF_HEADER_SIZE i) (\<lambda>(off, len).
     let base = off + len in
     and_then (node_u64 p base) (\<lambda>page.
     and_then (node_u16 p (base + 8)) (\<lambda>slot. Ok (RecordId page slot))))"

definition leaf_entries :: "byte list \<Rightarrow> leaf_entry list outcome" where
  "leaf_entries p =
     and_then (entry_count p) (\<lambda>n.
     map_outcome (\<lambda>i. and_then (leaf_key p i) (\<lambda>k. and_then (leaf_record_id p i) (\<lambda>r. Ok (k, r)))) [0..<n])"

datatype found = Found nat | InsertAt nat

function leaf_find_from :: "byte list \<Rightarrow> byte list \<Rightarrow> nat \<Rightarrow> nat \<Rightarrow> found outcome" where
  "leaf_find_from p key lo hi =
    (if lo < hi then
       let mid = lo + (hi - lo) div 2 in
       and_then (leaf_key p mid) (\<lambda>k.
       if k = key then Ok (Found mid)
       else if k < key then leaf_find_from p key (mid + 1) hi
       else leaf_find_from p key lo mid)
     else Ok (InsertAt lo))"
  by pat_completeness auto

termination
  by (relation "measure (\<lambda>(_, _, lo, hi). hi - lo)") auto

declare leaf_find_from.simps [simp del]

definition leaf_find :: "byte list \<Rightarrow> byte list \<Rightarrow> found outcome" where
  "leaf_find p key = and_then (entry_count p) (\<lambda>n. leaf_find_from p key 0 n)"

subsubsection \<open>Internal pages\<close>

type_synonym internal_entry = "byte list \<times> page_no"

definition internal_open :: "byte list \<Rightarrow> unit outcome" where
  "internal_open p = and_then (validate p INTERNAL_HEADER_SIZE CHILD_ID_SIZE) (\<lambda>_. Ok ())"

definition leftmost_child :: "byte list \<Rightarrow> page_no outcome" where
  "leftmost_child p = node_u64 p 2"

definition internal_key :: "byte list \<Rightarrow> nat \<Rightarrow> byte list outcome" where
  "internal_key p i = node_key INTERNAL_HEADER_SIZE p i"

definition child_after :: "byte list \<Rightarrow> nat \<Rightarrow> page_no outcome" where
  "child_after p i = and_then (dir_entry p INTERNAL_HEADER_SIZE i) (\<lambda>(off, len). node_u64 p (off + len))"

definition internal_entries :: "byte list \<Rightarrow> internal_entry list outcome" where
  "internal_entries p =
     and_then (entry_count p) (\<lambda>n.
     map_outcome (\<lambda>i. and_then (internal_key p i) (\<lambda>k. and_then (child_after p i) (\<lambda>c. Ok (k, c)))) [0..<n])"

definition child_at :: "byte list \<Rightarrow> nat \<Rightarrow> page_no outcome" where
  "child_at p lo = (if lo = 0 then leftmost_child p else child_after p (lo - 1))"

definition child_for :: "byte list \<Rightarrow> byte list \<Rightarrow> page_no outcome" where
  "child_for p key =
     and_then (entry_count p) (\<lambda>n. and_then (search_from (\<lambda>k. k \<le> key) (internal_key p) 0 n) (child_at p))"

definition child_for_lower_bound :: "byte list \<Rightarrow> byte list \<Rightarrow> page_no outcome" where
  "child_for_lower_bound p key =
     and_then (entry_count p) (\<lambda>n. and_then (search_from (\<lambda>k. k < key) (internal_key p) 0 n) (child_at p))"

subsection \<open>Writing\<close>

definition required_len :: "nat \<Rightarrow> nat list \<Rightarrow> nat \<Rightarrow> nat" where
  "required_len h key_lens tr = foldl (\<lambda>total n. total + (DIR_ENTRY_SIZE + n + tr)) h key_lens"

definition leaf_entries_fit :: "nat \<Rightarrow> leaf_entry list \<Rightarrow> bool" where
  "leaf_entries_fit n es \<longleftrightarrow> required_len LEAF_HEADER_SIZE (map (\<lambda>e. length (fst e)) es) RECORD_ID_SIZE \<le> n"

definition internal_entries_fit :: "nat \<Rightarrow> internal_entry list \<Rightarrow> bool" where
  "internal_entries_fit n es \<longleftrightarrow> required_len INTERNAL_HEADER_SIZE (map (\<lambda>e. length (fst e)) es) CHILD_ID_SIZE \<le> n"

definition leaf_max_key_len_for_two_entries :: "nat \<Rightarrow> nat" where
  "leaf_max_key_len_for_two_entries n =
     (n - (LEAF_HEADER_SIZE + 2 * (DIR_ENTRY_SIZE + RECORD_ID_SIZE))) div 2"

definition internal_max_key_len_for_two_entries :: "nat \<Rightarrow> nat" where
  "internal_max_key_len_for_two_entries n =
     (n - (INTERNAL_HEADER_SIZE + 2 * (DIR_ENTRY_SIZE + CHILD_ID_SIZE))) div 2"

fun split_loop :: "nat list \<Rightarrow> nat \<Rightarrow> nat \<Rightarrow> nat \<Rightarrow> nat \<Rightarrow> nat" where
  "split_loop [] tr capacity cursor n = n"
| "split_loop (k # ks) tr capacity cursor n =
    (let needed = DIR_ENTRY_SIZE + k + tr in
     if 0 < n \<and> capacity < cursor + needed then n
     else split_loop ks tr capacity (cursor + needed) (n + 1))"

definition capacity_split_point :: "nat \<Rightarrow> nat list \<Rightarrow> nat \<Rightarrow> nat \<Rightarrow> nat" where
  "capacity_split_point h key_lens tr capacity = split_loop key_lens tr capacity h 0"

definition leaf_split_point :: "nat \<Rightarrow> leaf_entry list \<Rightarrow> nat" where
  "leaf_split_point n es = capacity_split_point LEAF_HEADER_SIZE (map (\<lambda>e. length (fst e)) es) RECORD_ID_SIZE n"

definition internal_split_point :: "nat \<Rightarrow> internal_entry list \<Rightarrow> nat" where
  "internal_split_point n es = capacity_split_point INTERNAL_HEADER_SIZE (map (\<lambda>e. length (fst e)) es) CHILD_ID_SIZE n"

text \<open>\<open>init\<close> zeroes the payload; the numbers written are truncated to \<open>u16\<close> as by \<open>as u16\<close>.\<close>

definition leaf_init :: "byte list \<Rightarrow> byte list outcome" where
  "leaf_init p = put 0 (le16 0) (replicate (length p) 0)"

definition set_next_leaf :: "byte list \<Rightarrow> page_no \<Rightarrow> byte list outcome" where
  "set_next_leaf p n = put 2 (le64 n) p"

fun write_leaf_cells :: "nat \<Rightarrow> nat \<Rightarrow> leaf_entry list \<Rightarrow> byte list \<Rightarrow> byte list outcome" where
  "write_leaf_cells i cursor [] buf = Ok buf"
| "write_leaf_cells i cursor ((key, rid) # es) buf =
    (let dir_base = LEAF_HEADER_SIZE + i * DIR_ENTRY_SIZE in
     and_then (put dir_base (le16 (of_nat cursor)) buf) (\<lambda>buf.
     and_then (put (dir_base + 2) (le16 (of_nat (length key))) buf) (\<lambda>buf.
     and_then (put cursor key buf) (\<lambda>buf.
     let cursor = cursor + length key in
     and_then (put cursor (le64 (rid_page rid)) buf) (\<lambda>buf.
     let cursor = cursor + 8 in
     and_then (put cursor (le16 (rid_slot rid)) buf) (\<lambda>buf.
     write_leaf_cells (i + 1) (cursor + 2) es buf))))))"

definition leaf_write_entries :: "byte list \<Rightarrow> leaf_entry list \<Rightarrow> (bool \<times> byte list) outcome" where
  "leaf_write_entries p es =
     (if length p < required_len LEAF_HEADER_SIZE (map (\<lambda>e. length (fst e)) es) RECORD_ID_SIZE then Ok (False, p)
      else
        and_then (next_leaf p) (\<lambda>next.
        and_then (put 0 (le16 (of_nat (length es))) (replicate (length p) 0)) (\<lambda>buf.
        and_then (put 2 (le64 next) buf) (\<lambda>buf.
        and_then (write_leaf_cells 0 (LEAF_HEADER_SIZE + length es * DIR_ENTRY_SIZE) es buf) (\<lambda>buf.
        Ok (True, buf))))))"

definition internal_init :: "byte list \<Rightarrow> page_no \<Rightarrow> byte list outcome" where
  "internal_init p leftmost =
     and_then (put 0 (le16 0) (replicate (length p) 0)) (\<lambda>buf. put 2 (le64 leftmost) buf)"

fun write_internal_cells :: "nat \<Rightarrow> nat \<Rightarrow> internal_entry list \<Rightarrow> byte list \<Rightarrow> byte list outcome" where
  "write_internal_cells i cursor [] buf = Ok buf"
| "write_internal_cells i cursor ((key, child) # es) buf =
    (let dir_base = INTERNAL_HEADER_SIZE + i * DIR_ENTRY_SIZE in
     and_then (put dir_base (le16 (of_nat cursor)) buf) (\<lambda>buf.
     and_then (put (dir_base + 2) (le16 (of_nat (length key))) buf) (\<lambda>buf.
     and_then (put cursor key buf) (\<lambda>buf.
     let cursor = cursor + length key in
     and_then (put cursor (le64 child) buf) (\<lambda>buf.
     write_internal_cells (i + 1) (cursor + 8) es buf)))))"

definition internal_write_entries :: "byte list \<Rightarrow> page_no \<Rightarrow> internal_entry list \<Rightarrow> (bool \<times> byte list) outcome" where
  "internal_write_entries p leftmost es =
     (if length p < required_len INTERNAL_HEADER_SIZE (map (\<lambda>e. length (fst e)) es) CHILD_ID_SIZE then Ok (False, p)
      else
        and_then (put 0 (le16 (of_nat (length es))) (replicate (length p) 0)) (\<lambda>buf.
        and_then (put 2 (le64 leftmost) buf) (\<lambda>buf.
        and_then (write_internal_cells 0 (INTERNAL_HEADER_SIZE + length es * DIR_ENTRY_SIZE) es buf) (\<lambda>buf.
        Ok (True, buf)))))"

subsection \<open>The canonical layout\<close>

text \<open>A cell is a key and the bytes behind it: a record id or a child.\<close>

type_synonym cell = "byte list \<times> byte list"

fun dir_image :: "nat \<Rightarrow> cell list \<Rightarrow> byte list" where
  "dir_image c [] = []"
| "dir_image c ((k, t) # cs) = le16 (of_nat c) @ le16 (of_nat (length k)) @ dir_image (c + length k + length t) cs"

definition data_image :: "cell list \<Rightarrow> byte list" where
  "data_image cs = concat (map (\<lambda>(k, t). k @ t) cs)"

definition cells_len :: "cell list \<Rightarrow> nat" where
  "cells_len cs = 10 + 4 * length cs + length (data_image cs)"

definition node_image :: "nat \<Rightarrow> u64 \<Rightarrow> cell list \<Rightarrow> byte list" where
  "node_image n x cs =
     le16 (of_nat (length cs)) @ le64 x @ dir_image (10 + 4 * length cs) cs @ data_image cs @ replicate (n - cells_len cs) 0"

lemma data_image_simps [simp]:
  "data_image [] = []" "data_image (c # cs) = fst c @ snd c @ data_image cs"
  "data_image (cs @ ds) = data_image cs @ data_image ds"
  by (auto simp: data_image_def split: prod.splits)

lemma dir_image_append: "dir_image c (cs @ ds) = dir_image c cs @ dir_image (c + length (data_image cs)) ds"
  by (induction c cs rule: dir_image.induct) (simp_all add: add.assoc)

lemma length_dir_image [simp]: "length (dir_image c cs) = 4 * length cs"
  by (induction c cs rule: dir_image.induct) simp_all

lemma length_node_image [simp]: "cells_len cs \<le> n \<Longrightarrow> length (node_image n x cs) = n"
  by (simp add: node_image_def cells_len_def)

lemma unat_u16: "n < 65536 \<Longrightarrow> unat (of_nat n :: u16) = n"
  by (simp add: unsigned_of_nat take_bit_nat_eq_self)

text \<open>The position of the \<open>i\<close>-th cell.\<close>

definition cell_offset :: "cell list \<Rightarrow> nat \<Rightarrow> nat" where
  "cell_offset cs i = 10 + 4 * length cs + length (data_image (take i cs))"

lemma image_at:
  assumes i: "i < length cs" and c: "cs ! i = (k, t)"
  shows "\<exists>a b. node_image n x cs = a @ le16 (of_nat (cell_offset cs i)) @ le16 (of_nat (length k)) @ b \<and> length a = 10 + 4 * i"
    and "\<exists>a b. node_image n x cs = a @ k @ t @ b \<and> length a = cell_offset cs i"
proof -
  have split: "cs = take i cs @ (k, t) # drop (Suc i) cs" using id_take_nth_drop [OF i] c by simp
  have dir: "dir_image (10 + 4 * length cs) cs = dir_image (10 + 4 * length cs) (take i cs)
    @ le16 (of_nat (cell_offset cs i)) @ le16 (of_nat (length k)) @ dir_image (cell_offset cs i + length k + length t) (drop (Suc i) cs)"
    by (subst split) (simp add: dir_image_append cell_offset_def)
  have data: "data_image cs = data_image (take i cs) @ k @ t @ data_image (drop (Suc i) cs)"
    by (subst split) simp
  show "\<exists>a b. node_image n x cs = a @ le16 (of_nat (cell_offset cs i)) @ le16 (of_nat (length k)) @ b \<and> length a = 10 + 4 * i"
    unfolding node_image_def dir
    by (rule exI [of _ "le16 (of_nat (length cs)) @ le64 x @ dir_image (10 + 4 * length cs) (take i cs)"]) (use i in simp)
  show "\<exists>a b. node_image n x cs = a @ k @ t @ b \<and> length a = cell_offset cs i"
    unfolding node_image_def data
    by (rule exI [of _ "le16 (of_nat (length cs)) @ le64 x @ dir_image (10 + 4 * length cs) cs @ data_image (take i cs)"])
      (simp add: cell_offset_def)
qed

lemma cell_end:
  assumes "i < length cs"
  shows "cell_offset cs i + length (fst (cs ! i)) + length (snd (cs ! i)) = cell_offset cs (Suc i)"
    and "cell_offset cs (Suc i) \<le> cells_len cs"
proof -
  show *: "cell_offset cs i + length (fst (cs ! i)) + length (snd (cs ! i)) = cell_offset cs (Suc i)"
    using assms by (simp add: cell_offset_def take_Suc_conv_app_nth)
  have "length (data_image cs) = length (data_image (take (Suc i) cs)) + length (data_image (drop (Suc i) cs))"
    by (metis append_take_drop_id data_image_simps(3) length_append)
  then show "cell_offset cs (Suc i) \<le> cells_len cs" by (simp add: cell_offset_def cells_len_def)
qed

lemma node_u16_at: "a = length pre \<Longrightarrow> node_u16 (pre @ le16 w @ post) a = Ok w"
  by (simp add: node_u16_def sub_slice_at)

lemma node_u64_at: "a = length pre \<Longrightarrow> node_u64 (pre @ le64 w @ post) a = Ok w"
  by (simp add: node_u64_def sub_slice_at)

text \<open>A page of \<open>n\<close> bytes holds the cells, and offsets fit the \<open>u16\<close> fields.\<close>

definition node_fits :: "nat \<Rightarrow> cell list \<Rightarrow> bool" where
  "node_fits n cs \<longleftrightarrow> cells_len cs \<le> n \<and> n < 65536"

lemma node_fits_count: "node_fits n cs \<Longrightarrow> length cs < 65536"
  by (simp add: node_fits_def cells_len_def)

lemma entry_count_image: "node_fits n cs \<Longrightarrow> entry_count (node_image n x cs) = Ok (length cs)"
  using node_u16_at [of 0 "[]" "of_nat (length cs)"] node_fits_count [of n cs]
  by (simp add: entry_count_def node_image_def unat_u16)

lemma header_image: "node_u64 (node_image n x cs) 2 = Ok x"
  unfolding node_image_def by (rule node_u64_at) simp

lemma dir_entry_image:
  assumes fits: "node_fits n cs" and "i < length cs"
  shows "dir_entry (node_image n x cs) 10 i = Ok (cell_offset cs i, length (fst (cs ! i)))"
proof -
  let ?img = "node_image n x cs"
  obtain a b where img: "?img = a @ le16 (of_nat (cell_offset cs i)) @ le16 (of_nat (length (fst (cs ! i)))) @ b"
    and a: "length a = 10 + 4 * i"
    using image_at(1) [OF assms(2) surjective_pairing] by blast
  have "cell_offset cs i < 65536" "length (fst (cs ! i)) < 65536"
    using cell_end [OF assms(2)] fits by (simp_all add: node_fits_def)
  moreover have "node_u16 ?img (10 + i * 4) = Ok (of_nat (cell_offset cs i))"
    unfolding img by (rule node_u16_at) (simp add: a)
  moreover have "node_u16 ?img (12 + i * 4) = Ok (of_nat (length (fst (cs ! i))))"
    unfolding img using node_u16_at [of "12 + i * 4" "a @ le16 (of_nat (cell_offset cs i))"] a by simp
  ultimately show ?thesis by (simp add: dir_entry_def Let_def DIR_ENTRY_SIZE_def unat_u16)
qed

lemma slice_image:
  assumes "i < length cs"
  shows "sub_slice (node_image n x cs) (cell_offset cs i) (cell_offset cs i + length (fst (cs ! i))) = Ok (fst (cs ! i))"
    and "\<exists>a b. node_image n x cs = a @ snd (cs ! i) @ b \<and> length a = cell_offset cs i + length (fst (cs ! i))"
proof -
  let ?img = "node_image n x cs"
  obtain a b where img: "?img = a @ fst (cs ! i) @ snd (cs ! i) @ b" and a: "length a = cell_offset cs i"
    using image_at(2) [OF assms surjective_pairing] by blast
  show "sub_slice ?img (cell_offset cs i) (cell_offset cs i + length (fst (cs ! i))) = Ok (fst (cs ! i))"
    unfolding img by (rule sub_slice_at) (simp_all add: a)
  show "\<exists>a b. ?img = a @ snd (cs ! i) @ b \<and> length a = cell_offset cs i + length (fst (cs ! i))"
    unfolding img by (rule exI [of _ "a @ fst (cs ! i)"]) (simp add: a)
qed

lemma node_key_image: "node_fits n cs \<Longrightarrow> i < length cs \<Longrightarrow> node_key 10 (node_image n x cs) i = Ok (fst (cs ! i))"
  by (simp add: node_key_def dir_entry_image slice_image)

lemma validate_entries_image:
  assumes fits: "node_fits n cs" and tr: "\<forall>c \<in> set cs. length (snd c) = tr" and sorted: "sorted (map fst cs)"
  shows "i \<le> length cs \<Longrightarrow> prev = (if i = 0 then None else Some (fst (cs ! (i - 1)))) \<Longrightarrow>
    validate_entries (node_image n x cs) 10 tr [i..<length cs] (cell_offset cs i) prev = Ok ()"
proof (induction "length cs - i" arbitrary: i prev)
  case (Suc d)
  then have i: "i < length cs" by simp
  let ?img = "node_image n x cs"
  have end': "cell_offset cs i + length (fst (cs ! i)) + tr = cell_offset cs (Suc i)"
    using cell_end(1) [OF i] tr i by simp
  with cell_end(2) [OF i] fits have ranges: "checked_range (length ?img) (cell_offset cs i) (length (fst (cs ! i))) = Ok (cell_offset cs i + length (fst (cs ! i)))"
    "checked_range (length ?img) (cell_offset cs i + length (fst (cs ! i))) tr = Ok (cell_offset cs (Suc i))"
    by (simp_all add: checked_range_def node_fits_def)
  have "\<not> (case prev of None \<Rightarrow> False | Some q \<Rightarrow> fst (cs ! i) < q)"
    using sorted i Suc.prems(2) sorted_nth_mono [OF sorted, of "i - 1" i] by (auto simp: not_less)
  with Suc.hyps(1) [of "Suc i" "Some (fst (cs ! i))"] Suc.hyps(2) i show ?case
    by (simp add: upt_conv_Cons dir_entry_image [OF fits] ranges slice_image)
qed simp

lemma validate_image:
  assumes "node_fits n cs" "\<forall>c \<in> set cs. length (snd c) = tr" "sorted (map fst cs)"
  shows "validate (node_image n x cs) 10 tr = Ok (length cs)"
proof -
  have "node_u16 (node_image n x cs) 0 = Ok (of_nat (length cs))"
    using node_u16_at [of 0 "[]" "of_nat (length cs)"] by (simp add: node_image_def)
  moreover have "checked_range n 10 (length cs * 4) = Ok (cell_offset cs 0)"
    using assms(1) by (simp add: checked_range_def cell_offset_def cells_len_def node_fits_def)
  moreover have "10 \<le> n" using assms(1) by (simp add: cells_len_def node_fits_def)
  ultimately show ?thesis
    using validate_entries_image [OF assms, of 0 None] assms(1) node_fits_count [OF assms(1)]
    by (simp add: validate_def unat_u16 DIR_ENTRY_SIZE_def node_fits_def)
qed

subsection \<open>Writing the layout\<close>

fun write_cells :: "nat \<Rightarrow> nat \<Rightarrow> cell list \<Rightarrow> byte list \<Rightarrow> byte list outcome" where
  "write_cells i cursor [] buf = Ok buf"
| "write_cells i cursor ((k, t) # cs) buf =
    (let base = 10 + i * 4 in
     and_then (put base (le16 (of_nat cursor)) buf) (\<lambda>buf.
     and_then (put (base + 2) (le16 (of_nat (length k))) buf) (\<lambda>buf.
     and_then (put cursor k buf) (\<lambda>buf.
     and_then (put (cursor + length k) t buf) (\<lambda>buf.
     write_cells (i + 1) (cursor + length k + length t) cs buf)))))"

lemma put_put: "and_then (put c a buf) (\<lambda>buf. put (c + length a) b buf) = put c (a @ b) buf"
  by (auto simp: put_def put_slice_def ac_simps)

definition leaf_cell :: "leaf_entry \<Rightarrow> cell" where
  "leaf_cell e = (fst e, le64 (rid_page (snd e)) @ le16 (rid_slot (snd e)))"

definition internal_cell :: "internal_entry \<Rightarrow> cell" where
  "internal_cell e = (fst e, le64 (snd e))"

lemma cell_simps [simp]:
  "fst (leaf_cell e) = fst e" "fst (internal_cell f) = fst f"
  "length (snd (leaf_cell e)) = 10" "length (snd (internal_cell f)) = 8"
  by (simp_all add: leaf_cell_def internal_cell_def)

lemma write_leaf_cells_eq: "write_leaf_cells i c es buf = write_cells i c (map leaf_cell es) buf"
proof (induction i c es buf rule: write_leaf_cells.induct)
  case (2 i cursor key rid es buf)
  have "and_then (put c (le64 a) buf) (\<lambda>buf. and_then (put (c + 8) (le16 b) buf) f) =
    and_then (put c (le64 a @ le16 b) buf) f" for c a b f buf
    using put_put [of c "le64 a" buf "le16 b"] by (metis and_then_assoc length_le(3))
  note joined = this [symmetric]
  from 2 show ?case
    by (simp add: leaf_cell_def Let_def node_sizes joined ac_simps cong: and_then_cong)
qed simp

lemma write_internal_cells_eq: "write_internal_cells i c es buf = write_cells i c (map internal_cell es) buf"
  by (induction i c es buf rule: write_internal_cells.induct)
    (auto simp: internal_cell_def Let_def node_sizes add.assoc intro!: and_then_cong)

lemma write_cells_image:
  "length pre = 10 + 4 * i \<Longrightarrow> c = 10 + 4 * i + 4 * length cs + length data \<Longrightarrow> length (data_image cs) \<le> z \<Longrightarrow>
   write_cells i c cs (pre @ replicate (4 * length cs) 0 @ data @ replicate z 0) =
   Ok (pre @ dir_image c cs @ data @ data_image cs @ replicate (z - length (data_image cs)) 0)"
proof (induction cs arbitrary: i c pre data z)
  case (Cons kt cs)
  obtain k t where kt: "kt = (k, t)" by fastforce
  obtain w where z: "z = length k + length t + w" using Cons.prems(3) kt le_Suc_ex by fastforce
  let ?z = "\<lambda>n. replicate n (0 :: byte)"
  let ?m = "4 * length cs" and ?a = "le16 (of_nat c) :: byte list" and ?b = "le16 (of_nat (length k)) :: byte list"
  have base: "10 + i * 4 = length pre" and base2: "12 + i * 4 = length (pre @ ?a)" using Cons.prems(1) by simp_all
  have "?z (4 * length (kt # cs)) = ?z 2 @ ?z 2 @ ?z ?m"
    by (simp add: replicate_add numeral_2_eq_2 numeral_eq_Suc)
  then have buf: "pre @ ?z (4 * length (kt # cs)) @ data @ ?z z
    = pre @ ?z 2 @ (?z 2 @ ?z ?m @ data @ ?z (length k) @ ?z (length t) @ ?z w)"
    by (simp add: z replicate_add)
  have p1: "put (10 + i * 4) ?a (pre @ ?z 2 @ (?z 2 @ ?z ?m @ data @ ?z (length k) @ ?z (length t) @ ?z w))
    = Ok ((pre @ ?a) @ ?z 2 @ (?z ?m @ data @ ?z (length k) @ ?z (length t) @ ?z w))"
    using put_at [OF base, of "?z 2" ?a] by simp
  have p2: "put (12 + i * 4) ?b ((pre @ ?a) @ ?z 2 @ (?z ?m @ data @ ?z (length k) @ ?z (length t) @ ?z w))
    = Ok ((pre @ ?a @ ?b @ ?z ?m @ data) @ ?z (length k) @ (?z (length t) @ ?z w))"
    using put_at [OF base2, of "?z 2" ?b] by simp
  have p3: "put c k ((pre @ ?a @ ?b @ ?z ?m @ data) @ ?z (length k) @ (?z (length t) @ ?z w))
    = Ok ((pre @ ?a @ ?b @ ?z ?m @ data @ k) @ ?z (length t) @ ?z w)"
    using put_at [of c "pre @ ?a @ ?b @ ?z ?m @ data" "?z (length k)" k] Cons.prems by simp
  have p4: "put (c + length k) t ((pre @ ?a @ ?b @ ?z ?m @ data @ k) @ ?z (length t) @ ?z w)
    = Ok ((pre @ ?a @ ?b) @ ?z ?m @ (data @ k @ t) @ ?z w)"
    using put_at [of "c + length k" "pre @ ?a @ ?b @ ?z ?m @ data @ k" "?z (length t)" t] Cons.prems by simp
  have p5: "write_cells (i + 1) (c + length k + length t) cs ((pre @ ?a @ ?b) @ ?z ?m @ (data @ k @ t) @ ?z w)
    = Ok ((pre @ ?a @ ?b) @ dir_image (c + length k + length t) cs @ (data @ k @ t) @ data_image cs
        @ ?z (w - length (data_image cs)))"
    by (rule Cons.IH) (use Cons.prems kt z in simp_all)
  have "write_cells i c (kt # cs) (pre @ ?z (4 * length (kt # cs)) @ data @ ?z z)
    = Ok ((pre @ ?a @ ?b) @ dir_image (c + length k + length t) cs @ (data @ k @ t) @ data_image cs
        @ ?z (w - length (data_image cs)))"
    unfolding buf unfolding kt write_cells.simps Let_def
    using p1 p2 p3 p4 p5 by (simp add: add.commute [of "i * 4"])
  then show ?case by (simp add: kt z diff_diff_add)
qed simp

subsection \<open>Sizes and splitting\<close>

lemma required_len_eq: "required_len h ls tr = h + (\<Sum>l \<leftarrow> ls. 4 + l + tr)"
proof -
  have "foldl (\<lambda>total n. total + (4 + n + tr)) h ls = h + (\<Sum>l \<leftarrow> ls. 4 + l + tr)" for h
    by (induction ls arbitrary: h) simp_all
  then show ?thesis by (simp add: required_len_def DIR_ENTRY_SIZE_def)
qed

lemma cells_len_eq:
  "\<forall>c \<in> set cs. length (snd c) = tr \<Longrightarrow> cells_len cs = required_len 10 (map (\<lambda>c. length (fst c)) cs) tr"
  unfolding cells_len_def required_len_eq by (induction cs) simp_all

lemma fit_cells:
  "leaf_entries_fit n es \<longleftrightarrow> cells_len (map leaf_cell es) \<le> n"
  "internal_entries_fit n fs \<longleftrightarrow> cells_len (map internal_cell fs) \<le> n"
  using cells_len_eq [of "map leaf_cell es" 10] cells_len_eq [of "map internal_cell fs" 8]
  by (simp_all add: leaf_entries_fit_def internal_entries_fit_def node_sizes comp_def)

text \<open>The sum of two sizes counts the header twice.\<close>

lemma required_len_append: "required_len 10 (ks @ ls) tr + 10 = required_len 10 ks tr + required_len 10 ls tr"
  by (simp add: required_len_eq)

lemma leaf_fit_append:
  "leaf_entries_fit n (es @ fs) \<longleftrightarrow>
   required_len 10 (map (\<lambda>e. length (fst e)) es) 10 + required_len 10 (map (\<lambda>e. length (fst e)) fs) 10 \<le> n + 10"
  using required_len_append [of "map (\<lambda>e. length (fst e)) es" "map (\<lambda>e. length (fst e)) fs" 10]
  by (auto simp: leaf_entries_fit_def node_sizes)

lemma split_loop_bounds:
  assumes small: "\<forall>k \<in> set ks. 10 + 2 * (4 + k + tr) \<le> cap"
    and cursor: "10 + used = cursor" "cursor \<le> cap" "0 < n \<or> used = 0"
  shows "\<exists>m \<le> length ks. split_loop ks tr cap cursor n = n + m
    \<and> cursor + (\<Sum>k \<leftarrow> take m ks. 4 + k + tr) \<le> cap
    \<and> (m < length ks \<longrightarrow> 0 < n + m \<and> cap < cursor + (\<Sum>k \<leftarrow> take (Suc m) ks. 4 + k + tr))"
  using assms
proof (induction ks arbitrary: cursor n used)
  case (Cons k ks)
  let ?need = "4 + k + tr"
  show ?case
  proof (cases "0 < n \<and> cap < cursor + ?need")
    case True
    then show ?thesis using Cons.prems by (intro exI [of _ 0]) (simp add: DIR_ENTRY_SIZE_def)
  next
    case False
    have "cursor + ?need \<le> cap" using False Cons.prems by auto
    then obtain m where m: "m \<le> length ks" "split_loop ks tr cap (cursor + ?need) (n + 1) = n + 1 + m"
      "cursor + ?need + (\<Sum>k \<leftarrow> take m ks. 4 + k + tr) \<le> cap"
      "m < length ks \<longrightarrow> 0 < n + 1 + m \<and> cap < cursor + ?need + (\<Sum>k \<leftarrow> take (Suc m) ks. 4 + k + tr)"
      using Cons.IH [of "used + ?need" "cursor + ?need" "n + 1"] Cons.prems by auto
    have "split_loop (k # ks) tr cap cursor n = split_loop ks tr cap (cursor + ?need) (n + 1)"
      using False by (auto simp: DIR_ENTRY_SIZE_def Let_def)
    with m show ?thesis by (intro exI [of _ "Suc m"]) (simp add: add.assoc)
  qed
qed simp

text \<open>
  Entries that overflow a page by less than one largest entry are cut into two parts that fit, both of them
  non-empty.
\<close>

lemma capacity_split:
  assumes small: "\<forall>k \<in> set ks. 10 + 2 * (4 + k + tr) \<le> cap" and l: "10 + 2 * (4 + l + tr) \<le> cap"
    and over: "cap < required_len 10 ks tr" "required_len 10 ks tr \<le> cap + (4 + l + tr)"
  shows "0 < capacity_split_point 10 ks tr cap \<and> capacity_split_point 10 ks tr cap < length ks
    \<and> required_len 10 (take (capacity_split_point 10 ks tr cap) ks) tr \<le> cap
    \<and> required_len 10 (drop (capacity_split_point 10 ks tr cap) ks) tr \<le> cap"
proof -
  define S where "S ls = (\<Sum>k \<leftarrow> ls. 4 + k + tr)" for ls :: "nat list"
  have S: "S (as @ bs) = S as + S bs" "S (a # bs) = 4 + a + tr + S bs" for a as bs by (simp_all add: S_def)
  have req: "required_len 10 ls tr = 10 + S ls" for ls by (simp add: required_len_eq S_def)
  obtain m where m: "m \<le> length ks" "capacity_split_point 10 ks tr cap = m" "10 + S (take m ks) \<le> cap"
    "m < length ks \<longrightarrow> 0 < m \<and> cap < 10 + S (take (Suc m) ks)"
    using split_loop_bounds [OF small, of 0 10 0] l unfolding S_def capacity_split_point_def by auto
  have less: "m < length ks"
  proof (rule ccontr)
    assume "\<not> m < length ks"
    then have "take m ks = ks" by simp
    with m(3) over(1) show False unfolding req by simp
  qed
  have parts: "S ks = S (take (Suc m) ks) + S (drop (Suc m) ks)" by (metis append_take_drop_id S(1))
  have "S (drop m ks) = 4 + ks ! m + tr + S (drop (Suc m) ks)"
    using less by (simp only: Cons_nth_drop_Suc [symmetric] S)
  moreover have "10 + 2 * (4 + ks ! m + tr) \<le> cap" using small less by simp
  moreover have "S (drop (Suc m) ks) < 4 + l + tr"
    using over(2) conjunct2 [OF mp [OF m(4) less]] parts unfolding req by linarith
  ultimately have "10 + S (drop m ks) \<le> cap" using l by simp
  then show ?thesis using m less unfolding req by simp
qed

lemma fit_lens:
  "leaf_entries_fit n es \<longleftrightarrow> required_len 10 (map (\<lambda>e. length (fst e)) es) 10 \<le> n"
  "internal_entries_fit n fs \<longleftrightarrow> required_len 10 (map (\<lambda>e. length (fst e)) fs) 8 \<le> n"
  by (simp_all add: leaf_entries_fit_def internal_entries_fit_def node_sizes)

definition keys_fit :: "nat \<Rightarrow> (byte list \<times> 'a) list \<Rightarrow> bool" where
  "keys_fit m es \<longleftrightarrow> (\<forall>e \<in> set es. length (fst e) \<le> m)"

lemma small_keys:
  "keys_fit m es \<Longrightarrow> m \<le> (n - (10 + 2 * (4 + tr))) div 2 \<Longrightarrow> 10 + 2 * (4 + tr) \<le> n \<Longrightarrow>
   \<forall>k \<in> set (map (\<lambda>e. length (fst e)) es). 10 + 2 * (4 + k + tr) \<le> n"
  by (fastforce simp: keys_fit_def)

lemma leaf_split_halves_fit:
  assumes old: "leaf_entries_fit n (es @ fs)" and new: "\<not> leaf_entries_fit n (es @ (k, r) # fs)"
    and keys: "keys_fit (leaf_max_key_len_for_two_entries n) (es @ (k, r) # fs)" and n: "38 \<le> n"
  shows "0 < leaf_split_point n (es @ (k, r) # fs) \<and> leaf_split_point n (es @ (k, r) # fs) < length (es @ (k, r) # fs)
    \<and> leaf_entries_fit n (take (leaf_split_point n (es @ (k, r) # fs)) (es @ (k, r) # fs))
    \<and> leaf_entries_fit n (drop (leaf_split_point n (es @ (k, r) # fs)) (es @ (k, r) # fs))"
proof -
  let ?ks = "map (\<lambda>e. length (fst e)) (es @ (k, r) # fs)"
  have small: "\<forall>k \<in> set ?ks. 10 + 2 * (4 + k + 10) \<le> n"
    by (rule small_keys [OF keys]) (use n in \<open>simp_all add: leaf_max_key_len_for_two_entries_def node_sizes\<close>)
  then have l: "10 + 2 * (4 + length k + 10) \<le> n" by simp
  have "required_len 10 ?ks 10 = required_len 10 (map (\<lambda>e. length (fst e)) (es @ fs)) 10 + (4 + length k + 10)"
    by (simp add: required_len_eq)
  then show ?thesis
    using capacity_split [OF small l] old new
    by (simp add: fit_lens leaf_split_point_def node_sizes take_map drop_map del: map_append list.map)
qed

lemma internal_split_halves_fit:
  assumes old: "internal_entries_fit n (es @ fs)" and new: "\<not> internal_entries_fit n (es @ (k, c) # fs)"
    and keys: "keys_fit (internal_max_key_len_for_two_entries n) (es @ (k, c) # fs)" and n: "34 \<le> n"
  shows "0 < internal_split_point n (es @ (k, c) # fs) \<and> internal_split_point n (es @ (k, c) # fs) < length (es @ (k, c) # fs)
    \<and> internal_entries_fit n (take (internal_split_point n (es @ (k, c) # fs)) (es @ (k, c) # fs))
    \<and> internal_entries_fit n (drop (internal_split_point n (es @ (k, c) # fs)) (es @ (k, c) # fs))"
proof -
  let ?ks = "map (\<lambda>e. length (fst e)) (es @ (k, c) # fs)"
  have small: "\<forall>k \<in> set ?ks. 10 + 2 * (4 + k + 8) \<le> n"
    by (rule small_keys [OF keys]) (use n in \<open>simp_all add: internal_max_key_len_for_two_entries_def node_sizes\<close>)
  then have l: "10 + 2 * (4 + length k + 8) \<le> n" by simp
  have "required_len 10 ?ks 8 = required_len 10 (map (\<lambda>e. length (fst e)) (es @ fs)) 8 + (4 + length k + 8)"
    by (simp add: required_len_eq)
  then show ?thesis
    using capacity_split [OF small l] old new
    by (simp add: fit_lens internal_split_point_def node_sizes take_map drop_map del: map_append list.map)
qed

lemma fit_mono:
  "mset (map fst es) \<subseteq># mset (map fst fs) \<Longrightarrow> leaf_entries_fit n fs \<Longrightarrow> leaf_entries_fit n es"
  "mset (map fst gs) \<subseteq># mset (map fst hs) \<Longrightarrow> internal_entries_fit n hs \<Longrightarrow> internal_entries_fit n gs"
proof -
  have le: "required_len 10 (map (\<lambda>e. length (fst e)) as) tr \<le> required_len 10 (map (\<lambda>e. length (fst e)) bs) tr"
    if "mset (map fst as) \<subseteq># mset (map fst bs)" for as bs :: "(byte list \<times> 'c) list" and tr
  proof -
    have sum: "(\<Sum>k \<leftarrow> map (\<lambda>e. length (fst e)) xs. 4 + k + tr) = (\<Sum>k \<in># mset (map fst xs). 4 + length k + tr)"
      for xs :: "(byte list \<times> 'c) list"
      by (induction xs) simp_all
    show ?thesis unfolding required_len_eq sum using that
      by (auto simp: mset_subset_eq_exists_conv)
  qed
  show "mset (map fst es) \<subseteq># mset (map fst fs) \<Longrightarrow> leaf_entries_fit n fs \<Longrightarrow> leaf_entries_fit n es"
    "mset (map fst gs) \<subseteq># mset (map fst hs) \<Longrightarrow> internal_entries_fit n hs \<Longrightarrow> internal_entries_fit n gs"
    using le le_trans unfolding fit_lens by blast+
qed

subsection \<open>Pages as lists of entries\<close>

text \<open>
  The two kinds of node with their canonical page images. A leaf or internal page is \<open>valid\<close> when its
  entries fit and are in order; on valid pages every read returns the entry of the list, and every write
  produces the image of the new list.
\<close>

definition leaf_image :: "nat \<Rightarrow> page_no \<Rightarrow> leaf_entry list \<Rightarrow> byte list" where
  "leaf_image n next es = node_image n next (map leaf_cell es)"

definition internal_image :: "nat \<Rightarrow> page_no \<Rightarrow> internal_entry list \<Rightarrow> byte list" where
  "internal_image n left fs = node_image n left (map internal_cell fs)"

definition leaf_valid :: "nat \<Rightarrow> leaf_entry list \<Rightarrow> bool" where
  "leaf_valid n es \<longleftrightarrow> leaf_entries_fit n es \<and> n < 65536 \<and> sorted (map fst es)"

definition internal_valid :: "nat \<Rightarrow> internal_entry list \<Rightarrow> bool" where
  "internal_valid n fs \<longleftrightarrow> internal_entries_fit n fs \<and> n < 65536 \<and> sorted (map fst fs)"

lemma valid_fits [simp]:
  "leaf_valid n es \<Longrightarrow> node_fits n (map leaf_cell es)"
  "internal_valid n fs \<Longrightarrow> node_fits n (map internal_cell fs)"
  by (simp_all add: leaf_valid_def internal_valid_def node_fits_def fit_cells)

lemma leaf_open_image: "leaf_valid n es \<Longrightarrow> leaf_open (leaf_image n x es) = Ok ()"
  using validate_image [of n "map leaf_cell es" 10 x] valid_fits(1) [of n es]
  by (simp add: leaf_open_def node_sizes leaf_image_def leaf_valid_def comp_def)

lemma internal_open_image: "internal_valid n fs \<Longrightarrow> internal_open (internal_image n x fs) = Ok ()"
  using validate_image [of n "map internal_cell fs" 8 x] valid_fits(2) [of n fs]
  by (simp add: internal_open_def node_sizes internal_image_def internal_valid_def comp_def)

lemma count_image:
  "leaf_valid n es \<Longrightarrow> entry_count (leaf_image n x es) = Ok (length es)"
  "internal_valid n fs \<Longrightarrow> entry_count (internal_image n y fs) = Ok (length fs)"
  by (simp_all add: leaf_image_def internal_image_def entry_count_image)

lemma next_leaf_image: "next_leaf (leaf_image n x es) = Ok x"
  by (simp add: next_leaf_def leaf_image_def header_image)

lemma leftmost_child_image: "leftmost_child (internal_image n x fs) = Ok x"
  by (simp add: leftmost_child_def internal_image_def header_image)

lemma leaf_key_image: "leaf_valid n es \<Longrightarrow> i < length es \<Longrightarrow> leaf_key (leaf_image n x es) i = Ok (fst (es ! i))"
  by (simp add: leaf_key_def leaf_image_def node_sizes node_key_image)

lemma internal_key_image: "internal_valid n fs \<Longrightarrow> i < length fs \<Longrightarrow> internal_key (internal_image n x fs) i = Ok (fst (fs ! i))"
  by (simp add: internal_key_def internal_image_def node_sizes node_key_image)

lemma leaf_record_id_image:
  assumes v: "leaf_valid n es" and i: "i < length es"
  shows "leaf_record_id (leaf_image n x es) i = Ok (snd (es ! i))"
proof -
  let ?cs = "map leaf_cell es"
  let ?base = "cell_offset ?cs i + length (fst (es ! i))"
  obtain a b where img: "leaf_image n x es = a @ le64 (rid_page (snd (es ! i))) @ le16 (rid_slot (snd (es ! i))) @ b"
    and a: "length a = ?base"
    using slice_image(2) [of i ?cs n x] i by (auto simp: leaf_image_def leaf_cell_def)
  have "node_u64 (leaf_image n x es) ?base = Ok (rid_page (snd (es ! i)))"
    unfolding img by (rule node_u64_at) (simp add: a)
  moreover have "node_u16 (leaf_image n x es) (?base + 8) = Ok (rid_slot (snd (es ! i)))"
    unfolding img using node_u16_at [of "?base + 8" "a @ le64 (rid_page (snd (es ! i)))"] a by simp
  moreover have "dir_entry (leaf_image n x es) 10 i = Ok (cell_offset ?cs i, length (fst (es ! i)))"
    using dir_entry_image [OF valid_fits(1) [OF v], of i x] i by (simp add: leaf_image_def)
  ultimately show ?thesis by (simp add: leaf_record_id_def node_sizes Let_def)
qed

lemma child_after_image:
  assumes v: "internal_valid n fs" and i: "i < length fs"
  shows "child_after (internal_image n x fs) i = Ok (snd (fs ! i))"
proof -
  let ?cs = "map internal_cell fs"
  let ?base = "cell_offset ?cs i + length (fst (fs ! i))"
  obtain a b where img: "internal_image n x fs = a @ le64 (snd (fs ! i)) @ b" and a: "length a = ?base"
    using slice_image(2) [of i ?cs n x] i by (auto simp: internal_image_def internal_cell_def)
  have "node_u64 (internal_image n x fs) ?base = Ok (snd (fs ! i))"
    unfolding img by (rule node_u64_at) (simp add: a)
  moreover have "dir_entry (internal_image n x fs) 10 i = Ok (cell_offset ?cs i, length (fst (fs ! i)))"
    using dir_entry_image [OF valid_fits(2) [OF v], of i x] i by (simp add: internal_image_def)
  ultimately show ?thesis by (simp add: child_after_def node_sizes)
qed

subsubsection \<open>Writing\<close>

lemma write_node:
  assumes fits: "cells_len cs \<le> n" and buf: "length p = n"
  shows "and_then (put 0 (le16 (of_nat (length cs))) (replicate (length p) 0)) (\<lambda>buf.
    and_then (put 2 (le64 x) buf) (\<lambda>buf. write_cells 0 (10 + 4 * length cs) cs buf)) = Ok (node_image n x cs)"
proof -
  let ?z = "\<lambda>k. replicate k (0 :: byte)"
  let ?h = "le16 (of_nat (length cs)) :: byte list"
  obtain w where w: "n = 10 + 4 * length cs + w" "length (data_image cs) \<le> w"
    using fits by (auto simp: cells_len_def le_iff_add add.assoc)
  have "?z n = ?z 2 @ ?z 8 @ ?z (4 * length cs) @ ?z w"
    unfolding w(1) replicate_add [symmetric] by simp
  then have "put 0 ?h (?z n) = Ok (?h @ ?z 8 @ ?z (4 * length cs) @ ?z w)"
    using put_at [of 0 "[]" "?z 2" ?h] by simp
  moreover have "put 2 (le64 x) (?h @ ?z 8 @ ?z (4 * length cs) @ ?z w) = Ok ((?h @ le64 x) @ ?z (4 * length cs) @ [] @ ?z w)"
    using put_at [of 2 ?h "?z 8" "le64 x"] by simp
  moreover have "write_cells 0 (10 + 4 * length cs) cs ((?h @ le64 x) @ ?z (4 * length cs) @ [] @ ?z w)
    = Ok ((?h @ le64 x) @ dir_image (10 + 4 * length cs) cs @ [] @ data_image cs @ ?z (w - length (data_image cs)))"
    by (rule write_cells_image) (use w in simp_all)
  ultimately show ?thesis
    using buf w by (simp add: node_image_def cells_len_def)
qed

lemma leaf_write_entries_eq:
  assumes "next_leaf p = Ok x"
  shows "leaf_write_entries p es =
    (if leaf_entries_fit (length p) es then Ok (True, leaf_image (length p) x es) else Ok (False, p))"
proof (cases "leaf_entries_fit (length p) es")
  case True
  then have "cells_len (map leaf_cell es) \<le> length p" by (simp add: fit_cells)
  from write_node [OF this refl, of x] True show ?thesis
    by (simp add: leaf_write_entries_def assms fit_lens node_sizes write_leaf_cells_eq leaf_image_def and_then_iffs
        mult.commute [of _ 4])
next
  case False
  then show ?thesis by (simp add: leaf_write_entries_def fit_lens node_sizes)
qed

lemma internal_write_entries_eq:
  "internal_write_entries p x fs =
    (if internal_entries_fit (length p) fs then Ok (True, internal_image (length p) x fs) else Ok (False, p))"
proof (cases "internal_entries_fit (length p) fs")
  case True
  then have "cells_len (map internal_cell fs) \<le> length p" by (simp add: fit_cells)
  from write_node [OF this refl, of x] True show ?thesis
    by (simp add: internal_write_entries_def fit_lens node_sizes write_internal_cells_eq internal_image_def and_then_iffs
        mult.commute [of _ 4])
next
  case False
  then show ?thesis by (simp add: internal_write_entries_def fit_lens node_sizes)
qed

lemma set_next_leaf_image: "set_next_leaf (leaf_image n x es) y = Ok (leaf_image n y es)"
  using put_at [of 2 "le16 (of_nat (length es))" "le64 x" "le64 y"]
  by (simp add: set_next_leaf_def leaf_image_def node_image_def)

lemma zero_page:
  assumes "10 \<le> n"
  shows "put 0 (le16 0) (replicate n 0) = Ok (node_image n 0 [])"
    and "and_then (put 0 (le16 0) (replicate n 0)) (\<lambda>buf. put 2 (le64 x) buf) = Ok (node_image n x [])"
proof -
  show *: "and_then (put 0 (le16 0) (replicate n 0)) (\<lambda>buf. put 2 (le64 x) buf) = Ok (node_image n x [])" for x
    using write_node [of "[]" n "replicate n 0" x] assms by (auto simp: cells_len_def and_then_iffs)
  have "put 2 (le64 0) (le16 0 @ replicate (n - 2) 0) = Ok (le16 0 @ replicate (n - 2) 0)"
  proof -
    have "le_bytes k 0 = replicate k 0" for k by (induction k) simp_all
    then have "le64 0 = replicate 8 0" by (simp add: le64_def)
    then have "replicate (n - 2) (0 :: byte) = le64 0 @ replicate (n - 10) 0"
      using assms by (simp add: replicate_add [symmetric])
    then show ?thesis using put_at [of 2 "le16 0" "le64 0" "le64 0" "replicate (n - 10) 0"] by simp
  qed
  moreover have "put 0 (le16 0) (replicate n 0) = Ok (le16 0 @ replicate (n - 2) 0)"
  proof -
    obtain k where "n = 2 + k" using assms le_Suc_ex [of 10 n] by auto
    then have "replicate n (0 :: byte) = replicate 2 0 @ replicate (n - 2) 0" by (simp only: replicate_add) simp
    then show ?thesis using put_at [of 0 "[]" "replicate 2 0" "le16 0" "replicate (n - 2) 0"] by simp
  qed
  ultimately show "put 0 (le16 0) (replicate n 0) = Ok (node_image n 0 [])"
    using * [of 0] by simp
qed

lemma init_images:
  "10 \<le> length p \<Longrightarrow> leaf_init p = Ok (leaf_image (length p) 0 [])"
  "10 \<le> length p \<Longrightarrow> internal_init p x = Ok (internal_image (length p) x [])"
  unfolding leaf_init_def internal_init_def leaf_image_def internal_image_def list.map by (fact zero_page)+

lemma length_images:
  "leaf_valid n es \<Longrightarrow> length (leaf_image n x es) = n"
  "internal_valid n fs \<Longrightarrow> length (internal_image n x fs) = n"
  by (simp_all add: leaf_image_def internal_image_def leaf_valid_def internal_valid_def fit_cells)

subsection \<open>Searching\<close>

text \<open>On a list whose elements satisfy \<open>P\<close> exactly on a prefix, the halving search finds its end.\<close>

lemma search_from_boundary:
  assumes key: "\<And>i. i < length ks \<Longrightarrow> key i = Ok (ks ! i)"
    and mono: "\<And>i j. i \<le> j \<Longrightarrow> j < length ks \<Longrightarrow> P (ks ! j) \<Longrightarrow> P (ks ! i)"
  shows "lo \<le> length (takeWhile P ks) \<Longrightarrow> length (takeWhile P ks) \<le> hi \<Longrightarrow> hi \<le> length ks \<Longrightarrow>
    search_from P key lo hi = Ok (length (takeWhile P ks))"
proof (induction "hi - lo" arbitrary: lo hi rule: less_induct)
  case less
  let ?b = "length (takeWhile P ks)"
  have in_prefix: "i < ?b" if "i < length ks" "P (ks ! i)" for i
  proof (rule ccontr)
    assume "\<not> i < ?b"
    then have "?b \<le> i" by simp
    with that have "?b < length ks" "P (ks ! ?b)" using mono by auto
    then show False using nth_length_takeWhile by blast
  qed
  have prefix: "P (ks ! i)" if "i < ?b" for i
    using that by (metis nth_mem set_takeWhileD takeWhile_nth)
  show ?case
  proof (cases "lo < hi")
    case True
    define mid where "mid = lo + (hi - lo) div 2"
    have mid: "lo \<le> mid" "mid < hi" using True by (auto simp: mid_def)
    have k: "key mid = Ok (ks ! mid)" using key mid less.prems by simp
    show ?thesis
    proof (cases "P (ks ! mid)")
      case True
      then have "search_from P key lo hi = search_from P key (mid + 1) hi"
        using k \<open>lo < hi\<close> by (subst search_from.simps) (simp add: mid_def [symmetric] Let_def)
      also have "\<dots> = Ok ?b"
        using in_prefix [of mid] True mid less.prems by (intro less.hyps) auto
      finally show ?thesis .
    next
      case False
      then have "search_from P key lo hi = search_from P key lo mid"
        using k \<open>lo < hi\<close> by (subst search_from.simps) (simp add: mid_def [symmetric] Let_def)
      also have "\<dots> = Ok ?b"
        using prefix [of mid] False mid less.prems by (intro less.hyps) (auto simp: not_less [symmetric])
      finally show ?thesis .
    qed
  next
    case False
    with less.prems show ?thesis by (subst search_from.simps) simp
  qed
qed

lemma sorted_prefix:
  assumes "sorted ks"
  shows "i \<le> j \<Longrightarrow> j < length ks \<Longrightarrow> ks ! j \<le> k \<Longrightarrow> ks ! i \<le> (k :: 'a :: linorder)"
    and "i \<le> j \<Longrightarrow> j < length ks \<Longrightarrow> ks ! j < k \<Longrightarrow> ks ! i < k"
  using assms by (meson le_less_trans order_trans sorted_nth_mono)+

text \<open>The child a search descends into: the one before the first separator past the boundary.\<close>

definition nth_child :: "page_no \<Rightarrow> internal_entry list \<Rightarrow> nat \<Rightarrow> page_no" where
  "nth_child x fs i = (if i = 0 then x else snd (fs ! (i - 1)))"

text \<open>What a reader sees of a page: its entries in order, through every accessor.\<close>

definition shows_leaf :: "byte list \<Rightarrow> page_no \<Rightarrow> leaf_entry list \<Rightarrow> bool" where
  "shows_leaf p x es \<longleftrightarrow> entry_count p = Ok (length es) \<and> next_leaf p = Ok x \<and> sorted (map fst es)
     \<and> (\<forall>i < length es. leaf_key p i = Ok (fst (es ! i)) \<and> leaf_record_id p i = Ok (snd (es ! i)))"

definition shows_internal :: "byte list \<Rightarrow> page_no \<Rightarrow> internal_entry list \<Rightarrow> bool" where
  "shows_internal p x fs \<longleftrightarrow> entry_count p = Ok (length fs) \<and> leftmost_child p = Ok x \<and> sorted (map fst fs)
     \<and> (\<forall>i < length fs. internal_key p i = Ok (fst (fs ! i)) \<and> child_after p i = Ok (snd (fs ! i)))"

lemma image_shows:
  "leaf_valid n es \<Longrightarrow> shows_leaf (leaf_image n x es) x es"
  "internal_valid n fs \<Longrightarrow> shows_internal (internal_image n x fs) x fs"
  by (simp_all add: shows_leaf_def shows_internal_def count_image next_leaf_image leftmost_child_image
      leaf_key_image leaf_record_id_image internal_key_image child_after_image)
    (simp_all add: leaf_valid_def internal_valid_def)

lemma shows_entries:
  "shows_leaf p x es \<Longrightarrow> leaf_entries p = Ok es"
  "shows_internal p x fs \<Longrightarrow> internal_entries p = Ok fs"
  by (auto simp: shows_leaf_def shows_internal_def leaf_entries_def internal_entries_def map_outcome_Ok_iff
      list_all2_conv_all_nth)

lemma child_at_shows: "shows_internal p x fs \<Longrightarrow> i \<le> length fs \<Longrightarrow> child_at p i = Ok (nth_child x fs i)"
  by (auto simp: child_at_def nth_child_def shows_internal_def)

lemma child_for_shows:
  assumes v: "shows_internal p x fs"
  shows "child_for p key = Ok (nth_child x fs (length (takeWhile (\<lambda>k. k \<le> key) (map fst fs))))"
    and "child_for_lower_bound p key = Ok (nth_child x fs (length (takeWhile (\<lambda>k. k < key) (map fst fs))))"
proof -
  have s: "sorted (map fst fs)" using v by (simp add: shows_internal_def)
  have key: "internal_key p i = Ok (map fst fs ! i)" if "i < length (map fst fs)" for i
    using that v by (simp add: shows_internal_def)
  have b: "length (takeWhile P (map fst fs)) \<le> length fs" for P
    using length_takeWhile_le [of P "map fst fs"] by simp
  have n: "entry_count p = Ok (length fs)" using v by (simp add: shows_internal_def)
  have "search_from (\<lambda>k. k \<le> key) (internal_key p) 0 (length fs) = Ok (length (takeWhile (\<lambda>k. k \<le> key) (map fst fs)))"
    by (rule search_from_boundary) (fact key, fact sorted_prefix(1) [OF s], use b in simp_all)
  then show "child_for p key = Ok (nth_child x fs (length (takeWhile (\<lambda>k. k \<le> key) (map fst fs))))"
    using b by (simp add: child_for_def n child_at_shows [OF v])
  have "search_from (\<lambda>k. k < key) (internal_key p) 0 (length fs) = Ok (length (takeWhile (\<lambda>k. k < key) (map fst fs)))"
    by (rule search_from_boundary) (fact key, fact sorted_prefix(2) [OF s], use b in simp_all)
  then show "child_for_lower_bound p key = Ok (nth_child x fs (length (takeWhile (\<lambda>k. k < key) (map fst fs))))"
    using b by (simp add: child_for_lower_bound_def n child_at_shows [OF v])
qed

lemma length_takeWhile_eq:
  "i \<le> length xs \<Longrightarrow> \<forall>j < i. P (xs ! j) \<Longrightarrow> i < length xs \<longrightarrow> \<not> P (xs ! i) \<Longrightarrow> length (takeWhile P xs) = i"
  by (subst takeWhile_eq_take_P_nth [of i]) auto

text \<open>The exact search of a leaf.\<close>

lemma leaf_find_from_shows:
  assumes v: "shows_leaf p x es"
  shows "hi \<le> length es \<Longrightarrow> \<forall>i < lo. fst (es ! i) < key \<Longrightarrow> \<forall>i < length es. hi \<le> i \<longrightarrow> key < fst (es ! i) \<Longrightarrow> lo \<le> hi \<Longrightarrow>
    (\<exists>i < length es. fst (es ! i) = key \<and> leaf_find_from p key lo hi = Ok (Found i))
    \<or> (\<exists>i \<le> length es. (\<forall>j < i. fst (es ! j) < key) \<and> (\<forall>j < length es. i \<le> j \<longrightarrow> key < fst (es ! j))
        \<and> leaf_find_from p key lo hi = Ok (InsertAt i))"
proof (induction "hi - lo" arbitrary: lo hi rule: less_induct)
  case less
  have s: "sorted (map fst es)" using v by (simp add: shows_leaf_def)
  show ?case
  proof (cases "lo < hi")
    case True
    define mid where "mid = lo + (hi - lo) div 2"
    have mid: "lo \<le> mid" "mid < hi" using True by (auto simp: mid_def)
    have k: "leaf_key p mid = Ok (fst (es ! mid))" using v mid less.prems by (simp add: shows_leaf_def)
    have step: "leaf_find_from p key lo hi =
      (if fst (es ! mid) = key then Ok (Found mid)
       else if fst (es ! mid) < key then leaf_find_from p key (mid + 1) hi
       else leaf_find_from p key lo mid)"
      using k True by (subst leaf_find_from.simps) (simp add: mid_def [symmetric] Let_def)
    have mono: "fst (es ! i) \<le> fst (es ! j)" if "i \<le> j" "j < length es" for i j
      using sorted_nth_mono [OF s, of i j] that by simp
    consider "fst (es ! mid) = key" | "fst (es ! mid) < key" | "key < fst (es ! mid)" by (metis not_less_iff_gr_or_eq)
    then show ?thesis
    proof cases
      case 1
      then show ?thesis using step mid less.prems by auto
    next
      case 2
      have "fst (es ! i) < key" if "i < mid + 1" for i
        using mono [of i mid] that mid less.prems(1) 2 by (simp add: le_less_trans)
      then show ?thesis using less.hyps [of hi "mid + 1"] 2 unfolding step using mid less.prems by simp
    next
      case 3
      have "key < fst (es ! i)" if "i < length es" "mid \<le> i" for i
        using mono [of mid i] that 3 by (simp add: order_less_le_trans)
      moreover have "fst (es ! mid) \<noteq> key" "\<not> fst (es ! mid) < key" using 3 by auto
      ultimately show ?thesis using less.hyps [of mid lo] unfolding step using mid less.prems by simp
    qed
  next
    case False
    then have "leaf_find_from p key lo hi = Ok (InsertAt lo)" by (subst leaf_find_from.simps) simp
    then show ?thesis using less.prems False by (intro disjI2 exI [of _ lo]) auto
  qed
qed

lemma leaf_find_shows:
  assumes v: "shows_leaf p x es" and d: "distinct (map fst es)"
  shows "i < length es \<Longrightarrow> fst (es ! i) = key \<Longrightarrow> leaf_find p key = Ok (Found i)"
    and "key \<notin> fst ` set es \<Longrightarrow>
      leaf_find p key = Ok (InsertAt (length (takeWhile (\<lambda>e. fst e < key) es)))"
proof -
  have eq: "leaf_find p key = leaf_find_from p key 0 (length es)"
    using v by (simp add: leaf_find_def shows_leaf_def)
  show "leaf_find p key = Ok (Found i)" if i: "i < length es" "fst (es ! i) = key"
    using leaf_find_from_shows [OF v, of "length es" 0 key] i d
    by (auto simp: eq distinct_conv_nth) (metis linorder_not_le less_irrefl nat_neq_iff)+
  show "leaf_find p key = Ok (InsertAt (length (takeWhile (\<lambda>e. fst e < key) es)))" if new: "key \<notin> fst ` set es"
  proof -
    obtain i where i: "i \<le> length es" "\<forall>j < i. fst (es ! j) < key" "\<forall>j < length es. i \<le> j \<longrightarrow> key < fst (es ! j)"
      "leaf_find_from p key 0 (length es) = Ok (InsertAt i)"
      using leaf_find_from_shows [OF v, of "length es" 0 key] new by force
    have "length (takeWhile (\<lambda>e. fst e < key) es) = i"
      by (rule length_takeWhile_eq) (use i(1-3) in \<open>auto dest: order_less_imp_not_less\<close>)
    with i(4) eq show ?thesis by simp
  qed
qed

subsection \<open>Reading a page that was validated\<close>

lemma node_u16_Ok_iff: "node_u16 p a = Ok w \<longleftrightarrow> a + 2 \<le> length p \<and> w = from_le16 (take 2 (drop a p))"
  by (auto simp: node_u16_def and_then_Ok_iff sub_slice_Ok_iff)

lemma node_u64_Ok_iff: "node_u64 p a = Ok w \<longleftrightarrow> a + 8 \<le> length p \<and> w = from_le64 (take 8 (drop a p))"
  by (auto simp: node_u64_def and_then_Ok_iff sub_slice_Ok_iff)

text \<open>Whatever its bytes, a page that \<open>validate\<close> accepts has its cells inside it and its keys in order.\<close>

lemma validate_entries_Ok:
  "validate_entries p h tr is cursor prev = Ok () \<Longrightarrow>
   (\<forall>i \<in> set is. \<exists>off len. dir_entry p h i = Ok (off, len) \<and> off + len + tr \<le> length p)
   \<and> (\<exists>ks. map_outcome (node_key h p) is = Ok ks \<and> sorted ks
        \<and> (case prev of None \<Rightarrow> True | Some q \<Rightarrow> \<forall>k \<in> set ks. q \<le> k))"
proof (induction p h tr "is" cursor prev rule: validate_entries.induct)
  case (2 p h tr i "is" cursor prev)
  from "2.prems" obtain off len key where d: "dir_entry p h i = Ok (off, len)" "off + len + tr \<le> length p"
    and key: "sub_slice p off (off + len) = Ok key"
    and prev: "\<not> (case prev of None \<Rightarrow> False | Some q \<Rightarrow> key < q)"
    and rest: "validate_entries p h tr is (off + len + tr) (Some key) = Ok ()"
    by (auto simp: and_then_Ok_iff checked_range_def not_less split: if_splits)
  have "checked_range (length p) off len = Ok (off + len)" "checked_range (length p) (off + len) tr = Ok (off + len + tr)"
    using d(2) by (simp_all add: checked_range_def)
  then have "(\<forall>i \<in> set is. \<exists>off len. dir_entry p h i = Ok (off, len) \<and> off + len + tr \<le> length p)
      \<and> (\<exists>ks. map_outcome (node_key h p) is = Ok ks \<and> sorted ks \<and> (\<forall>k \<in> set ks. key \<le> k))"
    using "2.IH" [OF d(1) refl _ _ _ key _ rest] "2.prems" prev d key rest by (auto simp: and_then_Ok_iff split: if_splits)
  then obtain ks where ks: "map_outcome (node_key h p) is = Ok ks" "sorted ks" "\<forall>k \<in> set ks. key \<le> k"
    and "\<forall>i \<in> set is. \<exists>off len. dir_entry p h i = Ok (off, len) \<and> off + len + tr \<le> length p" by blast
  moreover have "map_outcome (node_key h p) (i # is) = Ok (key # ks)" using ks(1) d(1) key by (simp add: node_key_def)
  moreover have "case prev of None \<Rightarrow> True | Some q \<Rightarrow> \<forall>k \<in> set (key # ks). q \<le> k"
    using prev ks(3) by (auto split: option.splits simp: not_less intro: order_trans)
  ultimately show ?case using d by auto
qed (auto split: option.splits)

lemma validate_Ok:
  assumes "validate p h tr = Ok n"
  shows "\<exists>ks. entry_count p = Ok n \<and> h \<le> length p \<and> length ks = n \<and> sorted ks
    \<and> (\<forall>i < n. node_key h p i = Ok (ks ! i))
    \<and> (\<forall>i < n. \<exists>off len. dir_entry p h i = Ok (off, len) \<and> off + len + tr \<le> length p)"
proof -
  from assms obtain w c where w: "node_u16 p 0 = Ok w" "n = unat w" "h \<le> length p"
    and v: "validate_entries p h tr [0..<n] c None = Ok ()"
    by (auto simp: validate_def and_then_Ok_iff not_less split: if_splits)
  from validate_entries_Ok [OF v] obtain ks where ks: "map_outcome (node_key h p) [0..<n] = Ok ks" "sorted ks"
    and d: "\<forall>i \<in> set [0..<n]. \<exists>off len. dir_entry p h i = Ok (off, len) \<and> off + len + tr \<le> length p" by blast
  have "length ks = n" "\<And>i. i < n \<Longrightarrow> node_key h p i = Ok (ks ! i)"
    using ks(1) by (auto simp: map_outcome_Ok_iff list_all2_conv_all_nth)
  with w ks d show ?thesis by (intro exI [of _ ks]) (auto simp: entry_count_def)
qed

lemma leaf_open_shows:
  assumes "leaf_open p = Ok ()"
  obtains x es where "shows_leaf p x es"
proof -
  from assms obtain n where "validate p 10 10 = Ok n" by (auto simp: leaf_open_def node_sizes and_then_Ok_iff)
  then obtain ks where n: "entry_count p = Ok n" "10 \<le> length p" "length ks = n" "sorted ks"
    and key: "\<And>i. i < n \<Longrightarrow> node_key 10 p i = Ok (ks ! i)"
    and d: "\<And>i. i < n \<Longrightarrow> \<exists>off len. dir_entry p 10 i = Ok (off, len) \<and> off + len + 10 \<le> length p"
    using validate_Ok by blast
  have "\<exists>r. leaf_record_id p i = Ok r" if i: "i < n" for i
    using d [OF i] by (auto simp: leaf_record_id_def node_sizes Let_def and_then_Ok_iff node_u64_Ok_iff node_u16_Ok_iff)
  then obtain r where r: "\<And>i. i < n \<Longrightarrow> leaf_record_id p i = Ok (r i)" by metis
  obtain x where "next_leaf p = Ok x" using n(2) by (simp add: next_leaf_def node_u64_Ok_iff)
  then have "shows_leaf p x (map (\<lambda>i. (ks ! i, r i)) [0..<n])"
    using n key r by (simp add: shows_leaf_def leaf_key_def node_sizes comp_def) (metis map_nth)
  then show ?thesis by (rule that)
qed

lemma internal_open_shows:
  assumes "internal_open p = Ok ()"
  obtains x fs where "shows_internal p x fs"
proof -
  from assms obtain n where "validate p 10 8 = Ok n" by (auto simp: internal_open_def node_sizes and_then_Ok_iff)
  then obtain ks where n: "entry_count p = Ok n" "10 \<le> length p" "length ks = n" "sorted ks"
    and key: "\<And>i. i < n \<Longrightarrow> node_key 10 p i = Ok (ks ! i)"
    and d: "\<And>i. i < n \<Longrightarrow> \<exists>off len. dir_entry p 10 i = Ok (off, len) \<and> off + len + 8 \<le> length p"
    using validate_Ok by blast
  have "\<exists>c. child_after p i = Ok c" if i: "i < n" for i
    using d [OF i] by (auto simp: child_after_def node_sizes and_then_Ok_iff node_u64_Ok_iff)
  then obtain c where c: "\<And>i. i < n \<Longrightarrow> child_after p i = Ok (c i)" by metis
  obtain x where "leftmost_child p = Ok x" using n(2) by (simp add: leftmost_child_def node_u64_Ok_iff)
  then have "shows_internal p x (map (\<lambda>i. (ks ! i, c i)) [0..<n])"
    using n key c by (simp add: shows_internal_def internal_key_def node_sizes comp_def) (metis map_nth)
  then show ?thesis by (rule that)
qed

text \<open>
  C32: a page that passes the validation of \<open>open\<close> can be used without a panic, whatever its bytes. Reading
  all entries of a leaf gives keys in ascending order, the exact search finds an entry with the key or the
  position where it belongs, and the two child searches of an internal page end at the child that a linear
  scan of the separators selects.
\<close>

theorem opened_pages_are_safe:
  "(leaf_open p = Ok () \<longrightarrow> (\<exists>es x. leaf_entries p = Ok es \<and> next_leaf p = Ok x \<and> sorted (map fst es) \<and>
      ((\<exists>i < length es. fst (es ! i) = key \<and> leaf_find p key = Ok (Found i))
       \<or> (\<exists>i \<le> length es. (\<forall>j < i. fst (es ! j) < key) \<and> (\<forall>j < length es. i \<le> j \<longrightarrow> key < fst (es ! j))
            \<and> leaf_find p key = Ok (InsertAt i)))))
   \<and> (internal_open p = Ok () \<longrightarrow> (\<exists>fs x. internal_entries p = Ok fs \<and> leftmost_child p = Ok x \<and> sorted (map fst fs) \<and>
      child_for p key = Ok (nth_child x fs (length (takeWhile (\<lambda>k. k \<le> key) (map fst fs)))) \<and>
      child_for_lower_bound p key = Ok (nth_child x fs (length (takeWhile (\<lambda>k. k < key) (map fst fs))))))"
proof (intro conjI impI)
  assume "leaf_open p = Ok ()"
  then obtain x es where s: "shows_leaf p x es" by (rule leaf_open_shows)
  show "\<exists>es x. leaf_entries p = Ok es \<and> next_leaf p = Ok x \<and> sorted (map fst es) \<and>
      ((\<exists>i < length es. fst (es ! i) = key \<and> leaf_find p key = Ok (Found i))
       \<or> (\<exists>i \<le> length es. (\<forall>j < i. fst (es ! j) < key) \<and> (\<forall>j < length es. i \<le> j \<longrightarrow> key < fst (es ! j))
            \<and> leaf_find p key = Ok (InsertAt i)))"
    using leaf_find_from_shows [OF s, of "length es" 0 key] s
    by (intro exI [of _ es] exI [of _ x]) (simp add: shows_entries leaf_find_def, simp add: shows_leaf_def)
next
  assume "internal_open p = Ok ()"
  then obtain x fs where s: "shows_internal p x fs" by (rule internal_open_shows)
  show "\<exists>fs x. internal_entries p = Ok fs \<and> leftmost_child p = Ok x \<and> sorted (map fst fs) \<and>
      child_for p key = Ok (nth_child x fs (length (takeWhile (\<lambda>k. k \<le> key) (map fst fs)))) \<and>
      child_for_lower_bound p key = Ok (nth_child x fs (length (takeWhile (\<lambda>k. k < key) (map fst fs))))"
    using s child_for_shows [OF s, of key] shows_entries(2) [OF s]
    by (intro exI [of _ fs] exI [of _ x]) (simp add: shows_internal_def)
qed

theorem opened_pages_are_safe_witness:
  "leaf_open (leaf_image 100 0 [([1], RecordId 3 4)]) = Ok ()
   \<and> (\<exists>i. leaf_find (leaf_image 100 0 [([1], RecordId 3 4)]) [2] = Ok (Found i)
        \<or> leaf_find (leaf_image 100 0 [([1], RecordId 3 4)]) [2] = Ok (InsertAt i))"
proof -
  have o: "leaf_open (leaf_image 100 0 [([1], RecordId 3 4)]) = Ok ()"
    by (rule leaf_open_image) (simp add: leaf_valid_def fit_lens required_len_eq)
  show ?thesis
    using conjunct1 [OF opened_pages_are_safe [of "leaf_image 100 0 [([1], RecordId 3 4)]" "[2]"]] o by blast
qed

end
