(* ===== verification/Btree.thy ===== *)
theory Btree
  imports Page_Store Btree_Page Types
begin

unbundle bit_operations_syntax

text \<open>
  The B+tree index of \<open>src/src/btree.rs\<close> over the pages of its buffer pool: keys encoded so that bytes
  compare as values do, creation and opening, descent, insertion with its splits, lazy deletion and the
  range scan. Reading loops follow child and sibling pointers and may in principle run forever, so they
  return \<open>None\<close> when they do. The pages held latched by an insertion are the stack \<open>ancestors\<close>; with one
  thread a latch changes nothing but what the code keeps in that stack.
\<close>

subsection \<open>Keys\<close>

definition be64 :: "u64 \<Rightarrow> byte list" where "be64 w = rev (le64 w)"
definition from_be64 :: "byte list \<Rightarrow> u64" where "from_be64 bs = from_le64 (rev bs)"

definition encode_bigint :: "i64 \<Rightarrow> byte list" where
  "encode_bigint n = be64 (n XOR 0x8000000000000000)"

definition decode_bigint :: "byte list \<Rightarrow> i64" where
  "decode_bigint bs = from_be64 bs XOR 0x8000000000000000"

fun encode_key :: "val \<Rightarrow> byte list outcome" where
  "encode_key VNull = Err NullKeyNotAllowed"
| "encode_key (VBoolean b) = Ok [if b then 1 else 0]"
| "encode_key (VBigInt n) = Ok (encode_bigint n)"
| "encode_key (VText s) = Ok (bytes_of s)"

fun decode_key :: "data_type \<Rightarrow> byte list \<Rightarrow> val outcome" where
  "decode_key TBoolean bs =
    (if bs = [0] then Ok (VBoolean False) else if bs = [1] then Ok (VBoolean True) else Err CorruptPage)"
| "decode_key TBigInt bs = (if length bs = 8 then Ok (VBigInt (decode_bigint bs)) else Err CorruptPage)"
| "decode_key TText bs = (case from_utf8 bs of None \<Rightarrow> Err CorruptPage | Some s \<Rightarrow> Ok (VText s))"

fun data_type_to_u8 :: "data_type \<Rightarrow> byte" where
  "data_type_to_u8 TBoolean = 0"
| "data_type_to_u8 TBigInt = 1"
| "data_type_to_u8 TText = 2"

definition data_type_from_u8 :: "byte \<Rightarrow> data_type outcome" where
  "data_type_from_u8 b =
     (if b = 0 then Ok TBoolean else if b = 1 then Ok TBigInt else if b = 2 then Ok TText else Err CorruptPage)"

subsection \<open>The tree\<close>

record btree =
  bt_pool :: page_store
  bt_root :: page_no
  bt_key_type :: data_type
  bt_unique :: bool

definition META_PAGE_ID :: page_no where "META_PAGE_ID = 1"

definition check_key_type :: "btree \<Rightarrow> val \<Rightarrow> unit outcome" where
  "check_key_type t v =
     and_then (ok_or NullKeyNotAllowed (type_of v)) (\<lambda>actual.
     if actual \<noteq> bt_key_type t
     then Err (BTreeKeyTypeMismatch (data_type_display (bt_key_type t)) (data_type_display actual))
     else Ok ())"

definition max_key_len :: nat where
  "max_key_len = min (leaf_max_key_len_for_two_entries PAGE_PAYLOAD_SIZE) (internal_max_key_len_for_two_entries PAGE_PAYLOAD_SIZE)"

definition check_key_fits :: "btree \<Rightarrow> val \<Rightarrow> unit outcome" where
  "check_key_fits t key =
     and_then (check_key_type t key) (\<lambda>_.
     and_then (encode_key key) (\<lambda>kb.
     if length kb \<le> max_key_len then Ok () else Err (BTreeKeyTooLarge (length kb))))"

definition write_meta :: "btree \<Rightarrow> unit outcome \<times> page_store" where
  "write_meta t =
     (let s = bt_pool t in
      case store_get s META_PAGE_ID of
        Err e \<Rightarrow> (Err e, s) | Panic \<Rightarrow> (Panic, s)
      | Ok p \<Rightarrow>
          (case and_then (put 0 (le64 (bt_root t)) (payload p)) (\<lambda>data.
                and_then (put 8 [data_type_to_u8 (bt_key_type t)] data) (\<lambda>data.
                put 9 [if bt_unique t then 1 else 0] data)) of
             Ok data \<Rightarrow> (Ok (), write_payload s META_PAGE_ID data)
           | Err e \<Rightarrow> (Err e, s) | Panic \<Rightarrow> (Panic, s)))"

text \<open>\<open>create\<close> on the pool of a new file; the first page it allocates must be the Meta page.\<close>

definition btree_create :: "page_store \<Rightarrow> data_type \<Rightarrow> bool \<Rightarrow> btree outcome \<times> page_store" where
  "btree_create s key_type uniq =
     (let (meta_id, s) = store_alloc s PtData; (root_id, s) = store_alloc s PtBTreeLeaf in
      case and_then (store_get s root_id) (\<lambda>p. leaf_init (payload p)) of
        Err e \<Rightarrow> (Err e, s) | Panic \<Rightarrow> (Panic, s)
      | Ok data \<Rightarrow>
          (let s = write_payload s root_id data;
               t = \<lparr>bt_pool = s, bt_root = root_id, bt_key_type = key_type, bt_unique = uniq\<rparr> in
           run_then (write_meta t) (\<lambda>_ s. (Ok (t\<lparr>bt_pool := s\<rparr>), s))))"

definition btree_open :: "page_store \<Rightarrow> btree outcome" where
  "btree_open s =
     and_then (store_get s META_PAGE_ID) (\<lambda>p.
     let data = payload p in
     and_then (sub_slice data 0 8) (\<lambda>r.
     and_then (expect (get_at data 8)) (\<lambda>k.
     and_then (data_type_from_u8 k) (\<lambda>key_type.
     and_then (expect (get_at data 9)) (\<lambda>u.
     if u = 0 then Ok \<lparr>bt_pool = s, bt_root = from_le64 r, bt_key_type = key_type, bt_unique = False\<rparr>
     else if u = 1 then Ok \<lparr>bt_pool = s, bt_root = from_le64 r, bt_key_type = key_type, bt_unique = True\<rparr>
     else Err CorruptPage)))))"

subsection \<open>Descent\<close>

text \<open>
  The loop that \<open>height\<close>, \<open>leftmost_leaf\<close>, \<open>find_leaf\<close> and \<open>find_leaf_for_lower_bound\<close> share: read the
  page, stop at a leaf, else go to the child that \<open>pick\<close> selects.
\<close>

definition open_internal :: "byte list \<Rightarrow> (byte list \<Rightarrow> 'a outcome) \<Rightarrow> 'a outcome" where
  "open_internal data f = and_then (internal_open data) (\<lambda>_. f data)"

partial_function (option) descend :: "(byte list \<Rightarrow> page_no outcome) \<Rightarrow> page_store \<Rightarrow> page_no \<Rightarrow> page_no outcome option" where
  "descend pick s i =
    later (Some (store_get s i)) (\<lambda>p.
    if page_kind p = PtBTreeLeaf then Some (Ok i)
    else if page_kind p = PtBTreeInternal then
      later (Some (open_internal (payload p) pick)) (\<lambda>c. descend pick s c)
    else Some (Err CorruptPage))"

partial_function (option) height_from :: "page_store \<Rightarrow> page_no \<Rightarrow> nat \<Rightarrow> nat outcome option" where
  "height_from s i h =
    later (Some (store_get s i)) (\<lambda>p.
    if page_kind p = PtBTreeLeaf then Some (Ok h)
    else if page_kind p = PtBTreeInternal then
      later (Some (open_internal (payload p) leftmost_child)) (\<lambda>c. height_from s c (h + 1))
    else Some (Err CorruptPage))"

definition height :: "btree \<Rightarrow> nat outcome option" where
  "height t = height_from (bt_pool t) (bt_root t) 1"

definition leftmost_leaf :: "btree \<Rightarrow> page_no outcome option" where
  "leftmost_leaf t = descend leftmost_child (bt_pool t) (bt_root t)"

definition find_leaf :: "btree \<Rightarrow> byte list \<Rightarrow> page_no outcome option" where
  "find_leaf t key = descend (\<lambda>data. child_for data key) (bt_pool t) (bt_root t)"

definition find_leaf_for_lower_bound :: "btree \<Rightarrow> byte list \<Rightarrow> page_no outcome option" where
  "find_leaf_for_lower_bound t key = descend (\<lambda>data. child_for_lower_bound data key) (bt_pool t) (bt_root t)"

subsection \<open>Range scans\<close>

datatype 'a bound = Included 'a | Excluded 'a | Unbounded

fun encode_bound :: "btree \<Rightarrow> val bound \<Rightarrow> byte list bound outcome" where
  "encode_bound t Unbounded = Ok Unbounded"
| "encode_bound t (Included v) =
    and_then (check_key_type t v) (\<lambda>_. and_then (encode_key v) (\<lambda>k. Ok (Included k)))"
| "encode_bound t (Excluded v) =
    and_then (check_key_type t v) (\<lambda>_. and_then (encode_key v) (\<lambda>k. Ok (Excluded k)))"

text \<open>Where a scan stands, by value: not yet in the keys of the leaf, or just behind an entry.\<close>

datatype scan_position = Start "byte list bound" | After "byte list" record_id

record range_scan =
  rs_upper :: "byte list bound"
  rs_current :: "(page_no \<times> scan_position) option"

fun exceeds_upper :: "byte list bound \<Rightarrow> byte list \<Rightarrow> bool" where
  "exceeds_upper Unbounded key = False"
| "exceeds_upper (Included k) key = (k < key)"
| "exceeds_upper (Excluded k) key = (k \<le> key)"

text \<open>The loops that widen a position to the run of equal keys around it.\<close>

fun run_start :: "byte list \<Rightarrow> byte list \<Rightarrow> nat \<Rightarrow> nat outcome" where
  "run_start p k 0 = Ok 0"
| "run_start p k (Suc lo) = and_then (leaf_key p lo) (\<lambda>x. if x = k then run_start p k lo else Ok (Suc lo))"

function run_end :: "byte list \<Rightarrow> byte list \<Rightarrow> nat \<Rightarrow> nat \<Rightarrow> nat outcome" where
  "run_end p k n hi =
    (if hi < n then and_then (leaf_key p hi) (\<lambda>x. if x = k then run_end p k n (hi + 1) else Ok hi) else Ok hi)"
  by pat_completeness auto

termination
  by (relation "measure (\<lambda>(_, _, n, hi). n - hi)") auto

declare run_end.simps [simp del]

definition same_key_range :: "byte list \<Rightarrow> byte list \<Rightarrow> (nat \<times> nat) outcome" where
  "same_key_range p key =
     and_then (leaf_find p key) (\<lambda>r. case r of
         Found i \<Rightarrow>
           and_then (run_start p key i) (\<lambda>lo.
           and_then (entry_count p) (\<lambda>n.
           and_then (run_end p key n (i + 1)) (\<lambda>hi. Ok (lo, hi))))
       | InsertAt i \<Rightarrow> Ok (i, i))"

text \<open>\<open>min_by_key\<close> keeps the first of several minima.\<close>

fun min_rid :: "nat \<times> record_id \<Rightarrow> (nat \<times> record_id) list \<Rightarrow> nat" where
  "min_rid (i, r) [] = i"
| "min_rid (i, r) ((j, q) # xs) = (if q < r then min_rid (j, q) xs else min_rid (i, r) xs)"

definition min_rid_index_after :: "byte list \<Rightarrow> nat \<Rightarrow> nat \<Rightarrow> record_id option \<Rightarrow> nat option outcome" where
  "min_rid_index_after p lo hi after =
     and_then (map_outcome (\<lambda>i. and_then (leaf_record_id p i) (\<lambda>r. Ok (i, r))) [lo..<hi]) (\<lambda>irs.
     Ok (case filter (\<lambda>(i, r). case after of None \<Rightarrow> True | Some prev \<Rightarrow> prev < r) irs of
           [] \<Rightarrow> None
         | x # xs \<Rightarrow> Some (min_rid x xs)))"

definition start_of_run_containing :: "byte list \<Rightarrow> nat \<Rightarrow> nat outcome" where
  "start_of_run_containing p index =
     and_then (entry_count p) (\<lambda>n.
     if n \<le> index then Ok index
     else
       and_then (leaf_key p index) (\<lambda>key.
       and_then (same_key_range p key) (\<lambda>(lo, hi).
       and_then (min_rid_index_after p lo hi None) (\<lambda>r. expect r))))"

definition physical_lower_bound_included :: "byte list \<Rightarrow> byte list \<Rightarrow> nat outcome" where
  "physical_lower_bound_included p k =
     and_then (leaf_find p k) (\<lambda>r. case r of Found i \<Rightarrow> run_start p k i | InsertAt i \<Rightarrow> Ok i)"

definition physical_lower_bound_excluded :: "byte list \<Rightarrow> byte list \<Rightarrow> nat outcome" where
  "physical_lower_bound_excluded p k =
     and_then (leaf_find p k) (\<lambda>r. case r of
         Found i \<Rightarrow> and_then (entry_count p) (\<lambda>n. run_end p k n (i + 1))
       | InsertAt i \<Rightarrow> Ok i)"

fun locate_within_leaf :: "byte list \<Rightarrow> scan_position \<Rightarrow> nat outcome" where
  "locate_within_leaf p (Start Unbounded) = start_of_run_containing p 0"
| "locate_within_leaf p (Start (Included k)) =
    and_then (physical_lower_bound_included p k) (start_of_run_containing p)"
| "locate_within_leaf p (Start (Excluded k)) =
    and_then (physical_lower_bound_excluded p k) (start_of_run_containing p)"
| "locate_within_leaf p (After key rid) =
    and_then (same_key_range p key) (\<lambda>(lo, hi).
    and_then (min_rid_index_after p lo hi (Some rid)) (\<lambda>r.
    case r of Some i \<Rightarrow> Ok i | None \<Rightarrow> start_of_run_containing p hi))"

text \<open>The condition carried into the next leaf.\<close>

fun carried :: "scan_position \<Rightarrow> scan_position" where
  "carried (Start b) = Start b"
| "carried (After key rid) = Start (Included key)"

fun seek_leaf :: "btree \<Rightarrow> scan_position \<Rightarrow> page_no outcome option" where
  "seek_leaf t (Start Unbounded) = leftmost_leaf t"
| "seek_leaf t (Start (Included k)) = find_leaf_for_lower_bound t k"
| "seek_leaf t (Start (Excluded k)) = find_leaf t k"
| "seek_leaf t (After k rid) = find_leaf_for_lower_bound t k"

text \<open>
  One turn of the scan loop inside a leaf: an item, the end of the scan, or the leaf to go on with. The item
  of an iterator over \<open>DbResult\<close> is an outcome itself; a panic stops the program.
\<close>

datatype scan_turn = Item "val \<times> record_id" scan_position | Finished | Continue page_no

definition scan_leaf :: "btree \<Rightarrow> byte list bound \<Rightarrow> page \<Rightarrow> scan_position \<Rightarrow> scan_turn outcome" where
  "scan_leaf t upper p pos =
     (let data = payload p in
      and_then (leaf_open data) (\<lambda>_.
      and_then (locate_within_leaf data pos) (\<lambda>index.
      and_then (entry_count data) (\<lambda>n.
      if index < n then
        and_then (leaf_key data index) (\<lambda>key.
        if exceeds_upper upper key then Ok Finished
        else
          and_then (leaf_record_id data index) (\<lambda>rid.
          and_then (decode_key (bt_key_type t) key) (\<lambda>v. Ok (Item (v, rid) (After key rid)))))
      else
        and_then (next_leaf data) (\<lambda>nl. Ok (if nl = NO_NEXT_LEAF then Finished else Continue nl))))))"

text \<open>
  \<open>RangeScan::next\<close>: the item, if any, and the scan that remains. A page that became internal since the scan
  saw it is looked up again from the root.
\<close>

partial_function (option) scan_next ::
  "btree \<Rightarrow> byte list bound \<Rightarrow> (page_no \<times> scan_position) option
   \<Rightarrow> ((val \<times> record_id) option \<times> (page_no \<times> scan_position) option) outcome option" where
  "scan_next t upper current =
    (case current of
       None \<Rightarrow> Some (Ok (None, None))
     | Some (i, pos) \<Rightarrow>
         later (Some (store_get (bt_pool t) i)) (\<lambda>p.
         if page_kind p \<noteq> PtBTreeLeaf then
           later (seek_leaf t pos) (\<lambda>j. scan_next t upper (Some (j, pos)))
         else
           later (Some (scan_leaf t upper p pos)) (\<lambda>turn.
           case turn of
             Item x pos \<Rightarrow> Some (Ok (Some x, Some (i, pos)))
           | Finished \<Rightarrow> Some (Ok (None, None))
           | Continue j \<Rightarrow> scan_next t upper (Some (j, carried pos)))))"

text \<open>\<open>range\<close>, and the loop of \<open>collect\<close> over it, which stops at the first error.\<close>

definition btree_range :: "btree \<Rightarrow> val bound \<Rightarrow> val bound \<Rightarrow> range_scan outcome option" where
  "btree_range t lower upper =
     later (Some (encode_bound t lower)) (\<lambda>lower_bytes.
     later (Some (encode_bound t upper)) (\<lambda>upper_bytes.
     later (seek_leaf t (Start lower_bytes)) (\<lambda>start.
     Some (Ok \<lparr>rs_upper = upper_bytes, rs_current = Some (start, Start lower_bytes)\<rparr>))))"

partial_function (option) collect_scan ::
  "btree \<Rightarrow> byte list bound \<Rightarrow> (page_no \<times> scan_position) option \<Rightarrow> (val \<times> record_id) list outcome option" where
  "collect_scan t upper current =
    later (scan_next t upper current) (\<lambda>(item, rest).
    case item of
      None \<Rightarrow> Some (Ok [])
    | Some x \<Rightarrow> later (collect_scan t upper rest) (\<lambda>xs. Some (Ok (x # xs))))"

definition btree_range_all :: "btree \<Rightarrow> val bound \<Rightarrow> val bound \<Rightarrow> (val \<times> record_id) list outcome option" where
  "btree_range_all t lower upper =
     later (btree_range t lower upper) (\<lambda>sc. collect_scan t (rs_upper sc) (rs_current sc))"

definition btree_lookup :: "btree \<Rightarrow> val \<Rightarrow> record_id list outcome option" where
  "btree_lookup t key =
     later (btree_range_all t (Included key) (Included key)) (\<lambda>xs. Some (Ok (map snd xs)))"

subsection \<open>Deletion\<close>

definition read_leaf :: "page_store \<Rightarrow> page_no \<Rightarrow> (leaf_entry list \<times> page_no) outcome" where
  "read_leaf s i =
     and_then (store_get s i) (\<lambda>p.
     and_then (leaf_open (payload p)) (\<lambda>_.
     and_then (leaf_entries (payload p)) (\<lambda>es.
     and_then (next_leaf (payload p)) (\<lambda>nl. Ok (es, nl)))))"

text \<open>The result of \<open>write_entries\<close> only feeds a \<open>debug_assert!\<close>; a list that does not fit leaves the page.\<close>

definition write_leaf :: "page_store \<Rightarrow> page_no \<Rightarrow> leaf_entry list \<Rightarrow> page_store outcome" where
  "write_leaf s i es =
     and_then (store_get s i) (\<lambda>p.
     and_then (leaf_open (payload p)) (\<lambda>_.
     and_then (leaf_write_entries (payload p) es) (\<lambda>(_, data). Ok (write_payload s i data))))"

partial_function (option) delete_loop ::
  "page_store \<Rightarrow> byte list \<Rightarrow> record_id \<Rightarrow> page_no \<Rightarrow> leaf_entry list \<Rightarrow> page_no \<Rightarrow> (bool \<times> page_store) outcome option" where
  "delete_loop s key rid leaf_id es nl =
    (case position (\<lambda>(k, r). k = key \<and> r = rid) es of
       Some pos \<Rightarrow>
         later (Some (write_leaf s leaf_id (take pos es @ drop (pos + 1) es))) (\<lambda>s. Some (Ok (True, s)))
     | None \<Rightarrow>
         if (es \<noteq> [] \<and> \<not> fst (last es) \<le> key) \<or> nl = NO_NEXT_LEAF then Some (Ok (False, s))
         else later (Some (read_leaf s nl)) (\<lambda>(es, nl'). delete_loop s key rid nl es nl'))"

definition btree_delete :: "btree \<Rightarrow> val \<Rightarrow> record_id \<Rightarrow> (bool \<times> page_store) outcome option" where
  "btree_delete t key rid =
     later (Some (check_key_type t key)) (\<lambda>_.
     later (Some (encode_key key)) (\<lambda>kb.
     later (find_leaf_for_lower_bound t kb) (\<lambda>leaf_id.
     later (Some (read_leaf (bt_pool t) leaf_id)) (\<lambda>(es, nl).
     delete_loop (bt_pool t) kb rid leaf_id es nl))))"

subsection \<open>Insertion\<close>

text \<open>The binary search of \<open>leaf_insert_position\<close> and \<open>internal_insert_position\<close>: behind all equal keys.\<close>

function insert_position_from :: "(byte list \<times> 'a) list \<Rightarrow> byte list \<Rightarrow> nat \<Rightarrow> nat \<Rightarrow> nat" where
  "insert_position_from es key lo hi =
    (if lo < hi then
       let mid = lo + (hi - lo) div 2 in
       if fst (es ! mid) \<le> key then insert_position_from es key (mid + 1) hi
       else insert_position_from es key lo mid
     else lo)"
  by pat_completeness auto

termination
  by (relation "measure (\<lambda>(_, _, lo, hi). hi - lo)") auto

declare insert_position_from.simps [simp del]

definition leaf_insert_position :: "leaf_entry list \<Rightarrow> byte list \<Rightarrow> nat" where
  "leaf_insert_position es key = insert_position_from es key 0 (length es)"

definition internal_insert_position :: "internal_entry list \<Rightarrow> byte list \<Rightarrow> nat" where
  "internal_insert_position es key = insert_position_from es key 0 (length es)"

definition insert_at :: "nat \<Rightarrow> 'a \<Rightarrow> 'a list \<Rightarrow> 'a list" where
  "insert_at i x xs = take i xs @ x # drop i xs"

definition leaf_is_safe_for_insert :: "byte list \<Rightarrow> byte list \<Rightarrow> record_id \<Rightarrow> bool outcome" where
  "leaf_is_safe_for_insert data key rid =
     and_then (leaf_entries data) (\<lambda>es.
     Ok (leaf_entries_fit PAGE_PAYLOAD_SIZE (insert_at (leaf_insert_position es key) (key, rid) es)))"

definition internal_is_safe_for_insert :: "byte list \<Rightarrow> bool outcome" where
  "internal_is_safe_for_insert data =
     and_then (internal_entries data) (\<lambda>es.
     Ok (internal_entries_fit PAGE_PAYLOAD_SIZE (es @ [(replicate max_key_len 0, 0)])))"

text \<open>
  The descent of \<open>insert\<close>: the leaf it ends at, and the stack of ancestors still latched, the deepest
  first. A page that cannot split releases everything above it.
\<close>

partial_function (option) insert_descend ::
  "page_store \<Rightarrow> byte list \<Rightarrow> record_id \<Rightarrow> page_no \<Rightarrow> page_no list \<Rightarrow> (page_no \<times> page_no list) outcome option" where
  "insert_descend s key rid i ancestors =
    later (Some (store_get s i)) (\<lambda>p.
    if page_kind p = PtBTreeLeaf then
      later (Some (and_then (leaf_open (payload p)) (\<lambda>_. leaf_is_safe_for_insert (payload p) key rid))) (\<lambda>safe.
      Some (Ok (i, if safe then [] else ancestors)))
    else if page_kind p = PtBTreeInternal then
      later (Some (open_internal (payload p) (\<lambda>data.
          and_then (child_for data key) (\<lambda>c. and_then (internal_is_safe_for_insert data) (\<lambda>safe. Ok (c, safe))))))
        (\<lambda>(c, safe). insert_descend s key rid c (i # (if safe then [] else ancestors)))
    else Some (Err CorruptPage))"

definition effect_of :: "'a outcome \<Rightarrow> ('s, 'a) effect" where
  "effect_of r s = (r, s)"

text \<open>Initialising a page that was just allocated, with its entries and, for a leaf, its sibling.\<close>

definition init_leaf :: "page_store \<Rightarrow> page_no \<Rightarrow> leaf_entry list \<Rightarrow> page_no \<Rightarrow> page_store outcome" where
  "init_leaf s i es nl =
     and_then (store_get s i) (\<lambda>p.
     and_then (leaf_init (payload p)) (\<lambda>data.
     and_then (leaf_write_entries data es) (\<lambda>(_, data).
     and_then (set_next_leaf data nl) (\<lambda>data. Ok (write_payload s i data)))))"

definition init_internal :: "page_store \<Rightarrow> page_no \<Rightarrow> page_no \<Rightarrow> internal_entry list \<Rightarrow> page_store outcome" where
  "init_internal s i leftmost es =
     and_then (store_get s i) (\<lambda>p.
     and_then (internal_init (payload p) leftmost) (\<lambda>data.
     and_then (internal_write_entries data leftmost es) (\<lambda>(_, data). Ok (write_payload s i data))))"

text \<open>A step that changes the pages, as an effect; when it fails the pages are as before it.\<close>

definition store_step :: "(page_store \<Rightarrow> page_store outcome) \<Rightarrow> (page_store, unit) effect" where
  "store_step f s = (case f s of Ok s' \<Rightarrow> (Ok (), s') | Err e \<Rightarrow> (Err e, s) | Panic \<Rightarrow> (Panic, s))"

definition max_len :: "(byte list \<times> 'a) list \<Rightarrow> nat" where
  "max_len es = fold (\<lambda>e m. max m (length (fst e))) es 0"

definition split_leaf :: "leaf_entry list \<Rightarrow> page_no \<Rightarrow> (page_store, byte list \<times> page_no) effect" where
  "split_leaf es current s =
     (if length es < 2 then (Err (BTreeKeyTooLarge (max_len es)), s)
      else
        let mid = leaf_split_point PAGE_PAYLOAD_SIZE es; left = take mid es; right = drop mid es in
        run_then (effect_of (expect (get_at right 0)) s) (\<lambda>(separator, _) s.
        if \<not> leaf_entries_fit PAGE_PAYLOAD_SIZE left \<or> \<not> leaf_entries_fit PAGE_PAYLOAD_SIZE right
        then (Err (BTreeKeyTooLarge (length separator)), s)
        else
          run_then (effect_of (read_leaf s current) s) (\<lambda>(_, old_next) s.
          let (new_id, s) = store_alloc s PtBTreeLeaf in
          run_then (store_step (\<lambda>s. write_leaf s current left) s) (\<lambda>_ s.
          run_then (store_step (\<lambda>s. and_then (store_get s current) (\<lambda>p.
              and_then (set_next_leaf (payload p) new_id) (\<lambda>data. Ok (write_payload s current data)))) s) (\<lambda>_ s.
          run_then (store_step (\<lambda>s. init_leaf s new_id right old_next) s) (\<lambda>_ s.
          (Ok (separator, new_id), s)))))))"

definition write_internal :: "page_store \<Rightarrow> page_no \<Rightarrow> page_no \<Rightarrow> internal_entry list \<Rightarrow> (bool \<times> page_store) outcome" where
  "write_internal s i leftmost es =
     and_then (store_get s i) (\<lambda>p.
     and_then (internal_open (payload p)) (\<lambda>_.
     and_then (internal_write_entries (payload p) leftmost es) (\<lambda>(fits, data). Ok (fits, write_payload s i data))))"

definition split_internal :: "internal_entry list \<Rightarrow> page_no \<Rightarrow> page_no \<Rightarrow> (page_store, byte list \<times> page_no) effect" where
  "split_internal es leftmost current s =
     (if length es < 2 then (Err (BTreeKeyTooLarge (max_len es)), s)
      else
        let mid = internal_split_point PAGE_PAYLOAD_SIZE es in
        run_then (effect_of (expect (get_at es mid)) s) (\<lambda>(separator, right_leftmost) s.
        let left_entries = take mid es; right_entries = drop (mid + 1) es in
        if \<not> internal_entries_fit PAGE_PAYLOAD_SIZE left_entries \<or> \<not> internal_entries_fit PAGE_PAYLOAD_SIZE right_entries
        then (Err (BTreeKeyTooLarge (length separator)), s)
        else
          run_then (store_step (\<lambda>s. and_then (write_internal s current leftmost left_entries) (\<lambda>(_, s). Ok s)) s) (\<lambda>_ s.
          let (new_id, s) = store_alloc s PtBTreeInternal in
          run_then (store_step (\<lambda>s. init_internal s new_id right_leftmost right_entries) s) (\<lambda>_ s.
          (Ok (separator, new_id), s)))))"

text \<open>\<open>insert_into_leaf\<close> and \<open>insert_into_internal\<close>: what goes up to the parent, if the page had to split.\<close>

definition insert_into_leaf :: "page_no \<Rightarrow> byte list \<Rightarrow> record_id \<Rightarrow> (page_store, (byte list \<times> page_no) option) effect" where
  "insert_into_leaf leaf_id key rid s =
     run_then (effect_of (read_leaf s leaf_id) s) (\<lambda>(es, _) s.
     let es = insert_at (leaf_insert_position es key) (key, rid) es in
     run_then (effect_of (and_then (store_get s leaf_id) (\<lambda>p. leaf_write_entries (payload p) es)) s) (\<lambda>(fits, data) s.
     if fits then (Ok None, write_payload s leaf_id data)
     else run_then (split_leaf es leaf_id s) (\<lambda>r s. (Ok (Some r), s))))"

definition insert_into_internal :: "page_no \<Rightarrow> byte list \<Rightarrow> page_no \<Rightarrow> (page_store, (byte list \<times> page_no) option) effect" where
  "insert_into_internal parent_id separator new_id s =
     run_then (effect_of (and_then (store_get s parent_id) (\<lambda>p.
         and_then (internal_open (payload p)) (\<lambda>_.
         and_then (leftmost_child (payload p)) (\<lambda>leftmost.
         and_then (internal_entries (payload p)) (\<lambda>es. Ok (leftmost, es)))))) s) (\<lambda>(leftmost, es) s.
     let es = insert_at (internal_insert_position es separator) (separator, new_id) es in
     run_then (effect_of (write_internal s parent_id leftmost es) s) (\<lambda>(fits, s') s.
     if fits then (Ok None, s')
     else run_then (split_internal es leftmost parent_id s') (\<lambda>r s. (Ok (Some r), s))))"

text \<open>\<open>grow_new_root\<close>: the old root moves to a new page and its own page becomes the parent of the two halves.\<close>

definition copy_root :: "page_type \<Rightarrow> page_no \<Rightarrow> page_no \<Rightarrow> page_store \<Rightarrow> page_store outcome" where
  "copy_root kind root left_id s =
     (if kind = PtBTreeLeaf then
        and_then (read_leaf s root) (\<lambda>(es, nl). init_leaf s left_id es nl)
      else if kind = PtBTreeInternal then
        and_then (store_get s root) (\<lambda>p.
        and_then (internal_open (payload p)) (\<lambda>_.
        and_then (leftmost_child (payload p)) (\<lambda>leftmost.
        and_then (internal_entries (payload p)) (\<lambda>es. init_internal s left_id leftmost es))))
      else Err CorruptPage)"

definition grow_new_root :: "page_no \<Rightarrow> byte list \<Rightarrow> page_no \<Rightarrow> (page_store, unit) effect" where
  "grow_new_root root separator new_id s =
     run_then (effect_of (store_get s root) s) (\<lambda>p s.
     let (left_id, s) = store_alloc s (page_kind p) in
     run_then (store_step (copy_root (page_kind p) root left_id) s) (\<lambda>_ s.
     let es = [(separator, new_id)] in
     if \<not> internal_entries_fit PAGE_PAYLOAD_SIZE es then (Err (BTreeKeyTooLarge (length separator)), s)
     else
       store_step (\<lambda>s. and_then (store_get s root) (\<lambda>p.
         and_then (internal_init (payload p) left_id) (\<lambda>data.
         and_then (internal_write_entries data left_id es) (\<lambda>(_, data).
         Ok (store_put s root (p\<lparr>page_kind := PtBTreeInternal, payload := data\<rparr>)))))) s))"

fun propagate :: "page_no \<Rightarrow> page_no list \<Rightarrow> (byte list \<times> page_no) option \<Rightarrow> (page_store, unit) effect" where
  "propagate current ancestors None s = (Ok (), s)"
| "propagate current [] (Some (separator, new_id)) s = grow_new_root current separator new_id s"
| "propagate current (parent # ancestors) (Some (separator, new_id)) s =
    run_then (insert_into_internal parent separator new_id s) (\<lambda>pending s. propagate parent ancestors pending s)"

text \<open>The checks and the descent read only; the outcome of the whole comes with the pages it leaves.\<close>

definition insert_plan :: "btree \<Rightarrow> val \<Rightarrow> record_id \<Rightarrow> (byte list \<times> page_no \<times> page_no list) outcome option" where
  "insert_plan t key rid =
     later (Some (check_key_type t key)) (\<lambda>_.
     later (if bt_unique t then btree_lookup t key else Some (Ok [])) (\<lambda>found.
     if bt_unique t \<and> found \<noteq> [] then Some (Err BTreeUniqueViolation)
     else
       later (Some (encode_key key)) (\<lambda>kb.
       if max_key_len < length kb then Some (Err (BTreeKeyTooLarge (length kb)))
       else
         later (insert_descend (bt_pool t) kb rid (bt_root t) []) (\<lambda>(leaf_id, ancestors).
         Some (Ok (kb, leaf_id, ancestors))))))"

definition btree_insert :: "btree \<Rightarrow> val \<Rightarrow> record_id \<Rightarrow> (unit outcome \<times> page_store) option" where
  "btree_insert t key rid =
     (case insert_plan t key rid of
        None \<Rightarrow> None
      | Some plan \<Rightarrow>
          Some (run_then (plan, bt_pool t) (\<lambda>(kb, leaf_id, ancestors) s.
            run_then (insert_into_leaf leaf_id kb rid s) (\<lambda>pending s. propagate leaf_id ancestors pending s))))"

end
