(* ===== verification/Btree_Tree.thy ===== *)
theory Btree_Tree
  imports Btree
begin

text \<open>
  The trees behind the pages of a B+tree. A \<open>ghost\<close> is the tree with its page numbers; a store represents
  it when every internal page lists its children, every leaf page its entries and the leaves are linked in
  order. The pages of a represented tree are canonical, so every page operation of \<open>Btree\<close> becomes an
  operation on lists of entries.
\<close>

subsection \<open>Pages\<close>

abbreviation page_len :: nat where "page_len \<equiv> PAGE_PAYLOAD_SIZE"

lemma sizes_eq:
  "page_len = 4072" "max_key_len = 2017" "leaf_max_key_len_for_two_entries page_len = 2017"
  "internal_max_key_len_for_two_entries page_len = 2019"
  by (simp_all add: max_key_len_def page_consts node_sizes leaf_max_key_len_for_two_entries_def
      internal_max_key_len_for_two_entries_def)

lemma max_key_len_le:
  "max_key_len \<le> leaf_max_key_len_for_two_entries page_len"
  "max_key_len \<le> internal_max_key_len_for_two_entries page_len"
  by (simp_all add: max_key_len_def)

definition leaf_page :: "page_store \<Rightarrow> page_no \<Rightarrow> page_no \<Rightarrow> leaf_entry list \<Rightarrow> bool" where
  "leaf_page s i x es \<longleftrightarrow> unat i < length s \<and> page_kind (s ! unat i) = PtBTreeLeaf
     \<and> payload (s ! unat i) = leaf_image page_len x es \<and> leaf_valid page_len es \<and> keys_fit max_key_len es"

definition internal_page :: "page_store \<Rightarrow> page_no \<Rightarrow> page_no \<Rightarrow> internal_entry list \<Rightarrow> bool" where
  "internal_page s i x fs \<longleftrightarrow> unat i < length s \<and> page_kind (s ! unat i) = PtBTreeInternal
     \<and> payload (s ! unat i) = internal_image page_len x fs \<and> internal_valid page_len fs \<and> keys_fit max_key_len fs"

lemma leaf_page_get:
  "leaf_page s i x es \<Longrightarrow> \<exists>p. store_get s i = Ok p \<and> page_kind p = PtBTreeLeaf \<and> payload p = leaf_image page_len x es
     \<and> leaf_valid page_len es"
  by (simp add: leaf_page_def store_get_def)

lemma internal_page_get:
  "internal_page s i x fs \<Longrightarrow> \<exists>p. store_get s i = Ok p \<and> page_kind p = PtBTreeInternal
     \<and> payload p = internal_image page_len x fs \<and> internal_valid page_len fs"
  by (simp add: internal_page_def store_get_def)

lemma page_write:
  "leaf_page s i x es \<Longrightarrow> leaf_valid page_len es' \<Longrightarrow> keys_fit max_key_len es' \<Longrightarrow>
   leaf_page (write_payload s i (leaf_image page_len y es')) i y es'"
  "internal_page s i x fs \<Longrightarrow> internal_valid page_len fs' \<Longrightarrow> keys_fit max_key_len fs' \<Longrightarrow>
   internal_page (write_payload s i (internal_image page_len y fs')) i y fs'"
  by (auto simp: leaf_page_def internal_page_def write_payload_def store_put_def)

lemma nth_write: "j \<noteq> unat i \<Longrightarrow> write_payload s i bs ! j = s ! j" "j \<noteq> unat i \<Longrightarrow> store_put s i p ! j = s ! j"
  by (simp_all add: write_payload_def store_put_def)

lemma page_frame:
  "leaf_page s i x es \<Longrightarrow> s' ! unat i = s ! unat i \<Longrightarrow> length s \<le> length s' \<Longrightarrow> leaf_page s' i x es"
  "internal_page s i x fs \<Longrightarrow> s' ! unat i = s ! unat i \<Longrightarrow> length s \<le> length s' \<Longrightarrow> internal_page s' i x fs"
  by (auto simp: leaf_page_def internal_page_def)

lemma read_leaf_page: "leaf_page s i x es \<Longrightarrow> read_leaf s i = Ok (es, x)"
  by (auto dest!: leaf_page_get simp: read_leaf_def leaf_open_image next_leaf_image shows_entries(1) [OF image_shows(1)])

lemma length_payload_page:
  "leaf_page s i x es \<Longrightarrow> length (leaf_image page_len y es) = page_len"
  "internal_page s i x fs \<Longrightarrow> length (internal_image page_len y fs) = page_len"
  by (simp_all add: leaf_page_def internal_page_def length_images)

lemma write_leaf_page:
  assumes "leaf_page s i x es" "leaf_entries_fit page_len es'"
  shows "write_leaf s i es' = Ok (write_payload s i (leaf_image page_len x es'))"
  using assms length_payload_page(1) [OF assms(1)]
  by (auto dest!: leaf_page_get simp: write_leaf_def leaf_open_image leaf_write_entries_eq next_leaf_image)

lemma write_internal_page:
  assumes "internal_page s i x fs"
  shows "write_internal s i y fs' =
    (if internal_entries_fit page_len fs' then Ok (True, write_payload s i (internal_image page_len y fs'))
     else Ok (False, s))"
proof -
  have "write_payload s i (payload (s ! unat i)) = s" by (simp add: write_payload_def store_put_def)
  with assms length_payload_page(2) [OF assms] show ?thesis
    by (auto simp: write_internal_def internal_open_image internal_write_entries_eq store_get_def internal_page_def)
qed

text \<open>A page that was just allocated.\<close>

definition fresh_page :: "page_store \<Rightarrow> page_no \<Rightarrow> page_type \<Rightarrow> bool" where
  "fresh_page s i k \<longleftrightarrow> unat i < length s \<and> page_kind (s ! unat i) = k \<and> length (payload (s ! unat i)) = page_len"

lemma unat_of_length: "length s < 2 ^ 64 \<Longrightarrow> unat (of_nat (length s) :: page_no) = length s"
  by (simp add: unsigned_of_nat take_bit_nat_eq_self)

lemma store_alloc_fresh:
  assumes "store_alloc s k = (i, s')" "length s < 2 ^ 64"
  shows "fresh_page s' i k" "unat i = length s" "length s' = Suc (length s)" "\<And>j. j < length s \<Longrightarrow> s' ! j = s ! j"
  using assms unat_of_length [of s]
  by (auto simp: store_alloc_def fresh_page_def page_new_def nth_append)

lemma empty_valid: "leaf_valid page_len []" "internal_valid page_len []"
  by (simp_all add: leaf_valid_def internal_valid_def fit_lens required_len_eq sizes_eq)

lemma init_leaf_fresh:
  assumes "fresh_page s i PtBTreeLeaf" "leaf_valid page_len es" "keys_fit max_key_len es"
  shows "\<exists>s'. init_leaf s i es x = Ok s' \<and> leaf_page s' i x es \<and> length s' = length s \<and> (\<forall>j. j \<noteq> unat i \<longrightarrow> s' ! j = s ! j)"
proof -
  have "leaf_write_entries (leaf_image page_len 0 []) es = Ok (True, leaf_image page_len 0 es)"
    using assms(2) empty_valid by (simp add: leaf_write_entries_eq next_leaf_image length_images leaf_valid_def)
  then have "init_leaf s i es x = Ok (write_payload s i (leaf_image page_len x es))"
    using assms(1) by (simp add: init_leaf_def store_get_def fresh_page_def init_images set_next_leaf_image sizes_eq)
  with assms show ?thesis
    by (auto simp: leaf_page_def fresh_page_def nth_write) (simp_all add: write_payload_def store_put_def)
qed

lemma init_internal_fresh:
  assumes "fresh_page s i PtBTreeInternal" "internal_valid page_len fs" "keys_fit max_key_len fs"
  shows "\<exists>s'. init_internal s i x fs = Ok s' \<and> internal_page s' i x fs \<and> length s' = length s
    \<and> (\<forall>j. j \<noteq> unat i \<longrightarrow> s' ! j = s ! j)"
proof -
  have "internal_write_entries (internal_image page_len x []) x fs = Ok (True, internal_image page_len x fs)"
    using assms(2) empty_valid by (simp add: internal_write_entries_eq length_images internal_valid_def)
  then have "init_internal s i x fs = Ok (write_payload s i (internal_image page_len x fs))"
    using assms(1) by (simp add: init_internal_def store_get_def fresh_page_def init_images sizes_eq)
  with assms show ?thesis
    by (auto simp: internal_page_def fresh_page_def nth_write) (simp_all add: write_payload_def store_put_def)
qed

subsection \<open>Inserting into one page\<close>

lemma insert_position_search:
  "search_from (\<lambda>k. k \<le> key) (\<lambda>i. Ok (fst (es ! i))) lo hi = Ok (insert_position_from es key lo hi)"
proof (induction es key lo hi rule: insert_position_from.induct)
  case (1 es key lo hi)
  then show ?case
    by (cases "lo < hi"; subst search_from.simps; subst insert_position_from.simps) (auto simp: Let_def)
qed

lemma insert_position_sorted:
  assumes "sorted (map fst es)"
  shows "insert_position_from es key 0 (length es) = length (takeWhile (\<lambda>k. k \<le> key) (map fst es))"
proof -
  have "search_from (\<lambda>k. k \<le> key) (\<lambda>i. Ok (fst (es ! i))) 0 (length es)
      = Ok (length (takeWhile (\<lambda>k. k \<le> key) (map fst es)))"
    by (rule search_from_boundary) (simp, fact sorted_prefix(1) [OF assms],
        use length_takeWhile_le [of "\<lambda>k. k \<le> key" "map fst es"] in simp_all)
  then show ?thesis by (simp add: insert_position_search)
qed

lemma boundary_length:
  "\<forall>k \<in> set xs. P k \<Longrightarrow> ys \<noteq> [] \<longrightarrow> \<not> P (hd ys) \<Longrightarrow> length (takeWhile P (xs @ ys)) = length xs"
  by (induction xs) (cases ys, auto)

lemma insert_at_boundary:
  assumes "sorted (map fst (as @ bs))" "\<forall>e \<in> set as. fst e \<le> key" "\<forall>e \<in> set bs. key < fst e"
  shows "insert_at (insert_position_from (as @ bs) key 0 (length (as @ bs))) x (as @ bs) = as @ x # bs"
proof -
  have "length (takeWhile (\<lambda>k. k \<le> key) (map fst as @ map fst bs)) = length (map fst as)"
    using assms(2,3) by (intro boundary_length) (auto simp: not_le hd_map)
  then show ?thesis
    using insert_position_sorted [OF assms(1), of key] by (simp add: insert_at_def)
qed

lemma sorted_insert:
  "sorted (map fst (as @ bs)) \<Longrightarrow> \<forall>e \<in> set as. fst e \<le> key \<Longrightarrow> \<forall>e \<in> set bs. key < fst e \<Longrightarrow>
   sorted (map fst (as @ (key, r) # bs))"
  by (auto simp: sorted_append intro: less_imp_le)

text \<open>What a page insertion leaves outside the page it works on.\<close>

definition frame :: "page_store \<Rightarrow> page_no set \<Rightarrow> page_store \<Rightarrow> bool" where
  "frame s P s' \<longleftrightarrow> length s \<le> length s' \<and> (\<forall>j < length s. j \<notin> unat ` P \<longrightarrow> s' ! j = s ! j)"

lemma frame_refl [simp]: "frame s P s"
  by (simp add: frame_def)

lemma frame_trans: "frame s P s' \<Longrightarrow> frame s' Q s'' \<Longrightarrow> P \<subseteq> R \<Longrightarrow> (\<And>q. q \<in> Q \<Longrightarrow> q \<in> R \<or> length s \<le> unat q) \<Longrightarrow> frame s R s''"
  unfolding frame_def by (smt (verit) image_iff le_trans less_le_trans linorder_not_le subsetD)

lemma frame_write: "unat i < length s \<Longrightarrow> frame s {i} (write_payload s i bs)"
  by (simp add: frame_def nth_write)

lemma frame_page:
  "frame s P s' \<Longrightarrow> leaf_page s i x es \<Longrightarrow> i \<notin> P \<Longrightarrow> leaf_page s' i x es"
  "frame s P s' \<Longrightarrow> internal_page s i x fs \<Longrightarrow> i \<notin> P \<Longrightarrow> internal_page s' i x fs"
proof -
  have "unat i \<notin> unat ` P" if "i \<notin> P" using that by (metis image_iff unsigned_word_eqI)
  then show "frame s P s' \<Longrightarrow> leaf_page s i x es \<Longrightarrow> i \<notin> P \<Longrightarrow> leaf_page s' i x es"
    "frame s P s' \<Longrightarrow> internal_page s i x fs \<Longrightarrow> i \<notin> P \<Longrightarrow> internal_page s' i x fs"
    by (auto simp: frame_def leaf_page_def internal_page_def)
qed

lemma valid_parts:
  "leaf_entries_fit n xs \<Longrightarrow> n < 65536 \<Longrightarrow> sorted (map fst xs) \<Longrightarrow> leaf_valid n xs"
  "internal_entries_fit n ys \<Longrightarrow> n < 65536 \<Longrightarrow> sorted (map fst ys) \<Longrightarrow> internal_valid n ys"
  by (simp_all add: leaf_valid_def internal_valid_def)

lemma keys_fit_simps [simp]:
  "keys_fit m (as @ bs) \<longleftrightarrow> keys_fit m as \<and> keys_fit m bs"
  "keys_fit m (e # bs) \<longleftrightarrow> length (fst e) \<le> m \<and> keys_fit m bs"
  "keys_fit m []"
  by (auto simp: keys_fit_def)

lemma keys_fit_mono: "keys_fit m es \<Longrightarrow> m \<le> n \<Longrightarrow> keys_fit n es"
  by (auto simp: keys_fit_def)

lemma keys_fit_take: "keys_fit m es \<Longrightarrow> keys_fit m (take n es)" "keys_fit m es \<Longrightarrow> keys_fit m (drop n es)"
  by (auto simp: keys_fit_def dest: in_set_takeD in_set_dropD)

lemma sorted_parts: "sorted (map fst es) \<Longrightarrow> sorted (map fst (take n es))" "sorted (map fst es) \<Longrightarrow> sorted (map fst (drop n es))"
  by (metis sorted_wrt_take take_map) (metis sorted_wrt_drop drop_map)

lemma split_leaf_page:
  assumes page: "leaf_page s i x es0" and room: "length s < 2 ^ 64" and es: "sorted (map fst es)" "keys_fit max_key_len es"
    and m: "m = leaf_split_point page_len es" "0 < m" "m < length es"
    and fit: "leaf_entries_fit page_len (take m es)" "leaf_entries_fit page_len (drop m es)"
  shows "\<exists>new s'. split_leaf es i s = (Ok (fst (es ! m), new), s') \<and> unat new = length s \<and> length s' = Suc (length s)
    \<and> frame s {i} s' \<and> leaf_page s' i new (take m es) \<and> leaf_page s' new x (drop m es)"
proof -
  obtain new s1 where a: "store_alloc s PtBTreeLeaf = (new, s1)" by fastforce
  note alloc = store_alloc_fresh [OF a room]
  have page1: "leaf_page s1 i x es0" using page_frame(1) [OF page, of s1] alloc page by (simp add: leaf_page_def)
  have ne: "i \<noteq> new" using alloc page by (auto simp: leaf_page_def)
  define s2 where "s2 = write_payload s1 i (leaf_image page_len x (take m es))"
  have w: "write_leaf s1 i (take m es) = Ok s2" unfolding s2_def by (rule write_leaf_page [OF page1 fit(1)])
  have v: "leaf_valid page_len (take m es)" "leaf_valid page_len (drop m es)"
    using fit es sorted_parts by (auto intro!: valid_parts simp: sizes_eq)
  have page2: "leaf_page s2 i x (take m es)"
    unfolding s2_def by (rule page_write(1) [OF page1 v(1) keys_fit_take(1) [OF es(2)]])
  define s3 where "s3 = write_payload s2 i (leaf_image page_len new (take m es))"
  have page3: "leaf_page s3 i new (take m es)"
    unfolding s3_def by (rule page_write(1) [OF page2 v(1) keys_fit_take(1) [OF es(2)]])
  have set3: "and_then (store_get s2 i) (\<lambda>p. and_then (set_next_leaf (payload p) new) (\<lambda>data. Ok (write_payload s2 i data))) = Ok s3"
    using leaf_page_get [OF page2] by (auto simp: set_next_leaf_image s3_def)
  have other: "j \<noteq> unat i \<Longrightarrow> s3 ! j = s1 ! j" for j by (simp add: s3_def s2_def nth_write)
  have len: "length s3 = Suc (length s)" by (simp add: s3_def s2_def alloc)
  have "unat new \<noteq> unat i" using ne by (metis unsigned_word_eqI)
  then have fresh: "fresh_page s3 new PtBTreeLeaf"
    using alloc(1) other len alloc(3) by (simp add: fresh_page_def)
  obtain s4 where s4: "init_leaf s3 new (drop m es) x = Ok s4" "leaf_page s4 new x (drop m es)"
    "length s4 = length s3" "\<forall>j. j \<noteq> unat new \<longrightarrow> s4 ! j = s3 ! j"
    using init_leaf_fresh [OF fresh v(2) keys_fit_take(2) [OF es(2)], of x] by blast
  have "leaf_page s4 i new (take m es)"
    using page_frame(1) [OF page3, of s4] s4 \<open>unat new \<noteq> unat i\<close> by simp
  moreover have "frame s {i} s4"
    unfolding frame_def using s4(3,4) other alloc len by (auto simp: alloc(2))
  moreover have "get_at (drop m es) 0 = Some (es ! m)" using m(3) by (simp add: get_at_def)
  moreover have "2 \<le> length es" using m by linarith
  ultimately have "split_leaf es i s = (Ok (fst (es ! m), new), s4)"
    using fit read_leaf_page [OF page] w set3 s4(1)
    by (simp add: split_leaf_def m(1) [symmetric] Let_def effect_of_def store_step_def a split: prod.splits)
  then show ?thesis
    using s4 alloc(2) len \<open>leaf_page s4 i new (take m es)\<close> \<open>frame s {i} s4\<close> by auto
qed

lemma insert_into_leaf_page:
  assumes page: "leaf_page s i x (as @ bs)" and order: "\<forall>e \<in> set as. fst e \<le> key" "\<forall>e \<in> set bs. key < fst e"
    and len: "length key \<le> max_key_len"
  shows "leaf_entries_fit page_len (as @ (key, rid) # bs) \<Longrightarrow>
      \<exists>s'. insert_into_leaf i key rid s = (Ok None, s') \<and> length s' = length s \<and> frame s {i} s'
        \<and> leaf_page s' i x (as @ (key, rid) # bs)"
    and "\<not> leaf_entries_fit page_len (as @ (key, rid) # bs) \<Longrightarrow> length s < 2 ^ 64 \<Longrightarrow>
      \<exists>m new s'. 0 < m \<and> m < length (as @ (key, rid) # bs)
        \<and> insert_into_leaf i key rid s = (Ok (Some (fst ((as @ (key, rid) # bs) ! m), new)), s')
        \<and> unat new = length s \<and> length s' = Suc (length s) \<and> frame s {i} s'
        \<and> leaf_page s' i new (take m (as @ (key, rid) # bs)) \<and> leaf_page s' new x (drop m (as @ (key, rid) # bs))"
proof -
  let ?es = "as @ (key, rid) # bs"
  have v: "leaf_valid page_len (as @ bs)" and k: "keys_fit max_key_len ?es"
    using page len by (simp_all add: leaf_page_def)
  then have sorted: "sorted (map fst (as @ bs))" and fit: "leaf_entries_fit page_len (as @ bs)" by (simp_all add: leaf_valid_def)
  have sorted': "sorted (map fst ?es)" by (rule sorted_insert [OF sorted order])
  have ins: "insert_at (leaf_insert_position (as @ bs) key) (key, rid) (as @ bs) = ?es"
    unfolding leaf_insert_position_def by (rule insert_at_boundary [OF sorted order])
  obtain p where p: "store_get s i = Ok p" "payload p = leaf_image page_len x (as @ bs)"
    using leaf_page_get [OF page] by blast
  have written: "leaf_write_entries (payload p) ?es =
    (if leaf_entries_fit page_len ?es then Ok (True, leaf_image page_len x ?es) else Ok (False, payload p))"
    using v by (simp add: p(2) leaf_write_entries_eq next_leaf_image length_images)
  have step: "insert_into_leaf i key rid s =
    (if leaf_entries_fit page_len ?es then (Ok None, write_payload s i (leaf_image page_len x ?es))
     else run_then (split_leaf ?es i s) (\<lambda>r s. (Ok (Some r), s)))"
    by (simp add: insert_into_leaf_def effect_of_def read_leaf_page [OF page] ins p(1) written Let_def)
  show "\<exists>s'. insert_into_leaf i key rid s = (Ok None, s') \<and> length s' = length s \<and> frame s {i} s' \<and> leaf_page s' i x ?es"
    if fit': "leaf_entries_fit page_len ?es"
  proof -
    have "leaf_valid page_len ?es" by (rule valid_parts(1) [OF fit' _ sorted']) (simp add: sizes_eq)
    then have "leaf_page (write_payload s i (leaf_image page_len x ?es)) i x ?es" by (rule page_write(1) [OF page _ k])
    moreover have "unat i < length s" using page by (simp add: leaf_page_def)
    ultimately show ?thesis using fit' by (simp add: step frame_write)
  qed
  show "\<exists>m new s'. 0 < m \<and> m < length ?es
        \<and> insert_into_leaf i key rid s = (Ok (Some (fst (?es ! m), new)), s')
        \<and> unat new = length s \<and> length s' = Suc (length s) \<and> frame s {i} s'
        \<and> leaf_page s' i new (take m ?es) \<and> leaf_page s' new x (drop m ?es)"
    if over: "\<not> leaf_entries_fit page_len ?es" and room: "length s < 2 ^ 64"
  proof -
    have "keys_fit (leaf_max_key_len_for_two_entries page_len) ?es"
      by (rule keys_fit_mono [OF k max_key_len_le(1)])
    from leaf_split_halves_fit [OF fit over this]
    have m: "0 < leaf_split_point page_len ?es" "leaf_split_point page_len ?es < length ?es"
      "leaf_entries_fit page_len (take (leaf_split_point page_len ?es) ?es)"
      "leaf_entries_fit page_len (drop (leaf_split_point page_len ?es) ?es)" by (simp_all only: sizes_eq)
    from split_leaf_page [OF page room sorted' k refl m] m over show ?thesis
      unfolding step by (metis (no_types, lifting) run_then_simps(1))
  qed
qed

lemma split_internal_page:
  assumes page: "internal_page s i x0 fs0" and room: "length s < 2 ^ 64" and fs: "sorted (map fst fs)" "keys_fit max_key_len fs"
    and m: "m = internal_split_point page_len fs" "0 < m" "m < length fs"
    and fit: "internal_entries_fit page_len (take m fs)" "internal_entries_fit page_len (drop (m + 1) fs)"
  shows "\<exists>new s'. split_internal fs x i s = (Ok (fst (fs ! m), new), s') \<and> unat new = length s \<and> length s' = Suc (length s)
    \<and> frame s {i} s' \<and> internal_page s' i x (take m fs) \<and> internal_page s' new (snd (fs ! m)) (drop (m + 1) fs)"
proof -
  have v: "internal_valid page_len (take m fs)" "internal_valid page_len (drop (m + 1) fs)"
    using fit fs sorted_parts by (auto intro!: valid_parts simp: sizes_eq)
  define s1 where "s1 = write_payload s i (internal_image page_len x (take m fs))"
  have w: "write_internal s i x (take m fs) = Ok (True, s1)"
    unfolding s1_def using write_internal_page [OF page] fit(1) by simp
  have page1: "internal_page s1 i x (take m fs)"
    unfolding s1_def by (rule page_write(2) [OF page v(1) keys_fit_take(1) [OF fs(2)]])
  have len1: "length s1 = length s" by (simp add: s1_def)
  obtain new s2 where a: "store_alloc s1 PtBTreeInternal = (new, s2)" by fastforce
  note alloc = store_alloc_fresh [OF a, unfolded len1, OF room]
  have ne: "unat new \<noteq> unat i" using alloc page by (auto simp: internal_page_def)
  obtain s3 where s3: "init_internal s2 new (snd (fs ! m)) (drop (m + 1) fs) = Ok s3"
    "internal_page s3 new (snd (fs ! m)) (drop (m + 1) fs)" "length s3 = length s2" "\<forall>j. j \<noteq> unat new \<longrightarrow> s3 ! j = s2 ! j"
    using init_internal_fresh [OF alloc(1) v(2) keys_fit_take(2) [OF fs(2)]] by blast
  have "internal_page s3 i x (take m fs)"
    using page_frame(2) [OF page1, of s3] s3(3,4) alloc ne page by (simp add: len1 internal_page_def)
  moreover have "frame s {i} s3"
    unfolding frame_def using s3(3,4) alloc by (auto simp: s1_def nth_write)
  moreover have "get_at fs m = Some (fs ! m)" using m(3) by (simp add: get_at_def)
  moreover have "2 \<le> length fs" using m by linarith
  ultimately have "split_internal fs x i s = (Ok (fst (fs ! m), new), s3)"
    using fit w s3(1)
    by (cases "fs ! m") (simp add: split_internal_def m(1) [symmetric] Let_def effect_of_def store_step_def a)
  then show ?thesis
    using s3 alloc \<open>internal_page s3 i x (take m fs)\<close> \<open>frame s {i} s3\<close> by auto
qed

lemma mset_drop_Suc: "m < length xs \<Longrightarrow> mset (map fst (drop (m + 1) xs)) \<subseteq># mset (map fst (drop m xs))"
  by (simp add: Cons_nth_drop_Suc [symmetric])

lemma insert_into_internal_page:
  assumes page: "internal_page s i x (as @ bs)" and order: "\<forall>e \<in> set as. fst e \<le> key" "\<forall>e \<in> set bs. key < fst e"
    and len: "length key \<le> max_key_len"
  shows "internal_entries_fit page_len (as @ (key, c) # bs) \<Longrightarrow>
      \<exists>s'. insert_into_internal i key c s = (Ok None, s') \<and> length s' = length s \<and> frame s {i} s'
        \<and> internal_page s' i x (as @ (key, c) # bs)"
    and "\<not> internal_entries_fit page_len (as @ (key, c) # bs) \<Longrightarrow> length s < 2 ^ 64 \<Longrightarrow>
      \<exists>m new s'. 0 < m \<and> m < length (as @ (key, c) # bs)
        \<and> insert_into_internal i key c s = (Ok (Some (fst ((as @ (key, c) # bs) ! m), new)), s')
        \<and> unat new = length s \<and> length s' = Suc (length s) \<and> frame s {i} s'
        \<and> internal_page s' i x (take m (as @ (key, c) # bs))
        \<and> internal_page s' new (snd ((as @ (key, c) # bs) ! m)) (drop (m + 1) (as @ (key, c) # bs))"
proof -
  let ?es = "as @ (key, c) # bs"
  have v: "internal_valid page_len (as @ bs)" and k: "keys_fit max_key_len ?es"
    using page len by (simp_all add: internal_page_def)
  then have sorted: "sorted (map fst (as @ bs))" and fit: "internal_entries_fit page_len (as @ bs)"
    by (simp_all add: internal_valid_def)
  have sorted': "sorted (map fst ?es)" by (rule sorted_insert [OF sorted order])
  have ins: "insert_at (internal_insert_position (as @ bs) key) (key, c) (as @ bs) = ?es"
    unfolding internal_insert_position_def by (rule insert_at_boundary [OF sorted order])
  obtain p where p: "store_get s i = Ok p" "payload p = internal_image page_len x (as @ bs)"
    using internal_page_get [OF page] by blast
  have step: "insert_into_internal i key c s =
    (if internal_entries_fit page_len ?es then (Ok None, write_payload s i (internal_image page_len x ?es))
     else run_then (split_internal ?es x i s) (\<lambda>r s. (Ok (Some r), s)))"
    using v by (simp add: insert_into_internal_def effect_of_def p internal_open_image leftmost_child_image
        shows_entries(2) [OF image_shows(2)] ins write_internal_page [OF page] Let_def)
  show "\<exists>s'. insert_into_internal i key c s = (Ok None, s') \<and> length s' = length s \<and> frame s {i} s' \<and> internal_page s' i x ?es"
    if fit': "internal_entries_fit page_len ?es"
  proof -
    have "internal_valid page_len ?es" by (rule valid_parts(2) [OF fit' _ sorted']) (simp add: sizes_eq)
    then have "internal_page (write_payload s i (internal_image page_len x ?es)) i x ?es" by (rule page_write(2) [OF page _ k])
    moreover have "unat i < length s" using page by (simp add: internal_page_def)
    ultimately show ?thesis using fit' by (simp add: step frame_write)
  qed
  show "\<exists>m new s'. 0 < m \<and> m < length ?es
        \<and> insert_into_internal i key c s = (Ok (Some (fst (?es ! m), new)), s')
        \<and> unat new = length s \<and> length s' = Suc (length s) \<and> frame s {i} s'
        \<and> internal_page s' i x (take m ?es) \<and> internal_page s' new (snd (?es ! m)) (drop (m + 1) ?es)"
    if over: "\<not> internal_entries_fit page_len ?es" and room: "length s < 2 ^ 64"
  proof -
    have "keys_fit (internal_max_key_len_for_two_entries page_len) ?es"
      by (rule keys_fit_mono [OF k max_key_len_le(2)])
    from internal_split_halves_fit [OF fit over this]
    have m: "0 < internal_split_point page_len ?es" "internal_split_point page_len ?es < length ?es"
      "internal_entries_fit page_len (take (internal_split_point page_len ?es) ?es)"
      "internal_entries_fit page_len (drop (internal_split_point page_len ?es) ?es)" by (simp_all only: sizes_eq)
    have "mset (map fst (drop (internal_split_point page_len ?es + 1) ?es)) \<subseteq># mset (map fst (drop (internal_split_point page_len ?es) ?es))"
      using m(2) by (rule mset_drop_Suc)
    then have "internal_entries_fit page_len (drop (internal_split_point page_len ?es + 1) ?es)"
      using m(4) by (rule fit_mono(2))
    from split_internal_page [OF page room sorted' k refl m(1-3) this] m over show ?thesis
      unfolding step by (metis (no_types, lifting) run_then_simps(1))
  qed
qed

subsection \<open>Trees\<close>

text \<open>
  A node carries its children with the separator to the left of each; the separator of the first child is
  not on the page and means nothing. \<open>ordered l u t\<close> says that the keys of \<open>t\<close> ascend strictly, lie in
  \<open>l \<le> k < u\<close>, and that separators cut them: strictly ascending, keys left of a separator below it.
\<close>

datatype ghost = GLeaf page_no "leaf_entry list" | GNode page_no "(byte list \<times> ghost) list"

fun gid :: "ghost \<Rightarrow> page_no" where
  "gid (GLeaf i es) = i"
| "gid (GNode i cs) = i"

fun g_leaves :: "ghost \<Rightarrow> (page_no \<times> leaf_entry list) list" where
  "g_leaves (GLeaf i es) = [(i, es)]"
| "g_leaves (GNode i cs) = concat (map (\<lambda>kc. g_leaves (snd kc)) cs)"

fun g_ids :: "ghost \<Rightarrow> page_no list" where
  "g_ids (GLeaf i es) = [i]"
| "g_ids (GNode i cs) = i # concat (map (\<lambda>kc. g_ids (snd kc)) cs)"

definition child_links :: "(byte list \<times> ghost) list \<Rightarrow> internal_entry list" where
  "child_links cs = map (\<lambda>(k, c). (k, gid c)) (tl cs)"

definition first_child :: "(byte list \<times> ghost) list \<Rightarrow> page_no" where
  "first_child cs = gid (snd (hd cs))"

fun shape :: "page_store \<Rightarrow> ghost \<Rightarrow> bool" where
  "shape s (GLeaf i es) = True"
| "shape s (GNode i cs) = (internal_page s i (first_child cs) (child_links cs) \<and> (\<forall>kc \<in> set cs. shape s (snd kc)))"

definition first_id :: "(page_no \<times> leaf_entry list) list \<Rightarrow> page_no \<Rightarrow> page_no" where
  "first_id ls nx = (case ls of [] \<Rightarrow> nx | l # _ \<Rightarrow> fst l)"

fun linked :: "page_store \<Rightarrow> (page_no \<times> leaf_entry list) list \<Rightarrow> page_no \<Rightarrow> bool" where
  "linked s [] nx = True"
| "linked s (l # ls) nx = (leaf_page s (fst l) (first_id ls nx) (snd l) \<and> linked s ls nx)"

definition above :: "byte list option \<Rightarrow> byte list \<Rightarrow> bool" where
  "above l k = (case l of None \<Rightarrow> True | Some x \<Rightarrow> x \<le> k)"

definition past :: "byte list option \<Rightarrow> byte list \<Rightarrow> bool" where
  "past l k = (case l of None \<Rightarrow> True | Some x \<Rightarrow> x < k)"

definition below :: "byte list \<Rightarrow> byte list option \<Rightarrow> bool" where
  "below k u = (case u of None \<Rightarrow> True | Some x \<Rightarrow> k < x)"

fun ordered :: "byte list option \<Rightarrow> byte list option \<Rightarrow> ghost \<Rightarrow> bool"
and ordered_children :: "byte list option \<Rightarrow> byte list option \<Rightarrow> (byte list \<times> ghost) list \<Rightarrow> bool" where
  "ordered l u (GLeaf i es) = (sorted_wrt (<) (map fst es) \<and> (\<forall>e \<in> set es. above l (fst e) \<and> below (fst e) u))"
| "ordered l u (GNode i cs) = ordered_children l u cs"
| "ordered_children l u [] = False"
| "ordered_children l u [kc] = ordered l u (snd kc)"
| "ordered_children l u (kc # kd # cs) =
    (ordered l (Some (fst kd)) (snd kc) \<and> past l (fst kd) \<and> below (fst kd) u \<and> ordered_children (Some (fst kd)) u (kd # cs))"

definition c_leaves :: "(byte list \<times> ghost) list \<Rightarrow> (page_no \<times> leaf_entry list) list" where
  "c_leaves cs = concat (map (\<lambda>kc. g_leaves (snd kc)) cs)"

definition c_ids :: "(byte list \<times> ghost) list \<Rightarrow> page_no list" where
  "c_ids cs = concat (map (\<lambda>kc. g_ids (snd kc)) cs)"

definition entries_of :: "(page_no \<times> leaf_entry list) list \<Rightarrow> leaf_entry list" where
  "entries_of ls = concat (map snd ls)"

lemma c_simps [simp]:
  "c_leaves [] = []" "c_leaves (kc # cs) = g_leaves (snd kc) @ c_leaves cs" "c_leaves (cs @ ds) = c_leaves cs @ c_leaves ds"
  "c_ids [] = []" "c_ids (kc # cs) = g_ids (snd kc) @ c_ids cs" "c_ids (cs @ ds) = c_ids cs @ c_ids ds"
  "entries_of [] = []" "entries_of (l # ls) = snd l @ entries_of ls" "entries_of (ls @ ms) = entries_of ls @ entries_of ms"
  by (simp_all add: c_leaves_def c_ids_def entries_of_def)

lemma node_simps [simp]: "g_leaves (GNode i cs) = c_leaves cs" "g_ids (GNode i cs) = i # c_ids cs"
  by (simp_all add: c_leaves_def c_ids_def)

declare g_leaves.simps(2) [simp del] g_ids.simps(2) [simp del]

lemma first_id_simps [simp]: "first_id [] nx = nx" "first_id (l # ls) nx = fst l"
  by (simp_all add: first_id_def)

lemma first_id_append: "first_id (ls @ ms) nx = first_id ls (first_id ms nx)"
  by (cases ls) simp_all

lemma linked_append: "linked s (ls @ ms) nx \<longleftrightarrow> linked s ls (first_id ms nx) \<and> linked s ms nx"
  by (induction ls) (auto simp: first_id_append)

lemma ordered_children_not_Nil: "ordered_children l u cs \<Longrightarrow> cs \<noteq> []"
  by auto

lemma ordered_children_append:
  "as \<noteq> [] \<Longrightarrow> ordered_children l u (as @ kc # bs) \<longleftrightarrow>
   ordered_children l (Some (fst kc)) as \<and> past l (fst kc) \<and> below (fst kc) u \<and> ordered_children (Some (fst kc)) u (kc # bs)"
proof (induction as arbitrary: l)
  case (Cons a as)
  have trans: "past l k \<Longrightarrow> past (Some k) j \<Longrightarrow> past l j" "below k (Some j) \<Longrightarrow> below j u \<Longrightarrow> below k u"
    "past (Some k) j \<longleftrightarrow> below k (Some j)" for k j
    by (auto simp: past_def below_def split: option.splits)
  show ?case
  proof (cases as)
    case Nil
    then show ?thesis by auto
  next
    case (Cons b cs)
    then show ?thesis using Cons.IH [of "Some (fst b)"] trans by auto
  qed
qed simp

lemma ordered_leaves_not_Nil: "ordered l u t \<Longrightarrow> g_leaves t \<noteq> []" "ordered_children l u cs \<Longrightarrow> c_leaves cs \<noteq> []"
  by (induction l u t and l u cs rule: ordered_ordered_children.induct) simp_all

lemma entries_sorted:
  "ordered l u t \<Longrightarrow> sorted_wrt (<) (map fst (entries_of (g_leaves t)))
     \<and> (\<forall>e \<in> set (entries_of (g_leaves t)). above l (fst e) \<and> below (fst e) u)"
  "ordered_children l u cs \<Longrightarrow> sorted_wrt (<) (map fst (entries_of (c_leaves cs)))
     \<and> (\<forall>e \<in> set (entries_of (c_leaves cs)). above l (fst e) \<and> below (fst e) u)"
proof (induction l u t and l u cs rule: ordered_ordered_children.induct)
  case (5 l u kc kd cs)
  then have a: "sorted_wrt (<) (map fst (entries_of (g_leaves (snd kc))))"
    "\<forall>e \<in> set (entries_of (g_leaves (snd kc))). above l (fst e) \<and> fst e < fst kd"
    and b: "sorted_wrt (<) (map fst (entries_of (c_leaves (kd # cs))))"
    "\<forall>e \<in> set (entries_of (c_leaves (kd # cs))). fst kd \<le> fst e \<and> below (fst e) u"
    and s: "past l (fst kd)" "below (fst kd) u"
    by (auto simp: above_def [of "Some _"] below_def [of _ "Some _"])
  have "above l k" if "fst kd \<le> k" for k using s(1) that by (auto simp: above_def past_def split: option.splits)
  moreover have "below k u" if "k < fst kd" for k using s(2) that by (auto simp: below_def split: option.splits)
  ultimately show ?case
    using a b by (auto simp: sorted_wrt_append simp del: c_simps(2)) (simp_all add: ball_Un sorted_wrt_append, force+)
qed simp_all

lemma gid_in_ids [simp]: "gid t \<in> set (g_ids t)"
  by (cases t) simp_all

lemma in_c_ids: "kc \<in> set cs \<Longrightarrow> x \<in> set (g_ids (snd kc)) \<Longrightarrow> x \<in> set (c_ids cs)"
  by (auto simp: c_ids_def)

lemma leaf_ids: "fst ` set (g_leaves t) \<subseteq> set (g_ids t)" and leaf_ids_c: "fst ` set (c_leaves cs) \<subseteq> set (c_ids cs)"
proof -
  show *: "fst ` set (g_leaves t) \<subseteq> set (g_ids t)" for t
  proof (induction t)
    case (GNode i cs)
    then show ?case by (fastforce simp: c_leaves_def c_ids_def)
  qed simp
  show "fst ` set (c_leaves cs) \<subseteq> set (c_ids cs)"   proof (induction cs)
    case (Cons kc cs)
    with * [of "snd kc"] show ?case by (simp only: c_simps set_append image_Un) blast
  qed simp
qed

lemma linked_frame: "linked s ls nx \<Longrightarrow> frame s P s' \<Longrightarrow> \<forall>l \<in> set ls. fst l \<notin> P \<Longrightarrow> linked s' ls nx"
  by (induction ls) (auto intro: frame_page)

lemma shape_frame: "shape s t \<Longrightarrow> frame s P s' \<Longrightarrow> set (g_ids t) \<inter> P = {} \<Longrightarrow> shape s' t"
proof (induction t)
  case (GNode i cs)
  then have "internal_page s' i (first_child cs) (child_links cs)" by (auto intro: frame_page)
  moreover have "shape s' (snd kc)" if "kc \<in> set cs" for kc
  proof -
    have "set (g_ids (snd kc)) \<inter> P = {}" using GNode.prems(3) in_c_ids [OF that] by auto
    then show ?thesis using GNode that by (cases kc) (auto simp: snds.simps)
  qed
  ultimately show ?case by auto
qed simp

lemma ids_in_store:
  "shape s t \<Longrightarrow> linked s (g_leaves t) nx \<Longrightarrow> \<forall>i \<in> set (g_ids t). unat i < length s"
proof (induction t arbitrary: nx)
  case (GLeaf i es)
  then show ?case by (simp add: leaf_page_def)
next
  case (GNode i cs)
  have "\<forall>i \<in> set (g_ids (snd kc)). unat i < length s" if kc: "kc \<in> set cs" for kc
  proof -
    obtain as bs where cs: "cs = as @ kc # bs" using kc by (meson split_list)
    with GNode.prems(2) have "linked s (g_leaves (snd kc)) (first_id (c_leaves bs) nx)" by (simp add: linked_append)
    then show ?thesis using GNode kc by (auto simp: snds.simps)
  qed
  with GNode.prems show ?case by (auto simp: c_ids_def internal_page_def)
qed

text \<open>The child that a search with the predicate \<open>P\<close> on separators descends into.\<close>

lemma child_links_simps [simp]:
  "map fst (child_links cs) = map fst (tl cs)" "length (child_links cs) = length cs - 1"
  "child_links (kc # cs) = map (\<lambda>(k, c). (k, gid c)) cs"
  by (simp_all add: child_links_def comp_def case_prod_unfold)

lemma child_split:
  assumes "cs \<noteq> []"
  obtains as kc bs where "cs = as @ kc # bs" "length as = length (takeWhile P (map fst (child_links cs)))"
    "as \<noteq> [] \<longrightarrow> P (fst kc)" "bs \<noteq> [] \<longrightarrow> \<not> P (fst (hd bs))"
    "nth_child (first_child cs) (child_links cs) (length (takeWhile P (map fst (child_links cs)))) = gid (snd kc)"
proof -
  let ?ks = "map fst (tl cs)"
  define n where "n = length (takeWhile P ?ks)"
  have n: "n < length cs" using length_takeWhile_le [of P ?ks] assms by (cases cs) (auto simp: n_def)
  have cs: "cs = take n cs @ cs ! n # drop (Suc n) cs" by (rule id_take_nth_drop [OF n])
  have "P (fst (cs ! n))" if "0 < n"
  proof -
    have "takeWhile P ?ks ! (n - 1) = ?ks ! (n - 1)" by (rule takeWhile_nth) (use that in \<open>simp add: n_def\<close>)
    moreover have "P (takeWhile P ?ks ! (n - 1))" using that by (metis diff_less n_def nth_mem set_takeWhileD zero_less_one)
    ultimately show ?thesis using that n by (simp add: nth_tl)
  qed
  moreover have "\<not> P (fst (hd (drop (Suc n) cs)))" if "Suc n < length cs"
    using nth_length_takeWhile [of P ?ks] that by (simp add: n_def [symmetric] nth_tl hd_drop_conv_nth)
  moreover have "nth_child (first_child cs) (child_links cs) n = gid (snd (cs ! n))"
    using n assms by (cases n) (auto simp: nth_child_def first_child_def child_links_def hd_conv_nth nth_tl case_prod_unfold)
  ultimately show ?thesis
    using that [of "take n cs" "cs ! n" "drop (Suc n) cs"] cs n by (simp add: n_def)
qed

lemma ordered_children_Cons:
  "bs \<noteq> [] \<Longrightarrow> ordered_children l u (kc # bs) \<longleftrightarrow>
     ordered l (Some (fst (hd bs))) (snd kc) \<and> past l (fst (hd bs)) \<and> below (fst (hd bs)) u \<and> ordered_children (Some (fst (hd bs))) u bs"
  by (cases bs) simp_all

text \<open>The bounds of a child, and what may replace it.\<close>

definition child_low :: "byte list option \<Rightarrow> (byte list \<times> ghost) list \<Rightarrow> byte list \<Rightarrow> byte list option" where
  "child_low l as k = (if as = [] then l else Some k)"

definition child_high :: "(byte list \<times> ghost) list \<Rightarrow> byte list option \<Rightarrow> byte list option" where
  "child_high bs u = (if bs = [] then u else Some (fst (hd bs)))"

lemma ordered_children_split:
  "ordered_children l u (as @ kc # bs) \<longleftrightarrow>
   (as \<noteq> [] \<longrightarrow> ordered_children l (Some (fst kc)) as \<and> past l (fst kc) \<and> below (fst kc) u)
   \<and> ordered_children (child_low l as (fst kc)) u (kc # bs)"
  by (cases "as = []") (simp_all add: ordered_children_append child_low_def)

lemma ordered_child:
  "ordered_children l u (as @ kc # bs) \<Longrightarrow> ordered (child_low l as (fst kc)) (child_high bs u) (snd kc)"
  unfolding ordered_children_split by (cases "bs = []") (simp_all add: child_high_def ordered_children_Cons)

lemma ordered_replace:
  assumes o: "ordered_children l u (as @ kc # bs)" and ts: "ordered_children (child_low l as (fst kc)) (child_high bs u) ts"
    and hd: "fst (hd ts) = fst kc"
  shows "ordered_children l u (as @ ts @ bs)"
proof -
  obtain t ts' where t: "ts = t # ts'" using ts by (cases ts) auto
  have right: "ordered_children (child_low l as (fst kc)) u (ts @ bs)"
  proof (cases bs)
    case Nil
    then show ?thesis using ts by (simp add: child_high_def)
  next
    case (Cons b bs')
    with o have b: "past (child_low l as (fst kc)) (fst b)" "below (fst b) u" "ordered_children (Some (fst b)) u bs"
      unfolding ordered_children_split by (simp_all add: ordered_children_Cons)
    then show ?thesis
      using ts t ordered_children_append [of ts "child_low l as (fst kc)" u b bs'] Cons by (simp add: child_high_def)
  qed
  then have "ordered_children (child_low l as (fst t)) u (t # ts' @ bs)" using t hd by simp
  moreover have "as \<noteq> [] \<longrightarrow> ordered_children l (Some (fst t)) as \<and> past l (fst t) \<and> below (fst t) u"
    using o hd t unfolding ordered_children_split by simp
  ultimately have "ordered_children l u (as @ t # ts' @ bs)" unfolding ordered_children_split by blast
  with t show ?thesis by simp
qed

end
