(* ===== verification/Btree_Insert.thy ===== *)
theory Btree_Insert
  imports Btree_Tree
begin

text \<open>
  Insertion into a represented tree. The pages that hold a sequence of sibling trees form a \<open>forest\<close>; one
  level of insertion turns one tree into one or two, and the loop of \<open>insert\<close> over the latched ancestors,
  with every release of the ancestors of a safe page, is this recursion.
\<close>

subsection \<open>Sibling trees on pages\<close>

definition forest :: "page_store \<Rightarrow> byte list option \<Rightarrow> byte list option \<Rightarrow> (byte list \<times> ghost) list \<Rightarrow> page_no \<Rightarrow> bool" where
  "forest s l u ts nx \<longleftrightarrow> (\<forall>kc \<in> set ts. shape s (snd kc)) \<and> linked s (c_leaves ts) nx \<and> ordered_children l u ts
     \<and> distinct (c_ids ts) \<and> 0 \<notin> set (c_ids ts)"

lemma forest_not_Nil: "forest s l u ts nx \<Longrightarrow> ts \<noteq> []"
  by (auto simp: forest_def)

lemma forest_ids: "forest s l u ts nx \<Longrightarrow> i \<in> set (c_ids ts) \<Longrightarrow> unat i < length s"
proof -
  assume f: "forest s l u ts nx" and i: "i \<in> set (c_ids ts)"
  from i obtain kc where kc: "kc \<in> set ts" "i \<in> set (g_ids (snd kc))" by (auto simp: c_ids_def)
  then obtain as bs where ts: "ts = as @ kc # bs" by (meson split_list)
  from f have "linked s (g_leaves (snd kc)) (first_id (c_leaves bs) nx)" by (simp add: forest_def ts linked_append)
  with f kc ids_in_store [of s "snd kc"] show ?thesis by (auto simp: forest_def)
qed

lemma forest_frame:
  assumes f: "forest s l u ts nx" and fr: "frame s P s'" and d: "set (c_ids ts) \<inter> P = {}"
  shows "forest s' l u ts nx"
proof -
  have "shape s' (snd kc)" if "kc \<in> set ts" for kc
  proof -
    have "set (g_ids (snd kc)) \<inter> P = {}" using d in_c_ids [OF that] by auto
    with f that show ?thesis by (auto simp: forest_def intro: shape_frame [OF _ fr])
  qed
  moreover have "linked s' (c_leaves ts) nx"
    using f d leaf_ids_c [of ts] by (auto simp: forest_def intro!: linked_frame [OF _ fr])
  ultimately show ?thesis using f by (simp add: forest_def)
qed

lemma forest_leaf:
  "forest s l u [(k, GLeaf i es)] nx \<longleftrightarrow> leaf_page s i nx es \<and> ordered l u (GLeaf i es) \<and> i \<noteq> 0"
  by (auto simp: forest_def)

lemma forest_node:
  "forest s l u [(k, GNode i cs)] nx \<longleftrightarrow>
   internal_page s i (first_child cs) (child_links cs) \<and> forest s l u cs nx \<and> i \<notin> set (c_ids cs) \<and> i \<noteq> 0"
  by (auto simp: forest_def)

lemma forest_child:
  assumes "forest s l u (as @ kc # bs) nx"
  shows "forest s (child_low l as (fst kc)) (child_high bs u) [kc] (first_id (c_leaves bs) nx)"
  using assms ordered_child [of l u as kc bs] by (auto simp: forest_def linked_append)

lemma forest_replace:
  assumes f: "forest s l u (as @ kc # bs) nx"
    and ts: "forest s' (child_low l as (fst kc)) (child_high bs u) ts (first_id (c_leaves bs) nx)"
    and fr: "frame s (set (g_ids (snd kc))) s'" and hd: "fst (hd ts) = fst kc"
    and first: "\<And>x. first_id (c_leaves ts) x = first_id (g_leaves (snd kc)) x"
    and ids: "set (c_ids ts) \<subseteq> set (g_ids (snd kc)) \<union> {i. length s \<le> unat i}"
  shows "forest s' l u (as @ ts @ bs) nx"
proof -
  have d: "distinct (c_ids (as @ kc # bs))" "0 \<notin> set (c_ids (as @ kc # bs))" using f by (simp_all add: forest_def)
  have old: "unat i < length s" if "i \<in> set (c_ids as) \<union> set (c_ids bs)" for i
    using forest_ids [OF f] that by auto
  have apart: "(set (c_ids as) \<union> set (c_ids bs)) \<inter> set (g_ids (snd kc)) = {}" using d(1) by auto
  have keep: "shape s' (snd c)" if "c \<in> set as \<union> set bs" for c
  proof -
    have "set (g_ids (snd c)) \<inter> set (g_ids (snd kc)) = {}" using that apart in_c_ids by blast
    moreover have "shape s (snd c)" using f that by (auto simp: forest_def)
    ultimately show ?thesis using shape_frame fr by blast
  qed
  have out: "fst x \<notin> set (g_ids (snd kc))" if "x \<in> set (c_leaves as) \<union> set (c_leaves bs)" for x
    using that apart leaf_ids_c [of as] leaf_ids_c [of bs] by blast
  have old_links: "linked s (c_leaves as) (first_id (g_leaves (snd kc)) (first_id (c_leaves bs) nx))" "linked s (c_leaves bs) nx"
    using f by (simp_all add: forest_def linked_append first_id_append)
  have "linked s' (c_leaves as) (first_id (c_leaves ts) (first_id (c_leaves bs) nx))"
    unfolding first by (rule linked_frame [OF old_links(1) fr]) (simp add: out)
  moreover have "linked s' (c_leaves bs) nx"
    by (rule linked_frame [OF old_links(2) fr]) (simp add: out)
  moreover have "linked s' (c_leaves ts) (first_id (c_leaves bs) nx)" using ts by (simp add: forest_def)
  ultimately have "linked s' (c_leaves (as @ ts @ bs)) nx" by (simp add: linked_append first_id_append)
  moreover have "ordered_children l u (as @ ts @ bs)"
    using f ts by (intro ordered_replace [OF _ _ hd]) (simp_all add: forest_def)
  moreover have "distinct (c_ids (as @ ts @ bs))"
  proof -
    have "i \<notin> set (c_ids ts)" if "i \<in> set (c_ids as) \<union> set (c_ids bs)" for i
      using old [OF that] apart ids that by fastforce
    then have "set (c_ids as) \<inter> set (c_ids ts) = {}" "set (c_ids bs) \<inter> set (c_ids ts) = {}" by auto
    moreover have "distinct (c_ids ts)" using ts by (simp add: forest_def)
    moreover have "distinct (c_ids as)" "distinct (c_ids bs)" "set (c_ids as) \<inter> set (c_ids bs) = {}" using d(1) by auto
    ultimately show ?thesis by (simp add: Int_commute Int_Un_distrib2 Int_Un_distrib)
  qed
  ultimately show ?thesis using keep ts d(2) by (auto simp: forest_def)
qed

lemma forest_pair:
  assumes f: "forest s l u (ls @ rs) nx" and ne: "ls \<noteq> []" "rs \<noteq> []"
    and pages: "internal_page s i (first_child ls) (child_links ls)" "internal_page s j (first_child rs) (child_links rs)"
    and ids: "i \<notin> set (c_ids (ls @ rs))" "j \<notin> set (c_ids (ls @ rs))" "i \<noteq> j" "i \<noteq> 0" "j \<noteq> 0"
  shows "forest s l u [(k, GNode i ls), (fst (hd rs), GNode j rs)] nx"
proof -
  obtain r rs' where rs: "rs = r # rs'" using ne(2) by (cases rs) auto
  have "ordered_children l u (ls @ r # rs')" using f rs by (simp add: forest_def)
  then show ?thesis
    using f ne(1) pages ids rs unfolding ordered_children_append [OF ne(1)]
    by (auto simp: forest_def)
qed

lemma labels_sorted:
  "ordered_children l u cs \<Longrightarrow> sorted_wrt (<) (map fst (tl cs)) \<and> (\<forall>kc \<in> set (tl cs). past l (fst kc) \<and> below (fst kc) u)"
proof (induction cs arbitrary: l)
  case (Cons a cs)
  show ?case
  proof (cases cs)
    case (Cons b bs)
    with Cons.prems have b: "past l (fst b)" "below (fst b) u" and o: "ordered_children (Some (fst b)) u cs" by simp_all
    from Cons.IH [OF o] Cons have s: "sorted_wrt (<) (map fst bs)" "\<forall>kc \<in> set bs. fst b < fst kc \<and> below (fst kc) u"
      by (simp_all add: past_def [of "Some _"])
    moreover have "past l (fst kc)" if "kc \<in> set bs" for kc
      using b(1) s(2) that by (auto simp: past_def split: option.splits dest: less_trans)
    ultimately show ?thesis using Cons b by auto
  qed simp
qed simp

subsection \<open>One level of insertion\<close>

text \<open>The tree \<open>t\<close> has taken the entry \<open>e\<close>, and is one tree or two with what is pending for the parent.\<close>

definition grown ::
  "page_store \<Rightarrow> byte list option \<Rightarrow> byte list option \<Rightarrow> page_no \<Rightarrow> byte list \<Rightarrow> ghost \<Rightarrow> leaf_entry
   \<Rightarrow> (byte list \<times> page_no) option \<Rightarrow> page_store \<Rightarrow> bool" where
  "grown s l u nx k t e pending s' \<longleftrightarrow>
     (\<exists>t1 rest. forest s' l u ((k, t1) # rest) nx \<and> gid t1 = gid t
       \<and> (\<forall>x. first_id (c_leaves ((k, t1) # rest)) x = first_id (g_leaves t) x)
       \<and> set (entries_of (c_leaves ((k, t1) # rest))) = insert e (set (entries_of (g_leaves t)))
       \<and> set (c_ids ((k, t1) # rest)) \<subseteq> set (g_ids t) \<union> {i. length s \<le> unat i}
       \<and> frame s (set (g_ids t)) s' \<and> length s' \<le> length s + length (g_ids t)
       \<and> (case pending of None \<Rightarrow> rest = []
          | Some (sep, new) \<Rightarrow> length sep \<le> max_key_len \<and> (\<exists>t2. rest = [(sep, t2)] \<and> gid t2 = new)))"

lemma cut_at_key:
  fixes key :: "byte list"
  assumes "sorted_wrt (<) (map fst es)" "key \<notin> fst ` set es"
  obtains as bs where "es = as @ bs" "\<forall>e \<in> set as. fst e < key" "\<forall>e \<in> set bs. key < fst e"
proof -
  let ?P = "\<lambda>e. fst e < key"
  have "key < fst e" if "e \<in> set (dropWhile ?P es)" for e
  proof -
    obtain b bs where bs: "dropWhile ?P es = b # bs" using \<open>e \<in> set (dropWhile ?P es)\<close> by (cases "dropWhile ?P es") auto
    then have "\<not> fst b < key" by (metis dropWhile_eq_Cons_conv)
    moreover have "b \<in> set es" by (metis bs list.set_intros(1) set_dropWhileD)
    ultimately have b: "key < fst b" using assms(2) by (metis image_eqI linorder_neqE)
    have "sorted_wrt (<) (map fst (b # bs))"
      using assms(1) by (metis bs sorted_wrt_append map_append takeWhile_dropWhile_id)
    with b that bs show ?thesis by auto
  qed
  moreover have "\<forall>e \<in> set (takeWhile ?P es). fst e < key" by (metis set_takeWhileD)
  ultimately show ?thesis using that [of "takeWhile ?P es" "dropWhile ?P es"] by simp
qed

lemma sorted_wrt_insert_key:
  "sorted_wrt (<) (map fst (as @ bs)) \<Longrightarrow> \<forall>e \<in> set as. fst e < key \<Longrightarrow> \<forall>e \<in> set bs. key < fst e \<Longrightarrow>
   sorted_wrt (<) (map fst (as @ (key, r) # bs))"
  by (auto simp: sorted_wrt_append)

lemma leaf_safe_page:
  assumes page: "leaf_page s i x (as @ bs)" and order: "\<forall>e \<in> set as. fst e \<le> key" "\<forall>e \<in> set bs. key < fst e"
  shows "leaf_is_safe_for_insert (payload (s ! unat i)) key rid = Ok (leaf_entries_fit page_len (as @ (key, rid) # bs))"
proof -
  have v: "leaf_valid page_len (as @ bs)" and p: "payload (s ! unat i) = leaf_image page_len x (as @ bs)"
    using page by (simp_all add: leaf_page_def)
  then have "sorted (map fst (as @ bs))" by (simp add: leaf_valid_def)
  from insert_at_boundary [OF this order] show ?thesis
    by (simp add: leaf_is_safe_for_insert_def p shows_entries(1) [OF image_shows(1) [OF v]] leaf_insert_position_def)
qed

lemma take_drop_split: "m < length es \<Longrightarrow> drop m es = es ! m # drop (Suc m) es"
  by (simp add: Cons_nth_drop_Suc)

lemma sorted_cut:
  fixes es :: "(byte list \<times> 'a) list"
  assumes "sorted_wrt (<) (map fst es)" and m: "m < length es"
  shows "sorted_wrt (<) (map fst (take m es))" "sorted_wrt (<) (map fst (drop m es))"
    "\<forall>x \<in> set (take m es). fst x < fst (es ! m)" "\<forall>y \<in> set (drop m es). fst (es ! m) \<le> fst y"
proof -
  have "sorted_wrt (<) (map fst (take m es @ es ! m # drop (Suc m) es))"
    using assms(1) id_take_nth_drop [OF m] by metis
  then show "sorted_wrt (<) (map fst (take m es))" "sorted_wrt (<) (map fst (drop m es))"
    "\<forall>x \<in> set (take m es). fst x < fst (es ! m)" "\<forall>y \<in> set (drop m es). fst (es ! m) \<le> fst y"
    unfolding map_append sorted_wrt_append by (auto simp: take_drop_split [OF m])
qed

lemma above_past: "above l a \<Longrightarrow> a < b \<Longrightarrow> past l b"
  by (auto simp: above_def past_def split: option.splits intro: le_less_trans)

lemma leaf_pair:
  assumes sorted: "sorted_wrt (<) (map fst es)" and bounds: "\<forall>e \<in> set es. above l (fst e) \<and> below (fst e) u"
    and m: "0 < m" "m < length es" and pages: "leaf_page s i j (take m es)" "leaf_page s j nx (drop m es)"
    and ids: "i \<noteq> j" "i \<noteq> 0" "j \<noteq> 0"
  shows "forest s l u [(k, GLeaf i (take m es)), (fst (es ! m), GLeaf j (drop m es))] nx"
proof -
  let ?sep = "fst (es ! m)"
  note parts = sorted_cut [OF sorted m(2)]
  have "past l ?sep"
  proof -
    obtain x where x: "x \<in> set (take m es)" using m by (cases "take m es") auto
    then have "above l (fst x)" using bounds by (meson in_set_takeD)
    with parts(3) x show ?thesis using above_past by blast
  qed
  moreover have "below ?sep u" using bounds nth_mem [OF m(2)] by blast
  moreover have "ordered l (Some ?sep) (GLeaf i (take m es))" "ordered (Some ?sep) u (GLeaf j (drop m es))"
    using parts bounds by (auto simp: above_def [of "Some _"] below_def [of _ "Some _"] dest: in_set_takeD in_set_dropD)
  ultimately show ?thesis using pages ids by (simp add: forest_def)
qed

lemma insert_leaf_level:
  assumes f: "forest s l u [(k, GLeaf i (as @ bs))] nx" and b: "above l key" "below key u"
    and order: "\<forall>e \<in> set as. fst e < key" "\<forall>e \<in> set bs. key < fst e"
    and len: "length key \<le> max_key_len" and room: "length s < 2 ^ 64"
  shows "\<exists>pending s'. insert_into_leaf i key rid s = (Ok pending, s') \<and> grown s l u nx k (GLeaf i (as @ bs)) (key, rid) pending s'
    \<and> (leaf_entries_fit page_len (as @ (key, rid) # bs) \<longrightarrow> pending = None)"
proof -
  let ?es = "as @ (key, rid) # bs"
  have page: "leaf_page s i nx (as @ bs)" and o: "ordered l u (GLeaf i (as @ bs))" and nz: "i \<noteq> 0"
    using f by (simp_all add: forest_leaf)
  have order': "\<forall>e \<in> set as. fst e \<le> key" using order(1) by auto
  have sorted: "sorted_wrt (<) (map fst ?es)"
    by (rule sorted_wrt_insert_key [OF _ order]) (use o in simp)
  have bounds: "\<forall>e \<in> set ?es. above l (fst e) \<and> below (fst e) u" using o b by auto
  show ?thesis
  proof (cases "leaf_entries_fit page_len ?es")
    case True
    obtain s' where s': "insert_into_leaf i key rid s = (Ok None, s')" "length s' = length s" "frame s {i} s'" "leaf_page s' i nx ?es"
      using insert_into_leaf_page(1) [OF page order' order(2) len True] by blast
    have "grown s l u nx k (GLeaf i (as @ bs)) (key, rid) None s'"
      unfolding grown_def by (rule exI [of _ "GLeaf i ?es"]) (use s' sorted bounds nz in \<open>simp add: forest_leaf\<close>)
    with s' show ?thesis by blast
  next
    case False
    obtain m new s' where m: "0 < m" "m < length ?es"
      and ins: "insert_into_leaf i key rid s = (Ok (Some (fst (?es ! m), new)), s')"
      and s': "unat new = length s" "length s' = Suc (length s)" "frame s {i} s'"
      and pages: "leaf_page s' i new (take m ?es)" "leaf_page s' new nx (drop m ?es)"
      using insert_into_leaf_page(2) [OF page order' order(2) len False room] by blast
    let ?sep = "fst (?es ! m)" and ?L = "GLeaf i (take m ?es)" and ?R = "GLeaf new (drop m ?es)"
    have mid: "?es ! m \<in> set ?es" using m(2) by (rule nth_mem)
    have "i \<noteq> new" "new \<noteq> 0" using page s'(1) by (auto simp: leaf_page_def)
    with nz have "forest s' l u [(k, ?L), (?sep, ?R)] nx"
      by (intro leaf_pair [OF sorted bounds m pages])
    moreover note cut = append_take_drop_id [of m ?es] and mid = nth_mem [OF m(2)]
    moreover have "length ?sep \<le> max_key_len"
      using page len mid unfolding leaf_page_def keys_fit_def by auto
    moreover have "set (take m ?es) \<union> set (drop m ?es) = insert (key, rid) (set (as @ bs))"
      by (metis cut set_append Un_insert_right list.simps(15))
    ultimately have "grown s l u nx k (GLeaf i (as @ bs)) (key, rid) (Some (?sep, new)) s'"
      unfolding grown_def using s'
      by (intro exI [of _ ?L] exI [of _ "[(?sep, ?R)]"]) (simp add: Un_commute)
    with ins False show ?thesis by blast
  qed
qed

lemma child_links_append: "xs \<noteq> [] \<Longrightarrow> child_links (xs @ ys) = child_links xs @ map (\<lambda>(k, c). (k, gid c)) ys"
  by (cases xs) simp_all

lemma child_links_take: "0 < n \<Longrightarrow> child_links (take n cs) = take (n - 1) (child_links cs)"
  by (cases cs; cases n) (simp_all add: take_map)

lemma child_links_drop: "child_links (drop n cs) = drop n (child_links cs)"
  by (simp add: child_links_def drop_map tl_drop)

lemma first_child_drop: "Suc m < length cs \<Longrightarrow> first_child (drop (Suc m) cs) = snd (child_links cs ! m)"
  by (cases cs) (simp_all add: first_child_def child_links_def hd_drop_conv_nth case_prod_unfold)

lemma link_key: "Suc m < length cs \<Longrightarrow> fst (child_links cs ! m) = fst (cs ! Suc m)"
  by (cases cs) (simp_all add: child_links_def case_prod_unfold)

lemma insert_internal_level:
  assumes f: "forest s l u (as @ (k1, t1) # (sep, t2) # bs) nx"
    and page: "internal_page s i x (child_links (as @ (k1, t1) # bs))" and x: "x = first_child (as @ [(k1, t1)])"
    and i: "i \<notin> set (c_ids (as @ (k1, t1) # (sep, t2) # bs))" "i \<noteq> 0"
    and len: "length sep \<le> max_key_len" and room: "length s < 2 ^ 64"
  shows "\<exists>pending s'. insert_into_internal i sep (gid t2) s = (Ok pending, s') \<and> frame s {i} s' \<and> length s' \<le> Suc (length s)
    \<and> (internal_entries_fit page_len (child_links (as @ (k1, t1) # (sep, t2) # bs)) \<longrightarrow> pending = None)
    \<and> (case pending of
         None \<Rightarrow> forest s' l u [(k, GNode i (as @ (k1, t1) # (sep, t2) # bs))] nx
       | Some (sep', new) \<Rightarrow> length sep' \<le> max_key_len \<and> unat new = length s \<and>
           (\<exists>ls rs. as @ (k1, t1) # (sep, t2) # bs = ls @ rs \<and> ls \<noteq> [] \<and> rs \<noteq> []
              \<and> forest s' l u [(k, GNode i ls), (sep', GNode new rs)] nx))"
proof -
  let ?cs = "as @ (k1, t1) # (sep, t2) # bs" and ?A = "as @ [(k1, t1)]"
  let ?B = "map (\<lambda>(k, c). (k, gid c)) bs"
  define cs where "cs = ?cs"
  have links: "child_links cs = child_links ?A @ (sep, gid t2) # ?B" "child_links (as @ (k1, t1) # bs) = child_links ?A @ ?B"
    using child_links_append [of ?A "(sep, t2) # bs"] child_links_append [of ?A bs] by (simp_all add: cs_def)
  have "tl ?cs = tl ?A @ (sep, t2) # bs" by (cases as) simp_all
  moreover have oc: "ordered_children l u cs" using f by (simp add: forest_def cs_def)
  ultimately have lab: "sorted_wrt (<) (map fst (tl ?A @ (sep, t2) # bs))"
    "\<forall>kc \<in> set (tl ?A @ (sep, t2) # bs). past l (fst kc) \<and> below (fst kc) u"
    using labels_sorted [OF oc] by (simp_all add: cs_def)
  have order: "\<forall>e \<in> set (child_links ?A). fst e \<le> sep" "\<forall>e \<in> set ?B. sep < fst e"
    using lab(1) by (auto simp: child_links_def sorted_wrt_append less_imp_le)
  have page': "internal_page s i x (child_links ?A @ ?B)" using page by (simp only: links)
  have first: "x = first_child cs" unfolding x cs_def by (cases as) (simp_all add: first_child_def)
  have f': "forest s l u cs nx" and i': "i \<notin> set (c_ids cs)" using f i by (simp_all add: cs_def)
  show ?thesis
  proof (cases "internal_entries_fit page_len (child_links cs)")
    case True
    then obtain s' where s': "insert_into_internal i sep (gid t2) s = (Ok None, s')" "length s' = length s" "frame s {i} s'"
      "internal_page s' i x (child_links cs)"
      using insert_into_internal_page(1) [OF page' order len] unfolding links by blast
    have "forest s' l u cs nx" by (rule forest_frame [OF f' s'(3)]) (use i' in simp)
    then have "forest s' l u [(k, GNode i cs)] nx" using s'(4) i' i(2) by (simp add: forest_node first)
    with s' show ?thesis unfolding cs_def [symmetric] by auto
  next
    case False
    then obtain m new s' where m: "0 < m" "m < length (child_links cs)"
      and ins: "insert_into_internal i sep (gid t2) s = (Ok (Some (fst (child_links cs ! m), new)), s')"
      and s': "unat new = length s" "length s' = Suc (length s)" "frame s {i} s'"
      and pages: "internal_page s' i x (take m (child_links cs))"
        "internal_page s' new (snd (child_links cs ! m)) (drop (m + 1) (child_links cs))"
      using insert_into_internal_page(2) [OF page' order len _ room] unfolding links by blast
    have m': "Suc m < length cs" using m by simp
    let ?L = "take (Suc m) cs" and ?R = "drop (Suc m) cs"
    have sep': "fst (hd ?R) = fst (child_links cs ! m)" using m' by (simp add: link_key hd_drop_conv_nth)
    have new: "new \<notin> set (c_ids cs)" "i \<noteq> new" "new \<noteq> 0"
      using forest_ids [OF f', of new] s'(1) page by (auto simp: internal_page_def)
    have ne: "?L \<noteq> []" "?R \<noteq> []" using m' by auto
    have "forest s' l u (?L @ ?R) nx" using forest_frame [OF f' s'(3)] i' by simp
    then have "forest s' l u [(k, GNode i ?L), (fst (hd ?R), GNode new ?R)] nx"
    proof (rule forest_pair [OF _ ne])
      have "first_child ?L = x" using m' first by (cases cs) (simp_all add: first_child_def)
      then show "internal_page s' i (first_child ?L) (child_links ?L)" using pages(1) by (simp add: child_links_take)
      show "internal_page s' new (first_child ?R) (child_links ?R)"
        using pages(2) m' by (simp add: child_links_drop first_child_drop)
    qed (use i i' new in simp_all)
    moreover have "length (fst (child_links cs ! m)) \<le> max_key_len"
    proof -
      have "keys_fit max_key_len (child_links cs)"
        using page' len by (simp add: internal_page_def links)
      then show ?thesis using m(2) by (simp add: keys_fit_def)
    qed
    moreover have "cs = ?L @ ?R" by simp
    ultimately have "\<exists>ls rs. cs = ls @ rs \<and> ls \<noteq> [] \<and> rs \<noteq> []
      \<and> forest s' l u [(k, GNode i ls), (fst (child_links cs ! m), GNode new rs)] nx" "length (fst (child_links cs ! m)) \<le> max_key_len"
      using ne unfolding sep' by blast+
    then show ?thesis
      unfolding cs_def [symmetric] using ins s' False
      by (intro exI [of _ "Some (fst (child_links cs ! m), new)"] exI [of _ s']) simp
  qed
qed

subsection \<open>The whole descent\<close>

lemma child_links_same: "gid a = gid b \<Longrightarrow> child_links (as @ (k, a) # bs) = child_links (as @ (k, b) # bs)"
  "gid a = gid b \<Longrightarrow> first_child (as @ (k, a) # bs) = first_child (as @ (j, b) # bs)"
  by (cases as; simp add: first_child_def)+

lemma safe_internal_fits:
  assumes "internal_entries_fit n (es @ [(replicate m 0, 0)])" "length sep \<le> m" "es = as @ bs"
  shows "internal_entries_fit n (as @ (sep, c) # bs)"
  using assms by (simp add: fit_lens required_len_eq)

lemma insert_descend_leaf:
  assumes page: "leaf_page s i x (as @ bs)" and order: "\<forall>e \<in> set as. fst e \<le> key" "\<forall>e \<in> set bs. key < fst e"
  shows "insert_descend s key rid i anc =
    Some (Ok (i, if leaf_entries_fit page_len (as @ (key, rid) # bs) then [] else anc))"
  using leaf_page_get [OF page] leaf_safe_page [OF page order, of rid]
  by (subst insert_descend.simps) (auto simp: leaf_open_image store_get_def split: if_splits)

lemma insert_descend_node:
  assumes page: "internal_page s i x fs"
  shows "insert_descend s key rid i anc =
    insert_descend s key rid (nth_child x fs (length (takeWhile (\<lambda>k. k \<le> key) (map fst fs))))
      (i # (if internal_entries_fit page_len (fs @ [(replicate max_key_len 0, 0)]) then [] else anc))"
proof -
  obtain p where p: "store_get s i = Ok p" "page_kind p = PtBTreeInternal" "payload p = internal_image page_len x fs"
    and v: "internal_valid page_len fs" using internal_page_get [OF page] by blast
  note sh = image_shows(2) [OF v, of x]
  have "internal_is_safe_for_insert (payload p) = Ok (internal_entries_fit page_len (fs @ [(replicate max_key_len 0, 0)]))"
    by (simp add: internal_is_safe_for_insert_def p(3) shows_entries(2) [OF sh])
  then show ?thesis
    using p v child_for_shows(1) [OF sh, of key]
    by (subst insert_descend.simps) (simp add: open_internal_def internal_open_image)
qed

lemma first_id_middle:
  "(\<And>x. first_id (c_leaves ts) x = first_id (g_leaves t) x) \<Longrightarrow>
   first_id (c_leaves (as @ ts @ bs)) x = first_id (c_leaves (as @ (k, t) # bs)) x"
  by (simp add: first_id_append)

lemma insert_tree:
  assumes "forest s l u [(k, t)] nx" "above l key" "below key u" "key \<notin> fst ` set (entries_of (g_leaves t))"
    and "length key \<le> max_key_len" "length s + length (g_ids t) < 2 ^ 64"
  shows "\<exists>leaf anc' pending s'. insert_descend s key rid (gid t) anc = Some (Ok (leaf, anc'))
    \<and> run_then (insert_into_leaf leaf key rid s) (\<lambda>p s. propagate leaf anc' p s) = propagate (gid t) anc pending s'
    \<and> grown s l u nx k t (key, rid) pending s'"
  using assms
proof (induction t arbitrary: l u k nx anc)
  case (GLeaf i es)
  then have page: "leaf_page s i nx es" and o: "sorted_wrt (<) (map fst es)" by (simp_all add: forest_leaf)
  obtain as bs where es: "es = as @ bs" and order: "\<forall>e \<in> set as. fst e < key" "\<forall>e \<in> set bs. key < fst e"
    using cut_at_key [OF o, of key] GLeaf.prems(4) by auto
  have order': "\<forall>e \<in> set as. fst e \<le> key" using order(1) by auto
  obtain pending s' where ins: "insert_into_leaf i key rid s = (Ok pending, s')" "grown s l u nx k (GLeaf i es) (key, rid) pending s'"
    "leaf_entries_fit page_len (as @ (key, rid) # bs) \<longrightarrow> pending = None"
    using insert_leaf_level [OF GLeaf.prems(1) [unfolded es] GLeaf.prems(2,3) order GLeaf.prems(5), of rid] GLeaf.prems(6)
    unfolding es by auto
  have "propagate i (if leaf_entries_fit page_len (as @ (key, rid) # bs) then [] else anc) pending s' = propagate i anc pending s'"
    using ins(3) by auto
  moreover have "insert_descend s key rid i anc = Some (Ok (i, if leaf_entries_fit page_len (as @ (key, rid) # bs) then [] else anc))"
    using insert_descend_leaf [OF page [unfolded es] order' order(2)] by blast
  ultimately show ?case using ins by (intro exI conjI) (simp, simp, simp)
next
  case (GNode i cs)
  then have page: "internal_page s i (first_child cs) (child_links cs)" and f: "forest s l u cs nx"
    and i: "i \<notin> set (c_ids cs)" "i \<noteq> 0" by (simp_all add: forest_node)
  obtain as k1 c bs where cs: "cs = as @ (k1, c) # bs" and low: "as \<noteq> [] \<longrightarrow> k1 \<le> key" and high: "bs \<noteq> [] \<longrightarrow> \<not> fst (hd bs) \<le> key"
    and next_id: "nth_child (first_child cs) (child_links cs) (length (takeWhile (\<lambda>k. k \<le> key) (map fst (child_links cs)))) = gid c"
    by (rule child_split [OF forest_not_Nil [OF f], of "\<lambda>k. k \<le> key"]) (metis prod.collapse fst_conv snd_conv)
  let ?l = "child_low l as k1" and ?u = "child_high bs u" and ?nx = "first_id (c_leaves bs) nx"
  define safe where "safe \<longleftrightarrow> internal_entries_fit page_len (child_links cs @ [(replicate max_key_len 0, 0)])"
  define anc0 where "anc0 = (if safe then [] else anc)"
  have descend: "insert_descend s key rid i anc = insert_descend s key rid (gid c) (i # anc0)"
    using insert_descend_node [OF page, of key rid anc] unfolding next_id safe_def anc0_def .
  have "(k1, c) \<in> set cs" "c \<in> Basic_BNFs.snds (k1, c)" by (auto simp: cs snds.simps)
  note IH = GNode.IH [OF this]
  have "forest s ?l ?u [(k1, c)] ?nx" using forest_child [of s l u as "(k1, c)" bs nx] f by (simp add: cs)
  moreover have "above ?l key" using GNode.prems(2) low by (simp add: child_low_def above_def [of "Some _"])
  moreover have "below key ?u" using GNode.prems(3) high by (simp add: child_high_def below_def [of _ "Some _"] not_le)
  moreover have "key \<notin> fst ` set (entries_of (g_leaves c))" using GNode.prems(4) by (simp add: cs image_Un)
  moreover have "length s + length (g_ids c) < 2 ^ 64" using GNode.prems(6) by (simp add: cs)
  ultimately obtain leaf anc' pend1 s1 where child: "insert_descend s key rid (gid c) (i # anc0) = Some (Ok (leaf, anc'))"
    "run_then (insert_into_leaf leaf key rid s) (\<lambda>p s. propagate leaf anc' p s) = propagate (gid c) (i # anc0) pend1 s1"
    "grown s ?l ?u ?nx k1 c (key, rid) pend1 s1"
    using IH [OF _ _ _ _ GNode.prems(5)] by blast
  from child(3) obtain t1 rest where g: "forest s1 ?l ?u ((k1, t1) # rest) ?nx" "gid t1 = gid c"
    "\<And>x. first_id (c_leaves ((k1, t1) # rest)) x = first_id (g_leaves c) x"
    "set (entries_of (c_leaves ((k1, t1) # rest))) = insert (key, rid) (set (entries_of (g_leaves c)))"
    "set (c_ids ((k1, t1) # rest)) \<subseteq> set (g_ids c) \<union> {i. length s \<le> unat i}"
    "frame s (set (g_ids c)) s1" "length s1 \<le> length s + length (g_ids c)"
    "case pend1 of None \<Rightarrow> rest = []
     | Some (sep, new) \<Rightarrow> length sep \<le> max_key_len \<and> (\<exists>t2. rest = [(sep, t2)] \<and> gid t2 = new)"
    unfolding grown_def by blast
  have f1: "forest s1 l u (as @ ((k1, t1) # rest) @ bs) nx"
    by (rule forest_replace [OF f [unfolded cs]]) (use g in simp_all)
  have page1: "internal_page s1 i (first_child cs) (child_links cs)"
    by (rule frame_page(2) [OF g(6) page]) (use i in \<open>simp add: cs\<close>)
  have ids1: "set (c_ids (as @ ((k1, t1) # rest) @ bs)) \<subseteq> set (c_ids cs) \<union> {j. length s \<le> unat j}"
    using g(5) by (auto simp: cs)
  have i1: "i \<notin> set (c_ids (as @ ((k1, t1) # rest) @ bs))"
    using ids1 i(1) page by (auto simp: internal_page_def)
  have fr1: "frame s (set (g_ids (GNode i cs))) s1" using g(6) by (auto simp: frame_def cs)
  have room1: "length s1 < 2 ^ 64" "length s1 + 1 \<le> length s + length (g_ids (GNode i cs))"
    using g(7) GNode.prems(6) by (simp_all add: cs)
  have first: "first_id (c_leaves (as @ ((k1, t1) # rest) @ bs)) x = first_id (c_leaves cs) x" for x
    unfolding cs by (rule first_id_middle) (use g(3) in simp)
  have entries: "set (entries_of (c_leaves (as @ ((k1, t1) # rest) @ bs))) = insert (key, rid) (set (entries_of (c_leaves cs)))"
    using g(4) by (auto simp: cs)
  show ?case
  proof (cases pend1)
    case None
    with g(8) have rest: "rest = []" by simp
    let ?cs = "as @ (k1, t1) # bs"
    have "forest s1 l u [(k, GNode i ?cs)] nx"
      using f1 i1 i(2) page1 g(2) child_links_same [of t1 c as k1 bs] by (simp add: forest_node rest cs)
    then have "grown s l u nx k (GNode i cs) (key, rid) None s1"
      unfolding grown_def using first entries ids1 fr1 room1
      by (intro exI [of _ "GNode i ?cs"]) (auto simp: rest)
    with child descend None show ?thesis by (auto intro!: exI [of _ None] exI [of _ s1])
  next
    case (Some sn)
    then obtain sep new t2 where sn: "pend1 = Some (sep, new)" and sep: "length sep \<le> max_key_len"
      and rest: "rest = [(sep, t2)]" "gid t2 = new" using g(8) by (cases sn) auto
    let ?cs = "as @ (k1, t1) # (sep, t2) # bs"
    have fc: "first_child cs = first_child (as @ [(k1, t1)])" using g(2) by (cases as) (simp_all add: cs first_child_def)
    have page2: "internal_page s1 i (first_child cs) (child_links (as @ (k1, t1) # bs))"
      using page1 child_links_same(1) [OF g(2)] by (simp add: cs)
    have f2: "forest s1 l u ?cs nx" and i2: "i \<notin> set (c_ids ?cs)" using f1 i1 by (simp_all add: rest)
    obtain pend2 s2 where up: "insert_into_internal i sep new s1 = (Ok pend2, s2)" "frame s1 {i} s2"
      "length s2 \<le> Suc (length s1)" "internal_entries_fit page_len (child_links ?cs) \<longrightarrow> pend2 = None"
      and cases2: "case pend2 of None \<Rightarrow> forest s2 l u [(k, GNode i ?cs)] nx
       | Some (sep', new) \<Rightarrow> length sep' \<le> max_key_len \<and> unat new = length s1 \<and>
           (\<exists>ls rs. ?cs = ls @ rs \<and> ls \<noteq> [] \<and> rs \<noteq> [] \<and> forest s2 l u [(k, GNode i ls), (sep', GNode new rs)] nx)"
      using insert_internal_level [OF f2 page2 fc i2 i(2) sep room1(1), of k] unfolding rest(2) by blast
    have "safe \<longrightarrow> internal_entries_fit page_len (child_links ?cs)"
    proof
      assume safe
      have "child_links ?cs = child_links (as @ [(k1, t1)]) @ (sep, gid t2) # map (\<lambda>(k, c). (k, gid c)) bs"
        "child_links cs = child_links (as @ [(k1, t1)]) @ map (\<lambda>(k, c). (k, gid c)) bs"
        using child_links_append [of "as @ [(k1, t1)]" "(sep, t2) # bs"] child_links_append [of "as @ [(k1, t1)]" bs]
          child_links_same(1) [OF g(2), of as k1 bs] by (simp_all add: cs)
      with \<open>safe\<close> show "internal_entries_fit page_len (child_links ?cs)"
        unfolding safe_def using safe_internal_fits [OF _ sep] by simp
    qed
    then have top: "propagate i anc0 pend2 s2 = propagate i anc pend2 s2" using up(4) by (auto simp: anc0_def)
    have fr2: "frame s (set (g_ids (GNode i cs))) s2"
      by (rule frame_trans [OF fr1 up(2) order_refl]) simp
    have "grown s l u nx k (GNode i cs) (key, rid) pend2 s2"
    proof (cases pend2)
      case None
      then show ?thesis
        unfolding grown_def using cases2 first entries ids1 fr2 room1 up(3)
        by (intro exI [of _ "GNode i ?cs"] exI [of _ "[]"]) (auto simp: rest)
    next
      case (Some sn2)
      then obtain sep' new' ls rs where p2: "pend2 = Some (sep', new')" and len2: "length sep' \<le> max_key_len" "unat new' = length s1"
        and lr: "?cs = ls @ rs" "ls \<noteq> []" "forest s2 l u [(k, GNode i ls), (sep', GNode new' rs)] nx"
        using cases2 by (cases sn2) auto
      have eq: "as @ ((k1, t1) # rest) @ bs = ls @ rs" using lr(1) by (simp add: rest)
      have "set (c_ids ls) \<union> set (c_ids rs) \<subseteq> set (c_ids cs) \<union> {j. length s \<le> unat j}" using ids1 unfolding eq by simp
      moreover have "length s \<le> length s1" using g(6) by (simp add: frame_def)
      ultimately have "set (c_ids [(k, GNode i ls), (sep', GNode new' rs)]) \<subseteq> set (g_ids (GNode i cs)) \<union> {j. length s \<le> unat j}"
        using len2(2) by auto
      then show ?thesis
        unfolding grown_def p2 using lr(3) first [unfolded eq] entries [unfolded eq] fr2 room1 up(3) len2(1)
        by (intro exI [of _ "GNode i ls"] exI [of _ "[(sep', GNode new' rs)]"]) simp
    qed
    with child descend sn up(1) top show ?thesis by (auto intro!: exI [of _ pend2] exI [of _ s2])
  qed
qed

subsection \<open>The root\<close>

lemma root_entry_fits: "length sep \<le> max_key_len \<Longrightarrow> internal_valid page_len [(sep, c)] \<and> keys_fit max_key_len [(sep, c)]"
  by (simp add: internal_valid_def fit_lens required_len_eq sizes_eq)

text \<open>Overwriting the root page with the node above its two halves.\<close>

lemma new_root_page:
  assumes fresh: "unat root < length s" "length (payload (s ! unat root)) = page_len" and sep: "length sep \<le> max_key_len"
  shows "\<exists>s'. and_then (store_get s root) (\<lambda>p. and_then (internal_init (payload p) left) (\<lambda>data.
      and_then (internal_write_entries data left [(sep, new)]) (\<lambda>(_, data).
      Ok (store_put s root (p\<lparr>page_kind := PtBTreeInternal, payload := data\<rparr>))))) = Ok s'
    \<and> internal_page s' root left [(sep, new)] \<and> length s' = length s \<and> frame s {root} s'"
proof -
  let ?p = "s ! unat root"
  let ?img = "internal_image page_len left [(sep, new)]"
  have v: "internal_valid page_len [(sep, new)]" "keys_fit max_key_len [(sep, new)]" using root_entry_fits [OF sep] by blast+
  have "internal_init (payload ?p) left = Ok (internal_image page_len left [])"
    using fresh(2) by (simp add: init_images sizes_eq)
  moreover have "internal_write_entries (internal_image page_len left []) left [(sep, new)] = Ok (True, ?img)"
    using v(1) empty_valid by (simp add: internal_write_entries_eq length_images internal_valid_def)
  moreover have "internal_page (store_put s root (?p\<lparr>page_kind := PtBTreeInternal, payload := ?img\<rparr>)) root left [(sep, new)]"
    using fresh(1) v by (simp add: internal_page_def store_put_def)
  ultimately show ?thesis
    using fresh(1) by (simp add: store_get_def frame_def nth_write)
qed

lemma payload_length:
  "leaf_page s i x es \<Longrightarrow> unat i < length s \<and> length (payload (s ! unat i)) = page_len"
  "internal_page s i y fs \<Longrightarrow> unat i < length s \<and> length (payload (s ! unat i)) = page_len"
  by (auto simp: leaf_page_def internal_page_def length_images)

lemma ghost_page: "shape s t \<Longrightarrow> linked s (g_leaves t) nx \<Longrightarrow> unat (gid t) < length s \<and> length (payload (s ! unat (gid t))) = page_len"
  by (cases t) (auto dest: payload_length)

lemma alloc_frame:
  assumes "store_alloc s k = (i, s')" "length s < 2 ^ 64"
  shows "frame s {} s'" "unat i = length s" "length s' = Suc (length s)" "fresh_page s' i k"
  using store_alloc_fresh [OF assms] by (simp_all add: frame_def)

text \<open>The copy of the old root is the same tree under a new page number.\<close>

fun moved :: "page_no \<Rightarrow> ghost \<Rightarrow> ghost" where
  "moved i (GLeaf j es) = GLeaf i es"
| "moved i (GNode j cs) = GNode i cs"

lemma moved_simps [simp]:
  "gid (moved i t) = i" "entries_of (g_leaves (moved i t)) = entries_of (g_leaves t)"
  "ordered l u (moved i t) = ordered l u t"
  "g_leaves t \<noteq> [] \<Longrightarrow> g_leaves (moved i t) \<noteq> []"
  by (cases t; simp)+

lemma moved_ids: "distinct (g_ids t) \<Longrightarrow> set (g_ids (moved i t)) = insert i (set (g_ids t) - {gid t})"
  "distinct (g_ids t) \<Longrightarrow> i \<notin> set (g_ids t) \<Longrightarrow> distinct (g_ids (moved i t))"
  by (cases t; auto)+

lemma copy_root_moved:
  assumes t: "shape s t" "linked s (g_leaves t) nx" "distinct (g_ids t)"
    and fresh: "fresh_page s i (page_kind (s ! unat (gid t)))" "i \<notin> set (g_ids t)"
  shows "\<exists>s'. copy_root (page_kind (s ! unat (gid t))) (gid t) i s = Ok s' \<and> length s' = length s
    \<and> (\<forall>j. j \<noteq> unat i \<longrightarrow> s' ! j = s ! j) \<and> shape s' (moved i t) \<and> linked s' (g_leaves (moved i t)) nx"
proof (cases t)
  case (GLeaf j es)
  then have page: "leaf_page s j nx es" using t by simp
  then have v: "leaf_valid page_len es" "keys_fit max_key_len es" and k: "page_kind (s ! unat j) = PtBTreeLeaf" by (simp_all add: leaf_page_def)
  obtain s' where s': "init_leaf s i es nx = Ok s'" "leaf_page s' i nx es" "length s' = length s" "\<forall>m. m \<noteq> unat i \<longrightarrow> s' ! m = s ! m"
    using init_leaf_fresh [of s i es nx] fresh(1) v k GLeaf by auto
  with GLeaf k read_leaf_page [OF page] show ?thesis by (auto simp: copy_root_def)
next
  case (GNode j cs)
  then have page: "internal_page s j (first_child cs) (child_links cs)" using t by simp
  then have v: "internal_valid page_len (child_links cs)" "keys_fit max_key_len (child_links cs)"
    and k: "page_kind (s ! unat j) = PtBTreeInternal" by (simp_all add: internal_page_def)
  obtain p where p: "store_get s j = Ok p" "payload p = internal_image page_len (first_child cs) (child_links cs)"
    using internal_page_get [OF page] by blast
  obtain s' where s': "init_internal s i (first_child cs) (child_links cs) = Ok s'" "internal_page s' i (first_child cs) (child_links cs)"
    "length s' = length s" "\<forall>m. m \<noteq> unat i \<longrightarrow> s' ! m = s ! m"
    using init_internal_fresh [of s i "child_links cs" "first_child cs"] fresh(1) v k GNode by auto
  have fr: "frame s {i} s'" using s'(3,4) by (auto simp: frame_def)
  have "copy_root (page_kind (s ! unat j)) j i s = Ok s'"
    using k p v s'(1) by (simp add: copy_root_def internal_open_image leftmost_child_image shows_entries(2) [OF image_shows(2)])
  moreover have "shape s' (GNode i cs)"
  proof -
    have "shape s' (snd kc)" if "kc \<in> set cs" for kc
      using t(1) GNode that fresh(2) in_c_ids [OF that] by (intro shape_frame [OF _ fr]) auto
    with s'(2) show ?thesis by simp
  qed
  moreover have "linked s' (c_leaves cs) nx"
    using t(2) GNode fresh(2) leaf_ids_c [of cs] by (intro linked_frame [OF _ fr]) auto
  ultimately show ?thesis using GNode s'(3,4) by auto
qed

lemma linked_frame_ids:
  assumes "linked s (g_leaves t) nx" "frame s P s'" "set (g_ids t) \<inter> P = {}"
  shows "linked s' (g_leaves t) nx"
proof -
  have "fst x \<notin> P" if "x \<in> set (g_leaves t)" for x
    using subsetD [OF leaf_ids imageI [OF that]] assms(3) by (simp add: disjoint_iff)
  then show ?thesis by (intro linked_frame [OF assms(1,2)] ballI)
qed

lemma grow_new_root_forest:
  assumes f: "forest s l u [(k, t1), (sep, t2)] nx" and sep: "length sep \<le> max_key_len" and room: "length s < 2 ^ 64"
  shows "\<exists>s' t. grow_new_root (gid t1) sep (gid t2) s = (Ok (), s') \<and> forest s' l u [(k, t)] nx \<and> gid t = gid t1
    \<and> entries_of (g_leaves t) = entries_of (g_leaves t1) @ entries_of (g_leaves t2)
    \<and> set (g_ids t) \<subseteq> set (g_ids t1) \<union> set (g_ids t2) \<union> {i. length s \<le> unat i}
    \<and> frame s {gid t1} s' \<and> length s' = Suc (length s)"
proof -
  let ?root = "gid t1" and ?nx = "first_id (g_leaves t2) nx"
  from f have t1: "shape s t1" "linked s (g_leaves t1) ?nx" "ordered l (Some sep) t1" "distinct (g_ids t1)"
    and t2: "shape s t2" "linked s (g_leaves t2) nx" "ordered (Some sep) u t2" "distinct (g_ids t2)"
    and sep': "past l sep" "below sep u" and d: "set (g_ids t1) \<inter> set (g_ids t2) = {}" "0 \<notin> set (g_ids t1)" "0 \<notin> set (g_ids t2)"
    by (auto simp: forest_def linked_append)
  define kind where "kind = page_kind (s ! unat ?root)"
  obtain left s1 where a: "store_alloc s kind = (left, s1)" by fastforce
  note al = alloc_frame [OF a room]
  have root: "unat ?root < length s" using ghost_page [OF t1(1,2)] by simp
  have old: "unat i < length s" if "i \<in> set (g_ids t1) \<union> set (g_ids t2)" for i
    using forest_ids [OF f] that by auto
  have left: "left \<notin> set (g_ids t1)" "left \<notin> set (g_ids t2)" "left \<noteq> 0"
    using old [of left] al(2) root by (auto simp: unat_eq_zero)
  have t1': "shape s1 t1" "linked s1 (g_leaves t1) ?nx"
    using shape_frame [OF t1(1) al(1)] linked_frame [OF t1(2) al(1)] by simp_all
  have kind1: "page_kind (s1 ! unat ?root) = kind" using al(1) root by (simp add: frame_def kind_def)
  obtain s2 where s2: "copy_root kind ?root left s1 = Ok s2" "length s2 = length s1" "\<forall>j. j \<noteq> unat left \<longrightarrow> s2 ! j = s1 ! j"
    "shape s2 (moved left t1)" "linked s2 (g_leaves (moved left t1)) ?nx"
    using copy_root_moved [OF t1' t1(4), of left] al(4) left(1) unfolding kind1 by auto
  have fr12: "frame s1 {left} s2" using s2(2,3) by (auto simp: frame_def)
  have ne: "unat ?root \<noteq> unat left" using root al(2) by simp
  have "unat ?root < length s2" "length (payload (s2 ! unat ?root)) = page_len"
    using ghost_page [OF t1'] s2(2,3) ne by simp_all
  from new_root_page [OF this sep, of left "gid t2"] obtain s3 where s3:
    "and_then (store_get s2 ?root) (\<lambda>p. and_then (internal_init (payload p) left) (\<lambda>data.
      and_then (internal_write_entries data left [(sep, gid t2)]) (\<lambda>(_, data).
      Ok (store_put s2 ?root (p\<lparr>page_kind := PtBTreeInternal, payload := data\<rparr>))))) = Ok s3"
    "internal_page s3 ?root left [(sep, gid t2)]" "length s3 = length s2" "frame s2 {?root} s3" by blast
  have fits: "internal_entries_fit page_len [(sep, gid t2)]" using root_entry_fits [OF sep] by (simp add: internal_valid_def)
  have run: "grow_new_root ?root sep (gid t2) s = (Ok (), s3)"
    using root a s2(1) fits s3(1)
    by (simp add: grow_new_root_def effect_of_def store_get_def kind_def [symmetric] store_step_def)
  let ?L = "moved left t1" and ?T = "GNode ?root [(k, moved left t1), (sep, t2)]"
  have ids: "set (g_ids ?L) = insert left (set (g_ids t1) - {?root})" "distinct (g_ids ?L)"
    using moved_ids [OF t1(4)] left(1) by auto
  have root_in: "?root \<in> set (g_ids t1)" by (rule gid_in_ids)
  then have "left \<noteq> ?root" using left(1) by metis
  then have away: "set (g_ids ?L) \<inter> {?root} = {}" using ids(1) by simp
  have away2: "set (g_ids t2) \<inter> {?root} = {}" using root_in d(1) by (simp add: disjoint_iff)
  have L3: "shape s3 ?L" "linked s3 (g_leaves ?L) ?nx"
    using shape_frame [OF s2(4) s3(4) away] linked_frame_ids [OF s2(5) s3(4) away] by blast+
  have fr: "frame s {?root, left} s3"
    by (rule frame_trans [OF frame_trans [OF al(1) fr12, of "{left}"] s3(4)]) auto
  have t2': "set (g_ids t2) \<inter> {?root, left} = {}" using away2 left(2) by auto
  have R3: "shape s3 t2" "linked s3 (g_leaves t2) nx"
    using shape_frame [OF t2(1) fr t2'] linked_frame_ids [OF t2(2) fr t2'] by blast+
  have "forest s3 l u [(k, ?T)] nx"
    unfolding forest_node
  proof (intro conjI)
    show "internal_page s3 ?root (first_child [(k, ?L), (sep, t2)]) (child_links [(k, ?L), (sep, t2)])"
      using s3(2) by (simp add: first_child_def)
    show "forest s3 l u [(k, ?L), (sep, t2)] nx"
      using L3 R3 t1(3) t2(3,4) sep' ids left d by (auto simp: forest_def linked_append)
    show "?root \<notin> set (c_ids [(k, ?L), (sep, t2)])" using away away2 by auto
    show "?root \<noteq> 0" using d(2) gid_in_ids [of t1] by metis
  qed
  moreover have "frame s {?root} s3" using fr al(2) by (auto simp: frame_def)
  moreover have "set (g_ids ?T) \<subseteq> set (g_ids t1) \<union> set (g_ids t2) \<union> {i. length s \<le> unat i}" using ids(1) al(2) by auto
  ultimately show ?thesis
    using run s3(3) s2(2) al(3) by (intro exI [of _ s3] exI [of _ ?T]) simp
qed

end
