(* ===== verification/Btree_Keys.thy ===== *)
theory Btree_Keys
  imports Btree
begin

unbundle bit_operations_syntax

text \<open>
  The key encoding of the index: the bytes of two keys of one type compare as the values do, and decoding
  gives the value back.
\<close>

text \<open>A value that may be a key of a tree of type \<open>kt\<close>: not NULL, of that type, a real string.\<close>

definition index_key :: "data_type \<Rightarrow> val \<Rightarrow> bool" where
  "index_key kt v \<longleftrightarrow> type_of v = Some kt \<and> (case v of VText s \<Rightarrow> utf8 (bytes_of s) | _ \<Rightarrow> True)"

fun key_bytes :: "val \<Rightarrow> byte list" where
  "key_bytes VNull = []"
| "key_bytes (VBoolean b) = [if b then 1 else 0]"
| "key_bytes (VBigInt n) = encode_bigint n"
| "key_bytes (VText s) = bytes_of s"

lemma encode_key_bytes: "type_of v = Some kt \<Longrightarrow> encode_key v = Ok (key_bytes v)"
  by (cases v) simp_all

subsection \<open>Big-endian order\<close>

lemma snoc_less:
  "length xs = length ys \<Longrightarrow> (xs @ [a :: 'a :: linorder] < ys @ [b]) \<longleftrightarrow> xs < ys \<or> (xs = ys \<and> a < b)"
proof (induction xs ys rule: list_induct2)
  case (Cons x xs y ys)
  then show ?case by (auto simp: less_list_code)
qed (simp add: less_list_code)

lemma rev_le_bytes_less:
  "x < 256 ^ k \<Longrightarrow> y < 256 ^ k \<Longrightarrow> rev (le_bytes k x) < rev (le_bytes k y) \<longleftrightarrow> x < y"
proof (induction k arbitrary: x y)
  case (Suc k)
  have inj: "rev (le_bytes k a) = rev (le_bytes k b) \<longleftrightarrow> a = b" if "a < 256 ^ k" "b < 256 ^ k" for a b
    using that by (metis le_nat_le_bytes mod_less rev_rev_ident)
  have div: "x div 256 < 256 ^ k" "y div 256 < 256 ^ k" using Suc.prems by (simp_all add: less_mult_imp_div_less mult.commute)
  have byte: "(of_nat x :: byte) < of_nat y \<longleftrightarrow> x mod 256 < y mod 256"
    by (simp add: word_less_nat_alt)
  have "rev (le_bytes (Suc k) x) < rev (le_bytes (Suc k) y) \<longleftrightarrow>
    rev (le_bytes k (x div 256)) < rev (le_bytes k (y div 256))
    \<or> (rev (le_bytes k (x div 256)) = rev (le_bytes k (y div 256)) \<and> (of_nat x :: byte) < of_nat y)"
    by (simp add: snoc_less)
  also have "\<dots> \<longleftrightarrow> x div 256 < y div 256 \<or> (x div 256 = y div 256 \<and> x mod 256 < y mod 256)"
    using Suc.IH [OF div] inj [OF div] byte by simp
  also have "\<dots> \<longleftrightarrow> x < y"
  proof -
    have "x = 256 * (x div 256) + x mod 256" "y = 256 * (y div 256) + y mod 256" "x mod 256 < 256" "y mod 256 < 256" by simp_all
    then show ?thesis by linarith
  qed
  finally show ?case .
qed simp

lemma be64_less: "be64 a < be64 b \<longleftrightarrow> a < b"
proof -
  have "unat a < 256 ^ 8" "unat b < 256 ^ 8" using unsigned_less [of a] unsigned_less [of b] by simp_all
  then show ?thesis by (simp add: be64_def le64_def rev_le_bytes_less word_less_nat_alt)
qed

lemma from_be64_be64 [simp]: "from_be64 (be64 w) = w" "length (be64 w) = 8"
  by (simp_all add: be64_def from_be64_def)

text \<open>Flipping the sign bit shifts the signed range onto the unsigned one.\<close>

lemma uint_flip: "uint (n XOR 0x8000000000000000 :: i64) = sint n + 2 ^ 63"
proof -
  have c: "(0x8000000000000000 :: i64) = push_bit 63 1" by simp
  have flip: "n XOR 0x8000000000000000 = flip_bit 63 n" unfolding c flip_bit_eq_xor ..
  have low: "take_bit 63 (uint (flip_bit 63 n)) = take_bit 63 (uint n)"
    by (rule bit_eqI) (simp add: bit_simps, auto)
  have split: "uint w = take_bit 63 (uint w) + 2 ^ 63 * of_bool (bit w 63)" for w :: i64
  proof -
    have "take_bit (Suc 63) (uint w) = take_bit 63 (uint w) + 2 ^ 63 * of_bool (bit (uint w) 63)"
      unfolding take_bit_Suc_from_most by simp
    moreover have "take_bit (Suc 63) (uint w) = uint w"
      using take_bit_int_eq_self [of "uint w" 64] unsigned_less [of w, where 'a = int] by simp
    ultimately show ?thesis by (simp add: bit_uint_iff)
  qed
  have "sint n = take_bit 63 (uint n) - 2 ^ 63 * of_bool (bit n 63)"
    using split [of n] take_bit_int_eq_self [of "uint n" 64] unsigned_less [of n, where 'a = int]
    by (simp add: sint_uint signed_take_bit_eq_take_bit_minus bit_uint_iff)
  moreover have "uint (flip_bit 63 n) = take_bit 63 (uint n) + 2 ^ 63 * of_bool (\<not> bit n 63)"
    using split [of "flip_bit 63 n"] low by (simp add: bit_flip_bit_iff)
  ultimately show ?thesis unfolding flip by (simp add: of_bool_def)
qed

lemma encode_bigint_less: "encode_bigint a < encode_bigint b \<longleftrightarrow> sint a < sint b"
  by (simp add: encode_bigint_def be64_less word_less_def uint_flip)

lemma decode_encode_bigint [simp]: "decode_bigint (encode_bigint n) = n" "length (encode_bigint n) = 8"
  by (simp_all add: encode_bigint_def decode_bigint_def xor.assoc)

lemma decode_key_bytes: "index_key kt v \<Longrightarrow> decode_key kt (key_bytes v) = Ok v"
  by (cases v) (auto simp: index_key_def)

lemma key_bytes_less:
  "index_key kt v \<Longrightarrow> index_key kt w \<Longrightarrow> key_bytes v < key_bytes w \<longleftrightarrow> compare_values v w = Ok Less"
  by (cases v; cases w) (auto simp: index_key_def cmp_def encode_bigint_less bytes_of_less_iff less_list_code)

lemma key_bytes_inject: "index_key kt v \<Longrightarrow> index_key kt w \<Longrightarrow> key_bytes v = key_bytes w \<longleftrightarrow> v = w"
  by (metis decode_key_bytes outcome.inject(1))

text \<open>
  C31: keys can be compared as bytes. For any two values of one type, encoding succeeds, the lexicographic
  order of the encodings is the order of the values (booleans, signed integers and strings), equal bytes
  mean equal values, and decoding returns the value.
\<close>

theorem key_encoding_preserves_order:
  assumes "index_key kt v" "index_key kt w"
  shows "\<exists>a b. encode_key v = Ok a \<and> encode_key w = Ok b \<and> (a < b \<longleftrightarrow> compare_values v w = Ok Less)
    \<and> (a = b \<longleftrightarrow> v = w) \<and> decode_key kt a = Ok v"
  using assms encode_key_bytes [of v kt] encode_key_bytes [of w kt]
    key_bytes_less [OF assms] key_bytes_inject [OF assms] decode_key_bytes [OF assms(1)]
  unfolding index_key_def by blast

theorem key_encoding_preserves_order_witness:
  "\<exists>a b. encode_key (VBigInt (- 5)) = Ok a \<and> encode_key (VBigInt 3) = Ok b \<and> a < b"
  using key_encoding_preserves_order [of TBigInt "VBigInt (- 5)" "VBigInt 3"]
  by (auto simp: index_key_def cmp_def)

end
