(* ===== verification/Btree_Scan.thy ===== *)
theory Btree_Scan
  imports Btree_Insert Btree_Keys
begin

text \<open>
  Reading a represented tree: every descent reaches the leaf that the order of the keys selects, and the
  range scan returns, in order, the entries of the tree between its bounds.
\<close>

subsection \<open>Positions in a leaf\<close>

fun beyond :: "scan_position \<Rightarrow> byte list \<Rightarrow> bool" where
  "beyond (Start Unbounded) k = True"
| "beyond (Start (Included b)) k = (b \<le> k)"
| "beyond (Start (Excluded b)) k = (b < k)"
| "beyond (After b r) k = (b < k)"

lemma beyond_mono: "beyond pos j \<Longrightarrow> j \<le> k \<Longrightarrow> beyond pos k"
  by (induction pos j rule: beyond.induct) auto

text \<open>The first index of the leaf that the position has not passed.\<close>

definition index_of :: "scan_position \<Rightarrow> leaf_entry list \<Rightarrow> nat" where
  "index_of pos es = length (takeWhile (\<lambda>e. \<not> beyond pos (fst e)) es)"

lemma key_unique:
  "sorted_wrt (<) (map fst es) \<Longrightarrow> i < length es \<Longrightarrow> j < length es \<Longrightarrow> fst (es ! i) = fst (es ! j) \<longleftrightarrow> i = (j :: nat)"
  for es :: "leaf_entry list"
  by (metis (mono_tags, lifting) length_map linorder_neqE_nat nth_map order_less_irrefl sorted_wrt_nth_less)

lemma index_of_key:
  assumes s: "sorted_wrt (<) (map fst es)" and i: "i < length es"
  shows "index_of (Start (Included (fst (es ! i)))) es = i" "index_of (Start (Excluded (fst (es ! i)))) es = Suc i"
    "index_of (After (fst (es ! i)) r) es = Suc i"
proof -
  have mono: "fst (es ! j) < fst (es ! k)" if "j < k" "k < length es" for j k
    using sorted_wrt_nth_less [OF s, of j k] that by simp
  show "index_of (Start (Included (fst (es ! i)))) es = i"
    unfolding index_of_def by (rule length_takeWhile_eq) (use i mono in \<open>auto simp: not_le\<close>)
  have "length (takeWhile (\<lambda>e. \<not> fst (es ! i) < fst e) es) = Suc i"
    by (rule length_takeWhile_eq) (use i mono in \<open>auto simp: not_less less_Suc_eq_le le_less\<close>)
  then show "index_of (Start (Excluded (fst (es ! i)))) es = Suc i" "index_of (After (fst (es ! i)) r) es = Suc i"
    by (simp_all add: index_of_def)
qed

lemma leaf_find_eq:
  assumes p: "shows_leaf p x es" and s: "sorted_wrt (<) (map fst es)"
  shows "i < length es \<Longrightarrow> fst (es ! i) = key \<Longrightarrow> leaf_find p key = Ok (Found i)"
    "key \<notin> fst ` set es \<Longrightarrow> leaf_find p key = Ok (InsertAt (index_of (Start (Included key)) es))"
proof -
  have d: "distinct (map fst es)" using s by (simp add: strict_sorted_iff)
  show "i < length es \<Longrightarrow> fst (es ! i) = key \<Longrightarrow> leaf_find p key = Ok (Found i)" by (rule leaf_find_shows(1) [OF p d])
  show "key \<notin> fst ` set es \<Longrightarrow> leaf_find p key = Ok (InsertAt (index_of (Start (Included key)) es))"
    using leaf_find_shows(2) [OF p d] by (simp add: index_of_def not_le)
qed

lemma index_of_absent:
  "key \<notin> fst ` set es \<Longrightarrow> index_of (Start (Excluded key)) es = index_of (Start (Included key)) es"
  "key \<notin> fst ` set es \<Longrightarrow> index_of (After key r) es = index_of (Start (Included key)) es"
proof -
  assume "key \<notin> fst ` set es"
  then have "takeWhile (\<lambda>e. \<not> key < fst e) es = takeWhile (\<lambda>e. \<not> key \<le> fst e) es"
    by (intro takeWhile_cong) (auto simp: le_less)
  then show "index_of (Start (Excluded key)) es = index_of (Start (Included key)) es"
    "index_of (After key r) es = index_of (Start (Included key)) es" by (simp_all add: index_of_def)
qed

lemma key_cases:
  obtains i where "i < length es" "fst (es ! i) = key" | "key \<notin> fst ` set es"
  by (metis image_iff in_set_conv_nth)

lemma run_bounds:
  assumes p: "shows_leaf p x es" and s: "sorted_wrt (<) (map fst es)" and i: "i < length es"
  shows "run_start p (fst (es ! i)) i = Ok i" "run_end p (fst (es ! i)) (length es) (Suc i) = Ok (Suc i)"
proof -
  have key: "leaf_key p j = Ok (fst (es ! j))" if "j < length es" for j using p that by (simp add: shows_leaf_def)
  show "run_start p (fst (es ! i)) i = Ok i"
    using key_unique [OF s] key i by (cases i) (auto simp: Suc_lessD)
  show "run_end p (fst (es ! i)) (length es) (Suc i) = Ok (Suc i)"
    using key_unique [OF s, of "Suc i" i] key i by (subst run_end.simps) auto
qed

lemma same_key_range_eq:
  assumes p: "shows_leaf p x es" and s: "sorted_wrt (<) (map fst es)"
  shows "same_key_range p key = Ok (index_of (Start (Included key)) es, index_of (After key r) es)"
proof (rule key_cases [of es key])
  fix i assume i: "i < length es" "fst (es ! i) = key"
  have "entry_count p = Ok (length es)" using p by (simp add: shows_leaf_def)
  then show ?thesis
    using leaf_find_eq(1) [OF p s i] run_bounds [OF p s i(1)] index_of_key [OF s i(1)] i(2)
    by (simp add: same_key_range_def)
next
  assume "key \<notin> fst ` set es"
  then show ?thesis using leaf_find_eq(2) [OF p s] index_of_absent(2) by (simp add: same_key_range_def)
qed

lemma index_of_le: "index_of pos es \<le> length es"
  by (simp add: index_of_def length_takeWhile_le)

lemma start_of_run_eq:
  assumes p: "shows_leaf p x es" and s: "sorted_wrt (<) (map fst es)" and i: "i \<le> length es"
  shows "start_of_run_containing p i = Ok i"
proof (cases "i < length es")
  case True
  then show ?thesis
    using p index_of_key [OF s True] same_key_range_eq [OF p s, of "fst (es ! i)" undefined]
    by (simp add: start_of_run_containing_def min_rid_index_after_def shows_leaf_def)
next
  case False
  with i p show ?thesis by (simp add: start_of_run_containing_def shows_leaf_def)
qed

text \<open>A position behind an entry knows that entry's record id.\<close>

definition position_ok :: "scan_position \<Rightarrow> leaf_entry list \<Rightarrow> bool" where
  "position_ok pos es \<longleftrightarrow> (case pos of Start b \<Rightarrow> True | After k r \<Rightarrow> (k, r) \<in> set es)"

lemma locate_eq:
  assumes p: "shows_leaf p x es" and s: "sorted_wrt (<) (map fst es)" and ok: "position_ok pos es"
  shows "locate_within_leaf p pos = Ok (index_of pos es)"
proof (cases pos)
  case (Start b)
  note run = start_of_run_eq [OF p s]
  have n: "entry_count p = Ok (length es)" using p by (simp add: shows_leaf_def)
  show ?thesis
  proof (cases b)
    case (Included k)
    have "physical_lower_bound_included p k = Ok (index_of pos es)"
    proof (rule key_cases [of es k])
      fix i assume i: "i < length es" "fst (es ! i) = k"
      then show ?thesis
        using leaf_find_eq(1) [OF p s i] run_bounds(1) [OF p s i(1)] index_of_key(1) [OF s i(1)] Start Included
        by (simp add: physical_lower_bound_included_def)
    next
      assume "k \<notin> fst ` set es"
      then show ?thesis using leaf_find_eq(2) [OF p s] Start Included by (simp add: physical_lower_bound_included_def)
    qed
    then show ?thesis using run index_of_le Start Included by simp
  next
    case (Excluded k)
    have "physical_lower_bound_excluded p k = Ok (index_of pos es)"
    proof (rule key_cases [of es k])
      fix i assume i: "i < length es" "fst (es ! i) = k"
      then show ?thesis
        using leaf_find_eq(1) [OF p s i] run_bounds(2) [OF p s i(1)] index_of_key(2) [OF s i(1)] Start Excluded n
        by (simp add: physical_lower_bound_excluded_def)
    next
      assume "k \<notin> fst ` set es"
      then show ?thesis
        using leaf_find_eq(2) [OF p s] index_of_absent(1) Start Excluded by (simp add: physical_lower_bound_excluded_def)
    qed
    then show ?thesis using run index_of_le Start Excluded by simp
  next
    case Unbounded
    then show ?thesis using run Start by (simp add: index_of_def takeWhile_eq_Nil_iff)
  qed
next
  case (After k r)
  then obtain i where i: "i < length es" "es ! i = (k, r)" using ok by (auto simp: position_ok_def in_set_conv_nth)
  then have "fst (es ! i) = k" by simp
  with index_of_key [OF s i(1)] have ix: "index_of (Start (Included k)) es = i" "index_of (After k r) es = Suc i" by auto
  have "leaf_record_id p i = Ok r" using p i by (simp add: shows_leaf_def)
  then have "min_rid_index_after p i (Suc i) (Some r) = Ok None" by (simp add: min_rid_index_after_def)
  then show ?thesis
    using same_key_range_eq [OF p s, of k r] start_of_run_eq [OF p s, of "Suc i"] i(1) After by (simp add: ix)
qed

subsection \<open>One step of a scan\<close>

definition decodable :: "data_type \<Rightarrow> leaf_entry list \<Rightarrow> bool" where
  "decodable kt es \<longleftrightarrow> (\<forall>e \<in> set es. \<exists>v. index_key kt v \<and> key_bytes v = fst e)"

definition decoded :: "data_type \<Rightarrow> leaf_entry \<Rightarrow> val \<times> record_id" where
  "decoded kt e = (case decode_key kt (fst e) of Ok v \<Rightarrow> (v, snd e) | _ \<Rightarrow> (VNull, snd e))"

lemma decode_decodable: "decodable kt es \<Longrightarrow> e \<in> set es \<Longrightarrow> decode_key kt (fst e) = Ok (fst (decoded kt e))"
proof -
  assume "decodable kt es" "e \<in> set es"
  then obtain v where "index_key kt v" "key_bytes v = fst e" by (auto simp: decodable_def)
  then have "decode_key kt (fst e) = Ok v" using decode_key_bytes by metis
  then show ?thesis by (simp add: decoded_def)
qed

lemma decoded_snd [simp]: "snd (decoded kt e) = snd e"
  by (auto simp: decoded_def split: outcome.splits)

definition unread :: "scan_position \<Rightarrow> leaf_entry list \<Rightarrow> leaf_entry list" where
  "unread pos es = filter (\<lambda>e. beyond pos (fst e)) es"

lemma unread_simps [simp]: "unread pos (as @ bs) = unread pos as @ unread pos bs" "unread pos [] = []"
  by (simp_all add: unread_def)

lemma unread_subset: "set (unread pos es) \<subseteq> set es"
  by (auto simp: unread_def)

lemma filter_suffix:
  "(\<And>i j. i < j \<Longrightarrow> j < length xs \<Longrightarrow> P (xs ! i) \<Longrightarrow> P (xs ! j)) \<Longrightarrow> filter P xs = dropWhile (\<lambda>x. \<not> P x) xs"
proof (induction xs)
  case (Cons x xs)
  show ?case
  proof (cases "P x")
    case True
    have "P (xs ! j)" if "j < length xs" for j using Cons.prems [of 0 "Suc j"] True that by simp
    then have "\<forall>y \<in> set xs. P y" by (auto simp: in_set_conv_nth)
    with True show ?thesis by simp
  next
    case False
    have "filter P xs = dropWhile (\<lambda>x. \<not> P x) xs" using Cons.prems [of "Suc _" "Suc _"] by (intro Cons.IH) auto
    with False show ?thesis by simp
  qed
qed simp

lemma unread_drop:
  assumes "sorted_wrt (<) (map fst es)"
  shows "unread pos es = drop (index_of pos es) es"
proof -
  have "fst (es ! i) < fst (es ! j)" if "i < j" "j < length es" for i j
    using sorted_wrt_nth_less [OF assms that(1)] that by simp
  then have "unread pos es = dropWhile (\<lambda>e. \<not> beyond pos (fst e)) es"
    unfolding unread_def by (intro filter_suffix) (meson beyond_mono less_imp_le)
  then show ?thesis by (simp add: index_of_def dropWhile_eq_drop)
qed

lemma scan_leaf_eq:
  assumes page: "leaf_page s i x es" and s: "sorted_wrt (<) (map fst es)" and ok: "position_ok pos es"
    and dec: "decodable (bt_key_type t) es"
  shows "scan_leaf t upper (s ! unat i) pos = Ok (case unread pos es of
      e # _ \<Rightarrow> if exceeds_upper upper (fst e) then Finished else Item (decoded (bt_key_type t) e) (After (fst e) (snd e))
    | [] \<Rightarrow> if x = NO_NEXT_LEAF then Finished else Continue x)"
proof -
  let ?p = "payload (s ! unat i)"
  have v: "leaf_valid page_len es" and img: "?p = leaf_image page_len x es" using page by (simp_all add: leaf_page_def)
  have sh: "shows_leaf ?p x es" unfolding img by (rule image_shows(1) [OF v])
  have base: "leaf_open ?p = Ok ()" "locate_within_leaf ?p pos = Ok (index_of pos es)" "entry_count ?p = Ok (length es)" "next_leaf ?p = Ok x"
    using leaf_open_image [OF v] locate_eq [OF sh s ok] sh by (simp_all add: img shows_leaf_def)
  show ?thesis
  proof (cases "index_of pos es < length es")
    case True
    let ?e = "es ! index_of pos es"
    have "unread pos es = ?e # drop (Suc (index_of pos es)) es"
      unfolding unread_drop [OF s] using True by (simp add: Cons_nth_drop_Suc)
    moreover have "leaf_key ?p (index_of pos es) = Ok (fst ?e)" "leaf_record_id ?p (index_of pos es) = Ok (snd ?e)"
      using sh True by (simp_all add: shows_leaf_def)
    moreover have "decode_key (bt_key_type t) (fst ?e) = Ok (fst (decoded (bt_key_type t) ?e))"
      using decode_decodable [OF dec] True by simp
    moreover have "(fst (decoded (bt_key_type t) ?e), snd ?e) = decoded (bt_key_type t) ?e" by (simp add: prod_eq_iff)
    ultimately show ?thesis using base True by (simp add: scan_leaf_def)
  next
    case False
    then have "unread pos es = []" unfolding unread_drop [OF s] by simp
    with base False show ?thesis by (simp add: scan_leaf_def)
  qed
qed

text \<open>The entries before a position that was passed on to the next leaf.\<close>

lemma unread_carried:
  assumes "position_ok pos es" "\<forall>e \<in> set es. \<forall>f \<in> set fs. fst e < fst f"
  shows "unread (carried pos) fs = unread pos fs"
proof (cases pos)
  case (After k r)
  then have "(k, r) \<in> set es" using assms(1) by (simp add: position_ok_def)
  then have "\<forall>f \<in> set fs. k < fst f" using assms(2) by (metis fst_conv)
  then show ?thesis unfolding unread_def After by (intro filter_cong) auto
qed simp

lemma scan_next_eq:
  assumes "linked (bt_pool t) ((i, es) # ls) NO_NEXT_LEAF" "\<forall>l \<in> set ((i, es) # ls). fst l \<noteq> NO_NEXT_LEAF"
    and "sorted_wrt (<) (map fst (entries_of ((i, es) # ls)))" and "position_ok pos es"
    and "decodable (bt_key_type t) (entries_of ((i, es) # ls))"
  shows "case unread pos (entries_of ((i, es) # ls)) of
      [] \<Rightarrow> scan_next t upper (Some (i, pos)) = Some (Ok (None, None))
    | e # _ \<Rightarrow>
        if exceeds_upper upper (fst e) then scan_next t upper (Some (i, pos)) = Some (Ok (None, None))
        else \<exists>pre j es' ls'. (i, es) # ls = pre @ (j, es') # ls' \<and> e \<in> set es'
          \<and> scan_next t upper (Some (i, pos)) = Some (Ok (Some (decoded (bt_key_type t) e), Some (j, After (fst e) (snd e))))"
  using assms
proof (induction ls arbitrary: i es pos)
  case Nil
  then have page: "leaf_page (bt_pool t) i NO_NEXT_LEAF es" by simp
  have "scan_next t upper (Some (i, pos)) = later (Some (scan_leaf t upper (bt_pool t ! unat i) pos)) (\<lambda>turn.
      case turn of Item x pos \<Rightarrow> Some (Ok (Some x, Some (i, pos))) | Finished \<Rightarrow> Some (Ok (None, None))
      | Continue j \<Rightarrow> scan_next t upper (Some (j, carried pos)))"
    using page by (subst scan_next.simps) (simp add: store_get_def leaf_page_def)
  also have "scan_leaf t upper (bt_pool t ! unat i) pos = Ok (case unread pos es of
      e # _ \<Rightarrow> if exceeds_upper upper (fst e) then Finished else Item (decoded (bt_key_type t) e) (After (fst e) (snd e))
    | [] \<Rightarrow> Finished)"
    using scan_leaf_eq [OF page _ Nil.prems(4), of t upper] Nil.prems by simp
  finally have step: "scan_next t upper (Some (i, pos)) = (case unread pos es of
      e # _ \<Rightarrow> if exceeds_upper upper (fst e) then Some (Ok (None, None))
        else Some (Ok (Some (decoded (bt_key_type t) e), Some (i, After (fst e) (snd e))))
    | [] \<Rightarrow> Some (Ok (None, None)))"
    by (simp split: list.splits)
  show ?case
  proof (cases "unread pos es")
    case (Cons e es')
    then have "e \<in> set es" using unread_subset [of pos es] by simp
    with step Cons show ?thesis by (simp add: exI [of _ "[]"])
  qed (simp add: step)
next
  case (Cons l ls)
  obtain j fs where l: "l = (j, fs)" by fastforce
  from Cons.prems l have page: "leaf_page (bt_pool t) i j es" and rest: "linked (bt_pool t) ((j, fs) # ls) NO_NEXT_LEAF" by simp_all
  have j: "j \<noteq> NO_NEXT_LEAF" using Cons.prems(2) l by simp
  have "sorted_wrt (<) (map fst es @ map fst (entries_of ((j, fs) # ls)))" using Cons.prems(3) l by simp
  then have sorted: "sorted_wrt (<) (map fst es)" "sorted_wrt (<) (map fst (entries_of ((j, fs) # ls)))"
    "\<forall>e \<in> set es. \<forall>f \<in> set (entries_of ((j, fs) # ls)). fst e < fst f"
    unfolding sorted_wrt_append [of _ "map fst es"] set_map by blast+
  have step: "scan_next t upper (Some (i, pos)) = later (Some (scan_leaf t upper (bt_pool t ! unat i) pos)) (\<lambda>turn.
      case turn of Item x pos \<Rightarrow> Some (Ok (Some x, Some (i, pos))) | Finished \<Rightarrow> Some (Ok (None, None))
      | Continue j \<Rightarrow> scan_next t upper (Some (j, carried pos)))"
    using page by (subst scan_next.simps) (simp add: store_get_def leaf_page_def)
  have turn: "scan_leaf t upper (bt_pool t ! unat i) pos = Ok (case unread pos es of
      e # _ \<Rightarrow> if exceeds_upper upper (fst e) then Finished else Item (decoded (bt_key_type t) e) (After (fst e) (snd e))
    | [] \<Rightarrow> Continue j)"
    using scan_leaf_eq [OF page sorted(1) Cons.prems(4), of t upper] Cons.prems(5) j by (simp add: decodable_def)
  show ?case
  proof (cases "unread pos es")
    case (Cons e es')
    then have "e \<in> set es" using unread_subset [of pos es] by simp
    with Cons step turn show ?thesis by (simp add: exI [of _ "[]"])
  next
    case Nil
    have next': "scan_next t upper (Some (i, pos)) = scan_next t upper (Some (j, carried pos))" using step turn Nil by simp
    have ok: "position_ok (carried pos) fs" by (cases pos) (simp_all add: position_ok_def)
    have same: "unread pos (entries_of ((i, es) # l # ls)) = unread (carried pos) (entries_of ((j, fs) # ls))"
      using Nil unread_carried [OF Cons.prems(4) sorted(3)] l by simp
    have d: "decodable (bt_key_type t) (entries_of ((j, fs) # ls))" using Cons.prems(5) l by (simp add: decodable_def)
    have ids: "\<forall>l \<in> set ((j, fs) # ls). fst l \<noteq> NO_NEXT_LEAF" using Cons.prems(2) l by simp
    note IH = Cons.IH [OF rest ids sorted(2) ok d]
    show ?thesis
    proof (cases "unread (carried pos) (entries_of ((j, fs) # ls))")
      case Nil
      with IH show ?thesis unfolding same next' by simp
    next
      case (Cons e r)
      show ?thesis
      proof (cases "exceeds_upper upper (fst e)")
        case True
        with IH Cons show ?thesis unfolding same next' by simp
      next
        case False
        with IH Cons obtain pre k es' ls' where "(j, fs) # ls = pre @ (k, es') # ls'" "e \<in> set es'"
          "scan_next t upper (Some (j, carried pos)) = Some (Ok (Some (decoded (bt_key_type t) e), Some (k, After (fst e) (snd e))))"
          by auto
        moreover from this(1) have "(i, es) # l # ls = ((i, es) # pre) @ (k, es') # ls'" using l by simp
        ultimately show ?thesis unfolding same next' Cons using False by (simp del: append_Cons) blast
      qed
    qed
  qed
qed

subsection \<open>The whole scan\<close>

lemma unread_after:
  assumes s: "sorted_wrt (<) (map fst es)" and e: "unread pos es = e # rest"
  shows "unread (After (fst e) r) es = rest"
proof -
  let ?n = "index_of pos es"
  have d: "drop ?n es = e # rest" using e unread_drop [OF s] by metis
  then have n: "?n < length es" by (metis drop_eq_Nil leI list.distinct(1))
  then have "es ! ?n = e" "drop (Suc ?n) es = rest" using d by (simp_all add: Cons_nth_drop_Suc [symmetric])
  with index_of_key(3) [OF s n] show ?thesis by (simp add: unread_drop [OF s])
qed

lemma collect_scan_eq:
  assumes "linked (bt_pool t) ((i, es) # ls) NO_NEXT_LEAF" "\<forall>l \<in> set ((i, es) # ls). fst l \<noteq> NO_NEXT_LEAF"
    and "sorted_wrt (<) (map fst (entries_of ((i, es) # ls)))" and "position_ok pos es"
    and "decodable (bt_key_type t) (entries_of ((i, es) # ls))"
  shows "collect_scan t upper (Some (i, pos)) = Some (Ok (map (decoded (bt_key_type t))
    (takeWhile (\<lambda>e. \<not> exceeds_upper upper (fst e)) (unread pos (entries_of ((i, es) # ls))))))"
  using assms
proof (induction "unread pos (entries_of ((i, es) # ls))" arbitrary: i es ls pos)
  case Nil
  have "scan_next t upper (Some (i, pos)) = Some (Ok (None, None))"
    using scan_next_eq [OF Nil.prems, of upper] unfolding Nil.hyps [symmetric] by simp
  then show ?case using Nil.hyps by (subst collect_scan.simps) simp
next
  case (Cons e rest)
  note scan = scan_next_eq [OF Cons.prems, of upper, folded Cons.hyps(2)]
  show ?case
  proof (cases "exceeds_upper upper (fst e)")
    case True
    then show ?thesis using scan unfolding Cons.hyps(2) [symmetric] by (subst collect_scan.simps) simp
  next
    case False
    with scan obtain pre j es' ls' where split: "(i, es) # ls = pre @ (j, es') # ls'" and e: "e \<in> set es'"
      and step: "scan_next t upper (Some (i, pos)) = Some (Ok (Some (decoded (bt_key_type t) e), Some (j, After (fst e) (snd e))))"
      by auto
    let ?tail = "(j, es') # ls'"
    have all: "entries_of ((i, es) # ls) = entries_of pre @ entries_of ?tail" unfolding split by (rule c_simps)
    have "linked (bt_pool t) ?tail NO_NEXT_LEAF" using Cons.prems(1) unfolding split linked_append by blast
    moreover have "\<forall>l \<in> set ?tail. fst l \<noteq> NO_NEXT_LEAF" using Cons.prems(2) unfolding split by simp
    moreover have sorted: "sorted_wrt (<) (map fst (entries_of pre) @ map fst (entries_of ?tail))"
      using Cons.prems(3) unfolding all by simp
    then have "sorted_wrt (<) (map fst (entries_of ?tail))" unfolding sorted_wrt_append by blast
    moreover have "position_ok (After (fst e) (snd e)) es'" using e by (simp add: position_ok_def)
    moreover have "decodable (bt_key_type t) (entries_of ?tail)" using Cons.prems(5) unfolding all decodable_def by auto
    moreover have rest: "rest = unread (After (fst e) (snd e)) (entries_of ?tail)"
    proof -
      have "unread (After (fst e) (snd e)) (entries_of ((i, es) # ls)) = rest"
        by (rule unread_after [OF Cons.prems(3) Cons.hyps(2) [symmetric]])
      moreover have "fst x < fst e" if "x \<in> set (entries_of pre)" for x
        using sorted that e unfolding sorted_wrt_append by simp
      then have "unread (After (fst e) (snd e)) (entries_of pre) = []" unfolding unread_def
        by (auto simp: filter_empty_conv dest: less_asym)
      ultimately show ?thesis unfolding all by simp
    qed
    ultimately have "collect_scan t upper (Some (j, After (fst e) (snd e))) = Some (Ok (map (decoded (bt_key_type t))
        (takeWhile (\<lambda>e. \<not> exceeds_upper upper (fst e)) rest)))"
      using Cons.hyps(1) [OF rest] by simp
    then show ?thesis
      unfolding Cons.hyps(2) [symmetric] using step False by (subst collect_scan.simps) simp
  qed
qed

subsection \<open>Descending to a leaf\<close>

lemma descend_eq:
  assumes pick: "\<And>p x fs. shows_internal p x fs \<Longrightarrow> pick p = Ok (nth_child x fs (length (takeWhile P (map fst fs))))"
    and down: "\<And>k x. P k \<Longrightarrow> x < k \<Longrightarrow> P x"
  shows "forest s l u [(k, t)] nx \<Longrightarrow>
    \<exists>pre i es ls. g_leaves t = pre @ (i, es) # ls \<and> descend pick s (gid t) = Some (Ok i)
      \<and> (\<forall>e \<in> set (entries_of pre). P (fst e))"
proof (induction t arbitrary: k l u nx)
  case (GLeaf i es)
  then have "leaf_page s i nx es" by (simp add: forest_leaf)
  then have "descend pick s i = Some (Ok i)" by (subst descend.simps) (auto dest!: leaf_page_get)
  then show ?case by - (rule exI [of _ "[]"], rule exI [of _ i], rule exI [of _ es], rule exI [of _ "[]"], simp)
next
  case (GNode i cs)
  then have page: "internal_page s i (first_child cs) (child_links cs)" and f: "forest s l u cs nx"
    by (simp_all add: forest_node)
  obtain as kc bs where cs: "cs = as @ kc # bs" and low: "as \<noteq> [] \<longrightarrow> P (fst kc)"
    and child: "nth_child (first_child cs) (child_links cs) (length (takeWhile P (map fst (child_links cs)))) = gid (snd kc)"
    by (rule child_split [OF forest_not_Nil [OF f], of P]) metis
  have v: "internal_valid page_len (child_links cs)" using page by (simp add: internal_page_def)
  have step: "descend pick s i = descend pick s (gid (snd kc))"
    using internal_page_get [OF page] pick [OF image_shows(2) [OF v]] child
    by (subst descend.simps) (auto simp: open_internal_def internal_open_image)
  have "kc \<in> set cs" "snd kc \<in> Basic_BNFs.snds kc" by (simp add: cs) (cases kc, auto simp: snds.simps)
  then obtain pre j es ls where sub: "g_leaves (snd kc) = pre @ (j, es) # ls" "descend pick s (gid (snd kc)) = Some (Ok j)"
    "\<forall>e \<in> set (entries_of pre). P (fst e)"
    using GNode.IH forest_child [of s l u as kc bs nx] f by (metis cs prod.collapse)
  have "P (fst e)" if e: "e \<in> set (entries_of (c_leaves as))" for e
  proof -
    have "as \<noteq> []" using e by auto
    then have "ordered_children l (Some (fst kc)) as" using f by (simp add: forest_def cs ordered_children_append)
    then have "below (fst e) (Some (fst kc))" using entries_sorted(2) e by blast
    then show ?thesis using down low \<open>as \<noteq> []\<close> by (simp add: below_def)
  qed
  with sub(3) have "\<forall>e \<in> set (entries_of (c_leaves as @ pre)). P (fst e)" by auto
  moreover have "g_leaves (GNode i cs) = (c_leaves as @ pre) @ (j, es) # (ls @ c_leaves bs)" using sub(1) by (simp add: cs)
  ultimately show ?case using step sub(2) by (metis gid.simps(2))
qed

end
