(* ===== verification/Btree_Index.thy ===== *)
theory Btree_Index
  imports Btree_Scan
begin

text \<open>
  A unique index as a whole: the pages of a \<open>btree\<close> represent a finite map from keys to record ids, and
  creation, lookup, range scan, insertion and deletion are the operations of that map.
\<close>

subsection \<open>The invariant\<close>

abbreviation entries :: "ghost \<Rightarrow> leaf_entry list" where
  "entries g \<equiv> entries_of (g_leaves g)"

definition index_inv :: "btree \<Rightarrow> ghost \<Rightarrow> bool" where
  "index_inv t g \<longleftrightarrow> bt_unique t \<and> forest (bt_pool t) None None [([], g)] NO_NEXT_LEAF \<and> gid g = bt_root t
     \<and> META_PAGE_ID \<notin> set (g_ids g) \<and> decodable (bt_key_type t) (entries g) \<and> btree_open (bt_pool t) = Ok t"

lemma index_inv_parts:
  assumes "index_inv t g"
  shows "shape (bt_pool t) g" "linked (bt_pool t) (g_leaves g) NO_NEXT_LEAF" "ordered None None g"
    "sorted_wrt (<) (map fst (entries g))" "\<forall>l \<in> set (g_leaves g). fst l \<noteq> NO_NEXT_LEAF" "distinct (g_ids g)"
proof -
  have f: "forest (bt_pool t) None None [([], g)] NO_NEXT_LEAF" using assms by (simp add: index_inv_def)
  then show "shape (bt_pool t) g" "linked (bt_pool t) (g_leaves g) NO_NEXT_LEAF" "ordered None None g" "distinct (g_ids g)"
    by (simp_all add: forest_def)
  then show "sorted_wrt (<) (map fst (entries g))" using entries_sorted(1) by blast
  show "\<forall>l \<in> set (g_leaves g). fst l \<noteq> NO_NEXT_LEAF"
    using f leaf_ids [of g] by (auto simp: forest_def NO_NEXT_LEAF_def)
qed

text \<open>The map that the pages hold.\<close>

definition represents :: "btree \<Rightarrow> (val \<Rightarrow> record_id option) \<Rightarrow> bool" where
  "represents t m \<longleftrightarrow> (\<exists>g. index_inv t g
     \<and> (\<forall>v. m v = (if index_key (bt_key_type t) v then map_of (entries g) (key_bytes v) else None)))"

lemma distinct_keys: "sorted_wrt (<) (map fst es) \<Longrightarrow> distinct (map fst es)" for es :: "leaf_entry list"
  by (simp add: strict_sorted_iff)

lemma map_of_entry:
  assumes "index_inv t g"
  shows "map_of (entries g) k = Some r \<longleftrightarrow> (k, r) \<in> set (entries g)"
  using distinct_keys [OF index_inv_parts(4) [OF assms]] by (rule map_of_eq_Some_iff)

subsection \<open>Range scans\<close>

lemma seek_start:
  assumes inv: "index_inv t g"
  shows "\<exists>pre i es ls. g_leaves g = pre @ (i, es) # ls \<and> seek_leaf t (Start b) = Some (Ok i)
    \<and> (\<forall>e \<in> set (entries_of pre). \<not> beyond (Start b) (fst e))"
proof -
  have f: "forest (bt_pool t) None None [([], g)] NO_NEXT_LEAF" and root: "gid g = bt_root t"
    using inv by (simp_all add: index_inv_def)
  define pick where "pick = (case b of Unbounded \<Rightarrow> leftmost_child | Included k \<Rightarrow> (\<lambda>p. child_for_lower_bound p k)
    | Excluded k \<Rightarrow> (\<lambda>p. child_for p k))"
  have "pick p = Ok (nth_child x fs (length (takeWhile (\<lambda>k. \<not> beyond (Start b) k) (map fst fs))))"
    if sh: "shows_internal p x fs" for p x fs
    using child_for_shows [OF sh] sh takeWhile_eq_Nil_iff [of "\<lambda>k. False" "map fst fs"]
    by (cases b) (simp_all add: pick_def not_le not_less shows_internal_def nth_child_def)
  moreover have "\<not> beyond (Start b) k \<Longrightarrow> x < k \<Longrightarrow> \<not> beyond (Start b) x" for k x
    using beyond_mono [of "Start b" x k] less_imp_le by blast
  ultimately obtain pre i es ls where "g_leaves g = pre @ (i, es) # ls" "descend pick (bt_pool t) (gid g) = Some (Ok i)"
    "\<forall>e \<in> set (entries_of pre). \<not> beyond (Start b) (fst e)"
    using descend_eq [of pick "\<lambda>k. \<not> beyond (Start b) k", OF _ _ f] by blast
  moreover have "seek_leaf t (Start b) = descend pick (bt_pool t) (gid g)"
    unfolding root by (cases b) (simp_all add: leftmost_leaf_def find_leaf_def find_leaf_for_lower_bound_def pick_def)
  ultimately show ?thesis by auto
qed

lemma exceeds_mono: "exceeds_upper u j \<Longrightarrow> j \<le> k \<Longrightarrow> exceeds_upper u k"
  by (cases u) auto

lemma takeWhile_filter_sorted:
  "sorted_wrt (<) (map fst es) \<Longrightarrow>
   takeWhile (\<lambda>e. \<not> exceeds_upper u (fst e)) es = filter (\<lambda>e. \<not> exceeds_upper u (fst e)) es" for es :: "leaf_entry list"
proof (induction es)
  case (Cons e es)
  show ?case
  proof (cases "exceeds_upper u (fst e)")
    case True
    then have "\<forall>f \<in> set es. exceeds_upper u (fst f)" using Cons.prems exceeds_mono less_imp_le by fastforce
    with True show ?thesis by (simp add: filter_empty_conv)
  qed (use Cons in simp)
qed simp

lemma range_all_eq:
  assumes inv: "index_inv t g" and l: "encode_bound t lower = Ok lb" and u: "encode_bound t upper = Ok ub"
  shows "btree_range_all t lower upper = Some (Ok (map (decoded (bt_key_type t))
    (filter (\<lambda>e. beyond (Start lb) (fst e) \<and> \<not> exceeds_upper ub (fst e)) (entries g))))"
proof -
  obtain pre i es ls where split: "g_leaves g = pre @ (i, es) # ls" and seek: "seek_leaf t (Start lb) = Some (Ok i)"
    and before: "\<forall>e \<in> set (entries_of pre). \<not> beyond (Start lb) (fst e)"
    using seek_start [OF inv] by blast
  let ?tail = "(i, es) # ls"
  note parts = index_inv_parts [OF inv, unfolded split]
  have all: "entries g = entries_of pre @ entries_of ?tail" unfolding split by (rule c_simps)
  have sorted: "sorted_wrt (<) (map fst (entries_of ?tail))"
    using index_inv_parts(4) [OF inv] unfolding all map_append sorted_wrt_append by blast
  have sorted': "sorted_wrt (<) (map fst (unread (Start lb) (entries_of ?tail)))"
    unfolding unread_drop [OF sorted] drop_map [symmetric] by (rule sorted_wrt_drop [OF sorted])
  have "collect_scan t ub (Some (i, Start lb)) = Some (Ok (map (decoded (bt_key_type t))
      (takeWhile (\<lambda>e. \<not> exceeds_upper ub (fst e)) (unread (Start lb) (entries_of ?tail)))))"
  proof (rule collect_scan_eq)
    show "linked (bt_pool t) ?tail NO_NEXT_LEAF" using parts(2) by (simp only: linked_append)
    show "\<forall>l \<in> set ?tail. fst l \<noteq> NO_NEXT_LEAF" using parts(5) by simp
    show "position_ok (Start lb) es" by (simp add: position_ok_def)
    show "decodable (bt_key_type t) (entries_of ?tail)" using inv unfolding index_inv_def all decodable_def by auto
  qed (fact sorted)
  also have "takeWhile (\<lambda>e. \<not> exceeds_upper ub (fst e)) (unread (Start lb) (entries_of ?tail))
      = filter (\<lambda>e. beyond (Start lb) (fst e) \<and> \<not> exceeds_upper ub (fst e)) (entries_of ?tail)"
    unfolding takeWhile_filter_sorted [OF sorted'] by (simp add: unread_def conj_commute)
  also have "\<dots> = filter (\<lambda>e. beyond (Start lb) (fst e) \<and> \<not> exceeds_upper ub (fst e)) (entries g)"
    unfolding all using before by (auto simp: filter_empty_conv)
  finally show ?thesis by (simp add: btree_range_all_def btree_range_def l u seek)
qed

lemma lookup_eq:
  assumes inv: "index_inv t g" and v: "index_key (bt_key_type t) v"
  shows "btree_lookup t v = Some (Ok (case map_of (entries g) (key_bytes v) of None \<Rightarrow> [] | Some r \<Rightarrow> [r]))"
proof -
  have b: "encode_bound t (Included v) = Ok (Included (key_bytes v))"
    using v by (simp add: check_key_type_def index_key_def encode_key_bytes)
  have filter_key: "filter (\<lambda>e. fst e = key_bytes v) es = (case map_of es (key_bytes v) of None \<Rightarrow> [] | Some r \<Rightarrow> [(key_bytes v, r)])"
    if "distinct (map fst es)" for es :: "leaf_entry list"
    using that by (induction es) (auto simp: filter_empty_conv rev_image_eqI split: option.splits)
  have eq: "beyond (Start (Included (key_bytes v))) k \<and> \<not> exceeds_upper (Included (key_bytes v)) k \<longleftrightarrow> k = key_bytes v" for k
    by auto
  from filter_key [OF distinct_keys [OF index_inv_parts(4) [OF inv]]]
  have "filter (\<lambda>e. beyond (Start (Included (key_bytes v))) (fst e) \<and> \<not> exceeds_upper (Included (key_bytes v)) (fst e)) (entries g)
      = (case map_of (entries g) (key_bytes v) of None \<Rightarrow> [] | Some r \<Rightarrow> [(key_bytes v, r)])"
    unfolding eq by simp
  then show ?thesis
    using range_all_eq [OF inv b b] by (simp add: btree_lookup_def split: option.splits)
qed

subsection \<open>Insertion\<close>

lemma map_of_insert:
  fixes es fs :: "leaf_entry list"
  assumes es: "sorted_wrt (<) (map fst es)" and fs: "sorted_wrt (<) (map fst fs)"
    and set: "set fs = insert (k, r) (set es)" and new: "k \<notin> fst ` set es"
  shows "map_of fs = (map_of es)(k \<mapsto> r)"
proof (rule ext)
  fix j
  have in_fs: "map_of fs j = Some q \<longleftrightarrow> (j, q) \<in> set fs" and in_es: "map_of es j = Some q \<longleftrightarrow> (j, q) \<in> set es" for q
    using distinct_keys [OF es] distinct_keys [OF fs] by (simp_all add: map_of_eq_Some_iff)
  show "map_of fs j = ((map_of es)(k \<mapsto> r)) j"
  proof (cases "j = k")
    case True
    then show ?thesis using in_fs [of r] set by simp
  next
    case False
    then have "map_of fs j = Some q \<longleftrightarrow> map_of es j = Some q" for q using in_fs in_es set by simp
    then show ?thesis using False by (metis fun_upd_other not_Some_eq)
  qed
qed

lemma open_frame:
  assumes "btree_open s = Ok t" "frame s P s'" "META_PAGE_ID \<notin> P"
  shows "btree_open s' = Ok (t\<lparr>bt_pool := s'\<rparr>)"
proof -
  have "unat META_PAGE_ID < length s"
    using assms(1) by (auto simp: btree_open_def store_get_def split: if_splits)
  moreover have "unat META_PAGE_ID \<notin> unat ` P" using assms(3) by (metis image_iff unsigned_word_eqI)
  ultimately have "store_get s' META_PAGE_ID = store_get s META_PAGE_ID" using assms(2) by (simp add: frame_def store_get_def)
  with assms(1) show ?thesis by (auto simp: btree_open_def and_then_Ok_iff Let_def split: if_splits intro: exI [of _ 0])
qed

lemma insert_pages:
  assumes inv: "index_inv t g" and new: "key \<notin> fst ` set (entries g)" and len: "length key \<le> max_key_len"
    and room: "2 * length (bt_pool t) + 1 < 2 ^ 64"
  shows "\<exists>leaf anc s' g'. insert_descend (bt_pool t) key rid (bt_root t) [] = Some (Ok (leaf, anc))
    \<and> run_then (insert_into_leaf leaf key rid (bt_pool t)) (\<lambda>p s. propagate leaf anc p s) = (Ok (), s')
    \<and> forest s' None None [([], g')] NO_NEXT_LEAF \<and> gid g' = bt_root t
    \<and> set (entries g') = insert (key, rid) (set (entries g))
    \<and> frame (bt_pool t) (set (g_ids g)) s' \<and> set (g_ids g') \<subseteq> set (g_ids g) \<union> {i. length (bt_pool t) \<le> unat i}"
proof -
  let ?s = "bt_pool t"
  have f: "forest ?s None None [([], g)] NO_NEXT_LEAF" and root: "gid g = bt_root t" using inv by (simp_all add: index_inv_def)
  have ids: "length (g_ids g) \<le> length ?s"
  proof -
    have "inj_on unat (set (g_ids g))" by (meson inj_onI unsigned_word_eqI)
    then have "length (g_ids g) = card (unat ` set (g_ids g))"
      using index_inv_parts(6) [OF inv] by (simp add: card_image distinct_card)
    also have "\<dots> \<le> card {..<length ?s}"
      using forest_ids [OF f] by (intro card_mono) auto
    finally show ?thesis by simp
  qed
  then have room': "length ?s + length (g_ids g) < 2 ^ 64" using room by linarith
  obtain leaf anc p s1 where d: "insert_descend ?s key rid (gid g) [] = Some (Ok (leaf, anc))"
    and run: "run_then (insert_into_leaf leaf key rid ?s) (\<lambda>p s. propagate leaf anc p s) = propagate (gid g) [] p s1"
    and g: "grown ?s None None NO_NEXT_LEAF [] g (key, rid) p s1"
    using insert_tree [OF f _ _ new len room', of rid "[]"] by (auto simp: above_def below_def)
  from g obtain t1 rest where g1: "forest s1 None None (([], t1) # rest) NO_NEXT_LEAF" "gid t1 = gid g"
    "set (entries_of (c_leaves (([], t1) # rest))) = insert (key, rid) (set (entries g))"
    "set (c_ids (([], t1) # rest)) \<subseteq> set (g_ids g) \<union> {i. length ?s \<le> unat i}"
    "frame ?s (set (g_ids g)) s1" "length s1 \<le> length ?s + length (g_ids g)"
    "case p of None \<Rightarrow> rest = [] | Some (sep, new) \<Rightarrow> length sep \<le> max_key_len \<and> (\<exists>t2. rest = [(sep, t2)] \<and> gid t2 = new)"
    unfolding grown_def by blast
  show ?thesis
  proof (cases p)
    case None
    with d run g1 root show ?thesis by (intro exI [of _ leaf] exI [of _ anc] exI [of _ s1] exI [of _ t1]) simp
  next
    case (Some sn)
    then obtain sep t2 where p: "p = Some (sep, gid t2)" and sep: "length sep \<le> max_key_len" and rest: "rest = [(sep, t2)]"
      using g1(7) by (cases sn) auto
    have room1: "length s1 < 2 ^ 64" using g1(6) room' by linarith
    obtain s2 g2 where grow: "grow_new_root (gid t1) sep (gid t2) s1 = (Ok (), s2)" "forest s2 None None [([], g2)] NO_NEXT_LEAF"
      "gid g2 = gid t1" "entries g2 = entries t1 @ entries t2"
      "set (g_ids g2) \<subseteq> set (g_ids t1) \<union> set (g_ids t2) \<union> {i. length s1 \<le> unat i}" "frame s1 {gid t1} s2"
      using grow_new_root_forest [OF g1(1) [unfolded rest] sep room1] by blast
    have "frame ?s (set (g_ids g)) s2"
      by (rule frame_trans [OF g1(5) grow(6) order_refl]) (simp add: g1(2))
    moreover have "length ?s \<le> length s1" using g1(5) by (simp add: frame_def)
    then have "set (g_ids g2) \<subseteq> set (g_ids g) \<union> {i. length ?s \<le> unat i}" using grow(5) g1(4) rest by auto
    ultimately show ?thesis
      using d run grow g1(2,3) root rest p by (intro exI [of _ leaf] exI [of _ anc] exI [of _ s2] exI [of _ g2]) simp
  qed
qed

lemma insert_index:
  assumes inv: "index_inv t g" and v: "index_key (bt_key_type t) v" and new: "map_of (entries g) (key_bytes v) = None"
    and len: "length (key_bytes v) \<le> max_key_len" and room: "2 * length (bt_pool t) + 1 < 2 ^ 64"
  shows "\<exists>s' g'. btree_insert t v rid = Some (Ok (), s') \<and> index_inv (t\<lparr>bt_pool := s'\<rparr>) g'
    \<and> map_of (entries g') = (map_of (entries g))(key_bytes v \<mapsto> rid)"
proof -
  let ?k = "key_bytes v"
  have absent: "?k \<notin> fst ` set (entries g)" using new by (simp add: map_of_eq_None_iff)
  have meta: "META_PAGE_ID \<notin> set (g_ids g)" and dec: "decodable (bt_key_type t) (entries g)" and op: "btree_open (bt_pool t) = Ok t"
    and uniq: "bt_unique t" using inv by (simp_all add: index_inv_def)
  obtain leaf anc s' g' where ins: "insert_descend (bt_pool t) ?k rid (bt_root t) [] = Some (Ok (leaf, anc))"
    "run_then (insert_into_leaf leaf ?k rid (bt_pool t)) (\<lambda>p s. propagate leaf anc p s) = (Ok (), s')"
    and g': "forest s' None None [([], g')] NO_NEXT_LEAF" "gid g' = bt_root t" "set (entries g') = insert (?k, rid) (set (entries g))"
    and fr: "frame (bt_pool t) (set (g_ids g)) s'" and ids: "set (g_ids g') \<subseteq> set (g_ids g) \<union> {i. length (bt_pool t) \<le> unat i}"
    using insert_pages [OF inv absent len room, of rid] by blast
  have "btree_insert t v rid = Some (Ok (), s')"
    using lookup_eq [OF inv v] new v len ins
    by (simp add: btree_insert_def insert_plan_def check_key_type_def index_key_def encode_key_bytes)
  moreover have "index_inv (t\<lparr>bt_pool := s'\<rparr>) g'"
  proof -
    have "unat META_PAGE_ID < length (bt_pool t)"
      using op by (auto simp: btree_open_def store_get_def split: if_splits)
    then have "META_PAGE_ID \<notin> set (g_ids g')" using ids meta by auto
    moreover have "decodable (bt_key_type t) (entries g')" using dec v unfolding decodable_def g'(3) by auto
    ultimately show ?thesis using g' uniq open_frame [OF op fr meta] by (simp add: index_inv_def)
  qed
  moreover have "sorted_wrt (<) (map fst (entries g'))"
    using index_inv_parts(4) [OF \<open>index_inv (t\<lparr>bt_pool := s'\<rparr>) g'\<close>] .
  then have "map_of (entries g') = (map_of (entries g))(?k \<mapsto> rid)"
    by (rule map_of_insert [OF index_inv_parts(4) [OF inv] _ g'(3) absent])
  ultimately show ?thesis by blast
qed

lemma insert_duplicate:
  assumes inv: "index_inv t g" and v: "index_key (bt_key_type t) v" and old: "map_of (entries g) (key_bytes v) = Some r"
  shows "btree_insert t v rid = Some (Err BTreeUniqueViolation, bt_pool t)"
  using lookup_eq [OF inv v] old v inv
  by (simp add: btree_insert_def insert_plan_def check_key_type_def index_key_def index_inv_def)

subsection \<open>Deletion\<close>

text \<open>Replacing the entries of one leaf.\<close>

fun g_set :: "page_no \<Rightarrow> leaf_entry list \<Rightarrow> ghost \<Rightarrow> ghost" where
  "g_set j fs (GLeaf i es) = GLeaf i (if i = j then fs else es)"
| "g_set j fs (GNode i cs) = GNode i (map (\<lambda>kc. (fst kc, g_set j fs (snd kc))) cs)"

lemma g_set_ids [simp]: "gid (g_set j fs t) = gid t" "g_ids (g_set j fs t) = g_ids t"
proof -
  show gid: "gid (g_set j fs t) = gid t" for t by (cases t) simp_all
  show "g_ids (g_set j fs t) = g_ids t"
  proof (induction t)
    case (GNode i cs)
    then have "map (\<lambda>kc. g_ids (g_set j fs (snd kc))) cs = map (\<lambda>kc. g_ids (snd kc)) cs"
      by (intro map_cong) (auto simp: snds.simps)
    then show ?case by (simp add: c_ids_def comp_def del: map_eq_conv)
  qed simp
qed

lemma g_set_leaves: "g_leaves (g_set j fs t) = map (\<lambda>(i, es). (i, if i = j then fs else es)) (g_leaves t)"
proof (induction t)
  case (GNode i cs)
  then have "map (\<lambda>kc. g_leaves (g_set j fs (snd kc))) cs
      = map (\<lambda>kc. map (\<lambda>(i, es). (i, if i = j then fs else es)) (g_leaves (snd kc))) cs"
    by (intro map_cong) (auto simp: snds.simps)
  then show ?case by (simp add: c_leaves_def comp_def map_concat del: map_eq_conv)
qed simp

lemma g_set_shape: "shape s (g_set j fs t) = shape s t"
proof (induction t)
  case (GNode i cs)
  have "child_links (map (\<lambda>kc. (fst kc, g_set j fs (snd kc))) cs) = child_links cs"
    by (simp add: child_links_def map_tl [symmetric] comp_def case_prod_unfold)
  moreover have "first_child (map (\<lambda>kc. (fst kc, g_set j fs (snd kc))) cs) = first_child cs" if "cs \<noteq> []"
    using that by (simp add: first_child_def hd_map)
  moreover have "first_child (map (\<lambda>kc. (fst kc, g_set j fs (snd kc))) cs) = first_child cs" if "cs = []"
    using that by simp
  ultimately show ?case using GNode by (fastforce simp: snds.simps)
qed simp

lemma g_set_ordered:
  "ordered l u t \<Longrightarrow> \<forall>e \<in> set (g_leaves t). fst e = j \<longrightarrow> set fs \<subseteq> set (snd e) \<Longrightarrow> sorted_wrt (<) (map fst fs) \<Longrightarrow>
   ordered l u (g_set j fs t)"
  "ordered_children l u cs \<Longrightarrow> \<forall>e \<in> set (c_leaves cs). fst e = j \<longrightarrow> set fs \<subseteq> set (snd e) \<Longrightarrow> sorted_wrt (<) (map fst fs) \<Longrightarrow>
   ordered_children l u (map (\<lambda>kc. (fst kc, g_set j fs (snd kc))) cs)"
  by (induction l u t and l u cs rule: ordered_ordered_children.induct) (auto simp: subset_iff)

lemma linked_update:
  assumes "linked s ls nx" "frame s {j} s'" "\<And>x es. leaf_page s j x es \<Longrightarrow> (j, es) \<in> set ls \<Longrightarrow> leaf_page s' j x fs"
  shows "linked s' (map (\<lambda>(i, es). (i, if i = j then fs else es)) ls) nx"
  using assms
proof (induction ls)
  case (Cons l ls)
  obtain i es where l: "l = (i, es)" by fastforce
  have first: "first_id (map (\<lambda>(i, es). (i, if i = j then fs else es)) ls) nx = first_id ls nx"
    by (cases ls) (auto split: prod.splits)
  have "leaf_page s i (first_id ls nx) es" using Cons.prems(1) l by simp
  then have "leaf_page s' i (first_id ls nx) (if i = j then fs else es)"
    using Cons.prems(2,3) l frame_page(1) [of s "{j}" s' i] by auto
  with Cons first l show ?case by simp
qed simp

lemma position_entry:
  "(k, r) \<in> set es \<Longrightarrow> distinct (map fst es) \<Longrightarrow>
   \<exists>i. position (\<lambda>(a, b). a = k \<and> b = r) es = Some i \<and> take i es @ drop (i + 1) es = filter (\<lambda>e. fst e \<noteq> k) es"
proof (induction es)
  case (Cons e es)
  show ?case
  proof (cases "e = (k, r)")
    case True
    then have "filter (\<lambda>e. fst e \<noteq> k) es = es" using Cons.prems(2) by (auto simp: filter_id_conv rev_image_eqI)
    with True show ?thesis by simp
  next
    case False
    then obtain i where "position (\<lambda>(a, b). a = k \<and> b = r) es = Some i" "take i es @ drop (i + 1) es = filter (\<lambda>e. fst e \<noteq> k) es"
      using Cons by auto
    moreover have "fst e \<noteq> k" using Cons.prems False by (auto simp: rev_image_eqI)
    ultimately show ?thesis using False by (auto split: prod.splits)
  qed
qed simp

lemma last_key_bound:
  fixes es fs :: "leaf_entry list"
  assumes s: "sorted_wrt (<) (map fst (es @ fs))" and l: "es \<noteq> []" "\<not> fst (last es) \<le> k"
  shows "(k, r) \<notin> set fs"
proof
  assume "(k, r) \<in> set fs"
  moreover have "\<forall>e \<in> set es. \<forall>f \<in> set fs. fst e < fst f" using s by (simp add: sorted_wrt_append)
  ultimately have "fst (last es) < k" using last_in_set [OF l(1)] by (metis fst_conv)
  with l(2) show False by simp
qed

lemma delete_hit:
  assumes page: "leaf_page s i x es" and s: "sorted_wrt (<) (map fst es)" and e: "(k, r) \<in> set es"
  shows "delete_loop s k r i es nl = Some (Ok (True, write_payload s i (leaf_image page_len x (filter (\<lambda>e. fst e \<noteq> k) es))))"
proof -
  from position_entry [OF e distinct_keys [OF s]] obtain n where n: "position (\<lambda>(a, b). a = k \<and> b = r) es = Some n"
    "take n es @ drop (n + 1) es = filter (\<lambda>e. fst e \<noteq> k) es" by blast
  have "mset (map fst (filter (\<lambda>e. fst e \<noteq> k) es)) \<subseteq># mset (map fst es)"
    by (simp add: image_mset_subseteq_mono)
  moreover have "leaf_entries_fit page_len es" using page by (simp add: leaf_page_def leaf_valid_def)
  ultimately have "leaf_entries_fit page_len (filter (\<lambda>e. fst e \<noteq> k) es)" by (rule fit_mono(1))
  from write_leaf_page [OF page this] n show ?thesis by (subst delete_loop.simps) simp
qed

lemma delete_loop_eq:
  assumes "linked s ((i, es) # ls) NO_NEXT_LEAF" "\<forall>l \<in> set ((i, es) # ls). fst l \<noteq> NO_NEXT_LEAF"
    and "sorted_wrt (<) (map fst (entries_of ((i, es) # ls)))"
  shows "if (k, r) \<in> set (entries_of ((i, es) # ls))
    then \<exists>j fs x. (j, fs) \<in> set ((i, es) # ls) \<and> (k, r) \<in> set fs \<and> leaf_page s j x fs
      \<and> delete_loop s k r i es (first_id ls NO_NEXT_LEAF) =
          Some (Ok (True, write_payload s j (leaf_image page_len x (filter (\<lambda>e. fst e \<noteq> k) fs))))
    else delete_loop s k r i es (first_id ls NO_NEXT_LEAF) = Some (Ok (False, s))"
  using assms
proof (induction ls arbitrary: i es)
  case Nil
  then have page: "leaf_page s i NO_NEXT_LEAF es" and s: "sorted_wrt (<) (map fst es)" by simp_all
  show ?case
  proof (cases "(k, r) \<in> set es")
    case True
    with delete_hit [OF page s True] page show ?thesis by auto
  next
    case False
    then have "position (\<lambda>(a, b). a = k \<and> b = r) es = None" by (auto simp: position_None_iff)
    with False show ?thesis by (subst delete_loop.simps) simp
  qed
next
  case (Cons l ls)
  obtain j fs where l: "l = (j, fs)" by fastforce
  from Cons.prems l have page: "leaf_page s i j es" and rest: "linked s ((j, fs) # ls) NO_NEXT_LEAF" and j: "j \<noteq> NO_NEXT_LEAF" by simp_all
  have sorted: "sorted_wrt (<) (map fst (es @ entries_of ((j, fs) # ls)))" using Cons.prems(3) l by simp
  then have s2: "sorted_wrt (<) (map fst es)" "sorted_wrt (<) (map fst (entries_of ((j, fs) # ls)))"
    unfolding map_append sorted_wrt_append by blast+
  have read: "read_leaf s j = Ok (fs, first_id ls NO_NEXT_LEAF)" using rest by (simp add: read_leaf_page)
  show ?case
  proof (cases "(k, r) \<in> set es")
    case True
    with delete_hit [OF page s2(1) True] page show ?thesis by auto
  next
    case False
    then have none: "position (\<lambda>(a, b). a = k \<and> b = r) es = None" by (auto simp: position_None_iff)
    show ?thesis
    proof (cases "es \<noteq> [] \<and> \<not> fst (last es) \<le> k")
      case True
      then have "(k, r) \<notin> set (entries_of (l # ls))" using last_key_bound [OF sorted] l by blast
      with False True none show ?thesis by (subst delete_loop.simps) simp
    next
      case False': False
      have "delete_loop s k r i es (first_id (l # ls) NO_NEXT_LEAF) = delete_loop s k r j fs (first_id ls NO_NEXT_LEAF)"
        using none False' j l read by (subst delete_loop.simps) auto
      with Cons.IH [OF rest _ s2(2)] Cons.prems(2) False l show ?thesis by (auto split: if_splits)
    qed
  qed
qed

lemma leaf_page_unique: "leaf_page s j x es \<Longrightarrow> leaf_page s j y fs \<Longrightarrow> x = y \<and> es = fs"
  using read_leaf_page [of s j x es] read_leaf_page [of s j y fs] by simp

lemma linked_leaf: "linked s ls nx \<Longrightarrow> (j, es) \<in> set ls \<Longrightarrow> \<exists>x. leaf_page s j x es"
  by (induction ls) auto

lemma leaves_disjoint:
  "distinct (map fst (entries_of ls)) \<Longrightarrow> (i, es) \<in> set ls \<Longrightarrow> (j, fs) \<in> set ls \<Longrightarrow> (i, es) \<noteq> (j, fs) \<Longrightarrow>
   fst ` set es \<inter> fst ` set fs = {}"
proof (induction ls)
  case (Cons l ls)
  have "fst ` set (snd l) \<inter> fst ` set xs = {}" if "(m, xs) \<in> set ls" for m xs
  proof -
    have "fst ` set xs \<subseteq> fst ` set (entries_of ls)" using that by (force simp: entries_of_def)
    with Cons.prems(1) show ?thesis by auto
  qed
  with Cons show ?case by (cases l) (auto simp: Int_commute)
qed simp

lemma map_of_filter_key: "map_of (filter (\<lambda>e. fst e \<noteq> k) es) = (map_of es)(k := None)"
  by (induction es) (auto simp: fun_eq_iff)

lemma sorted_filter_keys: "sorted_wrt (<) (map fst es) \<Longrightarrow> sorted_wrt (<) (map fst (filter P es))"
  by (induction es) auto

lemma shape_frame_leaf:
  assumes "shape s t" "linked s (g_leaves t) nx" "frame s {j} s'" "(j, fs) \<in> set (g_leaves t)"
  shows "shape s' t"
proof -
  obtain y where leaf: "leaf_page s j y fs" using linked_leaf [OF assms(2,4)] by blast
  have "internal_page s' i x ls" if "internal_page s i x ls" for i x ls
  proof -
    have "i \<noteq> j" using that leaf by (auto simp: internal_page_def leaf_page_def)
    then show ?thesis using frame_page(2) [OF assms(3) that] by simp
  qed
  then show ?thesis using assms(1) by (induction t) (auto simp: snds.simps)
qed

lemma remove_entry:
  assumes inv: "index_inv t g" and leaf: "(j, fs) \<in> set (g_leaves g)" "(k, r) \<in> set fs" and page: "leaf_page (bt_pool t) j x fs"
  defines "fs' \<equiv> filter (\<lambda>e. fst e \<noteq> k) fs"
  shows "index_inv (t\<lparr>bt_pool := write_payload (bt_pool t) j (leaf_image page_len x fs')\<rparr>) (g_set j fs' g)"
    and "entries (g_set j fs' g) = filter (\<lambda>e. fst e \<noteq> k) (entries g)"
proof -
  let ?s = "bt_pool t" and ?s' = "write_payload (bt_pool t) j (leaf_image page_len x fs')"
  note parts = index_inv_parts [OF inv]
  have f: "forest ?s None None [([], g)] NO_NEXT_LEAF" and meta: "META_PAGE_ID \<notin> set (g_ids g)"
    and dec: "decodable (bt_key_type t) (entries g)" and op: "btree_open ?s = Ok t" and root: "gid g = bt_root t" "bt_unique t"
    using inv by (simp_all add: index_inv_def)
  have same: "es = fs" if "(j, es) \<in> set (g_leaves g)" for es
    using linked_leaf [OF parts(2) that] leaf_page_unique [OF page] by blast
  have j: "j \<in> set (g_ids g)" using leaf(1) leaf_ids [of g] by force
  have sorted: "sorted_wrt (<) (map fst fs)"
  proof -
    obtain as bs where "g_leaves g = as @ (j, fs) # bs" using leaf(1) by (meson split_list)
    then show ?thesis using parts(4) by (simp add: sorted_wrt_append)
  qed
  have sorted': "sorted_wrt (<) (map fst fs')" unfolding fs'_def by (rule sorted_filter_keys [OF sorted])
  have v: "leaf_valid page_len fs'" "keys_fit max_key_len fs'"
  proof -
    have "mset (map fst fs') \<subseteq># mset (map fst fs)" by (simp add: fs'_def image_mset_subseteq_mono)
    then show "leaf_valid page_len fs'"
      using fit_mono(1) [of fs' fs page_len] page sorted' by (auto simp: leaf_page_def leaf_valid_def strict_sorted_iff)
    show "keys_fit max_key_len fs'" using page by (auto simp: leaf_page_def keys_fit_def fs'_def)
  qed
  have page': "leaf_page ?s' j x fs'" by (rule page_write(1) [OF page v])
  have fr: "frame ?s {j} ?s'" using page by (intro frame_write) (simp add: leaf_page_def)
  show entries': "entries (g_set j fs' g) = filter (\<lambda>e. fst e \<noteq> k) (entries g)"
  proof -
    have "(if i = j then fs' else es) = filter (\<lambda>e. fst e \<noteq> k) es" if "(i, es) \<in> set (g_leaves g)" for i es
    proof (cases "i = j")
      case True
      then show ?thesis using same that by (simp add: fs'_def)
    next
      case False
      then have "fst ` set es \<inter> fst ` set fs = {}"
        using leaves_disjoint [OF distinct_keys [OF parts(4)] that leaf(1)] by simp
      moreover have "k \<in> fst ` set fs" using leaf(2) by force
      ultimately have "\<forall>e \<in> set es. fst e \<noteq> k" by auto
      with False show ?thesis by (simp add: filter_id_conv)
    qed
    then have "map (\<lambda>(i, es). if i = j then fs' else es) (g_leaves g) = map (\<lambda>l. filter (\<lambda>e. fst e \<noteq> k) (snd l)) (g_leaves g)"
      by auto
    then show ?thesis
      unfolding g_set_leaves entries_of_def by (simp add: comp_def case_prod_unfold filter_concat del: map_eq_conv)
  qed
  have "forest ?s' None None [([], g_set j fs' g)] NO_NEXT_LEAF"
  proof -
    have "shape ?s' g" by (rule shape_frame_leaf [OF parts(1,2) fr leaf(1)])
    moreover have "linked ?s' (g_leaves (g_set j fs' g)) NO_NEXT_LEAF"
      unfolding g_set_leaves
    proof (rule linked_update [OF parts(2) fr])
      show "leaf_page ?s' j y fs'" if "leaf_page ?s j y es" for y es
        using page' leaf_page_unique [OF page that] by simp
    qed
    moreover have "ordered None None (g_set j fs' g)"
    proof (rule g_set_ordered(1) [OF parts(3) _ sorted'], rule ballI, rule impI)
      show "set fs' \<subseteq> set (snd e)" if "e \<in> set (g_leaves g)" "fst e = j" for e
        using same [of "snd e"] that by (cases e) (auto simp: fs'_def)
    qed
    ultimately show ?thesis using f by (simp add: forest_def g_set_shape)
  qed
  moreover have "decodable (bt_key_type t) (entries (g_set j fs' g))" using dec unfolding entries' by (simp add: decodable_def)
  moreover have "META_PAGE_ID \<notin> {j}" using meta j by auto
  ultimately show "index_inv (t\<lparr>bt_pool := ?s'\<rparr>) (g_set j fs' g)"
    using root meta open_frame [OF op fr] by (simp add: index_inv_def)
qed

lemma delete_index:
  assumes inv: "index_inv t g" and v: "index_key (bt_key_type t) v"
  shows "\<exists>s' g'. btree_delete t v rid = Some (Ok (map_of (entries g) (key_bytes v) = Some rid, s'))
    \<and> index_inv (t\<lparr>bt_pool := s'\<rparr>) g'
    \<and> map_of (entries g') = (if map_of (entries g) (key_bytes v) = Some rid
        then (map_of (entries g))(key_bytes v := None) else map_of (entries g))"
proof -
  let ?k = "key_bytes v" and ?s = "bt_pool t"
  obtain pre i es ls where split: "g_leaves g = pre @ (i, es) # ls"
    and seek: "seek_leaf t (Start (Included ?k)) = Some (Ok i)"
    and before: "\<forall>e \<in> set (entries_of pre). \<not> beyond (Start (Included ?k)) (fst e)"
    using seek_start [OF inv] by blast
  let ?tail = "(i, es) # ls"
  note parts = index_inv_parts [OF inv]
  have all: "entries g = entries_of pre @ entries_of ?tail" unfolding split by (rule c_simps)
  have here: "(?k, rid) \<in> set (entries_of ?tail) \<longleftrightarrow> map_of (entries g) ?k = Some rid"
    unfolding map_of_entry [OF inv] unfolding all using before by auto
  have linked: "linked ?s ?tail NO_NEXT_LEAF" using parts(2) unfolding split linked_append by blast
  have ids: "\<forall>l \<in> set ?tail. fst l \<noteq> NO_NEXT_LEAF" using parts(5) unfolding split by simp
  have sorted: "sorted_wrt (<) (map fst (entries_of ?tail))"
    using parts(4) unfolding all map_append sorted_wrt_append by blast
  have run: "btree_delete t v rid = delete_loop ?s ?k rid i es (first_id ls NO_NEXT_LEAF)"
  proof -
    have "read_leaf ?s i = Ok (es, first_id ls NO_NEXT_LEAF)" using linked by (simp add: read_leaf_page)
    then show ?thesis using v seek by (simp add: btree_delete_def check_key_type_def index_key_def encode_key_bytes)
  qed
  note loop = delete_loop_eq [OF linked ids sorted, of ?k rid, unfolded here]
  show ?thesis
  proof (cases "map_of (entries g) ?k = Some rid")
    case True
    with loop obtain j fs x where j: "(j, fs) \<in> set ?tail" "(?k, rid) \<in> set fs" "leaf_page ?s j x fs"
      "btree_delete t v rid = Some (Ok (True, write_payload ?s j (leaf_image page_len x (filter (\<lambda>e. fst e \<noteq> ?k) fs))))"
      unfolding run by auto
    have leaf: "(j, fs) \<in> set (g_leaves g)" using j(1) unfolding split by auto
    note removed = remove_entry [OF inv leaf j(2,3)]
    show ?thesis
      using j(4) removed(1) True map_of_filter_key [of ?k "entries g"] unfolding removed(2) [symmetric]
      by (intro exI conjI) simp_all
  next
    case False
    then have "btree_delete t v rid = Some (Ok (False, ?s))" using loop unfolding run by simp
    with False inv show ?thesis by (intro exI [of _ ?s] exI [of _ g]) simp
  qed
qed

subsection \<open>Creation\<close>

lemma meta_bytes:
  assumes "length bs = page_len"
  shows "\<exists>data. and_then (put 0 (le64 r) bs) (\<lambda>d. and_then (put 8 [k] d) (\<lambda>d. put 9 [u] d)) = Ok data
    \<and> length data = page_len \<and> sub_slice data 0 8 = Ok (le64 r) \<and> get_at data 8 = Some k \<and> get_at data 9 = Some u"
proof -
  obtain a b c d where bs: "bs = a @ [b] @ [c] @ d" "length a = 8"
  proof -
    have "bs = take 8 bs @ [bs ! 8] @ [bs ! 9] @ drop 10 bs"
      using assms by (simp add: sizes_eq Cons_nth_drop_Suc numeral_eq_Suc)
    then show ?thesis using that [of "take 8 bs"] assms by (simp add: sizes_eq)
  qed
  have "put 0 (le64 r) bs = Ok (le64 r @ [b] @ [c] @ d)" using put_at [of 0 "[]" a "le64 r"] bs by simp
  moreover have "put 8 [k] (le64 r @ [b] @ [c] @ d) = Ok (le64 r @ [k] @ [c] @ d)" by (rule put_at) simp_all
  moreover have "put 9 [u] (le64 r @ [k] @ [c] @ d) = Ok (le64 r @ [k] @ [u] @ d)"
    using put_at [of 9 "le64 r @ [k]" "[c]" "[u]" d] by simp
  moreover have "sub_slice (le64 r @ [k] @ [u] @ d) 0 8 = Ok (le64 r)"
    using sub_slice_at [of 0 "[]" 8 "le64 r"] by simp
  ultimately show ?thesis using assms bs by (simp add: get_at_def nth_append)
qed

lemma data_type_byte [simp]: "data_type_from_u8 (data_type_to_u8 k) = Ok k"
  by (cases k) (simp_all add: data_type_from_u8_def)

lemma create_index:
  assumes s: "length s = 1"
  shows "\<exists>t s'. btree_create s kt True = (Ok t, s') \<and> bt_pool t = s' \<and> bt_key_type t = kt \<and> length s' = 3
    \<and> index_inv t (GLeaf (bt_root t) [])"
proof -
  obtain m s1 where a1: "store_alloc s PtData = (m, s1)" by fastforce
  obtain r s2 where a2: "store_alloc s1 PtBTreeLeaf = (r, s2)" by fastforce
  note al1 = alloc_frame [OF a1] store_alloc_fresh [OF a1]
  have m: "unat m = 1" "length s1 = 2" "fresh_page s1 m PtData" using al1 s by simp_all
  note al2 = alloc_frame [OF a2, unfolded m(2)]
  have r: "unat r = 2" "length s2 = 3" "fresh_page s2 r PtBTreeLeaf" "frame s1 {} s2" using al2 by simp_all
  have mid: "m = META_PAGE_ID" using m(1) by (metis META_PAGE_ID_def unat_1 unsigned_word_eqI)
  obtain p where p: "store_get s2 r = Ok p" "length (payload p) = page_len" "page_kind p = PtBTreeLeaf"
    using r(1-3) by (simp add: store_get_def fresh_page_def)
  have pr: "s2 ! 2 = p" using p(1) r by (simp add: store_get_def)
  define s3 where "s3 = write_payload s2 r (leaf_image page_len 0 [])"
  have init: "leaf_init (payload p) = Ok (leaf_image page_len 0 [])" using p(2) by (simp add: init_images sizes_eq)
  let ?t = "\<lparr>bt_pool = s3, bt_root = r, bt_key_type = kt, bt_unique = True\<rparr>"
  have "payload (s3 ! 1) = payload (s1 ! 1)" using r(1,4) m(2) by (simp add: s3_def nth_write frame_def)
  then have len1: "length (payload (s3 ! 1)) = page_len" using m by (simp add: fresh_page_def)
  obtain data where data: "and_then (put 0 (le64 r) (payload (s3 ! 1))) (\<lambda>d. and_then (put 8 [data_type_to_u8 kt] d) (\<lambda>d. put 9 [1] d)) = Ok data"
    "length data = page_len" "sub_slice data 0 8 = Ok (le64 r)" "get_at data 8 = Some (data_type_to_u8 kt)" "get_at data 9 = Some 1"
    using meta_bytes [OF len1] by blast
  define s4 where "s4 = write_payload s3 META_PAGE_ID data"
  have len3: "length s3 = 3" "length s4 = 3" by (simp_all add: s3_def s4_def r(2))
  have meta: "unat META_PAGE_ID = 1" by (simp add: META_PAGE_ID_def)
  have "write_meta ?t = (Ok (), s4)"
    using data(1) len3 by (simp add: write_meta_def store_get_def meta s4_def)
  then have run: "btree_create s kt True = (Ok (?t\<lparr>bt_pool := s4\<rparr>), s4)"
    using a1 a2 p(1) init by (simp add: btree_create_def s3_def)
  have "leaf_page s3 r 0 []"
    using r pr p(3) empty_valid by (simp add: leaf_page_def s3_def write_payload_def store_put_def)
  moreover have "frame s3 {META_PAGE_ID} s4" unfolding s4_def by (rule frame_write) (simp add: meta len3)
  moreover have "r \<noteq> META_PAGE_ID" "r \<noteq> 0" using r(1) meta by auto
  ultimately have "leaf_page s4 r NO_NEXT_LEAF []" by (simp add: frame_page(1) NO_NEXT_LEAF_def)
  moreover have "btree_open s4 = Ok (?t\<lparr>bt_pool := s4\<rparr>)"
    using data len3 by (simp add: btree_open_def store_get_def meta s4_def write_payload_def store_put_def Let_def)
  ultimately show ?thesis
    using run len3 \<open>r \<noteq> META_PAGE_ID\<close> \<open>r \<noteq> 0\<close>
    by (simp add: index_inv_def forest_leaf decodable_def)
qed

subsection \<open>The index as a map\<close>

lemma representsI:
  "index_inv t g \<Longrightarrow> (\<And>v. m v = (if index_key (bt_key_type t) v then map_of (entries g) (key_bytes v) else None)) \<Longrightarrow> represents t m"
  unfolding represents_def by blast

definition index_room :: "btree \<Rightarrow> bool" where
  "index_room t \<longleftrightarrow> 2 * length (bt_pool t) + 1 < 2 ^ 64"

text \<open>
  Inserting into a unique index is a map update. For a key of the index's type, an existing key is
  refused with \<open>BTreeUniqueViolation\<close> and a key over the length limit with \<open>BTreeKeyTooLarge\<close>, both without
  touching a page; every other insertion succeeds, through any number of leaf, internal and root splits and
  with the ancestors that the descent released, and the pages then represent the map with the new binding.
\<close>

lemma index_insert:
  assumes r: "represents t m" and v: "index_key (bt_key_type t) v" and room: "index_room t"
  shows "\<exists>result s'. btree_insert t v rid = Some (result, s')
    \<and> (m v \<noteq> None \<longrightarrow> result = Err BTreeUniqueViolation \<and> s' = bt_pool t)
    \<and> (m v = None \<and> max_key_len < length (key_bytes v) \<longrightarrow> result = Err (BTreeKeyTooLarge (length (key_bytes v))) \<and> s' = bt_pool t)
    \<and> (m v = None \<and> length (key_bytes v) \<le> max_key_len \<longrightarrow> result = Ok () \<and> represents (t\<lparr>bt_pool := s'\<rparr>) (m(v \<mapsto> rid)))"
proof -
  from r obtain g where inv: "index_inv t g"
    and m: "\<And>v. m v = (if index_key (bt_key_type t) v then map_of (entries g) (key_bytes v) else None)"
    unfolding represents_def by blast
  show ?thesis
  proof (cases "m v")
    case (Some q)
    then have "map_of (entries g) (key_bytes v) = Some q" using m v by simp
    from insert_duplicate [OF inv v this] Some show ?thesis by simp
  next
    case None
    then have new: "map_of (entries g) (key_bytes v) = None" using m v by simp
    show ?thesis
    proof (cases "length (key_bytes v) \<le> max_key_len")
      case True
      from insert_index [OF inv v new True] room obtain s' g' where "btree_insert t v rid = Some (Ok (), s')"
        and inv': "index_inv (t\<lparr>bt_pool := s'\<rparr>) g'" and m': "map_of (entries g') = (map_of (entries g))(key_bytes v \<mapsto> rid)"
        unfolding index_room_def by blast
      moreover have "represents (t\<lparr>bt_pool := s'\<rparr>) (m(v \<mapsto> rid))"
        by (rule representsI [OF inv']) (auto simp: m m' v key_bytes_inject [OF _ v])
      ultimately show ?thesis using None True by auto
    next
      case False
      have "btree_insert t v rid = Some (Err (BTreeKeyTooLarge (length (key_bytes v))), bt_pool t)"
        using lookup_eq [OF inv v] new v False
        by (simp add: btree_insert_def insert_plan_def check_key_type_def index_key_def encode_key_bytes)
      with None False show ?thesis by simp
    qed
  qed
qed

text \<open>
  Deleting from a unique index is a map update. The entry is removed exactly when the key is bound to
  that record id, which the result says; no other binding changes, and pages are never merged or freed, so
  the tree keeps working with leaves that have become empty.
\<close>

lemma index_delete:
  assumes r: "represents t m" and v: "index_key (bt_key_type t) v"
  shows "\<exists>s'. btree_delete t v rid = Some (Ok (m v = Some rid, s'))
    \<and> represents (t\<lparr>bt_pool := s'\<rparr>) (if m v = Some rid then m(v := None) else m)"
proof -
  from r obtain g where inv: "index_inv t g"
    and m: "\<And>v. m v = (if index_key (bt_key_type t) v then map_of (entries g) (key_bytes v) else None)"
    unfolding represents_def by blast
  from delete_index [OF inv v, of rid] obtain s' g' where
    d: "btree_delete t v rid = Some (Ok (map_of (entries g) (key_bytes v) = Some rid, s'))"
    and inv': "index_inv (t\<lparr>bt_pool := s'\<rparr>) g'"
    and m': "map_of (entries g') = (if map_of (entries g) (key_bytes v) = Some rid
        then (map_of (entries g))(key_bytes v := None) else map_of (entries g))" by blast
  have "represents (t\<lparr>bt_pool := s'\<rparr>) (if m v = Some rid then m(v := None) else m)"
    by (rule representsI [OF inv']) (auto simp: m m' v key_bytes_inject [OF _ v])
  with d show ?thesis by (auto simp: m v)
qed

text \<open>The bounds of a range, on values.\<close>

fun in_bounds :: "val bound \<Rightarrow> val bound \<Rightarrow> val \<Rightarrow> bool" where
  "in_bounds lower upper v \<longleftrightarrow>
    (case lower of Unbounded \<Rightarrow> True | Included a \<Rightarrow> compare_values v a \<noteq> Ok Less | Excluded a \<Rightarrow> compare_values a v = Ok Less)
    \<and> (case upper of Unbounded \<Rightarrow> True | Included b \<Rightarrow> compare_values b v \<noteq> Ok Less | Excluded b \<Rightarrow> compare_values v b = Ok Less)"

fun bound_key :: "data_type \<Rightarrow> val bound \<Rightarrow> bool" where
  "bound_key kt Unbounded = True"
| "bound_key kt (Included v) = index_key kt v"
| "bound_key kt (Excluded v) = index_key kt v"

fun bound_bytes :: "val bound \<Rightarrow> byte list bound" where
  "bound_bytes Unbounded = Unbounded"
| "bound_bytes (Included v) = Included (key_bytes v)"
| "bound_bytes (Excluded v) = Excluded (key_bytes v)"

lemma encode_bound_bytes: "bound_key (bt_key_type t) b \<Longrightarrow> encode_bound t b = Ok (bound_bytes b)"
  by (cases b) (auto simp: check_key_type_def index_key_def encode_key_bytes)

lemma key_bytes_le:
  "index_key kt v \<Longrightarrow> index_key kt w \<Longrightarrow> key_bytes v \<le> key_bytes w \<longleftrightarrow> compare_values w v \<noteq> Ok Less"
  unfolding linorder_not_less [symmetric] by (simp add: key_bytes_less)

lemma in_bounds_bytes:
  assumes "bound_key kt lower" "bound_key kt upper" "index_key kt v"
  shows "in_bounds lower upper v \<longleftrightarrow>
    beyond (Start (bound_bytes lower)) (key_bytes v) \<and> \<not> exceeds_upper (bound_bytes upper) (key_bytes v)"
  using assms by (cases lower; cases upper) (auto simp: key_bytes_less key_bytes_le not_le)

lemma decoded_key: "index_key kt v \<Longrightarrow> decoded kt (key_bytes v, r) = (v, r)"
  by (simp add: decoded_def decode_key_bytes)

text \<open>
  A range scan returns the bindings of the map whose keys lie between the bounds, each once, in
  ascending order of the keys, whatever mix of open, closed and missing bounds is asked for and however many
  leaves, empty ones included, the range crosses.
\<close>

lemma index_range:
  assumes r: "represents t m" and b: "bound_key (bt_key_type t) lower" "bound_key (bt_key_type t) upper"
  shows "\<exists>xs. btree_range_all t lower upper = Some (Ok xs)
    \<and> sorted_wrt (\<lambda>x y. compare_values (fst x) (fst y) = Ok Less) xs
    \<and> set xs = {(v, rid). m v = Some rid \<and> in_bounds lower upper v}"
proof -
  let ?kt = "bt_key_type t"
  from r obtain g where inv: "index_inv t g"
    and m: "\<And>v. m v = (if index_key ?kt v then map_of (entries g) (key_bytes v) else None)"
    unfolding represents_def by blast
  define P where "P k \<longleftrightarrow> beyond (Start (bound_bytes lower)) k \<and> \<not> exceeds_upper (bound_bytes upper) k" for k
  let ?es = "filter (\<lambda>e. P (fst e)) (entries g)"
  have dec: "\<exists>v. index_key ?kt v \<and> key_bytes v = fst e" if "e \<in> set (entries g)" for e
    using inv that by (simp add: index_inv_def decodable_def)
  have run: "btree_range_all t lower upper = Some (Ok (map (decoded ?kt) ?es))"
    using range_all_eq [OF inv encode_bound_bytes [OF b(1)] encode_bound_bytes [OF b(2)]] by (simp add: P_def)
  have "sorted_wrt (\<lambda>e f. fst e < fst f) ?es"
    using sorted_filter_keys [OF index_inv_parts(4) [OF inv]] by (simp add: sorted_wrt_map)
  then have "sorted_wrt (\<lambda>e f. compare_values (fst (decoded ?kt e)) (fst (decoded ?kt f)) = Ok Less) ?es"
  proof (rule sorted_wrt_mono_rel [rotated])
    fix e f assume e: "e \<in> set ?es" and f: "f \<in> set ?es" and less: "fst e < fst f"
    obtain v w where v: "index_key ?kt v" "key_bytes v = fst e" and w: "index_key ?kt w" "key_bytes w = fst f"
      using dec e f by (metis filter_is_subset subsetD)
    have "fst (decoded ?kt e) = v" "fst (decoded ?kt f) = w"
      using decoded_key [OF v(1), of "snd e"] decoded_key [OF w(1), of "snd f"] v(2) w(2) by simp_all
    with less v w show "compare_values (fst (decoded ?kt e)) (fst (decoded ?kt f)) = Ok Less"
      using key_bytes_less [OF v(1) w(1)] by simp
  qed
  moreover have "set (map (decoded ?kt) ?es) = {(v, rid). m v = Some rid \<and> in_bounds lower upper v}"
  proof (intro set_eqI iffI)
    fix x assume "x \<in> set (map (decoded ?kt) ?es)"
    then obtain e where e: "e \<in> set (entries g)" "P (fst e)" "x = decoded ?kt e" by auto
    obtain v where v: "index_key ?kt v" "key_bytes v = fst e" using dec e(1) by blast
    have x: "x = (v, snd e)" using decoded_key [OF v(1), of "snd e"] v(2) e(3) by simp
    have "m v = Some (snd e)" using m v e(1) map_of_entry [OF inv] by simp
    with x e(2) in_bounds_bytes [OF b v(1)] v(2) show "x \<in> {(v, rid). m v = Some rid \<and> in_bounds lower upper v}"
      by (simp add: P_def)
  next
    fix x assume "x \<in> {(v, rid). m v = Some rid \<and> in_bounds lower upper v}"
    then obtain v rid where x: "x = (v, rid)" "m v = Some rid" "in_bounds lower upper v" by auto
    then have v: "index_key ?kt v" and e: "(key_bytes v, rid) \<in> set (entries g)"
      using m map_of_entry [OF inv] by (simp_all split: if_splits)
    have "P (key_bytes v)" using in_bounds_bytes [OF b v] x(3) by (simp add: P_def)
    with e have "(key_bytes v, rid) \<in> set ?es" by simp
    then have "decoded ?kt (key_bytes v, rid) \<in> set (map (decoded ?kt) ?es)" by (metis image_eqI set_map)
    then show "x \<in> set (map (decoded ?kt) ?es)" using decoded_key [OF v] x(1) by simp
  qed
  ultimately show ?thesis using run by (simp add: sorted_wrt_map)
qed

end
