(* ===== verification/Btree_Spec.thy ===== *)
theory Btree_Spec
  imports Btree_Index
begin

text \<open>
  The contract of a unique index for its callers: lookup and creation as map operations, the keys every
  operation refuses, the answers of every run of operations against those of a plain map, and that no
  operation on a reachable index can loop.
\<close>

subsection \<open>Creation and lookup\<close>

text \<open>
  A created index is empty: on a file that holds only its header page, \<open>create\<close> succeeds and leaves the
  Meta page and an empty root leaf, which represent the empty map, and opening the same pages again finds
  the same root, key type and uniqueness.
\<close>

lemma index_created:
  assumes s: "length s = 1"
  shows "\<exists>t. btree_create s kt True = (Ok t, bt_pool t) \<and> bt_key_type t = kt \<and> represents t Map.empty
    \<and> index_room t \<and> btree_open (bt_pool t) = Ok t"
proof -
  obtain t where t: "btree_create s kt True = (Ok t, bt_pool t)" "bt_key_type t = kt" "length (bt_pool t) = 3"
    and inv: "index_inv t (GLeaf (bt_root t) [])"
    using create_index [OF s, of kt] by blast
  have "represents t Map.empty" by (rule representsI [OF inv]) simp
  with t inv show ?thesis by (auto simp: index_room_def index_inv_def)
qed

abbreviation blank_file :: page_store where
  "blank_file \<equiv> [page_new 0 PtMeta]"

lemma empty_index:
  obtains t where "bt_key_type t = kt" "represents t Map.empty" "index_room t"
proof -
  obtain t where t: "bt_key_type t = kt" "length (bt_pool t) = 3" and inv: "index_inv t (GLeaf (bt_root t) [])"
    using create_index [of blank_file kt] by auto
  have "represents t Map.empty" by (rule representsI [OF inv]) simp
  with t show ?thesis by (intro that [of t]) (simp_all add: index_room_def)
qed

lemma index_lookup:
  assumes "represents t m" and v: "index_key (bt_key_type t) v"
  shows "btree_lookup t v = Some (Ok (case m v of None \<Rightarrow> [] | Some rid \<Rightarrow> [rid]))"
proof -
  from assms(1) obtain g where "index_inv t g"
    and "\<And>v. m v = (if index_key (bt_key_type t) v then map_of (entries g) (key_bytes v) else None)"
    unfolding represents_def by blast
  with lookup_eq [OF _ v] v show ?thesis by simp
qed

subsection \<open>Refused keys\<close>

definition key_refused :: "data_type \<Rightarrow> val \<Rightarrow> db_error option" where
  "key_refused kt v =
     (case type_of v of
        None \<Rightarrow> Some NullKeyNotAllowed
      | Some ty \<Rightarrow>
          if ty = kt then None else Some (BTreeKeyTypeMismatch (data_type_display kt) (data_type_display ty)))"

lemma check_key_type_refused:
  "check_key_type t v = (case key_refused (bt_key_type t) v of None \<Rightarrow> Ok () | Some e \<Rightarrow> Err e)"
  by (simp add: check_key_type_def key_refused_def split: option.splits)

subsection \<open>Runs of operations\<close>

text \<open>What a caller sees of an operation: the call and its answer.\<close>

datatype index_event =
    Inserted val record_id "unit outcome"
  | Deleted val record_id "bool outcome"
  | LookedUp val "record_id list outcome"
  | Height "nat outcome"

text \<open>Values as Rust programs hold them: a text is valid UTF-8.\<close>

definition rust_value :: "val \<Rightarrow> bool" where
  "rust_value v \<longleftrightarrow> (case v of VText s \<Rightarrow> utf8 (bytes_of s) | _ \<Rightarrow> True)"

inductive index_step :: "btree \<Rightarrow> index_event \<Rightarrow> btree \<Rightarrow> bool" where
  insert: "rust_value v \<Longrightarrow> index_room t \<Longrightarrow> btree_insert t v rid = Some (result, s) \<Longrightarrow>
    index_step t (Inserted v rid result) (t\<lparr>bt_pool := s\<rparr>)"
| delete: "rust_value v \<Longrightarrow> btree_delete t v rid = Some (Ok (removed, s)) \<Longrightarrow>
    index_step t (Deleted v rid (Ok removed)) (t\<lparr>bt_pool := s\<rparr>)"
| delete_err: "rust_value v \<Longrightarrow> btree_delete t v rid = Some (Err e) \<Longrightarrow> index_step t (Deleted v rid (Err e)) t"
| delete_panic: "rust_value v \<Longrightarrow> btree_delete t v rid = Some Panic \<Longrightarrow> index_step t (Deleted v rid Panic) t"
| lookup: "rust_value v \<Longrightarrow> btree_lookup t v = Some result \<Longrightarrow> index_step t (LookedUp v result) t"
| height: "height t = Some result \<Longrightarrow> index_step t (Height result) t"

text \<open>The same events of a plain map with the checks of the interface in front.\<close>

definition insert_answer :: "data_type \<Rightarrow> (val \<Rightarrow> record_id option) \<Rightarrow> val \<Rightarrow> unit outcome" where
  "insert_answer kt m v =
     (case key_refused kt v of
        Some e \<Rightarrow> Err e
      | None \<Rightarrow>
          if m v \<noteq> None then Err BTreeUniqueViolation
          else if max_key_len < length (key_bytes v) then Err (BTreeKeyTooLarge (length (key_bytes v)))
          else Ok ())"

fun map_event :: "data_type \<Rightarrow> (val \<Rightarrow> record_id option) \<Rightarrow> index_event \<Rightarrow> (val \<Rightarrow> record_id option) \<Rightarrow> bool" where
  "map_event kt m (Inserted v rid result) m' \<longleftrightarrow>
    result = insert_answer kt m v \<and> m' = (if result = Ok () then m(v \<mapsto> rid) else m)"
| "map_event kt m (Deleted v rid result) m' \<longleftrightarrow>
    (case key_refused kt v of
       Some e \<Rightarrow> result = Err e \<and> m' = m
     | None \<Rightarrow> result = Ok (m v = Some rid) \<and> m' = (if m v = Some rid then m(v := None) else m))"
| "map_event kt m (LookedUp v result) m' \<longleftrightarrow>
    m' = m \<and> result = (case key_refused kt v of
       Some e \<Rightarrow> Err e
     | None \<Rightarrow> Ok (case m v of None \<Rightarrow> [] | Some rid \<Rightarrow> [rid]))"
| "map_event kt m (Height result) m' \<longleftrightarrow> m' = m \<and> (\<exists>h > 0. result = Ok h)"

lemma height_from_forest:
  "forest s l u [(k, t)] nx \<Longrightarrow> \<exists>n. height_from s (gid t) h = Some (Ok (h + n))"
proof (induction t arbitrary: k l u nx h)
  case (GLeaf i es)
  then have "leaf_page s i nx es" by (simp add: forest_leaf)
  then show ?case by (subst height_from.simps) (auto dest!: leaf_page_get intro: exI [of _ 0])
next
  case (GNode i cs)
  then have page: "internal_page s i (first_child cs) (child_links cs)" and f: "forest s l u cs nx"
    by (simp_all add: forest_node)
  obtain kc bs where cs: "cs = kc # bs" using forest_not_Nil [OF f] by (cases cs) auto
  have step: "height_from s i h = height_from s (gid (snd kc)) (h + 1)"
    using internal_page_get [OF page]
    by (subst height_from.simps) (auto simp: open_internal_def internal_open_image leftmost_child_image first_child_def cs)
  have "kc \<in> set cs" "snd kc \<in> Basic_BNFs.snds kc" by (simp add: cs) (cases kc, auto simp: snds.simps)
  then obtain n where "height_from s (gid (snd kc)) (h + 1) = Some (Ok (h + 1 + n))"
    using GNode.IH forest_child [of s l u "[]" kc bs nx] f cs by (metis append_Nil prod.collapse)
  with step show ?case by (metis add.assoc gid.simps(2))
qed

lemma height_represents: "represents t m \<Longrightarrow> \<exists>h > 0. height t = Some (Ok h)"
  using height_from_forest [of "bt_pool t" None None "[]" _ NO_NEXT_LEAF 1]
  by (force simp: represents_def index_inv_def height_def)

lemma not_refused: "rust_value v \<Longrightarrow> key_refused kt v = None \<longleftrightarrow> index_key kt v"
  by (auto simp: key_refused_def index_key_def rust_value_def split: option.splits)

lemma refused_insert: "key_refused (bt_key_type t) v = Some e \<Longrightarrow> btree_insert t v rid = Some (Err e, bt_pool t)"
  by (simp add: btree_insert_def insert_plan_def check_key_type_refused)

lemma refused_delete: "key_refused (bt_key_type t) v = Some e \<Longrightarrow> btree_delete t v rid = Some (Err e)"
  by (simp add: btree_delete_def check_key_type_refused)

lemma refused_lookup: "key_refused (bt_key_type t) v = Some e \<Longrightarrow> btree_lookup t v = Some (Err e)"
  by (simp add: btree_lookup_def btree_range_all_def btree_range_def check_key_type_refused)

lemma insert_event:
  assumes r: "represents t m" and v: "rust_value v" and room: "index_room t" and run: "btree_insert t v rid = Some (result, s)"
  shows "result = insert_answer (bt_key_type t) m v
    \<and> represents (t\<lparr>bt_pool := s\<rparr>) (if result = Ok () then m(v \<mapsto> rid) else m)"
proof (cases "key_refused (bt_key_type t) v")
  case None
  then have key: "index_key (bt_key_type t) v" using not_refused [OF v] by blast
  show ?thesis
    using index_insert [OF r key room, of rid] run None r
    by (cases "m v"; cases "length (key_bytes v) \<le> max_key_len") (auto simp: insert_answer_def)
next
  case (Some e)
  with refused_insert run r show ?thesis by (auto simp: insert_answer_def)
qed

lemma step_event:
  assumes r: "represents t m" and step: "index_step t l t'"
  shows "\<exists>m'. map_event (bt_key_type t) m l m' \<and> represents t' m' \<and> bt_key_type t' = bt_key_type t"
  using step
proof cases
  case (insert v rid result s)
  from insert_event [OF r insert(3-5)] insert(1,2) show ?thesis by auto
next
  case (delete v rid removed s)
  show ?thesis
  proof (cases "key_refused (bt_key_type t) v")
    case None
    then have "index_key (bt_key_type t) v" using not_refused [OF delete(3)] by blast
    from index_delete [OF r this, of rid] delete None show ?thesis by (cases "m v = Some rid") auto
  qed (use refused_delete delete in simp)
next
  case (delete_err v rid e)
  show ?thesis
  proof (cases "key_refused (bt_key_type t) v")
    case None
    then have "index_key (bt_key_type t) v" using not_refused [OF delete_err(3)] by blast
    from index_delete [OF r this, of rid] delete_err show ?thesis by simp
  qed (use refused_delete delete_err r in simp)
next
  case (delete_panic v rid)
  show ?thesis
  proof (cases "key_refused (bt_key_type t) v")
    case None
    then have "index_key (bt_key_type t) v" using not_refused [OF delete_panic(3)] by blast
    from index_delete [OF r this, of rid] delete_panic show ?thesis by simp
  qed (use refused_delete delete_panic in simp)
next
  case (lookup v result)
  show ?thesis
  proof (cases "key_refused (bt_key_type t) v")
    case None
    then have "index_key (bt_key_type t) v" using not_refused [OF lookup(3)] by blast
    from index_lookup [OF r this] lookup None r show ?thesis by simp
  qed (use refused_lookup lookup r in simp)
next
  case (height result)
  with height_represents [OF r] r show ?thesis by auto
qed

interpretation unique_index: simulation index_step "map_event kt" "\<lambda>t m. represents t m \<and> bt_key_type t = kt" for kt
  by unfold_locales (use step_event in blast)


definition sample_events :: "index_event list" where
  "sample_events = [Inserted VNull (RecordId 4 0) (Err NullKeyNotAllowed), Inserted (VBoolean True) (RecordId 4 0) (Ok ())]"


text \<open>
  C29: a range over a unique index returns the bindings of the map whose keys lie between the bounds, each
  once, in ascending order of the keys, whatever mix of open, closed and missing bounds is asked for and
  however many leaves, empty ones included, the range crosses.
\<close>

theorem index_range_selects_in_order:
  assumes "represents t m" and "bound_key (bt_key_type t) lower" "bound_key (bt_key_type t) upper"
  shows "\<exists>xs. btree_range_all t lower upper = Some (Ok xs)
    \<and> sorted_wrt (\<lambda>x y. compare_values (fst x) (fst y) = Ok Less) xs
    \<and> set xs = {(v, rid). m v = Some rid \<and> in_bounds lower upper v}"
  using index_range [OF assms] .

theorem index_range_selects_in_order_witness:
  "\<exists>t. represents t [VBoolean True \<mapsto> RecordId 4 0] \<and> (\<exists>xs. btree_range_all t (Excluded (VBoolean False)) Unbounded = Some (Ok xs)
    \<and> sorted_wrt (\<lambda>x y. compare_values (fst x) (fst y) = Ok Less) xs \<and> set xs = {(VBoolean True, RecordId 4 0)})"
proof -
  obtain t where t: "bt_key_type t = TBoolean" "represents t Map.empty" "index_room t" by (rule empty_index)
  have "index_key (bt_key_type t) (VBoolean True)" by (simp add: index_key_def t)
  then obtain s where r: "represents (t\<lparr>bt_pool := s\<rparr>) [VBoolean True \<mapsto> RecordId 4 0]"
    using index_insert [OF t(2) _ t(3), of "VBoolean True" "RecordId 4 0"] by (auto simp: sizes_eq)
  have "{(v, rid). [VBoolean True \<mapsto> RecordId 4 0] v = Some rid \<and> in_bounds (Excluded (VBoolean False)) Unbounded v}
      = {(VBoolean True, RecordId 4 0)}"
    by (auto simp: cmp_def split: if_splits)
  with index_range_selects_in_order [OF r, of "Excluded (VBoolean False)" Unbounded] r t(1) show ?thesis
    by (auto simp: index_key_def)
qed

subsection \<open>Termination\<close>

fun rust_bound :: "val bound \<Rightarrow> bool" where
  "rust_bound Unbounded = True"
| "rust_bound (Included v) = rust_value v"
| "rust_bound (Excluded v) = rust_value v"

lemma range_ends:
  assumes r: "represents t m" and "rust_bound lower" "rust_bound upper"
  shows "btree_range_all t lower upper \<noteq> None"
proof (cases "bound_key (bt_key_type t) lower \<and> bound_key (bt_key_type t) upper")
  case True
  with index_range [OF r] show ?thesis by fastforce
next
  case False
  have "\<exists>e. encode_bound t b = Err e" if "rust_bound b" "\<not> bound_key (bt_key_type t) b" for b
    using that not_refused [of _ "bt_key_type t"]
    by (cases b) (auto simp: check_key_type_refused split: option.splits)
  moreover have "encode_bound t b = Ok (bound_bytes b)" if "bound_key (bt_key_type t) b" for b
    by (rule encode_bound_bytes [OF that])
  ultimately show ?thesis
    using False assms(2,3) by (cases "bound_key (bt_key_type t) lower") (fastforce simp: btree_range_all_def btree_range_def)+
qed

text \<open>
  C30: no operation on a sound index can loop: the descents and the sibling walks of height, lookup, range,
  deletion and insertion all end, for every value, NULL and values of another type included, and for every
  pair of bounds, reversed ones included.
\<close>

theorem index_operations_terminate:
  assumes r: "represents t m" and v: "rust_value v" and b: "rust_bound lower" "rust_bound upper"
  shows "height t \<noteq> None \<and> btree_lookup t v \<noteq> None \<and> btree_range_all t lower upper \<noteq> None \<and> btree_delete t v rid \<noteq> None
    \<and> (index_room t \<longrightarrow> btree_insert t v rid \<noteq> None)"
proof -
  have keyed: "btree_lookup t v \<noteq> None \<and> btree_delete t v rid \<noteq> None \<and> (index_room t \<longrightarrow> btree_insert t v rid \<noteq> None)"
  proof (cases "key_refused (bt_key_type t) v")
    case None
    then have key: "index_key (bt_key_type t) v" using not_refused [OF v] by blast
    show ?thesis
      using index_lookup [OF r key] index_delete [OF r key, of rid] index_insert [OF r key, of rid] by auto
  qed (simp add: refused_lookup refused_delete refused_insert)
  with height_represents [OF r] range_ends [OF r b] show ?thesis by auto
qed

theorem index_operations_terminate_witness:
  "\<exists>t. represents t Map.empty \<and> index_room t \<and> btree_insert t (VBigInt 7) (RecordId 4 0) \<noteq> None
    \<and> btree_range_all t (Included (VBigInt 9)) (Excluded (VBigInt 2)) \<noteq> None"
proof -
  obtain t where "represents t Map.empty" "index_room t" by (rule empty_index [of TBigInt])
  with index_operations_terminate [of t Map.empty "VBigInt 7" "Included (VBigInt 9)" "Excluded (VBigInt 2)" "RecordId 4 0"]
  show ?thesis by (auto simp: rust_value_def)
qed

end
