(* ===== verification/Wal.thy ===== *)
theory Wal
  imports Ids Codec Page
begin

text \<open>
  The write-ahead log of \<open>src/src/wal.rs\<close>: the binary form of log records, the reader that stops at
  a torn tail, the writer with its buffer and log sequence numbers, and the cursor through which one
  transaction appends. Decoders that return \<open>Option\<close> in the code return \<open>option\<close> here.
\<close>

subsection \<open>Records\<close>

datatype log_record_type = LBegin | LInsert | LUpdate | LDelete | LCommit | LAbort | LCheckpoint

fun log_type_to_u8 :: "log_record_type \<Rightarrow> byte" where
  "log_type_to_u8 LBegin = 0"
| "log_type_to_u8 LInsert = 1"
| "log_type_to_u8 LUpdate = 2"
| "log_type_to_u8 LDelete = 3"
| "log_type_to_u8 LCommit = 4"
| "log_type_to_u8 LAbort = 5"
| "log_type_to_u8 LCheckpoint = 6"

definition log_type_from_u8 :: "byte \<Rightarrow> log_record_type option" where
  "log_type_from_u8 b =
     (if b = 0 then Some LBegin else if b = 1 then Some LInsert else if b = 2 then Some LUpdate
      else if b = 3 then Some LDelete else if b = 4 then Some LCommit else if b = 5 then Some LAbort
      else if b = 6 then Some LCheckpoint else None)"

definition CHECKPOINT_TXN_ID :: txn_id where
  "CHECKPOINT_TXN_ID = - 1"

record log_record =
  lr_lsn :: lsn
  lr_prev_lsn :: "lsn option"
  lr_txn_id :: txn_id
  lr_type :: log_record_type
  lr_table_id :: "table_id option"
  lr_rid :: "record_id option"
  lr_old_rid :: "record_id option"
  lr_before_image :: "byte list option"
  lr_after_image :: "byte list option"

subsection \<open>Fields\<close>

definition read_u64 :: "byte list \<Rightarrow> nat \<Rightarrow> (u64 \<times> nat) option" where
  "read_u64 bs pos = do { xs \<leftarrow> get_slice bs pos (pos + 8); Some (from_le64 xs, pos + 8) }"

text \<open>The optional numbers: any presence byte but 1 means absent.\<close>

definition encode_optional_u64 :: "u64 option \<Rightarrow> byte list" where
  "encode_optional_u64 x = (case x of Some n \<Rightarrow> 1 # le64 n | None \<Rightarrow> [0])"

definition decode_optional_u64 :: "byte list \<Rightarrow> nat \<Rightarrow> (u64 option \<times> nat) option" where
  "decode_optional_u64 bs pos = do {
     present \<leftarrow> get_at bs pos;
     if present = 1
     then do { (n, pos) \<leftarrow> read_u64 bs (pos + 1); Some (Some n, pos) }
     else Some (None, pos + 1) }"

text \<open>The optional record identifiers and images: any presence byte but 0 means present.\<close>

definition encode_optional_rid :: "record_id option \<Rightarrow> byte list" where
  "encode_optional_rid x =
     (case x of Some rid \<Rightarrow> 1 # le64 (rid_page rid) @ le16 (rid_slot rid) | None \<Rightarrow> [0])"

definition decode_optional_rid :: "byte list \<Rightarrow> nat \<Rightarrow> (record_id option \<times> nat) option" where
  "decode_optional_rid bs pos = do {
     present \<leftarrow> get_at bs pos;
     if present = 0 then Some (None, pos + 1)
     else do {
       (page, pos) \<leftarrow> read_u64 bs (pos + 1);
       xs \<leftarrow> get_slice bs pos (pos + 2);
       Some (Some (RecordId page (from_le16 xs)), pos + 2) } }"

definition encode_optional_bytes :: "byte list option \<Rightarrow> byte list" where
  "encode_optional_bytes x =
     (case x of Some xs \<Rightarrow> 1 # le32 (of_nat (length xs)) @ xs | None \<Rightarrow> [0])"

definition decode_optional_bytes :: "byte list \<Rightarrow> nat \<Rightarrow> (byte list option \<times> nat) option" where
  "decode_optional_bytes bs pos = do {
     present \<leftarrow> get_at bs pos;
     if present = 0 then Some (None, pos + 1)
     else do {
       lb \<leftarrow> get_slice bs (pos + 1) (pos + 5);
       xs \<leftarrow> get_slice bs (pos + 5) (pos + 5 + unat (from_le32 lb));
       Some (Some xs, pos + 5 + unat (from_le32 lb)) } }"

subsection \<open>Active transactions of a checkpoint\<close>

definition encode_active :: "txn_id \<times> lsn option \<Rightarrow> byte list" where
  "encode_active a = (case a of (t, l) \<Rightarrow> le64 t @ encode_optional_u64 l)"

definition encode_active_transactions :: "(txn_id \<times> lsn option) list \<Rightarrow> byte list" where
  "encode_active_transactions xs = le32 (of_nat (length xs)) @ concat (map encode_active xs)"

definition decode_active :: "byte list \<Rightarrow> nat \<Rightarrow> ((txn_id \<times> lsn option) \<times> nat) option" where
  "decode_active bs pos = do {
     (t, pos) \<leftarrow> read_u64 bs pos;
     (l, pos) \<leftarrow> decode_optional_u64 bs pos;
     Some ((t, l), pos) }"

text \<open>The loop \<open>for _ in 0..count\<close>; bytes after the last entry are ignored.\<close>

fun decode_actives :: "nat \<Rightarrow> byte list \<Rightarrow> nat \<Rightarrow> (txn_id \<times> lsn option) list option" where
  "decode_actives 0 bs pos = Some []"
| "decode_actives (Suc n) bs pos = do {
     (a, pos) \<leftarrow> decode_active bs pos;
     as \<leftarrow> decode_actives n bs pos;
     Some (a # as) }"

definition decode_active_transactions :: "byte list \<Rightarrow> (txn_id \<times> lsn option) list option" where
  "decode_active_transactions bs = do {
     xs \<leftarrow> get_slice bs 0 4;
     decode_actives (unat (from_le32 xs)) bs 4 }"

subsection \<open>Encoding and decoding one record\<close>

definition encode_body :: "log_record \<Rightarrow> byte list" where
  "encode_body r =
     le64 (lr_lsn r) @ encode_optional_u64 (lr_prev_lsn r) @ le64 (lr_txn_id r)
     @ [log_type_to_u8 (lr_type r)] @ encode_optional_u64 (lr_table_id r)
     @ encode_optional_rid (lr_rid r) @ encode_optional_rid (lr_old_rid r)
     @ encode_optional_bytes (lr_before_image r) @ encode_optional_bytes (lr_after_image r)"

definition encode_record :: "log_record \<Rightarrow> byte list" where
  "encode_record r =
     (let body = encode_body r in
      le32 (of_nat (length body + 4)) @ body @ le32 (crc32 body))"

definition decode_body :: "byte list \<Rightarrow> log_record option" where
  "decode_body body = do {
     (l, pos) \<leftarrow> read_u64 body 0;
     (prev, pos) \<leftarrow> decode_optional_u64 body pos;
     (txn, pos) \<leftarrow> read_u64 body pos;
     b \<leftarrow> get_at body pos;
     t \<leftarrow> log_type_from_u8 b;
     (table, pos) \<leftarrow> decode_optional_u64 body (pos + 1);
     (rid, pos) \<leftarrow> decode_optional_rid body pos;
     (old_rid, pos) \<leftarrow> decode_optional_rid body pos;
     (before, pos) \<leftarrow> decode_optional_bytes body pos;
     (after, pos) \<leftarrow> decode_optional_bytes body pos;
     Some \<lparr>lr_lsn = l, lr_prev_lsn = prev, lr_txn_id = txn, lr_type = t, lr_table_id = table,
       lr_rid = rid, lr_old_rid = old_rid, lr_before_image = before, lr_after_image = after\<rparr> }"

definition decode_one :: "byte list \<Rightarrow> (log_record \<times> nat) option" where
  "decode_one bs = do {
     lb \<leftarrow> get_slice bs 0 4;
     let len = unat (from_le32 lb);
     rb \<leftarrow> get_slice bs 4 (4 + len);
     if len < 4 then None
     else do {
       let body = take (len - 4) rb;
       cs \<leftarrow> get_slice rb (len - 4) len;
       if crc32 body \<noteq> from_le32 cs then None
       else do { r \<leftarrow> decode_body body; Some (r, 4 + len) } } }"

lemma decode_one_consumes: "decode_one bs = Some (r, n) \<Longrightarrow> 8 \<le> n \<and> n \<le> length bs"
  by (auto simp: decode_one_def Let_def get_slice_Some_iff bind_eq_Some_conv split: if_splits)

text \<open>The loop of \<open>decode_stream\<close> from \<open>offset\<close>: the records read and the offset where it stops.\<close>

function decode_from :: "byte list \<Rightarrow> nat \<Rightarrow> log_record list \<times> nat" where
  "decode_from bs offset =
     (if offset < length bs
      then (case decode_one (drop offset bs) of
              Some (r, n) \<Rightarrow> (case decode_from bs (offset + n) of (rs, e) \<Rightarrow> (r # rs, e))
            | None \<Rightarrow> ([], offset))
      else ([], offset))"
  by pat_completeness auto

termination
  by (relation "measure (\<lambda>(bs, offset). length bs - offset)") (auto dest!: decode_one_consumes)

declare decode_from.simps [simp del]

definition decode_stream :: "byte list \<Rightarrow> log_record list \<times> nat" where
  "decode_stream bs = decode_from bs 0"

subsection \<open>Round trips\<close>

lemma read_u64_at:
  assumes "pos \<le> length bs" "drop pos bs = le64 x @ r"
  shows "read_u64 bs pos = Some (x, pos + 8)"
  using get_slice_at [OF assms, of "pos + 8"] by (simp add: read_u64_def)

interpretation opt_u64: cursor_codec encode_optional_u64 "\<lambda>bs c. expect (decode_optional_u64 bs c)" "\<lambda>_. True"
proof
  fix x c bs r
  assume c: "c \<le> length bs" and d: "drop c bs = encode_optional_u64 x @ r"
  show "expect (decode_optional_u64 bs c) = Ok (x, c + length (encode_optional_u64 x))"
  proof (cases x)
    case None
    with d get_at_at [of c bs 0 r] show ?thesis
      by (simp add: encode_optional_u64_def decode_optional_u64_def)
  next
    case (Some n)
    with d have d1: "drop c bs = [1] @ (le64 n @ r)" by (simp add: encode_optional_u64_def)
    have "get_at bs c = Some 1" using get_at_at [of c bs 1] d1 by simp
    moreover have "read_u64 bs (c + 1) = Some (n, c + 9)"
      using read_u64_at [OF drop_advance_le [OF c d1 refl] drop_advance [OF d1 refl]] by simp
    ultimately show ?thesis using Some by (simp add: encode_optional_u64_def decode_optional_u64_def)
  qed
qed

interpretation opt_rid: cursor_codec encode_optional_rid "\<lambda>bs c. expect (decode_optional_rid bs c)" "\<lambda>_. True"
proof
  fix x c bs r
  assume c: "c \<le> length bs" and d: "drop c bs = encode_optional_rid x @ r"
  show "expect (decode_optional_rid bs c) = Ok (x, c + length (encode_optional_rid x))"
  proof (cases x)
    case None
    with d get_at_at [of c bs 0 r] show ?thesis
      by (simp add: encode_optional_rid_def decode_optional_rid_def)
  next
    case (Some rid)
    with d have d1: "drop c bs = [1] @ (le64 (rid_page rid) @ le16 (rid_slot rid) @ r)"
      by (simp add: encode_optional_rid_def)
    note c2 = drop_advance_le [OF c d1 refl] and d2 = drop_advance [OF d1 refl]
    note c3 = drop_advance_le [OF c2 d2 refl] and d3 = drop_advance [OF d2 refl]
    have "get_at bs c = Some 1" using get_at_at [of c bs 1] d1 by simp
    moreover have "read_u64 bs (c + 1) = Some (rid_page rid, c + 9)"
      using read_u64_at [OF c2 d2] by simp
    moreover have "get_slice bs (c + 9) (c + 11) = Some (le16 (rid_slot rid))"
      using get_slice_at [OF c3 d3, of "c + 11"] by (simp add: numeral_eq_Suc)
    ultimately show ?thesis using Some
      by (simp add: encode_optional_rid_def decode_optional_rid_def numeral_eq_Suc)
  qed
qed

definition image_ok :: "byte list option \<Rightarrow> bool" where
  "image_ok x = (case x of None \<Rightarrow> True | Some xs \<Rightarrow> length xs < 2 ^ 32)"

lemma le32_length: "n < 2 ^ 32 \<Longrightarrow> unat (of_nat n :: u32) = n"
  by (simp add: unat_of_nat take_bit_nat_eq_self)

interpretation opt_bytes: cursor_codec encode_optional_bytes "\<lambda>bs c. expect (decode_optional_bytes bs c)" image_ok
proof
  fix x c bs r
  assume ok: "image_ok x" and c: "c \<le> length bs" and d: "drop c bs = encode_optional_bytes x @ r"
  show "expect (decode_optional_bytes bs c) = Ok (x, c + length (encode_optional_bytes x))"
  proof (cases x)
    case None
    with d get_at_at [of c bs 0 r] show ?thesis
      by (simp add: encode_optional_bytes_def decode_optional_bytes_def)
  next
    case (Some xs)
    with d have d1: "drop c bs = [1] @ (le32 (of_nat (length xs)) @ xs @ r)"
      by (simp add: encode_optional_bytes_def)
    note c2 = drop_advance_le [OF c d1 refl] and d2 = drop_advance [OF d1 refl]
    note c3 = drop_advance_le [OF c2 d2 refl] and d3 = drop_advance [OF d2 refl]
    have n: "unat (of_nat (length xs) :: u32) = length xs"
      using ok Some by (intro le32_length) (simp add: image_ok_def)
    have "get_at bs c = Some 1" using get_at_at [of c bs 1] d1 by simp
    moreover have "get_slice bs (c + 1) (c + 5) = Some (le32 (of_nat (length xs)))"
      using get_slice_at [OF c2 d2, of "c + 5"] by simp
    moreover have "get_slice bs (c + 5) (c + 5 + length xs) = Some xs"
      using get_slice_at [of "c + 5" bs xs r "c + 5 + length xs"] c3 d3 by (simp add: add.commute)
    ultimately show ?thesis using Some n
      by (simp add: encode_optional_bytes_def decode_optional_bytes_def del: of_nat_eq_iff)
  qed
qed

interpretation active: cursor_codec encode_active "\<lambda>bs c. expect (decode_active bs c)" "\<lambda>_. True"
proof
  fix x :: "txn_id \<times> lsn option" and c bs r
  assume c: "c \<le> length bs" and d: "drop c bs = encode_active x @ r"
  obtain t l where x: "x = (t, l)" by (cases x)
  with d have d1: "drop c bs = le64 t @ (encode_optional_u64 l @ r)" by (simp add: encode_active_def)
  note c2 = drop_advance_le [OF c d1 refl] and d2 = drop_advance [OF d1 refl]
  show "expect (decode_active bs c) = Ok (x, c + length (encode_active x))"
    using read_u64_at [OF c d1] opt_u64.dec_enc [OF TrueI c2 d2]
    by (simp add: x decode_active_def encode_active_def)
qed

lemma decode_actives_at:
  assumes "pos \<le> length bs" "drop pos bs = concat (map encode_active xs) @ r"
  shows "decode_actives (length xs) bs pos = Some xs"
  using assms
proof (induction xs arbitrary: pos)
  case (Cons x xs)
  then have d: "drop pos bs = encode_active x @ (concat (map encode_active xs) @ r)" by simp
  note adv = active.advance [OF Cons.prems(1) d]
  show ?case using Cons.IH [OF adv] active.dec_enc [OF TrueI Cons.prems(1) d] by simp
qed simp

lemma log_type_from_to [simp]: "log_type_from_u8 (log_type_to_u8 t) = Some t"
  by (cases t) (auto simp: log_type_from_u8_def)

definition images_ok :: "log_record \<Rightarrow> bool" where
  "images_ok r \<longleftrightarrow> image_ok (lr_before_image r) \<and> image_ok (lr_after_image r)"

lemma decode_body_encode:
  assumes "images_ok r"
  shows "decode_body (encode_body r) = Some r"
proof -
  let ?b = "encode_body r" and ?len = "\<lambda>xs :: byte list. length xs"
  have c0: "0 \<le> length ?b" by simp
  have d0: "drop 0 ?b = le64 (lr_lsn r) @ (encode_optional_u64 (lr_prev_lsn r) @ le64 (lr_txn_id r)
     @ [log_type_to_u8 (lr_type r)] @ encode_optional_u64 (lr_table_id r)
     @ encode_optional_rid (lr_rid r) @ encode_optional_rid (lr_old_rid r)
     @ encode_optional_bytes (lr_before_image r) @ encode_optional_bytes (lr_after_image r) @ [])"
    by (simp add: encode_body_def)
  note c1 = drop_advance_le [OF c0 d0 refl] and d1 = drop_advance [OF d0 refl]
  note c2 = drop_advance_le [OF c1 d1 refl] and d2 = drop_advance [OF d1 refl]
  note c3 = drop_advance_le [OF c2 d2 refl] and d3 = drop_advance [OF d2 refl]
  note c4 = drop_advance_le [OF c3 d3 refl] and d4 = drop_advance [OF d3 refl]
  note c5 = drop_advance_le [OF c4 d4 refl] and d5 = drop_advance [OF d4 refl]
  note c6 = drop_advance_le [OF c5 d5 refl] and d6 = drop_advance [OF d5 refl]
  note c7 = drop_advance_le [OF c6 d6 refl] and d7 = drop_advance [OF d6 refl]
  note c8 = drop_advance_le [OF c7 d7 refl] and d8 = drop_advance [OF d7 refl]
  have before: "image_ok (lr_before_image r)" and after: "image_ok (lr_after_image r)"
    using assms by (auto simp: images_ok_def)
  note reads = read_u64_at [OF c0 d0] opt_u64.dec_enc [OF TrueI c1 d1] read_u64_at [OF c2 d2]
    get_at_at [OF d3 [unfolded append_Cons]] opt_u64.dec_enc [OF TrueI c4 d4]
    opt_rid.dec_enc [OF TrueI c5 d5] opt_rid.dec_enc [OF TrueI c6 d6]
    opt_bytes.dec_enc [OF before c7 d7] opt_bytes.dec_enc [OF after c8 d8]
  show ?thesis using reads by (simp add: decode_body_def)
qed

text \<open>The body of a record and its checksum must fit the 32-bit length that precedes them.\<close>

definition record_fits :: "log_record \<Rightarrow> bool" where
  "record_fits r \<longleftrightarrow> length (encode_body r) + 4 < 2 ^ 32"

lemma record_fits_images: "record_fits r \<Longrightarrow> images_ok r"
  by (auto simp: record_fits_def images_ok_def image_ok_def encode_body_def encode_optional_bytes_def
      split: option.splits)

lemma length_encode_record: "length (encode_record r) = length (encode_body r) + 8"
  by (simp add: encode_record_def Let_def)

lemma encode_record_nonempty [simp]: "encode_record r \<noteq> []"
  using length_encode_record [of r] by auto

lemma decode_one_encode:
  assumes "record_fits r"
  shows "decode_one (encode_record r @ rest) = Some (r, length (encode_record r))"
proof -
  let ?b = "encode_body r"
  let ?n = "length ?b + 4"
  let ?s = "le32 (of_nat ?n) @ (?b @ le32 (crc32 ?b)) @ rest"
  have s: "encode_record r @ rest = ?s" by (simp add: encode_record_def Let_def)
  have n: "unat (of_nat ?n :: u32) = ?n" using assms by (intro le32_length) (simp add: record_fits_def)
  have "get_slice ?s 0 4 = Some (le32 (of_nat ?n))" by (rule get_slice_at) auto
  moreover have "get_slice ?s 4 (4 + ?n) = Some (?b @ le32 (crc32 ?b))" by (rule get_slice_at) auto
  moreover have "get_slice (?b @ le32 (crc32 ?b)) (?n - 4) ?n = Some (le32 (crc32 ?b))"
    by (rule get_slice_at) auto
  ultimately show ?thesis
    unfolding s using n decode_body_encode [OF record_fits_images [OF assms]]
    by (simp add: decode_one_def length_encode_record del: of_nat_add of_nat_numeral)
qed

text \<open>A record that is cut off anywhere is not read.\<close>

lemma decode_one_cut:
  assumes "record_fits r" "k < length (encode_record r)"
  shows "decode_one (take k (encode_record r @ rest)) = None"
proof (cases "k < 4")
  case True
  then have "get_slice (take k (encode_record r @ rest)) 0 4 = None" by (simp add: get_slice_def)
  then show ?thesis by (simp add: decode_one_def)
next
  case False
  let ?b = "encode_body r"
  let ?n = "length ?b + 4"
  have n: "unat (of_nat ?n :: u32) = ?n" using assms by (intro le32_length) (simp add: record_fits_def)
  have s: "take k (encode_record r @ rest) = le32 (of_nat ?n) @ take (k - 4) (?b @ le32 (crc32 ?b))"
    using False assms(2) by (simp add: encode_record_def Let_def take_Cons' length_encode_record)
  have "get_slice (take k (encode_record r @ rest)) 0 4 = Some (le32 (of_nat ?n))"
    unfolding s by (rule get_slice_at) auto
  moreover have "get_slice (take k (encode_record r @ rest)) 4 (4 + ?n) = None"
    using assms(2) by (simp add: get_slice_def length_encode_record)
  ultimately show ?thesis using n by (simp add: decode_one_def del: of_nat_add of_nat_numeral)
qed

definition log_bytes :: "log_record list \<Rightarrow> byte list" where
  "log_bytes rs = concat (map encode_record rs)"

lemma log_bytes_simps [simp]:
  "log_bytes [] = []" "log_bytes (r # rs) = encode_record r @ log_bytes rs"
  "log_bytes (rs @ ss) = log_bytes rs @ log_bytes ss"
  by (simp_all add: log_bytes_def)

lemma decode_from_log:
  assumes "\<forall>r \<in> set rs. record_fits r" "decode_one tail = None"
  shows "decode_from (pre @ log_bytes rs @ tail) (length pre) = (rs, length pre + length (log_bytes rs))"
  using assms(1)
proof (induction rs arbitrary: pre)
  case Nil
  then show ?case using assms(2) by (subst decode_from.simps) simp
next
  case (Cons r rs)
  let ?bs = "pre @ log_bytes (r # rs) @ tail"
  have "decode_one (drop (length pre) ?bs) = Some (r, length (encode_record r))"
    using decode_one_encode [of r "log_bytes rs @ tail"] Cons.prems by simp
  moreover have "decode_from ?bs (length pre + length (encode_record r))
      = (rs, length pre + length (encode_record r) + length (log_bytes rs))"
    using Cons.IH [of "pre @ encode_record r"] Cons.prems by simp
  moreover have "length pre < length ?bs" by (simp add: length_encode_record)
  ultimately show ?case by (subst decode_from.simps) simp
qed

lemma decode_stream_log:
  "\<forall>r \<in> set rs. record_fits r \<Longrightarrow> decode_one tail = None \<Longrightarrow>
   decode_stream (log_bytes rs @ tail) = (rs, length (log_bytes rs))"
  using decode_from_log [of rs tail "[]"] by (simp add: decode_stream_def)

text \<open>Where a cut of a log falls: whole records, then a strict prefix of the next one.\<close>

lemma cut_log:
  "k \<le> length (log_bytes rs) \<Longrightarrow>
   \<exists>n tail. n \<le> length rs \<and> take k (log_bytes rs) = log_bytes (take n rs) @ tail
     \<and> (tail = [] \<or> n < length rs \<and> (\<exists>j < length (encode_record (rs ! n)). tail = take j (encode_record (rs ! n))))"
proof (induction rs arbitrary: k)
  case (Cons r rs)
  show ?case
  proof (cases "k < length (encode_record r)")
    case True
    then show ?thesis by (intro exI [of _ 0] exI [of _ "take k (encode_record r)"]) auto
  next
    case False
    then have "k - length (encode_record r) \<le> length (log_bytes rs)" using Cons.prems by simp
    from Cons.IH [OF this] obtain n tail where n: "n \<le> length rs"
      "take (k - length (encode_record r)) (log_bytes rs) = log_bytes (take n rs) @ tail"
      "tail = [] \<or> n < length rs \<and> (\<exists>j < length (encode_record (rs ! n)). tail = take j (encode_record (rs ! n)))"
      by blast
    with False show ?thesis by (intro exI [of _ "Suc n"] exI [of _ tail]) auto
  qed
qed simp

lemma decode_one_Nil: "decode_one [] = None"
  by (simp add: decode_one_def get_slice_def)

lemma decode_stream_cut:
  assumes "\<forall>r \<in> set rs. record_fits r" "k \<le> length (log_bytes rs)"
  shows "\<exists>n \<le> length rs. decode_stream (take k (log_bytes rs)) = (take n rs, length (log_bytes (take n rs)))
    \<and> length (log_bytes (take n rs)) \<le> k
    \<and> take k (log_bytes rs) = log_bytes (take n rs) @ drop (length (log_bytes (take n rs))) (take k (log_bytes rs))
    \<and> (n < length rs \<longrightarrow> k < length (log_bytes (take (Suc n) rs)))"
proof -
  obtain n tail where n: "n \<le> length rs" and t: "take k (log_bytes rs) = log_bytes (take n rs) @ tail"
    and tail: "tail = [] \<or> n < length rs \<and> (\<exists>j < length (encode_record (rs ! n)). tail = take j (encode_record (rs ! n)))"
    using cut_log [OF assms(2)] by blast
  have "decode_one tail = None"
    using tail decode_one_Nil decode_one_cut [of "rs ! n" _ "[]"] assms(1) by auto
  moreover have "\<forall>r \<in> set (take n rs). record_fits r" using assms(1) by (auto dest: in_set_takeD)
  ultimately have "decode_stream (take k (log_bytes rs)) = (take n rs, length (log_bytes (take n rs)))"
    unfolding t by (intro decode_stream_log)
  moreover have k: "k = length (log_bytes (take n rs)) + length tail"
    using assms(2) arg_cong [OF t, of length] by simp
  moreover have "k < length (log_bytes (take (Suc n) rs))" if "n < length rs"
    using tail that k by (auto simp: take_Suc_conv_app_nth length_encode_record)
  ultimately show ?thesis using n t by (intro exI [of _ n]) auto
qed

text \<open>
  A log record that fits its 32-bit length field decodes to itself, whatever follows it, and
  the reader consumes exactly its bytes; cut off anywhere, it is not read at all.
\<close>

lemma log_record_roundtrip:
  assumes "record_fits r"
  shows "decode_one (encode_record r @ rest) = Some (r, length (encode_record r))
    \<and> (\<forall>k < length (encode_record r). decode_one (take k (encode_record r)) = None)"
  using decode_one_encode [OF assms] decode_one_cut [OF assms, of _ "[]"] by simp

definition sample_begin :: "nat \<Rightarrow> log_record" where
  "sample_begin n = \<lparr>lr_lsn = of_nat n, lr_prev_lsn = None, lr_txn_id = 7, lr_type = LBegin,
     lr_table_id = None, lr_rid = None, lr_old_rid = None, lr_before_image = None, lr_after_image = None\<rparr>"

lemma sample_begin_fits: "record_fits (sample_begin n)"
  by (simp add: record_fits_def encode_body_def sample_begin_def encode_optional_u64_def
      encode_optional_rid_def encode_optional_bytes_def)

lemma log_record_roundtrip_witness:
  "decode_one (encode_record (sample_begin 3) @ [1, 2]) = Some (sample_begin 3, length (encode_record (sample_begin 3)))"
  using log_record_roundtrip [OF sample_begin_fits] by blast

text \<open>
  C15: reading a log file that was cut at an arbitrary byte \<open>k\<close> (a torn write) returns exactly the
  records that lie wholly before the cut, in order, and the offset of their end, where the writer then
  truncates the file.
\<close>

theorem decode_stream_torn:
  assumes "\<forall>r \<in> set rs. record_fits r" "k \<le> length (log_bytes rs)"
  shows "\<exists>n \<le> length rs.
    decode_stream (take k (log_bytes rs)) = (take n rs, length (log_bytes (take n rs)))
    \<and> length (log_bytes (take n rs)) \<le> k
    \<and> (n < length rs \<longrightarrow> k < length (log_bytes (take (Suc n) rs)))"
  using decode_stream_cut [OF assms] by blast

theorem decode_stream_torn_witness:
  "fst (decode_stream (take 2 (log_bytes [sample_begin 1]))) = []"
proof -
  have l: "length (log_bytes [sample_begin 1]) \<ge> 8" by (simp add: length_encode_record)
  then obtain n where n: "n \<le> 1" "length (log_bytes (take n [sample_begin 1])) \<le> 2"
    "decode_stream (take 2 (log_bytes [sample_begin 1])) = (take n [sample_begin 1], length (log_bytes (take n [sample_begin 1])))"
    using decode_stream_torn [of "[sample_begin 1]" 2] sample_begin_fits [of 1] by auto
  then have "n = 0" using l by (cases n) auto
  with n show ?thesis by simp
qed

text \<open>
  The list of active transactions that a checkpoint stores in its image decodes to itself, also
  when bytes follow.
\<close>

lemma active_transactions_roundtrip:
  assumes "length xs < 2 ^ 32"
  shows "decode_active_transactions (encode_active_transactions xs @ r) = Some xs"
proof -
  let ?bs = "encode_active_transactions xs @ r"
  have s: "get_slice ?bs 0 4 = Some (le32 (of_nat (length xs)))"
    by (rule get_slice_at) (auto simp: encode_active_transactions_def)
  have "decode_actives (length xs) ?bs 4 = Some xs"
    by (rule decode_actives_at [of _ _ _ r]) (auto simp: encode_active_transactions_def)
  with s le32_length [OF assms] show ?thesis by (simp add: decode_active_transactions_def)
qed

lemma active_transactions_roundtrip_witness:
  "decode_active_transactions (encode_active_transactions [(4, Some 9), (5, None)]) = Some [(4, Some 9), (5, None)]"
  using active_transactions_roundtrip [of "[(4, Some 9), (5, None)]" "[]"] by simp

subsection \<open>Writer\<close>

text \<open>
  The file as the operating system sees it: what was written, and how many of its first bytes are
  known to be on the disk. A write or a sync may fail; a write may fail after some bytes were written.
\<close>

record os_file =
  content :: "byte list"
  synced :: nat

datatype write_result = Written | WriteFailed nat

record wal_writer =
  w_file :: os_file
  w_buffer :: "byte list"
  w_records :: "log_record list"
  w_index :: "lsn \<rightharpoonup> nat"
  w_next_lsn :: u64
  w_durable_lsn :: u64

fun index_records :: "nat \<Rightarrow> log_record list \<Rightarrow> (lsn \<rightharpoonup> nat) \<Rightarrow> (lsn \<rightharpoonup> nat)" where
  "index_records i [] m = m"
| "index_records i (r # rs) m = index_records (Suc i) rs (m(lr_lsn r \<mapsto> i))"

text \<open>
  \<open>WalWriter::open\<close> on a file that can be opened and read; \<open>set_len\<close> is followed by \<open>sync_all\<close>. The
  additions to a log sequence number panic on overflow.
\<close>

definition wal_open :: "os_file \<Rightarrow> wal_writer outcome" where
  "wal_open f =
     (let (records, valid_len) = decode_stream (content f);
          f' = (if valid_len < length (content f)
                then \<lparr>content = take valid_len (content f), synced = valid_len\<rparr> else f);
          max_lsn = (if records = [] then 0 else lr_lsn (last records)) in
      if max_lsn = - 1 then Panic
      else Ok \<lparr>w_file = f', w_buffer = [], w_records = records, w_index = index_records 0 records Map.empty,
        w_next_lsn = max_lsn + 1, w_durable_lsn = max_lsn\<rparr>)"

definition append_record :: "wal_writer \<Rightarrow> log_record \<Rightarrow> lsn \<times> wal_writer" where
  "append_record w r =
     (lr_lsn r,
      w\<lparr>w_buffer := w_buffer w @ encode_record r,
        w_index := (w_index w)(lr_lsn r \<mapsto> length (w_records w)),
        w_records := w_records w @ [r]\<rparr>)"

definition next_lsn :: "wal_writer \<Rightarrow> (lsn \<times> wal_writer) outcome" where
  "next_lsn w =
     (if w_next_lsn w = - 1 then Panic
      else Ok (w_next_lsn w, w\<lparr>w_next_lsn := w_next_lsn w + 1\<rparr>))"

definition append_with :: "wal_writer \<Rightarrow> (lsn \<Rightarrow> log_record) \<Rightarrow> (lsn \<times> wal_writer) outcome" where
  "append_with w mk = and_then (next_lsn w) (\<lambda>(l, w). Ok (append_record w (mk l)))"

definition append_begin :: "wal_writer \<Rightarrow> txn_id \<Rightarrow> (lsn \<times> wal_writer) outcome" where
  "append_begin w txn = append_with w (\<lambda>l.
     \<lparr>lr_lsn = l, lr_prev_lsn = None, lr_txn_id = txn, lr_type = LBegin, lr_table_id = None,
      lr_rid = None, lr_old_rid = None, lr_before_image = None, lr_after_image = None\<rparr>)"

definition append_insert ::
  "wal_writer \<Rightarrow> txn_id \<Rightarrow> lsn option \<Rightarrow> table_id \<Rightarrow> record_id \<Rightarrow> byte list \<Rightarrow> (lsn \<times> wal_writer) outcome" where
  "append_insert w txn prev table rid after = append_with w (\<lambda>l.
     \<lparr>lr_lsn = l, lr_prev_lsn = prev, lr_txn_id = txn, lr_type = LInsert, lr_table_id = Some table,
      lr_rid = Some rid, lr_old_rid = None, lr_before_image = None, lr_after_image = Some after\<rparr>)"

definition append_update ::
  "wal_writer \<Rightarrow> txn_id \<Rightarrow> lsn option \<Rightarrow> table_id \<Rightarrow> record_id \<Rightarrow> record_id \<Rightarrow> byte list \<Rightarrow> byte list
   \<Rightarrow> (lsn \<times> wal_writer) outcome" where
  "append_update w txn prev table old_rid new_rid before after = append_with w (\<lambda>l.
     \<lparr>lr_lsn = l, lr_prev_lsn = prev, lr_txn_id = txn, lr_type = LUpdate, lr_table_id = Some table,
      lr_rid = Some new_rid, lr_old_rid = Some old_rid, lr_before_image = Some before,
      lr_after_image = Some after\<rparr>)"

definition append_delete ::
  "wal_writer \<Rightarrow> txn_id \<Rightarrow> lsn option \<Rightarrow> table_id \<Rightarrow> record_id \<Rightarrow> byte list \<Rightarrow> (lsn \<times> wal_writer) outcome" where
  "append_delete w txn prev table rid before = append_with w (\<lambda>l.
     \<lparr>lr_lsn = l, lr_prev_lsn = prev, lr_txn_id = txn, lr_type = LDelete, lr_table_id = Some table,
      lr_rid = Some rid, lr_old_rid = None, lr_before_image = Some before, lr_after_image = None\<rparr>)"

definition append_commit :: "wal_writer \<Rightarrow> txn_id \<Rightarrow> lsn option \<Rightarrow> (lsn \<times> wal_writer) outcome" where
  "append_commit w txn prev = append_with w (\<lambda>l.
     \<lparr>lr_lsn = l, lr_prev_lsn = prev, lr_txn_id = txn, lr_type = LCommit, lr_table_id = None,
      lr_rid = None, lr_old_rid = None, lr_before_image = None, lr_after_image = None\<rparr>)"

definition append_checkpoint :: "wal_writer \<Rightarrow> (txn_id \<times> lsn option) list \<Rightarrow> (lsn \<times> wal_writer) outcome" where
  "append_checkpoint w active = append_with w (\<lambda>l.
     \<lparr>lr_lsn = l, lr_prev_lsn = None, lr_txn_id = CHECKPOINT_TXN_ID, lr_type = LCheckpoint,
      lr_table_id = None, lr_rid = None, lr_old_rid = None, lr_before_image = None,
      lr_after_image = Some (encode_active_transactions active)\<rparr>)"

definition append_abort :: "wal_writer \<Rightarrow> txn_id \<Rightarrow> lsn option \<Rightarrow> (lsn \<times> wal_writer) outcome" where
  "append_abort w txn prev = append_with w (\<lambda>l.
     \<lparr>lr_lsn = l, lr_prev_lsn = prev, lr_txn_id = txn, lr_type = LAbort, lr_table_id = None,
      lr_rid = None, lr_old_rid = None, lr_before_image = None, lr_after_image = None\<rparr>)"

definition wal_flush :: "write_result \<Rightarrow> wal_writer \<Rightarrow> unit outcome \<times> wal_writer" where
  "wal_flush io w =
     (if w_buffer w = [] then (Ok (), w)
      else case io of
        Written \<Rightarrow>
          (Ok (), w\<lparr>w_file := (w_file w)\<lparr>content := content (w_file w) @ w_buffer w\<rparr>, w_buffer := []\<rparr>)
      | WriteFailed n \<Rightarrow>
          (Err Io, w\<lparr>w_file := (w_file w)\<lparr>content := content (w_file w) @ take n (w_buffer w)\<rparr>\<rparr>))"

definition wal_sync :: "write_result \<Rightarrow> bool \<Rightarrow> wal_writer \<Rightarrow> lsn outcome \<times> wal_writer" where
  "wal_sync io sync_ok w =
     (case wal_flush io w of
        (Ok _, w) \<Rightarrow>
          if sync_ok
          then (Ok (w_next_lsn w - 1),
                w\<lparr>w_file := (w_file w)\<lparr>synced := length (content (w_file w))\<rparr>,
                  w_durable_lsn := w_next_lsn w - 1\<rparr>)
          else (Err Io, w)
      | (Err e, w) \<Rightarrow> (Err e, w)
      | (Panic, w) \<Rightarrow> (Panic, w))"

definition sync_up_to :: "write_result \<Rightarrow> bool \<Rightarrow> wal_writer \<Rightarrow> lsn \<Rightarrow> unit outcome \<times> wal_writer" where
  "sync_up_to io sync_ok w l =
     (if l \<le> w_durable_lsn w then (Ok (), w)
      else case wal_sync io sync_ok w of (r, w) \<Rightarrow> (and_then r (\<lambda>_. Ok ()), w))"

text \<open>\<open>WalWriter::record\<close>; an index past the end of the list would panic.\<close>

definition wal_record :: "wal_writer \<Rightarrow> lsn \<Rightarrow> log_record option outcome" where
  "wal_record w l =
     (case w_index w l of
        None \<Rightarrow> Ok None
      | Some i \<Rightarrow> if i < length (w_records w) then Ok (Some (w_records w ! i)) else Panic)"

subsection \<open>Cursor of a transaction\<close>

record wal_cursor =
  cur_txn :: txn_id
  cur_prev :: "lsn option"

definition ensure_begin :: "wal_cursor \<Rightarrow> wal_writer \<Rightarrow> (wal_cursor \<times> wal_writer) outcome" where
  "ensure_begin c w =
     (case cur_prev c of
        None \<Rightarrow> and_then (append_begin w (cur_txn c)) (\<lambda>(l, w). Ok (c\<lparr>cur_prev := Some l\<rparr>, w))
      | Some _ \<Rightarrow> Ok (c, w))"

definition cursor_insert ::
  "wal_cursor \<Rightarrow> wal_writer \<Rightarrow> table_id \<Rightarrow> record_id \<Rightarrow> byte list \<Rightarrow> (lsn \<times> wal_cursor \<times> wal_writer) outcome" where
  "cursor_insert c w table rid after =
     and_then (ensure_begin c w) (\<lambda>(c, w).
     and_then (append_insert w (cur_txn c) (cur_prev c) table rid after) (\<lambda>(l, w).
     Ok (l, c\<lparr>cur_prev := Some l\<rparr>, w)))"

definition cursor_update ::
  "wal_cursor \<Rightarrow> wal_writer \<Rightarrow> table_id \<Rightarrow> record_id \<Rightarrow> record_id \<Rightarrow> byte list \<Rightarrow> byte list
   \<Rightarrow> (lsn \<times> wal_cursor \<times> wal_writer) outcome" where
  "cursor_update c w table old_rid new_rid before after =
     and_then (ensure_begin c w) (\<lambda>(c, w).
     and_then (append_update w (cur_txn c) (cur_prev c) table old_rid new_rid before after) (\<lambda>(l, w).
     Ok (l, c\<lparr>cur_prev := Some l\<rparr>, w)))"

definition cursor_delete ::
  "wal_cursor \<Rightarrow> wal_writer \<Rightarrow> table_id \<Rightarrow> record_id \<Rightarrow> byte list \<Rightarrow> (lsn \<times> wal_cursor \<times> wal_writer) outcome" where
  "cursor_delete c w table rid before =
     and_then (ensure_begin c w) (\<lambda>(c, w).
     and_then (append_delete w (cur_txn c) (cur_prev c) table rid before) (\<lambda>(l, w).
     Ok (l, c\<lparr>cur_prev := Some l\<rparr>, w)))"

subsection \<open>Runs with crashes\<close>

datatype wal_op =
    OpBegin txn_id
  | OpInsert txn_id "lsn option" table_id record_id "byte list"
  | OpUpdate txn_id "lsn option" table_id record_id record_id "byte list" "byte list"
  | OpDelete txn_id "lsn option" table_id record_id "byte list"
  | OpCommit txn_id "lsn option"
  | OpAbort txn_id "lsn option"
  | OpCheckpoint "(txn_id \<times> lsn option) list"

fun run_append :: "wal_writer \<Rightarrow> wal_op \<Rightarrow> (lsn \<times> wal_writer) outcome" where
  "run_append w (OpBegin t) = append_begin w t"
| "run_append w (OpInsert t p tb rid a) = append_insert w t p tb rid a"
| "run_append w (OpUpdate t p tb old_rid rid b a) = append_update w t p tb old_rid rid b a"
| "run_append w (OpDelete t p tb rid b) = append_delete w t p tb rid b"
| "run_append w (OpCommit t p) = append_commit w t p"
| "run_append w (OpAbort t p) = append_abort w t p"
| "run_append w (OpCheckpoint xs) = append_checkpoint w xs"

text \<open>
  Appends of records that fit; writes that succeed or fail before the first byte; syncs that succeed
  or fail; and crashes, after which the file holds what was synced and any number of the bytes written
  since, and is opened again.
\<close>

inductive wal_step :: "wal_writer \<Rightarrow> wal_writer \<Rightarrow> bool" where
  step_append:
    "run_append w op = Ok (l, w') \<Longrightarrow> record_fits (last (w_records w')) \<Longrightarrow> wal_step w w'"
| step_flush: "io = Written \<or> io = WriteFailed 0 \<Longrightarrow> wal_step w (snd (wal_flush io w))"
| step_sync: "io = Written \<or> io = WriteFailed 0 \<Longrightarrow> wal_step w (snd (wal_sync io sync_ok w))"
| step_crash:
    "synced (w_file w) \<le> k \<Longrightarrow> k \<le> length (content (w_file w)) \<Longrightarrow>
     wal_open \<lparr>content = take k (content (w_file w)), synced = k\<rparr> = Ok w' \<Longrightarrow> wal_step w w'"

inductive_cases wal_stepE: "wal_step w w'"

definition wal_init :: "wal_writer \<Rightarrow> bool" where
  "wal_init w = (wal_open \<lparr>content = [], synced = 0\<rparr> = Ok w)"

definition numbered :: "log_record list \<Rightarrow> bool" where
  "numbered rs = (\<forall>i < length rs. unat (lr_lsn (rs ! i)) = i + 1)"

definition lsn_index :: "nat \<Rightarrow> (lsn \<rightharpoonup> nat)" where
  "lsn_index n = (\<lambda>l. if 0 < unat l \<and> unat l \<le> n then Some (unat l - 1) else None)"

definition wal_inv :: "wal_writer \<Rightarrow> bool" where
  "wal_inv w \<longleftrightarrow>
     (\<forall>r \<in> set (w_records w). record_fits r)
     \<and> content (w_file w) @ w_buffer w = log_bytes (w_records w)
     \<and> numbered (w_records w)
     \<and> unat (w_next_lsn w) = length (w_records w) + 1
     \<and> w_index w = lsn_index (length (w_records w))
     \<and> unat (w_durable_lsn w) \<le> length (w_records w)
     \<and> length (log_bytes (take (unat (w_durable_lsn w)) (w_records w))) \<le> synced (w_file w)
     \<and> synced (w_file w) \<le> length (content (w_file w))"

lemma index_records_numbered:
  assumes "\<forall>j < length rs. unat (lr_lsn (rs ! j)) = i + j + 1"
  shows "index_records i rs m = (\<lambda>l. if i < unat l \<and> unat l \<le> i + length rs then Some (unat l - 1) else m l)"
  using assms
proof (induction i rs m rule: index_records.induct)
  case (2 i r rs m)
  have r: "unat (lr_lsn r) = i + 1" using "2.prems" by force
  have "\<forall>j < length rs. unat (lr_lsn (rs ! j)) = Suc i + j + 1"
    using "2.prems" by (metis Suc_less_eq add_Suc add_Suc_right length_Cons nth_Cons_Suc)
  note IH = "2.IH" [OF this]
  show ?case
  proof
    fix l
    have "l = lr_lsn r \<longleftrightarrow> unat l = i + 1" using r by (metis unsigned_word_eqI)
    then show "index_records i (r # rs) m l
        = (if i < unat l \<and> unat l \<le> i + length (r # rs) then Some (unat l - 1) else m l)"
      unfolding index_records.simps IH by auto
  qed
qed (auto simp: fun_eq_iff)

lemma append_with_inv:
  assumes inv: "wal_inv w" and a: "append_with w mk = Ok (l, w')" and mk: "\<And>l. lr_lsn (mk l) = l"
    and fits: "record_fits (last (w_records w'))"
  shows "wal_inv w'" "w_records w' = w_records w @ [mk l]" "unat l = length (w_records w) + 1"
    "w_durable_lsn w' = w_durable_lsn w" "w_file w' = w_file w" 
proof -
  from a have n: "w_next_lsn w \<noteq> - 1" and l: "l = w_next_lsn w"
    and w': "w' = w\<lparr>w_next_lsn := w_next_lsn w + 1, w_buffer := w_buffer w @ encode_record (mk l),
      w_index := (w_index w)(l \<mapsto> length (w_records w)), w_records := w_records w @ [mk l]\<rparr>"
    by (auto simp: append_with_def next_lsn_def append_record_def mk split: if_splits)
  show ul: "unat l = length (w_records w) + 1" using inv l by (simp add: wal_inv_def)
  have "(w_index w)(l \<mapsto> length (w_records w)) = lsn_index (length (w_records w) + 1)"
  proof
    fix x
    have "x = l \<longleftrightarrow> unat x = length (w_records w) + 1" using ul by (metis unsigned_word_eqI)
    then show "((w_index w)(l \<mapsto> length (w_records w))) x = lsn_index (length (w_records w) + 1) x"
      using inv by (auto simp: wal_inv_def lsn_index_def)
  qed
  moreover have "numbered (w_records w @ [mk l])"
    using inv ul by (auto simp: wal_inv_def numbered_def nth_append mk less_Suc_eq)
  ultimately show "wal_inv w'"
    using inv fits unat_Suc [OF n] by (auto simp: wal_inv_def w')
  show "w_records w' = w_records w @ [mk l]" "w_durable_lsn w' = w_durable_lsn w" "w_file w' = w_file w"
    by (simp_all add: w')
qed

lemmas append_defs = append_begin_def append_insert_def append_update_def append_delete_def
  append_commit_def append_abort_def append_checkpoint_def

lemma run_append_with: "\<exists>mk. (\<forall>l. lr_lsn (mk l) = l) \<and> run_append w op = append_with w mk"
  by (cases op; simp only: run_append.simps append_defs; intro exI conjI; (rule refl)?; simp)

lemma wal_flush_inv:
  assumes "wal_inv w" "io = Written \<or> io = WriteFailed 0"
  shows "wal_inv (snd (wal_flush io w))"
    "w_records (snd (wal_flush io w)) = w_records w" "w_next_lsn (snd (wal_flush io w)) = w_next_lsn w"
    "fst (wal_flush io w) = Ok () \<Longrightarrow> w_buffer (snd (wal_flush io w)) = []"
proof -
  have "synced (w_file w) \<le> length (log_bytes (w_records w))"
    if "content (w_file w) @ w_buffer w = log_bytes (w_records w)" "synced (w_file w) \<le> length (content (w_file w))"
    using that by (metis length_append trans_le_add1)
  with assms show "wal_inv (snd (wal_flush io w))"
    "w_records (snd (wal_flush io w)) = w_records w" "w_next_lsn (snd (wal_flush io w)) = w_next_lsn w"
    "fst (wal_flush io w) = Ok () \<Longrightarrow> w_buffer (snd (wal_flush io w)) = []"
    by (auto simp: wal_flush_def wal_inv_def split: if_splits)
qed

lemma wal_sync_inv:
  assumes "wal_inv w" "io = Written \<or> io = WriteFailed 0"
  shows "wal_inv (snd (wal_sync io sync_ok w))"
    "w_records (snd (wal_sync io sync_ok w)) = w_records w"
    "fst (wal_sync io sync_ok w) = Ok l \<Longrightarrow>
       unat l = length (w_records w) \<and> w_durable_lsn (snd (wal_sync io sync_ok w)) = l"
proof -
  obtain r w1 where f: "wal_flush io w = (r, w1)" by (cases "wal_flush io w")
  note fl = wal_flush_inv [OF assms, unfolded f, simplified]
  have "unat (w_next_lsn w - 1) = length (w_records w)"
    using assms(1) unat_minus_one [of "w_next_lsn w"] by (cases "w_next_lsn w = 0") (auto simp: wal_inv_def)
  with fl show "wal_inv (snd (wal_sync io sync_ok w))" "w_records (snd (wal_sync io sync_ok w)) = w_records w"
    "fst (wal_sync io sync_ok w) = Ok l \<Longrightarrow>
       unat l = length (w_records w) \<and> w_durable_lsn (snd (wal_sync io sync_ok w)) = l"
    by (auto simp: wal_sync_def f wal_inv_def split: outcome.splits if_splits)
qed

lemma truncated_file:
  assumes "bs = pre @ drop (length pre) bs"
  shows "(if length pre < length bs then \<lparr>content = take (length pre) bs, synced = length pre\<rparr>
      else \<lparr>content = bs, synced = length bs\<rparr>) = \<lparr>content = pre, synced = length pre\<rparr>"
proof (cases "length pre < length bs")
  case True
  have "take (length pre) bs = pre" by (subst assms) simp
  with True show ?thesis by simp
next
  case False
  then have "bs = pre" using assms by simp
  then show ?thesis by simp
qed

lemma wal_open_log:
  assumes "decode_stream bs = (rs, length (log_bytes rs))"
    and "bs = log_bytes rs @ drop (length (log_bytes rs)) bs"
    and "(if rs = [] then 0 else lr_lsn (last rs)) \<noteq> - 1" (is "?max \<noteq> _")
  shows "wal_open \<lparr>content = bs, synced = length bs\<rparr>
    = Ok \<lparr>w_file = \<lparr>content = log_bytes rs, synced = length (log_bytes rs)\<rparr>, w_buffer = [],
        w_records = rs, w_index = index_records 0 rs Map.empty,
        w_next_lsn = ?max + 1, w_durable_lsn = ?max\<rparr>"
  unfolding wal_open_def os_file.simps assms(1) prod.case Let_def truncated_file [OF assms(2)]
  by (simp only: assms(3) if_False)

text \<open>Reopening after a crash.\<close>

lemma wal_reopen:
  assumes inv: "wal_inv w" and k: "synced (w_file w) \<le> k" "k \<le> length (content (w_file w))"
  obtains n w' where "wal_open \<lparr>content = take k (content (w_file w)), synced = k\<rparr> = Ok w'"
    "wal_inv w'" "unat (w_durable_lsn w) \<le> n" "n \<le> length (w_records w)"
    "w_records w' = take n (w_records w)" "unat (w_durable_lsn w') = n"
    "length (log_bytes (take n (w_records w))) \<le> k"
proof -
  let ?rs = "w_records w"
  have rs: "\<forall>r \<in> set ?rs. record_fits r" and c: "content (w_file w) @ w_buffer w = log_bytes ?rs"
    and num: "numbered ?rs" and nx: "unat (w_next_lsn w) = length ?rs + 1"
    and dur: "unat (w_durable_lsn w) \<le> length ?rs"
    and dk: "length (log_bytes (take (unat (w_durable_lsn w)) ?rs)) \<le> synced (w_file w)"
    using inv by (auto simp: wal_inv_def)
  have ck: "take k (content (w_file w)) = take k (log_bytes ?rs)" and kl: "k \<le> length (log_bytes ?rs)"
    using k(2) by (simp_all add: c [symmetric])
  obtain n where n: "n \<le> length ?rs" "length (log_bytes (take n ?rs)) \<le> k"
    and d: "decode_stream (take k (log_bytes ?rs)) = (take n ?rs, length (log_bytes (take n ?rs)))"
    and cut: "take k (log_bytes ?rs) = log_bytes (take n ?rs)
        @ drop (length (log_bytes (take n ?rs))) (take k (log_bytes ?rs))"
    and last: "n < length ?rs \<longrightarrow> k < length (log_bytes (take (Suc n) ?rs))"
    using decode_stream_cut [OF rs kl] by blast
  have mono: "i \<le> j \<Longrightarrow> length (log_bytes (take i ?rs)) \<le> length (log_bytes (take j ?rs))" for i j
    by (metis le_add_diff_inverse length_append log_bytes_simps(3) le_add1 take_add)
  have dn: "unat (w_durable_lsn w) \<le> n"
  proof (rule ccontr)
    assume "\<not> ?thesis"
    then have "n < length ?rs" "Suc n \<le> unat (w_durable_lsn w)" using dur by simp_all
    with last mono [of "Suc n" "unat (w_durable_lsn w)"] dk k(1) show False by simp
  qed
  let ?max = "if take n ?rs = [] then 0 else lr_lsn (last (take n ?rs))"
  have umax: "unat ?max = n"
  proof (cases n)
    case (Suc m)
    then have "last (take n ?rs) = ?rs ! m" using n(1) by (simp add: take_Suc_conv_app_nth)
    with Suc n(1) num show ?thesis by (auto simp: numbered_def)
  qed simp
  then have "unat ?max < unat (w_next_lsn w)" using n(1) nx by simp
  then have nm: "?max \<noteq> - 1" by (rule below_not_max)
  let ?w = "\<lparr>w_file = \<lparr>content = log_bytes (take n ?rs), synced = length (log_bytes (take n ?rs))\<rparr>,
    w_buffer = [], w_records = take n ?rs, w_index = index_records 0 (take n ?rs) Map.empty,
    w_next_lsn = ?max + 1, w_durable_lsn = ?max\<rparr>"
  have tk: "length (take k (log_bytes ?rs)) = k" using kl by simp
  have op: "wal_open \<lparr>content = take k (content (w_file w)), synced = k\<rparr> = Ok ?w"
    using wal_open_log [OF d cut nm] unfolding tk ck .
  have num': "numbered (take n ?rs)" using num n(1) by (simp add: numbered_def)
  have "index_records 0 (take n ?rs) Map.empty = lsn_index n"
    using index_records_numbered [of "take n ?rs" 0 Map.empty] num' n(1)
    by (auto simp: numbered_def lsn_index_def fun_eq_iff)
  then have "wal_inv ?w"
    using rs num' n(1) unat_Suc [OF nm] umax by (auto simp: wal_inv_def dest: in_set_takeD)
  with op dn n umax show ?thesis by (intro that [of ?w n]) auto
qed

lemma wal_inv_step: "wal_step w w' \<Longrightarrow> wal_inv w \<Longrightarrow> wal_inv w'"
proof (elim wal_stepE)
  fix op l
  assume inv: "wal_inv w" and a: "run_append w op = Ok (l, w')" and f: "record_fits (last (w_records w'))"
  obtain mk where "\<And>l. lr_lsn (mk l) = l" "run_append w op = append_with w mk"
    using run_append_with [of w op] by blast
  with inv a f show "wal_inv w'" using append_with_inv(1) [of w mk l w'] by simp
next
  fix k
  assume inv: "wal_inv w" and k: "synced (w_file w) \<le> k" "k \<le> length (content (w_file w))"
    and op: "wal_open \<lparr>content = take k (content (w_file w)), synced = k\<rparr> = Ok w'"
  obtain n w'' where "wal_open \<lparr>content = take k (content (w_file w)), synced = k\<rparr> = Ok w''" "wal_inv w''"
    using wal_reopen [OF inv k] by metis
  with op show "wal_inv w'" by simp
qed (auto simp: wal_flush_inv wal_sync_inv)

interpretation log: state_machine wal_init wal_step wal_inv
proof unfold_locales
  fix w assume "wal_init w"
  moreover have "decode_stream [] = ([], 0)" using decode_stream_log [of "[]" "[]"] decode_one_Nil by simp
  ultimately show "wal_inv w"
    by (auto simp: wal_init_def wal_open_def wal_inv_def numbered_def lsn_index_def Let_def fun_eq_iff)
qed (rule wal_inv_step)


lemma wal_open_empty:
  "wal_open \<lparr>content = [], synced = 0\<rparr> =
   Ok \<lparr>w_file = \<lparr>content = [], synced = 0\<rparr>, w_buffer = [], w_records = [], w_index = Map.empty,
     w_next_lsn = 1, w_durable_lsn = 0\<rparr>"
  using decode_stream_log [of "[]" "[]"] decode_one_Nil by (simp add: wal_open_def Let_def)



definition empty_log :: wal_writer where
  "empty_log = \<lparr>w_file = \<lparr>content = [], synced = 0\<rparr>, w_buffer = [], w_records = [], w_index = Map.empty,
     w_next_lsn = 1, w_durable_lsn = 0\<rparr>"

definition begun_record :: log_record where
  "begun_record = sample_begin 1"

definition begun :: wal_writer where
  "begun = empty_log\<lparr>w_buffer := encode_record begun_record, w_records := [begun_record],
     w_index := [1 \<mapsto> 0], w_next_lsn := 2\<rparr>"

lemma append_begun: "append_begin empty_log 7 = Ok (1, begun)"
  by (simp add: append_begin_def append_with_def next_lsn_def append_record_def empty_log_def begun_def
      begun_record_def sample_begin_def)

lemma begun_reachable: "wal_init empty_log" "wal_step\<^sup>*\<^sup>* empty_log begun"
proof -
  show "wal_init empty_log" by (simp add: wal_init_def wal_open_empty empty_log_def)
  have "record_fits begun_record" unfolding begun_record_def by (rule sample_begin_fits)
  then have "record_fits (last (w_records begun))" by (simp add: begun_def)
  then have "wal_step empty_log begun"
    using step_append [of empty_log "OpBegin 7" 1 begun] append_begun by simp
  then show "wal_step\<^sup>*\<^sup>* empty_log begun" by blast
qed


text \<open>
  C18: a failed write poisons the log. When a write of the log fails after some bytes were written, the
  buffer is kept whole and the next sync writes it again after those bytes. That sync succeeds and
  reports the record durable, but the file now starts with a torn record, so opening it finds no
  record at all: what was committed is lost.
\<close>

theorem failed_write_loses_log:
  "let (r1, w1) = wal_sync (WriteFailed 3) True begun;
       (r2, w2) = wal_sync Written True w1 in
   r1 = Err Io \<and> r2 = Ok 1 \<and> w_durable_lsn w2 = 1 \<and> synced (w_file w2) = length (content (w_file w2))
   \<and> map_option w_records (case wal_open (w_file w2) of Ok w \<Rightarrow> Some w | _ \<Rightarrow> None) = Some []"
proof -
  let ?e = "encode_record begun_record"
  let ?bs = "take 3 ?e @ ?e"
  have l: "length (encode_body begun_record) = 23"
    by (simp add: encode_body_def begun_record_def sample_begin_def encode_optional_u64_def encode_optional_rid_def
        encode_optional_bytes_def)
  have four: "4 = Suc (Suc (Suc (Suc 0)))" by simp
  have "unat (of_nat (23 + 4) :: u32) = 27" by simp
  then have "le32 (of_nat (23 + 4)) = [27, 0, 0, 0]" unfolding le32_def four by simp
  then have h: "?e = 27 # 0 # 0 # 0 # encode_body begun_record @ le32 (crc32 (encode_body begun_record))"
    by (simp only: encode_record_def Let_def l append_Cons append_Nil)
  have s: "get_slice ?bs 0 4 = Some [27, 0, 0, 27]" by (simp add: h get_slice_def)
  have "unat (from_le32 [27, 0, 0, 27]) = 452984859" by (simp add: from_le32_def)
  moreover have "get_slice ?bs 4 (4 + 452984859) = None" by (simp add: get_slice_def length_encode_record l)
  ultimately have "decode_one ?bs = None" using s by (simp add: decode_one_def)
  then have d: "decode_stream ?bs = ([], 0)" using decode_stream_log [of "[]" ?bs] by simp
  let ?w1 = "begun\<lparr>w_file := \<lparr>content = take 3 ?e, synced = 0\<rparr>\<rparr>"
  let ?w2 = "begun\<lparr>w_file := \<lparr>content = ?bs, synced = length ?bs\<rparr>, w_buffer := [], w_durable_lsn := 1\<rparr>"
  have buf: "w_buffer begun = ?e" "w_file begun = \<lparr>content = [], synced = 0\<rparr>" "w_next_lsn begun = 2"
    by (simp_all add: begun_def empty_log_def)
  have w1: "wal_sync (WriteFailed 3) True begun = (Err Io, ?w1)"
    by (simp add: wal_sync_def wal_flush_def buf)
  have w2: "wal_sync Written True ?w1 = (Ok 1, ?w2)"
    by (simp add: wal_sync_def wal_flush_def buf)
  have "map_option w_records (case wal_open \<lparr>content = ?bs, synced = length ?bs\<rparr> of Ok w \<Rightarrow> Some w | _ \<Rightarrow> None) = Some []"
    unfolding wal_open_def os_file.simps d by simp
  then show ?thesis by (simp add: w1 w2)
qed

subsection \<open>Chains of a transaction\<close>

datatype cursor_op =
    CursorInsert table_id record_id "byte list"
  | CursorUpdate table_id record_id record_id "byte list" "byte list"
  | CursorDelete table_id record_id "byte list"

fun run_cursor :: "wal_cursor \<Rightarrow> wal_writer \<Rightarrow> cursor_op \<Rightarrow> (lsn \<times> wal_cursor \<times> wal_writer) outcome" where
  "run_cursor c w (CursorInsert t r a) = cursor_insert c w t r a"
| "run_cursor c w (CursorUpdate t old_rid r b a) = cursor_update c w t old_rid r b a"
| "run_cursor c w (CursorDelete t r b) = cursor_delete c w t r b"

text \<open>
  The records of the cursor's transaction, each linked to the one before by \<open>prev_lsn\<close>, the first one
  being its \<open>Begin\<close>; the cursor points at the last.
\<close>

definition own_records :: "txn_id \<Rightarrow> log_record list \<Rightarrow> log_record list" where
  "own_records t rs = filter (\<lambda>r. lr_txn_id r = t) rs"

fun linked_from :: "lsn option \<Rightarrow> log_record list \<Rightarrow> bool" where
  "linked_from p [] = True"
| "linked_from p (r # rs) = (lr_prev_lsn r = p \<and> linked_from (Some (lr_lsn r)) rs)"

definition cursor_linked :: "wal_cursor \<Rightarrow> wal_writer \<Rightarrow> bool" where
  "cursor_linked c w \<longleftrightarrow>
     (let mine = own_records (cur_txn c) (w_records w) in
      linked_from None mine \<and> (mine \<noteq> [] \<longrightarrow> lr_type (hd mine) = LBegin)
      \<and> cur_prev c = (if mine = [] then None else Some (lr_lsn (last mine))))"

lemma linked_from_append:
  "linked_from p (rs @ [r]) \<longleftrightarrow>
     linked_from p rs \<and> lr_prev_lsn r = (if rs = [] then p else Some (lr_lsn (last rs)))"
  by (induction rs arbitrary: p) auto

lemma cursor_linked_append:
  assumes "cursor_linked c w" "w_records w' = w_records w @ [r]" "lr_txn_id r = cur_txn c"
    and "lr_prev_lsn r = cur_prev c" "cur_prev c = None \<Longrightarrow> lr_type r = LBegin"
    and "c' = c\<lparr>cur_prev := Some (lr_lsn r)\<rparr>"
  shows "cursor_linked c' w'"
  using assms by (auto simp: cursor_linked_def own_records_def Let_def linked_from_append hd_append)

lemma append_with_records:
  "append_with w mk = Ok (l, w') \<Longrightarrow> \<exists>n. w_records w' = w_records w @ [mk n] \<and> l = lr_lsn (mk n)"
  by (auto simp: append_with_def next_lsn_def append_record_def split: if_splits)

lemma ensure_begin_linked:
  assumes "cursor_linked c w" "ensure_begin c w = Ok (c', w')"
  shows "cursor_linked c' w'" "cur_txn c' = cur_txn c" "cur_prev c' \<noteq> None"
    "\<exists>rs. w_records w' = w_records w @ rs \<and> (\<forall>r \<in> set rs. lr_txn_id r = cur_txn c)"
proof -
  have "cursor_linked c' w' \<and> cur_txn c' = cur_txn c \<and> cur_prev c' \<noteq> None
    \<and> (\<exists>rs. w_records w' = w_records w @ rs \<and> (\<forall>r \<in> set rs. lr_txn_id r = cur_txn c))"
  proof (cases "cur_prev c")
    case None
    then obtain l where a: "append_begin w (cur_txn c) = Ok (l, w')" "c' = c\<lparr>cur_prev := Some l\<rparr>"
      using assms(2) by (auto simp: ensure_begin_def and_then_Ok_iff)
    from append_with_records [OF a(1) [unfolded append_begin_def]]
    obtain r where r: "w_records w' = w_records w @ [r]" "lr_txn_id r = cur_txn c" "lr_type r = LBegin"
      "lr_prev_lsn r = None" "l = lr_lsn r"
      by force
    then have "cursor_linked c' w'"
      using assms(1) None a(2) by (intro cursor_linked_append [OF assms(1) r(1,2)]) auto
    with r a(2) show ?thesis by simp
  next
    case (Some p)
    with assms show ?thesis by (simp add: ensure_begin_def)
  qed
  then show "cursor_linked c' w'" "cur_txn c' = cur_txn c" "cur_prev c' \<noteq> None"
    "\<exists>rs. w_records w' = w_records w @ rs \<and> (\<forall>r \<in> set rs. lr_txn_id r = cur_txn c)" by blast+
qed

lemma run_cursor_split:
  assumes "run_cursor c w op = Ok (l, c', w')"
  obtains c1 w1 r where "ensure_begin c w = Ok (c1, w1)" "w_records w' = w_records w1 @ [r]" "lr_lsn r = l"
    "lr_txn_id r = cur_txn c1" "lr_prev_lsn r = cur_prev c1" "c' = c1\<lparr>cur_prev := Some l\<rparr>"
proof -
  obtain c1 w1 mk where s: "ensure_begin c w = Ok (c1, w1)" "append_with w1 mk = Ok (l, w')"
    "c' = c1\<lparr>cur_prev := Some l\<rparr>" and mk: "\<And>n. lr_txn_id (mk n) = cur_txn c1 \<and> lr_prev_lsn (mk n) = cur_prev c1"
    using assms by (cases op) (force simp: cursor_insert_def cursor_update_def cursor_delete_def
      append_insert_def append_update_def append_delete_def and_then_Ok_iff)+
  from append_with_records [OF s(2)] mk s show ?thesis by (auto intro: that)
qed

text \<open>
  The records that a transaction writes through its cursor form one chain: following \<open>prev_lsn\<close>
  from the cursor visits all records of the transaction in reverse order and ends at its \<open>Begin\<close>, which
  is written before the first change. Every operation keeps this for its own cursor and for the
  cursor of any other transaction that shares the log.
\<close>

lemma cursor_keeps_chains:
  assumes c: "cursor_linked c w" and op: "run_cursor c w op = Ok (l, c', w')"
  shows "cursor_linked c' w' \<and> cur_txn c' = cur_txn c \<and> cur_prev c' = Some l
    \<and> own_records (cur_txn c) (w_records w') \<noteq> []
    \<and> (\<forall>d. cur_txn d \<noteq> cur_txn c \<and> cursor_linked d w \<longrightarrow> cursor_linked d w')"
proof -
  obtain c1 w1 r where s: "ensure_begin c w = Ok (c1, w1)" "w_records w' = w_records w1 @ [r]" "lr_lsn r = l"
    "lr_txn_id r = cur_txn c1" "lr_prev_lsn r = cur_prev c1" "c' = c1\<lparr>cur_prev := Some l\<rparr>"
    using run_cursor_split [OF op] by metis
  note b = ensure_begin_linked [OF c s(1)]
  have "cursor_linked c' w'"
    using s b by (intro cursor_linked_append [OF b(1) s(2)]) auto
  moreover from b(4) obtain rs where "w_records w1 = w_records w @ rs" "\<forall>r \<in> set rs. lr_txn_id r = cur_txn c"
    by blast
  then have "own_records t (w_records w') = own_records t (w_records w)" if "t \<noteq> cur_txn c" for t
    using that s b(2) by (auto simp: own_records_def filter_empty_conv)
  then have "\<forall>d. cur_txn d \<noteq> cur_txn c \<and> cursor_linked d w \<longrightarrow> cursor_linked d w'"
    by (simp add: cursor_linked_def)
  ultimately show ?thesis using s b(2) by (simp add: own_records_def)
qed

lemma cursor_keeps_chains_witness:
  "\<exists>l c w. run_cursor \<lparr>cur_txn = 7, cur_prev = None\<rparr> empty_log (CursorInsert 1 (RecordId 2 3) [9]) = Ok (l, c, w)
    \<and> cursor_linked c w"
proof -
  let ?c = "\<lparr>cur_txn = 7, cur_prev = None\<rparr>"
  have "cursor_linked ?c empty_log" by (simp add: cursor_linked_def own_records_def empty_log_def)
  moreover have "\<exists>l c w. run_cursor ?c empty_log (CursorInsert 1 (RecordId 2 3) [9]) = Ok (l, c, w)"
    by (simp add: cursor_insert_def ensure_begin_def append_begin_def append_insert_def append_with_def
        next_lsn_def append_record_def empty_log_def)
  ultimately show ?thesis using cursor_keeps_chains by blast
qed

end
