(* ===== verification/Disk_Manager.thy ===== *)
theory Disk_Manager
  imports Page_Store Wal
begin

text \<open>
  The disk manager of \<open>src/src/disk_manager.rs\<close>: pages at multiples of \<open>PAGE_SIZE\<close> in a file of bytes, with the
  file header in page 0. The file is the list of its bytes; what a read or a write of the operating system
  may do wrong is an argument. The mutex only orders the calls.
\<close>

subsection \<open>Files\<close>

text \<open>What may fail in one call: the write of a page, the write of the Meta page, a read, a sync, and the log's.\<close>

record io_faults =
  io_write :: write_result
  io_meta :: write_result
  io_read_ok :: bool
  io_sync_ok :: bool
  io_wal_write :: write_result
  io_wal_sync_ok :: bool

definition no_faults :: io_faults where
  "no_faults = \<lparr>io_write = Written, io_meta = Written, io_read_ok = True, io_sync_ok = True,
     io_wal_write = Written, io_wal_sync_ok = True\<rparr>"

text \<open>Seek and write: bytes past the end appear as zeros when a write starts beyond it.\<close>

definition write_at :: "nat \<Rightarrow> byte list \<Rightarrow> byte list \<Rightarrow> byte list" where
  "write_at off bs f =
     (if bs = [] then f
      else let g = f @ replicate (off - length f) 0 in take off g @ bs @ drop (off + length bs) g)"

fun file_write :: "write_result \<Rightarrow> nat \<Rightarrow> byte list \<Rightarrow> (byte list, unit) effect" where
  "file_write Written off bs f = (Ok (), write_at off bs f)"
| "file_write (WriteFailed n) off bs f = (Err Io, write_at off (take n bs) f)"

definition file_read_exact :: "bool \<Rightarrow> nat \<Rightarrow> nat \<Rightarrow> byte list \<Rightarrow> byte list outcome" where
  "file_read_exact ok off n f =
     (if \<not> ok \<or> length f < off + n then Err Io else Ok (take n (drop off f)))"

subsection \<open>The disk manager\<close>

record disk_manager =
  dm_file :: "byte list"
  dm_page_count :: u64
  dm_io_count :: u64

definition DISK_META_PAGE_ID :: page_no where "DISK_META_PAGE_ID = 0"

definition disk_offset :: "page_no \<Rightarrow> nat" where
  "disk_offset i = unat (i * of_nat PAGE_SIZE)"

definition check_range :: "page_no \<Rightarrow> u64 \<Rightarrow> unit outcome" where
  "check_range i page_count = (if page_count \<le> i then Err PageOutOfRange else Ok ())"

text \<open>The Meta page for a page count, as \<open>init_new_file\<close> and \<open>allocate_page\<close> build it.\<close>

definition meta_page :: "u64 \<Rightarrow> page outcome" where
  "meta_page page_count =
     (let meta = page_new DISK_META_PAGE_ID PtMeta in
      and_then (file_header_encode (file_header_new page_count)) (\<lambda>h.
      and_then (put 0 h (payload meta)) (\<lambda>data. Ok (meta\<lparr>payload := data\<rparr>))))"

definition init_new_file :: "io_faults \<Rightarrow> (byte list, u64) effect" where
  "init_new_file io f =
     (case and_then (meta_page 1) page_encode of
        Err e \<Rightarrow> (Err e, f) | Panic \<Rightarrow> (Panic, f)
      | Ok bs \<Rightarrow>
          run_then (file_write (io_meta io) 0 bs f) (\<lambda>_ f.
          if io_sync_ok io then (Ok 1, f) else (Err Io, f)))"

definition verify_existing_file :: "io_faults \<Rightarrow> byte list \<Rightarrow> u64 outcome" where
  "verify_existing_file io f =
     and_then (file_read_exact (io_read_ok io) 0 PAGE_SIZE f) (\<lambda>buf.
     and_then (page_decode buf) (\<lambda>meta.
     if page_kind meta \<noteq> PtMeta then Err CorruptPage
     else
       and_then (sub_slice (payload meta) 0 FILE_HEADER_SIZE) (\<lambda>hs.
       and_then (file_header_decode hs) (\<lambda>header.
       if unat (fh_page_size header) \<noteq> PAGE_SIZE then Err CorruptPage
       else if of_nat (length f) \<noteq> fh_page_count header * of_nat PAGE_SIZE then Err CorruptPage
       else Ok (fh_page_count header)))))"

definition disk_open :: "io_faults \<Rightarrow> (byte list, disk_manager) effect" where
  "disk_open io f =
     run_then (if f = [] then init_new_file io f else (verify_existing_file io f, f)) (\<lambda>page_count f'.
     (Ok \<lparr>dm_file = f', dm_page_count = page_count, dm_io_count = 0\<rparr>, f'))"

definition disk_read_page :: "io_faults \<Rightarrow> page_no \<Rightarrow> (disk_manager, page) effect" where
  "disk_read_page io i d =
     (case and_then (check_range i (dm_page_count d)) (\<lambda>_.
           file_read_exact (io_read_ok io) (disk_offset i) PAGE_SIZE (dm_file d)) of
        Err e \<Rightarrow> (Err e, d) | Panic \<Rightarrow> (Panic, d)
      | Ok buf \<Rightarrow> (page_decode buf, d\<lparr>dm_io_count := dm_io_count d + 1\<rparr>))"

text \<open>A write of the file inside an operation of the disk manager.\<close>

definition dm_write :: "write_result \<Rightarrow> nat \<Rightarrow> byte list \<Rightarrow> (disk_manager, unit) effect" where
  "dm_write io off bs d =
     (case file_write io off bs (dm_file d) of (r, f) \<Rightarrow> (r, d\<lparr>dm_file := f\<rparr>))"

definition disk_write_page :: "io_faults \<Rightarrow> page \<Rightarrow> (disk_manager, unit) effect" where
  "disk_write_page io p d =
     (case and_then (check_range (page_id p) (dm_page_count d)) (\<lambda>_. page_encode p) of
        Err e \<Rightarrow> (Err e, d) | Panic \<Rightarrow> (Panic, d)
      | Ok bs \<Rightarrow>
          run_then (dm_write (io_write io) (disk_offset (page_id p)) bs d) (\<lambda>_ d.
          (Ok (), d\<lparr>dm_io_count := dm_io_count d + 1\<rparr>)))"

definition disk_allocate_page :: "io_faults \<Rightarrow> page_type \<Rightarrow> (disk_manager, page_no) effect" where
  "disk_allocate_page io t d =
     (let new_id = dm_page_count d; new_page_count = dm_page_count d + 1 in
      case page_encode (page_new new_id t) of
        Err e \<Rightarrow> (Err e, d) | Panic \<Rightarrow> (Panic, d)
      | Ok bs \<Rightarrow>
          run_then (dm_write (io_write io) (disk_offset new_id) bs d) (\<lambda>_ d.
          case and_then (meta_page new_page_count) page_encode of
            Err e \<Rightarrow> (Err e, d) | Panic \<Rightarrow> (Panic, d)
          | Ok ms \<Rightarrow>
              run_then (dm_write (io_meta io) 0 ms d) (\<lambda>_ d.
              (Ok new_id, d\<lparr>dm_page_count := new_page_count\<rparr>))))"

text \<open>A sync changes nothing that the program can read back.\<close>

definition disk_sync :: "io_faults \<Rightarrow> (disk_manager, unit) effect" where
  "disk_sync io d = (if io_sync_ok io then (Ok (), d) else (Err Io, d))"

subsection \<open>The pages of a file\<close>

abbreviation slice :: "nat \<Rightarrow> byte list \<Rightarrow> byte list" where
  "slice i f \<equiv> take PAGE_SIZE (drop (i * PAGE_SIZE) f)"

text \<open>A file that holds the pages \<open>ps\<close>: page \<open>i\<close> at its place under its own number, the header in page 0.\<close>

definition disk_shows :: "disk_manager \<Rightarrow> page list \<Rightarrow> bool" where
  "disk_shows d ps \<longleftrightarrow> length (dm_file d) = length ps * PAGE_SIZE \<and> dm_page_count d = of_nat (length ps)
     \<and> 0 < length ps \<and> length ps < 2 ^ 52
     \<and> (\<forall>i < length ps. page_decode (slice i (dm_file d)) = Ok (ps ! i) \<and> page_id (ps ! i) = of_nat i)
     \<and> meta_page (of_nat (length ps)) = Ok (ps ! 0)"

lemma slice_bound: "j < i \<Longrightarrow> j * n + n \<le> i * n" for n :: nat
  by (metis Suc_leI add.commute mult.commute mult_Suc_right mult_le_mono2)

lemma write_at_nth:
  assumes "off \<le> length f"
  shows "length (write_at off bs f) = max (length f) (off + length bs)"
    "k < max (length f) (off + length bs) \<Longrightarrow>
     write_at off bs f ! k = (if off \<le> k \<and> k < off + length bs then bs ! (k - off) else f ! k)"
  using assms by (auto simp: write_at_def nth_append min_def max_def split: if_splits)

lemma slice_write:
  assumes f: "length f = n * P" and i: "i \<le> n" and bs: "length bs = P"
  shows "length (write_at (i * P) bs f) = max n (Suc i) * P"
    "j < max n (Suc i) \<Longrightarrow> take P (drop (j * P) (write_at (i * P) bs f)) = (if j = i then bs else take P (drop (j * P) f))"
proof -
  have off: "i * P \<le> length f" using f i by simp
  show len: "length (write_at (i * P) bs f) = max n (Suc i) * P"
    using i write_at_nth(1) [OF off, of bs] slice_bound [of i n P]
    by (cases "i < n") (simp_all add: f bs max_def add.commute)
  assume j: "j < max n (Suc i)"
  then have up: "j * P + P \<le> max n (Suc i) * P" by (rule slice_bound)
  show "take P (drop (j * P) (write_at (i * P) bs f)) = (if j = i then bs else take P (drop (j * P) f))"
  proof (rule nth_equalityI)
    have "j * P + P \<le> n * P" if "j \<noteq> i" using that j i by (intro slice_bound) auto
    then show "length (take P (drop (j * P) (write_at (i * P) bs f))) = length (if j = i then bs else take P (drop (j * P) f))"
      using up by (auto simp: len bs f)
    fix k assume "k < length (take P (drop (j * P) (write_at (i * P) bs f)))"
    then have k: "k < P" by simp
    have le: "j * P \<le> length (write_at (i * P) bs f)" using up len by linarith
    have "j * P + k < max (length f) (i * P + length bs)"
      using k up len write_at_nth(1) [OF off, of bs] by simp
    then have at: "take P (drop (j * P) (write_at (i * P) bs f)) ! k
        = (if i * P \<le> j * P + k \<and> j * P + k < i * P + P then bs ! (j * P + k - i * P) else f ! (j * P + k))"
      using k le write_at_nth(2) [OF off, of "j * P + k" bs] by (simp add: bs)
    consider "j = i" | "j < i" | "i < j" by linarith
    then show "take P (drop (j * P) (write_at (i * P) bs f)) ! k = (if j = i then bs else take P (drop (j * P) f)) ! k"
    proof cases
      case 2
      with slice_bound [OF 2, of P] slice_bound [of j n P] i k show ?thesis unfolding at by (simp add: f)
    next
      case 3
      with slice_bound [OF 3, of P] slice_bound [of j n P] j i k show ?thesis unfolding at by (simp add: f)
    qed (use k at in simp)
  qed
qed

lemma unat_of_small: "n < 2 ^ 64 \<Longrightarrow> unat (of_nat n :: u64) = n"
  by (simp add: unsigned_of_nat take_bit_nat_eq_self)

lemma disk_offset_eq: "unat i < 2 ^ 52 \<Longrightarrow> disk_offset i = unat i * PAGE_SIZE"
  by (simp add: disk_offset_def page_consts unat_mult_lem [THEN iffD1])

lemma shows_length: "disk_shows d ps \<Longrightarrow> unat (dm_page_count d) = length ps"
  by (simp add: disk_shows_def unat_of_small)

lemma check_range_eq: "disk_shows d ps \<Longrightarrow> check_range i (dm_page_count d) = (if unat i < length ps then Ok () else Err PageOutOfRange)"
  by (simp add: check_range_def word_le_nat_alt shows_length not_less)

lemma encode_page:
  assumes "length (payload p) = PAGE_PAYLOAD_SIZE"
  obtains bs where "page_encode p = Ok bs" "length bs = PAGE_SIZE" "page_decode bs = Ok p"
  using page_encode_eq [OF assms] page_decode_encode [OF assms] that assms by (simp add: page_consts)

lemma shows_payload:
  assumes "disk_shows d ps" "i < length ps"
  shows "length (payload (ps ! i)) = PAGE_PAYLOAD_SIZE"
  using assms by (auto simp: disk_shows_def page_decode_iff page_consts)

lemma meta_page_eq:
  obtains m where "meta_page n = Ok m" "page_id m = 0" "page_kind m = PtMeta" "length (payload m) = PAGE_PAYLOAD_SIZE"
    "sub_slice (payload m) 0 FILE_HEADER_SIZE = Ok (header_prefix (file_header_new n) @ le32 (crc32 (header_prefix (file_header_new n))))"
proof -
  let ?h = "header_prefix (file_header_new n) @ le32 (crc32 (header_prefix (file_header_new n)))"
  let ?z = "\<lambda>k. replicate k (0 :: byte)"
  have "put 0 ?h ([] @ ?z 24 @ ?z (PAGE_PAYLOAD_SIZE - 24)) = Ok ([] @ ?h @ ?z (PAGE_PAYLOAD_SIZE - 24))"
    by (rule put_at) simp_all
  moreover have "?z 24 @ ?z (PAGE_PAYLOAD_SIZE - 24) = ?z PAGE_PAYLOAD_SIZE"
    by (simp add: replicate_add [symmetric] page_consts)
  ultimately have "meta_page n = Ok ((page_new 0 PtMeta)\<lparr>payload := ?h @ ?z (PAGE_PAYLOAD_SIZE - 24)\<rparr>)"
    by (simp add: meta_page_def file_header_encode_eq DISK_META_PAGE_ID_def page_new_def)
  moreover have "sub_slice ([] @ ?h @ ?z (PAGE_PAYLOAD_SIZE - 24)) 0 FILE_HEADER_SIZE = Ok ?h"
    by (rule sub_slice_at) (simp_all add: FILE_HEADER_SIZE_def)
  ultimately show ?thesis using that by (simp add: page_new_def page_consts)
qed

lemma disk_read_shows:
  assumes d: "disk_shows d ps" and ok: "io_read_ok io"
  shows "disk_read_page io i d =
    (store_get ps i, if unat i < length ps then d\<lparr>dm_io_count := dm_io_count d + 1\<rparr> else d)"
proof (cases "unat i < length ps")
  case True
  then have "unat i * PAGE_SIZE + PAGE_SIZE \<le> length ps * PAGE_SIZE" by (rule slice_bound)
  moreover have "unat i < 2 ^ 52" using True d unfolding disk_shows_def by linarith
  ultimately have "file_read_exact True (disk_offset i) PAGE_SIZE (dm_file d) = Ok (slice (unat i) (dm_file d))"
    using d by (simp add: file_read_exact_def disk_offset_eq disk_shows_def)
  moreover have "page_decode (slice (unat i) (dm_file d)) = Ok (ps ! unat i)" using True d by (simp add: disk_shows_def)
  ultimately show ?thesis using True ok by (simp add: disk_read_page_def check_range_eq [OF d] store_get_def)
qed (simp add: disk_read_page_def check_range_eq [OF d] store_get_def)

text \<open>Overwriting one page, or appending one.\<close>

lemma write_page_slices:
  assumes d: "disk_shows d ps" and i: "i \<le> length ps" and p: "page_decode bs = Ok p" "length bs = PAGE_SIZE" "page_id p = of_nat i"
  shows "length (write_at (i * PAGE_SIZE) bs (dm_file d)) = max (length ps) (Suc i) * PAGE_SIZE"
    "j < max (length ps) (Suc i) \<Longrightarrow>
      page_decode (slice j (write_at (i * PAGE_SIZE) bs (dm_file d))) = Ok (if j = i then p else ps ! j)
      \<and> page_id (if j = i then p else ps ! j) = of_nat j"
proof -
  have len: "length (dm_file d) = length ps * PAGE_SIZE" using d by (simp add: disk_shows_def)
  show "length (write_at (i * PAGE_SIZE) bs (dm_file d)) = max (length ps) (Suc i) * PAGE_SIZE"
    by (rule slice_write(1) [OF len i p(2)])
  assume "j < max (length ps) (Suc i)"
  moreover from this i have "j \<noteq> i \<Longrightarrow> j < length ps" by auto
  ultimately show "page_decode (slice j (write_at (i * PAGE_SIZE) bs (dm_file d))) = Ok (if j = i then p else ps ! j)
      \<and> page_id (if j = i then p else ps ! j) = of_nat j"
    using slice_write(2) [OF len i p(2)] p d by (auto simp: disk_shows_def)
qed

lemma disk_write_shows:
  assumes d: "disk_shows d ps" and i: "unat (page_id p) < length ps" "page_id p \<noteq> 0"
    and p: "length (payload p) = PAGE_PAYLOAD_SIZE" and io: "io_write io = Written"
  shows "\<exists>d'. disk_write_page io p d = (Ok (), d') \<and> disk_shows d' (store_put ps (page_id p) p)"
proof -
  obtain bs where bs: "page_encode p = Ok bs" "length bs = PAGE_SIZE" "page_decode bs = Ok p" by (rule encode_page [OF p])
  let ?i = "unat (page_id p)" and ?d = "d\<lparr>dm_file := write_at (unat (page_id p) * PAGE_SIZE) bs (dm_file d), dm_io_count := dm_io_count d + 1\<rparr>"
  have small: "?i < 2 ^ 52" using i d unfolding disk_shows_def by linarith
  have pos: "0 < ?i" using i(2) by (simp add: unat_gt_0)
  note w = write_page_slices [OF d less_imp_le [OF i(1)] bs(3,2), simplified]
  have "disk_shows ?d (store_put ps (page_id p) p)"
    using d w i pos by (auto simp: disk_shows_def store_put_def nth_list_update max_def)
  moreover have "disk_write_page io p d = (Ok (), ?d)"
    using bs(1) i io small by (simp add: disk_write_page_def check_range_eq [OF d] dm_write_def disk_offset_eq)
  ultimately show ?thesis by blast
qed

lemma disk_allocate_shows:
  assumes d: "disk_shows d ps" and room: "Suc (length ps) < 2 ^ 52" and io: "io_write io = Written" "io_meta io = Written"
  shows "\<exists>d' m. disk_allocate_page io t d = (Ok (of_nat (length ps)), d')
    \<and> disk_shows d' ((ps @ [page_new (of_nat (length ps)) t])[0 := m])"
proof -
  let ?n = "length ps" and ?p = "page_new (of_nat (length ps)) t"
  have len: "length (payload ?p) = PAGE_PAYLOAD_SIZE" by (simp add: page_new_def)
  obtain bs where bs: "page_encode ?p = Ok bs" "length bs = PAGE_SIZE" "page_decode bs = Ok ?p" by (rule encode_page [OF len])
  obtain m where m: "meta_page (of_nat (Suc ?n)) = Ok m" "page_id m = 0" "length (payload m) = PAGE_PAYLOAD_SIZE"
    by (rule meta_page_eq)
  obtain ms where ms: "page_encode m = Ok ms" "length ms = PAGE_SIZE" "page_decode ms = Ok m" by (rule encode_page [OF m(3)])
  have succ: "of_nat ?n + 1 = (of_nat (Suc ?n) :: u64)" by simp
  have n: "dm_page_count d = of_nat ?n" "0 < ?n" using d by (simp_all add: disk_shows_def)
  have small: "?n < 2 ^ 52" using room by simp
  then have off: "disk_offset (of_nat ?n) = ?n * PAGE_SIZE" using disk_offset_eq [of "of_nat ?n"] unat_of_small [of ?n] by simp
  let ?f1 = "write_at (?n * PAGE_SIZE) bs (dm_file d)"
  let ?f2 = "write_at 0 ms ?f1"
  have id: "page_id ?p = of_nat ?n" by (simp add: page_new_def)
  note w1 = write_page_slices [OF d order_refl bs(3,2) id, simplified]
  have len1: "length ?f1 = Suc ?n * PAGE_SIZE" using w1(1) by simp
  note w2 = slice_write [OF len1 le0 ms(2), simplified]
  have d2: "length ?f2 = Suc ?n * PAGE_SIZE" "j < Suc ?n \<Longrightarrow> slice j ?f2 = (if j = 0 then ms else slice j ?f1)" for j
    using w2 by auto
  let ?d = "d\<lparr>dm_file := ?f2, dm_page_count := of_nat (Suc ?n)\<rparr>"
  let ?ps = "(ps @ [?p])[0 := m]"
  have "page_decode (slice j ?f2) = Ok (?ps ! j) \<and> page_id (?ps ! j) = of_nat j" if j: "j < Suc ?n" for j
  proof (cases "j = 0")
    case True
    then show ?thesis using d2(2) [OF j] ms(3) m(2) by simp
  next
    case False
    then have "?ps ! j = (if j = ?n then ?p else ps ! j)" using j by (auto simp: nth_append less_Suc_eq)
    then show ?thesis using d2(2) [OF j] w1(2) [of j] j False by simp
  qed
  moreover have "length ?ps = Suc ?n" "?ps ! 0 = m" by simp_all
  moreover have "dm_file ?d = ?f2" "dm_page_count ?d = of_nat (Suc ?n)" by (simp_all del: of_nat_Suc)
  moreover note d2(1)
  ultimately have "disk_shows ?d ?ps"
    unfolding disk_shows_def using m(1) room by (metis zero_less_Suc)
  moreover have "disk_allocate_page io t d = (Ok (of_nat ?n), ?d)"
    using bs(1) m(1) ms(1) io by (simp add: disk_allocate_page_def n(1) dm_write_def off Let_def succ del: of_nat_Suc)
  ultimately show ?thesis by blast
qed

lemma disk_open_shows:
  assumes d: "disk_shows d ps" and ok: "io_read_ok io"
  shows "disk_open io (dm_file d) = (Ok (d\<lparr>dm_io_count := 0\<rparr>), dm_file d)"
proof -
  let ?n = "length ps" and ?c = "of_nat (length ps) :: u64"
  have f: "length (dm_file d) = ?n * PAGE_SIZE" "0 < ?n" "dm_page_count d = ?c" "?n < 2 ^ 52" using d by (simp_all add: disk_shows_def)
  have "0 < PAGE_SIZE" by (simp add: page_consts)
  then have ne: "dm_file d \<noteq> []" using f(1,2) by (metis length_greater_0_conv nat_0_less_mult_iff)
  obtain m where m: "meta_page ?c = Ok m" "page_kind m = PtMeta"
    "sub_slice (payload m) 0 FILE_HEADER_SIZE = Ok (header_prefix (file_header_new ?c) @ le32 (crc32 (header_prefix (file_header_new ?c))))"
    by (rule meta_page_eq)
  have m0: "ps ! 0 = m" using d m(1) by (simp add: disk_shows_def)
  have "file_read_exact True 0 PAGE_SIZE (dm_file d) = Ok (slice 0 (dm_file d))"
    using f slice_bound [of 0 ?n PAGE_SIZE] by (simp add: file_read_exact_def)
  moreover have "page_decode (slice 0 (dm_file d)) = Ok m" using d f(2) m0 unfolding disk_shows_def by blast
  moreover have "file_header_decode (header_prefix (file_header_new ?c) @ le32 (crc32 (header_prefix (file_header_new ?c)))) = Ok (file_header_new ?c)"
    by (simp add: file_header_decode_iff)
  moreover have "of_nat (length (dm_file d)) = ?c * of_nat PAGE_SIZE" using f(1) by simp
  ultimately show ?thesis
    using ok m(2,3) f(3) ne by (simp add: disk_open_def verify_existing_file_def file_header_new_def page_consts)
qed

lemma disk_open_new:
  assumes "io_meta io = Written" "io_sync_ok io"
  shows "\<exists>d m. disk_open io [] = (Ok d, dm_file d) \<and> disk_shows d [m]"
proof -
  obtain m where m: "meta_page 1 = Ok m" "page_id m = 0" "length (payload m) = PAGE_PAYLOAD_SIZE" by (rule meta_page_eq)
  obtain ms where ms: "page_encode m = Ok ms" "length ms = PAGE_SIZE" "page_decode ms = Ok m" by (rule encode_page [OF m(3)])
  have "ms \<noteq> []" using ms(2) by (auto simp: page_consts)
  then have "disk_open io [] = (Ok \<lparr>dm_file = ms, dm_page_count = 1, dm_io_count = 0\<rparr>, ms)"
    using assms m(1) ms(1) by (simp add: disk_open_def init_new_file_def write_at_def)
  moreover have "disk_shows \<lparr>dm_file = ms, dm_page_count = 1, dm_io_count = 0\<rparr> [m]"
    using m ms by (simp add: disk_shows_def)
  ultimately show ?thesis by (metis disk_manager.select_convs(1))
qed

lemma disk_write_failed: "io_write io = WriteFailed 0 \<Longrightarrow> snd (disk_write_page io p d) = d"
  by (simp add: disk_write_page_def dm_write_def write_at_def split: outcome.splits)

subsection \<open>Runs\<close>

text \<open>The calls on a file and what they answered; \<open>Reopened\<close> closes the file and opens it again.\<close>

datatype disk_event =
    Allocated page_type page_no
  | WrotePage page
  | WriteRefused page
  | ReadPage page_no "page outcome"
  | Reopened

inductive disk_step :: "disk_manager \<Rightarrow> disk_event \<Rightarrow> disk_manager \<Rightarrow> bool" where
  allocate: "dm_page_count d < 2 ^ 52 - 1 \<Longrightarrow> disk_allocate_page no_faults t d = (Ok i, d') \<Longrightarrow> disk_step d (Allocated t i) d'"
| write_page: "page_id p \<noteq> 0 \<Longrightarrow> length (payload p) = PAGE_PAYLOAD_SIZE \<Longrightarrow> disk_write_page no_faults p d = (Ok (), d') \<Longrightarrow>
    disk_step d (WrotePage p) d'"
| write_refused: "length (payload p) = PAGE_PAYLOAD_SIZE \<Longrightarrow> io_write io = WriteFailed 0 \<Longrightarrow>
    disk_write_page io p d = (r, d') \<Longrightarrow> disk_step d (WriteRefused p) d'"
| read_page: "disk_read_page no_faults i d = (r, d') \<Longrightarrow> disk_step d (ReadPage i r) d'"
| reopen: "disk_open no_faults (dm_file d) = (Ok d', f) \<Longrightarrow> disk_step d Reopened d'"

fun page_list_event :: "page list \<Rightarrow> disk_event \<Rightarrow> page list \<Rightarrow> bool" where
  "page_list_event ps (Allocated t i) ps' \<longleftrightarrow>
    unat i = length ps \<and> length ps' = Suc (length ps) \<and> tl ps' = tl ps @ [page_new i t]"
| "page_list_event ps (WrotePage p) ps' \<longleftrightarrow> unat (page_id p) < length ps \<and> ps' = ps[unat (page_id p) := p]"
| "page_list_event ps (WriteRefused p) ps' \<longleftrightarrow> ps' = ps"
| "page_list_event ps (ReadPage i r) ps' \<longleftrightarrow>
    r = (if unat i < length ps then Ok (ps ! unat i) else Err PageOutOfRange) \<and> ps' = ps"
| "page_list_event ps Reopened ps' \<longleftrightarrow> ps' = ps"

lemma disk_event_step:
  assumes d: "disk_shows d ps" and step: "disk_step d l d'"
  shows "\<exists>ps'. page_list_event ps l ps' \<and> disk_shows d' ps'"
  using step
proof cases
  case (allocate t i)
  have room: "Suc (length ps) < 2 ^ 52" and ne: "ps \<noteq> []"
    using allocate(2) shows_length [OF d] d by (auto simp: word_less_nat_alt disk_shows_def)
  from disk_allocate_shows [OF d room, of no_faults t] obtain m where
    "i = of_nat (length ps)" "disk_shows d' ((ps @ [page_new i t])[0 := m])"
    using allocate(3) by (auto simp: no_faults_def)
  moreover have "tl ((ps @ [page_new i t])[0 := m]) = tl ps @ [page_new i t]" using ne by (cases ps) simp_all
  ultimately show ?thesis using allocate(1) room by (intro exI [of _ "(ps @ [page_new i t])[0 := m]"]) (simp add: unat_of_small)
next
  case (write_page p)
  have i: "unat (page_id p) < length ps"
    using write_page(4) by (rule_tac ccontr) (simp add: disk_write_page_def check_range_eq [OF d])
  from disk_write_shows [OF d i write_page(2,3), of no_faults] write_page(1,4) i show ?thesis
    by (auto simp: no_faults_def store_put_def)
next
  case (write_refused p io r)
  then have "d' = d" using disk_write_failed [of io p d] by simp
  with d write_refused(1) show ?thesis by simp
next
  case (read_page i r)
  with disk_read_shows [OF d, of no_faults i] d show ?thesis
    by (auto simp: no_faults_def store_get_def disk_shows_def split: if_splits)
next
  case (reopen f)
  with disk_open_shows [OF d, of no_faults] d show ?thesis by (auto simp: no_faults_def disk_shows_def)
qed

interpretation page_file: simulation disk_step page_list_event disk_shows
  by unfold_locales (rule disk_event_step)



end
