(* ===== verification/Buffer_Pool.thy ===== *)
theory Buffer_Pool
  imports Disk_Manager
begin

text \<open>
  The buffer pool of \<open>src/src/buffer_pool.rs\<close>: frames over a disk manager, the page table, pins, the clock,
  writing back with the log first, and the guards as pairs of pin and unpin. The pool's own lock and the
  latches of the frames order the calls of threads; the model runs one call after another, with any number
  of guards open. The counters of hits, misses and pins are words.
\<close>

subsection \<open>State\<close>

record frame_meta =
  occupant :: "page_no option"
  pin_count :: u32
  dirty :: bool
  referenced :: bool
  fm_lsn :: lsn

definition frame_meta_empty :: frame_meta where
  "frame_meta_empty = \<lparr>occupant = None, pin_count = 0, dirty = False, referenced = False, fm_lsn = 0\<rparr>"

record buffer_pool =
  bp_disk :: disk_manager
  bp_frames :: "page option list"
  bp_table :: "page_no \<rightharpoonup> nat"
  bp_meta :: "frame_meta list"
  bp_hand :: nat
  bp_hits :: u64
  bp_misses :: u64
  bp_wal :: "wal_writer option"

definition pool_new :: "disk_manager \<Rightarrow> nat \<Rightarrow> buffer_pool outcome" where
  "pool_new disk cap =
     (if cap = 0 then Panic
      else Ok \<lparr>bp_disk = disk, bp_frames = replicate cap None, bp_table = Map.empty,
        bp_meta = replicate cap frame_meta_empty, bp_hand = 0, bp_hits = 0, bp_misses = 0, bp_wal = None\<rparr>)"

definition pool_capacity :: "buffer_pool \<Rightarrow> nat" where
  "pool_capacity p = length (bp_frames p)"

definition attach_wal :: "wal_writer \<Rightarrow> buffer_pool \<Rightarrow> buffer_pool" where
  "attach_wal w p = p\<lparr>bp_wal := Some w\<rparr>"

definition pool_page_count :: "buffer_pool \<Rightarrow> u64" where
  "pool_page_count p = dm_page_count (bp_disk p)"

definition pool_stats :: "buffer_pool \<Rightarrow> u64 \<times> u64" where
  "pool_stats p = (bp_hits p, bp_misses p)"

definition set_meta :: "nat \<Rightarrow> (frame_meta \<Rightarrow> frame_meta) \<Rightarrow> buffer_pool \<Rightarrow> buffer_pool" where
  "set_meta f g p = p\<lparr>bp_meta := (bp_meta p)[f := g (bp_meta p ! f)]\<rparr>"

definition set_frame :: "nat \<Rightarrow> page option \<Rightarrow> buffer_pool \<Rightarrow> buffer_pool" where
  "set_frame f pg p = p\<lparr>bp_frames := (bp_frames p)[f := pg]\<rparr>"

definition bump_page_lsn :: "page_no \<Rightarrow> lsn \<Rightarrow> buffer_pool \<Rightarrow> buffer_pool" where
  "bump_page_lsn i l p =
     (case bp_table p i of
        None \<Rightarrow> p
      | Some f \<Rightarrow> set_meta f (\<lambda>m. if fm_lsn m < l then m\<lparr>fm_lsn := l\<rparr> else m) p)"

subsection \<open>Writing back\<close>

definition on_disk :: "(disk_manager, 'a) effect \<Rightarrow> (buffer_pool, 'a) effect" where
  "on_disk f p = (case f (bp_disk p) of (r, d) \<Rightarrow> (r, p\<lparr>bp_disk := d\<rparr>))"

text \<open>The log up to the page's LSN first, if a log is attached.\<close>

definition sync_log :: "io_faults \<Rightarrow> lsn \<Rightarrow> (buffer_pool, unit) effect" where
  "sync_log io l p =
     (case bp_wal p of
        None \<Rightarrow> (Ok (), p)
      | Some w \<Rightarrow> (case sync_up_to (io_wal_write io) (io_wal_sync_ok io) w l of (r, w) \<Rightarrow> (r, p\<lparr>bp_wal := Some w\<rparr>)))"

text \<open>The steps \<open>flush_frame\<close> and \<open>evict\<close> share: log, LSN into the page, page to the disk.\<close>

definition write_back :: "io_faults \<Rightarrow> nat \<Rightarrow> lsn \<Rightarrow> (buffer_pool, unit) effect" where
  "write_back io f l p =
     run_then (sync_log io l p) (\<lambda>_ p.
     case bp_frames p ! f of
       None \<Rightarrow> (Ok (), p)
     | Some pg \<Rightarrow>
         (let pg = pg\<lparr>page_lsn := l\<rparr> in
          on_disk (disk_write_page io pg) (set_frame f (Some pg) p)))"

definition flush_frame :: "io_faults \<Rightarrow> nat \<Rightarrow> (buffer_pool, unit) effect" where
  "flush_frame io f p =
     run_then (write_back io f (fm_lsn (bp_meta p ! f)) p) (\<lambda>_ p. (Ok (), set_meta f (\<lambda>m. m\<lparr>dirty := False\<rparr>) p))"

definition flush_page :: "io_faults \<Rightarrow> page_no \<Rightarrow> (buffer_pool, unit) effect" where
  "flush_page io i p =
     (case bp_table p i of
        None \<Rightarrow> (Ok (), p)
      | Some f \<Rightarrow> if dirty (bp_meta p ! f) then flush_frame io f p else (Ok (), p))"

fun flush_frames :: "(nat \<Rightarrow> io_faults) \<Rightarrow> nat list \<Rightarrow> (buffer_pool, unit) effect" where
  "flush_frames io [] p = (Ok (), p)"
| "flush_frames io (f # fs) p = run_then (flush_frame (io f) f p) (\<lambda>_ p. flush_frames io fs p)"

definition flush_all :: "(nat \<Rightarrow> io_faults) \<Rightarrow> (buffer_pool, unit) effect" where
  "flush_all io p = flush_frames io (filter (\<lambda>f. dirty (bp_meta p ! f)) [0..<pool_capacity p]) p"

definition pool_sync :: "io_faults \<Rightarrow> (buffer_pool, unit) effect" where
  "pool_sync io p = on_disk (disk_sync io) p"

subsection \<open>The clock\<close>

text \<open>
  The loop of \<open>evict\<close> up to the victim: at most \<open>n\<close> frames from the hand on, over the free and the pinned
  ones, clearing reference bits. The frame, the new hand and the new reference bits.
\<close>

fun clock_sweep :: "nat \<Rightarrow> nat \<Rightarrow> frame_meta list \<Rightarrow> nat option \<times> nat \<times> frame_meta list" where
  "clock_sweep 0 hand ms = (None, hand, ms)"
| "clock_sweep (Suc n) hand ms =
    (let m = ms ! hand; hand' = (hand + 1) mod length ms in
     if occupant m = None \<or> 0 < pin_count m then clock_sweep n hand' ms
     else if referenced m then clock_sweep n hand' (ms[hand := m\<lparr>referenced := False\<rparr>])
     else (Some hand, hand', ms))"

text \<open>The rest of \<open>evict\<close>: the frame is marked empty before its page is written back.\<close>

definition evict_frame :: "io_faults \<Rightarrow> nat \<Rightarrow> (buffer_pool, nat) effect" where
  "evict_frame io f p =
     (case occupant (bp_meta p ! f) of
        None \<Rightarrow> (Panic, p)
      | Some evicted_id \<Rightarrow>
          (let m = bp_meta p ! f; p = set_meta f (\<lambda>m. m\<lparr>occupant := None\<rparr>) p in
           run_then (if dirty m then write_back io f (fm_lsn m) p else (Ok (), p)) (\<lambda>_ p.
           let p = set_frame f None p in (Ok f, p\<lparr>bp_table := (bp_table p)(evicted_id := None)\<rparr>))))"

definition evict :: "io_faults \<Rightarrow> (buffer_pool, nat) effect" where
  "evict io p =
     (case clock_sweep (2 * pool_capacity p) (bp_hand p) (bp_meta p) of
        (victim, hand, ms) \<Rightarrow>
          (let p = p\<lparr>bp_hand := hand, bp_meta := ms\<rparr> in
           case victim of None \<Rightarrow> (Err BufferPoolFull, p) | Some f \<Rightarrow> evict_frame io f p))"

subsection \<open>Pins and guards\<close>

definition free_frame :: "io_faults \<Rightarrow> (buffer_pool, nat) effect" where
  "free_frame io p =
     (case position (\<lambda>m. occupant m = None) (bp_meta p) of Some f \<Rightarrow> (Ok f, p) | None \<Rightarrow> evict io p)"

definition locate_or_load :: "io_faults \<Rightarrow> page_no \<Rightarrow> (buffer_pool, nat) effect" where
  "locate_or_load io i p =
     (case bp_table p i of
        Some f \<Rightarrow> (Ok f, p\<lparr>bp_hits := bp_hits p + 1\<rparr>)
      | None \<Rightarrow>
          (let p = p\<lparr>bp_misses := bp_misses p + 1\<rparr> in
           run_then (free_frame io p) (\<lambda>f p.
           run_then (on_disk (disk_read_page io i) p) (\<lambda>pg p.
           let m = \<lparr>occupant = Some i, pin_count = 0, dirty = False, referenced = False, fm_lsn = page_lsn pg\<rparr>;
               p = set_meta f (\<lambda>_. m) (set_frame f (Some pg) p) in
           (Ok f, p\<lparr>bp_table := (bp_table p)(i \<mapsto> f)\<rparr>)))))"

definition locate_and_pin :: "io_faults \<Rightarrow> page_no \<Rightarrow> (buffer_pool, nat) effect" where
  "locate_and_pin io i p =
     run_then (locate_or_load io i p) (\<lambda>f p.
     (Ok f, set_meta f (\<lambda>m. m\<lparr>pin_count := pin_count m + 1, referenced := True\<rparr>) p))"

definition saturating_dec :: "u32 \<Rightarrow> u32" where
  "saturating_dec n = (if n = 0 then 0 else n - 1)"

definition unpin :: "nat \<Rightarrow> bool \<Rightarrow> buffer_pool \<Rightarrow> buffer_pool" where
  "unpin f mark_dirty p =
     set_meta f (\<lambda>m. m\<lparr>pin_count := saturating_dec (pin_count m), dirty := mark_dirty \<or> dirty m\<rparr>) p"

text \<open>What a guard on frame \<open>f\<close> shows and changes.\<close>

definition guard_page :: "nat \<Rightarrow> buffer_pool \<Rightarrow> page outcome" where
  "guard_page f p = expect (bp_frames p ! f)"

definition guard_data_mut :: "nat \<Rightarrow> (byte list \<Rightarrow> byte list) \<Rightarrow> buffer_pool \<Rightarrow> buffer_pool" where
  "guard_data_mut f g p = set_frame f (map_option (\<lambda>pg. pg\<lparr>payload := g (payload pg)\<rparr>) (bp_frames p ! f)) p"

definition guard_set_page_type :: "nat \<Rightarrow> page_type \<Rightarrow> buffer_pool \<Rightarrow> buffer_pool" where
  "guard_set_page_type f t p = set_frame f (map_option (\<lambda>pg. pg\<lparr>page_kind := t\<rparr>) (bp_frames p ! f)) p"

definition pool_page_lsn :: "io_faults \<Rightarrow> page_no \<Rightarrow> (buffer_pool, lsn) effect" where
  "pool_page_lsn io i p =
     run_then (locate_and_pin io i p) (\<lambda>f p. (Ok (fm_lsn (bp_meta p ! f)), unpin f False p))"

definition pool_allocate :: "io_faults \<Rightarrow> page_type \<Rightarrow> (buffer_pool, page_no) effect" where
  "pool_allocate io t p = on_disk (disk_allocate_page io t) p"

text \<open>A read guard and a write guard that are opened, used and dropped.\<close>

definition pool_read :: "io_faults \<Rightarrow> page_no \<Rightarrow> (buffer_pool, page) effect" where
  "pool_read io i p =
     run_then (locate_and_pin io i p) (\<lambda>f p. (guard_page f p, unpin f False p))"

definition pool_write :: "io_faults \<Rightarrow> page_no \<Rightarrow> page_type \<Rightarrow> byte list \<Rightarrow> (buffer_pool, unit) effect" where
  "pool_write io i t data p =
     run_then (locate_and_pin io i p) (\<lambda>f p.
     (Ok (), unpin f True (guard_set_page_type f t (guard_data_mut f (\<lambda>_. data) p))))"

subsection \<open>The clock finds a victim\<close>

definition unref :: "frame_meta \<Rightarrow> frame_meta" where
  "unref m = m\<lparr>referenced := False\<rparr>"

lemma unref_eq: "unref a = unref b \<Longrightarrow> occupant a = occupant b \<and> pin_count a = pin_count b \<and> dirty a = dirty b \<and> fm_lsn a = fm_lsn b"
  by (cases a; cases b) (simp add: unref_def)

lemma hand_less: "h < n \<Longrightarrow> k mod n < n" for h k n :: nat
  by (rule mod_less_divisor) linarith

lemma sweep_unref: "clock_sweep n h ms = (v, h', ms') \<Longrightarrow> map unref ms' = map unref ms"
proof (induction n h ms rule: clock_sweep.induct)
  case (2 n h ms)
  have "map unref (ms[h := (ms ! h)\<lparr>referenced := False\<rparr>]) = map unref ms"
    by (cases "h < length ms") (simp_all add: map_update unref_def list_update_same_conv list_update_beyond)
  with 2 show ?case by (auto simp: Let_def split: if_splits)
qed simp

lemma sweep_victim:
  "clock_sweep n h ms = (v, h', ms') \<Longrightarrow> h < length ms \<Longrightarrow>
   h' < length ms \<and> (\<forall>f. v = Some f \<longrightarrow> f < length ms \<and> occupant (ms' ! f) \<noteq> None \<and> pin_count (ms' ! f) = 0)"
proof (induction n h ms rule: clock_sweep.induct)
  case (2 n h ms)
  let ?h = "(h + 1) mod length ms"
  have h: "?h < length ms" by (rule hand_less) (fact "2.prems"(2))
  consider (skip) "occupant (ms ! h) = None \<or> 0 < pin_count (ms ! h)"
    | (clear) "\<not> (occupant (ms ! h) = None \<or> 0 < pin_count (ms ! h))" "referenced (ms ! h)"
    | (victim) "\<not> (occupant (ms ! h) = None \<or> 0 < pin_count (ms ! h))" "\<not> referenced (ms ! h)" by blast
  then show ?case
  proof cases
    case skip
    with "2.prems"(1) have "clock_sweep n ?h ms = (v, h', ms')" by (simp add: Let_def)
    from "2.IH"(1) [OF refl refl skip this h] show ?thesis .
  next
    case clear
    with "2.prems"(1) have "clock_sweep n ?h (ms[h := (ms ! h)\<lparr>referenced := False\<rparr>]) = (v, h', ms')" by (simp add: Let_def)
    from "2.IH"(2) [OF refl refl clear this, unfolded length_list_update, OF h] show ?thesis .
  next
    case victim
    with "2.prems"(1) have "v = Some h" "h' = ?h" "ms' = ms" by (auto simp: Let_def)
    then show ?thesis using victim "2.prems"(2) h by (auto simp: word_gt_0)
  qed
qed simp

abbreviation evictable :: "frame_meta \<Rightarrow> bool" where
  "evictable m \<equiv> occupant m \<noteq> None \<and> pin_count m = 0"

lemma sweep_finds_unreferenced:
  "k < n \<Longrightarrow> (h + k) mod length ms = f \<Longrightarrow> h < length ms \<Longrightarrow> evictable (ms ! f) \<Longrightarrow> \<not> referenced (ms ! f) \<Longrightarrow>
   fst (clock_sweep n h ms) \<noteq> None"
proof (induction n h ms arbitrary: k rule: clock_sweep.induct)
  case (2 n h ms)
  let ?h = "(h + 1) mod length ms"
  have h': "?h < length ms" using "2.prems"(3) by (rule hand_less)
  show ?case
  proof (cases k)
    case 0
    with "2.prems" show ?thesis by (auto simp: Let_def)
  next
    case (Suc j)
    then have f: "(?h + j) mod length ms = f" and j: "j < n" using "2.prems"(1,2) by (simp_all add: mod_simps)
    have "f < length ms" using f h' by (metis gr_implies_not0 mod_less_divisor not_gr_zero)
    show ?thesis
      using "2.IH"(1) [OF refl refl _ j f h'] "2.IH"(2) [OF refl refl _ _ j] f h' "2.prems"(4,5) \<open>f < length ms\<close>
      by (cases "h = f") (auto simp: Let_def)
  qed
qed simp

lemma sweep_finds:
  "k + length ms < n \<Longrightarrow> (h + k) mod length ms = f \<Longrightarrow> h < length ms \<Longrightarrow> evictable (ms ! f) \<Longrightarrow>
   fst (clock_sweep n h ms) \<noteq> None"
proof (induction n h ms arbitrary: k rule: clock_sweep.induct)
  case (2 n h ms)
  let ?h = "(h + 1) mod length ms" and ?ms = "ms[h := (ms ! h)\<lparr>referenced := False\<rparr>]"
  have h': "?h < length ms" using "2.prems"(3) by (rule hand_less)
  show ?case
  proof (cases k)
    case 0
    then have f: "f = h" using "2.prems"(2,3) by simp
    have "(?h + (length ms - 1)) mod length ms = (h + 1 + (length ms - 1)) mod length ms" by (rule mod_add_left_eq)
    also have "h + 1 + (length ms - 1) = h + length ms" using "2.prems"(3) by linarith
    finally have "(?h + (length ms - 1)) mod length ms = h" using "2.prems"(3) by simp
    then have "fst (clock_sweep n ?h ?ms) \<noteq> None"
      using "2.prems" f h' 0 by (intro sweep_finds_unreferenced [of "length ms - 1" n ?h ?ms h]) auto
    with f "2.prems"(4) show ?thesis by (auto simp: Let_def)
  next
    case (Suc j)
    then have f: "(?h + j) mod length ms = f" and j: "j + length ms < n" using "2.prems"(1,2) by (simp_all add: mod_simps)
    have "f < length ms" using f h' by (metis gr_implies_not0 mod_less_divisor not_gr_zero)
    then have "evictable (?ms ! f)" using "2.prems"(4) by (cases "f = h") auto
    then show ?thesis
      using "2.IH"(1) [OF refl refl _ j f h' "2.prems"(4)] "2.IH"(2) [OF refl refl _ _ _ _ _ \<open>evictable (?ms ! f)\<close>] f h' j
      by (auto simp: Let_def)
  qed
qed simp

lemma sweep_complete:
  assumes h: "h < length ms" and f: "f < length ms" and e: "evictable (ms ! f)"
  shows "fst (clock_sweep (2 * length ms) h ms) \<noteq> None"
proof (rule sweep_finds)
  let ?k = "(f + length ms - h) mod length ms"
  have "?k < length ms" using h by (rule hand_less)
  then show "?k + length ms < 2 * length ms" by simp
  show "(h + ?k) mod length ms = f" using h f by (simp add: mod_simps)
qed (fact h e)+

subsection \<open>What the pool shows\<close>

text \<open>What a guard shows of a page besides its number.\<close>

definition visible :: "page \<Rightarrow> page_type \<times> byte list" where
  "visible pg = (page_kind pg, payload pg)"

lemma visible_lsn [simp]: "visible (pg\<lparr>page_lsn := l\<rparr>) = visible pg"
  by (simp add: visible_def)

text \<open>
  A frame of a pool that stands for the pages \<open>s\<close> over a file with the pages \<open>ps\<close>: a free frame is empty, an
  occupied one holds its page as \<open>s\<close> has it, and the file has it too unless the frame is dirty.
\<close>

definition frame_ok :: "page_store \<Rightarrow> page list \<Rightarrow> frame_meta \<Rightarrow> page option \<Rightarrow> bool" where
  "frame_ok s ps m fr \<longleftrightarrow>
     (case occupant m of
        None \<Rightarrow> fr = None
      | Some i \<Rightarrow> \<exists>pg. fr = Some pg \<and> i \<noteq> 0 \<and> unat i < length s \<and> page_id pg = i
          \<and> length (payload pg) = PAGE_PAYLOAD_SIZE \<and> visible pg = visible (s ! unat i)
          \<and> (dirty m \<or> visible (ps ! unat i) = visible pg))"

definition pool_sound :: "buffer_pool \<Rightarrow> page_store \<Rightarrow> page list \<Rightarrow> bool" where
  "pool_sound p s ps \<longleftrightarrow> disk_shows (bp_disk p) ps \<and> length ps = length s
     \<and> length (bp_frames p) = length (bp_meta p) \<and> bp_hand p < length (bp_meta p)
     \<and> (\<forall>i f. bp_table p i = Some f \<longleftrightarrow> f < length (bp_meta p) \<and> occupant (bp_meta p ! f) = Some i)
     \<and> (\<forall>f < length (bp_meta p). frame_ok s ps (bp_meta p ! f) (bp_frames p ! f))
     \<and> (\<forall>i. i \<noteq> 0 \<and> unat i < length s \<and> bp_table p i = None \<longrightarrow> visible (ps ! unat i) = visible (s ! unat i))"

lemma pool_soundD:
  assumes "pool_sound p s ps"
  shows "disk_shows (bp_disk p) ps" "length ps = length s" "length (bp_frames p) = length (bp_meta p)"
    "bp_hand p < length (bp_meta p)"
    "\<And>i f. bp_table p i = Some f \<longleftrightarrow> f < length (bp_meta p) \<and> occupant (bp_meta p ! f) = Some i"
    "\<And>f. f < length (bp_meta p) \<Longrightarrow> frame_ok s ps (bp_meta p ! f) (bp_frames p ! f)"
    "\<And>i. i \<noteq> 0 \<Longrightarrow> unat i < length s \<Longrightarrow> bp_table p i = None \<Longrightarrow> visible (ps ! unat i) = visible (s ! unat i)"
  using assms unfolding pool_sound_def by blast+

lemma frame_ok_occupied:
  "frame_ok s ps m fr \<Longrightarrow> occupant m = Some i \<Longrightarrow> \<exists>pg. fr = Some pg \<and> i \<noteq> 0 \<and> unat i < length s \<and> page_id pg = i
     \<and> length (payload pg) = PAGE_PAYLOAD_SIZE \<and> visible pg = visible (s ! unat i)
     \<and> (dirty m \<or> visible (ps ! unat i) = visible pg)"
  by (simp add: frame_ok_def)

lemma pool_occupied:
  "pool_sound p s ps \<Longrightarrow> bp_table p i = Some f \<Longrightarrow> \<exists>pg. f < length (bp_meta p) \<and> occupant (bp_meta p ! f) = Some i
     \<and> bp_frames p ! f = Some pg \<and> i \<noteq> 0 \<and> unat i < length s \<and> page_id pg = i
     \<and> length (payload pg) = PAGE_PAYLOAD_SIZE \<and> visible pg = visible (s ! unat i)"
  using frame_ok_occupied pool_soundD(5,6) by blast

text \<open>Changes that no frame and no page notices.\<close>

lemma pool_sound_cong:
  assumes p: "pool_sound p s ps" and same: "bp_disk p' = bp_disk p" "bp_frames p' = bp_frames p" "bp_table p' = bp_table p"
      "length (bp_meta p') = length (bp_meta p)" "bp_hand p' < length (bp_meta p)"
    and m: "\<And>f. f < length (bp_meta p) \<Longrightarrow> occupant (bp_meta p' ! f) = occupant (bp_meta p ! f) \<and> (dirty (bp_meta p ! f) \<longrightarrow> dirty (bp_meta p' ! f))"
  shows "pool_sound p' s ps"
proof -
  have "frame_ok s ps (bp_meta p' ! f) (bp_frames p ! f)" if f: "f < length (bp_meta p)" for f
    using pool_soundD(6) [OF p f] m [OF f] by (auto simp: frame_ok_def split: option.splits)
  with p m show ?thesis by (auto simp: pool_sound_def same)
qed

subsection \<open>Writing back\<close>

definition write_ok :: "io_faults \<Rightarrow> bool" where
  "write_ok io \<longleftrightarrow> io_write io = Written \<and> io_wal_write io = Written \<and> io_wal_sync_ok io"

lemma sync_log_cases:
  obtains (synced) w where "sync_log io l p = (Ok (), p\<lparr>bp_wal := w\<rparr>)"
  | (unsynced) r w where "sync_log io l p = (r, p\<lparr>bp_wal := w\<rparr>)" "r \<noteq> Ok ()" "\<not> write_ok io"
proof (cases "bp_wal p")
  case None
  then show ?thesis using synced [of None] by (simp add: sync_log_def)
next
  case (Some w)
  obtain r w' where rw: "sync_up_to (io_wal_write io) (io_wal_sync_ok io) w l = (r, w')" by fastforce
  have "r = Ok ()" if "write_ok io"
    using rw that by (auto simp: sync_up_to_def wal_sync_def wal_flush_def write_ok_def split: if_splits)
  moreover have "sync_log io l p = (r, p\<lparr>bp_wal := Some w'\<rparr>)" using Some rw by (simp add: sync_log_def)
  ultimately show ?thesis using synced [of "Some w'"] unsynced [of r "Some w'"] by (cases r) auto
qed

text \<open>A write that the system does not cut in the middle: it is done, or refused before its first byte.\<close>

definition all_or_nothing :: "io_faults \<Rightarrow> bool" where
  "all_or_nothing io \<longleftrightarrow> io_write io = Written \<or> io_write io = WriteFailed 0"

lemma disk_write_refused:
  "io_write io = WriteFailed 0 \<Longrightarrow> disk_shows d ps \<Longrightarrow> length (payload pg) = PAGE_PAYLOAD_SIZE \<Longrightarrow> unat (page_id pg) < length ps \<Longrightarrow>
   disk_write_page io pg d = (Err Io, d)"
  by (rule encode_page [of pg]) (simp_all add: disk_write_page_def check_range_eq dm_write_def write_at_def)

lemma write_back_cases:
  assumes d: "disk_shows (bp_disk p) ps" and fr: "bp_frames p ! f = Some pg"
    and pg: "page_id pg \<noteq> 0" "unat (page_id pg) < length ps" "length (payload pg) = PAGE_PAYLOAD_SIZE"
    and io: "all_or_nothing io"
  obtains (ok) w d' where "write_back io f l p = (Ok (), p\<lparr>bp_wal := w, bp_disk := d', bp_frames := (bp_frames p)[f := Some (pg\<lparr>page_lsn := l\<rparr>)]\<rparr>)"
      "disk_shows d' (ps[unat (page_id pg) := pg\<lparr>page_lsn := l\<rparr>])"
  | (fail) r w fs where "write_back io f l p = (r, p\<lparr>bp_wal := w, bp_frames := fs\<rparr>)" "r \<noteq> Ok ()" "\<not> write_ok io"
      "fs = bp_frames p \<or> fs = (bp_frames p)[f := Some (pg\<lparr>page_lsn := l\<rparr>)]"
proof (cases rule: sync_log_cases [of io l p])
  case (synced w)
  let ?pg = "pg\<lparr>page_lsn := l\<rparr>"
  show ?thesis
  proof (cases "io_write io = Written")
    case True
    obtain d' where "disk_write_page io ?pg (bp_disk p) = (Ok (), d')" "disk_shows d' (ps[unat (page_id pg) := ?pg])"
      using disk_write_shows [OF d, of ?pg io] pg True by (auto simp: store_put_def)
    with synced fr show ?thesis by (intro ok [of d' w]) (simp_all add: write_back_def on_disk_def set_frame_def Let_def)
  next
    case False
    then have "disk_write_page io ?pg (bp_disk p) = (Err Io, bp_disk p)"
      using disk_write_refused [of io "bp_disk p" ps ?pg] io d pg by (simp add: all_or_nothing_def)
    with synced fr False show ?thesis
      by (intro fail [of "Err Io" "(bp_frames p)[f := Some ?pg]" w]) (simp_all add: write_back_def on_disk_def set_frame_def Let_def write_ok_def)
  qed
next
  case (unsynced r w)
  then show ?thesis by (intro fail [of r "bp_frames p" w]) (cases r, simp_all add: write_back_def)
qed

text \<open>A page that reached the disk, seen from the other frames.\<close>

lemma frame_ok_update:
  fixes i :: page_no
  assumes "frame_ok s ps m fr" "unat i < length ps" "visible pg = visible (s ! unat i)"
  shows "frame_ok s (ps[unat i := pg]) m fr"
proof (cases "occupant m")
  case (Some j)
  then show ?thesis
    using assms by (cases "j = i") (auto simp: frame_ok_def nth_list_update dest: unsigned_word_eqI)
qed (use assms in \<open>simp add: frame_ok_def\<close>)

lemma uncached_update:
  fixes i :: page_no
  assumes "pool_sound p s ps" "unat i < length ps" "visible pg = visible (s ! unat i)" "j \<noteq> 0" "unat j < length s"
    "bp_table p j = None \<or> j = i"
  shows "visible (ps[unat i := pg] ! unat j) = visible (s ! unat j)"
  using assms pool_soundD(7) [OF assms(1), of j] by (cases "j = i") (auto simp: nth_list_update dest: unsigned_word_eqI)

lemma flush_frame_sound:
  assumes p: "pool_sound p s ps" and f: "f < length (bp_meta p)" and io: "all_or_nothing io"
  obtains r p' ps' where "flush_frame io f p = (r, p')" "pool_sound p' s ps'" "length (bp_meta p') = length (bp_meta p)"
    "\<And>g. g < length (bp_meta p) \<Longrightarrow> occupant (bp_meta p' ! g) = occupant (bp_meta p ! g) \<and> pin_count (bp_meta p' ! g) = pin_count (bp_meta p ! g)
       \<and> dirty (bp_meta p' ! g) = (dirty (bp_meta p ! g) \<and> (g \<noteq> f \<or> r \<noteq> Ok ()))"
    "bp_table p' = bp_table p" "write_ok io \<Longrightarrow> r = Ok ()"
proof -
  note P = pool_soundD [OF p]
  let ?m = "bp_meta p ! f"
  show ?thesis
  proof (cases "occupant ?m")
    case None
    then have "bp_frames p ! f = None" using P(6) [OF f] by (simp add: frame_ok_def)
    moreover obtain r p1 w where "sync_log io (fm_lsn ?m) p = (r, p1)" and p1: "p1 = p\<lparr>bp_wal := w\<rparr>" and r: "write_ok io \<Longrightarrow> r = Ok ()"
      by (rule sync_log_cases [of io "fm_lsn ?m" p]) auto
    ultimately have wb: "write_back io f (fm_lsn ?m) p = (r, p1)" by (cases r) (simp_all add: write_back_def p1)
    have s1: "pool_sound p1 s ps" by (rule pool_sound_cong [OF p]) (simp_all add: p1 P(4))
    show ?thesis
    proof (cases "r = Ok ()")
      case True
      let ?p = "set_meta f (\<lambda>m. m\<lparr>dirty := False\<rparr>) p1"
      have "frame_ok s ps (bp_meta ?p ! g) (bp_frames ?p ! g)" if g: "g < length (bp_meta p)" for g
        using P(6) [OF g] None f g by (cases "g = f") (simp_all add: frame_ok_def set_meta_def p1)
      moreover have "occupant (bp_meta ?p ! g) = occupant (bp_meta p ! g)" if g: "g < length (bp_meta p)" for g
        using f by (cases "g = f") (simp_all add: set_meta_def p1)
      ultimately have "pool_sound ?p s ps" using p by (auto simp: pool_sound_def set_meta_def p1)
      with True f show ?thesis
        by (intro that [of r ?p ps]) (simp_all add: flush_frame_def wb, auto simp: set_meta_def p1 nth_list_update)
    next
      case False
      with s1 wb r show ?thesis by (intro that [of r p1 ps]) (cases r; auto simp: flush_frame_def p1)+
    qed
  next
    case (Some i)
    then obtain pg where pg: "bp_frames p ! f = Some pg" "i \<noteq> 0" "unat i < length s" "page_id pg = i"
      "length (payload pg) = PAGE_PAYLOAD_SIZE" "visible pg = visible (s ! unat i)"
      using frame_ok_occupied [OF P(6) [OF f]] by blast
    let ?pg = "pg\<lparr>page_lsn := fm_lsn ?m\<rparr>"
    have frames: "frame_ok s ps m (Some ?pg)" if "frame_ok s ps m (Some pg)" for m ps
      using that by (auto simp: frame_ok_def split: option.splits)
    show ?thesis
    proof (rule write_back_cases [OF P(1) pg(1) _ _ pg(5) io, of "fm_lsn ?m"])
      fix w d'
      assume wb: "write_back io f (fm_lsn ?m) p = (Ok (), p\<lparr>bp_wal := w, bp_disk := d', bp_frames := (bp_frames p)[f := Some ?pg]\<rparr>)"
        and d': "disk_shows d' (ps[unat (page_id pg) := ?pg])"
      let ?p = "set_meta f (\<lambda>m. m\<lparr>dirty := False\<rparr>) (p\<lparr>bp_wal := w, bp_disk := d', bp_frames := (bp_frames p)[f := Some ?pg]\<rparr>)"
      let ?ps = "ps[unat i := ?pg]"
      have i: "unat i < length ps" using pg(3) P(2) by simp
      have "frame_ok s ?ps (bp_meta ?p ! g) (bp_frames ?p ! g)" if g: "g < length (bp_meta p)" for g
      proof (cases "g = f")
        case True
        then show ?thesis using Some pg f P(2,3) by (simp add: frame_ok_def set_meta_def)
      next
        case False
        then show ?thesis using frame_ok_update [OF P(6) [OF g] i, of ?pg] pg(6) by (simp add: set_meta_def)
      qed
      moreover have "occupant (bp_meta ?p ! g) = occupant (bp_meta p ! g)" for g
        using f by (cases "g = f") (simp_all add: set_meta_def)
      moreover have "visible (?ps ! unat j) = visible (s ! unat j)" if "j \<noteq> 0" "unat j < length s" "bp_table p j = None" for j
        using uncached_update [OF p i, of ?pg j] pg(6) that by simp
      ultimately have "pool_sound ?p s ?ps" using P d' pg(4) by (simp add: pool_sound_def) (simp add: set_meta_def)
      with f show ?thesis
        by (intro that [of "Ok ()" ?p ?ps]) (simp_all add: flush_frame_def wb, auto simp: set_meta_def nth_list_update)
    next
      fix r w fs
      assume wb: "write_back io f (fm_lsn ?m) p = (r, p\<lparr>bp_wal := w, bp_frames := fs\<rparr>)" and r: "r \<noteq> Ok ()" "\<not> write_ok io"
        and fs: "fs = bp_frames p \<or> fs = (bp_frames p)[f := Some ?pg]"
      let ?p = "p\<lparr>bp_wal := w, bp_frames := fs\<rparr>"
      have "frame_ok s ps (bp_meta p ! g) (fs ! g)" if g: "g < length (bp_meta p)" for g
        using P(6) [OF g] frames pg(1) fs f P(3) by (cases "g = f") auto
      then have "pool_sound ?p s ps" using p fs by (auto simp: pool_sound_def)
      with r wb show ?thesis by (intro that [of r ?p ps]) (cases r; simp add: flush_frame_def)+
    qed (use pg P(2) in simp_all)
  qed
qed

definition same_pages :: "buffer_pool \<Rightarrow> buffer_pool \<Rightarrow> bool" where
  "same_pages p p' \<longleftrightarrow> length (bp_meta p') = length (bp_meta p) \<and> bp_table p' = bp_table p
     \<and> (\<forall>g < length (bp_meta p). occupant (bp_meta p' ! g) = occupant (bp_meta p ! g)
         \<and> pin_count (bp_meta p' ! g) = pin_count (bp_meta p ! g) \<and> (dirty (bp_meta p' ! g) \<longrightarrow> dirty (bp_meta p ! g)))"

lemma same_pages_trans: "same_pages p q \<Longrightarrow> same_pages q r \<Longrightarrow> same_pages p r"
  by (auto simp: same_pages_def)

lemma flush_frames_sound:
  "pool_sound p s ps \<Longrightarrow> \<forall>f \<in> set fs. f < length (bp_meta p) \<Longrightarrow> \<forall>f. all_or_nothing (io f) \<Longrightarrow>
   \<exists>r p' ps'. flush_frames io fs p = (r, p') \<and> pool_sound p' s ps' \<and> same_pages p p'
     \<and> (r = Ok () \<longrightarrow> (\<forall>f \<in> set fs. \<not> dirty (bp_meta p' ! f))) \<and> ((\<forall>f. write_ok (io f)) \<longrightarrow> r = Ok ())"
proof (induction fs arbitrary: p ps)
  case Nil
  then show ?case by (auto simp: same_pages_def)
next
  case (Cons f fs)
  obtain r p1 ps1 where one: "flush_frame (io f) f p = (r, p1)" "pool_sound p1 s ps1" "length (bp_meta p1) = length (bp_meta p)"
    and m: "\<And>g. g < length (bp_meta p) \<Longrightarrow> occupant (bp_meta p1 ! g) = occupant (bp_meta p ! g) \<and> pin_count (bp_meta p1 ! g) = pin_count (bp_meta p ! g)
       \<and> dirty (bp_meta p1 ! g) = (dirty (bp_meta p ! g) \<and> (g \<noteq> f \<or> r \<noteq> Ok ()))"
    and t: "bp_table p1 = bp_table p" and ok: "write_ok (io f) \<Longrightarrow> r = Ok ()"
    using flush_frame_sound [OF Cons.prems(1), of f "io f"] Cons.prems(2,3) by auto
  have same: "same_pages p p1" using one(3) m t by (simp add: same_pages_def)
  show ?case
  proof (cases "r = Ok ()")
    case True
    have "\<forall>f \<in> set fs. f < length (bp_meta p1)" using Cons.prems(2) one(3) by simp
    from Cons.IH [OF one(2) this Cons.prems(3)] obtain q p' ps' where rest: "flush_frames io fs p1 = (q, p')" "pool_sound p' s ps'"
      "same_pages p1 p'" "q = Ok () \<longrightarrow> (\<forall>f \<in> set fs. \<not> dirty (bp_meta p' ! f))" "(\<forall>f. write_ok (io f)) \<longrightarrow> q = Ok ()" by blast
    have "\<not> dirty (bp_meta p' ! f)" using rest(3) m [of f] True Cons.prems(2) one(3) by (auto simp: same_pages_def)
    moreover have "flush_frames io (f # fs) p = (q, p')" using one(1) True rest(1) by simp
    ultimately show ?thesis using rest same_pages_trans [OF same rest(3)] by (intro exI [of _ q] exI [of _ p'] exI [of _ ps']) simp
  next
    case False
    then have "flush_frames io (f # fs) p = (r, p1)" using one(1) by (cases r) simp_all
    with False ok same one(2) show ?thesis by (intro exI [of _ r] exI [of _ p1] exI [of _ ps1]) auto
  qed
qed

lemma flush_all_sound:
  assumes p: "pool_sound p s ps" and io: "\<And>f. all_or_nothing (io f)"
  shows "\<exists>r p' ps'. flush_all io p = (r, p') \<and> pool_sound p' s ps' \<and> same_pages p p'
    \<and> (r = Ok () \<longrightarrow> (\<forall>i :: page_no. i \<noteq> 0 \<and> unat i < length s \<longrightarrow> visible (ps' ! unat i) = visible (s ! unat i)))
    \<and> ((\<forall>f. write_ok (io f)) \<longrightarrow> r = Ok ())"
proof -
  let ?fs = "filter (\<lambda>f. dirty (bp_meta p ! f)) [0..<pool_capacity p]"
  have cap: "pool_capacity p = length (bp_meta p)" using pool_soundD(3) [OF p] by (simp add: pool_capacity_def)
  then obtain r p' ps' where run: "flush_frames io ?fs p = (r, p')" and s': "pool_sound p' s ps'" and same: "same_pages p p'"
    and clean: "r = Ok () \<longrightarrow> (\<forall>f \<in> set ?fs. \<not> dirty (bp_meta p' ! f))" and ok: "(\<forall>f. write_ok (io f)) \<longrightarrow> r = Ok ()"
    using flush_frames_sound [OF p, of ?fs io] io by auto
  have "visible (ps' ! unat i) = visible (s ! unat i)" if r: "r = Ok ()" and i: "i \<noteq> 0" "unat i < length s" for i :: page_no
  proof (cases "bp_table p' i")
    case None
    then show ?thesis using pool_soundD(7) [OF s' i] by simp
  next
    case (Some f)
    then have f: "f < length (bp_meta p')" "occupant (bp_meta p' ! f) = Some i" using pool_soundD(5) [OF s'] by blast+
    have "\<not> dirty (bp_meta p' ! f)" using clean r f(1) same cap by (auto simp: same_pages_def)
    with frame_ok_occupied [OF pool_soundD(6) [OF s' f(1)] f(2)] show ?thesis by auto
  qed
  with run s' same ok show ?thesis by (auto simp: flush_all_def)
qed

subsection \<open>Evicting and loading\<close>

lemma evict_frame_sound:
  assumes p: "pool_sound p s ps" and f: "f < length (bp_meta p)" and e: "occupant (bp_meta p ! f) = Some i" and io: "write_ok io"
  shows "\<exists>p' ps'. evict_frame io f p = (Ok f, p') \<and> pool_sound p' s ps' \<and> bp_table p' = (bp_table p)(i := None)
    \<and> bp_meta p' = (bp_meta p)[f := (bp_meta p ! f)\<lparr>occupant := None\<rparr>]"
proof -
  note P = pool_soundD [OF p]
  let ?m = "bp_meta p ! f"
  let ?ms = "(bp_meta p)[f := ?m\<lparr>occupant := None\<rparr>]" and ?tb = "(bp_table p)(i := None)"
  let ?q = "set_meta f (\<lambda>m. m\<lparr>occupant := None\<rparr>) p"
  obtain pg where pg: "bp_frames p ! f = Some pg" "i \<noteq> 0" "unat i < length s" "page_id pg = i"
    "length (payload pg) = PAGE_PAYLOAD_SIZE" "visible pg = visible (s ! unat i)" and
    clean: "dirty ?m \<or> visible (ps ! unat i) = visible pg"
    using frame_ok_occupied [OF P(6) [OF f] e] by blast
  have only: "occupant (bp_meta p ! g) = Some i \<Longrightarrow> g < length (bp_meta p) \<Longrightarrow> g = f" for g
    using P(5) [of i g] P(5) [of i f] e f by simp
  have i: "unat i < length ps" using pg(3) P(2) by simp
  have "\<exists>w d fs ps'. (if dirty ?m then write_back io f (fm_lsn ?m) ?q else (Ok (), ?q))
      = (Ok (), ?q\<lparr>bp_wal := w, bp_disk := d, bp_frames := fs\<rparr>) \<and> disk_shows d ps' \<and> length ps' = length ps
      \<and> (\<forall>g. g \<noteq> f \<longrightarrow> fs ! g = bp_frames p ! g) \<and> length fs = length (bp_frames p)
      \<and> (ps' = ps \<and> visible (ps ! unat i) = visible pg \<or> (\<exists>l. ps' = ps[unat i := pg\<lparr>page_lsn := l\<rparr>]))"
  proof (cases "dirty ?m")
    case True
    have "all_or_nothing io" using io by (simp add: write_ok_def all_or_nothing_def)
    moreover have "disk_shows (bp_disk ?q) ps" "bp_frames ?q ! f = Some pg" using P(1) pg(1) by (simp_all add: set_meta_def)
    ultimately show ?thesis
    proof (rule_tac write_back_cases [where p = ?q and ps = ps and f = f and pg = pg and io = io and l = "fm_lsn ?m"])
      fix w d'
      assume "write_back io f (fm_lsn ?m) ?q = (Ok (), ?q\<lparr>bp_wal := w, bp_disk := d', bp_frames := (bp_frames ?q)[f := Some (pg\<lparr>page_lsn := fm_lsn ?m\<rparr>)]\<rparr>)"
        "disk_shows d' (ps[unat (page_id pg) := pg\<lparr>page_lsn := fm_lsn ?m\<rparr>])"
      with True pg(4) show ?thesis
        by (intro exI [of _ w] exI [of _ d'] exI [of _ "(bp_frames ?q)[f := Some (pg\<lparr>page_lsn := fm_lsn ?m\<rparr>)]"]
            exI [of _ "ps[unat i := pg\<lparr>page_lsn := fm_lsn ?m\<rparr>]"]) (auto simp: set_meta_def)
    qed (use io pg i in simp_all)
  next
    case False
    with clean P(1) show ?thesis
      by (intro exI [of _ "bp_wal p"] exI [of _ "bp_disk p"] exI [of _ "bp_frames p"] exI [of _ ps]) (simp add: set_meta_def)
  qed
  then obtain w d fs ps' where wb: "(if dirty ?m then write_back io f (fm_lsn ?m) ?q else (Ok (), ?q))
      = (Ok (), ?q\<lparr>bp_wal := w, bp_disk := d, bp_frames := fs\<rparr>)" and d: "disk_shows d ps'" "length ps' = length ps"
    and fs: "\<And>g. g \<noteq> f \<Longrightarrow> fs ! g = bp_frames p ! g" "length fs = length (bp_frames p)"
    and ps': "ps' = ps \<and> visible (ps ! unat i) = visible pg \<or> (\<exists>l. ps' = ps[unat i := pg\<lparr>page_lsn := l\<rparr>])" by blast
  let ?p = "p\<lparr>bp_wal := w, bp_disk := d, bp_frames := fs[f := None], bp_table := ?tb, bp_meta := ?ms\<rparr>"
  have run: "evict_frame io f p = (Ok f, ?p)"
    using wb e by (simp add: evict_frame_def Let_def) (simp add: set_frame_def set_meta_def)
  have on_disk: "visible (ps' ! unat j) = visible (s ! unat j)" if "j \<noteq> 0" "unat j < length s" "bp_table p j = None \<or> j = i" for j
    using ps' uncached_update [OF p i, of "pg\<lparr>page_lsn := l\<rparr>" j for l] P(7) [of j] pg(6) that by auto
  have fr: "frame_ok s ps' (?ms ! g) (fs[f := None] ! g)" if g: "g < length (bp_meta p)" for g
  proof (cases "g = f")
    case True
    then show ?thesis using f fs(2) P(3) by (simp add: frame_ok_def)
  next
    case False
    then show ?thesis
      using frame_ok_update [OF P(6) [OF g] i, of "pg\<lparr>page_lsn := l\<rparr>" for l] P(6) [OF g] ps' pg(6) fs(1) [OF False] by auto
  qed
  have tb: "?tb j = Some g \<longleftrightarrow> g < length (bp_meta p) \<and> occupant (?ms ! g) = Some j" for j g
  proof (cases "g = f")
    case True
    then show ?thesis using P(5) [of j f] f e by auto
  next
    case False
    then show ?thesis using P(5) [of j g] only [of g] by (cases "j = i") auto
  qed
  have fields: "bp_disk ?p = d" "bp_frames ?p = fs[f := None]" "bp_table ?p = ?tb" "bp_meta ?p = ?ms" "bp_hand ?p = bp_hand p" by simp_all
  have "pool_sound ?p s ps'"
    unfolding pool_sound_def fields length_list_update
  proof (intro conjI allI impI)
    fix j assume "j \<noteq> 0 \<and> unat j < length s \<and> ?tb j = None"
    then show "visible (ps' ! unat j) = visible (s ! unat j)" by (intro on_disk) (auto split: if_splits)
  next
    fix j g show "(?tb j = Some g) = (g < length (bp_meta p) \<and> occupant (?ms ! g) = Some j)" by (rule tb)
  next
    fix g assume "g < length (bp_meta p)"
    then show "frame_ok s ps' (?ms ! g) (fs[f := None] ! g)" by (rule fr)
  qed (use d fs(2) P(2,3,4) in simp_all)
  with run show ?thesis by (intro exI [of _ ?p] exI [of _ ps']) simp
qed

abbreviation pins :: "buffer_pool \<Rightarrow> u32 list" where
  "pins p \<equiv> map pin_count (bp_meta p)"

lemma evict_sound:
  assumes p: "pool_sound p s ps" and io: "write_ok io"
  shows "\<exists>r p' ps'. evict io p = (r, p') \<and> pool_sound p' s ps' \<and> pins p' = pins p \<and> (\<forall>i. bp_table p i = None \<longrightarrow> bp_table p' i = None)
    \<and> (r = Err BufferPoolFull \<and> (\<forall>f < length (bp_meta p). \<not> evictable (bp_meta p ! f))
       \<or> (\<exists>f. r = Ok f \<and> f < length (bp_meta p) \<and> evictable (bp_meta p ! f) \<and> occupant (bp_meta p' ! f) = None))"
proof -
  note P = pool_soundD [OF p]
  obtain v h ms where sw: "clock_sweep (2 * pool_capacity p) (bp_hand p) (bp_meta p) = (v, h, ms)" by (metis surj_pair)
  have cap: "pool_capacity p = length (bp_meta p)" using P(3) by (simp add: pool_capacity_def)
  have un: "map unref ms = map unref (bp_meta p)" by (rule sweep_unref [OF sw])
  then have len: "length ms = length (bp_meta p)" by (metis length_map)
  have m: "occupant (ms ! f) = occupant (bp_meta p ! f) \<and> pin_count (ms ! f) = pin_count (bp_meta p ! f) \<and> dirty (ms ! f) = dirty (bp_meta p ! f)"
    if "f < length (bp_meta p)" for f
    using un that len unref_eq [of "ms ! f" "bp_meta p ! f"] by (metis nth_map)
  let ?q = "p\<lparr>bp_hand := h, bp_meta := ms\<rparr>"
  have q: "pool_sound ?q s ps"
    by (rule pool_sound_cong [OF p]) (use m len sweep_victim [OF sw P(4)] in simp_all)
  have pins: "map pin_count ms = pins p" using m len by (simp add: list_eq_iff_nth_eq)
  show ?thesis
  proof (cases v)
    case None
    have "\<not> evictable (bp_meta p ! f)" if "f < length (bp_meta p)" for f
      using sweep_complete [OF P(4) that] sw None cap by auto
    then show ?thesis using q pins sw None by (intro exI [of _ "Err BufferPoolFull"] exI [of _ ?q] exI [of _ ps]) (simp add: evict_def)
  next
    case (Some f)
    then have f: "f < length (bp_meta p)" "evictable (ms ! f)" using sweep_victim [OF sw P(4)] by blast+
    then have e: "evictable (bp_meta p ! f)" using m by simp
    obtain i where i: "occupant (bp_meta ?q ! f) = Some i" using f(2) by auto
    have "f < length (bp_meta ?q)" using f(1) len by simp
    from evict_frame_sound [OF q this i io] obtain p' ps' where r: "evict_frame io f ?q = (Ok f, p')" "pool_sound p' s ps'"
      "bp_table p' = (bp_table p)(i := None)" "bp_meta p' = ms[f := (ms ! f)\<lparr>occupant := None\<rparr>]" by auto
    have "pins p' = pins p"
      using pins f(1) len by (simp add: r(4) map_update) (metis list_update_id map_update)
    then show ?thesis using r f(1) e len sw Some
      by (intro exI [of _ "Ok f"] exI [of _ p'] exI [of _ ps']) (simp add: evict_def)
  qed
qed

text \<open>When every frame is occupied and pinned, nothing can be loaded.\<close>

definition all_pinned :: "buffer_pool \<Rightarrow> bool" where
  "all_pinned p \<longleftrightarrow> (\<forall>f < length (bp_meta p). occupant (bp_meta p ! f) \<noteq> None \<and> pin_count (bp_meta p ! f) \<noteq> 0)"

lemma free_frame_sound:
  assumes p: "pool_sound p s ps" and io: "write_ok io"
  shows "\<exists>r p' ps'. free_frame io p = (r, p') \<and> pool_sound p' s ps' \<and> pins p' = pins p \<and> (\<forall>i. bp_table p i = None \<longrightarrow> bp_table p' i = None)
    \<and> (if all_pinned p then r = Err BufferPoolFull
       else \<exists>f. r = Ok f \<and> f < length (bp_meta p) \<and> occupant (bp_meta p' ! f) = None)"
proof (cases "position (\<lambda>m. occupant m = None) (bp_meta p)")
  case None
  then have occ: "occupant (bp_meta p ! f) \<noteq> None" if "f < length (bp_meta p)" for f
    using that by (auto simp: position_None_iff)
  obtain r p' ps' where "evict io p = (r, p')" "pool_sound p' s ps'" "pins p' = pins p" "\<forall>i. bp_table p i = None \<longrightarrow> bp_table p' i = None"
    "r = Err BufferPoolFull \<and> (\<forall>f < length (bp_meta p). \<not> evictable (bp_meta p ! f))
       \<or> (\<exists>f. r = Ok f \<and> f < length (bp_meta p) \<and> evictable (bp_meta p ! f) \<and> occupant (bp_meta p' ! f) = None)"
    using evict_sound [OF p io] by blast
  moreover have "all_pinned p \<longleftrightarrow> (\<forall>f < length (bp_meta p). \<not> evictable (bp_meta p ! f))" using occ by (auto simp: all_pinned_def)
  ultimately show ?thesis using None by (intro exI [of _ r] exI [of _ p'] exI [of _ ps']) (auto simp: free_frame_def)
next
  case (Some f)
  then have "f < length (bp_meta p)" "occupant (bp_meta p ! f) = None" by (auto simp: position_Some_iff)
  then have "\<not> all_pinned p" by (auto simp: all_pinned_def)
  with Some p \<open>f < length (bp_meta p)\<close> \<open>occupant (bp_meta p ! f) = None\<close> show ?thesis
    by (intro exI [of _ "Ok f"] exI [of _ p] exI [of _ ps]) (simp add: free_frame_def)
qed

lemma disk_read_cases:
  assumes d: "disk_shows d ps"
  shows "\<exists>d'. disk_shows d' ps \<and> disk_read_page io i d
    = (if length ps \<le> unat i then Err PageOutOfRange else if io_read_ok io then Ok (ps ! unat i) else Err Io, d')"
proof (cases "io_read_ok io")
  case True
  then show ?thesis using disk_read_shows [OF d True, of i] d by (auto simp: store_get_def disk_shows_def)
next
  case False
  then have "disk_read_page io i d = (if length ps \<le> unat i then Err PageOutOfRange else Err Io, d)"
    by (simp add: disk_read_page_def check_range_eq [OF d] file_read_exact_def)
  with d False show ?thesis by auto
qed

lemma load_frame:
  assumes p: "pool_sound p s ps" and f: "f < length (bp_meta p)" "occupant (bp_meta p ! f) = None"
    and i: "i \<noteq> 0" "unat i < length s" "bp_table p i = None" and d: "disk_shows d ps"
    and m: "occupant m = Some i" "\<not> dirty m"
  shows "pool_sound (p\<lparr>bp_disk := d, bp_frames := (bp_frames p)[f := Some (ps ! unat i)], bp_meta := (bp_meta p)[f := m],
    bp_table := (bp_table p)(i \<mapsto> f)\<rparr>) s ps" (is "pool_sound ?p s ps")
proof -
  note P = pool_soundD [OF p]
  let ?pg = "ps ! unat i"
  have range: "unat i < length ps" using i(2) P(2) by simp
  then have id: "page_id ?pg = i" using d by (auto simp: disk_shows_def)
  have vis: "visible ?pg = visible (s ! unat i)" by (rule P(7) [OF i])
  have fields: "bp_disk ?p = d" "bp_frames ?p = (bp_frames p)[f := Some ?pg]" "bp_table ?p = (bp_table p)(i \<mapsto> f)"
    "bp_meta ?p = (bp_meta p)[f := m]" "bp_hand ?p = bp_hand p" by simp_all
  show ?thesis
    unfolding pool_sound_def fields length_list_update
  proof (intro conjI allI impI)
    fix j g
    show "(((bp_table p)(i \<mapsto> f)) j = Some g) = (g < length (bp_meta p) \<and> occupant ((bp_meta p)[f := m] ! g) = Some j)"
    proof (cases "g = f")
      case True
      then show ?thesis using P(5) [of j f] f m(1) by (cases "j = i") auto
    next
      case False
      then show ?thesis using P(5) [of j g] i(3) by (cases "j = i") auto
    qed
  next
    fix g assume g: "g < length (bp_meta p)"
    show "frame_ok s ps ((bp_meta p)[f := m] ! g) ((bp_frames p)[f := Some ?pg] ! g)"
    proof (cases "g = f")
      case True
      then show ?thesis using f(1) P(3) m i(1,2) id vis shows_payload [OF d range] by (simp add: frame_ok_def)
    next
      case False
      then show ?thesis using P(6) [OF g] by simp
    qed
  next
    fix j assume "j \<noteq> 0 \<and> unat j < length s \<and> ((bp_table p)(i \<mapsto> f)) j = None"
    then show "visible (ps ! unat j) = visible (s ! unat j)" using P(7) [of j] by (auto split: if_splits)
  qed (use d P(2,3,4) in simp_all)
qed

lemma locate_or_load_sound:
  assumes p: "pool_sound p s ps" and i: "i \<noteq> 0" and io: "write_ok io"
  shows "\<exists>r p' ps'. locate_or_load io i p = (r, p') \<and> pool_sound p' s ps' \<and> length (bp_meta p') = length (bp_meta p)
    \<and> (if bp_table p i = None \<and> all_pinned p then r = Err BufferPoolFull \<and> pins p' = pins p
       else if length s \<le> unat i then r = Err PageOutOfRange \<and> pins p' = pins p
       else if bp_table p i = None \<and> \<not> io_read_ok io then r = Err Io \<and> pins p' = pins p
       else \<exists>f. r = Ok f \<and> bp_table p' i = Some f
         \<and> (if bp_table p i = None then pins p' = (pins p)[f := 0] else bp_table p i = Some f \<and> pins p' = pins p))"
proof (cases "bp_table p i")
  case (Some f)
  then have "unat i < length s" using pool_occupied [OF p] by blast
  moreover have "pool_sound (p\<lparr>bp_hits := bp_hits p + 1\<rparr>) s ps"
    by (rule pool_sound_cong [OF p]) (simp_all add: pool_soundD(4) [OF p])
  ultimately show ?thesis
    using Some by (intro exI [of _ "Ok f"] exI [of _ "p\<lparr>bp_hits := bp_hits p + 1\<rparr>"] exI [of _ ps]) (simp add: locate_or_load_def)
next
  case None
  let ?q = "p\<lparr>bp_misses := bp_misses p + 1\<rparr>"
  have q: "pool_sound ?q s ps" by (rule pool_sound_cong [OF p]) (simp_all add: pool_soundD(4) [OF p])
  have same: "bp_meta ?q = bp_meta p" "bp_table ?q = bp_table p" "all_pinned ?q = all_pinned p" by (simp_all add: all_pinned_def)
  obtain r p1 ps1 where free: "free_frame io ?q = (r, p1)" and s1: "pool_sound p1 s ps1" and pins: "pins p1 = pins p"
    and tb: "\<forall>i. bp_table p i = None \<longrightarrow> bp_table p1 i = None"
    and f: "if all_pinned p then r = Err BufferPoolFull else \<exists>f. r = Ok f \<and> f < length (bp_meta p) \<and> occupant (bp_meta p1 ! f) = None"
    using free_frame_sound [OF q io, unfolded same] by blast
  have len: "length (bp_meta p1) = length (bp_meta p)" using pins by (metis length_map)
  show ?thesis
  proof (cases "all_pinned p")
    case True
    with f free None s1 pins len show ?thesis
      by (intro exI [of _ "Err BufferPoolFull"] exI [of _ p1] exI [of _ ps1]) (simp add: locate_or_load_def)
  next
    case False
    with f obtain f where r: "r = Ok f" and f: "f < length (bp_meta p1)" "occupant (bp_meta p1 ! f) = None" using len by auto
    note P = pool_soundD [OF s1]
    have n: "bp_table p1 i = None" using tb None by blast
    obtain d' where d': "disk_shows d' ps1" and rd: "disk_read_page io i (bp_disk p1)
        = (if length ps1 \<le> unat i then Err PageOutOfRange else if io_read_ok io then Ok (ps1 ! unat i) else Err Io, d')"
      using disk_read_cases [OF P(1)] by blast
    let ?p2 = "p1\<lparr>bp_disk := d'\<rparr>"
    have s2: "pool_sound ?p2 s ps1" using s1 d' by (simp add: pool_sound_def)
    show ?thesis
    proof (cases "length s \<le> unat i \<or> \<not> io_read_ok io")
      case True
      then have "locate_or_load io i p = (if length s \<le> unat i then Err PageOutOfRange else Err Io, ?p2)"
        using None free r rd P(2) by (auto simp: locate_or_load_def on_disk_def)
      with True False None s2 pins len show ?thesis
        by (intro exI [of _ "if length s \<le> unat i then Err PageOutOfRange else Err Io"] exI [of _ ?p2] exI [of _ ps1]) auto
    next
      case ok: False
      then have i': "unat i < length s" by simp
      let ?pg = "ps1 ! unat i"
      let ?m = "\<lparr>occupant = Some i, pin_count = 0, dirty = False, referenced = False, fm_lsn = page_lsn ?pg\<rparr>"
      let ?p3 = "p1\<lparr>bp_disk := d', bp_frames := (bp_frames p1)[f := Some ?pg], bp_meta := (bp_meta p1)[f := ?m],
        bp_table := (bp_table p1)(i \<mapsto> f)\<rparr>"
      have "locate_or_load io i p = (Ok f, ?p3)"
        using None free r rd P(2) ok by (simp add: locate_or_load_def on_disk_def Let_def) (simp add: set_meta_def set_frame_def)
      moreover have "pool_sound ?p3 s ps1" by (rule load_frame [OF s1 f i i' n d']) simp_all
      moreover have "pins ?p3 = (pins p)[f := 0]" by (simp add: map_update pins [symmetric])
      ultimately show ?thesis using False ok None len
        by (intro exI [of _ "Ok f"] exI [of _ ?p3] exI [of _ ps1]) simp
    qed
  qed
qed

subsection \<open>The pool as a list of pages\<close>

definition idle :: "u32 list \<Rightarrow> bool" where
  "idle ns \<longleftrightarrow> 0 \<in> set ns"

text \<open>A pool stands for pages when it is sound for them and some frame can still be reused.\<close>

definition pool_shows :: "buffer_pool \<Rightarrow> page_store \<Rightarrow> bool" where
  "pool_shows p s \<longleftrightarrow> (\<exists>ps. pool_sound p s ps) \<and> idle (pins p)"

lemma not_all_pinned: "idle (pins p) \<Longrightarrow> \<not> all_pinned p"
  by (auto simp: all_pinned_def idle_def in_set_conv_nth)

lemma set_meta_sound:
  assumes "pool_sound p s ps" "\<And>m. occupant (g m) = occupant m \<and> (dirty m \<longrightarrow> dirty (g m))"
  shows "pool_sound (set_meta f g p) s ps"
proof (rule pool_sound_cong [OF assms(1)])
  fix h assume "h < length (bp_meta p)"
  then show "occupant (bp_meta (set_meta f g p) ! h) = occupant (bp_meta p ! h) \<and> (dirty (bp_meta p ! h) \<longrightarrow> dirty (bp_meta (set_meta f g p) ! h))"
    using assms(2) by (cases "h = f") (simp_all add: set_meta_def)
qed (simp_all add: set_meta_def pool_soundD(4) [OF assms(1)])

text \<open>Pinning and unpinning leave an unpinned frame unpinned.\<close>

lemma pin_unpin_idle:
  assumes "idle ns" "f < length ns"
  shows "idle (ns[f := saturating_dec (ns ! f + 1)])"
proof -
  obtain g where g: "g < length ns" "ns ! g = 0" using assms(1) by (auto simp: idle_def in_set_conv_nth)
  then have "ns[f := saturating_dec (ns ! f + 1)] ! g = 0" by (cases "g = f") (simp_all add: saturating_dec_def)
  then show ?thesis using g(1) unfolding idle_def by (metis length_list_update nth_mem)
qed

lemma locate_and_pin_sound:
  assumes p: "pool_sound p s ps" and z: "idle (pins p)" and i: "i \<noteq> 0" and io: "write_ok io"
  shows "\<exists>r p' ps'. locate_and_pin io i p = (r, p') \<and> pool_sound p' s ps'
    \<and> (if length s \<le> unat i then r = Err PageOutOfRange \<and> idle (pins p')
       else r = Err Io \<and> \<not> io_read_ok io \<and> idle (pins p')
         \<or> (\<exists>f. r = Ok f \<and> bp_table p' i = Some f \<and> f < length (bp_meta p')
           \<and> idle ((pins p')[f := saturating_dec (pins p' ! f)])))"
proof -
  obtain r p1 ps1 where l: "locate_or_load io i p = (r, p1)" "pool_sound p1 s ps1" "length (bp_meta p1) = length (bp_meta p)"
    and c: "if length s \<le> unat i then r = Err PageOutOfRange \<and> pins p1 = pins p
       else if bp_table p i = None \<and> \<not> io_read_ok io then r = Err Io \<and> pins p1 = pins p
       else \<exists>f. r = Ok f \<and> bp_table p1 i = Some f
         \<and> (if bp_table p i = None then pins p1 = (pins p)[f := 0] else bp_table p i = Some f \<and> pins p1 = pins p)"
    using locate_or_load_sound [OF p i io] not_all_pinned [OF z] by auto
  show ?thesis
  proof (cases r)
    case (Ok f)
    then have f: "bp_table p1 i = Some f" "unat i < length s" and pn: "pins p1 = pins p \<or> pins p1 = (pins p)[f := 0]"
      using c by (auto split: if_splits)
    have fl: "f < length (bp_meta p1)" using f(1) pool_soundD(5) [OF l(2)] by blast
    have "idle ((pins p)[f := 0])" unfolding idle_def by (rule set_update_memI) (use fl l(3) in simp)
    with pn z have z1: "idle (pins p1)" by metis
    let ?p = "set_meta f (\<lambda>m. m\<lparr>pin_count := pin_count m + 1, referenced := True\<rparr>) p1"
    have "locate_and_pin io i p = (Ok f, ?p)" using l(1) Ok by (simp add: locate_and_pin_def)
    moreover have "pool_sound ?p s ps1" by (rule set_meta_sound [OF l(2)]) simp
    moreover have pp: "pins ?p = (pins p1)[f := pins p1 ! f + 1]" using fl by (simp add: set_meta_def map_update)
    moreover have "idle ((pins ?p)[f := saturating_dec (pins ?p ! f)])"
      using pin_unpin_idle [OF z1, of f] fl unfolding pp by simp
    moreover have "bp_table ?p i = Some f" "length (bp_meta ?p) = length (bp_meta p1)" using f(1) by (simp_all add: set_meta_def)
    ultimately show ?thesis using f(2) fl l(3) by (intro exI [of _ "Ok f"] exI [of _ ?p] exI [of _ ps1]) auto
  next
    case (Err e)
    with l c z show ?thesis
      by (intro exI [of _ r] exI [of _ p1] exI [of _ ps1]) (auto simp: locate_and_pin_def split: if_splits)
  next
    case Panic
    with c show ?thesis by (auto split: if_splits)
  qed
qed

lemma unpin_sound:
  assumes "pool_sound p s ps"
  shows "pool_sound (unpin f d p) s ps"
  unfolding unpin_def by (rule set_meta_sound [OF assms]) simp

lemma unpin_pins: "f < length (bp_meta p) \<Longrightarrow> pins (unpin f d p) = (pins p)[f := saturating_dec (pins p ! f)]"
  by (simp add: unpin_def set_meta_def map_update)

text \<open>The pages as clients ask for them.\<close>

definition visible_at :: "page_store \<Rightarrow> page_no \<Rightarrow> (page_type \<times> byte list) outcome" where
  "visible_at s i = and_then (store_get s i) (\<lambda>pg. Ok (visible pg))"

lemma pool_read_sound:
  assumes p: "pool_shows p s" and i: "i \<noteq> 0" and io: "write_ok io"
  shows "\<exists>r p'. pool_read io i p = (r, p') \<and> pool_shows p' s
    \<and> (and_then r (\<lambda>pg. Ok (visible pg)) = visible_at s i \<or> \<not> io_read_ok io \<and> r = Err Io)"
proof -
  obtain ps where s: "pool_sound p s ps" and z: "idle (pins p)" using p by (auto simp: pool_shows_def)
  obtain r p1 ps1 where l: "locate_and_pin io i p = (r, p1)" "pool_sound p1 s ps1"
    and c: "if length s \<le> unat i then r = Err PageOutOfRange \<and> idle (pins p1)
       else r = Err Io \<and> \<not> io_read_ok io \<and> idle (pins p1)
         \<or> (\<exists>f. r = Ok f \<and> bp_table p1 i = Some f \<and> f < length (bp_meta p1)
           \<and> idle ((pins p1)[f := saturating_dec (pins p1 ! f)]))"
    using locate_and_pin_sound [OF s z i io] by blast
  show ?thesis
  proof (cases r)
    case (Ok f)
    then have f: "bp_table p1 i = Some f" "f < length (bp_meta p1)" and z': "idle (pins (unpin f False p1))"
      using c unpin_pins [of f p1 False] by (auto split: if_splits)
    obtain pg where pg: "bp_frames p1 ! f = Some pg" "unat i < length s" "visible pg = visible (s ! unat i)"
      using pool_occupied [OF l(2) f(1)] by blast
    then have "pool_read io i p = (Ok pg, unpin f False p1)" using l(1) Ok by (simp add: pool_read_def guard_page_def)
    moreover have "pool_shows (unpin f False p1) s" using unpin_sound [OF l(2)] z' by (auto simp: pool_shows_def)
    ultimately show ?thesis using pg by (simp add: visible_at_def store_get_def)
  next
    case (Err e)
    with l(1) have "pool_read io i p = (Err e, p1)" by (simp add: pool_read_def)
    moreover have "pool_shows p1 s" using c Err l(2) by (auto simp: pool_shows_def split: if_splits)
    ultimately show ?thesis using c Err by (auto simp: visible_at_def store_get_def split: if_splits)
  next
    case Panic
    with c show ?thesis by (auto split: if_splits)
  qed
qed

lemma write_frame_sound:
  assumes p: "pool_sound p s ps" and f: "bp_table p i = Some f" and data: "length data = PAGE_PAYLOAD_SIZE"
  shows "pool_sound (unpin f True (guard_set_page_type f t (guard_data_mut f (\<lambda>_. data) p)))
    (store_put s i ((s ! unat i)\<lparr>page_kind := t, payload := data\<rparr>)) ps" (is "pool_sound ?p ?s ps")
proof -
  note P = pool_soundD [OF p]
  obtain pg where pg: "f < length (bp_meta p)" "occupant (bp_meta p ! f) = Some i" "bp_frames p ! f = Some pg" "i \<noteq> 0"
    "unat i < length s" "page_id pg = i"
    using pool_occupied [OF p f] by blast
  let ?pg = "pg\<lparr>payload := data, page_kind := t\<rparr>"
  let ?m = "(bp_meta p ! f)\<lparr>pin_count := saturating_dec (pin_count (bp_meta p ! f)), dirty := True\<rparr>"
  have fields: "bp_disk ?p = bp_disk p" "bp_frames ?p = (bp_frames p)[f := Some ?pg]" "bp_table ?p = bp_table p"
    "bp_meta ?p = (bp_meta p)[f := ?m]" "bp_hand ?p = bp_hand p"
    using pg(1,3) P(3) by (simp_all add: unpin_def guard_set_page_type_def guard_data_mut_def set_meta_def set_frame_def)
  have other: "?s ! unat j = s ! unat j" if "j \<noteq> i" for j
    using that pg(5) by (auto simp: store_put_def nth_list_update dest: unsigned_word_eqI)
  show ?thesis
    unfolding pool_sound_def fields length_list_update store_simps
  proof (intro conjI allI impI)
    fix j g
    show "(bp_table p j = Some g) = (g < length (bp_meta p) \<and> occupant ((bp_meta p)[f := ?m] ! g) = Some j)"
      using P(5) [of j g] pg(1) by (cases "g = f") auto
  next
    fix g assume g: "g < length (bp_meta p)"
    show "frame_ok ?s ps ((bp_meta p)[f := ?m] ! g) ((bp_frames p)[f := Some ?pg] ! g)"
    proof (cases "g = f")
      case True
      then show ?thesis using pg P(3) data by (simp add: frame_ok_def visible_def store_put_def)
    next
      case False
      have "j \<noteq> i" if "occupant (bp_meta p ! g) = Some j" for j using that P(5) [of i g] f g False by auto
      then show ?thesis using P(6) [OF g] False other
        by (auto simp: frame_ok_def split: option.splits)
    qed
  next
    fix j assume "j \<noteq> 0 \<and> unat j < length s \<and> bp_table p j = None"
    then show "visible (ps ! unat j) = visible (?s ! unat j)" using P(7) [of j] other [of j] f by (cases "j = i") auto
  qed (use P(1,2,3,4) in simp_all)
qed

lemma pool_write_sound:
  assumes p: "pool_shows p s" and i: "i \<noteq> 0" and io: "write_ok io" and data: "length data = PAGE_PAYLOAD_SIZE"
  shows "\<exists>r p'. pool_write io i t data p = (r, p')
    \<and> (if length s \<le> unat i then r = Err PageOutOfRange \<and> pool_shows p' s
       else r = Err Io \<and> \<not> io_read_ok io \<and> pool_shows p' s
         \<or> r = Ok () \<and> pool_shows p' (store_put s i ((s ! unat i)\<lparr>page_kind := t, payload := data\<rparr>)))"
proof -
  obtain ps where s: "pool_sound p s ps" and z: "idle (pins p)" using p by (auto simp: pool_shows_def)
  obtain r p1 ps1 where l: "locate_and_pin io i p = (r, p1)" "pool_sound p1 s ps1"
    and c: "if length s \<le> unat i then r = Err PageOutOfRange \<and> idle (pins p1)
       else r = Err Io \<and> \<not> io_read_ok io \<and> idle (pins p1)
         \<or> (\<exists>f. r = Ok f \<and> bp_table p1 i = Some f \<and> f < length (bp_meta p1)
           \<and> idle ((pins p1)[f := saturating_dec (pins p1 ! f)]))"
    using locate_and_pin_sound [OF s z i io] by blast
  show ?thesis
  proof (cases r)
    case (Ok f)
    let ?p = "guard_set_page_type f t (guard_data_mut f (\<lambda>_. data) p1)"
    from Ok c have f: "bp_table p1 i = Some f" "f < length (bp_meta p1)" "unat i < length s"
      and z': "idle ((pins p1)[f := saturating_dec (pins p1 ! f)])" by (auto split: if_splits)
    have meta: "bp_meta ?p = bp_meta p1" by (simp add: guard_set_page_type_def guard_data_mut_def set_frame_def)
    have "pool_write io i t data p = (Ok (), unpin f True ?p)" using l(1) Ok by (simp add: pool_write_def)
    moreover have "idle (pins (unpin f True ?p))" using z' f(2) unpin_pins [of f ?p True] by (simp add: meta)
    moreover note write_frame_sound [OF l(2) f(1) data, of t]
    ultimately show ?thesis using f(3) by (auto simp: pool_shows_def)
  next
    case (Err e)
    with l(1) have "pool_write io i t data p = (Err e, p1)" by (simp add: pool_write_def)
    moreover have "pool_shows p1 s" using c Err l(2) by (auto simp: pool_shows_def split: if_splits)
    ultimately show ?thesis using c Err by (auto split: if_splits)
  next
    case Panic
    with c show ?thesis by (auto split: if_splits)
  qed
qed

lemma pool_allocate_sound:
  assumes p: "pool_shows p s" and room: "Suc (length s) < 2 ^ 52" and io: "io_write io = Written" "io_meta io = Written"
  shows "\<exists>p'. pool_allocate io t p = (Ok (fst (store_alloc s t)), p') \<and> pool_shows p' (snd (store_alloc s t))"
proof -
  obtain ps where sound: "pool_sound p s ps" and z: "idle (pins p)" using p by (auto simp: pool_shows_def)
  note P = pool_soundD [OF sound]
  let ?new = "page_new (of_nat (length s)) t"
  obtain d m where d: "disk_allocate_page io t (bp_disk p) = (Ok (of_nat (length s)), d)" "disk_shows d ((ps @ [?new])[0 := m])"
    using disk_allocate_shows [OF P(1), of io t] room io P(2) by auto
  let ?ps = "(ps @ [?new])[0 := m]" and ?s = "s @ [?new]"
  have old: "?ps ! unat i = ps ! unat i" "?s ! unat i = s ! unat i" if "i \<noteq> 0" "unat i < length s" for i :: page_no
    using that P(2) by (auto simp: nth_append nth_list_update unat_eq_zero)
  have "frame_ok ?s ?ps (bp_meta p ! f) (bp_frames p ! f)" if "f < length (bp_meta p)" for f
    using P(6) [OF that] old by (auto simp: frame_ok_def split: option.splits)
  moreover have "visible (?ps ! unat i) = visible (?s ! unat i)" if "i \<noteq> 0" "unat i < Suc (length s)" "bp_table p i = None" for i
  proof (cases "unat i < length s")
    case True
    then show ?thesis using P(7) [of i] old [of i] that by simp
  next
    case False
    then have "unat i = length s" "0 < unat i" using that(1,2) by (simp_all add: unat_gt_0)
    then show ?thesis using P(2) by (simp add: nth_append nth_list_update)
  qed
  ultimately have "pool_sound (p\<lparr>bp_disk := d\<rparr>) ?s ?ps"
    using d(2) P(2,3,4,5) by (simp add: pool_sound_def)
  then have "pool_shows (p\<lparr>bp_disk := d\<rparr>) ?s" using z by (auto simp: pool_shows_def)
  moreover have "pool_allocate io t p = (Ok (of_nat (length s)), p\<lparr>bp_disk := d\<rparr>)" using d(1) by (simp add: pool_allocate_def on_disk_def)
  ultimately show ?thesis by (simp add: store_alloc_def)
qed

lemma flush_shows:
  assumes p: "pool_shows p s" and io: "\<And>f. all_or_nothing (io f)"
  shows "pool_shows (snd (flush_all io p)) s"
proof -
  obtain ps where sound: "pool_sound p s ps" and z: "idle (pins p)" using p by (auto simp: pool_shows_def)
  obtain r p' ps' where run: "flush_all io p = (r, p')" "pool_sound p' s ps'" "same_pages p p'"
    using flush_all_sound [OF sound, of io] io by blast
  have "pins p' = pins p" using run(3) by (simp add: same_pages_def list_eq_iff_nth_eq)
  with run z show ?thesis by (auto simp: pool_shows_def)
qed

text \<open>
  The calls on a pool with their answers. A refused write is only considered while flushing: see the theorem
  on evictions below.
\<close>

datatype pool_event =
    PoolRead page_no "(page_type \<times> byte list) outcome"
  | PoolReadFault page_no "(page_type \<times> byte list) outcome"
  | PoolWrote page_no page_type "byte list" "unit outcome"
  | PoolAllocated page_type page_no
  | PoolFlushed "unit outcome"
  | PoolBumped page_no lsn

inductive pool_step :: "buffer_pool \<Rightarrow> pool_event \<Rightarrow> buffer_pool \<Rightarrow> bool" where
  pool_read: "i \<noteq> 0 \<Longrightarrow> write_ok io \<Longrightarrow> io_read_ok io \<Longrightarrow> pool_read io i p = (r, p') \<Longrightarrow>
    pool_step p (PoolRead i (and_then r (\<lambda>pg. Ok (visible pg)))) p'"
| pool_read_fault: "i \<noteq> 0 \<Longrightarrow> write_ok io \<Longrightarrow> \<not> io_read_ok io \<Longrightarrow> pool_read io i p = (r, p') \<Longrightarrow>
    pool_step p (PoolReadFault i (and_then r (\<lambda>pg. Ok (visible pg)))) p'"
| pool_write: "i \<noteq> 0 \<Longrightarrow> length data = PAGE_PAYLOAD_SIZE \<Longrightarrow> write_ok io \<Longrightarrow> io_read_ok io \<Longrightarrow> pool_write io i t data p = (r, p') \<Longrightarrow>
    pool_step p (PoolWrote i t data r) p'"
| pool_allocate: "pool_page_count p < 2 ^ 52 - 1 \<Longrightarrow> io_write io = Written \<Longrightarrow> io_meta io = Written \<Longrightarrow>
    pool_allocate io t p = (Ok i, p') \<Longrightarrow> pool_step p (PoolAllocated t i) p'"
| pool_flush: "(\<And>f. all_or_nothing (io f)) \<Longrightarrow> flush_all io p = (r, p') \<Longrightarrow> pool_step p (PoolFlushed r) p'"
| pool_bump: "pool_step p (PoolBumped i l) (bump_page_lsn i l p)"

fun store_event :: "page_store \<Rightarrow> pool_event \<Rightarrow> page_store \<Rightarrow> bool" where
  "store_event s (PoolRead i r) s' \<longleftrightarrow> r = visible_at s i \<and> s' = s"
| "store_event s (PoolReadFault i r) s' \<longleftrightarrow> (r = visible_at s i \<or> r = Err Io) \<and> s' = s"
| "store_event s (PoolWrote i t data r) s' \<longleftrightarrow>
    (if unat i < length s
     then r = Ok () \<and> s' = store_put s i ((s ! unat i)\<lparr>page_kind := t, payload := data\<rparr>)
     else r = Err PageOutOfRange \<and> s' = s)"
| "store_event s (PoolAllocated t i) s' \<longleftrightarrow> (i, s') = store_alloc s t"
| "store_event s (PoolFlushed r) s' \<longleftrightarrow> s' = s"
| "store_event s (PoolBumped i l) s' \<longleftrightarrow> s' = s"

lemma pool_event_step:
  assumes p: "pool_shows p s" and step: "pool_step p l p'"
  shows "\<exists>s'. store_event s l s' \<and> pool_shows p' s'"
  using step
proof cases
  case (pool_read i io r)
  with pool_read_sound [OF p, of i io] show ?thesis by auto
next
  case (pool_read_fault i io r)
  with pool_read_sound [OF p, of i io] show ?thesis by auto
next
  case (pool_write i data io t r)
  with pool_write_sound [OF p, of i io data t] show ?thesis by (cases "length s \<le> unat i") auto
next
  case (pool_allocate io t i)
  obtain ps where "pool_sound p s ps" using p by (auto simp: pool_shows_def)
  then have "unat (pool_page_count p) = length s" using shows_length pool_soundD(1,2) by (metis pool_page_count_def)
  then have "Suc (length s) < 2 ^ 52" using pool_allocate(2) by (simp add: word_less_nat_alt)
  from pool_allocate_sound [OF p this pool_allocate(3,4), of t] pool_allocate(1,5) show ?thesis
    by (auto simp: prod_eq_iff)
next
  case (pool_flush io r)
  with flush_shows [OF p, of io] show ?thesis by force
next
  case (pool_bump i l)
  obtain ps where sound: "pool_sound p s ps" and z: "idle (pins p)" using p by (auto simp: pool_shows_def)
  have "pool_sound p' s ps \<and> pins p' = pins p"
  proof (cases "bp_table p i")
    case (Some f)
    then have "p' = set_meta f (\<lambda>m. if fm_lsn m < l then m\<lparr>fm_lsn := l\<rparr> else m) p" using pool_bump(2) by (simp add: bump_page_lsn_def)
    moreover have "pins (set_meta f (\<lambda>m. if fm_lsn m < l then m\<lparr>fm_lsn := l\<rparr> else m) p) = pins p"
      by (cases "f < length (bp_meta p)") (simp_all add: set_meta_def map_update list_update_same_conv list_update_beyond)
    ultimately show ?thesis using set_meta_sound [OF sound, of "\<lambda>m. if fm_lsn m < l then m\<lparr>fm_lsn := l\<rparr> else m" f] by simp
  qed (use sound pool_bump(2) in \<open>simp add: bump_page_lsn_def\<close>)
  with z pool_bump(1) show ?thesis by (auto simp: pool_shows_def)
qed

interpretation cached_pages: simulation pool_step store_event pool_shows
  by unfold_locales (rule pool_event_step)

lemma fresh_pool_shows:
  assumes d: "disk_shows d ps" and new: "pool_new d cap = Ok p" and len: "length s = length ps"
    and same: "\<And>i. i \<noteq> 0 \<Longrightarrow> unat i < length s \<Longrightarrow> visible (ps ! unat (i :: page_no)) = visible (s ! unat i)"
  shows "pool_shows p s"
proof -
  have "0 < cap" and p: "p = \<lparr>bp_disk = d, bp_frames = replicate cap None, bp_table = Map.empty,
        bp_meta = replicate cap frame_meta_empty, bp_hand = 0, bp_hits = 0, bp_misses = 0, bp_wal = None\<rparr>"
    using new by (auto simp: pool_new_def split: if_splits)
  then have "pool_sound p s ps" using d len same by (simp add: pool_sound_def frame_ok_def frame_meta_empty_def)
  moreover have "idle (pins p)" using \<open>0 < cap\<close> by (simp add: p idle_def frame_meta_empty_def)
  ultimately show ?thesis by (auto simp: pool_shows_def)
qed



text \<open>
  C36: what was flushed is in the file. After a \<open>flush_all\<close> that reports success, the file alone, opened
  again under a pool of any size, shows every page as the clients last left it.
\<close>

theorem flushed_pages_survive_restart:
  assumes p: "pool_shows p s" and flush: "flush_all io p = (Ok (), p')" and io: "\<And>f. all_or_nothing (io f)" and cap: "0 < cap"
  shows "\<exists>d q. disk_open no_faults (dm_file (bp_disk p')) = (Ok d, dm_file (bp_disk p')) \<and> pool_new d cap = Ok q \<and> pool_shows q s"
proof -
  obtain ps where sound: "pool_sound p s ps" using p by (auto simp: pool_shows_def)
  obtain ps' where s': "pool_sound p' s ps'"
    and same: "\<And>i :: page_no. i \<noteq> 0 \<Longrightarrow> unat i < length s \<Longrightarrow> visible (ps' ! unat i) = visible (s ! unat i)"
    using flush_all_sound [OF sound, of io] io flush by auto
  let ?d = "(bp_disk p')\<lparr>dm_io_count := 0\<rparr>"
  have "io_read_ok no_faults" by (simp add: no_faults_def)
  from disk_open_shows [OF pool_soundD(1) [OF s'] this]
  have "disk_open no_faults (dm_file (bp_disk p')) = (Ok ?d, dm_file (bp_disk p'))" .
  moreover obtain q where q: "pool_new ?d cap = Ok q" using cap by (simp add: pool_new_def)
  moreover have "disk_shows ?d ps'" using pool_soundD(1) [OF s'] by (simp add: disk_shows_def)
  from fresh_pool_shows [OF this q] same pool_soundD(2) [OF s'] have "pool_shows q s" by simp
  ultimately show ?thesis by blast
qed

theorem flushed_pages_survive_restart_witness:
  "\<exists>d p m p' q d'. disk_open no_faults [] = (Ok d, dm_file d) \<and> pool_new d 3 = Ok p \<and> pool_shows p [m]
    \<and> flush_all (\<lambda>_. no_faults) p = (Ok (), p')
    \<and> disk_open no_faults (dm_file (bp_disk p')) = (Ok d', dm_file (bp_disk p')) \<and> pool_new d' 5 = Ok q \<and> pool_shows q [m]"
proof -
  obtain d m where d: "disk_open no_faults [] = (Ok d, dm_file d)" "disk_shows d [m]"
    using disk_open_new [of no_faults] by (auto simp: no_faults_def)
  obtain p where p: "pool_new d 3 = Ok p" by (simp add: pool_new_def)
  have sh: "pool_shows p [m]" by (rule fresh_pool_shows [OF d(2) p]) simp_all
  have io: "all_or_nothing no_faults" "write_ok no_faults" by (simp_all add: no_faults_def all_or_nothing_def write_ok_def)
  obtain ps where "pool_sound p [m] ps" using sh by (auto simp: pool_shows_def)
  from flush_all_sound [OF this, of "\<lambda>_. no_faults"] io obtain p' where f: "flush_all (\<lambda>_. no_faults) p = (Ok (), p')" by auto
  from flushed_pages_survive_restart [OF sh f io(1), of 5] d(1) p sh f show ?thesis by auto
qed

subsection \<open>Pinned pages\<close>

text \<open>No matter what the operating system refuses.\<close>

lemma write_back_keeps:
  "write_back io v l p = (r, p') \<Longrightarrow> bp_meta p' = bp_meta p \<and> (\<forall>f. f \<noteq> v \<longrightarrow> bp_frames p' ! f = bp_frames p ! f)"
proof -
  obtain r1 p1 where s: "sync_log io l p = (r1, p1)" by fastforce
  then have "bp_meta p1 = bp_meta p" "bp_frames p1 = bp_frames p"
    by (auto simp: sync_log_def split: option.splits prod.splits)
  with s show "write_back io v l p = (r, p') \<Longrightarrow> ?thesis"
    by (cases r1) (auto simp: write_back_def on_disk_def set_frame_def Let_def split: option.splits prod.splits)
qed

lemma evict_keeps:
  assumes run: "evict io p = (r, p')" and hand: "bp_hand p < length (bp_meta p)" and f: "f < length (bp_meta p)"
    and pin: "pin_count (bp_meta p ! f) \<noteq> 0"
  shows "unref (bp_meta p' ! f) = unref (bp_meta p ! f) \<and> bp_frames p' ! f = bp_frames p ! f \<and> length (bp_meta p') = length (bp_meta p)
    \<and> (\<forall>g. r = Ok g \<longrightarrow> g \<noteq> f)"
proof -
  obtain v h ms where sw: "clock_sweep (2 * pool_capacity p) (bp_hand p) (bp_meta p) = (v, h, ms)" by (metis surj_pair)
  have un: "map unref ms = map unref (bp_meta p)" by (rule sweep_unref [OF sw])
  then have len: "length ms = length (bp_meta p)" by (metis length_map)
  then have uf: "unref (ms ! f) = unref (bp_meta p ! f)" using un f by (metis nth_map)
  then have pin': "pin_count (ms ! f) \<noteq> 0" using pin unref_eq by metis
  let ?q = "p\<lparr>bp_hand := h, bp_meta := ms\<rparr>"
  show ?thesis
  proof (cases v)
    case None
    with sw run uf len show ?thesis by (auto simp: evict_def)
  next
    case (Some g)
    then have g: "occupant (ms ! g) \<noteq> None" "g \<noteq> f" using sweep_victim [OF sw hand] pin' by auto
    then obtain i where i: "occupant (ms ! g) = Some i" by auto
    have run': "evict_frame io g ?q = (r, p')" using run sw Some by (simp add: evict_def)
    let ?q1 = "set_meta g (\<lambda>m. m\<lparr>occupant := None\<rparr>) ?q"
    obtain r1 p1 where wb: "(if dirty (ms ! g) then write_back io g (fm_lsn (ms ! g)) ?q1 else (Ok (), ?q1)) = (r1, p1)" by fastforce
    have k: "bp_meta p1 = bp_meta ?q1 \<and> (\<forall>f. f \<noteq> g \<longrightarrow> bp_frames p1 ! f = bp_frames ?q1 ! f)"
      using wb write_back_keeps [of io g "fm_lsn (ms ! g)" ?q1] by (cases "dirty (ms ! g)") auto
    have "(r, p') = run_then (r1, p1) (\<lambda>_ p. let p = set_frame g None p in (Ok g, p\<lparr>bp_table := (bp_table p)(i := None)\<rparr>))"
      using run' i wb by (simp add: evict_frame_def Let_def)
    then have "bp_meta p' = bp_meta p1 \<and> (\<forall>f. f \<noteq> g \<longrightarrow> bp_frames p' ! f = bp_frames p1 ! f) \<and> (\<forall>h. r = Ok h \<longrightarrow> h = g)"
      by (cases r1) (auto simp: set_frame_def Let_def)
    with k g uf len show ?thesis by (auto simp: set_meta_def)
  qed
qed

lemma free_frame_keeps:
  assumes run: "free_frame io p = (r, p')" and hand: "bp_hand p < length (bp_meta p)" and f: "f < length (bp_meta p)"
    and occ: "occupant (bp_meta p ! f) = Some i" and pin: "pin_count (bp_meta p ! f) \<noteq> 0"
  shows "unref (bp_meta p' ! f) = unref (bp_meta p ! f) \<and> bp_frames p' ! f = bp_frames p ! f \<and> (\<forall>g. r = Ok g \<longrightarrow> g \<noteq> f)"
proof (cases "position (\<lambda>m. occupant m = None) (bp_meta p)")
  case None
  with run have "evict io p = (r, p')" by (simp add: free_frame_def)
  from evict_keeps [OF this hand f pin] show ?thesis by blast
next
  case (Some g)
  then have "g \<noteq> f" using occ by (auto simp: position_Some_iff)
  with Some run show ?thesis by (auto simp: free_frame_def)
qed

lemma locate_or_load_keeps:
  assumes run: "locate_or_load io j p = (r, p')" and hand: "bp_hand p < length (bp_meta p)" and f: "f < length (bp_meta p)"
    and occ: "occupant (bp_meta p ! f) = Some i" and pin: "pin_count (bp_meta p ! f) \<noteq> 0"
  shows "unref (bp_meta p' ! f) = unref (bp_meta p ! f) \<and> bp_frames p' ! f = bp_frames p ! f"
proof (cases "bp_table p j")
  case None
  let ?q = "p\<lparr>bp_misses := bp_misses p + 1\<rparr>"
  obtain r1 p1 where free: "free_frame io ?q = (r1, p1)" by fastforce
  have k: "unref (bp_meta p1 ! f) = unref (bp_meta p ! f) \<and> bp_frames p1 ! f = bp_frames p ! f \<and> (\<forall>g. r1 = Ok g \<longrightarrow> g \<noteq> f)"
    using free_frame_keeps [OF free] hand f occ pin by simp
  show ?thesis
  proof (cases r1)
    case (Ok g)
    obtain r2 d where d: "disk_read_page io j (bp_disk p1) = (r2, d)" by fastforce
    have "g \<noteq> f" using k Ok by simp
    with None run free Ok d k show ?thesis
      by (cases r2) (auto simp: locate_or_load_def on_disk_def Let_def set_meta_def set_frame_def)
  qed (use None run free k in \<open>auto simp: locate_or_load_def\<close>)
qed (use run in \<open>auto simp: locate_or_load_def\<close>)

text \<open>
  A page under a guard stays where it is. While a frame is pinned, opening a guard on any page, with
  whatever evictions and failures of the operating system that brings, leaves the frame with its page, byte
  for byte, and its pins are not lost.
\<close>

lemma pinned_pages_stay:
  assumes run: "locate_and_pin io j p = (r, p')" and hand: "bp_hand p < length (bp_meta p)" and f: "f < length (bp_meta p)"
    and occ: "occupant (bp_meta p ! f) = Some i" and pin: "pin_count (bp_meta p ! f) \<noteq> 0"
  shows "occupant (bp_meta p' ! f) = Some i \<and> guard_page f p' = guard_page f p
    \<and> (pin_count (bp_meta p' ! f) = pin_count (bp_meta p ! f) \<or> r = Ok f \<and> pin_count (bp_meta p' ! f) = pin_count (bp_meta p ! f) + 1)"
proof -
  obtain r1 p1 where l: "locate_or_load io j p = (r1, p1)" by fastforce
  from locate_or_load_keeps [OF l hand f occ pin]
  have k: "unref (bp_meta p1 ! f) = unref (bp_meta p ! f)" "bp_frames p1 ! f = bp_frames p ! f" by blast+
  have m: "occupant (bp_meta p1 ! f) = Some i" "pin_count (bp_meta p1 ! f) = pin_count (bp_meta p ! f)"
    using unref_eq [OF k(1)] occ by simp_all
  show ?thesis
  proof (cases r1)
    case (Ok g)
    then have p': "r = Ok g" "p' = set_meta g (\<lambda>m. m\<lparr>pin_count := pin_count m + 1, referenced := True\<rparr>) p1"
      using run l by (simp_all add: locate_and_pin_def)
    show ?thesis
    proof (cases "g = f \<and> f < length (bp_meta p1)")
      case True
      then show ?thesis using m k(2) p' by (simp add: guard_page_def set_meta_def)
    next
      case False
      then have "bp_meta p' ! f = bp_meta p1 ! f" using p'(2) by (cases "g = f") (auto simp: set_meta_def list_update_beyond)
      then show ?thesis using m k(2) p'(2) by (simp add: guard_page_def set_meta_def)
    qed
  qed (use run l m k(2) in \<open>auto simp: locate_and_pin_def guard_page_def\<close>)
qed

text \<open>A pool of one frame that is pinned on page 1.\<close>

definition one_pinned :: buffer_pool where
  "one_pinned = \<lparr>bp_disk = \<lparr>dm_file = [], dm_page_count = 2, dm_io_count = 0\<rparr>, bp_frames = [Some (page_new 1 PtData)],
     bp_table = [1 \<mapsto> 0], bp_meta = [\<lparr>occupant = Some 1, pin_count = 1, dirty = True, referenced = True, fm_lsn = 0\<rparr>],
     bp_hand = 0, bp_hits = 0, bp_misses = 0, bp_wal = None\<rparr>"

lemma pinned_pages_stay_witness:
  "\<exists>r p'. locate_and_pin no_faults 0 one_pinned = (r, p') \<and> occupant (bp_meta p' ! 0) = Some 1
    \<and> guard_page 0 p' = Ok (page_new 1 PtData)"
proof -
  obtain r p' where run: "locate_and_pin no_faults 0 one_pinned = (r, p')" by fastforce
  from pinned_pages_stay [OF run, of 0 1] run show ?thesis by (auto simp: one_pinned_def guard_page_def)
qed

subsection \<open>A failed eviction\<close>

text \<open>
  C37: when the write of an evicted page fails, the page is lost. \<open>evict\<close> empties the frame's metadata before
  it writes, and the page table keeps its entry, so the next page that is loaded takes the frame and a guard
  on the evicted page's number then shows that other page; its own last change is nowhere any more.
\<close>

theorem failed_eviction_swaps_pages:
  assumes frame: "bp_frames p = [Some pg]" "bp_meta p = [\<lparr>occupant = Some i, pin_count = 0, dirty = True, referenced = False, fm_lsn = l\<rparr>]"
      "bp_table p = [i \<mapsto> 0]" "bp_hand p = 0" "bp_wal p = None"
    and pg: "page_id pg = i" "length (payload pg) = PAGE_PAYLOAD_SIZE"
    and d: "disk_shows (bp_disk p) ps" and ij: "i \<noteq> j" "unat i < length ps" "unat j < length ps"
    and io: "io_write io = WriteFailed 0"
  shows "\<exists>p1 p2 p3. pool_read io j p = (Err Io, p1) \<and> pool_read no_faults j p1 = (Ok (ps ! unat j), p2)
    \<and> pool_read no_faults i p2 = (Ok (ps ! unat j), p3) \<and> disk_shows (bp_disk p3) ps"
proof -
  let ?m = "\<lparr>occupant = Some i, pin_count = 0, dirty = True, referenced = False, fm_lsn = l\<rparr>"
  let ?pg = "pg\<lparr>page_lsn := l\<rparr>"
  have w: "disk_write_page io ?pg (bp_disk p) = (Err Io, bp_disk p)"
    by (rule disk_write_refused [OF io d]) (use pg ij(2) in simp_all)
  have sweep: "clock_sweep (2 * 1) 0 [?m] = (Some 0, 0, [?m])" by (simp add: numeral_2_eq_2)
  let ?p1 = "p\<lparr>bp_misses := bp_misses p + 1, bp_hand := 0, bp_meta := [?m\<lparr>occupant := None\<rparr>], bp_frames := [Some ?pg]\<rparr>"
  have "locate_or_load io j p = (Err Io, ?p1)"
    using ij(1) w frame sweep
    by (simp add: locate_or_load_def free_frame_def evict_def evict_frame_def write_back_def sync_log_def on_disk_def
        set_meta_def set_frame_def pool_capacity_def Let_def)
  then have one: "pool_read io j p = (Err Io, ?p1)" by (simp add: pool_read_def locate_and_pin_def)
  have "io_read_ok no_faults" by (simp add: no_faults_def)
  from disk_read_shows [OF d this, of j] ij(3) obtain d2 where r: "disk_read_page no_faults j (bp_disk p) = (Ok (ps ! unat j), d2)"
    and d2: "disk_shows d2 ps" using d by (simp add: store_get_def disk_shows_def)
  let ?m2 = "\<lparr>occupant = Some j, pin_count = 0, dirty = False, referenced = True, fm_lsn = page_lsn (ps ! unat j)\<rparr>"
  let ?p2 = "p\<lparr>bp_misses := bp_misses p + 1 + 1, bp_hand := 0, bp_meta := [?m2], bp_frames := [Some (ps ! unat j)],
    bp_disk := d2, bp_table := [i \<mapsto> 0, j \<mapsto> 0]\<rparr>"
  have two: "pool_read no_faults j ?p1 = (Ok (ps ! unat j), ?p2)"
    using ij(1) frame(3) r
    by (simp add: pool_read_def locate_and_pin_def locate_or_load_def free_frame_def on_disk_def set_meta_def set_frame_def
        unpin_def saturating_dec_def guard_page_def Let_def)
  have "\<exists>p3. pool_read no_faults i ?p2 = (Ok (ps ! unat j), p3) \<and> bp_disk p3 = d2"
    using ij(1) by (simp add: pool_read_def locate_and_pin_def locate_or_load_def set_meta_def unpin_def guard_page_def)
  with one two d2 show ?thesis by metis
qed

theorem failed_eviction_swaps_pages_witness:
  "\<exists>io p ps pg p1 p2 p3. bp_frames p = [Some pg] \<and> payload pg = replicate PAGE_PAYLOAD_SIZE 7 \<and> page_id pg = 1
    \<and> pool_read io 2 p = (Err Io, p1) \<and> pool_read no_faults 2 p1 = (Ok (ps ! 2), p2)
    \<and> pool_read no_faults 1 p2 = (Ok (ps ! 2), p3) \<and> disk_shows (bp_disk p3) ps \<and> payload (ps ! 1) = replicate PAGE_PAYLOAD_SIZE 0"
proof -
  have ok: "io_write no_faults = Written" "io_meta no_faults = Written" by (simp_all add: no_faults_def)
  obtain d0 m0 where "disk_shows d0 [m0]" using disk_open_new [of no_faults] by (auto simp: no_faults_def)
  then obtain d1 m1 where "disk_shows d1 [m1, page_new 1 PtData]"
    using disk_allocate_shows [of d0 "[m0]" no_faults PtData] ok by auto
  then obtain d2 m2 where d: "disk_shows d2 [m2, page_new 1 PtData, page_new 2 PtData]"
    using disk_allocate_shows [of d1 "[m1, page_new 1 PtData]" no_faults PtData] ok by auto
  let ?pg = "(page_new 1 PtData)\<lparr>payload := replicate PAGE_PAYLOAD_SIZE 7\<rparr>"
  let ?p = "\<lparr>bp_disk = d2, bp_frames = [Some ?pg], bp_table = [1 \<mapsto> 0],
     bp_meta = [\<lparr>occupant = Some 1, pin_count = 0, dirty = True, referenced = False, fm_lsn = 0\<rparr>],
     bp_hand = 0, bp_hits = 0, bp_misses = 0, bp_wal = None\<rparr>"
  let ?io = "no_faults\<lparr>io_write := WriteFailed 0\<rparr>"
  let ?ps = "[m2, page_new 1 PtData, page_new 2 PtData]"
  obtain p1 p2 p3 where "pool_read ?io 2 ?p = (Err Io, p1)" "pool_read no_faults 2 p1 = (Ok (?ps ! unat (2 :: page_no)), p2)"
    "pool_read no_faults 1 p2 = (Ok (?ps ! unat (2 :: page_no)), p3)" "disk_shows (bp_disk p3) ?ps"
    using failed_eviction_swaps_pages [of ?p ?pg 1 0 ?ps 2 ?io] d by (auto simp: page_new_def)
  then show ?thesis
    by (intro exI [of _ ?io] exI [of _ ?p] exI [of _ ?ps] exI [of _ ?pg] exI [of _ p1] exI [of _ p2] exI [of _ p3]) (simp add: page_new_def)
qed

end
