(* ===== verification/Buffer_Log.thy ===== *)
theory Buffer_Log
  imports Buffer_Pool
begin

text \<open>
  Log before data: a pool with a log attached never lets a page reach the file before the log records of
  its changes are durable, whatever is evicted or flushed and whatever the operating system refuses.
\<close>

subsection \<open>The invariant\<close>

text \<open>
  Every page in the file carries an LSN that the log has made durable; every frame carries an LSN that the log has
  given out. The rest says that the pool can write back what its frames hold.
\<close>

definition log_pages :: "buffer_pool \<Rightarrow> wal_writer \<Rightarrow> page list \<Rightarrow> bool" where
  "log_pages p w ps \<longleftrightarrow> bp_wal p = Some w \<and> w_durable_lsn w < w_next_lsn w \<and> disk_shows (bp_disk p) ps
     \<and> (\<forall>pg \<in> set ps. page_lsn pg \<le> w_durable_lsn w)
     \<and> length (bp_frames p) = length (bp_meta p) \<and> bp_hand p < length (bp_meta p)
     \<and> (\<forall>m \<in> set (bp_meta p). fm_lsn m < w_next_lsn w)
     \<and> (\<forall>i f. bp_table p i = Some f \<longrightarrow> f < length (bp_meta p))
     \<and> (\<forall>f < length (bp_meta p). \<forall>pg. bp_frames p ! f = Some pg \<longrightarrow>
          page_id pg \<noteq> 0 \<and> unat (page_id pg) < length ps \<and> length (payload pg) = PAGE_PAYLOAD_SIZE)"

definition log_ahead :: "buffer_pool \<Rightarrow> bool" where
  "log_ahead p \<longleftrightarrow> (\<exists>w ps. log_pages p w ps)"

lemma log_pagesD:
  assumes "log_pages p w ps"
  shows "bp_wal p = Some w" "w_durable_lsn w < w_next_lsn w" "disk_shows (bp_disk p) ps"
    "\<And>pg. pg \<in> set ps \<Longrightarrow> page_lsn pg \<le> w_durable_lsn w" "length (bp_frames p) = length (bp_meta p)"
    "bp_hand p < length (bp_meta p)" "\<And>m. m \<in> set (bp_meta p) \<Longrightarrow> fm_lsn m < w_next_lsn w"
    "\<And>f pg. f < length (bp_meta p) \<Longrightarrow> bp_frames p ! f = Some pg \<Longrightarrow>
       page_id pg \<noteq> 0 \<and> unat (page_id pg) < length ps \<and> length (payload pg) = PAGE_PAYLOAD_SIZE"
    "\<And>i f. bp_table p i = Some f \<Longrightarrow> f < length (bp_meta p)"
  using assms unfolding log_pages_def by blast+

lemma before_next: "a < n \<Longrightarrow> a \<le> n - 1 \<and> n - 1 < n" for a n :: lsn
  using unat_sub [of 1 n] by (auto simp: word_le_nat_alt word_less_nat_alt)

lemma sync_up_to_durable_lsn:
  assumes "sync_up_to io ok w l = (r, w')" "w_durable_lsn w < w_next_lsn w" "l < w_next_lsn w"
  shows "w_next_lsn w' = w_next_lsn w" "w_durable_lsn w \<le> w_durable_lsn w'" "w_durable_lsn w' < w_next_lsn w'"
    "r = Ok () \<Longrightarrow> l \<le> w_durable_lsn w'"
  using assms
  by (auto simp: sync_up_to_def wal_sync_def wal_flush_def before_next split: if_splits write_result.splits prod.splits)

lemma sync_log_ahead:
  assumes p: "log_pages p w ps" and l: "l < w_next_lsn w" and run: "sync_log io l p = (r, p')"
  shows "\<exists>w'. p' = p\<lparr>bp_wal := Some w'\<rparr> \<and> log_pages p' w' ps \<and> w_next_lsn w' = w_next_lsn w \<and> (r = Ok () \<longrightarrow> l \<le> w_durable_lsn w')"
proof -
  note P = log_pagesD [OF p]
  obtain r' w' where s: "sync_up_to (io_wal_write io) (io_wal_sync_ok io) w l = (r', w')" by fastforce
  note k = sync_up_to_durable_lsn [OF s P(2) l]
  have "r' = r" "p' = p\<lparr>bp_wal := Some w'\<rparr>" using run s P(1) by (simp_all add: sync_log_def)
  moreover have "log_pages (p\<lparr>bp_wal := Some w'\<rparr>) w' ps"
    using p k(1-3) P(4) by (auto simp: log_pages_def intro: order_trans)
  ultimately show ?thesis using k by auto
qed

lemma write_back_ahead:
  assumes p: "log_pages p w ps" and l: "l < w_next_lsn w" and f: "f < length (bp_meta p)" and io: "all_or_nothing io"
    and run: "write_back io f l p = (r, p')"
  shows "\<exists>w' ps'. log_pages p' w' ps' \<and> w_next_lsn w' = w_next_lsn w \<and> bp_meta p' = bp_meta p"
proof -
  obtain r1 p1 where s: "sync_log io l p = (r1, p1)" by fastforce
  from sync_log_ahead [OF p l s] obtain w1 where p1: "p1 = p\<lparr>bp_wal := Some w1\<rparr>" "log_pages p1 w1 ps" "w_next_lsn w1 = w_next_lsn w"
    "r1 = Ok () \<longrightarrow> l \<le> w_durable_lsn w1" by blast
  note P = log_pagesD [OF p1(2)]
  show ?thesis
  proof (cases "r1 = Ok ()")
    case False
    then have "p' = p1" using run s by (cases r1) (simp_all add: write_back_def)
    with p1 show ?thesis by auto
  next
    case True
    show ?thesis
    proof (cases "bp_frames p ! f")
      case None
      then have "p' = p1" using run s True p1(1) by (simp add: write_back_def)
      with p1 show ?thesis by auto
    next
      case (Some pg)
      let ?pg = "pg\<lparr>page_lsn := l\<rparr>"
      have pg: "page_id pg \<noteq> 0" "unat (page_id pg) < length ps" "length (payload pg) = PAGE_PAYLOAD_SIZE"
        using P(8) [of f pg] Some f p1(1) by simp_all
      obtain r2 d where w: "disk_write_page io ?pg (bp_disk p) = (r2, d)" by fastforce
      then have p': "p' = p1\<lparr>bp_frames := (bp_frames p1)[f := Some ?pg], bp_disk := d\<rparr>"
        using run s True p1(1) Some by (simp add: write_back_def on_disk_def set_frame_def)
      have d: "disk_shows d ps \<or> disk_shows d (ps[unat (page_id pg) := ?pg])"
      proof (cases "io_write io = Written")
        case True
        then show ?thesis
          using disk_write_shows [of "bp_disk p" ps ?pg io] P(3) pg w p1(1) by (auto simp: store_put_def)
      next
        case False
        then show ?thesis using disk_write_refused [of io "bp_disk p" ps ?pg] io pg P(3) w p1(1) by (simp add: all_or_nothing_def)
      qed
      have fr: "page_id qg \<noteq> 0 \<and> unat (page_id qg) < length ps \<and> length (payload qg) = PAGE_PAYLOAD_SIZE"
        if "g < length (bp_meta p1)" "(bp_frames p1)[f := Some ?pg] ! g = Some qg" for g qg
        using that pg P(8) [of g qg] P(5) f p1(1) by (cases "g = f") auto
      have lsn: "page_lsn qg \<le> w_durable_lsn w1" if "qg \<in> set (ps[unat (page_id pg) := ?pg])" for qg
        using that P(4) [of qg] p1(4) True set_update_subset_insert [of ps "unat (page_id pg)" ?pg] by auto
      have "log_pages p' w1 ps \<or> log_pages p' w1 (ps[unat (page_id pg) := ?pg])"
        using d p1(2) fr lsn unfolding log_pages_def p' by auto
      with p1 p' show ?thesis by auto
    qed
  qed
qed

subsection \<open>Every operation keeps it\<close>

lemma log_pages_frames:
  assumes "log_pages p w ps" "bp_disk p' = bp_disk p" "bp_wal p' = bp_wal p" "length (bp_frames p') = length (bp_meta p')"
    "length (bp_meta p') = length (bp_meta p)" "bp_table p' = bp_table p" "bp_hand p' < length (bp_meta p')" "\<And>m. m \<in> set (bp_meta p') \<Longrightarrow> fm_lsn m < w_next_lsn w"
    "\<And>f pg. f < length (bp_meta p') \<Longrightarrow> bp_frames p' ! f = Some pg \<Longrightarrow>
       page_id pg \<noteq> 0 \<and> unat (page_id pg) < length ps \<and> length (payload pg) = PAGE_PAYLOAD_SIZE"
  shows "log_pages p' w ps"
  using assms unfolding log_pages_def by auto

lemma log_pages_set_meta:
  assumes p: "log_pages p w ps" and g: "f < length (bp_meta p) \<Longrightarrow> fm_lsn (g (bp_meta p ! f)) < w_next_lsn w"
  shows "log_pages (set_meta f g p) w ps"
proof (rule log_pages_frames [OF p])
  note P = log_pagesD [OF p]
  fix m assume "m \<in> set (bp_meta (set_meta f g p))"
  then show "fm_lsn m < w_next_lsn w"
    using g P(7) set_update_subset_insert [of "bp_meta p" f "g (bp_meta p ! f)"]
    by (cases "f < length (bp_meta p)") (auto simp: set_meta_def list_update_beyond)
qed (use log_pagesD(5-8) [OF p] in \<open>auto simp: set_meta_def\<close>)

lemma log_pages_keep_lsn:
  assumes p: "log_pages p w ps" and g: "\<And>m. fm_lsn (g m) = fm_lsn m"
  shows "log_pages (set_meta f g p) w ps"
  by (rule log_pages_set_meta [OF p]) (simp add: g log_pagesD(7) [OF p])

lemma log_pages_set_frame:
  assumes p: "log_pages p w ps"
    and fr: "\<And>pg. fr = Some pg \<Longrightarrow> f < length (bp_meta p) \<Longrightarrow>
      page_id pg \<noteq> 0 \<and> unat (page_id pg) < length ps \<and> length (payload pg) = PAGE_PAYLOAD_SIZE"
  shows "log_pages (set_frame f fr p) w ps"
proof (rule log_pages_frames [OF p])
  fix g pg assume g: "g < length (bp_meta (set_frame f fr p))" "bp_frames (set_frame f fr p) ! g = Some pg"
  then show "page_id pg \<noteq> 0 \<and> unat (page_id pg) < length ps \<and> length (payload pg) = PAGE_PAYLOAD_SIZE"
    using fr log_pagesD(5) [OF p] log_pagesD(8) [OF p, of g pg] by (cases "g = f") (auto simp: set_frame_def)
qed (use log_pagesD(5-7) [OF p] in \<open>auto simp: set_frame_def\<close>)

lemma flush_frame_ahead:
  assumes p: "log_pages p w ps" and f: "f < length (bp_meta p)" and io: "all_or_nothing io" and run: "flush_frame io f p = (r, p')"
  shows "\<exists>w' ps'. log_pages p' w' ps' \<and> w_next_lsn w' = w_next_lsn w \<and> length (bp_meta p') = length (bp_meta p)"
proof -
  obtain r1 p1 where wb: "write_back io f (fm_lsn (bp_meta p ! f)) p = (r1, p1)" by fastforce
  have "fm_lsn (bp_meta p ! f) < w_next_lsn w" by (rule log_pagesD(7) [OF p]) (simp add: f)
  from write_back_ahead [OF p this f io wb] obtain w' ps' where w': "log_pages p1 w' ps'" "w_next_lsn w' = w_next_lsn w" "bp_meta p1 = bp_meta p"
    by blast
  have "log_pages (set_meta f (\<lambda>m. m\<lparr>dirty := False\<rparr>) p1) w' ps'" by (rule log_pages_keep_lsn [OF w'(1)]) simp
  with run wb w' show ?thesis by (cases r1) (auto simp: flush_frame_def set_meta_def)
qed

lemma flush_frames_ahead:
  "log_pages p w ps \<Longrightarrow> \<forall>f \<in> set fs. f < length (bp_meta p) \<Longrightarrow> (\<And>f. all_or_nothing (io f)) \<Longrightarrow> flush_frames io fs p = (r, p') \<Longrightarrow>
   log_ahead p'"
proof (induction fs arbitrary: p w ps)
  case (Cons f fs)
  obtain r1 p1 where one: "flush_frame (io f) f p = (r1, p1)" by fastforce
  from flush_frame_ahead [OF Cons.prems(1) _ Cons.prems(3) one] Cons.prems(2) obtain w' ps' where
    w': "log_pages p1 w' ps'" "length (bp_meta p1) = length (bp_meta p)" by auto
  show ?case
  proof (cases "r1 = Ok ()")
    case True
    with Cons.prems(4) one have "flush_frames io fs p1 = (r, p')" by simp
    with Cons.IH [OF w'(1) _ Cons.prems(3)] Cons.prems(2) w'(2) show ?thesis by simp
  next
    case False
    with Cons.prems(4) one have "p' = p1" by (cases r1) simp_all
    with w' show ?thesis by (auto simp: log_ahead_def)
  qed
qed (auto simp: log_ahead_def)

lemma flush_all_ahead:
  assumes "log_ahead p" "\<And>f. all_or_nothing (io f)" "flush_all io p = (r, p')"
  shows "log_ahead p'"
proof -
  obtain w ps where p: "log_pages p w ps" using assms(1) by (auto simp: log_ahead_def)
  show ?thesis
    by (rule flush_frames_ahead [OF p _ assms(2)]) (use assms(3) log_pagesD(5) [OF p] in \<open>auto simp: flush_all_def pool_capacity_def\<close>)
qed

lemma evict_ahead:
  assumes p: "log_pages p w ps" and io: "all_or_nothing io" and run: "evict io p = (r, p')"
  shows "\<exists>w' ps'. log_pages p' w' ps' \<and> (\<forall>f. r = Ok f \<longrightarrow> f < length (bp_meta p'))"
proof -
  note P = log_pagesD [OF p]
  obtain v h ms where sw: "clock_sweep (2 * pool_capacity p) (bp_hand p) (bp_meta p) = (v, h, ms)" by (metis surj_pair)
  note victim = sweep_victim [OF sw P(6)]
  let ?q = "p\<lparr>bp_hand := h, bp_meta := ms\<rparr>"
  have un: "map unref ms = map unref (bp_meta p)" by (rule sweep_unref [OF sw])
  then have len: "length ms = length (bp_meta p)" by (metis length_map)
  have lsn: "fm_lsn (ms ! f) < w_next_lsn w" if f: "f < length ms" for f
  proof -
    have "unref (ms ! f) = unref (bp_meta p ! f)" using un f len by (metis nth_map)
    then have "fm_lsn (ms ! f) = fm_lsn (bp_meta p ! f)" using unref_eq by blast
    then show ?thesis using P(7) [of "bp_meta p ! f"] f len by simp
  qed
  have q: "log_pages ?q w ps"
    by (rule log_pages_frames [OF p]) (use P(5,8,9) victim len lsn in \<open>auto simp: in_set_conv_nth\<close>)
  show ?thesis
  proof (cases v)
    case None
    with run sw q show ?thesis by (auto simp: evict_def)
  next
    case (Some g)
    then have g: "g < length ms" "occupant (ms ! g) \<noteq> None" using victim len by auto
    then obtain i where i: "occupant (ms ! g) = Some i" by auto
    have run': "evict_frame io g ?q = (r, p')" using run sw Some by (simp add: evict_def)
    let ?q1 = "set_meta g (\<lambda>m. m\<lparr>occupant := None\<rparr>) ?q"
    have q1: "log_pages ?q1 w ps" by (rule log_pages_keep_lsn [OF q]) simp
    obtain r1 p1 where wb: "(if dirty (ms ! g) then write_back io g (fm_lsn (ms ! g)) ?q1 else (Ok (), ?q1)) = (r1, p1)" by fastforce
    have "\<exists>w' ps'. log_pages p1 w' ps' \<and> length (bp_meta p1) = length ms"
      using wb write_back_ahead [OF q1 lsn [OF g(1)] _ io, of g] g(1) q1 by (cases "dirty (ms ! g)") (auto simp: set_meta_def)
    then obtain w' ps' where w': "log_pages p1 w' ps'" "length (bp_meta p1) = length ms" by blast
    have "(r, p') = run_then (r1, p1) (\<lambda>_ p. let p = set_frame g None p in (Ok g, p\<lparr>bp_table := (bp_table p)(i := None)\<rparr>))"
      using run' i wb by (simp add: evict_frame_def Let_def)
    moreover have "log_pages ((set_frame g None p1)\<lparr>bp_table := (bp_table p1)(i := None)\<rparr>) w' ps'"
      using log_pages_set_frame [OF w'(1), of None g] log_pagesD(9) [OF w'(1)] w'(2) by (auto simp: log_pages_def set_frame_def)
    ultimately show ?thesis using w' g(1) by (cases r1) (auto simp: Let_def set_frame_def)
  qed
qed

lemma locate_ahead:
  assumes p: "log_pages p w ps" and i: "i \<noteq> 0" and io: "all_or_nothing io" and run: "locate_and_pin io i p = (r, p')"
  shows "log_ahead p'"
proof -
  obtain r1 p1 where l: "locate_or_load io i p = (r1, p1)" by fastforce
  have "log_ahead p1"
  proof (cases "bp_table p i")
    case None
    let ?q = "p\<lparr>bp_misses := bp_misses p + 1\<rparr>"
    have q: "log_pages ?q w ps" using p by (simp add: log_pages_def)
    obtain r2 p2 where free: "free_frame io ?q = (r2, p2)" by fastforce
    have "\<exists>w' ps'. log_pages p2 w' ps' \<and> (\<forall>f. r2 = Ok f \<longrightarrow> f < length (bp_meta p2))"
      using free evict_ahead [OF q io, of r2 p2] q
      by (cases "position (\<lambda>m. occupant m = None) (bp_meta p)") (auto simp: free_frame_def position_Some_iff)
    then obtain w' ps' where w': "log_pages p2 w' ps'" and r2: "\<And>f. r2 = Ok f \<Longrightarrow> f < length (bp_meta p2)" by blast
    show ?thesis
    proof (cases r2)
      case (Ok f)
      obtain d where d: "disk_shows d ps'" "disk_read_page io i (bp_disk p2)
          = (if length ps' \<le> unat i then Err PageOutOfRange else if io_read_ok io then Ok (ps' ! unat i) else Err Io, d)"
        using disk_read_cases [OF log_pagesD(3) [OF w']] by blast
      let ?p = "p2\<lparr>bp_disk := d\<rparr>"
      have p3: "log_pages ?p w' ps'" using w' d(1) by (simp add: log_pages_def)
      show ?thesis
      proof (cases "unat i < length ps' \<and> io_read_ok io")
        case True
        let ?pg = "ps' ! unat i"
        let ?m = "\<lparr>occupant = Some i, pin_count = 0, dirty = False, referenced = False, fm_lsn = page_lsn ?pg\<rparr>"
        have "page_id ?pg = i" using d(1) True by (simp add: disk_shows_def)
        then have "log_pages (set_frame f (Some ?pg) ?p) w' ps'"
          using True i shows_payload [OF d(1), of "unat i"] by (intro log_pages_set_frame [OF p3]) simp
        moreover have "page_lsn ?pg < w_next_lsn w'"
          using log_pagesD(2,4) [OF w'] True by (meson nth_mem order_le_less_trans)
        ultimately have "log_pages (set_meta f (\<lambda>_. ?m) (set_frame f (Some ?pg) ?p)) w' ps'"
          by (intro log_pages_set_meta) simp_all
        then have "log_pages ((set_meta f (\<lambda>_. ?m) (set_frame f (Some ?pg) ?p))\<lparr>bp_table := (bp_table p2)(i \<mapsto> f)\<rparr>) w' ps'"
          using log_pagesD(9) [OF w'] r2 Ok by (auto simp: log_pages_def set_meta_def set_frame_def)
        moreover have "p1 = (set_meta f (\<lambda>_. ?m) (set_frame f (Some ?pg) ?p))\<lparr>bp_table := (bp_table p2)(i \<mapsto> f)\<rparr>"
          using l None free Ok d(2) True by (auto simp: locate_or_load_def on_disk_def Let_def set_meta_def set_frame_def)
        ultimately show ?thesis by (auto simp: log_ahead_def)
      next
        case False
        then have "p1 = ?p" using l None free Ok d(2) by (auto simp: locate_or_load_def on_disk_def split: if_splits)
        with p3 show ?thesis by (auto simp: log_ahead_def)
      qed
    qed (use l None free w' in \<open>auto simp: locate_or_load_def log_ahead_def\<close>)
  next
    case (Some f)
    then have "p1 = p\<lparr>bp_hits := bp_hits p + 1\<rparr>" using l by (simp add: locate_or_load_def)
    then have "log_pages p1 w ps" using p by (simp add: log_pages_def)
    then show ?thesis by (auto simp: log_ahead_def)
  qed
  then obtain w' ps' where "log_pages p1 w' ps'" by (auto simp: log_ahead_def)
  from log_pages_keep_lsn [OF this, of "\<lambda>m. m\<lparr>pin_count := pin_count m + 1, referenced := True\<rparr>"] this run l
  show ?thesis by (cases r1) (auto simp: locate_and_pin_def log_ahead_def)
qed

lemma guard_data_ahead:
  assumes p: "log_pages p w ps" and g: "\<And>bs. length (g bs) = length bs"
  shows "log_pages (guard_data_mut f g p) w ps"
  unfolding guard_data_mut_def by (rule log_pages_set_frame [OF p]) (use log_pagesD(8) [OF p, of f] g in auto)

lemma guard_type_ahead:
  assumes p: "log_pages p w ps"
  shows "log_pages (guard_set_page_type f t p) w ps"
  unfolding guard_set_page_type_def by (rule log_pages_set_frame [OF p]) (use log_pagesD(8) [OF p, of f] in auto)

lemma bump_ahead:
  assumes p: "log_pages p w ps" and l: "l < w_next_lsn w"
  shows "log_pages (bump_page_lsn i l p) w ps"
proof (cases "bp_table p i")
  case (Some f)
  have "log_pages (set_meta f (\<lambda>m. if fm_lsn m < l then m\<lparr>fm_lsn := l\<rparr> else m) p) w ps"
    by (rule log_pages_set_meta [OF p]) (use l log_pagesD(7) [OF p] in auto)
  with Some show ?thesis by (simp add: bump_page_lsn_def)
qed (use p in \<open>simp add: bump_page_lsn_def\<close>)

text \<open>The Meta page that an allocation writes carries LSN 0, and so does the new page.\<close>

lemma meta_page_lsn: "meta_page n = Ok m \<Longrightarrow> page_lsn m = 0"
  by (auto simp: meta_page_def Let_def page_new_def and_then_def split: outcome.splits)

lemma allocate_ahead:
  assumes p: "log_pages p w ps" and room: "pool_page_count p < 2 ^ 52 - 1" and io: "io_write io = Written" "io_meta io = Written"
    and run: "pool_allocate io t p = (r, p')"
  shows "log_ahead p'"
proof -
  note P = log_pagesD [OF p]
  let ?new = "page_new (of_nat (length ps)) t"
  have "Suc (length ps) < 2 ^ 52" using room shows_length [OF P(3)] by (simp add: pool_page_count_def word_less_nat_alt)
  from disk_allocate_shows [OF P(3) this io, of t] obtain d m where
    d: "disk_allocate_page io t (bp_disk p) = (Ok (of_nat (length ps)), d)" "disk_shows d ((ps @ [?new])[0 := m])" by blast
  then have p': "p' = p\<lparr>bp_disk := d\<rparr>" using run by (simp add: pool_allocate_def on_disk_def)
  have "page_lsn m = 0" using d(2) meta_page_lsn by (auto simp: disk_shows_def)
  moreover have "page_lsn ?new = 0" by (simp add: page_new_def)
  ultimately have "page_lsn pg \<le> w_durable_lsn w" if "pg \<in> set ((ps @ [?new])[0 := m])" for pg
    using that P(4) [of pg] set_update_subset_insert [of "ps @ [?new]" 0 m] by auto
  moreover have "page_id pg \<noteq> 0 \<and> unat (page_id pg) < length ((ps @ [?new])[0 := m]) \<and> length (payload pg) = PAGE_PAYLOAD_SIZE"
    if "f < length (bp_meta p)" "bp_frames p ! f = Some pg" for f pg
    using P(8) [OF that] by simp
  ultimately have "log_pages p' w ((ps @ [?new])[0 := m])"
    using p d(2) unfolding log_pages_def p' by simp
  then show ?thesis by (auto simp: log_ahead_def)
qed

lemma append_ahead:
  assumes p: "log_pages p w ps" and run: "run_append w op = Ok (l, w')"
  shows "log_pages (p\<lparr>bp_wal := Some w'\<rparr>) w' ps" "l < w_next_lsn w'"
proof -
  obtain mk where mk: "\<forall>l. lr_lsn (mk l) = l" "append_with w mk = Ok (l, w')" using run_append_with [of w op] run by auto
  then have w': "w_next_lsn w \<noteq> - 1" "w_next_lsn w' = w_next_lsn w + 1" "w_durable_lsn w' = w_durable_lsn w" "l = w_next_lsn w"
    by (auto simp: append_with_def next_lsn_def append_record_def split: if_splits)
  then have up: "a < w_next_lsn w'" if "a \<le> w_next_lsn w" for a
    using that unat_Suc [OF w'(1)] by (simp add: word_less_nat_alt word_le_nat_alt)
  show "l < w_next_lsn w'" by (rule up) (simp add: w')
  show "log_pages (p\<lparr>bp_wal := Some w'\<rparr>) w' ps"
    using p up by (auto simp: log_pages_def w'(3) intro: less_imp_le)
qed

subsection \<open>Runs\<close>

text \<open>
  What the engine does with a pool and its log, in any order: it appends records and makes them durable, stamps a
  page with an LSN that the log has given out, opens and closes guards, writes through them, allocates pages
  and flushes. A write of the system is done or refused; a sync may fail, and so may a read.
\<close>

inductive logged_step :: "buffer_pool \<Rightarrow> buffer_pool \<Rightarrow> bool" where
  append: "bp_wal p = Some w \<Longrightarrow> run_append w op = Ok (l, w') \<Longrightarrow> logged_step p (p\<lparr>bp_wal := Some w'\<rparr>)"
| sync: "bp_wal p = Some w \<Longrightarrow> wal_sync (io_wal_write (io :: io_faults)) (io_wal_sync_ok io) w = (r, w') \<Longrightarrow> logged_step p (p\<lparr>bp_wal := Some w'\<rparr>)"
| stamp: "bp_wal p = Some w \<Longrightarrow> l < w_next_lsn w \<Longrightarrow> logged_step p (bump_page_lsn i l p)"
| open_guard: "i \<noteq> 0 \<Longrightarrow> all_or_nothing io \<Longrightarrow> locate_and_pin io i p = (r, p') \<Longrightarrow> logged_step p p'"
| close_guard: "logged_step p (unpin f mark_dirty p)"
| edit: "(\<And>bs. length (g bs) = length bs) \<Longrightarrow> logged_step p (guard_data_mut f g p)"
| retype: "logged_step p (guard_set_page_type f t p)"
| allocate: "pool_page_count p < 2 ^ 52 - 1 \<Longrightarrow> io_write io = Written \<Longrightarrow> io_meta io = Written \<Longrightarrow>
    pool_allocate io t p = (r, p') \<Longrightarrow> logged_step p p'"
| flush_one: "all_or_nothing io \<Longrightarrow> flush_page io i p = (r, p') \<Longrightarrow> logged_step p p'"
| flush: "(\<And>f. all_or_nothing (ios f)) \<Longrightarrow> flush_all ios p = (r, p') \<Longrightarrow> logged_step p p'"

text \<open>A new file under a new pool, with a new log attached.\<close>

definition logged_init :: "buffer_pool \<Rightarrow> bool" where
  "logged_init p \<longleftrightarrow> (\<exists>d f cap q w. disk_open no_faults [] = (Ok d, f) \<and> pool_new d cap = Ok q \<and> wal_init w \<and> p = attach_wal w q)"

lemma logged_init_ahead: "logged_init p \<Longrightarrow> log_ahead p"
proof -
  assume "logged_init p"
  then obtain d f cap q w where *: "disk_open no_faults [] = (Ok d, f)" "pool_new d cap = Ok q" "wal_init w" "p = attach_wal w q"
    by (auto simp: logged_init_def)
  obtain m where d: "disk_shows d [m]" using disk_open_new [of no_faults] *(1) by (auto simp: no_faults_def)
  then have "page_lsn m = 0" using meta_page_lsn by (auto simp: disk_shows_def)
  moreover have "w_durable_lsn w = 0" "w_next_lsn w = 1"
    using *(3) by (auto simp: wal_init_def wal_open_empty)
  ultimately have "log_pages p w [m]"
    using * d by (auto simp: log_pages_def attach_wal_def pool_new_def frame_meta_empty_def split: if_splits)
  then show ?thesis by (auto simp: log_ahead_def)
qed

lemma logged_step_ahead:
  assumes step: "logged_step p p'" and ahead: "log_ahead p"
  shows "log_ahead p'"
proof -
  obtain w ps where p: "log_pages p w ps" using ahead by (auto simp: log_ahead_def)
  note P = log_pagesD [OF p]
  from step show ?thesis
  proof cases
    case (append v op l v')
    with append_ahead(1) [OF p, of op l v'] P(1) show ?thesis by (auto simp: log_ahead_def)
  next
    case (sync v io r v')
    then have v: "wal_sync (io_wal_write io) (io_wal_sync_ok io) w = (r, v')" "p' = p\<lparr>bp_wal := Some v'\<rparr>" using P(1) by simp_all
    then have "w_next_lsn v' = w_next_lsn w" "w_durable_lsn w \<le> w_durable_lsn v'" "w_durable_lsn v' < w_next_lsn v'"
      using P(2) by (auto simp: wal_sync_def wal_flush_def before_next split: if_splits write_result.splits)
    then have "log_pages p' v' ps" using p P(4) v(2) by (auto simp: log_pages_def intro: order_trans)
    then show ?thesis by (auto simp: log_ahead_def)
  next
    case (stamp v l i)
    with bump_ahead [OF p, of l i] P(1) show ?thesis by (auto simp: log_ahead_def)
  next
    case (open_guard i io r)
    then show ?thesis by (intro locate_ahead [OF p])
  next
    case (close_guard f b)
    then have "log_pages p' w ps" unfolding unpin_def by (simp add: log_pages_keep_lsn [OF p])
    then show ?thesis by (auto simp: log_ahead_def)
  next
    case (edit g f)
    with guard_data_ahead [OF p, of g f] show ?thesis by (auto simp: log_ahead_def)
  next
    case (retype f t)
    with guard_type_ahead [OF p, of f t] show ?thesis by (auto simp: log_ahead_def)
  next
    case (allocate io t r)
    then show ?thesis by (intro allocate_ahead [OF p])
  next
    case (flush_one io i r)
    then show ?thesis
      using flush_frame_ahead [OF p P(9) [of i], of _ io r p'] p by (auto simp: flush_page_def log_ahead_def split: if_splits option.splits)
  next
    case (flush ios r)
    then show ?thesis using flush_all_ahead [OF ahead] by blast
  qed
qed

interpretation pool_with_log: state_machine logged_init logged_step log_ahead
  by unfold_locales (fact logged_init_ahead logged_step_ahead)+

text \<open>
  C35: the log is on the disk before the data. Whatever the engine does with a pool and its log, and whatever
  evictions, refused writes and failed syncs that brings, no page in the file ever carries an LSN that
  the log has not made durable.
\<close>

theorem log_before_data:
  assumes "logged_init p" and "logged_step\<^sup>*\<^sup>* p p'"
  shows "\<exists>w ps. bp_wal p' = Some w \<and> disk_shows (bp_disk p') ps \<and> (\<forall>pg \<in> set ps. page_lsn pg \<le> w_durable_lsn w)"
  using pool_with_log.reachable_inv [OF assms] unfolding log_ahead_def log_pages_def by blast

theorem log_before_data_witness:
  "\<exists>d q p w ps. disk_open no_faults [] = (Ok d, dm_file d) \<and> pool_new d 2 = Ok q
    \<and> p = bump_page_lsn 1 1 ((attach_wal empty_log q)\<lparr>bp_wal := Some begun\<rparr>)
    \<and> bp_wal p = Some w \<and> disk_shows (bp_disk p) ps \<and> (\<forall>pg \<in> set ps. page_lsn pg \<le> w_durable_lsn w)"
proof -
  obtain d where d: "disk_open no_faults [] = (Ok d, dm_file d)"
    using disk_open_new [of no_faults] by (auto simp: no_faults_def)
  obtain q where q: "pool_new d 2 = Ok q" by (simp add: pool_new_def)
  let ?p0 = "attach_wal empty_log q" and ?p1 = "(attach_wal empty_log q)\<lparr>bp_wal := Some begun\<rparr>"
  have "logged_init ?p0" using d q begun_reachable(1) by (auto simp: logged_init_def)
  moreover have "logged_step ?p0 ?p1"
    by (rule append [of _ empty_log "OpBegin 7" 1]) (simp_all add: attach_wal_def append_begun)
  moreover have "logged_step ?p1 (bump_page_lsn 1 1 ?p1)" by (rule stamp [of _ begun]) (simp_all add: begun_def)
  ultimately have "\<exists>w ps. bp_wal (bump_page_lsn 1 1 ?p1) = Some w \<and> disk_shows (bp_disk (bump_page_lsn 1 1 ?p1)) ps
      \<and> (\<forall>pg \<in> set ps. page_lsn pg \<le> w_durable_lsn w)"
    by (intro log_before_data [of ?p0]) (simp_all add: converse_rtranclp_into_rtranclp)
  with d q show ?thesis by blast
qed

end
