(* ===== verification/Lexer.thy ===== *)
theory Lexer
  imports Ast "HOL-Library.Sublist"
begin

text \<open>
  The lexer of \<open>src/src/lexer.rs\<close>. A Rust \<open>char\<close> is the list of its UTF-8 bytes, so the text that is left is
  the list of its characters; positions are offsets in bytes, lines and columns count characters.
\<close>

subsection \<open>Tokens\<close>

datatype (plugins only:) keyword =
  KSelect | KFrom | KWhere | KCreate | KTable | KDrop | KInsert | KInto | KValues | KUpdate | KSet | KDelete
| KTrue | KFalse | KNull | KNot | KAnd | KOr | KIs | KAs | KCast | KExplain | KPrimary | KKey | KUnique
| KOrder | KBy | KAsc | KDesc | KLimit | KOffset | KDistinct | KGroup | KHaving | KInner | KJoin | KOn
| KIndex | KAnalyze | KBegin | KCommit | KRollback | KIsolation | KLevel | KRead | KUncommitted | KCommitted
| KRepeatable | KSerializable | KCheckpoint | KPrepare | KExecute | KDeallocate | KShow | KDescribe | KVacuum
| KTables | KIndexes | KStats

text \<open>The arms of \<open>Keyword::from_word\<close>.\<close>

definition keyword_arms :: "(string \<times> keyword) list" where
  "keyword_arms =
    [(''SELECT'', KSelect), (''FROM'', KFrom), (''WHERE'', KWhere), (''CREATE'', KCreate), (''TABLE'', KTable),
     (''DROP'', KDrop), (''INSERT'', KInsert), (''INTO'', KInto), (''VALUES'', KValues), (''UPDATE'', KUpdate),
     (''SET'', KSet), (''DELETE'', KDelete), (''TRUE'', KTrue), (''FALSE'', KFalse), (''NULL'', KNull), (''NOT'', KNot),
     (''AND'', KAnd), (''OR'', KOr), (''IS'', KIs), (''AS'', KAs), (''CAST'', KCast), (''EXPLAIN'', KExplain),
     (''PRIMARY'', KPrimary), (''KEY'', KKey), (''UNIQUE'', KUnique), (''ORDER'', KOrder), (''BY'', KBy), (''ASC'', KAsc),
     (''DESC'', KDesc), (''LIMIT'', KLimit), (''OFFSET'', KOffset), (''DISTINCT'', KDistinct), (''GROUP'', KGroup),
     (''HAVING'', KHaving), (''INNER'', KInner), (''JOIN'', KJoin), (''ON'', KOn), (''INDEX'', KIndex),
     (''ANALYZE'', KAnalyze), (''BEGIN'', KBegin), (''COMMIT'', KCommit), (''ROLLBACK'', KRollback),
     (''ISOLATION'', KIsolation), (''LEVEL'', KLevel), (''READ'', KRead), (''UNCOMMITTED'', KUncommitted),
     (''COMMITTED'', KCommitted), (''REPEATABLE'', KRepeatable), (''SERIALIZABLE'', KSerializable),
     (''CHECKPOINT'', KCheckpoint), (''PREPARE'', KPrepare), (''EXECUTE'', KExecute), (''DEALLOCATE'', KDeallocate),
     (''SHOW'', KShow), (''DESCRIBE'', KDescribe), (''VACUUM'', KVacuum), (''TABLES'', KTables), (''INDEXES'', KIndexes),
     (''STATS'', KStats)]"

definition from_word :: "string \<Rightarrow> keyword option" where
  "from_word word = map_of keyword_arms (to_ascii_uppercase word)"

datatype token_kind =
    TkIdent string
  | TkKeyword keyword
  | TkInt u64
  | TkString string
  | TkPlus | TkMinus | TkStar | TkSlash
  | TkEq | TkNotEq | TkLt | TkLtEq | TkGt | TkGtEq
  | TkLParen | TkRParen | TkComma | TkSemicolon | TkDot
  | TkParam u32
  | TkEof

record token =
  tok_kind :: token_kind
  tok_span :: span

definition span_new :: "nat \<Rightarrow> nat \<Rightarrow> span" where
  "span_new a b = \<lparr>span_start = a, span_end = b\<rparr>"

subsection \<open>Characters\<close>

function chars_of :: "string \<Rightarrow> string list" where
  "chars_of [] = []"
| "chars_of (b # bs) =
    (let more = (\<lambda>c. cont_byte (of_char c)) in (b # takeWhile more bs) # chars_of (dropWhile more bs))"
  by pat_completeness auto
termination by (relation "measure length") (simp_all add: length_dropWhile_le less_Suc_eq_le)

fun ascii_digit :: "string \<Rightarrow> bool" where
  "ascii_digit [c] \<longleftrightarrow> CHR ''0'' \<le> c \<and> c \<le> CHR ''9''"
| "ascii_digit _ \<longleftrightarrow> False"

fun is_ident_start :: "string \<Rightarrow> bool" where
  "is_ident_start [c] \<longleftrightarrow> CHR ''a'' \<le> c \<and> c \<le> CHR ''z'' \<or> CHR ''A'' \<le> c \<and> c \<le> CHR ''Z'' \<or> c = CHR ''_''"
| "is_ident_start _ \<longleftrightarrow> False"

definition is_ident_continue :: "string \<Rightarrow> bool" where
  "is_ident_continue c \<longleftrightarrow> is_ident_start c \<or> ascii_digit c"

text \<open>\<open>char::is_whitespace\<close>: the characters with the Unicode property White_Space.\<close>

definition white_space :: "string \<Rightarrow> bool" where
  "white_space c \<longleftrightarrow>
     bytes_of c \<in> set ([[9], [10], [11], [12], [13], [32], [0xC2, 0x85], [0xC2, 0xA0], [0xE1, 0x9A, 0x80]]
       @ map (\<lambda>b. [0xE2, 0x80, b]) [0x80, 0x81, 0x82, 0x83, 0x84, 0x85, 0x86, 0x87, 0x88, 0x89, 0x8A, 0xA8, 0xA9, 0xAF]
       @ [[0xE2, 0x81, 0x9F], [0xE3, 0x80, 0x80]])"

abbreviation newline :: string where
  "newline \<equiv> [CHR 0x0A]"

subsection \<open>The state\<close>

record lexer =
  lx_source :: string
  lx_chars :: "string list"
  lx_offset :: nat
  lx_line :: nat
  lx_column :: nat

definition lexer_new :: "string \<Rightarrow> lexer" where
  "lexer_new s = \<lparr>lx_source = s, lx_chars = chars_of s, lx_offset = 0, lx_line = 1, lx_column = 1\<rparr>"

definition bump :: "lexer \<Rightarrow> lexer" where
  "bump lx =
     (case lx_chars lx of
        [] \<Rightarrow> lx
      | c # cs \<Rightarrow>
          (let lx = lx\<lparr>lx_chars := cs, lx_offset := lx_offset lx + length c\<rparr> in
           if c = newline then lx\<lparr>lx_line := lx_line lx + 1, lx_column := 1\<rparr> else lx\<lparr>lx_column := lx_column lx + 1\<rparr>))"

definition peek_char :: "lexer \<Rightarrow> string option" where
  "peek_char lx = (case lx_chars lx of [] \<Rightarrow> None | c # _ \<Rightarrow> Some c)"

definition peek_offset :: "lexer \<Rightarrow> nat option" where
  "peek_offset lx = (if lx_chars lx = [] then None else Some (lx_offset lx))"

definition remaining :: "lexer \<Rightarrow> string" where
  "remaining lx = concat (lx_chars lx)"

text \<open>The offset of the next character or the end of the source.\<close>

definition next_offset :: "lexer \<Rightarrow> nat" where
  "next_offset lx = (case peek_offset lx of Some n \<Rightarrow> n | None \<Rightarrow> length (lx_source lx))"

definition lex_error :: "lexer \<Rightarrow> 'a outcome" where
  "lex_error lx = Err (Lex (lx_line lx) (lx_column lx))"

lemma bump_chars [simp]: "lx_chars (bump lx) = tl (lx_chars lx)"
  by (simp add: bump_def Let_def split: list.splits)

lemma bump_source [simp]: "lx_source (bump lx) = lx_source lx"
  by (simp add: bump_def Let_def split: list.splits)

subsection \<open>Loops\<close>

text \<open>\<open>while let Some(c) = self.peek_char()\<close> with a test and a \<open>break\<close>.\<close>

function bump_while :: "(string \<Rightarrow> bool) \<Rightarrow> lexer \<Rightarrow> lexer" where
  "bump_while P lx = (case peek_char lx of Some c \<Rightarrow> if P c then bump_while P (bump lx) else lx | None \<Rightarrow> lx)"
  by pat_completeness auto
termination by (relation "measure (\<lambda>(P, lx). length (lx_chars lx))") (auto simp: peek_char_def split: list.splits)

text \<open>The inner loop of a block comment; \<open>None\<close> when the text ends first.\<close>

function skip_block :: "lexer \<Rightarrow> lexer option" where
  "skip_block lx =
     (if prefix ''*/'' (remaining lx) then Some (bump (bump lx))
      else if lx_chars lx = [] then None else skip_block (bump lx))"
  by pat_completeness auto
termination by (relation "measure (\<lambda>lx. length (lx_chars lx))") auto

declare bump_while.simps [simp del] skip_block.simps [simp del]

lemma bump_while_length: "length (lx_chars (bump_while P lx)) \<le> length (lx_chars lx)"
  by (induction P lx rule: bump_while.induct) (subst bump_while.simps, auto split: option.splits)

lemma skip_block_length: "skip_block lx = Some lx' \<Longrightarrow> length (lx_chars lx') \<le> length (lx_chars lx)"
proof (induction lx rule: skip_block.induct)
  case (1 lx)
  then show ?case by (subst (asm) (2) skip_block.simps) (fastforce split: if_splits)
qed

lemma prefix_remaining: "prefix (c # s) (remaining lx) \<Longrightarrow> lx_chars lx \<noteq> []"
  by (auto simp: remaining_def)

function skip_whitespace_and_comments :: "lexer \<Rightarrow> lexer outcome" where
  "skip_whitespace_and_comments lx =
     (if (case peek_char lx of Some c \<Rightarrow> white_space c | None \<Rightarrow> False) then skip_whitespace_and_comments (bump lx)
      else if prefix ''--'' (remaining lx)
      then skip_whitespace_and_comments (bump_while (\<lambda>c. c \<noteq> newline) (bump (bump lx)))
      else if prefix ''/*'' (remaining lx)
      then (case skip_block (bump (bump lx)) of None \<Rightarrow> lex_error lx | Some lx' \<Rightarrow> skip_whitespace_and_comments lx')
      else Ok lx)"
  by pat_completeness auto
termination
proof (relation "measure (\<lambda>lx. length (lx_chars lx))")
  fix lx
  assume "prefix ''--'' (remaining lx)"
  then have "lx_chars lx \<noteq> []" by (rule prefix_remaining)
  with bump_while_length [of "\<lambda>c. c \<noteq> newline" "bump (bump lx)"]
  show "(bump_while (\<lambda>c. c \<noteq> newline) (bump (bump lx)), lx) \<in> measure (\<lambda>lx. length (lx_chars lx))"
    by (cases "lx_chars lx") auto
next
  fix lx lx'
  assume "prefix ''/*'' (remaining lx)" and s: "skip_block (bump (bump lx)) = Some lx'"
  then have "lx_chars lx \<noteq> []" using prefix_remaining by blast
  with skip_block_length [OF s] show "(lx', lx) \<in> measure (\<lambda>lx. length (lx_chars lx))"
    by (cases "lx_chars lx") auto
qed (auto simp: peek_char_def split: list.splits)

declare skip_whitespace_and_comments.simps [simp del]

subsection \<open>The kinds of tokens\<close>

definition parse_word :: "nat \<Rightarrow> string \<Rightarrow> 'w :: len word option" where
  "parse_word n s = Option.bind (read_nat s) (\<lambda>k. if k < 2 ^ n then Some (of_nat k) else None)"

text \<open>The text between two offsets of the source.\<close>

definition lexeme :: "lexer \<Rightarrow> nat \<Rightarrow> nat \<Rightarrow> string outcome" where
  "lexeme lx a b = expect (str_slice (lx_source lx) a b)"

definition lex_number :: "lexer \<Rightarrow> (token_kind \<times> lexer) outcome" where
  "lex_number lx =
     and_then (expect (peek_offset lx)) (\<lambda>start.
     let lx' = bump_while ascii_digit lx in
     and_then (lexeme lx start (next_offset lx')) (\<lambda>text.
     if (case peek_char lx' of Some c \<Rightarrow> is_ident_continue c | None \<Rightarrow> False) then lex_error lx
     else case parse_word 64 text of None \<Rightarrow> lex_error lx | Some n \<Rightarrow> Ok (TkInt n, lx')))"

function lex_string_from :: "lexer \<Rightarrow> string \<Rightarrow> lexer \<Rightarrow> (token_kind \<times> lexer) outcome" where
  "lex_string_from lx0 v lx =
     (case peek_char lx of
        None \<Rightarrow> lex_error lx0
      | Some c \<Rightarrow>
          (let lx' = bump lx in
           if c = [CHR 0x27]
           then if peek_char lx' = Some [CHR 0x27] then lex_string_from lx0 (v @ [CHR 0x27]) (bump lx') else Ok (TkString v, lx')
           else lex_string_from lx0 (v @ c) lx'))"
  by pat_completeness auto
termination by (relation "measure (\<lambda>(lx0, v, lx). length (lx_chars lx))") (auto simp: peek_char_def split: list.splits)

declare lex_string_from.simps [simp del]

definition lex_string :: "lexer \<Rightarrow> (token_kind \<times> lexer) outcome" where
  "lex_string lx = lex_string_from lx [] (bump lx)"

definition lex_ident_or_keyword :: "lexer \<Rightarrow> (token_kind \<times> lexer) outcome" where
  "lex_ident_or_keyword lx =
     and_then (expect (peek_offset lx)) (\<lambda>start.
     let lx' = bump_while is_ident_continue lx in
     and_then (lexeme lx start (next_offset lx')) (\<lambda>text.
     Ok (case from_word text of Some k \<Rightarrow> TkKeyword k | None \<Rightarrow> TkIdent text, lx')))"

definition lex_param :: "lexer \<Rightarrow> (token_kind \<times> lexer) outcome" where
  "lex_param lx =
     (let lx1 = bump lx in
      case peek_offset lx1 of
        None \<Rightarrow> lex_error lx
      | Some digits_start \<Rightarrow>
          if \<not> (case peek_char lx1 of Some c \<Rightarrow> ascii_digit c | None \<Rightarrow> False) then lex_error lx
          else
            (let lx' = bump_while ascii_digit lx1 in
             and_then (lexeme lx digits_start (next_offset lx')) (\<lambda>text.
             case parse_word 32 text of None \<Rightarrow> lex_error lx | Some n \<Rightarrow> Ok (TkParam n, lx'))))"

definition lex_operator_or_punct :: "lexer \<Rightarrow> (token_kind \<times> lexer) outcome" where
  "lex_operator_or_punct lx =
     and_then (expect (peek_char lx)) (\<lambda>ch.
     let lx' = bump lx in
     if ch = ''+'' then Ok (TkPlus, lx')
     else if ch = ''-'' then Ok (TkMinus, lx')
     else if ch = ''*'' then Ok (TkStar, lx')
     else if ch = ''/'' then Ok (TkSlash, lx')
     else if ch = ''='' then Ok (TkEq, lx')
     else if ch = ''<'' then
       (if peek_char lx' = Some ''='' then Ok (TkLtEq, bump lx')
        else if peek_char lx' = Some ''>'' then Ok (TkNotEq, bump lx')
        else Ok (TkLt, lx'))
     else if ch = ''>'' then (if peek_char lx' = Some ''='' then Ok (TkGtEq, bump lx') else Ok (TkGt, lx'))
     else if ch = ''('' then Ok (TkLParen, lx')
     else if ch = '')'' then Ok (TkRParen, lx')
     else if ch = '','' then Ok (TkComma, lx')
     else if ch = '';'' then Ok (TkSemicolon, lx')
     else if ch = ''.'' then Ok (TkDot, lx')
     else lex_error lx)"

definition lex_token :: "string \<Rightarrow> lexer \<Rightarrow> (token_kind \<times> lexer) outcome" where
  "lex_token ch lx =
     (if ascii_digit ch then lex_number lx
      else if ch = [CHR 0x27] then lex_string lx
      else if is_ident_start ch then lex_ident_or_keyword lx
      else if ch = ''$'' then lex_param lx
      else lex_operator_or_punct lx)"

subsection \<open>Consuming characters\<close>

text \<open>The state after the characters \<open>w\<close>; a good state stands at a character of its source.\<close>

definition eats :: "lexer \<Rightarrow> string list \<Rightarrow> lexer \<Rightarrow> bool" where
  "eats lx w lx' \<longleftrightarrow> lx_source lx' = lx_source lx \<and> lx_chars lx = w @ lx_chars lx' \<and> lx_offset lx' = lx_offset lx + length (concat w)"

definition lex_ok :: "lexer \<Rightarrow> bool" where
  "lex_ok lx \<longleftrightarrow> utf8 (bytes_of (lx_source lx))
     \<and> (\<exists>cs. chars_of (lx_source lx) = cs @ lx_chars lx \<and> lx_offset lx = length (concat cs))"

lemma eats_refl [simp]: "eats lx [] lx"
  by (simp add: eats_def)

lemma eats_trans: "eats lx w lx' \<Longrightarrow> eats lx' v lx'' \<Longrightarrow> eats lx (w @ v) lx''"
  by (simp add: eats_def)

lemma eats_bump: "lx_chars lx = c # cs \<Longrightarrow> eats lx [c] (bump lx)"
  by (simp add: eats_def bump_def Let_def)

lemma eats_bump2: "lx_chars lx = c # d # cs \<Longrightarrow> eats lx [c, d] (bump (bump lx))"
  using eats_trans [OF eats_bump eats_bump, of lx c "d # cs" d cs] by simp

lemma bump_eats: "\<exists>w. eats lx w (bump lx)"
proof (cases "lx_chars lx")
  case Nil
  then have "bump lx = lx" by (simp add: bump_def)
  then show ?thesis using eats_refl by metis
qed (use eats_bump in blast)

lemma bump2_eats: "\<exists>w. eats lx w (bump (bump lx))"
  using bump_eats eats_trans by meson

lemma eats_ok: "eats lx w lx' \<Longrightarrow> lex_ok lx \<Longrightarrow> lex_ok lx'"
  by (auto simp: eats_def lex_ok_def)

lemma eats_length: "eats lx w lx' \<Longrightarrow> length (lx_chars lx) = length w + length (lx_chars lx')"
  by (simp add: eats_def)

lemma concat_chars_of [simp]: "concat (chars_of s) = s"
  by (induction s rule: chars_of.induct) (simp_all add: Let_def)

lemma chars_of_ne: "c \<in> set (chars_of s) \<Longrightarrow> c \<noteq> []"
  by (induction s rule: chars_of.induct) (auto simp: Let_def)

lemma chars_of_start: "c \<in> set (chars_of s) \<Longrightarrow> s = [] \<or> \<not> cont_byte (of_char (hd s)) \<Longrightarrow> \<not> cont_byte (of_char (hd c))"
proof (induction s rule: chars_of.induct)
  case (2 b bs)
  let ?d = "dropWhile (\<lambda>c. cont_byte (of_char c)) bs"
  have "?d = [] \<or> \<not> cont_byte (of_char (hd ?d))" using hd_dropWhile [of "\<lambda>c. cont_byte (of_char c)" bs] by auto
  with 2 show ?case by (auto simp: Let_def)
qed simp

lemma utf8_start: "utf8 (bytes_of s) \<Longrightarrow> s = [] \<or> \<not> cont_byte (of_char (hd s))"
  by (cases s) (auto simp: bytes_of_def cont_byte_def word_le_nat_alt split: if_splits)

lemma lex_ok_boundary:
  assumes "lex_ok lx"
  shows "char_boundary (lx_source lx) (lx_offset lx)" "next_offset lx = lx_offset lx"
proof -
  let ?s = "lx_source lx"
  obtain cs where u: "utf8 (bytes_of ?s)" and cs: "chars_of ?s = cs @ lx_chars lx" "lx_offset lx = length (concat cs)"
    using assms by (auto simp: lex_ok_def)
  have s: "?s = concat cs @ concat (lx_chars lx)" using concat_chars_of [of ?s] cs(1) by simp
  show "next_offset lx = lx_offset lx" using s cs(2) by (auto simp: next_offset_def peek_offset_def)
  show "char_boundary ?s (lx_offset lx)"
  proof (cases "lx_chars lx")
    case Nil
    then show ?thesis using s cs(2) by (simp add: char_boundary_def)
  next
    case (Cons c r)
    then have "c \<in> set (chars_of ?s)" using cs(1) by simp
    then have "c \<noteq> []" "\<not> cont_byte (of_char (hd c))" using chars_of_ne chars_of_start utf8_start [OF u] by blast+
    moreover have "?s ! lx_offset lx = hd c" "lx_offset lx < length ?s"
      using s cs(2) Cons \<open>c \<noteq> []\<close> by (auto simp: nth_append hd_append hd_conv_nth)
    ultimately show ?thesis by (simp add: char_boundary_def bytes_of_def)
  qed
qed

lemma lexeme_eats:
  assumes ok: "lex_ok lx" and e: "eats lx w lx'"
  shows "lexeme lx (lx_offset lx) (next_offset lx') = Ok (concat w)"
proof -
  let ?s = "lx_source lx"
  have ok': "lex_ok lx'" by (rule eats_ok [OF e ok])
  obtain cs where cs: "chars_of ?s = cs @ lx_chars lx" "lx_offset lx = length (concat cs)" using ok by (auto simp: lex_ok_def)
  have s: "?s = concat cs @ concat w @ concat (lx_chars lx')" using concat_chars_of [of ?s] cs(1) e by (simp add: eats_def)
  have "get_slice ?s (lx_offset lx) (lx_offset lx') = Some (concat w)"
    using e cs(2) by (subst s) (simp add: get_slice_def eats_def)
  then show ?thesis
    using lex_ok_boundary [OF ok] lex_ok_boundary [OF ok'] e by (simp add: lexeme_def str_slice_def eats_def)
qed

lemma bump_while_eats: "\<exists>w. eats lx w (bump_while P lx) \<and> (\<forall>c \<in> set w. P c)
  \<and> (case peek_char (bump_while P lx) of Some c \<Rightarrow> \<not> P c | None \<Rightarrow> True)"
proof (induction P lx rule: bump_while.induct)
  case (1 P lx)
  show ?case
  proof (cases "lx_chars lx")
    case Nil
    then show ?thesis by (subst (1 2) bump_while.simps) (auto simp: peek_char_def eats_def)
  next
    case (Cons c cs)
    show ?thesis
    proof (cases "P c")
      case True
      with Cons have w: "bump_while P lx = bump_while P (bump lx)" by (subst bump_while.simps) (simp add: peek_char_def)
      from 1 [of c] Cons True obtain w where "eats (bump lx) w (bump_while P (bump lx))" "\<forall>c \<in> set w. P c"
        "case peek_char (bump_while P (bump lx)) of Some c \<Rightarrow> \<not> P c | None \<Rightarrow> True" by (auto simp: peek_char_def)
      with eats_trans [OF eats_bump [OF Cons]] True show ?thesis unfolding w by (intro exI [of _ "c # w"]) fastforce
    next
      case False
      with Cons have "bump_while P lx = lx" by (subst bump_while.simps) (simp add: peek_char_def)
      with Cons False show ?thesis by (intro exI [of _ "[]"]) (simp add: peek_char_def)
    qed
  qed
qed

text \<open>The loop on a text that is known.\<close>

lemma bump_while_exact:
  assumes "lx_chars lx = w @ r" "\<forall>c \<in> set w. P c" "case r of [] \<Rightarrow> True | c # _ \<Rightarrow> \<not> P c"
  shows "eats lx w (bump_while P lx)" "lx_chars (bump_while P lx) = r"
proof -
  have "eats lx w (bump_while P lx)"
    using assms
  proof (induction w arbitrary: lx)
    case Nil
    then have "bump_while P lx = lx" by (subst bump_while.simps) (auto simp: peek_char_def split: list.splits)
    then show ?case by simp
  next
    case (Cons c w)
    then have "bump_while P lx = bump_while P (bump lx)" by (subst bump_while.simps) (simp add: peek_char_def)
    moreover have "eats (bump lx) w (bump_while P (bump lx))" using Cons by simp
    ultimately show ?case using eats_trans [OF eats_bump [of lx c]] Cons.prems(1) by fastforce
  qed
  then show "eats lx w (bump_while P lx)" "lx_chars (bump_while P lx) = r" using assms(1) by (simp_all add: eats_def)
qed

subsection \<open>Characters of a good state\<close>

definition char_ok :: "string \<Rightarrow> bool" where
  "char_ok c \<longleftrightarrow> c \<noteq> [] \<and> \<not> cont_byte (of_char (hd c)) \<and> (\<forall>b \<in> set (tl c). cont_byte (of_char b))"

lemma chars_of_ok: "s = [] \<or> \<not> cont_byte (of_char (hd s)) \<Longrightarrow> c \<in> set (chars_of s) \<Longrightarrow> char_ok c"
proof (induction s rule: chars_of.induct)
  case (2 b bs)
  let ?d = "dropWhile (\<lambda>c. cont_byte (of_char c)) bs"
  have "?d = [] \<or> \<not> cont_byte (of_char (hd ?d))" using hd_dropWhile [of "\<lambda>c. cont_byte (of_char c)" bs] by auto
  with 2 have "char_ok c" if "c \<in> set (chars_of ?d)" using that by blast
  moreover have "c = b # takeWhile (\<lambda>c. cont_byte (of_char c)) bs \<or> c \<in> set (chars_of ?d)" using 2(3) by (simp add: Let_def)
  moreover have "char_ok (b # takeWhile (\<lambda>c. cont_byte (of_char c)) bs)" using 2(2) by (simp add: char_ok_def) (blast dest: set_takeWhileD)
  ultimately show ?case by blast
qed simp

lemma while_all: "\<forall>x \<in> set xs. P x \<Longrightarrow> takeWhile P xs = xs" "\<forall>x \<in> set xs. P x \<Longrightarrow> dropWhile P xs = []"
  by simp_all

lemma chars_of_append: "t = [] \<or> \<not> cont_byte (of_char (hd t)) \<Longrightarrow> chars_of (s @ t) = chars_of s @ chars_of t"
proof (induction s rule: chars_of.induct)
  case (2 b bs)
  let ?P = "\<lambda>c. cont_byte (of_char c)"
  have "takeWhile ?P (bs @ t) = takeWhile ?P bs \<and> dropWhile ?P (bs @ t) = dropWhile ?P bs @ t"
  proof (cases "\<forall>c \<in> set bs. ?P c")
    case True
    with 2(2) show ?thesis by (cases t) (simp_all add: while_all takeWhile_append dropWhile_append)
  next
    case False
    then show ?thesis by (auto simp: takeWhile_append dropWhile_append)
  qed
  with 2 show ?case by (simp add: Let_def)
qed simp

lemma chars_concat: "\<forall>c \<in> set cs. char_ok c \<Longrightarrow> chars_of (concat cs) = cs"
proof (induction cs)
  case (Cons c cs)
  have "chars_of (c @ concat cs) = chars_of c @ chars_of (concat cs)"
  proof (rule chars_of_append)
    show "concat cs = [] \<or> \<not> cont_byte (of_char (hd (concat cs)))" using Cons.prems by (cases cs) (auto simp: char_ok_def hd_append)
  qed
  moreover have "chars_of c = [c]"
  proof (cases c)
    case (Cons b bs)
    then show ?thesis using Cons.prems by (simp add: Let_def while_all char_ok_def)
  qed (use Cons.prems in \<open>simp add: char_ok_def\<close>)
  ultimately show ?case using Cons by simp
qed simp

lemma chars_of_single: "\<forall>c \<in> set t. \<not> cont_byte (of_char c) \<Longrightarrow> chars_of t = map (\<lambda>c. [c]) t"
  using chars_concat [of "map (\<lambda>c. [c]) t"] by (auto simp: char_ok_def)

lemma lex_ok_chars: "lex_ok lx \<Longrightarrow> c \<in> set (lx_chars lx) \<Longrightarrow> char_ok c"
  unfolding lex_ok_def using chars_of_ok [OF utf8_start] by (metis UnCI set_append)

lemma small_not_cont: "c < CHR 0x80 \<Longrightarrow> \<not> cont_byte (of_char c)"
  by (auto simp: cont_byte_def word_le_nat_alt less_char_def)

lemma ident_continue_single: "is_ident_continue c \<Longrightarrow> \<exists>b. c = [b] \<and> b < CHR 0x80"
  and digit_single: "ascii_digit c \<Longrightarrow> \<exists>b. c = [b] \<and> b < CHR 0x80"
proof -
  have "CHR ''z'' < CHR 0x80" "CHR ''Z'' < CHR 0x80" "CHR ''9'' < CHR 0x80" "CHR ''_'' < CHR 0x80" by (simp_all add: less_char_def)
  then show "ascii_digit c \<Longrightarrow> \<exists>b. c = [b] \<and> b < CHR 0x80"
    and "is_ident_continue c \<Longrightarrow> \<exists>b. c = [b] \<and> b < CHR 0x80"
    unfolding is_ident_continue_def by (cases c rule: ascii_digit.cases; force intro: le_less_trans)+
qed

lemma singles: "\<forall>c \<in> set w. \<exists>b. c = [b] \<Longrightarrow> map (\<lambda>b. [b]) (concat w) = w"
  by (induction w) auto

subsection \<open>Blanks\<close>

text \<open>Whitespace, a line comment without its end of line, a block comment up to its first end.\<close>

definition blank :: "string \<Rightarrow> bool" where
  "blank s \<longleftrightarrow> white_space s \<or> (\<exists>t. s = ''--'' @ t \<and> newline \<notin> set (chars_of t))
     \<or> (\<exists>t. s = ''/*'' @ t @ ''*/'' \<and> \<not> sublist ''*/'' t)"

definition blanks :: "string \<Rightarrow> bool" where
  "blanks s \<longleftrightarrow> (\<exists>ps. s = concat ps \<and> (\<forall>p \<in> set ps. blank p))"

lemma blanks_Nil [simp]: "blanks []"
  unfolding blanks_def by (rule exI [of _ "[]"]) simp

lemma blanks_append: "blank p \<Longrightarrow> blanks s \<Longrightarrow> blanks (p @ s)"
  unfolding blanks_def by (metis concat.simps(2) insert_iff list.simps(15))

lemma utf8_multibyte:
  assumes "utf8 (b # bs)" "\<not> b \<le> 0x7F"
  shows "\<exists>w r. bs = w @ r \<and> (\<forall>c \<in> set w. cont_byte c) \<and> utf8 r"
proof -
  consider (two) c r where "bs = [c] @ r" "cont_byte c" "utf8 r"
    | (three) c d r where "bs = [c, d] @ r" "cont_byte c" "cont_byte d" "utf8 r"
    | (four) c d e r where "bs = [c, d, e] @ r" "cont_byte c" "cont_byte d" "cont_byte e" "utf8 r"
  proof (cases "0xC2 \<le> b \<and> b \<le> 0xDF")
    case True
    with assms show ?thesis by (cases bs) (auto intro: two)
  next
    case not2: False
    show ?thesis
    proof (cases "0xE0 \<le> b \<and> b \<le> 0xEF")
      case True
      with assms not2 show ?thesis by (cases bs; cases "tl bs") (auto intro: three)
    next
      case False
      with assms not2 show ?thesis by (cases bs; cases "tl bs"; cases "tl (tl bs)") (auto intro: four split: if_splits)
    qed
  qed
  then show ?thesis
  proof cases
    case (two c r)
    then show ?thesis by (intro exI [of _ "[c]"] exI [of _ r]) simp
  next
    case (three c d r)
    then show ?thesis by (intro exI [of _ "[c, d]"] exI [of _ r]) simp
  next
    case (four c d e r)
    then show ?thesis by (intro exI [of _ "[c, d, e]"] exI [of _ r]) simp
  qed
qed

lemma utf8_step:
  assumes "utf8 (bytes_of (b # bs))"
  shows "(of_char b :: byte) \<le> 0x7F \<and> utf8 (bytes_of bs) \<and> takeWhile (\<lambda>c. cont_byte (of_char c)) bs = []
      \<and> dropWhile (\<lambda>c. cont_byte (of_char c)) bs = bs
    \<or> \<not> (of_char b :: byte) \<le> 0x7F \<and> utf8 (bytes_of (dropWhile (\<lambda>c. cont_byte (of_char c)) bs))"
proof -
  have stop: "takeWhile (\<lambda>c. cont_byte (of_char c)) r = [] \<and> dropWhile (\<lambda>c. cont_byte (of_char c)) r = r"
    if "utf8 (bytes_of r)" for r using utf8_start [OF that] by (cases r) auto
  show ?thesis
  proof (cases "(of_char b :: byte) \<le> 0x7F")
    case True
    then show ?thesis using assms stop by (simp add: bytes_of_def)
  next
    case False
    obtain v q where vq: "bytes_of bs = v @ q" "\<forall>c \<in> set v. cont_byte c" "utf8 q"
      using utf8_multibyte [of "of_char b" "bytes_of bs"] assms False by (auto simp: bytes_of_def)
    have "bs = string_of v @ string_of q" using vq(1) by (metis string_of_bytes_of string_of_def map_append)
    moreover have "of_char c \<in> set v" if "c \<in> set (string_of v)" for c
      using that bytes_of_string_of [of v] unfolding bytes_of_def by (metis image_eqI list.set_map)
    ultimately have "\<exists>w r. bs = w @ r \<and> (\<forall>c \<in> set w. cont_byte (of_char c)) \<and> utf8 (bytes_of r)"
      using vq(2,3) by (metis bytes_of_string_of)
    then obtain w r where "bs = w @ r" "\<forall>c \<in> set w. cont_byte (of_char c)" "utf8 (bytes_of r)" by blast
    with False stop [of r] show ?thesis by (simp add: dropWhile_append)
  qed
qed

lemma utf8_ascii_single: "utf8 (bytes_of s) \<Longrightarrow> c \<in> set (chars_of s) \<Longrightarrow> (of_char (hd c) :: byte) \<le> 0x7F \<Longrightarrow> c = [hd c]"
proof (induction s rule: chars_of.induct)
  case (2 b bs)
  from utf8_step [OF 2(2)] 2 show ?case by (auto simp: Let_def)
qed simp

lemma lex_ok_ascii: "lex_ok lx \<Longrightarrow> c \<in> set (lx_chars lx) \<Longrightarrow> (of_char (hd c) :: byte) \<le> 0x7F \<Longrightarrow> c = [hd c]"
  unfolding lex_ok_def by (metis UnCI set_append utf8_ascii_single)

text \<open>ASCII characters at the front of the text are characters of the lexer.\<close>

lemma ascii_prefix:
  "(\<And>c. c \<in> set cs \<Longrightarrow> c \<noteq> [] \<and> ((of_char (hd c) :: byte) \<le> 0x7F \<longrightarrow> c = [hd c])) \<Longrightarrow>
   \<forall>a \<in> set t. (of_char a :: byte) \<le> 0x7F \<Longrightarrow> prefix t (concat cs) \<Longrightarrow> \<exists>ds. cs = map (\<lambda>a. [a]) t @ ds"
proof (induction t arbitrary: cs)
  case (Cons a t)
  then obtain c ds where cs: "cs = c # ds" by (cases cs) auto
  then have "hd c = a" using Cons.prems(1) [of c] Cons.prems(3) by (cases c) auto
  then have "c = [a]" using Cons.prems(1) [of c] Cons.prems(2) cs by auto
  with Cons.IH [of ds] Cons.prems cs show ?case by auto
qed simp

lemma remaining_prefix:
  assumes "lex_ok lx" "prefix t (remaining lx)" "\<forall>a \<in> set t. (of_char a :: byte) \<le> 0x7F"
  shows "\<exists>ds. lx_chars lx = map (\<lambda>a. [a]) t @ ds"
  by (rule ascii_prefix) (use assms lex_ok_ascii lex_ok_chars in \<open>auto simp: remaining_def char_ok_def\<close>)

lemma comment_end_step:
  assumes c: "char_ok c" and s: "sublist ''*/'' (c @ t)"
  shows "prefix ''*/'' (c @ t) \<or> sublist ''*/'' t"
proof -
  have star: "\<not> cont_byte (of_char (CHR ''*''))" by (simp add: cont_byte_def)
  have tail: "sublist ''*/'' t" if "sublist ''*/'' (bs @ t)" "\<forall>b \<in> set bs. cont_byte (of_char b)" for bs
    using that star by (induction bs) (auto simp: sublist_Cons_right)
  obtain b bs where "c = b # bs" "\<forall>b \<in> set bs. cont_byte (of_char b)" using c by (cases c) (auto simp: char_ok_def)
  with s tail show ?thesis by (auto simp: sublist_Cons_right)
qed

lemma skip_block_eats: "skip_block lx = Some lx' \<Longrightarrow>
  \<exists>w. eats lx w lx' \<and> (lex_ok lx \<longrightarrow> (\<exists>t. concat w = t @ ''*/'' \<and> \<not> sublist ''*/'' t))"
proof (induction lx rule: skip_block.induct)
  case (1 lx)
  show ?case
  proof (cases "lx_chars lx")
    case Nil
    with 1 show ?thesis by (subst (asm) (2) skip_block.simps) (auto simp: remaining_def)
  next
    case (Cons c cs)
    note b = eats_bump [OF Cons]
    show ?thesis
    proof (cases "prefix ''*/'' (remaining lx)")
      case True
      have lx': "lx' = bump (bump lx)" using 1(2) True by (subst (asm) skip_block.simps) simp
      have "eats lx [''*'', ''/''] lx'" if "lex_ok lx"
        using remaining_prefix [OF that True] eats_bump2 lx' by auto
      moreover have "concat [''*'', ''/''] = [] @ ''*/''" "\<not> sublist ''*/'' []" by simp_all
      ultimately show ?thesis using bump2_eats lx' by metis
    next
      case False
      then have "skip_block (bump lx) = Some lx'" using 1(2) Cons by (subst (asm) skip_block.simps) simp
      with 1(1) False Cons obtain w where w: "eats (bump lx) w lx'"
        "lex_ok (bump lx) \<Longrightarrow> \<exists>t. concat w = t @ ''*/'' \<and> \<not> sublist ''*/'' t" by auto
      have "\<exists>t. concat (c # w) = t @ ''*/'' \<and> \<not> sublist ''*/'' t" if ok: "lex_ok lx"
      proof -
        obtain t where t: "concat w = t @ ''*/''" "\<not> sublist ''*/'' t" using w(2) eats_ok [OF b ok] by blast
        have "prefix (c @ t) (remaining lx)" using w(1) Cons t(1) by (auto simp: remaining_def eats_def prefix_def)
        then have "\<not> prefix ''*/'' (c @ t)" using False prefix_order.trans by blast
        then have "\<not> sublist ''*/'' (c @ t)" using comment_end_step [of c t] lex_ok_chars [OF ok, of c] Cons t(2) by auto
        with t(1) show ?thesis by (intro exI [of _ "c @ t"]) simp
      qed
      with eats_trans [OF b w(1)] show ?thesis by auto
    qed
  qed
qed

lemma skip_eats: "skip_whitespace_and_comments lx = Ok lx' \<Longrightarrow> \<exists>w. eats lx w lx' \<and> (lex_ok lx \<longrightarrow> blanks (concat w))"
proof (induction lx rule: skip_whitespace_and_comments.induct)
  case (1 lx)
  show ?case
  proof (cases "case peek_char lx of Some c \<Rightarrow> white_space c | None \<Rightarrow> False")
    case True
    then obtain c cs where c: "lx_chars lx = c # cs" by (auto simp: peek_char_def split: list.splits)
    have "skip_whitespace_and_comments (bump lx) = Ok lx'"
      using 1(4) True by (subst (asm) skip_whitespace_and_comments.simps) simp
    with 1(1) True obtain w where w: "eats (bump lx) w lx'" "lex_ok (bump lx) \<longrightarrow> blanks (concat w)" by blast
    moreover have "blank c" using True c by (simp add: peek_char_def blank_def)
    ultimately have "lex_ok lx \<longrightarrow> blanks (concat (c # w))"
      using eats_ok [OF eats_bump [OF c]] by (simp add: blanks_append)
    with eats_trans [OF eats_bump [OF c] w(1)] show ?thesis by auto
  next
    case ws: False
    show ?thesis
    proof (cases "prefix ''--'' (remaining lx)")
      case True
      have "skip_whitespace_and_comments (bump_while (\<lambda>c. c \<noteq> newline) (bump (bump lx))) = Ok lx'"
        using 1(4) ws True by (subst (asm) skip_whitespace_and_comments.simps) simp
      from 1(2) [OF ws True this] obtain w where w: "eats (bump_while (\<lambda>c. c \<noteq> newline) (bump (bump lx))) w lx'"
        "lex_ok (bump_while (\<lambda>c. c \<noteq> newline) (bump (bump lx))) \<longrightarrow> blanks (concat w)" by blast
      obtain v where v: "eats (bump (bump lx)) v (bump_while (\<lambda>c. c \<noteq> newline) (bump (bump lx)))" "\<forall>c \<in> set v. c \<noteq> newline"
        using bump_while_eats by blast
      obtain u where u: "eats lx u (bump (bump lx))" using bump2_eats by blast
      have "\<exists>u. eats lx u lx' \<and> blanks (concat u)" if ok: "lex_ok lx"
      proof -
        have e: "eats lx [''-'', ''-''] (bump (bump lx))" using remaining_prefix [OF ok True] eats_bump2 by auto
        note ok2 = eats_ok [OF e ok]
        have "chars_of (concat v) = v" by (rule chars_concat) (use lex_ok_chars [OF ok2] v(1) in \<open>auto simp: eats_def\<close>)
        then have "blank (''--'' @ concat v)" using v(2) by (auto simp: blank_def)
        moreover have "blanks (concat w)" using w(2) eats_ok [OF v(1) ok2] by blast
        ultimately have "blanks (concat ([''-'', ''-''] @ v @ w))" using blanks_append by fastforce
        with eats_trans [OF e eats_trans [OF v(1) w(1)]] show ?thesis by blast
      qed
      with eats_trans [OF u eats_trans [OF v(1) w(1)]] show ?thesis by blast
    next
      case line: False
      show ?thesis
      proof (cases "prefix ''/*'' (remaining lx)")
        case True
        then obtain lx1 where lx1: "skip_block (bump (bump lx)) = Some lx1" "skip_whitespace_and_comments lx1 = Ok lx'"
          using 1(4) ws line
          by (subst (asm) skip_whitespace_and_comments.simps) (auto simp: lex_error_def split: option.splits)
        from 1(3) [OF ws line True lx1] obtain w where w: "eats lx1 w lx'" "lex_ok lx1 \<longrightarrow> blanks (concat w)" by blast
        obtain v where v: "eats (bump (bump lx)) v lx1"
          "lex_ok (bump (bump lx)) \<longrightarrow> (\<exists>t. concat v = t @ ''*/'' \<and> \<not> sublist ''*/'' t)"
          using skip_block_eats [OF lx1(1)] by blast
        obtain u where u: "eats lx u (bump (bump lx))" using bump2_eats by blast
        have "\<exists>u. eats lx u lx' \<and> blanks (concat u)" if ok: "lex_ok lx"
        proof -
          have e: "eats lx [''/'', ''*''] (bump (bump lx))" using remaining_prefix [OF ok True] eats_bump2 by auto
          note ok2 = eats_ok [OF e ok]
          have "blank (''/*'' @ concat v)" using v(2) ok2 by (auto simp: blank_def)
          moreover have "blanks (concat w)" using w(2) eats_ok [OF v(1) ok2] by blast
          ultimately have "blanks (concat ([''/'', ''*''] @ v @ w))" using blanks_append by fastforce
          with eats_trans [OF e eats_trans [OF v(1) w(1)]] show ?thesis by blast
        qed
        with eats_trans [OF u eats_trans [OF v(1) w(1)]] show ?thesis by blast
      next
        case False
        then have "lx' = lx" using 1(4) ws line by (subst (asm) skip_whitespace_and_comments.simps) simp
        then show ?thesis using eats_refl by (metis blanks_Nil concat.simps(1))
      qed
    qed
  qed
qed

lemma lex_string_from_eats:
  "lex_string_from lx0 v lx = Ok (k, lx') \<Longrightarrow> \<exists>w. eats lx w lx'"
proof (induction lx0 v lx rule: lex_string_from.induct)
  case (1 lx0 v lx)
  show ?case
  proof (cases "lx_chars lx")
    case Nil
    with 1(3) show ?thesis by (subst (asm) lex_string_from.simps) (simp add: peek_char_def lex_error_def)
  next
    case (Cons c cs)
    then have p: "peek_char lx = Some c" by (simp add: peek_char_def)
    note e = eats_bump [OF Cons]
    show ?thesis
    proof (cases "c = [CHR 0x27]")
      case quote: True
      show ?thesis
      proof (cases "peek_char (bump lx) = Some [CHR 0x27]")
        case True
        then obtain ds where "lx_chars (bump lx) = [CHR 0x27] # ds" by (auto simp: peek_char_def split: list.splits)
        note e2 = eats_trans [OF e eats_bump [OF this]]
        have "lex_string_from lx0 (v @ [CHR 0x27]) (bump (bump lx)) = Ok (k, lx')"
          using 1(3) p quote True by (subst (asm) lex_string_from.simps) (simp add: Let_def)
        with 1(1) [OF p refl quote True] eats_trans [OF e2] show ?thesis by blast
      next
        case False
        then have "lx' = bump lx" using 1(3) p quote by (subst (asm) lex_string_from.simps) (simp add: Let_def)
        with e show ?thesis by blast
      qed
    next
      case False
      have "lex_string_from lx0 (v @ c) (bump lx) = Ok (k, lx')"
        using 1(3) p False by (subst (asm) lex_string_from.simps) (simp add: Let_def)
      with 1(2) [OF p refl False] eats_trans [OF e] show ?thesis by blast
    qed
  qed
qed

text \<open>A token takes at least one character.\<close>

lemma lex_token_eats:
  assumes ch: "peek_char lx = Some ch" and run: "lex_token ch lx = Ok (k, lx')"
  shows "\<exists>w. w \<noteq> [] \<and> eats lx w lx'"
proof -
  obtain cs where cs: "lx_chars lx = ch # cs" using ch by (auto simp: peek_char_def split: list.splits)
  note b = eats_bump [OF cs]
  have more: "\<exists>w. w \<noteq> [] \<and> eats lx w lx''" if "eats (bump lx) v lx''" for v lx'' using eats_trans [OF b that] by blast
  have loop: "\<exists>w. w \<noteq> [] \<and> eats lx w (bump_while P lx)" if "P ch" for P
  proof -
    have "bump_while P lx = bump_while P (bump lx)" using that ch by (subst bump_while.simps) simp
    with bump_while_eats [of "bump lx" P] more show ?thesis by metis
  qed
  have op: "\<exists>w. w \<noteq> [] \<and> eats lx w lx'" if "lex_operator_or_punct lx = Ok (k, lx')"
  proof -
    have "lx' = bump lx \<or> lx' = bump (bump lx)"
      using that ch by (auto simp: lex_operator_or_punct_def Let_def lex_error_def split: if_splits)
    then show ?thesis using more b bump_eats [of "bump lx"] by blast
  qed
  consider "ascii_digit ch" | "\<not> ascii_digit ch" "ch = [CHR 0x27]" | "\<not> ascii_digit ch" "ch \<noteq> [CHR 0x27]" "is_ident_start ch"
    | "\<not> ascii_digit ch" "ch \<noteq> [CHR 0x27]" "\<not> is_ident_start ch" "ch = ''$''"
    | "\<not> ascii_digit ch" "ch \<noteq> [CHR 0x27]" "\<not> is_ident_start ch" "ch \<noteq> ''$''" by blast
  then show ?thesis
  proof cases
    case 1
    then have "lx' = bump_while ascii_digit lx"
      using run by (auto simp: lex_token_def lex_number_def Let_def lex_error_def and_then_Ok_iff split: if_splits option.splits)
    with loop [of ascii_digit] 1 show ?thesis by simp
  next
    case 2
    then have "lex_string_from lx [] (bump lx) = Ok (k, lx')" using run by (simp add: lex_token_def lex_string_def)
    from lex_string_from_eats [OF this] more show ?thesis by blast
  next
    case 3
    then have "lx' = bump_while is_ident_continue lx"
      using run by (auto simp: lex_token_def lex_ident_or_keyword_def Let_def and_then_Ok_iff)
    with loop [of is_ident_continue] 3 show ?thesis by (simp add: is_ident_continue_def)
  next
    case 4
    then have "lx' = bump_while ascii_digit (bump lx)"
      using run by (auto simp: lex_token_def lex_param_def Let_def lex_error_def and_then_Ok_iff split: if_splits option.splits)
    with bump_while_eats [of "bump lx" ascii_digit] more show ?thesis by metis
  next
    case 5
    then show ?thesis using run op by (simp add: lex_token_def)
  qed
qed

subsection \<open>The main loop\<close>

function tokenize_from :: "lexer \<Rightarrow> token list outcome" where
  "tokenize_from lx =
     and_then (skip_whitespace_and_comments lx) (\<lambda>lx.
     case peek_offset lx of
       None \<Rightarrow> Ok [\<lparr>tok_kind = TkEof, tok_span = span_new (length (lx_source lx)) (length (lx_source lx))\<rparr>]
     | Some start \<Rightarrow>
         and_then (expect (peek_char lx)) (\<lambda>ch.
         and_then (lex_token ch lx) (\<lambda>(kind, lx').
         and_then (tokenize_from lx') (\<lambda>tokens.
         Ok (\<lparr>tok_kind = kind, tok_span = span_new start (next_offset lx')\<rparr> # tokens)))))"
  by pat_completeness auto
termination
proof (relation "measure (\<lambda>lx. length (lx_chars lx))", simp)
  fix lx lx1 start ch kl k lx'
  assume "skip_whitespace_and_comments lx = Ok lx1" "expect (peek_char lx1) = Ok ch" "lex_token ch lx1 = Ok kl" "(k, lx') = kl"
  then have "skip_whitespace_and_comments lx = Ok lx1" "peek_char lx1 = Some ch" "lex_token ch lx1 = Ok (k, lx')" by simp_all
  then obtain v w where "eats lx v lx1" "w \<noteq> []" "eats lx1 w lx'" using skip_eats lex_token_eats by blast
  then show "(lx', lx) \<in> measure (\<lambda>lx. length (lx_chars lx))" by (simp add: eats_def)
qed

definition tokenize :: "string \<Rightarrow> token list outcome" where
  "tokenize source = tokenize_from (lexer_new source)"

declare tokenize_from.simps [simp del]


subsection \<open>What a token spells\<close>

definition word_text :: "string \<Rightarrow> bool" where
  "word_text t \<longleftrightarrow> t \<noteq> [] \<and> is_ident_start [hd t] \<and> (\<forall>c \<in> set t. is_ident_continue [c])"

definition digits_text :: "string \<Rightarrow> bool" where
  "digits_text t \<longleftrightarrow> t \<noteq> [] \<and> (\<forall>c \<in> set t. ascii_digit [c])"

text \<open>A string in quotes, the quotes inside it doubled.\<close>

definition escaped :: "string \<Rightarrow> string list" where
  "escaped c = (if c = [CHR 0x27] then [c, c] else [c])"

lemma escaped_simps:
  "escaped [CHR 0x27] = [[CHR 0x27], [CHR 0x27]]" "c \<noteq> [CHR 0x27] \<Longrightarrow> escaped c = [c]"
  by (simp_all add: escaped_def)

definition quoted :: "string \<Rightarrow> string" where
  "quoted v = CHR 0x27 # concat (concat (map escaped (chars_of v))) @ [CHR 0x27]"

fun spells :: "token_kind \<Rightarrow> string \<Rightarrow> bool" where
  "spells (TkIdent n) t \<longleftrightarrow> t = n \<and> word_text t \<and> from_word t = None"
| "spells (TkKeyword k) t \<longleftrightarrow> word_text t \<and> from_word t = Some k"
| "spells (TkInt n) t \<longleftrightarrow> digits_text t \<and> read_nat t = Some (unat n)"
| "spells (TkString v) t \<longleftrightarrow> t = quoted v \<and> (v = [] \<or> \<not> cont_byte (of_char (hd v)))"
| "spells TkPlus t \<longleftrightarrow> t = ''+''"
| "spells TkMinus t \<longleftrightarrow> t = ''-''"
| "spells TkStar t \<longleftrightarrow> t = ''*''"
| "spells TkSlash t \<longleftrightarrow> t = ''/''"
| "spells TkEq t \<longleftrightarrow> t = ''=''"
| "spells TkNotEq t \<longleftrightarrow> t = ''<>''"
| "spells TkLt t \<longleftrightarrow> t = ''<''"
| "spells TkLtEq t \<longleftrightarrow> t = ''<=''"
| "spells TkGt t \<longleftrightarrow> t = ''>''"
| "spells TkGtEq t \<longleftrightarrow> t = ''>=''"
| "spells TkLParen t \<longleftrightarrow> t = ''(''"
| "spells TkRParen t \<longleftrightarrow> t = '')''"
| "spells TkComma t \<longleftrightarrow> t = '',''"
| "spells TkSemicolon t \<longleftrightarrow> t = '';''"
| "spells TkDot t \<longleftrightarrow> t = ''.''"
| "spells (TkParam n) t \<longleftrightarrow> (\<exists>d. t = CHR ''$'' # d \<and> digits_text d \<and> read_nat d = Some (unat n))"
| "spells TkEof t \<longleftrightarrow> t = []"

subsection \<open>A token spells its text\<close>

lemma parse_word_iff:
  assumes n: "n = LENGTH('w :: len)"
  shows "parse_word n s = Some (x :: 'w word) \<longleftrightarrow> read_nat s = Some (unat x)"
proof (cases "read_nat s")
  case (Some k)
  have "k < 2 ^ n \<and> of_nat k = x \<longleftrightarrow> k = unat x"
    using unsigned_less [of x] n by (auto simp: unsigned_of_nat take_bit_nat_eq_self)
  with Some show ?thesis by (auto simp: parse_word_def)
qed (simp add: parse_word_def)

lemma parse_word_Some_iff:
  "parse_word 64 s = Some (n :: u64) \<longleftrightarrow> read_nat s = Some (unat n)"
  "parse_word 32 s = Some (m :: u32) \<longleftrightarrow> read_nat s = Some (unat m)"
  by (rule parse_word_iff, simp)+

lemma digits_text_concat: "w \<noteq> [] \<Longrightarrow> \<forall>c \<in> set w. ascii_digit c \<Longrightarrow> digits_text (concat w)"
  using singles [of w] digit_single by (cases w) (fastforce simp: digits_text_def)+

lemma word_text_concat:
  assumes "w \<noteq> []" "is_ident_start (hd w)" "\<forall>c \<in> set w. is_ident_continue c"
  shows "word_text (concat w)"
proof -
  have w: "map (\<lambda>b. [b]) (concat w) = w" by (rule singles) (use assms(3) ident_continue_single in blast)
  then have ne: "concat w \<noteq> []" using assms(1) by (metis list.simps(8))
  then have "hd w = [hd (concat w)]" using w by (metis hd_map)
  moreover have "is_ident_continue [c]" if "c \<in> set (concat w)" for c
  proof -
    have "[c] \<in> set (map (\<lambda>b. [b]) (concat w))" using that by auto
    then show ?thesis using w assms(3) by metis
  qed
  ultimately show ?thesis using assms(2) ne by (simp add: word_text_def)
qed

lemma lex_string_sound:
  "lex_string_from lx0 v lx = Ok (k, lx') \<Longrightarrow>
   \<exists>w cs. eats lx w lx' \<and> set cs \<subseteq> set (lx_chars lx) \<and> k = TkString (v @ concat cs)
     \<and> concat w = concat (concat (map escaped cs)) @ [CHR 0x27]"
proof (induction lx0 v lx rule: lex_string_from.induct)
  case (1 lx0 v lx)
  let ?q = "[CHR 0x27]"
  show ?case
  proof (cases "lx_chars lx")
    case Nil
    with 1(3) show ?thesis by (subst (asm) lex_string_from.simps) (simp add: peek_char_def lex_error_def)
  next
    case (Cons c ds)
    then have p: "peek_char lx = Some c" by (simp add: peek_char_def)
    note e = eats_bump [OF Cons]
    show ?thesis
    proof (cases "c = ?q")
      case quote: True
      show ?thesis
      proof (cases "peek_char (bump lx) = Some ?q")
        case True
        then obtain es where es: "lx_chars (bump lx) = ?q # es" by (auto simp: peek_char_def split: list.splits)
        note e2 = eats_trans [OF e eats_bump [OF es]]
        have "lex_string_from lx0 (v @ ?q) (bump (bump lx)) = Ok (k, lx')"
          using 1(3) p quote True by (subst (asm) lex_string_from.simps) (simp add: Let_def)
        from 1(1) [OF p refl quote True this] obtain w cs where w: "eats (bump (bump lx)) w lx'" "set cs \<subseteq> set (lx_chars (bump (bump lx)))"
          "k = TkString ((v @ ?q) @ concat cs)" "concat w = concat (concat (map escaped cs)) @ ?q" by blast
        show ?thesis
          by (rule exI [of _ "[c, ?q] @ w"], rule exI [of _ "?q # cs"]) (use w Cons es quote eats_trans [OF e2 w(1)] in \<open>auto simp: escaped_simps\<close>)
      next
        case False
        then have "lx' = bump lx \<and> k = TkString v" using 1(3) p quote by (subst (asm) lex_string_from.simps) (simp add: Let_def)
        with e quote show ?thesis by (intro exI [of _ "[c]"] exI [of _ "[]"]) simp
      qed
    next
      case False
      have "lex_string_from lx0 (v @ c) (bump lx) = Ok (k, lx')"
        using 1(3) p False by (subst (asm) lex_string_from.simps) (simp add: Let_def)
      from 1(2) [OF p refl False this] obtain w cs where w: "eats (bump lx) w lx'" "set cs \<subseteq> set (lx_chars (bump lx))"
        "k = TkString ((v @ c) @ concat cs)" "concat w = concat (concat (map escaped cs)) @ ?q" by blast
      show ?thesis
        by (rule exI [of _ "c # w"], rule exI [of _ "c # cs"]) (use w Cons False eats_trans [OF e w(1)] in \<open>auto simp: escaped_simps\<close>)
    qed
  qed
qed

lemma lex_string_panic: "lex_string_from lx0 v lx \<noteq> Panic"
  by (induction lx0 v lx rule: lex_string_from.induct)
    (subst lex_string_from.simps, auto simp: lex_error_def Let_def split: option.splits)

lemma lex_number_sound:
  assumes ok: "lex_ok lx" and ch: "peek_char lx = Some ch" "ascii_digit ch"
  shows "lex_number lx \<noteq> Panic" and "lex_number lx = Ok (k, lx') \<Longrightarrow> \<exists>w n. k = TkInt n \<and> eats lx w lx' \<and> spells k (concat w)"
proof -
  let ?lx = "bump_while ascii_digit lx"
  obtain w where w: "eats lx w ?lx" "\<forall>c \<in> set w. ascii_digit c" "case peek_char ?lx of Some c \<Rightarrow> \<not> ascii_digit c | None \<Rightarrow> True"
    using bump_while_eats by blast
  have "w \<noteq> []" using w(1,3) ch by (auto simp: eats_def peek_char_def)
  then have t: "digits_text (concat w)" using w(2) by (rule digits_text_concat)
  have o: "peek_offset lx = Some (lx_offset lx)" using ch by (auto simp: peek_offset_def peek_char_def)
  note l = lexeme_eats [OF ok w(1)]
  show "lex_number lx \<noteq> Panic"
    using o l by (auto simp: lex_number_def Let_def lex_error_def split: option.splits)
  show "\<exists>w n. k = TkInt n \<and> eats lx w lx' \<and> spells k (concat w)" if "lex_number lx = Ok (k, lx')"
    using that o l t w(1) parse_word_Some_iff(1)
    by (auto simp: lex_number_def Let_def lex_error_def split: option.splits if_splits)
qed

lemma lex_ident_sound:
  assumes ok: "lex_ok lx" and ch: "peek_char lx = Some ch" "is_ident_start ch"
  shows "\<exists>w k lx'. lex_ident_or_keyword lx = Ok (k, lx') \<and> k \<noteq> TkEof \<and> eats lx w lx' \<and> spells k (concat w)"
proof -
  let ?lx = "bump_while is_ident_continue lx"
  obtain w where w: "eats lx w ?lx" "\<forall>c \<in> set w. is_ident_continue c"
    "case peek_char ?lx of Some c \<Rightarrow> \<not> is_ident_continue c | None \<Rightarrow> True"
    using bump_while_eats by blast
  have "w \<noteq> []" using w(1,3) ch by (auto simp: eats_def peek_char_def is_ident_continue_def)
  then have "hd w = ch" using w(1) ch by (auto simp: eats_def peek_char_def split: list.splits) (metis hd_append list.sel(1))
  then have t: "word_text (concat w)" using word_text_concat [OF \<open>w \<noteq> []\<close> _ w(2)] ch(2) by simp
  have o: "peek_offset lx = Some (lx_offset lx)" using ch by (auto simp: peek_offset_def peek_char_def)
  show ?thesis
    using o lexeme_eats [OF ok w(1)] t w(1) by (auto simp: lex_ident_or_keyword_def Let_def split: option.splits)
qed

lemma lex_param_sound:
  assumes ok: "lex_ok lx" and ch: "peek_char lx = Some ''$''"
  shows "lex_param lx \<noteq> Panic" and "lex_param lx = Ok (k, lx') \<Longrightarrow> \<exists>w n. k = TkParam n \<and> eats lx w lx' \<and> spells k (concat w)"
proof -
  let ?lx1 = "bump lx" and ?lx = "bump_while ascii_digit (bump lx)"
  obtain cs where "lx_chars lx = ''$'' # cs" using ch by (auto simp: peek_char_def split: list.splits)
  note b = eats_bump [OF this]
  obtain w where w: "eats ?lx1 w ?lx" "\<forall>c \<in> set w. ascii_digit c" "case peek_char ?lx of Some c \<Rightarrow> \<not> ascii_digit c | None \<Rightarrow> True"
    using bump_while_eats by blast
  have l: "lexeme lx (lx_offset ?lx1) (next_offset ?lx) = Ok (concat w)"
    using lexeme_eats [OF eats_ok [OF b ok] w(1)] by (simp add: lexeme_def)
  show "lex_param lx \<noteq> Panic"
    by (simp add: lex_param_def Let_def lex_error_def peek_offset_def l split: option.splits)
  assume run: "lex_param lx = Ok (k, lx')"
  then have "\<exists>c. peek_char ?lx1 = Some c \<and> ascii_digit c"
    by (auto simp: lex_param_def Let_def lex_error_def split: option.splits if_splits)
  then have "w \<noteq> []" using w(1,3) by (auto simp: eats_def peek_char_def)
  then have t: "digits_text (concat w)" using w(2) by (rule digits_text_concat)
  have "\<exists>n. k = TkParam n \<and> lx' = ?lx \<and> spells k (CHR ''$'' # concat w)"
    using run l t parse_word_Some_iff(2)
    by (auto simp: lex_param_def Let_def lex_error_def peek_offset_def split: option.splits if_splits)
  with eats_trans [OF b w(1)] show "\<exists>w n. k = TkParam n \<and> eats lx w lx' \<and> spells k (concat w)"
    by (intro exI [of _ "''$'' # w"]) auto
qed

lemma lex_operator_sound:
  assumes ch: "peek_char lx = Some ch"
  shows "lex_operator_or_punct lx \<noteq> Panic"
    and "lex_operator_or_punct lx = Ok (k, lx') \<Longrightarrow> \<exists>w. k \<noteq> TkEof \<and> eats lx w lx' \<and> spells k (concat w)"
proof -
  obtain cs where cs: "lx_chars lx = ch # cs" using ch by (auto simp: peek_char_def split: list.splits)
  note b = eats_bump [OF cs]
  have b2: "eats lx [ch, d] (bump (bump lx))" if "peek_char (bump lx) = Some d" for d
    using eats_bump2 [of lx ch d] cs that by (auto simp: peek_char_def split: list.splits)
  show "lex_operator_or_punct lx \<noteq> Panic" using ch by (simp add: lex_operator_or_punct_def Let_def lex_error_def)
  show "\<exists>w. k \<noteq> TkEof \<and> eats lx w lx' \<and> spells k (concat w)" if run: "lex_operator_or_punct lx = Ok (k, lx')"
  proof -
    have "k \<noteq> TkEof \<and> (lx' = bump lx \<and> spells k ch
      \<or> lx' = bump (bump lx) \<and> (\<exists>d. peek_char (bump lx) = Some d \<and> spells k (ch @ d)))"
      using run ch by (simp add: lex_operator_or_punct_def Let_def lex_error_def split: if_splits; force)
    then show ?thesis using b b2 by (force intro: exI [of _ "[ch]"])
  qed
qed

subsection \<open>Tokens and blanks tile the source\<close>

definition between :: "string \<Rightarrow> nat \<Rightarrow> nat \<Rightarrow> string" where
  "between s a b = take (b - a) (drop a s)"

lemma between_empty [simp]: "between s a a = []"
  by (simp add: between_def)

text \<open>
  From \<open>pos\<close> on the source consists of blanks, a token that spells its text, blanks and so on up to the \<open>TkEof\<close>
  at its end.
\<close>

fun tiles :: "string \<Rightarrow> nat \<Rightarrow> token list \<Rightarrow> bool" where
  "tiles source pos [] \<longleftrightarrow> False"
| "tiles source pos (t # ts) \<longleftrightarrow>
    (let a = span_start (tok_span t); b = span_end (tok_span t) in
     pos \<le> a \<and> a \<le> b \<and> b \<le> length source \<and> blanks (between source pos a) \<and> spells (tok_kind t) (between source a b)
     \<and> (if ts = [] then tok_kind t = TkEof \<and> b = length source else tok_kind t \<noteq> TkEof \<and> a < b \<and> tiles source b ts))"

lemma lex_token_sound:
  assumes ok: "lex_ok lx" and ch: "peek_char lx = Some ch"
  shows "lex_token ch lx \<noteq> Panic"
    and "lex_token ch lx = Ok (k, lx') \<Longrightarrow> \<exists>w. k \<noteq> TkEof \<and> eats lx w lx' \<and> spells k (concat w)"
proof -
  have "lex_token ch lx \<noteq> Panic \<and> (lex_token ch lx = Ok (k, lx') \<longrightarrow> (\<exists>w. k \<noteq> TkEof \<and> eats lx w lx' \<and> spells k (concat w)))"
  proof -
    consider "ascii_digit ch" | "\<not> ascii_digit ch" "ch = [CHR 0x27]" | "\<not> ascii_digit ch" "ch \<noteq> [CHR 0x27]" "is_ident_start ch"
      | "\<not> ascii_digit ch" "ch \<noteq> [CHR 0x27]" "\<not> is_ident_start ch" "ch = ''$''"
      | "\<not> ascii_digit ch" "ch \<noteq> [CHR 0x27]" "\<not> is_ident_start ch" "ch \<noteq> ''$''" by blast
    then show ?thesis
    proof cases
      case 1
      with lex_number_sound [OF ok ch] show ?thesis by (simp add: lex_token_def) blast
    next
      case 2
      then obtain cs where cs: "lx_chars lx = [CHR 0x27] # cs" using ch by (auto simp: peek_char_def split: list.splits)
      note b = eats_bump [OF cs]
      have "\<exists>w. k \<noteq> TkEof \<and> eats lx w lx' \<and> spells k (concat w)" if "lex_string_from lx [] (bump lx) = Ok (k, lx')"
      proof -
        from lex_string_sound [OF that] obtain w ds where w: "eats (bump lx) w lx'" "set ds \<subseteq> set (lx_chars (bump lx))" "k = TkString (concat ds)"
          "concat w = concat (concat (map escaped ds)) @ [CHR 0x27]" by auto
        have ok_ds: "\<forall>c \<in> set ds. char_ok c" using w(2) lex_ok_chars [OF eats_ok [OF b ok]] by blast
        then have "concat ds = [] \<or> \<not> cont_byte (of_char (hd (concat ds)))" by (cases ds) (auto simp: char_ok_def hd_append)
        then have "spells k (concat ([CHR 0x27] # w))" using w(3,4) chars_concat [OF ok_ds] by (simp add: quoted_def)
        with eats_trans [OF b w(1)] w(3) show ?thesis by auto
      qed
      with 2 lex_string_panic show ?thesis by (simp add: lex_token_def lex_string_def)
    next
      case 3
      with lex_ident_sound [OF ok ch] show ?thesis by (auto simp: lex_token_def)
    next
      case 4
      with lex_param_sound [OF ok] ch show ?thesis by (simp add: lex_token_def; blast)
    next
      case 5
      with lex_operator_sound [OF ch] show ?thesis by (simp add: lex_token_def)
    qed
  qed
  then show "lex_token ch lx \<noteq> Panic"
    and "lex_token ch lx = Ok (k, lx') \<Longrightarrow> \<exists>w. k \<noteq> TkEof \<and> eats lx w lx' \<and> spells k (concat w)" by blast+
qed

lemma skip_panic: "skip_whitespace_and_comments lx \<noteq> Panic"
  by (induction lx rule: skip_whitespace_and_comments.induct)
    (subst skip_whitespace_and_comments.simps, auto simp: lex_error_def split: option.splits)

lemma between_eats:
  assumes ok: "lex_ok lx" and e: "eats lx w lx'"
  shows "between (lx_source lx) (lx_offset lx) (lx_offset lx') = concat w" "lx_offset lx \<le> lx_offset lx'"
    "lx_offset lx' \<le> length (lx_source lx)"
proof -
  let ?s = "lx_source lx"
  obtain cs where cs: "chars_of ?s = cs @ lx_chars lx" "lx_offset lx = length (concat cs)" using ok by (auto simp: lex_ok_def)
  have s: "?s = concat cs @ concat w @ concat (lx_chars lx')" using concat_chars_of [of ?s] cs(1) e by (simp add: eats_def)
  show "between ?s (lx_offset lx) (lx_offset lx') = concat w" using e cs(2) by (subst s) (simp add: between_def eats_def)
  show "lx_offset lx \<le> lx_offset lx'" using e by (simp add: eats_def)
  show "lx_offset lx' \<le> length ?s" using e cs(2) by (subst s) (simp add: eats_def)
qed

lemma tokenize_from_tiles:
  "lex_ok lx \<Longrightarrow> tokenize_from lx \<noteq> Panic \<and> (\<forall>ts. tokenize_from lx = Ok ts \<longrightarrow> tiles (lx_source lx) (lx_offset lx) ts)"
proof (induction lx rule: tokenize_from.induct)
  case (1 lx)
  note ok = 1(2)
  show ?case
  proof (cases "skip_whitespace_and_comments lx")
    case (Ok lx1)
    then obtain v where v: "eats lx v lx1" "blanks (concat v)" using skip_eats ok by blast
    note ok1 = eats_ok [OF v(1) ok]
    have src: "lx_source lx1 = lx_source lx" using v(1) by (simp add: eats_def)
    have gap: "blanks (between (lx_source lx) (lx_offset lx) (lx_offset lx1))" using between_eats [OF ok v(1)] v(2) by simp
    show ?thesis
    proof (cases "lx_chars lx1")
      case Nil
      have "next_offset lx1 = length (lx_source lx1)" using Nil by (simp add: next_offset_def peek_offset_def)
      then have end_eq: "lx_offset lx1 = length (lx_source lx)" using lex_ok_boundary(2) [OF ok1] src by simp
      have "tokenize_from lx = Ok [\<lparr>tok_kind = TkEof, tok_span = span_new (length (lx_source lx)) (length (lx_source lx))\<rparr>]"
        using Ok Nil src by (subst tokenize_from.simps) (simp add: peek_offset_def)
      with gap between_eats [OF ok v(1)] end_eq show ?thesis by (simp add: span_new_def)
    next
      case (Cons ch cs)
      then have ch: "peek_char lx1 = Some ch" "peek_offset lx1 = Some (lx_offset lx1)" by (simp_all add: peek_char_def peek_offset_def)
      have eq: "tokenize_from lx = and_then (lex_token ch lx1) (\<lambda>(kind, lx'). and_then (tokenize_from lx') (\<lambda>tokens.
          Ok (\<lparr>tok_kind = kind, tok_span = span_new (lx_offset lx1) (next_offset lx')\<rparr> # tokens)))"
        using Ok ch by (subst tokenize_from.simps) simp
      show ?thesis
      proof (cases "lex_token ch lx1")
        case tok: (Ok kl)
        obtain k lx2 where kl: "kl = (k, lx2)" by fastforce
        obtain w where w: "k \<noteq> TkEof" "eats lx1 w lx2" "spells k (concat w)" using lex_token_sound(2) [OF ok1 ch(1)] tok kl by blast
        obtain w' where "w' \<noteq> []" "eats lx1 w' lx2" using lex_token_eats [OF ch(1)] tok kl by blast
        then have "length w \<noteq> 0" using eats_length [OF w(2)] eats_length by fastforce
        moreover have "c \<noteq> []" if "c \<in> set w" for c using lex_ok_chars [OF ok1, of c] w(2) that by (auto simp: eats_def char_ok_def)
        ultimately have pos: "0 < length (concat w)" by (cases w) auto
        note ok2 = eats_ok [OF w(2) ok1]
        have IH: "tokenize_from lx2 \<noteq> Panic \<and> (\<forall>ts. tokenize_from lx2 = Ok ts \<longrightarrow> tiles (lx_source lx2) (lx_offset lx2) ts)"
          by (rule 1(1) [OF Ok]) (use ch tok kl ok2 in simp_all)
        have src2: "lx_source lx2 = lx_source lx" using w(2) src by (simp add: eats_def)
        have span: "blanks (between (lx_source lx) (lx_offset lx) (lx_offset lx1))" "lx_offset lx \<le> lx_offset lx1"
          "spells k (between (lx_source lx) (lx_offset lx1) (lx_offset lx2))" "lx_offset lx1 < lx_offset lx2" "lx_offset lx2 \<le> length (lx_source lx)"
          using gap between_eats [OF ok v(1)] between_eats [OF ok1 w(2)] w pos src by (simp_all add: eats_def)
        have nonempty: "tokens \<noteq> []" if "tokenize_from lx2 = Ok tokens" for tokens using IH that by auto
        show ?thesis
          unfolding eq tok kl using IH w(1) span src2 nonempty lex_ok_boundary(2) [OF ok2]
          by (cases "tokenize_from lx2") (auto simp: span_new_def Let_def)
      qed (use eq lex_token_sound(1) [OF ok1 ch(1)] in auto)
    qed
  next
    case (Err e)
    then have "tokenize_from lx = Err e" by (subst tokenize_from.simps) simp
    then show ?thesis by simp
  qed (use skip_panic in blast)
qed

lemma lexer_new_ok: "utf8 (bytes_of s) \<Longrightarrow> lex_ok (lexer_new s)"
  by (simp add: lex_ok_def lexer_new_def)

text \<open>
  C38: no character is lost and none is read twice. On every source the lexer ends without a panic; when it
  succeeds, the source is a sequence of blanks (whitespace and comments) and tokens, each at its span and spelled as its
  kind says, and the last token, and only that one, is the end marker at the end of the source.
\<close>

theorem tokens_tile_the_source:
  assumes "utf8 (bytes_of source)"
  shows "tokenize source \<noteq> Panic \<and> (\<forall>ts. tokenize source = Ok ts \<longrightarrow> tiles source 0 ts)"
  using tokenize_from_tiles [OF lexer_new_ok [OF assms]] by (simp add: tokenize_def lexer_new_def)

theorem tokens_tile_the_source_witness:
  "\<exists>ts. tokenize ''a<=1 --x'' = Ok ts \<and> tiles ''a<=1 --x'' 0 ts"
proof -
  have c: "chars_of ''a<=1 --x'' = map (\<lambda>c. [c]) ''a<=1 --x''"
    by (rule chars_of_single) (simp add: cont_byte_def)
  have "\<exists>ts. tokenize ''a<=1 --x'' = Ok ts"
    by (simp add: tokenize_def lexer_new_def c tokenize_from.simps skip_whitespace_and_comments.simps bump_while.simps
        peek_char_def peek_offset_def remaining_def white_space_def bytes_of_def bump_def lex_token_def lex_ident_or_keyword_def
        lex_number_def lex_operator_or_punct_def is_ident_continue_def lexeme_def next_offset_def str_slice_def char_boundary_def
        cont_byte_def get_slice_def from_word_def keyword_arms_def to_ascii_uppercase_def upper_char_def parse_word_def read_nat_def
        digit_value_def Let_def)
  moreover have "utf8 (bytes_of ''a<=1 --x'')" by (rule utf8_ascii) (simp add: bytes_of_def)
  ultimately show ?thesis using tokens_tile_the_source [of "''a<=1 --x''"] by blast
qed

subsection \<open>Every spelling is read back\<close>

lemma of_char_byte: "(of_char c :: byte) = of_nat (of_char c)"
  by (cases c) simp

lemma white_space_single: "white_space [c] \<Longrightarrow> c < CHR ''!''"
  using of_char_less_iff [of c "CHR ''!''"] by (auto simp: white_space_def bytes_of_def)

lemma ident_start_bounds: "is_ident_start [c] \<Longrightarrow> CHR ''A'' \<le> c"
proof -
  have *: "CHR ''A'' \<le> CHR ''a''" "CHR ''A'' \<le> CHR ''_''" by (simp_all add: less_eq_char_def)
  assume "is_ident_start [c]"
  with * show ?thesis unfolding is_ident_start.simps by (blast intro: order_trans)
qed

lemma digit_bounds: "ascii_digit [c] \<Longrightarrow> CHR ''0'' \<le> c \<and> c \<le> CHR ''9''"
  by simp

lemma singles_chars:
  assumes "\<forall>c \<in> set t. is_ident_continue [c]"
  shows "chars_of t = map (\<lambda>c. [c]) t"
proof (rule chars_of_single)
  show "\<forall>c \<in> set t. \<not> cont_byte (of_char c)" using assms ident_continue_single small_not_cont by fastforce
qed

lemma word_chars: "word_text t \<Longrightarrow> chars_of t = map (\<lambda>c. [c]) t"
  by (rule singles_chars) (simp add: word_text_def)

lemma digits_chars: "digits_text t \<Longrightarrow> chars_of t = map (\<lambda>c. [c]) t"
  by (rule singles_chars) (simp add: digits_text_def is_ident_continue_def)

lemma quoted_chars:
  assumes v: "v = [] \<or> \<not> cont_byte (of_char (hd v))"
  shows "chars_of (quoted v) = [CHR 0x27] # concat (map escaped (chars_of v)) @ [[CHR 0x27]]" (is "_ = ?cs")
proof -
  have "char_ok [CHR 0x27]" by (simp add: char_ok_def cont_byte_def)
  then have "\<forall>c \<in> set ?cs. char_ok c" using chars_of_ok [OF v] by (auto simp: escaped_def split: if_splits)
  from chars_concat [OF this] show ?thesis by (simp add: quoted_def)
qed

lemma spells_start:
  assumes "spells k t" "k \<noteq> TkEof"
  shows "\<exists>c cs. chars_of t = [c] # cs \<and> CHR ''!'' \<le> c \<and> \<not> cont_byte (of_char c)"
proof -
  have word: "\<exists>c cs. chars_of t = [c] # cs \<and> CHR ''!'' \<le> c \<and> \<not> cont_byte (of_char c)" if "word_text t" for t
  proof -
    have "CHR ''!'' \<le> CHR ''A''" by (simp add: less_eq_char_def)
    moreover have "CHR ''A'' \<le> hd t" "t \<noteq> []" using that ident_start_bounds unfolding word_text_def by blast+
    ultimately have "CHR ''!'' \<le> hd t" by (blast intro: order_trans)
    moreover have "is_ident_continue [hd t]" using that unfolding word_text_def by (meson hd_in_set)
    then have "\<not> cont_byte (of_char (hd t))" using ident_continue_single small_not_cont by blast
    ultimately show ?thesis using \<open>t \<noteq> []\<close> unfolding word_chars [OF that] by (cases t) simp_all
  qed
  have digits: "\<exists>c cs. chars_of t = [c] # cs \<and> CHR ''!'' \<le> c \<and> \<not> cont_byte (of_char c)" if "digits_text t" for t
  proof -
    have "CHR ''!'' \<le> CHR ''0''" by (simp add: less_eq_char_def)
    moreover have "CHR ''0'' \<le> hd t" "t \<noteq> []" using that digit_bounds unfolding digits_text_def by (meson hd_in_set)+
    ultimately have "CHR ''!'' \<le> hd t" by (blast intro: order_trans)
    moreover have "ascii_digit [hd t]" using that unfolding digits_text_def by (meson hd_in_set)
    then have "\<not> cont_byte (of_char (hd t))" using digit_single small_not_cont by blast
    ultimately show ?thesis using \<open>t \<noteq> []\<close> unfolding digits_chars [OF that] by (cases t) simp_all
  qed
  have param: "\<exists>c cs. chars_of (CHR ''$'' # d) = [c] # cs \<and> CHR ''!'' \<le> c \<and> \<not> cont_byte (of_char c)" if "digits_text d" for d
  proof -
    have "is_ident_continue [c]" if "c \<in> set d" for c using \<open>digits_text d\<close> that by (simp add: digits_text_def is_ident_continue_def)
    then have "chars_of (CHR ''$'' # d) = map (\<lambda>c. [c]) (CHR ''$'' # d)"
      by (intro chars_of_single) (use ident_continue_single small_not_cont in \<open>fastforce simp: cont_byte_def\<close>)
    then show ?thesis by (simp add: less_eq_char_def cont_byte_def)
  qed
  have op: "\<exists>c cs. chars_of t = [c] # cs \<and> CHR ''!'' \<le> c \<and> \<not> cont_byte (of_char c)"
    if "t \<in> {''+'', ''-'', ''*'', ''/'', ''='', ''<>'', ''<'', ''<='', ''>'', ''>='', ''('', '')'', '','', '';'', ''.''}"
    using that by (auto simp: Let_def less_eq_char_def cont_byte_def)
  show ?thesis
    using assms word digits param op quoted_chars by (cases k) (auto simp: less_eq_char_def cont_byte_def)
qed


text \<open>What may follow a token: nothing, or a space.\<close>

definition spaced :: "string list \<Rightarrow> bool" where
  "spaced r \<longleftrightarrow> r = [] \<or> hd r = '' ''"

lemma spaced_ends:
  assumes "spaced r"
  shows "case r of [] \<Rightarrow> True | c # _ \<Rightarrow> \<not> is_ident_continue c" "case r of [] \<Rightarrow> True | c # _ \<Rightarrow> \<not> ascii_digit c"
  using assms by (auto simp: spaced_def is_ident_continue_def less_eq_char_def split: list.splits)

lemma skip_at_token:
  assumes k: "spells k t" "k \<noteq> TkEof" and lx: "lx_chars lx = chars_of t @ r" "spaced r"
  shows "skip_whitespace_and_comments lx = Ok lx"
proof -
  obtain c cs where c: "chars_of t = [c] # cs" "CHR ''!'' \<le> c" using spells_start [OF k] by blast
  then have ws: "\<not> (case peek_char lx of Some c \<Rightarrow> white_space c | None \<Rightarrow> False)"
    using lx(1) white_space_single [of c] by (auto simp: peek_char_def not_less)
  have rem: "remaining lx = t @ concat r" using lx(1) concat_chars_of [of t] by (simp add: remaining_def)
  have word: "\<not> prefix ''--'' (t @ s) \<and> \<not> prefix ''/*'' (t @ s)" if "word_text t \<or> digits_text t" for t s
  proof -
    have "\<exists>a u. t = a # u \<and> a \<noteq> CHR ''-'' \<and> a \<noteq> CHR ''/''"
      using that by (cases t) (auto simp: word_text_def digits_text_def less_eq_char_def)
    then show ?thesis by auto
  qed
  have "\<not> prefix ''--'' (t @ concat r) \<and> \<not> prefix ''/*'' (t @ concat r)"
  proof (cases "word_text t \<or> digits_text t")
    case False
    with k lx(2) show ?thesis by (cases k; cases r) (auto simp: quoted_def spaced_def)
  qed (rule word)
  with ws rem show ?thesis by (subst skip_whitespace_and_comments.simps) auto
qed

lemma skip_space:
  assumes k: "spells k t" "k \<noteq> TkEof" and lx: "lx_chars lx = '' '' # chars_of t @ r" "spaced r"
  shows "skip_whitespace_and_comments lx = Ok (bump lx)"
proof -
  have "white_space '' ''" by (simp add: white_space_def bytes_of_def)
  then have "skip_whitespace_and_comments lx = skip_whitespace_and_comments (bump lx)"
    using lx(1) by (subst skip_whitespace_and_comments.simps) (simp add: peek_char_def)
  also have "\<dots> = Ok (bump lx)" by (rule skip_at_token [OF k]) (use lx in simp_all)
  finally show ?thesis .
qed

text \<open>One lemma per routine: the token is read and the rest of the text is left.\<close>

lemma lex_word_complete:
  assumes ok: "lex_ok lx" and t: "word_text t" and lx: "lx_chars lx = chars_of t @ r" "spaced r"
  shows "\<exists>lx'. lex_ident_or_keyword lx = Ok (case from_word t of Some k \<Rightarrow> TkKeyword k | None \<Rightarrow> TkIdent t, lx')
    \<and> eats lx (chars_of t) lx'"
proof -
  note cs = word_chars [OF t]
  have "\<forall>c \<in> set (chars_of t). is_ident_continue c" unfolding cs using t by (simp add: word_text_def)
  from bump_while_exact [OF lx(1) this spaced_ends(1) [OF lx(2)]]
  have e: "eats lx (chars_of t) (bump_while is_ident_continue lx)" by simp
  have "peek_offset lx = Some (lx_offset lx)" using lx t cs by (auto simp: peek_offset_def word_text_def)
  then show ?thesis using e lexeme_eats [OF ok e] by (simp add: lex_ident_or_keyword_def Let_def)
qed

lemma lex_number_complete:
  assumes ok: "lex_ok lx" and t: "digits_text t" "read_nat t = Some (unat n)" and lx: "lx_chars lx = chars_of t @ r" "spaced r"
  shows "\<exists>lx'. lex_number lx = Ok (TkInt n, lx') \<and> eats lx (chars_of t) lx'"
proof -
  let ?lx = "bump_while ascii_digit lx"
  note cs = digits_chars [OF t(1)]
  have "\<forall>c \<in> set (chars_of t). ascii_digit c" unfolding cs using t by (simp add: digits_text_def)
  from bump_while_exact [OF lx(1) this spaced_ends(2) [OF lx(2)]]
  have e: "eats lx (chars_of t) ?lx" "lx_chars ?lx = r" by simp_all
  have "peek_offset lx = Some (lx_offset lx)" using lx t cs by (auto simp: peek_offset_def digits_text_def)
  moreover have "\<not> (case peek_char ?lx of Some c \<Rightarrow> is_ident_continue c | None \<Rightarrow> False)"
    using spaced_ends(1) [OF lx(2)] e(2) by (auto simp: peek_char_def split: list.splits)
  moreover have "parse_word 64 t = Some n" using t(2) parse_word_Some_iff(1) by blast
  ultimately show ?thesis using e(1) lexeme_eats [OF ok e(1)] by (simp add: lex_number_def Let_def)
qed

lemma lex_param_complete:
  assumes ok: "lex_ok lx" and d: "digits_text d" "read_nat d = Some (unat n)"
    and lx: "lx_chars lx = ''$'' # chars_of d @ r" "spaced r"
  shows "\<exists>lx'. lex_param lx = Ok (TkParam n, lx') \<and> eats lx (''$'' # chars_of d) lx'"
proof -
  let ?lx1 = "bump lx" and ?lx = "bump_while ascii_digit (bump lx)"
  note cs = digits_chars [OF d(1)] and b = eats_bump [OF lx(1)]
  have "\<forall>c \<in> set (chars_of d). ascii_digit c" unfolding cs using d by (simp add: digits_text_def)
  from bump_while_exact [of ?lx1, OF _ this spaced_ends(2) [OF lx(2)]] lx(1)
  have e: "eats ?lx1 (chars_of d) ?lx" by simp
  obtain a ds where a: "chars_of d = [a] # ds" "ascii_digit [a]" using d(1) unfolding cs by (cases d) (auto simp: digits_text_def)
  have l: "lexeme lx (lx_offset ?lx1) (next_offset ?lx) = Ok d"
    using lexeme_eats [OF eats_ok [OF b ok] e] by (simp add: lexeme_def)
  have "parse_word 32 d = Some n" using d(2) parse_word_Some_iff(2) by blast
  with a l lx(1) have "lex_param lx = Ok (TkParam n, ?lx)" by (simp add: lex_param_def Let_def peek_offset_def peek_char_def)
  with eats_trans [OF b e] show ?thesis by simp
qed

lemma lex_string_complete:
  "lx_chars lx = concat (map escaped cs) @ [CHR 0x27] # r \<Longrightarrow> spaced r \<Longrightarrow>
   \<exists>lx'. lex_string_from lx0 v lx = Ok (TkString (v @ concat cs), lx')
     \<and> eats lx (concat (map escaped cs) @ [[CHR 0x27]]) lx'"
proof (induction cs arbitrary: lx v)
  case Nil
  have "peek_char (bump lx) \<noteq> Some [CHR 0x27]" using Nil by (auto simp: peek_char_def spaced_def split: list.splits)
  then have "lex_string_from lx0 v lx = Ok (TkString v, bump lx)"
    using Nil(1) by (subst lex_string_from.simps) (simp add: peek_char_def Let_def)
  moreover have "eats lx [[CHR 0x27]] (bump lx)" using Nil(1) by (intro eats_bump) simp
  ultimately show ?case by simp
next
  case (Cons c cs)
  let ?w = "concat (map escaped cs) @ [[CHR 0x27]]"
  show ?case
  proof (cases "c = [CHR 0x27]")
    case True
    let ?lx = "bump (bump lx)"
    have "lex_string_from lx0 v lx = lex_string_from lx0 (v @ c) ?lx"
      using Cons.prems(1) True by (subst lex_string_from.simps) (simp add: escaped_simps peek_char_def Let_def)
    moreover have "eats lx [c, c] ?lx" using Cons.prems(1) True by (intro eats_bump2) (simp add: escaped_simps)
    moreover obtain lx' where "lex_string_from lx0 (v @ c) ?lx = Ok (TkString ((v @ c) @ concat cs), lx')" "eats ?lx ?w lx'"
      using Cons.IH [of ?lx "v @ c"] Cons.prems True by (auto simp: escaped_simps)
    ultimately show ?thesis using eats_trans [of lx "[c, c]" ?lx ?w lx'] True by (simp add: escaped_simps)
  next
    case False
    let ?lx = "bump lx"
    have "lex_string_from lx0 v lx = lex_string_from lx0 (v @ c) ?lx"
      using Cons.prems(1) False by (subst lex_string_from.simps) (simp add: escaped_simps peek_char_def Let_def)
    moreover have "eats lx [c] ?lx" using Cons.prems(1) False by (intro eats_bump) (simp add: escaped_simps)
    moreover obtain lx' where "lex_string_from lx0 (v @ c) ?lx = Ok (TkString ((v @ c) @ concat cs), lx')" "eats ?lx ?w lx'"
      using Cons.IH [of ?lx "v @ c"] Cons.prems False by (auto simp: escaped_simps)
    ultimately show ?thesis using eats_trans [of lx "[c]" ?lx ?w lx'] False by (simp add: escaped_simps)
  qed
qed


declare chars_of.simps [simp del]

lemma lex_operator_complete:
  assumes k: "spells k t" "k \<noteq> TkEof" and op: "\<not> word_text t" "\<not> digits_text t" "\<forall>v. k \<noteq> TkString v" "\<forall>n. k \<noteq> TkParam n"
    and lx: "lx_chars lx = chars_of t @ r" "spaced r"
  shows "\<exists>lx'. lex_operator_or_punct lx = Ok (k, lx') \<and> eats lx (chars_of t) lx'"
proof -
  have t: "\<forall>c \<in> set t. \<not> cont_byte (of_char c)" using k op by (cases k) (auto simp: cont_byte_def)
  note cs = chars_of_single [OF t]
  have single: "peek_char lx = Some [c] \<and> peek_char (bump lx) \<noteq> Some ''='' \<and> peek_char (bump lx) \<noteq> Some ''>''" if "t = [c]" for c
    using lx that unfolding cs by (cases r) (simp_all add: peek_char_def spaced_def)
  have double: "peek_char lx = Some [c] \<and> peek_char (bump lx) = Some [d]" if "t = [c, d]" for c d
    using lx that unfolding cs by (simp add: peek_char_def)
  consider (one) c where "t = [c]" "lex_operator_or_punct lx = Ok (k, bump lx)"
    | (two) c d where "t = [c, d]" "lex_operator_or_punct lx = Ok (k, bump (bump lx))"
  proof (cases "length t = 1")
    case True
    then obtain c where c: "t = [c]" by (auto simp: length_Suc_conv)
    have "lex_operator_or_punct lx = Ok (k, bump lx)"
      using k op single [OF c] c by (cases k) (simp_all add: lex_operator_or_punct_def Let_def)
    with c show ?thesis by (rule one)
  next
    case False
    then obtain c d where c: "t = [c, d]" using k op by (cases k) simp_all
    have "lex_operator_or_punct lx = Ok (k, bump (bump lx))"
      using k op double [OF c] c by (cases k) (simp_all add: lex_operator_or_punct_def Let_def)
    with c show ?thesis by (rule two)
  qed
  then show ?thesis
  proof cases
    case one
    then have l: "lx_chars lx = [c] # r" and t: "chars_of t = [[c]]" using lx(1) cs by simp_all
    from eats_bump [OF l] one(2) show ?thesis unfolding t by simp
  next
    case two
    then have l: "lx_chars lx = [c] # [d] # r" and t: "chars_of t = [[c], [d]]" using lx(1) cs by simp_all
    from eats_bump2 [OF l] two(2) show ?thesis unfolding t by simp
  qed
qed

lemma not_start: "ascii_digit [c] \<Longrightarrow> \<not> is_ident_start [c]" "\<not> ascii_digit [CHR 0x27]" "\<not> is_ident_start [CHR 0x27]"
  "\<not> ascii_digit ''$''" "\<not> is_ident_start ''$''"
proof -
  have *: "CHR ''9'' < CHR ''A''" by (simp add: less_char_def)
  show "\<not> is_ident_start [c]" if "ascii_digit [c]"
    using ident_start_bounds [of c] digit_bounds [OF that] * by (meson leD le_less_trans)
qed (simp_all add: less_eq_char_def)

lemma lex_token_complete:
  assumes ok: "lex_ok lx" and k: "spells k t" "k \<noteq> TkEof" and lx: "lx_chars lx = chars_of t @ r" "spaced r"
  shows "\<exists>lx'. lex_token (hd (chars_of t)) lx = Ok (k, lx') \<and> eats lx (chars_of t) lx'"
proof -
  consider (word) "word_text t" "k = (case from_word t of Some w \<Rightarrow> TkKeyword w | None \<Rightarrow> TkIdent t)"
    | (digits) n where "digits_text t" "read_nat t = Some (unat n)" "k = TkInt n"
    | (str) v where "k = TkString v" "t = quoted v" "v = [] \<or> \<not> cont_byte (of_char (hd v))"
    | (param) n d where "k = TkParam n" "t = CHR ''$'' # d" "digits_text d" "read_nat d = Some (unat n)"
    | (op) "\<not> word_text t" "\<not> digits_text t" "\<forall>v. k \<noteq> TkString v" "\<forall>n. k \<noteq> TkParam n"
  proof (cases "\<exists>s. k = TkIdent s \<or> (\<exists>w. k = TkKeyword w) \<or> (\<exists>n. k = TkInt n) \<or> k = TkString s \<or> (\<exists>n. k = TkParam n)")
    case True
    then show ?thesis using k word digits str param by (elim exE disjE) (simp_all, blast)
  next
    case False
    then have "\<not> word_text t \<and> \<not> digits_text t"
      using k by (cases k) (auto simp: word_text_def digits_text_def less_eq_char_def)
    then show ?thesis using op False by blast
  qed
  then show ?thesis
  proof cases
    case word
    have "hd (chars_of t) = [hd t]" using word_chars [OF word(1)] word(1) by (cases t) (simp_all add: word_text_def)
    moreover have s: "is_ident_start [hd t]" using word(1) unfolding word_text_def by blast
    moreover have "\<not> ascii_digit [hd t]" "hd t \<noteq> CHR 0x27" using not_start s by metis+
    ultimately have "lex_token (hd (chars_of t)) lx = lex_ident_or_keyword lx" unfolding lex_token_def by (simp only: if_False if_True list.inject simp_thms)
    then show ?thesis using lex_word_complete [OF ok word(1) lx] word(2) by simp
  next
    case digits
    have "hd (chars_of t) = [hd t]" using digits_chars [OF digits(1)] digits(1) by (cases t) (simp_all add: digits_text_def)
    moreover have "ascii_digit [hd t]" using digits(1) unfolding digits_text_def by (meson hd_in_set)
    ultimately have "lex_token (hd (chars_of t)) lx = lex_number lx" unfolding lex_token_def by simp
    then show ?thesis using lex_number_complete [OF ok digits(1,2) lx] digits(3) by simp
  next
    case (str v)
    note q = quoted_chars [OF str(3)]
    have l: "lx_chars lx = [CHR 0x27] # concat (map escaped (chars_of v)) @ [CHR 0x27] # r" using lx(1) str(2) q by simp
    from lex_string_complete [of "bump lx" "chars_of v" r lx "[]"] lx(2) l obtain lx' where
      "lex_string_from lx [] (bump lx) = Ok (TkString v, lx')" "eats (bump lx) (concat (map escaped (chars_of v)) @ [[CHR 0x27]]) lx'" by auto
    with eats_trans [OF eats_bump [OF l]] str q not_start show ?thesis by (simp add: lex_token_def lex_string_def)
  next
    case (param n d)
    have d: "\<forall>c \<in> set d. is_ident_continue [c]" using param(3) by (simp add: digits_text_def is_ident_continue_def)
    have "chars_of t = map (\<lambda>c. [c]) t" unfolding param(2)
      by (rule chars_of_single) (use d ident_continue_single small_not_cont in \<open>fastforce simp: cont_byte_def\<close>)
    then have cs: "chars_of t = ''$'' # chars_of d" using param(2) digits_chars [OF param(3)] by simp
    from lex_param_complete [OF ok param(3,4), of r] lx cs param(1) not_start show ?thesis by (simp add: lex_token_def)
  next
    case op
    obtain c cs where c: "chars_of t = [c] # cs" using spells_start [OF k] by blast
    have t: "\<forall>c \<in> set t. \<not> cont_byte (of_char c)" using k op by (cases k) (auto simp: cont_byte_def)
    have "t = c # concat cs" using c concat_chars_of [of t] by simp
    then have "\<not> ascii_digit [c] \<and> c \<noteq> CHR 0x27 \<and> \<not> is_ident_start [c] \<and> c \<noteq> CHR ''$''"
      using k op by (cases k) (auto simp: less_eq_char_def)
    then have "lex_token (hd (chars_of t)) lx = lex_operator_or_punct lx" unfolding lex_token_def c by (simp only: list.sel if_False list.inject simp_thms)
    with lex_operator_complete [OF k op lx] show ?thesis by simp
  qed
qed

text \<open>Token texts with single spaces between them.\<close>

lemma chars_join:
  assumes "\<forall>t \<in> set ts. \<exists>k. spells k t \<and> k \<noteq> TkEof"
  shows "chars_of (join_with '' '' (t # ts)) = chars_of t @ concat (map (\<lambda>t. '' '' # chars_of t) ts)"
  using assms
proof (induction ts arbitrary: t)
  case (Cons u ts)
  obtain c cs where c: "chars_of u = [c] # cs" "\<not> cont_byte (of_char c)" using spells_start Cons.prems by (meson list.set_intros(1))
  then have u: "u = c # concat cs" using concat_chars_of [of u] by simp
  let ?rest = "join_with '' '' (u # ts)"
  have sp: "\<not> cont_byte (of_char (CHR '' ''))" by (simp add: cont_byte_def)
  have "?rest = [] \<or> \<not> cont_byte (of_char (hd ?rest))" using c(2) u by (cases ts) simp_all
  from chars_of_append [OF this, of "'' ''"] have "chars_of ('' '' @ ?rest) = '' '' # chars_of ?rest" using chars_of_single [of "'' ''"] sp by simp
  moreover have "chars_of (t @ ('' '' @ ?rest)) = chars_of t @ chars_of ('' '' @ ?rest)" by (rule chars_of_append) (use sp in simp)
  ultimately show ?case using Cons.IH [of u] Cons.prems by simp
qed simp

lemma tokenize_from_spellings:
  assumes "lex_ok lx" "\<forall>(k, t) \<in> set kts. spells k t \<and> k \<noteq> TkEof"
    and "lx_chars lx = concat (map (\<lambda>(k, t). '' '' # chars_of t) kts)
      \<or> (\<exists>k t r. kts = (k, t) # r \<and> lx_chars lx = chars_of t @ concat (map (\<lambda>(k, t). '' '' # chars_of t) r))"
  shows "\<exists>ts. tokenize_from lx = Ok ts \<and> map tok_kind ts = map fst kts @ [TkEof]"
  using assms
proof (induction kts arbitrary: lx)
  case Nil
  then have "skip_whitespace_and_comments lx = Ok lx"
    by (subst skip_whitespace_and_comments.simps) (simp add: peek_char_def remaining_def)
  with Nil show ?case by (subst tokenize_from.simps) (simp add: peek_offset_def)
next
  case (Cons kt kts)
  obtain k t where kt: "kt = (k, t)" by fastforce
  let ?r = "concat (map (\<lambda>(k, t). '' '' # chars_of t) kts)"
  have k: "spells k t" "k \<noteq> TkEof" using Cons.prems(2) kt by simp_all
  have r: "spaced ?r" by (cases kts) (auto simp: spaced_def)
  obtain c cs where c: "chars_of t = [c] # cs" using spells_start [OF k] by blast
  obtain lx1 where lx1: "skip_whitespace_and_comments lx = Ok lx1" "lx_chars lx1 = chars_of t @ ?r" "lex_ok lx1"
  proof (cases "lx_chars lx = chars_of t @ ?r")
    case True
    show ?thesis by (rule that [OF skip_at_token [OF k True r] True Cons.prems(1)])
  next
    case False
    then have l: "lx_chars lx = '' '' # chars_of t @ ?r" using Cons.prems(3) kt by auto
    show ?thesis by (rule that [OF skip_space [OF k l r]]) (use l eats_ok [OF eats_bump [OF l] Cons.prems(1)] in simp_all)
  qed
  obtain lx2 where lx2: "lex_token (hd (chars_of t)) lx1 = Ok (k, lx2)" "eats lx1 (chars_of t) lx2"
    using lex_token_complete [OF lx1(3) k lx1(2) r] by blast
  then have "lx_chars lx2 = ?r" using lx1(2) by (simp add: eats_def)
  then obtain ts where ts: "tokenize_from lx2 = Ok ts" "map tok_kind ts = map fst kts @ [TkEof]"
    using Cons.IH [OF eats_ok [OF lx2(2) lx1(3)]] Cons.prems(2) by auto
  show ?case
    using lx1 lx2(1) ts c kt by (subst tokenize_from.simps) (simp add: peek_offset_def peek_char_def)
qed

text \<open>
  C39: every spelling is read back. Write any tokens with single spaces between them, each in any spelling
  of its kind (keywords in any case, numbers with leading zeros, strings with doubled quotes): the lexer returns
  exactly these tokens, and the end marker.
\<close>

theorem tokens_read_back:
  assumes "\<forall>(k, t) \<in> set kts. spells k t \<and> k \<noteq> TkEof" and "utf8 (bytes_of (join_with '' '' (map snd kts)))"
  shows "\<exists>ts. tokenize (join_with '' '' (map snd kts)) = Ok ts \<and> map tok_kind ts = map fst kts @ [TkEof]"
proof -
  let ?s = "join_with '' '' (map snd kts)"
  have "lx_chars (lexer_new ?s) = concat (map (\<lambda>(k, t). '' '' # chars_of t) kts)
      \<or> (\<exists>k t r. kts = (k, t) # r \<and> lx_chars (lexer_new ?s) = chars_of t @ concat (map (\<lambda>(k, t). '' '' # chars_of t) r))"
  proof (cases kts)
    case Nil
    then show ?thesis by (simp add: lexer_new_def chars_of.simps)
  next
    case (Cons kt r)
    have "\<forall>t \<in> set (map snd r). \<exists>k. spells k t \<and> k \<noteq> TkEof" using assms(1) Cons by force
    from chars_join [OF this, of "snd kt"] Cons show ?thesis by (cases kt) (simp add: lexer_new_def comp_def case_prod_unfold)
  qed
  from tokenize_from_spellings [OF lexer_new_ok [OF assms(2)] assms(1) this] show ?thesis by (simp add: tokenize_def)
qed

theorem tokens_read_back_witness:
  "\<exists>ts. tokenize ''SELECT x <= 042'' = Ok ts \<and> map tok_kind ts = [TkKeyword KSelect, TkIdent ''x'', TkLtEq, TkInt 42, TkEof]"
proof -
  let ?kts = "[(TkKeyword KSelect, ''SELECT''), (TkIdent ''x'', ''x''), (TkLtEq, ''<=''), (TkInt 42, ''042'')]"
  have "\<forall>(k, t) \<in> set ?kts. spells k t \<and> k \<noteq> TkEof"
    by (simp add: word_text_def digits_text_def is_ident_continue_def from_word_def keyword_arms_def to_ascii_uppercase_def
        upper_char_def read_nat_def digit_value_def less_eq_char_def)
  moreover have "utf8 (bytes_of (join_with '' '' (map snd ?kts)))" by (rule utf8_ascii) (simp add: bytes_of_def)
  ultimately show ?thesis using tokens_read_back [of ?kts] by simp
qed

end
