(* ===== verification/Parser.thy ===== *)
theory Parser
  imports Lexer Statements
begin

text \<open>
  The parser of \<open>src/src/parser.rs\<close>: recursive descent for statements, binding powers for expressions. The depth of
  the recursion, which the stack limits, is not modelled.
\<close>

subsection \<open>The state\<close>

text \<open>
  The tokens from the position of the parser on, without the end marker that closes every list of tokens; the parser
  never moves past that marker.
\<close>

record parser =
  ps_source :: string
  ps_rest :: "token list"
  ps_end :: span

type_synonym 'a parse = "parser \<Rightarrow> ('a \<times> parser) outcome"

definition peek :: "parser \<Rightarrow> token" where
  "peek p = (case ps_rest p of [] \<Rightarrow> \<lparr>tok_kind = TkEof, tok_span = ps_end p\<rparr> | t # _ \<Rightarrow> t)"

definition peek_kind :: "parser \<Rightarrow> token_kind" where
  "peek_kind p = tok_kind (peek p)"

definition peek_nth_kind :: "nat \<Rightarrow> parser \<Rightarrow> token_kind" where
  "peek_nth_kind n p = (if n < length (ps_rest p) then tok_kind (ps_rest p ! n) else TkEof)"

definition advance :: "parser \<Rightarrow> parser" where
  "advance p = p\<lparr>ps_rest := tl (ps_rest p)\<rparr>"

abbreviation left :: "parser \<Rightarrow> nat" where
  "left p \<equiv> length (ps_rest p)"

definition error_at_span :: "parser \<Rightarrow> span \<Rightarrow> 'a outcome" where
  "error_at_span p s = (case line_col (ps_source p) (span_start s) of (line, column) \<Rightarrow> Err (Parse line column))"

definition unexpected :: "parser \<Rightarrow> 'a outcome" where
  "unexpected p = error_at_span p (tok_span (peek p))"

definition take_token :: "parser \<Rightarrow> span \<times> parser" where
  "take_token p = (tok_span (peek p), advance p)"

definition expect_keyword :: "keyword \<Rightarrow> span parse" where
  "expect_keyword k p = (if peek_kind p = TkKeyword k then Ok (take_token p) else unexpected p)"

definition expect_punct :: "token_kind \<Rightarrow> span parse" where
  "expect_punct k p = (if peek_kind p = k then Ok (take_token p) else unexpected p)"

definition expect_ident :: "ident parse" where
  "expect_ident p =
     (case peek_kind p of
        TkIdent n \<Rightarrow> (case take_token p of (s, p) \<Rightarrow> Ok (\<lparr>id_name = n, id_span = s\<rparr>, p))
      | _ \<Rightarrow> unexpected p)"

definition expect_end :: "parser \<Rightarrow> unit outcome" where
  "expect_end p =
     (let p = (if peek_kind p = TkSemicolon then advance p else p) in
      if peek_kind p = TkEof then Ok () else unexpected p)"

lemma left_advance: "peek_kind p \<noteq> TkEof \<Longrightarrow> left (advance p) < left p"
  by (cases "ps_rest p") (simp_all add: peek_kind_def peek_def advance_def)

lemma left_advance_le: "left (advance p) \<le> left p"
  by (simp add: advance_def)

lemma left_expect_keyword: "expect_keyword k p = Ok (s, p') \<Longrightarrow> left p' < left p"
  by (auto simp: expect_keyword_def take_token_def unexpected_def error_at_span_def left_advance split: if_splits prod.splits)

lemma left_expect_punct: "k \<noteq> TkEof \<Longrightarrow> expect_punct k p = Ok (s, p') \<Longrightarrow> left p' < left p"
  by (auto simp: expect_punct_def take_token_def unexpected_def error_at_span_def left_advance split: if_splits prod.splits)

lemma left_expect_ident: "expect_ident p = Ok (i, p') \<Longrightarrow> left p' < left p"
  by (auto simp: expect_ident_def take_token_def unexpected_def error_at_span_def left_advance split: token_kind.splits prod.splits)

subsection \<open>Expressions\<close>

definition negate_u64_to_i64 :: "u64 \<Rightarrow> i64 option" where
  "negate_u64_to_i64 magnitude = checked_i64 (- int (unat magnitude))"

definition peek_int :: "parser \<Rightarrow> u64 option" where
  "peek_int p = (case peek_kind p of TkInt n \<Rightarrow> Some n | _ \<Rightarrow> None)"

definition infix_binding_power :: "token_kind \<Rightarrow> (binary_operator \<times> nat \<times> nat) option" where
  "infix_binding_power k =
     map_option (\<lambda>(op, lbp). (op, lbp, lbp + 1))
      (case k of
         TkKeyword w \<Rightarrow> if w = KOr then Some (Or, 1) else if w = KAnd then Some (And, 3) else None
       | TkEq \<Rightarrow> Some (Eq, 6) | TkNotEq \<Rightarrow> Some (NotEq, 6) | TkLt \<Rightarrow> Some (Lt, 6) | TkLtEq \<Rightarrow> Some (LtEq, 6)
       | TkGt \<Rightarrow> Some (Gt, 6) | TkGtEq \<Rightarrow> Some (GtEq, 6)
       | TkPlus \<Rightarrow> Some (Add, 8) | TkMinus \<Rightarrow> Some (Subtract, 8)
       | TkStar \<Rightarrow> Some (Multiply, 10) | TkSlash \<Rightarrow> Some (Divide, 10)
       | _ \<Rightarrow> None)"

definition IS_NULL_BP :: nat where "IS_NULL_BP = 6"
definition NOT_RBP :: nat where "NOT_RBP = 5"
definition NEGATE_RBP :: nat where "NEGATE_RBP = 12"

definition literal_at :: "parser \<Rightarrow> span \<Rightarrow> int \<Rightarrow> i64 outcome" where
  "literal_at p s n = (case checked_i64 n of None \<Rightarrow> error_at_span p s | Some v \<Rightarrow> Ok v)"

abbreviation expr_from :: "nat \<Rightarrow> expr \<Rightarrow> span" where
  "expr_from a e \<equiv> span_new a (span_end (expr_span e))"

abbreviation expr_to :: "expr \<Rightarrow> nat \<Rightarrow> span" where
  "expr_to e b \<equiv> span_new (span_start (expr_span e)) b"

function parse_expr :: "nat \<Rightarrow> expr parse"
  and parse_infix :: "nat \<Rightarrow> expr \<Rightarrow> expr parse"
  and parse_prefix :: "expr parse"
  and parse_primary :: "expr parse"
  and parse_cast :: "expr parse"
  and parse_function_call :: "string \<Rightarrow> span \<Rightarrow> expr parse"
  and parse_exprs :: "expr list parse"
  and parse_aggregate_call :: "aggregate_func \<Rightarrow> span \<Rightarrow> expr parse"
where
  "parse_expr min_bp p = and_then (parse_prefix p) (\<lambda>(lhs, p). parse_infix min_bp lhs p)"
| "parse_infix min_bp lhs p =
    (if peek_kind p = TkKeyword KIs then
       if IS_NULL_BP < min_bp then Ok (lhs, p)
       else
         (let p = advance p;
              negated = (peek_kind p = TkKeyword KNot);
              p = (if negated then advance p else p) in
          and_then (expect_keyword KNull p) (\<lambda>(s, p).
          parse_infix min_bp (IsNull lhs negated (expr_to lhs (span_end s))) p))
     else
       (case infix_binding_power (peek_kind p) of
          None \<Rightarrow> Ok (lhs, p)
        | Some (op, lbp, rbp) \<Rightarrow>
            if lbp < min_bp then Ok (lhs, p)
            else
              and_then (parse_expr rbp (advance p)) (\<lambda>(rhs, p).
              parse_infix min_bp (BinaryOp op lhs rhs (expr_to lhs (span_end (expr_span rhs)))) p)))"
| "parse_prefix p =
    (let start = span_start (tok_span (peek p)) in
     if peek_kind p = TkKeyword KNot then
       and_then (parse_expr NOT_RBP (advance p)) (\<lambda>(operand, p).
       Ok (UnaryOp Not operand (expr_from start operand), p))
     else if peek_kind p = TkMinus then
       (let p = advance p in
        case peek_int p of
          Some magnitude \<Rightarrow>
            (case negate_u64_to_i64 magnitude of
               None \<Rightarrow> error_at_span p (tok_span (peek p))
             | Some value \<Rightarrow> Ok (IntLiteral value (span_new start (span_end (tok_span (peek p)))), advance p))
        | None \<Rightarrow>
            and_then (parse_expr NEGATE_RBP p) (\<lambda>(operand, p).
            Ok (UnaryOp Negate operand (expr_from start operand), p)))
     else parse_primary p)"
| "parse_primary p =
    (let s = tok_span (peek p) in
     case peek_kind p of
       TkInt magnitude \<Rightarrow>
         and_then (literal_at p s (int (unat magnitude))) (\<lambda>value. Ok (IntLiteral value s, advance p))
     | TkString value \<Rightarrow> Ok (StringLiteral value s, advance p)
     | TkKeyword w \<Rightarrow>
         if w = KTrue then Ok (BoolLiteral True s, advance p)
         else if w = KFalse then Ok (BoolLiteral False s, advance p)
         else if w = KNull then Ok (NullLiteral s, advance p)
         else if w = KCast then parse_cast p
         else unexpected p
     | TkParam index \<Rightarrow> Ok (Param index s, advance p)
     | TkIdent name \<Rightarrow>
         (let p = advance p in
          if peek_kind p = TkDot then
            and_then (expect_ident (advance p)) (\<lambda>(column, p).
            Ok (ColumnRef (Some \<lparr>id_name = name, id_span = s\<rparr>) (id_name column)
                 (span_new (span_start s) (span_end (id_span column))), p))
          else if peek_kind p = TkLParen then parse_function_call name s p
          else Ok (ColumnRef None name s, p))
     | TkLParen \<Rightarrow>
         and_then (parse_expr 0 (advance p)) (\<lambda>(inner, p).
         and_then (expect_punct TkRParen p) (\<lambda>(e, p).
         Ok (Paren inner (span_new (span_start s) (span_end e)), p)))
     | _ \<Rightarrow> unexpected p)"
| "parse_cast p =
    and_then (expect_keyword KCast p) (\<lambda>(s, p).
    and_then (expect_punct TkLParen p) (\<lambda>(_, p).
    and_then (parse_expr 0 p) (\<lambda>(e, p).
    and_then (expect_keyword KAs p) (\<lambda>(_, p).
    and_then (expect_ident p) (\<lambda>(type_name, p).
    and_then (expect_punct TkRParen p) (\<lambda>(r, p).
    Ok (Cast e type_name (span_new (span_start s) (span_end r)), p)))))))"
| "parse_function_call name name_span p =
    (case from_name name of
       Some func \<Rightarrow> parse_aggregate_call func name_span p
     | None \<Rightarrow>
         and_then (expect_punct TkLParen p) (\<lambda>(_, p).
         and_then (if peek_kind p \<noteq> TkRParen then parse_exprs p else Ok ([], p)) (\<lambda>(args, p).
         and_then (expect_punct TkRParen p) (\<lambda>(r, p).
         Ok (FunctionCall name args (span_new (span_start name_span) (span_end r)), p)))))"
| "parse_exprs p =
    and_then (parse_expr 0 p) (\<lambda>(e, p).
    if peek_kind p = TkComma
    then and_then (parse_exprs (advance p)) (\<lambda>(es, p). Ok (e # es, p))
    else Ok ([e], p))"
| "parse_aggregate_call func name_span p =
    and_then (expect_punct TkLParen p) (\<lambda>(_, p).
    and_then
     (if func = Count \<and> peek_kind p = TkStar then Ok (None, advance p)
      else if peek_kind p = TkStar then unexpected p
      else and_then (parse_expr 0 p) (\<lambda>(e, p). Ok (Some e, p))) (\<lambda>(arg, p).
    and_then (expect_punct TkRParen p) (\<lambda>(r, p).
    Ok (Aggregate func arg (span_new (span_start name_span) (span_end r)), p))))"
  by pat_completeness auto

lemma unexpected_not_Ok [simp]: "unexpected p \<noteq> Ok x" "error_at_span p s \<noteq> Ok x" "literal_at p s n = Ok v \<longleftrightarrow> checked_i64 n = Some v"
  by (auto simp: unexpected_def error_at_span_def literal_at_def split: prod.splits option.splits)

lemma infix_not_Eof [simp]: "infix_binding_power TkEof = None"
  by (simp add: infix_binding_power_def)

lemma peek_int_advance: "peek_int p = Some n \<Longrightarrow> left (advance p) < left p"
  by (rule left_advance) (auto simp: peek_int_def)

lemma left_expect_paren: "expect_punct TkLParen p = Ok (s, p') \<Longrightarrow> left p' < left p" "expect_punct TkRParen p = Ok (s, p') \<Longrightarrow> left p' < left p"
  by (auto intro: left_expect_punct [rotated])

lemma left_advances:
  "peek_kind p = TkKeyword w \<Longrightarrow> left (advance p) < left p" "peek_kind p = TkMinus \<Longrightarrow> left (advance p) < left p"
  "peek_kind p = TkLParen \<Longrightarrow> left (advance p) < left p" "peek_kind p = TkComma \<Longrightarrow> left (advance p) < left p"
  "peek_kind p = TkIdent n \<Longrightarrow> left (advance p) < left p" "infix_binding_power (peek_kind p) = Some x \<Longrightarrow> left (advance p) < left p"
  by (auto intro: left_advance)

lemmas left_intros = left_expect_keyword left_expect_ident left_expect_paren left_advance peek_int_advance

text \<open>Every routine that succeeds has taken at least one token, the loop over operators possibly none.\<close>

lemma parse_left_dom:
  shows "parse_expr_parse_infix_parse_prefix_parse_primary_parse_cast_parse_function_call_parse_exprs_parse_aggregate_call_dom
      (Inl (Inl (Inl (m, p)))) \<Longrightarrow> (\<And>e p'. parse_expr m p = Ok (e, p') \<Longrightarrow> left p' < left p)"
    and "parse_expr_parse_infix_parse_prefix_parse_primary_parse_cast_parse_function_call_parse_exprs_parse_aggregate_call_dom
      (Inl (Inl (Inr (m, lhs, p)))) \<Longrightarrow> (\<And>e p'. parse_infix m lhs p = Ok (e, p') \<Longrightarrow> left p' \<le> left p)"
    and "parse_expr_parse_infix_parse_prefix_parse_primary_parse_cast_parse_function_call_parse_exprs_parse_aggregate_call_dom
      (Inl (Inr (Inl p))) \<Longrightarrow> (\<And>e p'. parse_prefix p = Ok (e, p') \<Longrightarrow> left p' < left p)"
    and "parse_expr_parse_infix_parse_prefix_parse_primary_parse_cast_parse_function_call_parse_exprs_parse_aggregate_call_dom
      (Inl (Inr (Inr p))) \<Longrightarrow> (\<And>e p'. parse_primary p = Ok (e, p') \<Longrightarrow> left p' < left p)"
    and "parse_expr_parse_infix_parse_prefix_parse_primary_parse_cast_parse_function_call_parse_exprs_parse_aggregate_call_dom
      (Inr (Inl (Inl p))) \<Longrightarrow> (\<And>e p'. parse_cast p = Ok (e, p') \<Longrightarrow> left p' < left p)"
    and "parse_expr_parse_infix_parse_prefix_parse_primary_parse_cast_parse_function_call_parse_exprs_parse_aggregate_call_dom
      (Inr (Inl (Inr (name, s, p)))) \<Longrightarrow> (\<And>e p'. parse_function_call name s p = Ok (e, p') \<Longrightarrow> left p' < left p)"
    and "parse_expr_parse_infix_parse_prefix_parse_primary_parse_cast_parse_function_call_parse_exprs_parse_aggregate_call_dom
      (Inr (Inr (Inl p))) \<Longrightarrow> (\<And>es p'. parse_exprs p = Ok (es, p') \<Longrightarrow> left p' < left p)"
    and "parse_expr_parse_infix_parse_prefix_parse_primary_parse_cast_parse_function_call_parse_exprs_parse_aggregate_call_dom
      (Inr (Inr (Inr (func, s, p)))) \<Longrightarrow> (\<And>e p'. parse_aggregate_call func s p = Ok (e, p') \<Longrightarrow> left p' < left p)"
proof (induction rule: parse_expr_parse_infix_parse_prefix_parse_primary_parse_cast_parse_function_call_parse_exprs_parse_aggregate_call.pinduct)
  case (1 m p)
  from 1(4) show ?case
    using 1(2,3) by (fastforce simp: parse_expr.psimps [OF 1(1)] and_then_Ok_iff)
next
  case (2 m lhs p)
  show ?case
  proof (cases "peek_kind p = TkKeyword KIs")
    case True
    let ?p = "advance p"
    let ?q = "if peek_kind ?p = TkKeyword KNot then advance ?p else ?p"
    have a: "left ?p < left p" by (rule left_advance) (simp add: True)
    have "left (advance ?p) \<le> left ?p" by (simp add: advance_def)
    then have q: "left ?q < left p" using a by simp
    show ?thesis
    proof (cases "IS_NULL_BP < m")
      case False
      with 2(5) True obtain s p1 where e: "expect_keyword KNull ?q = Ok (s, p1)"
        "parse_infix m (IsNull lhs (peek_kind ?p = TkKeyword KNot) (expr_to lhs (span_end s))) p1 = Ok (e, p')"
        by (auto simp: parse_infix.psimps [OF 2(1)] and_then_Ok_iff Let_def)
      from 2(2) [OF True False refl refl refl e(1) refl e(2)] left_expect_keyword [OF e(1)] q show ?thesis by linarith
    qed (use 2(5) True in \<open>simp add: parse_infix.psimps [OF 2(1)]\<close>)
  next
    case False
    show ?thesis
    proof (cases "infix_binding_power (peek_kind p)")
      case (Some x)
      obtain op lbp rbp where x: "x = (op, lbp, rbp)" by (cases x)
      have a: "left (advance p) < left p" by (rule left_advance) (use Some in auto)
      show ?thesis
      proof (cases "lbp < m")
        case not_lt: False
        with 2(5) False Some x obtain rhs p1 where e: "parse_expr rbp (advance p) = Ok (rhs, p1)"
          "parse_infix m (BinaryOp op lhs rhs (expr_to lhs (span_end (expr_span rhs)))) p1 = Ok (e, p')"
          by (auto simp: parse_infix.psimps [OF 2(1)] and_then_Ok_iff)
        from 2(3) [OF False Some x [symmetric] refl not_lt e(1)] 2(4) [OF False Some x [symmetric] refl not_lt e(1) refl e(2)] a
        show ?thesis by linarith
      qed (use 2(5) False Some x in \<open>simp add: parse_infix.psimps [OF 2(1)]\<close>)
    qed (use 2(5) False in \<open>simp add: parse_infix.psimps [OF 2(1)]\<close>)
  qed
next
  case (3 p)
  note ps = parse_prefix.psimps [OF 3(1)]
  show ?case
  proof (cases "peek_kind p = TkKeyword KNot")
    case True
    then have a: "left (advance p) < left p" by (intro left_advance) simp
    from 3(5) True obtain operand where "parse_expr NOT_RBP (advance p) = Ok (operand, p')" by (auto simp: ps and_then_Ok_iff)
    from 3(2) [OF refl True this] a show ?thesis by linarith
  next
    case not_not: False
    show ?thesis
    proof (cases "peek_kind p = TkMinus")
      case True
      then have a: "left (advance p) < left p" by (intro left_advance) simp
      show ?thesis
      proof (cases "peek_int (advance p)")
        case None
        with 3(5) not_not True obtain operand where "parse_expr NEGATE_RBP (advance p) = Ok (operand, p')"
          by (auto simp: ps and_then_Ok_iff)
        from 3(3) [OF refl not_not True refl None this] a show ?thesis by linarith
      next
        case (Some n)
        with 3(5) not_not True have "p' = advance (advance p)" by (auto simp: ps Let_def split: option.splits)
        with peek_int_advance [OF Some] a show ?thesis by simp
      qed
    next
      case False
      with 3(5) not_not have "parse_primary p = Ok (e, p')" by (simp add: ps)
      from 3(4) [OF refl not_not False this] show ?thesis .
    qed
  qed
next
  case (4 p)
  note ps = parse_primary.psimps [OF 4(1)]
  have a: "left (advance p) < left p" if "peek_kind p \<noteq> TkEof" using that by (rule left_advance)
  show ?case
  proof (cases "peek_kind p")
    case (TkIdent name)
    show ?thesis
    proof (cases "peek_kind (advance p) = TkDot")
      case True
      then have "left (advance (advance p)) < left (advance p)" by (intro left_advance) simp
      moreover obtain c where "expect_ident (advance (advance p)) = Ok (c, p')"
        using 4(5) TkIdent True by (auto simp: ps Let_def and_then_Ok_iff)
      ultimately show ?thesis using left_expect_ident a TkIdent by fastforce
    next
      case not_dot: False
      show ?thesis
      proof (cases "peek_kind (advance p) = TkLParen")
        case True
        with 4(5) TkIdent not_dot have "parse_function_call name (tok_span (peek p)) (advance p) = Ok (e, p')" by (simp add: ps Let_def)
        from 4(2) [OF refl TkIdent refl not_dot True this] a TkIdent show ?thesis by simp
      qed (use 4(5) TkIdent not_dot a in \<open>auto simp: ps Let_def\<close>)
    qed
  next
    case (TkKeyword w)
    show ?thesis
    proof (cases "w = KCast")
      case True
      with 4(5) TkKeyword have "parse_cast p = Ok (e, p')" by (simp add: ps Let_def)
      from 4(3) [OF refl TkKeyword _ _ _ True this] True show ?thesis by simp
    qed (use 4(5) TkKeyword a in \<open>auto simp: ps Let_def split: if_splits\<close>)
  next
    case TkLParen
    with 4(5) obtain inner p1 s where e: "parse_expr 0 (advance p) = Ok (inner, p1)" "expect_punct TkRParen p1 = Ok (s, p')"
      by (auto simp: ps Let_def and_then_Ok_iff)
    from 4(4) [OF refl TkLParen e(1)] left_expect_paren(2) [OF e(2)] a TkLParen show ?thesis by simp
  qed (use 4(5) a in \<open>auto simp: ps Let_def and_then_Ok_iff\<close>)
next
  case (5 p)
  from 5(3) obtain s1 p1 s2 p2 e1 p3 s3 p4 t p5 s4 where e: "expect_keyword KCast p = Ok (s1, p1)" "expect_punct TkLParen p1 = Ok (s2, p2)"
    "parse_expr 0 p2 = Ok (e1, p3)" "expect_keyword KAs p3 = Ok (s3, p4)" "expect_ident p4 = Ok (t, p5)" "expect_punct TkRParen p5 = Ok (s4, p')"
    by (auto simp: parse_cast.psimps [OF 5(1)] and_then_Ok_iff)
  from 5(2) [OF e(1) refl e(2) refl e(3)] left_intros(1) [OF e(1)] left_intros(3) [OF e(2)] left_intros(1) [OF e(4)]
    left_intros(2) [OF e(5)] left_intros(4) [OF e(6)] show ?case by linarith
next
  case (6 name s p)
  show ?case
  proof (cases "from_name name")
    case None
    with 6(4) obtain s1 p1 args p2 s2 where e: "expect_punct TkLParen p = Ok (s1, p1)"
      "(if peek_kind p1 \<noteq> TkRParen then parse_exprs p1 else Ok ([], p1)) = Ok (args, p2)" "expect_punct TkRParen p2 = Ok (s2, p')"
      by (auto simp: parse_function_call.psimps [OF 6(1)] and_then_Ok_iff)
    have "left p2 \<le> left p1" using e(2) 6(2) [OF None e(1) refl] by (auto split: if_splits dest: less_imp_le)
    with left_expect_paren(1) [OF e(1)] left_expect_paren(2) [OF e(3)] show ?thesis by linarith
  next
    case (Some f)
    with 6(4) have "parse_aggregate_call f s p = Ok (e, p')" by (simp add: parse_function_call.psimps [OF 6(1)])
    from 6(3) [OF Some this] show ?thesis .
  qed
next
  case (7 p)
  from 7(4) obtain e p1 where e: "parse_expr 0 p = Ok (e, p1)"
    "peek_kind p1 = TkComma \<and> (\<exists>es. parse_exprs (advance p1) = Ok (es, p')) \<or> p' = p1"
    by (auto simp: parse_exprs.psimps [OF 7(1)] and_then_Ok_iff split: if_splits)
  have a: "left (advance p1) < left p1" if "peek_kind p1 = TkComma" using that by (intro left_advance) simp
  from e(2) show ?case
  proof
    assume "peek_kind p1 = TkComma \<and> (\<exists>es. parse_exprs (advance p1) = Ok (es, p'))"
    then obtain es where c: "peek_kind p1 = TkComma" "parse_exprs (advance p1) = Ok (es, p')" by blast
    from 7(2) [OF e(1)] 7(3) [OF e(1) refl c] a [OF c(1)] show ?thesis by linarith
  qed (use 7(2) [OF e(1)] in simp)
next
  case (8 func s p)
  from 8(3) obtain s1 p1 arg p2 s2 where e: "expect_punct TkLParen p = Ok (s1, p1)"
    "(if func = Count \<and> peek_kind p1 = TkStar then Ok (None, advance p1) else if peek_kind p1 = TkStar then unexpected p1
      else and_then (parse_expr 0 p1) (\<lambda>(e, p). Ok (Some e, p))) = Ok (arg, p2)" "expect_punct TkRParen p2 = Ok (s2, p')"
    by (auto simp: parse_aggregate_call.psimps [OF 8(1)] and_then_Ok_iff)
  have "left (advance p1) \<le> left p1" by (simp add: advance_def)
  then have "left p2 \<le> left p1"
    using e(2) 8(2) [OF e(1) refl] by (auto simp: and_then_Ok_iff split: if_splits dest: less_imp_le)
  with left_expect_paren(1) [OF e(1)] left_expect_paren(2) [OF e(3)] show ?case by linarith
qed

lemma parse_all_dom: "All parse_expr_parse_infix_parse_prefix_parse_primary_parse_cast_parse_function_call_parse_exprs_parse_aggregate_call_dom"
  apply (relation "measure (case_sum
      (case_sum (case_sum (\<lambda>(m, p). 4 * left p + 3) (\<lambda>(m, lhs, p). 4 * left p + 1)) (case_sum (\<lambda>p. 4 * left p + 2) (\<lambda>p. 4 * left p + 1)))
      (case_sum (case_sum (\<lambda>p. 4 * left p) (\<lambda>(n, s, p). 4 * left p + 1)) (case_sum (\<lambda>p. 4 * left p + 4) (\<lambda>(f, s, p). 4 * left p))))")
  apply (simp_all split: prod.splits)
  apply (auto dest!: parse_left_dom left_advances left_expect_keyword left_expect_paren)
  subgoal for m p b using left_advance_le [of "advance p"] by (auto split: if_splits)
  done

termination parse_expr
  by (rule parse_all_dom)

lemmas parse_left = parse_left_dom [OF parse_all_dom [THEN spec]]

declare parse_expr.simps [simp del] parse_infix.simps [simp del] parse_prefix.simps [simp del] parse_primary.simps [simp del]
  parse_cast.simps [simp del] parse_function_call.simps [simp del] parse_exprs.simps [simp del] parse_aggregate_call.simps [simp del]

subsection \<open>Lists with commas\<close>

text \<open>
  One item, and one more after every comma. An item takes a token and so does a comma, so as many rounds as there are
  tokens left are enough.
\<close>

fun items_from :: "nat \<Rightarrow> 'a parse \<Rightarrow> 'a list parse" where
  "items_from 0 item p = Panic"
| "items_from (Suc n) item p =
    and_then (item p) (\<lambda>(x, p).
    if peek_kind p = TkComma
    then and_then (items_from n item (advance p)) (\<lambda>(xs, p). Ok (x # xs, p))
    else Ok ([x], p))"

definition comma_list :: "'a parse \<Rightarrow> 'a list parse" where
  "comma_list item p = items_from (Suc (left p)) item p"

definition takes :: "'a parse \<Rightarrow> bool" where
  "takes item \<longleftrightarrow> (\<forall>p x p'. item p = Ok (x, p') \<longrightarrow> left p' < left p)"

lemma takesD: "takes item \<Longrightarrow> item p = Ok (x, p') \<Longrightarrow> left p' < left p"
  by (simp add: takes_def)

lemma items_from_enough:
  "takes item \<Longrightarrow> left p < n \<Longrightarrow> left p < m \<Longrightarrow> items_from n item p = items_from m item p"
proof (induction n item p arbitrary: m rule: items_from.induct)
  case (2 n item p)
  obtain k where m: "m = Suc k" using "2.prems"(3) by (cases m) auto
  have "items_from n item (advance p') = items_from k item (advance p')" if x: "item p = Ok (x, p')" and c: "peek_kind p' = TkComma" for x p'
  proof (rule "2.IH" [OF x refl c "2.prems"(1)])
    have "left p' < left p" by (rule takesD [OF "2.prems"(1) x])
    moreover have "left (advance p') < left p'" by (rule left_advance) (simp add: c)
    ultimately show "left (advance p') < n" "left (advance p') < k" using "2.prems" m by linarith+
  qed
  then show ?case unfolding m by (auto intro!: and_then_cong)
qed simp

lemma comma_list_eq:
  assumes "takes item"
  shows "comma_list item p = and_then (item p) (\<lambda>(x, p).
    if peek_kind p = TkComma then and_then (comma_list item (advance p)) (\<lambda>(xs, p). Ok (x # xs, p)) else Ok ([x], p))"
proof -
  have "items_from (left p) item (advance p') = comma_list item (advance p')" if x: "item p = Ok (x, p')" and c: "peek_kind p' = TkComma" for x p'
    unfolding comma_list_def
  proof (rule items_from_enough [OF assms])
    have "left p' < left p" by (rule takesD [OF assms x])
    moreover have "left (advance p') < left p'" by (rule left_advance) (simp add: c)
    ultimately show "left (advance p') < left p" by linarith
  qed simp
  then show ?thesis unfolding comma_list_def [of item p] by (auto intro!: and_then_cong)
qed

subsection \<open>Parts of statements\<close>

definition at_keyword :: "keyword \<Rightarrow> parser \<Rightarrow> bool" where
  "at_keyword k p \<longleftrightarrow> peek_kind p = TkKeyword k"

text \<open>A keyword with an expression, or nothing; with the end of the statement so far.\<close>

definition expr_clause :: "keyword \<Rightarrow> nat \<Rightarrow> (expr option \<times> nat) parse" where
  "expr_clause k e p =
     (if at_keyword k p then and_then (parse_expr 0 (advance p)) (\<lambda>(x, p). Ok ((Some x, span_end (expr_span x)), p))
      else Ok ((None, e), p))"

definition alias_clause :: "ident option parse" where
  "alias_clause p =
     (if at_keyword KAs p then and_then (expect_ident (advance p)) (\<lambda>(i, p). Ok (Some i, p)) else Ok (None, p))"

definition parse_literal :: "literal parse" where
  "parse_literal p =
     (let s = tok_span (peek p) in
      case peek_kind p of
        TkInt magnitude \<Rightarrow> and_then (literal_at p s (int (unat magnitude))) (\<lambda>v. Ok (LitInt v s, advance p))
      | TkMinus \<Rightarrow>
          (let p = advance p in
           case peek_int p of
             None \<Rightarrow> unexpected p
           | Some magnitude \<Rightarrow>
               (case negate_u64_to_i64 magnitude of
                  None \<Rightarrow> error_at_span p (tok_span (peek p))
                | Some v \<Rightarrow> Ok (LitInt v (span_new (span_start s) (span_end (tok_span (peek p)))), advance p)))
      | TkString v \<Rightarrow> Ok (LitText v s, advance p)
      | TkKeyword w \<Rightarrow>
          if w = KTrue then Ok (LitBool True s, advance p)
          else if w = KFalse then Ok (LitBool False s, advance p)
          else if w = KNull then Ok (LitNull s, advance p)
          else unexpected p
      | _ \<Rightarrow> unexpected p)"

definition parse_order_by_item :: "order_by_item parse" where
  "parse_order_by_item p =
     and_then (parse_expr 0 p) (\<lambda>(e, p).
     let (desc, b, p) =
       (if at_keyword KAsc p then (False, span_end (tok_span (peek p)), advance p)
        else if at_keyword KDesc p then (True, span_end (tok_span (peek p)), advance p)
        else (False, span_end (expr_span e), p)) in
     Ok (\<lparr>ob_expr = e, ob_desc = desc, ob_span = expr_to e b\<rparr>, p))"

definition parse_join_clause :: "join_clause option parse" where
  "parse_join_clause p =
     (if \<not> at_keyword KJoin p \<and> \<not> at_keyword KInner p then Ok (None, p)
      else
        (let start = span_start (tok_span (peek p)) in
         and_then (if at_keyword KInner p then and_then (expect_keyword KJoin (advance p)) (\<lambda>(_, p). Ok ((), p)) else Ok ((), advance p))
          (\<lambda>(_, p).
         and_then (expect_ident p) (\<lambda>(table, p).
         and_then (alias_clause p) (\<lambda>(alias, p).
         and_then (expect_keyword KOn p) (\<lambda>(_, p).
         and_then (parse_expr 0 p) (\<lambda>(on, p).
         Ok (Some \<lparr>jc_kind = Inner, jc_table = table, jc_alias = alias, jc_on = on, jc_span = expr_from start on\<rparr>, p))))))))"

text \<open>\<open>while let Some(join) = self.parse_join_clause()?\<close>; as many rounds as there are tokens are enough.\<close>

fun parse_joins_from :: "nat \<Rightarrow> join_clause list parse" where
  "parse_joins_from 0 p = Panic"
| "parse_joins_from (Suc n) p =
    and_then (parse_join_clause p) (\<lambda>(j, p).
    case j of
      None \<Rightarrow> Ok ([], p)
    | Some join \<Rightarrow> and_then (parse_joins_from n p) (\<lambda>(joins, p). Ok (join # joins, p)))"

definition parse_joins :: "join_clause list parse" where
  "parse_joins p = parse_joins_from (Suc (left p)) p"

definition parse_select_item :: "select_item parse" where
  "parse_select_item p =
     (if peek_kind p = TkStar then Ok (Wildcard (tok_span (peek p)), advance p)
      else and_then (parse_expr 0 p) (\<lambda>(e, p). Ok (SelectExpr e (expr_span e), p)))"

fun select_item_span :: "select_item \<Rightarrow> span" where
  "select_item_span (SelectExpr _ s) = s"
| "select_item_span (Wildcard s) = s"

definition parse_assignment :: "assignment parse" where
  "parse_assignment p =
     and_then (expect_ident p) (\<lambda>(column, p).
     and_then (expect_punct TkEq p) (\<lambda>(_, p).
     and_then (parse_expr 0 p) (\<lambda>(e, p).
     Ok (\<lparr>asg_column = column, asg_value = e, asg_span = expr_from (span_start (id_span column)) e\<rparr>, p))))"

definition parse_values_row :: "(expr list \<times> nat) parse" where
  "parse_values_row p =
     and_then (expect_punct TkLParen p) (\<lambda>(_, p).
     and_then (comma_list (parse_expr 0) p) (\<lambda>(values, p).
     and_then (expect_punct TkRParen p) (\<lambda>(r, p).
     Ok ((values, span_end r), p))))"

text \<open>The loop over the constraints of a column: the flags and the end of the definition so far.\<close>

function parse_constraints :: "bool \<times> bool \<times> bool \<Rightarrow> nat \<Rightarrow> ((bool \<times> bool \<times> bool) \<times> nat) parse" where
  "parse_constraints flags e p =
    (case flags of (nn, pk, uq) \<Rightarrow>
     if at_keyword KNot p then
       and_then (expect_keyword KNull (advance p)) (\<lambda>(s, p). parse_constraints (True, pk, uq) (span_end s) p)
     else if at_keyword KPrimary p then
       and_then (expect_keyword KKey (advance p)) (\<lambda>(s, p). parse_constraints (nn, True, uq) (span_end s) p)
     else if at_keyword KUnique p then
       parse_constraints (nn, pk, True) (span_end (tok_span (peek p))) (advance p)
     else Ok ((flags, e), p))"
  by pat_completeness auto
termination
proof (relation "measure (\<lambda>(flags, e, p). left p)", goal_cases)
  case (2 flags e p a b c d x s q)
  have "left (advance p) \<le> left p" by (rule left_advance_le)
  then show ?case using 2 left_expect_keyword [of KNull "advance p" s q] by simp
next
  case (3 flags e p a b c d x s q)
  have "left (advance p) \<le> left p" by (rule left_advance_le)
  then show ?case using 3 left_expect_keyword [of KKey "advance p" s q] by simp
next
  case (4 flags e p a b c d)
  then show ?case using left_advances(1) by (simp add: at_keyword_def)
qed simp

declare parse_constraints.simps [simp del]

definition parse_column_def :: "column_def parse" where
  "parse_column_def p =
     and_then (expect_ident p) (\<lambda>(name, p).
     and_then (expect_ident p) (\<lambda>(type_name, p).
     and_then (parse_constraints (False, False, False) (span_end (id_span type_name)) p) (\<lambda>(((nn, pk, uq), e), p).
     Ok (\<lparr>cd_name = name, cd_type_name = type_name, cd_not_null = nn, cd_primary_key = pk,
          cd_unique = uq, cd_span = span_new (span_start (id_span name)) e\<rparr>, p))))"

subsection \<open>Statements\<close>

text \<open>An optional part of \<open>SELECT\<close>: a keyword, \<open>BY\<close>, and a list; without it, nothing.\<close>

definition by_clause :: "keyword \<Rightarrow> 'a parse \<Rightarrow> ('a \<Rightarrow> span) \<Rightarrow> nat \<Rightarrow> ('a list \<times> nat) parse" where
  "by_clause k item get_span e p =
     (if at_keyword k p then
        and_then (expect_keyword KBy (advance p)) (\<lambda>(_, p).
        and_then (comma_list item p) (\<lambda>(xs, p).
        Ok ((xs, span_end (get_span (last xs))), p)))
      else Ok (([], e), p))"

definition parse_from_clause :: "nat \<Rightarrow> (from_clause option \<times> nat) parse" where
  "parse_from_clause e p =
     (if at_keyword KFrom p then
        and_then (expect_ident (advance p)) (\<lambda>(table, p).
        and_then (alias_clause p) (\<lambda>(alias, p).
        and_then (parse_joins p) (\<lambda>(joins, p).
        let from_end = (if joins \<noteq> [] then span_end (jc_span (last joins))
                        else case alias of Some a \<Rightarrow> span_end (id_span a) | None \<Rightarrow> span_end (id_span table)) in
        Ok ((Some \<lparr>fc_table = table, fc_alias = alias, fc_joins = joins,
                   fc_span = span_new (span_start (id_span table)) from_end\<rparr>, from_end), p))))
      else Ok ((None, e), p))"

definition parse_select_statement :: "select_statement parse" where
  "parse_select_statement p =
     and_then (expect_keyword KSelect p) (\<lambda>(s, p).
     let distinct = at_keyword KDistinct p; p = (if distinct then advance p else p) in
     and_then (comma_list parse_select_item p) (\<lambda>(items, p).
     and_then (parse_from_clause (span_end (select_item_span (last items))) p) (\<lambda>((from, e), p).
     and_then (expr_clause KWhere e p) (\<lambda>((where_clause, e), p).
     and_then (by_clause KGroup (parse_expr 0) expr_span e p) (\<lambda>((group_by, e), p).
     and_then (expr_clause KHaving e p) (\<lambda>((having, e), p).
     and_then (by_clause KOrder parse_order_by_item ob_span e p) (\<lambda>((order_by, e), p).
     and_then (expr_clause KLimit e p) (\<lambda>((limit, e), p).
     and_then (expr_clause KOffset e p) (\<lambda>((offset, e), p).
     Ok (\<lparr>sel_distinct = distinct, sel_items = items, sel_from = from, sel_where = where_clause, sel_group_by = group_by,
          sel_having = having, sel_order_by = order_by, sel_limit = limit, sel_offset = offset,
          sel_span = span_new (span_start s) e\<rparr>, p))))))))))"

definition parse_create_table_statement :: "create_table_statement parse" where
  "parse_create_table_statement p =
     and_then (expect_keyword KCreate p) (\<lambda>(s, p).
     and_then (expect_keyword KTable p) (\<lambda>(_, p).
     and_then (expect_ident p) (\<lambda>(table, p).
     and_then (expect_punct TkLParen p) (\<lambda>(_, p).
     and_then (comma_list parse_column_def p) (\<lambda>(columns, p).
     and_then (expect_punct TkRParen p) (\<lambda>(r, p).
     Ok (\<lparr>ct_table = table, ct_columns = columns, ct_span = span_new (span_start s) (span_end r)\<rparr>, p)))))))"

definition parse_drop_table_statement :: "drop_table_statement parse" where
  "parse_drop_table_statement p =
     and_then (expect_keyword KDrop p) (\<lambda>(s, p).
     and_then (expect_keyword KTable p) (\<lambda>(_, p).
     and_then (expect_ident p) (\<lambda>(table, p).
     Ok (\<lparr>dt_table = table, dt_span = span_new (span_start s) (span_end (id_span table))\<rparr>, p))))"

definition parse_create_index_statement :: "bool \<Rightarrow> create_index_statement parse" where
  "parse_create_index_statement uniq p =
     and_then (expect_keyword KCreate p) (\<lambda>(s, p).
     and_then (if uniq then and_then (expect_keyword KUnique p) (\<lambda>(_, p). Ok ((), p)) else Ok ((), p)) (\<lambda>(_, p).
     and_then (expect_keyword KIndex p) (\<lambda>(_, p).
     and_then (expect_ident p) (\<lambda>(index, p).
     and_then (expect_keyword KOn p) (\<lambda>(_, p).
     and_then (expect_ident p) (\<lambda>(table, p).
     and_then (expect_punct TkLParen p) (\<lambda>(_, p).
     and_then (expect_ident p) (\<lambda>(column, p).
     and_then (expect_punct TkRParen p) (\<lambda>(r, p).
     Ok (\<lparr>ci_unique = uniq, ci_index = index, ci_table = table, ci_column = column,
          ci_span = span_new (span_start s) (span_end r)\<rparr>, p))))))))))"

definition parse_drop_index_statement :: "drop_index_statement parse" where
  "parse_drop_index_statement p =
     and_then (expect_keyword KDrop p) (\<lambda>(s, p).
     and_then (expect_keyword KIndex p) (\<lambda>(_, p).
     and_then (expect_ident p) (\<lambda>(index, p).
     Ok (\<lparr>di_index = index, di_span = span_new (span_start s) (span_end (id_span index))\<rparr>, p))))"

definition parse_create_statement :: "statement parse" where
  "parse_create_statement p =
     (if peek_nth_kind 1 p = TkKeyword KTable
      then and_then (parse_create_table_statement p) (\<lambda>(s, p). Ok (CreateTable s, p))
      else if peek_nth_kind 1 p = TkKeyword KIndex
      then and_then (parse_create_index_statement False p) (\<lambda>(s, p). Ok (CreateIndex s, p))
      else if peek_nth_kind 1 p = TkKeyword KUnique
      then and_then (parse_create_index_statement True p) (\<lambda>(s, p). Ok (CreateIndex s, p))
      else unexpected p)"

definition parse_drop_statement :: "statement parse" where
  "parse_drop_statement p =
     (if peek_nth_kind 1 p = TkKeyword KTable
      then and_then (parse_drop_table_statement p) (\<lambda>(s, p). Ok (DropTable s, p))
      else if peek_nth_kind 1 p = TkKeyword KIndex
      then and_then (parse_drop_index_statement p) (\<lambda>(s, p). Ok (DropIndex s, p))
      else unexpected p)"

definition parse_insert_statement :: "insert_statement parse" where
  "parse_insert_statement p =
     and_then (expect_keyword KInsert p) (\<lambda>(s, p).
     and_then (expect_keyword KInto p) (\<lambda>(_, p).
     and_then (expect_ident p) (\<lambda>(table, p).
     and_then
       (if peek_kind p = TkLParen then
          and_then (comma_list expect_ident (advance p)) (\<lambda>(columns, p).
          and_then (expect_punct TkRParen p) (\<lambda>(_, p). Ok (Some columns, p)))
        else Ok (None, p)) (\<lambda>(columns, p).
     and_then (expect_keyword KValues p) (\<lambda>(_, p).
     and_then (comma_list parse_values_row p) (\<lambda>(rows, p).
     Ok (\<lparr>ins_table = table, ins_columns = columns, ins_rows = map fst rows,
          ins_span = span_new (span_start s) (snd (last rows))\<rparr>, p)))))))"

definition parse_update_statement :: "update_statement parse" where
  "parse_update_statement p =
     and_then (expect_keyword KUpdate p) (\<lambda>(s, p).
     and_then (expect_ident p) (\<lambda>(table, p).
     and_then (expect_keyword KSet p) (\<lambda>(_, p).
     and_then (comma_list parse_assignment p) (\<lambda>(assignments, p).
     and_then (expr_clause KWhere (span_end (asg_span (last assignments))) p) (\<lambda>((where_clause, e), p).
     Ok (\<lparr>upd_table = table, upd_assignments = assignments, upd_where = where_clause,
          upd_span = span_new (span_start s) e\<rparr>, p))))))"

definition parse_delete_statement :: "delete_statement parse" where
  "parse_delete_statement p =
     and_then (expect_keyword KDelete p) (\<lambda>(s, p).
     and_then (expect_keyword KFrom p) (\<lambda>(_, p).
     and_then (expect_ident p) (\<lambda>(table, p).
     and_then (expr_clause KWhere (span_end (id_span table)) p) (\<lambda>((where_clause, e), p).
     Ok (\<lparr>del_table = table, del_where = where_clause, del_span = span_new (span_start s) e\<rparr>, p)))))"

text \<open>The four statements that \<open>EXPLAIN\<close> takes.\<close>

definition parse_explained :: "statement parse" where
  "parse_explained p =
     (if at_keyword KSelect p then and_then (parse_select_statement p) (\<lambda>(s, p). Ok (Select s, p))
      else if at_keyword KInsert p then and_then (parse_insert_statement p) (\<lambda>(s, p). Ok (Insert s, p))
      else if at_keyword KUpdate p then and_then (parse_update_statement p) (\<lambda>(s, p). Ok (Update s, p))
      else if at_keyword KDelete p then and_then (parse_delete_statement p) (\<lambda>(s, p). Ok (Delete s, p))
      else unexpected p)"

definition parse_explain_statement :: "statement parse" where
  "parse_explain_statement p =
     and_then (expect_keyword KExplain p) (\<lambda>(s, p).
     let analyze = at_keyword KAnalyze p; p = (if analyze then advance p else p) in
     and_then (parse_explained p) (\<lambda>(statement, p).
     Ok (Explain statement analyze (span_new (span_start s) (span_end (statement_span statement))), p)))"

text \<open>An optional table name; the statement ends with it or with its keyword of \<open>n\<close> characters.\<close>

definition optional_table :: "nat \<Rightarrow> nat \<Rightarrow> (ident option \<times> nat) parse" where
  "optional_table start n p =
     (case peek_kind p of
        TkIdent _ \<Rightarrow> and_then (expect_ident p) (\<lambda>(i, p). Ok ((Some i, span_end (id_span i)), p))
      | _ \<Rightarrow> Ok ((None, start + n), p))"

definition parse_optional_from_table :: "ident option parse" where
  "parse_optional_from_table p =
     (if at_keyword KFrom p then and_then (expect_ident (advance p)) (\<lambda>(i, p). Ok (Some i, p)) else Ok (None, p))"

definition parse_analyze_statement :: "statement parse" where
  "parse_analyze_statement p =
     and_then (expect_keyword KAnalyze p) (\<lambda>(s, p).
     and_then (optional_table (span_start s) 7 p) (\<lambda>((table, e), p).
     Ok (Analyze table (span_new (span_start s) e), p)))"

definition parse_isolation_level :: "(isolation_level \<times> nat) parse" where
  "parse_isolation_level p =
     (if at_keyword KRead p then
        (let p = advance p in
         if at_keyword KUncommitted p then Ok ((ReadUncommitted, span_end (tok_span (peek p))), advance p)
         else if at_keyword KCommitted p then Ok ((ReadCommitted, span_end (tok_span (peek p))), advance p)
         else unexpected p)
      else if at_keyword KRepeatable p then
        and_then (expect_keyword KRead (advance p)) (\<lambda>(s, p). Ok ((RepeatableRead, span_end s), p))
      else if at_keyword KSerializable p then Ok ((Serializable, span_end (tok_span (peek p))), advance p)
      else unexpected p)"

definition parse_begin_statement :: "statement parse" where
  "parse_begin_statement p =
     and_then (expect_keyword KBegin p) (\<lambda>(s, p).
     if \<not> at_keyword KIsolation p then Ok (Begin None s, p)
     else
       and_then (expect_keyword KLevel (advance p)) (\<lambda>(_, p).
       and_then (parse_isolation_level p) (\<lambda>((level, e), p).
       Ok (Begin (Some level) (span_new (span_start s) e), p))))"

definition parse_show_statement :: "statement parse" where
  "parse_show_statement p =
     and_then (expect_keyword KShow p) (\<lambda>(s, p).
     let start = span_start s in
     if at_keyword KTables p then Ok (ShowTables (span_new start (span_end (tok_span (peek p)))), advance p)
     else if at_keyword KIndexes p then
       and_then (parse_optional_from_table (advance p)) (\<lambda>(table, p).
       Ok (ShowIndexes table (span_new start (case table of Some t \<Rightarrow> span_end (id_span t) | None \<Rightarrow> start + 12)), p))
     else if at_keyword KStats p then
       and_then (parse_optional_from_table (advance p)) (\<lambda>(table, p).
       Ok (ShowStats table (span_new start (case table of Some t \<Rightarrow> span_end (id_span t) | None \<Rightarrow> start + 10)), p))
     else unexpected p)"

definition parse_describe_statement :: "statement parse" where
  "parse_describe_statement p =
     (let start = span_start (tok_span (peek p)) in
      and_then (expect_ident (advance p)) (\<lambda>(table, p).
      Ok (Describe table (span_new start (span_end (id_span table))), p)))"

definition parse_vacuum_statement :: "statement parse" where
  "parse_vacuum_statement p =
     and_then (expect_keyword KVacuum p) (\<lambda>(s, p).
     and_then (optional_table (span_start s) 6 p) (\<lambda>((table, e), p).
     Ok (Vacuum table (span_new (span_start s) e), p)))"

definition parse_execute_statement :: "statement parse" where
  "parse_execute_statement p =
     and_then (expect_keyword KExecute p) (\<lambda>(s, p).
     and_then (expect_ident p) (\<lambda>(name, p).
     and_then
       (if peek_kind p = TkLParen then
          (let p = advance p in
           and_then (if peek_kind p \<noteq> TkRParen then comma_list parse_literal p else Ok ([], p)) (\<lambda>(args, p).
           and_then (expect_punct TkRParen p) (\<lambda>(r, p). Ok ((args, span_end r), p))))
        else Ok (([], span_end (id_span name)), p)) (\<lambda>((args, e), p).
     Ok (Execute name args (span_new (span_start s) e), p))))"

definition parse_deallocate_statement :: "statement parse" where
  "parse_deallocate_statement p =
     and_then (expect_keyword KDeallocate p) (\<lambda>(s, p).
     and_then (expect_ident p) (\<lambda>(name, p).
     Ok (Deallocate name (span_new (span_start s) (span_end (id_span name))), p)))"

function parse_statement_at :: "statement parse" where
  "parse_statement_at p =
    (case peek_kind p of
       TkKeyword k \<Rightarrow>
         if k = KSelect then and_then (parse_select_statement p) (\<lambda>(s, p). Ok (Select s, p))
         else if k = KCreate then parse_create_statement p
         else if k = KDrop then parse_drop_statement p
         else if k = KInsert then and_then (parse_insert_statement p) (\<lambda>(s, p). Ok (Insert s, p))
         else if k = KUpdate then and_then (parse_update_statement p) (\<lambda>(s, p). Ok (Update s, p))
         else if k = KDelete then and_then (parse_delete_statement p) (\<lambda>(s, p). Ok (Delete s, p))
         else if k = KExplain then parse_explain_statement p
         else if k = KAnalyze then parse_analyze_statement p
         else if k = KBegin then parse_begin_statement p
         else if k = KCommit then and_then (expect_keyword KCommit p) (\<lambda>(s, p). Ok (Commit s, p))
         else if k = KRollback then and_then (expect_keyword KRollback p) (\<lambda>(s, p). Ok (Rollback s, p))
         else if k = KCheckpoint then and_then (expect_keyword KCheckpoint p) (\<lambda>(s, p). Ok (Checkpoint s, p))
         else if k = KPrepare then
           and_then (expect_keyword KPrepare p) (\<lambda>(s, p).
           and_then (expect_ident p) (\<lambda>(name, p).
           and_then (expect_keyword KAs p) (\<lambda>(_, p).
           and_then (parse_statement_at p) (\<lambda>(statement, p).
           Ok (Prepare name statement (span_new (span_start s) (span_end (statement_span statement))), p)))))
         else if k = KExecute then parse_execute_statement p
         else if k = KDeallocate then parse_deallocate_statement p
         else if k = KShow then parse_show_statement p
         else if k = KDescribe \<or> k = KDesc then parse_describe_statement p
         else if k = KVacuum then parse_vacuum_statement p
         else unexpected p
     | _ \<Rightarrow> unexpected p)"
  by pat_completeness auto
termination
  by (relation "measure left") (auto dest!: left_expect_keyword left_expect_ident)

declare parse_statement_at.simps [simp del]

text \<open>\<open>parse_statement\<close>: the tokens of the source, the last of which is the end marker.\<close>

definition parse_statement :: "string \<Rightarrow> statement outcome" where
  "parse_statement source =
     and_then (tokenize source) (\<lambda>tokens.
     if tokens = [] then Panic
     else
       and_then (parse_statement_at \<lparr>ps_source = source, ps_rest = butlast tokens, ps_end = tok_span (last tokens)\<rparr>)
         (\<lambda>(statement, p).
       and_then (expect_end p) (\<lambda>_. Ok statement)))"

end
