(* ===== verification/Parser_Safe.thy ===== *)
theory Parser_Safe
  imports Parser
begin

text \<open>
  Safety of the parser: on every text it ends with a statement or with an error at a position.
\<close>

subsection \<open>No panic\<close>

definition clean :: "'a outcome \<Rightarrow> bool" where
  "clean r \<longleftrightarrow> r \<noteq> Panic \<and> (\<forall>e. r = Err e \<longrightarrow> (\<exists>line column. e = Parse line column))"

named_theorems clean_intros

lemma clean_Ok [clean_intros]: "clean (Ok x)"
  by (simp add: clean_def)

lemma clean_error [clean_intros]: "clean (unexpected p)" "clean (error_at_span p s)"
  by (simp_all add: clean_def unexpected_def error_at_span_def split: prod.splits)

lemma clean_and_then [clean_intros]: "clean r \<Longrightarrow> (\<And>x. r = Ok x \<Longrightarrow> clean (f x)) \<Longrightarrow> clean (and_then r f)"
  by (cases r) (simp_all add: clean_def)

lemma clean_case_prod [clean_intros]: "(\<And>a b. x = (a, b) \<Longrightarrow> clean (f a b)) \<Longrightarrow> clean (case x of (a, b) \<Rightarrow> f a b)"
  by (cases x) simp

lemma clean_if [clean_intros]: "(b \<Longrightarrow> clean r) \<Longrightarrow> (\<not> b \<Longrightarrow> clean s) \<Longrightarrow> clean (if b then r else s)"
  by simp

lemma clean_option [clean_intros]: "(x = None \<Longrightarrow> clean r) \<Longrightarrow> (\<And>y. x = Some y \<Longrightarrow> clean (f y)) \<Longrightarrow> clean (case x of None \<Rightarrow> r | Some y \<Rightarrow> f y)"
  by (cases x) simp_all

lemma clean_expect [clean_intros]: "clean (expect_keyword k p)" "clean (expect_punct k' p)" "clean (expect_ident p)"
  unfolding expect_keyword_def expect_punct_def expect_ident_def
  by (auto intro!: clean_intros split: token_kind.splits prod.splits)

lemma clean_literal [clean_intros]: "clean (literal_at p s n)"
  unfolding literal_at_def by (auto intro!: clean_intros split: option.splits)

lemma parse_expr_clean:
  "clean (parse_expr m p)" "clean (parse_infix m lhs p)" "clean (parse_prefix p)" "clean (parse_primary p)"
  "clean (parse_cast p)" "clean (parse_function_call name s p)" "clean (parse_exprs p)" "clean (parse_aggregate_call func s p)"
proof (induction m p and m lhs p and p and p and p and name s p and p and func s p
    rule: parse_expr_parse_infix_parse_prefix_parse_primary_parse_cast_parse_function_call_parse_exprs_parse_aggregate_call.induct)
  case (1 m p)
  then show ?case by (subst parse_expr.simps) (auto intro!: clean_intros)
next
  case (2 m lhs p)
  then show ?case by (subst parse_infix.simps) (auto intro!: clean_intros simp: Let_def)
next
  case (3 p)
  then show ?case by (subst parse_prefix.simps) (auto intro!: clean_intros simp: Let_def)
next
  case (4 p)
  then show ?case by (subst parse_primary.simps) (auto intro!: clean_intros simp: Let_def split: token_kind.splits)
next
  case (5 p)
  then show ?case by (subst parse_cast.simps) (auto intro!: clean_intros)
next
  case (6 name s p)
  then show ?case by (subst parse_function_call.simps) (auto intro!: clean_intros)
next
  case (7 p)
  then show ?case by (subst parse_exprs.simps) (auto intro!: clean_intros)
next
  case (8 func s p)
  then show ?case by (subst parse_aggregate_call.simps) (auto intro!: clean_intros)
qed

declare parse_expr_clean [clean_intros]

lemma takes_and_then: "takes f \<Longrightarrow> (\<And>x p y p'. g x p = Ok (y, p') \<Longrightarrow> left p' \<le> left p) \<Longrightarrow> takes (\<lambda>p. and_then (f p) (\<lambda>(x, p). g x p))"
  unfolding takes_def by (fastforce simp: and_then_Ok_iff)

lemma takes_expr: "takes (parse_expr m)"
  using parse_left(1) by (simp add: takes_def)

lemma takes_ident: "takes expect_ident"
  using left_expect_ident by (simp add: takes_def)

lemma takes_select_item: "takes parse_select_item"
  unfolding takes_def parse_select_item_def
  by (auto simp: and_then_Ok_iff split: if_splits dest: parse_left(1) intro: left_advance)

lemma takes_literal: "takes parse_literal"
  unfolding takes_def
proof (intro allI impI)
  fix p x p'
  assume run: "parse_literal p = Ok (x, p')"
  show "left p' < left p"
  proof (cases "peek_kind p = TkMinus")
    case True
    have "left (advance (advance p)) \<le> left (advance p)" by (rule left_advance_le)
    moreover have "left (advance p) < left p" using True by (rule left_advances(2))
    moreover have "p' = advance (advance p)" using run True by (auto simp: parse_literal_def Let_def split: option.splits)
    ultimately show ?thesis by simp
  next
    case False
    with run have "p' = advance p \<and> peek_kind p \<noteq> TkEof"
      by (auto simp: parse_literal_def Let_def and_then_Ok_iff split: token_kind.splits if_splits)
    then show ?thesis using left_advance by blast
  qed
qed

lemma takes_order_by_item: "takes parse_order_by_item"
  unfolding parse_order_by_item_def Let_def
  by (rule takes_and_then [OF takes_expr]) (use left_advance_le in \<open>auto split: if_splits prod.splits\<close>)

lemma takes_assignment: "takes parse_assignment"
  unfolding parse_assignment_def
  by (rule takes_and_then [OF takes_ident]) (auto simp: and_then_Ok_iff dest!: left_expect_punct [rotated] parse_left(1))

lemma left_items: "takes item \<Longrightarrow> items_from n item p = Ok (xs, p') \<Longrightarrow> left p' < left p"
proof (induction n item p arbitrary: xs p' rule: items_from.induct)
  case (2 n item p)
  obtain x p1 where x: "item p = Ok (x, p1)" "peek_kind p1 = TkComma \<and> (\<exists>ys. items_from n item (advance p1) = Ok (ys, p')) \<or> p' = p1"
    using "2.prems"(2) by (auto simp: and_then_Ok_iff split: if_splits)
  have l: "left p1 < left p" by (rule takesD [OF "2.prems"(1) x(1)])
  from x(2) show ?case
  proof
    assume "peek_kind p1 = TkComma \<and> (\<exists>ys. items_from n item (advance p1) = Ok (ys, p'))"
    then obtain ys where ys: "peek_kind p1 = TkComma" "items_from n item (advance p1) = Ok (ys, p')" by blast
    from "2.IH" [OF x(1) refl ys(1) "2.prems"(1) ys(2)] l left_advance_le [of p1] show ?thesis by linarith
  qed (use l in simp)
qed simp

lemma left_comma_list: "takes item \<Longrightarrow> comma_list item p = Ok (xs, p') \<Longrightarrow> left p' < left p"
  unfolding comma_list_def by (rule left_items)

lemma takes_values_row: "takes parse_values_row"
  unfolding parse_values_row_def
  by (rule takes_and_then [of "expect_punct TkLParen"])
    (auto simp: takes_def and_then_Ok_iff dest!: left_expect_paren left_comma_list [OF takes_expr])

lemma left_constraints: "parse_constraints flags e p = Ok (x, p') \<Longrightarrow> left p' \<le> left p"
proof (induction flags e p rule: parse_constraints.induct)
  case (1 flags e p)
  obtain nn pk uq where f: "flags = (nn, pk, uq)" by (cases flags)
  have a: "left (advance p) \<le> left p" by (rule left_advance_le)
  consider (nn) s p1 where "at_keyword KNot p" "expect_keyword KNull (advance p) = Ok (s, p1)"
      "parse_constraints (True, pk, uq) (span_end s) p1 = Ok (x, p')"
    | (pk) s p1 where "\<not> at_keyword KNot p" "at_keyword KPrimary p" "expect_keyword KKey (advance p) = Ok (s, p1)"
      "parse_constraints (nn, True, uq) (span_end s) p1 = Ok (x, p')"
    | (uq) "\<not> at_keyword KNot p" "\<not> at_keyword KPrimary p" "at_keyword KUnique p"
      "parse_constraints (nn, pk, True) (span_end (tok_span (peek p))) (advance p) = Ok (x, p')"
    | (stop) "p' = p"
    using 1(4) f by (subst (asm) parse_constraints.simps) (auto simp: and_then_Ok_iff split: if_splits)
  then show ?case
  proof cases
    case (nn s p1)
    from 1(1) [OF f [symmetric] refl nn(1,2) refl nn(3)] left_expect_keyword [OF nn(2)] a show ?thesis by linarith
  next
    case (pk s p1)
    from 1(2) [OF f [symmetric] refl pk(1,2,3) refl pk(4)] left_expect_keyword [OF pk(3)] a show ?thesis by linarith
  next
    case uq
    from 1(3) [OF f [symmetric] refl uq] a show ?thesis by linarith
  qed simp
qed

lemma takes_column_def: "takes parse_column_def"
  unfolding parse_column_def_def
  by (rule takes_and_then [OF takes_ident]) (auto simp: and_then_Ok_iff dest!: left_expect_ident left_constraints)

lemma takes_join: "parse_join_clause p = Ok (Some j, p') \<Longrightarrow> left p' < left p"
proof -
  assume run: "parse_join_clause p = Ok (Some j, p')"
  then have at: "at_keyword KJoin p \<or> at_keyword KInner p" by (auto simp: parse_join_clause_def split: if_splits)
  then have a: "left (advance p) < left p" by (auto simp: at_keyword_def intro: left_advances)
  obtain u p1 t p2 al p3 s p4 x where e:
    "(if at_keyword KInner p then and_then (expect_keyword KJoin (advance p)) (\<lambda>(_, p). Ok ((), p)) else Ok ((), advance p)) = Ok (u, p1)"
    "expect_ident p1 = Ok (t, p2)" "alias_clause p2 = Ok (al, p3)" "expect_keyword KOn p3 = Ok (s, p4)" "parse_expr 0 p4 = Ok (x, p')"
    using run at by (auto simp: parse_join_clause_def Let_def and_then_Ok_iff split: if_splits)
  have "left p1 \<le> left (advance p)" using e(1) by (auto simp: and_then_Ok_iff split: if_splits dest: left_expect_keyword)
  moreover have "left p3 \<le> left p2"
    using e(3) left_advance_le [of p2] by (auto simp: alias_clause_def and_then_Ok_iff split: if_splits dest!: left_expect_ident)
  ultimately show ?thesis
    using a left_expect_ident [OF e(2)] left_expect_keyword [OF e(4)] parse_left(1) [OF e(5)] by linarith
qed

lemma comma_list_clean [clean_intros]:
  assumes "takes item" "\<And>p. clean (item p)"
  shows "clean (comma_list item p)"
proof (induction "left p" arbitrary: p rule: less_induct)
  case less
  show ?case
  proof (subst comma_list_eq [OF assms(1)], intro clean_intros assms(2))
    fix xp x p' assume x: "item p = Ok xp" "xp = (x, p')" and c: "peek_kind p' = TkComma"
    have "left p' < left p" using takesD [OF assms(1)] x by simp
    then show "clean (comma_list item (advance p'))" using left_advance_le [of p'] by (intro less) linarith
  qed
qed

lemmas takes_items [clean_intros] = takes_expr takes_ident takes_select_item takes_literal takes_order_by_item takes_assignment
  takes_values_row takes_column_def

lemma parts_clean [clean_intros]:
  "clean (expr_clause k e p)" "clean (alias_clause p)" "clean (parse_literal p)" "clean (parse_order_by_item p)"
  "clean (parse_select_item p)" "clean (parse_assignment p)" "clean (parse_values_row p)"
  "clean (optional_table a n p)" "clean (parse_optional_from_table p)" "clean (parse_isolation_level p)"
  unfolding expr_clause_def alias_clause_def parse_literal_def parse_order_by_item_def parse_select_item_def
    parse_assignment_def parse_values_row_def optional_table_def parse_optional_from_table_def parse_isolation_level_def
  by (auto intro!: clean_intros simp: Let_def split: token_kind.splits)

lemma join_clean [clean_intros]: "clean (parse_join_clause p)"
  unfolding parse_join_clause_def by (auto intro!: clean_intros parts_clean simp: Let_def)

lemma joins_from_clean: "left p < n \<Longrightarrow> clean (parse_joins_from n p)"
proof (induction n p rule: parse_joins_from.induct)
  case (2 n p)
  show ?case
  proof (subst parse_joins_from.simps, intro clean_intros join_clean)
    fix jp j p' join assume x: "parse_join_clause p = Ok jp" "jp = (j, p')" "j = Some join"
    then have "left p' < left p" using takes_join by blast
    then show "clean (parse_joins_from n p')" using 2 x by simp
  qed
qed simp

lemma parse_joins_clean [clean_intros]: "clean (parse_joins p)"
  unfolding parse_joins_def by (rule joins_from_clean) simp

lemma constraints_clean [clean_intros]: "clean (parse_constraints flags e p)"
  by (induction flags e p rule: parse_constraints.induct) (subst parse_constraints.simps, auto intro!: clean_intros)

lemma column_def_clean [clean_intros]: "clean (parse_column_def p)"
  unfolding parse_column_def_def by (auto intro!: clean_intros)

lemma clauses_clean [clean_intros]:
  "clean (parse_from_clause e p)" "takes item \<Longrightarrow> (\<And>p. clean (item p)) \<Longrightarrow> clean (by_clause k item g e p)"
  unfolding parse_from_clause_def by_clause_def by (auto intro!: clean_intros simp: Let_def)

lemma statements_clean [clean_intros]:
  "clean (parse_select_statement p)" "clean (parse_create_table_statement p)" "clean (parse_drop_table_statement p)"
  "clean (parse_create_index_statement u p)" "clean (parse_drop_index_statement p)" "clean (parse_insert_statement p)"
  "clean (parse_update_statement p)" "clean (parse_delete_statement p)"
  unfolding parse_select_statement_def parse_create_table_statement_def parse_drop_table_statement_def
    parse_create_index_statement_def parse_drop_index_statement_def parse_insert_statement_def parse_update_statement_def
    parse_delete_statement_def
  by (auto intro!: clean_intros simp: Let_def)

lemma small_statements_clean [clean_intros]:
  "clean (parse_create_statement p)" "clean (parse_drop_statement p)" "clean (parse_explained p)" "clean (parse_explain_statement p)"
  "clean (parse_analyze_statement p)" "clean (parse_begin_statement p)" "clean (parse_show_statement p)"
  "clean (parse_describe_statement p)" "clean (parse_vacuum_statement p)" "clean (parse_execute_statement p)"
  "clean (parse_deallocate_statement p)"
  unfolding parse_create_statement_def parse_drop_statement_def parse_explained_def parse_explain_statement_def
    parse_analyze_statement_def parse_begin_statement_def parse_show_statement_def parse_describe_statement_def
    parse_vacuum_statement_def parse_execute_statement_def parse_deallocate_statement_def
  by (auto intro!: clean_intros simp: Let_def)

lemma statement_clean [clean_intros]: "clean (parse_statement_at p)"
  by (induction p rule: parse_statement_at.induct)
    (subst parse_statement_at.simps, auto intro!: clean_intros split: token_kind.splits)

text \<open>The lexer fails with a lexical error only.\<close>

definition lexical :: "'a outcome \<Rightarrow> bool" where
  "lexical r \<longleftrightarrow> (\<forall>e. r = Err e \<longrightarrow> (\<exists>line column. e = Lex line column))"

lemma lexical_rules:
  "lexical (Ok y)" "lexical (lex_error lx)" "lexical (expect x)"
  "lexical r \<Longrightarrow> (\<And>x. r = Ok x \<Longrightarrow> lexical (f x)) \<Longrightarrow> lexical (and_then r f)"
  "(b \<Longrightarrow> lexical s) \<Longrightarrow> (\<not> b \<Longrightarrow> lexical t) \<Longrightarrow> lexical (if b then s else t)"
  "(z = None \<Longrightarrow> lexical u) \<Longrightarrow> (\<And>y. z = Some y \<Longrightarrow> lexical (g y)) \<Longrightarrow> lexical (case z of None \<Rightarrow> u | Some y \<Rightarrow> g y)"
  "(\<And>a b. v = (a, b) \<Longrightarrow> lexical (h a b)) \<Longrightarrow> lexical (case v of (a, b) \<Rightarrow> h a b)"
  by (auto simp: lexical_def lex_error_def expect_def and_then_Err_iff split: option.splits prod.splits)

lemma skip_lexical: "lexical (skip_whitespace_and_comments lx)"
  by (induction lx rule: skip_whitespace_and_comments.induct)
    (subst skip_whitespace_and_comments.simps, auto intro!: lexical_rules)

lemma lex_string_lexical: "lexical (lex_string_from lx0 v lx)"
  by (induction lx0 v lx rule: lex_string_from.induct)
    (subst lex_string_from.simps, auto intro!: lexical_rules simp: Let_def)

lemma lex_token_lexical: "lexical (lex_token ch lx)"
  unfolding lex_token_def lex_number_def lex_string_def lex_ident_or_keyword_def lex_param_def lex_operator_or_punct_def Let_def lexeme_def
  by (intro lexical_rules lex_string_lexical)

lemma tokenize_lexical: "lexical (tokenize_from lx)"
proof (induction lx rule: tokenize_from.induct)
  case (1 lx)
  show ?case
    by (subst tokenize_from.simps, intro lexical_rules skip_lexical lex_token_lexical 1) (assumption | erule sym)+
qed



end
