(* ===== verification/Spec2Isabelle.thy ===== *)
theory Spec2Isabelle
  imports Deadlock Slotted_Page Protocol Mem_Executor Statements Exec_Correct Btree_Spec Buffer_Log Parser_Safe
begin

text \<open>
  A verification library for minidb, the SQL database of this repository (Rust, under \<open>src/src\<close>).

  \<^bold>\<open>The program.\<close> A statement is parsed (\<open>lexer.rs\<close>, \<open>parser.rs\<close>, \<open>ast.rs\<close>), bound to the catalog
  (\<open>binder.rs\<close>), turned into a logical plan (\<open>logical_plan.rs\<close>), rewritten (\<open>rules.rs\<close>), mapped to physical
  operators (\<open>physical_plan.rs\<close>, \<open>join_order.rs\<close>) and run by pulling rows; INSERT, UPDATE and DELETE plan all their
  changes first and then write them (\<open>executor.rs\<close>, \<open>constraints.rs\<close>). Rows live in memory
  (\<open>storage_mem.rs\<close>) or on disk: slotted pages (\<open>slotted_page.rs\<close>) inside checksummed pages (\<open>page.rs\<close>) of a file
  (\<open>disk_manager.rs\<close>) behind a buffer pool (\<open>buffer_pool.rs\<close>), rows encoded by \<open>tuple_codec.rs\<close>, changes logged first (\<open>wal.rs\<close>), columns indexed by B+trees
  (\<open>btree.rs\<close>, \<open>btree_page.rs\<close>) on files of their own. Transactions are isolated by two-phase
  locking (\<open>lock_manager.rs\<close>) with deadlock detection (\<open>database.rs\<close>), and clients speak the wire protocol of
  \<open>protocol.rs\<close>.

  \<^bold>\<open>Theories.\<close>
  \<^item> \<open>Prelude\<close>: words, little-endian encodings, checked slices, UTF-8 strings, decimal numerals.
  \<^item> \<open>Errors\<close>: \<open>DbError\<close> and outcomes. \<open>Ok\<close>, \<open>Err\<close> and \<open>Panic\<close> are the ways a piece of the program ends;
    \<open>and_then\<close> is the question mark operator. Message texts are dropped, everything a caller can branch on is kept.
  \<^item> \<open>Types\<close> (\<open>types.rs\<close>), \<open>Ast\<close> and \<open>Eval\<close> (\<open>ast.rs\<close>, \<open>eval.rs\<close>): values, schemas, tuples; expressions and
    both evaluators. Shown: the order of values is total within a type, arithmetic is exact or an error, the
    three-valued connectives are a lattice with De Morgan's laws.
  \<^item> \<open>Lexer\<close> (\<open>lexer.rs\<close>), \<open>Parser\<close> (\<open>parser.rs\<close>): the text of a statement to tokens and to its syntax tree, spans
    included. Shown: blanks and tokens tile the text and every spelling of a token is read back; \<open>Parser_Safe\<close>: on
    every text the parser ends with a statement or an error at a position.
  \<^item> \<open>Binder\<close>, \<open>Statements\<close> (\<open>binder.rs\<close>): name resolution, types, aggregation, ORDER BY, and all statements.
    Shown: a bound expression evaluates to its static type, NULL, or an error that only the data can cause; the
    bound form and the syntax evaluate alike; the rewriting for aggregation leaves valid slots only.
  \<^item> \<open>Logical_Plan\<close>, \<open>Conjuncts\<close>, \<open>Rules\<close> (\<open>logical_plan.rs\<close>, \<open>rules.rs\<close>, the predicate analysis of
    \<open>physical_plan.rs\<close>): plans, their construction and display, the five rewriting rules and their fixpoint loop.
  \<^item> \<open>Operators\<close>: the query operators of \<open>physical_plan.rs\<close> as functions on row streams. \<open>Query_Spec\<close> gives the
    rows of a plan with the list functions of HOL, \<open>Plan_Typing\<close> types plans and their rows, and \<open>Rules_Correct\<close>
    proves that the optimiser keeps types, rows and their order and never fails.
  \<^item> \<open>Physical_Plan\<close>, \<open>Join_Order\<close> (\<open>physical_plan.rs\<close>, \<open>join_order.rs\<close>): physical plans, the candidates for
    scans and joins, the search for a join order by sets of tables. The order of costs is the parameter \<open>cheaper\<close>,
    the indexes of a table another. \<open>Query_Exec\<close> builds and runs operators on the memory backend (\<open>database.rs\<close>)
    and shows that a run that succeeds yields the rows its physical plan stands for; \<open>Exec_Correct\<close> shows that
    planning keeps the rows, so that a SELECT that succeeds returns what its query means, and the inputs on
    which planning goes wrong.
  \<^item> \<open>Catalog\<close>, \<open>Mem_Executor\<close> (\<open>catalog.rs\<close>, \<open>storage_mem.rs\<close>, \<open>constraints.rs\<close>, \<open>executor.rs\<close>,
    \<open>transaction.rs\<close>, parts of \<open>database.rs\<close>): the memory backend. Shown: uniqueness checks are exact, a failed
    statement changes nothing, rollback restores every table, and catalog, rows and constraints agree in every
    reachable state.
  \<^item> \<open>Codec\<close>, \<open>Tuple_Codec\<close>, \<open>Page\<close>, \<open>Slotted_Page\<close>, \<open>Ids\<close>: the formats on disk. Shown: round trips, rejection
    of every single damaged byte of a page, and that slotted pages implement a map from slots to records.
  \<^item> \<open>Disk_Manager\<close> (\<open>disk_manager.rs\<close>): the page file, byte by byte, with what the operating system may refuse.
    Shown: in every run the file is a list of pages, and reopening it changes nothing.
  \<^item> \<open>Buffer_Pool\<close> (\<open>buffer_pool.rs\<close>): frames, page table, pins, clock and write-back over the page file. Shown:
    caching is invisible to the callers, flushed pages survive a restart, pinned pages stay in their frames, and
    how a failed eviction mixes up two pages. \<open>Buffer_Log\<close>: with a log attached, no page reaches the file before
    its log records are durable.
  \<^item> \<open>Page_Store\<close>: the numbered pages that the clients of the buffer pool see, effects on a state, and loops that
    may not return. \<open>Btree_Page\<close> (\<open>btree_page.rs\<close>): both kinds of B+tree page. Shown: bytes that pass the
    check of opening are safe for every accessor, and a page written from a list of entries shows that list.
  \<^item> \<open>Btree\<close> (\<open>btree.rs\<close>): the operations of the index on its pages. \<open>Btree_Keys\<close> shows that encoded keys
    keep the order of the values; \<open>Btree_Tree\<close> gives the trees that pages represent, with separators, bounds and
    linked leaves, \<open>Btree_Insert\<close> the effect of splits on them and \<open>Btree_Scan\<close> the leaf walk of a scan;
    \<open>Btree_Index\<close> and \<open>Btree_Spec\<close> conclude that a unique index is a finite map for its callers, that its range
    scans select in order, and that nothing in it loops. The pages of a file are counted in 64 bits; an insertion
    is considered while twice the number of pages stays below that. Lookups, scans and insertions in an index that
    allows equal keys run the same definitions; the theorems are about unique ones.
  \<^item> \<open>Wal\<close> (\<open>wal.rs\<close>): log records, torn tails, the writer with failing and partial writes, crashes. Shown: a cut
    log reads as exactly the records before the cut, and whatever was reported durable survives every crash.
  \<^item> \<open>Lock_Manager\<close>, \<open>Deadlock\<close>: every operation of the lock table, the wait-for graph and the choice of
    the victim. Shown: holders are compatible in every reachable state, detection is exact, and without a
    victim somebody can run.
  \<^item> \<open>Protocol\<close>: frames, requests, responses and result sets. Shown: round trips, and that arbitrary bytes never
    cause a panic or a read beyond the announced frame.

  \<^bold>\<open>Modelling choices.\<close> A string is the list of its UTF-8 bytes. A machine integer is a word where its width
  matters and a \<open>nat\<close> where it is a length or an index of something in memory; overflow that a debug build
  reports is \<open>Panic\<close>. A \<open>HashMap\<close> is a map; where the code iterates one, the order is an argument. Mutable
  state is passed along. A file is its content and the length of the part that survives a crash; a crash keeps
  that part and any prefix of the rest. Loops are structural recursion, or recursion on a measure that is
  proved to go down; the only bound is that of the code, \<open>MAX_ITERATIONS\<close> rounds of rewriting rules, and the
  theorems hold for whatever plan the last round leaves. A loop that follows pointers between pages is a
  partial function whose value is \<open>None\<close> when it does not return. A \<open>debug_assert!\<close> is dropped. Time, threads, sockets and the cancellation token are
  not modelled.

  \<^bold>\<open>Interfaces.\<close> \<open>state_machine\<close> (an invariant that every step keeps) is interpreted for the lock table, the
  strict two-phase discipline, the log writer and the pool with its log; \<open>simulation\<close> (every call has the same answers in an
  implementation and its specification) for the page file, the cached pages and the unique index; \<open>cursor_codec\<close> and \<open>wire_codec\<close> (decoding after encoding, with
  the rest untouched) for every encoded item; \<open>slot_store\<close> (a map with failing inserts) for slotted pages;
  \<open>typed_functions\<close> (functions keep their declared types) for the built-in functions.

  \<^bold>\<open>Not modelled\<close>, in the order of the plan: index scans and the correctness of searched join orders,
  heap files, free space map, the storage engine and recovery,
  sessions. Out of reach: cost formulas (floating point; any cost order is allowed where they decide), the
  server (sockets and threads), fault injection and the command line.
\<close>

end
